(* ===== verification/Prelude.thy ===== *)
theory Prelude
  imports Main
begin

text \<open>
  Shared vocabulary of the development: the JavaScript containers the sources use (a \<open>Map\<close>
  keeps insertion order, a \<open>Set\<close> is a duplicate-free sequence), the nullish operator, and the
  interfaces (locales) that several components implement: keyed stores, systems with an
  invariant, status tables and three-way comparators.
\<close>

named_theorems container_simps \<open>laws of the JavaScript containers\<close>
named_theorems handler_defs \<open>definitions of the handlers a proof unfolds\<close>

section \<open>Basic types\<close>

text \<open>
  JavaScript numbers that hold times, counters and sizes are integers below \<open>2 ^ 53\<close> in the
  modelled code, where double arithmetic is exact; they are modelled as \<open>int\<close> or \<open>nat\<close>.
\<close>

type_synonym time = int

text \<open>
  Every call of \<open>new Date()\<close> or \<open>Date.now()\<close> inside one handler may see a later time.
  A handler therefore takes a \<open>clock\<close>: \<open>clk k\<close> is what its \<open>k\<close>-th clock read returns.
\<close>

type_synonym clock = "nat \<Rightarrow> time"

text \<open>The nullish operator \<open>o ?? d\<close>.\<close>

definition nullish :: "'a option \<Rightarrow> 'a \<Rightarrow> 'a" where
  "nullish v d = (case v of None \<Rightarrow> d | Some x \<Rightarrow> x)"

lemma nullish_simps [simp]: "nullish None d = d" "nullish (Some x) d = x"
  by (simp_all add: nullish_def)

section \<open>JavaScript maps\<close>

text \<open>
  A \<open>Map\<close> iterates in insertion order, and setting a present key keeps its place. It is an
  association list with distinct keys.
\<close>

type_synonym ('k, 'v) jsmap = "('k \<times> 'v) list"

definition jget :: "('k, 'v) jsmap \<Rightarrow> 'k \<Rightarrow> 'v option" where
  "jget m k = map_of m k"

fun jset :: "'k \<Rightarrow> 'v \<Rightarrow> ('k, 'v) jsmap \<Rightarrow> ('k, 'v) jsmap" where
  "jset k v [] = [(k, v)]"
| "jset k v ((k', v') # m) = (if k' = k then (k, v) # m else (k', v') # jset k v m)"

definition jdel :: "'k \<Rightarrow> ('k, 'v) jsmap \<Rightarrow> ('k, 'v) jsmap" where
  "jdel k m = filter (\<lambda>p. fst p \<noteq> k) m"

definition jkeys :: "('k, 'v) jsmap \<Rightarrow> 'k list" where
  "jkeys m = map fst m"

definition jvalues :: "('k, 'v) jsmap \<Rightarrow> 'v list" where
  "jvalues m = map snd m"

definition jwf :: "('k, 'v) jsmap \<Rightarrow> bool" where
  "jwf m \<longleftrightarrow> distinct (jkeys m)"

lemma jget_Nil [simp]: "jget [] k = None"
  by (simp add: jget_def)

lemma jget_Cons [simp]: "jget ((k', v) # m) k = (if k' = k then Some v else jget m k)"
  by (simp add: jget_def)

lemma jget_jset [simp, container_simps]:
  "jget (jset k v m) k' = (if k' = k then Some v else jget m k')"
  by (induction m rule: jset.induct) auto

lemma jget_jdel [simp, container_simps]:
  "jget (jdel k m) k' = (if k' = k then None else jget m k')"
  by (induction m) (auto simp: jdel_def)

lemma set_jkeys_jset: "set (jkeys (jset k v m)) = insert k (set (jkeys m))"
  by (induction k v m rule: jset.induct) (auto simp: jkeys_def)

lemma set_jkeys_jdel: "set (jkeys (jdel k m)) = set (jkeys m) - {k}"
  by (auto simp: jkeys_def jdel_def)

lemma jwf_Nil [simp]: "jwf []"
  by (simp add: jwf_def jkeys_def)

lemma jwf_jset [simp, container_simps]: "jwf m \<Longrightarrow> jwf (jset k v m)"
proof (induction k v m rule: jset.induct)
  case (2 k v k' v' m)
  then show ?case
    using set_jkeys_jset [of k v m] by (auto simp: jwf_def jkeys_def)
qed (simp add: jwf_def jkeys_def)

lemma jwf_jdel [simp, container_simps]: "jwf m \<Longrightarrow> jwf (jdel k m)"
  by (auto simp: jwf_def jkeys_def jdel_def distinct_map inj_on_def)

lemma length_jset: "length (jset k v m) = (if jget m k = None then Suc (length m) else length m)"
  by (induction k v m rule: jset.induct) auto

lemma length_jdel_le: "length (jdel k m) \<le> length m"
  by (simp add: jdel_def)

lemma jget_in: "jwf m \<Longrightarrow> jget m k = Some v \<longleftrightarrow> (k, v) \<in> set m"
  by (simp add: jwf_def jkeys_def jget_def)

lemma jget_mem: "jget m k = Some v \<Longrightarrow> (k, v) \<in> set m"
  by (simp add: jget_def map_of_SomeD)

lemma jget_jkeys: "jget m k = None \<longleftrightarrow> k \<notin> set (jkeys m)"
  by (simp add: jget_def jkeys_def map_of_eq_None_iff)

lemma jvalues_jget: "jwf m \<Longrightarrow> v \<in> set (jvalues m) \<longleftrightarrow> (\<exists>k. jget m k = Some v)"
  by (force simp: jvalues_def jget_in)

lemma jget_filter: "jwf m \<Longrightarrow> jget (filter P m) k = (case jget m k of None \<Rightarrow> None | Some v \<Rightarrow> if P (k, v) then Some v else None)"
  by (induction m) (auto simp: jwf_def jkeys_def jget_def map_of_eq_None_iff split: option.splits)

lemma jwf_filter: "jwf m \<Longrightarrow> jwf (filter P m)"
  by (simp add: jwf_def jkeys_def distinct_map inj_on_filter_key_eq) (auto simp: inj_on_def)

section \<open>JavaScript sets\<close>

type_synonym 'a jsset = "'a list"

definition sadd :: "'a \<Rightarrow> 'a jsset \<Rightarrow> 'a jsset" where
  "sadd x s = (if x \<in> set s then s else s @ [x])"

definition sdel :: "'a \<Rightarrow> 'a jsset \<Rightarrow> 'a jsset" where
  "sdel x s = filter (\<lambda>y. y \<noteq> x) s"

lemma set_sadd [simp, container_simps]: "set (sadd x s) = insert x (set s)"
  by (auto simp: sadd_def)

lemma set_sdel [simp, container_simps]: "set (sdel x s) = set s - {x}"
  by (auto simp: sdel_def)

lemma distinct_sadd [simp, container_simps]: "distinct s \<Longrightarrow> distinct (sadd x s)"
  by (simp add: sadd_def)

lemma distinct_sdel [simp, container_simps]: "distinct s \<Longrightarrow> distinct (sdel x s)"
  by (simp add: sdel_def)

lemma set_fold_sadd [simp, container_simps]: "set (fold sadd xs s) = set s \<union> set xs"
  by (induction xs arbitrary: s) auto

lemma length_sadd_le: "length s \<le> length (sadd x s)"
  by (simp add: sadd_def)

section \<open>Numbers in a radix\<close>

text \<open>\<open>n.toString(r)\<close> of a natural number, and the number at the end of an identifier that is made of parts with a separator.\<close>

fun show_radix :: "nat \<Rightarrow> nat \<Rightarrow> string" where
  "show_radix r n =
     (if r < 2 \<or> n < r then [char_of (if n < 10 then 48 + n else 87 + n)]
      else show_radix r (n div r) @ [char_of (if n mod r < 10 then 48 + n mod r else 87 + n mod r)])"

declare show_radix.simps [simp del]

definition digit_value :: "char \<Rightarrow> nat" where
  "digit_value c = (if of_char c < (58 :: nat) then of_char c - 48 else of_char c - 87)"

definition last_number :: "char \<Rightarrow> nat \<Rightarrow> string \<Rightarrow> nat" where
  "last_number sep r s = foldl (\<lambda>n c. n * r + digit_value c) 0 (rev (takeWhile (\<lambda>c. c \<noteq> sep) (rev s)))"

lemma digit_char:
  assumes "d < 36"
  shows "digit_value (char_of (if d < 10 then 48 + d else 87 + d)) = d"
    "char_of (if d < 10 then 48 + d else 87 + d) \<noteq> CHR ''_''" "char_of (if d < 10 then 48 + d else 87 + d) \<noteq> CHR ''-''"
proof -
  let ?c = "char_of (if d < 10 then 48 + d else 87 + d) :: char"
  have c: "of_char ?c = (if d < 10 then 48 + d else 87 + d)"
    using assms by (simp add: of_char_mod_256)
  show "digit_value ?c = d"
    unfolding digit_value_def c using assms by simp
  have "of_char ?c \<noteq> (of_char (CHR ''_'') :: nat)" "of_char ?c \<noteq> (of_char (CHR ''-'') :: nat)"
    unfolding c using assms by simp_all
  then show "?c \<noteq> CHR ''_''" "?c \<noteq> CHR ''-''"
    by metis+
qed

lemma show_radix_value:
  assumes "2 \<le> r" "r \<le> 36"
  shows "foldl (\<lambda>n c. n * r + digit_value c) 0 (show_radix r n) = n \<and> CHR ''_'' \<notin> set (show_radix r n) \<and> CHR ''-'' \<notin> set (show_radix r n)"
proof (induction n rule: less_induct)
  case (less n)
  show ?case
  proof (cases "n < r")
    case True
    then show ?thesis
      using digit_char [of n] assms by (simp add: show_radix.simps [of r n])
  next
    case False
    then have "n div r < n" "n mod r < 36"
      using assms by (auto intro: less_le_trans [OF mod_less_divisor])
    then show ?thesis
      using less.IH [of "n div r"] digit_char [of "n mod r"] False assms by (simp add: show_radix.simps [of r n])
  qed
qed

lemma last_number_shown:
  assumes "2 \<le> r" "r \<le> 36" "sep = CHR ''_'' \<or> sep = CHR ''-''"
  shows "last_number sep r (x @ sep # show_radix r n) = n"
proof -
  have "sep \<notin> set (show_radix r n)"
    using assms show_radix_value [OF assms(1,2), of n] by auto
  then have "takeWhile (\<lambda>c. c \<noteq> sep) (rev (show_radix r n) @ sep # rev x) = rev (show_radix r n)"
    by (subst takeWhile_append2) auto
  then show ?thesis
    using show_radix_value [OF assms(1,2), of n] by (simp add: last_number_def)
qed

section \<open>Array helpers\<close>

text \<open>\<open>arr.find(p)\<close>, and the update of the element it finds (through its reference).\<close>

definition upd_first :: "('a \<Rightarrow> bool) \<Rightarrow> ('a \<Rightarrow> 'a) \<Rightarrow> 'a list \<Rightarrow> 'a list" where
  "upd_first p f xs =
     takeWhile (\<lambda>x. \<not> p x) xs @
     (case dropWhile (\<lambda>x. \<not> p x) xs of [] \<Rightarrow> [] | y # ys \<Rightarrow> f y # ys)"

lemma upd_first_Nil [simp]: "upd_first p f [] = []"
  by (simp add: upd_first_def)

lemma upd_first_Cons [simp]:
  "upd_first p f (x # xs) = (if p x then f x # xs else x # upd_first p f xs)"
  by (simp add: upd_first_def)

lemma length_upd_first [simp]: "length (upd_first p f xs) = length xs"
  by (induction xs) auto

lemma upd_first_none: "find p xs = None \<Longrightarrow> upd_first p f xs = xs"
  by (induction xs) (auto split: if_splits)

lemma find_mem: "find p xs = Some x \<Longrightarrow> x \<in> set xs \<and> p x"
  by (induction xs) (auto split: if_splits)

lemma find_none_iff: "find p xs = None \<longleftrightarrow> (\<forall>x \<in> set xs. \<not> p x)"
  by (induction xs) auto

text \<open>\<open>arr.slice(-n)\<close>: the last \<open>n\<close> elements; \<open>slice(-0)\<close> is the whole array.\<close>

definition slice_last :: "nat \<Rightarrow> 'a list \<Rightarrow> 'a list" where
  "slice_last n xs = (if n = 0 then xs else drop (length xs - n) xs)"

lemma length_slice_last: "0 < n \<Longrightarrow> length (slice_last n xs) = min n (length xs)"
  by (simp add: slice_last_def)

text \<open>\<open>arr.slice(n)\<close> and \<open>arr.slice(0, n)\<close>: a negative index counts from the end.\<close>

definition slice_from :: "int \<Rightarrow> 'a list \<Rightarrow> 'a list" where
  "slice_from n xs = (if n \<ge> 0 then drop (nat n) xs else drop (length xs - nat (- n)) xs)"

definition slice_to :: "int \<Rightarrow> 'a list \<Rightarrow> 'a list" where
  "slice_to n xs = (if n \<ge> 0 then take (nat n) xs else take (length xs - nat (- n)) xs)"

lemma set_slice: "set (slice_from n xs) \<subseteq> set xs" "set (slice_to n xs) \<subseteq> set xs"
  by (auto simp: slice_from_def slice_to_def dest: in_set_dropD in_set_takeD)

text \<open>The pagination the query functions share: an absent or zero bound is ignored.\<close>

definition paginate :: "int option \<Rightarrow> int option \<Rightarrow> 'a list \<Rightarrow> 'a list" where
  "paginate offset limit xs =
     (let ys = (if nullish offset 0 \<noteq> 0 then slice_from (nullish offset 0) xs else xs)
      in if nullish limit 0 \<noteq> 0 then slice_to (nullish limit 0) ys else ys)"

lemma set_paginate: "set (paginate offset limit xs) \<subseteq> set xs"
  by (auto simp: paginate_def Let_def split: if_splits dest!: set_slice [THEN subsetD])

text \<open>An optional filter: absent means no restriction.\<close>

definition opt_filter :: "'b option \<Rightarrow> ('b \<Rightarrow> 'a \<Rightarrow> bool) \<Rightarrow> 'a list \<Rightarrow> 'a list" where
  "opt_filter v p xs = (case v of None \<Rightarrow> xs | Some b \<Rightarrow> filter (p b) xs)"

lemma set_opt_filter [simp]:
  "set (opt_filter v p xs) = {x \<in> set xs. \<forall>b. v = Some b \<longrightarrow> p b x}"
  by (auto simp: opt_filter_def split: option.splits)

text \<open>Counting into a record: \<open>counts[k] = (counts[k] ?? 0) + 1\<close>.\<close>

definition tally :: "'k \<Rightarrow> ('k, nat) jsmap \<Rightarrow> ('k, nat) jsmap" where
  "tally k counts = jset k (nullish (jget counts k) 0 + 1) counts"

lemma fold_tally:
  "nullish (jget (fold (\<lambda>x. tally (f x)) xs counts) k) 0 =
     nullish (jget counts k) 0 + length (filter (\<lambda>x. f x = k) xs)"
  by (induction xs arbitrary: counts) (auto simp: tally_def)

section \<open>Interfaces\<close>

subsection \<open>Keyed stores\<close>

locale keyed_store =
  fixes empty :: 'm
    and get :: "'m \<Rightarrow> 'k \<Rightarrow> 'v option"
    and put :: "'k \<Rightarrow> 'v \<Rightarrow> 'm \<Rightarrow> 'm"
    and del :: "'k \<Rightarrow> 'm \<Rightarrow> 'm"
    and wf :: "'m \<Rightarrow> bool"
  assumes get_empty: "get empty k = None"
    and get_put: "wf m \<Longrightarrow> get (put k v m) k' = (if k' = k then Some v else get m k')"
    and get_del: "wf m \<Longrightarrow> get (del k m) k' = (if k' = k then None else get m k')"
    and wf_empty: "wf empty"
    and wf_put: "wf m \<Longrightarrow> wf (put k v m)"
    and wf_del: "wf m \<Longrightarrow> wf (del k m)"
begin

lemma wf_put_all: "wf m \<Longrightarrow> wf (fold (\<lambda>(k, v). put k v) kvs m)"
  by (induction kvs arbitrary: m) (auto simp: wf_put)

lemma get_put_all:
  "wf m \<Longrightarrow> get (fold (\<lambda>(k, v). put k v) kvs m) k =
     (case map_of (rev kvs) k of None \<Rightarrow> get m k | Some v \<Rightarrow> Some v)"
proof (induction kvs arbitrary: m)
  case (Cons kv kvs)
  obtain k' v where kv: "kv = (k', v)" by (cases kv)
  from Cons.prems have "wf (put k' v m)" by (rule wf_put)
  from Cons.IH [OF this] Cons.prems show ?case
    by (auto simp: kv get_put map_add_def split: option.splits)
qed simp

lemma put_then_del: "wf m \<Longrightarrow> get (del k (put k v m)) = (get m)(k := None)"
  by (auto simp: fun_eq_iff get_del get_put wf_put)

end

interpretation js_map: keyed_store "[]" jget jset jdel jwf
  by unfold_locales auto

subsection \<open>Systems with an invariant\<close>

text \<open>Running a list of operations, and that each one meets its side condition when it runs.\<close>

definition run :: "('a \<Rightarrow> 's \<Rightarrow> 's) \<Rightarrow> 'a list \<Rightarrow> 's \<Rightarrow> 's" where
  "run step = fold step"

fun run_ok :: "('a \<Rightarrow> 's \<Rightarrow> bool) \<Rightarrow> ('a \<Rightarrow> 's \<Rightarrow> 's) \<Rightarrow> 'a list \<Rightarrow> 's \<Rightarrow> bool" where
  "run_ok ok step [] s = True"
| "run_ok ok step (a # acts) s = (ok a s \<and> run_ok ok step acts (step a s))"

lemma run_Nil [simp]: "run step [] s = s"
  by (simp add: run_def)

lemma run_Cons [simp]: "run step (a # acts) s = run step acts (step a s)"
  by (simp add: run_def)

lemma run_append: "run step (acts @ acts') s = run step acts' (run step acts s)"
  by (simp add: run_def)

lemma run_ok_append: "run_ok ok step (acts @ acts') s \<longleftrightarrow> run_ok ok step acts s \<and> run_ok ok step acts' (run step acts s)"
  by (induction acts arbitrary: s) auto

locale guarded_system =
  fixes ok :: "'a \<Rightarrow> 's \<Rightarrow> bool"
    and step :: "'a \<Rightarrow> 's \<Rightarrow> 's"
    and inv :: "'s \<Rightarrow> bool"
  assumes guarded_step: "ok a s \<Longrightarrow> inv s \<Longrightarrow> inv (step a s)"
begin

lemma guarded_run: "run_ok ok step acts s \<Longrightarrow> inv s \<Longrightarrow> inv (run step acts s)"
  by (induction acts arbitrary: s) (auto simp: guarded_step)

end

locale invariant_system =
  fixes step :: "'a \<Rightarrow> 's \<Rightarrow> 's"
    and inv :: "'s \<Rightarrow> bool"
  assumes step_inv: "inv s \<Longrightarrow> inv (step a s)"

sublocale invariant_system \<subseteq> guarded_system "\<lambda>_ _. True" step inv
  by unfold_locales (rule step_inv)

context invariant_system begin

lemma run_inv: "inv s \<Longrightarrow> inv (run step acts s)"
  by (induction acts arbitrary: s) (auto simp: step_inv)

end

subsection \<open>Status tables\<close>

text \<open>A walk through a status table: every move is listed in the table.\<close>

fun walk :: "('s \<Rightarrow> 's list) \<Rightarrow> 's \<Rightarrow> 's list \<Rightarrow> bool" where
  "walk next s [] = True"
| "walk next s (t # ts) = (t \<in> set (next s) \<and> walk next t ts)"

locale status_table =
  fixes nxt :: "'s \<Rightarrow> 's list"
    and terminal :: "'s \<Rightarrow> bool"
    and start :: 's
    and finish :: 's
  assumes terminal_stuck: "terminal s \<longleftrightarrow> nxt s = []"
    and finish_terminal: "terminal finish"
    and to_start: "\<not> terminal s \<Longrightarrow> s \<noteq> start \<Longrightarrow> start \<in> set (nxt s)"
    and start_finish: "finish \<in> set (nxt start)"
begin

lemma walk_terminal: "walk nxt s ts \<Longrightarrow> terminal s \<Longrightarrow> ts = []"
  by (cases ts) (auto simp: terminal_stuck)

lemma terminal_last: "walk nxt s ts \<Longrightarrow> t \<in> set (butlast ts) \<Longrightarrow> \<not> terminal t"
proof (induction ts arbitrary: s)
  case (Cons u ts)
  then show ?case
    by (cases ts) (auto simp: terminal_stuck split: if_splits)
qed simp

lemma can_finish: "\<not> terminal s \<Longrightarrow> \<exists>ts. ts \<noteq> [] \<and> length ts \<le> 2 \<and> walk nxt s ts \<and> last ts = finish"
proof (cases "s = start")
  case True
  then show ?thesis using start_finish by (intro exI [of _ "[finish]"]) simp
next
  case False
  assume "\<not> terminal s"
  with False show ?thesis using start_finish to_start
    by (intro exI [of _ "[start, finish]"]) simp
qed

end

subsection \<open>Comparators\<close>

text \<open>A JavaScript comparator returns a negative number, zero or a positive number.\<close>

locale comparator =
  fixes cmp :: "'a \<Rightarrow> 'a \<Rightarrow> int"
  assumes cmp_zero: "cmp a b = 0 \<longleftrightarrow> a = b"
    and cmp_swap: "cmp b a = - cmp a b"
    and cmp_trans: "cmp a b < 0 \<Longrightarrow> cmp b c < 0 \<Longrightarrow> cmp a c < 0"
begin

lemma cmp_total: "cmp a b < 0 \<or> a = b \<or> cmp b a < 0"
  using cmp_swap [of a b] cmp_zero [of a b] by linarith

lemma cmp_asym: "cmp a b < 0 \<Longrightarrow> \<not> cmp b a < 0"
  using cmp_swap [of a b] by linarith

lemma cmp_le_trans: "cmp a b \<le> 0 \<Longrightarrow> cmp b c < 0 \<Longrightarrow> cmp a c < 0"
  using cmp_trans [of a b c] cmp_zero [of a b] by (cases "cmp a b = 0") auto

end

end
