(* ===== verification/ClaimTypes.thy ===== *)
theory ClaimTypes
  imports Prelude
begin

text \<open>
  Data of \<open>claims/src/domain/types.ts\<close>: statuses, claimants, issues, claims with their handoff
  chain and work-stealing fields, durations and the work-stealing configuration. Optional
  properties are \<open>option\<close> values; opaque \<open>metadata\<close> objects, which no modelled function reads,
  are left out. Messages of errors are left out, their codes are kept.
\<close>

section \<open>Enumerations\<close>

datatype claimant_type = Human | Agent

text \<open>
  \<open>ClaimStatus\<close> and \<open>ExtendedClaimStatus\<close> are string unions that share most members, and
  the rules accept either. \<open>claim_status\<close> is the union of both; the last two constructors are
  the members that only \<open>ExtendedClaimStatus\<close> has.
\<close>

datatype claim_status =
    Active | PendingHandoff | InReview | Completed | Released | Expired | Paused | Blocked | Stealable
  | HandoffPendingX | ReviewRequestedX

definition is_ClaimStatus :: "claim_status \<Rightarrow> bool" where
  "is_ClaimStatus s \<longleftrightarrow> s \<notin> {HandoffPendingX, ReviewRequestedX}"

definition is_ExtendedClaimStatus :: "claim_status \<Rightarrow> bool" where
  "is_ExtendedClaimStatus s \<longleftrightarrow>
     s \<in> {Active, Paused, HandoffPendingX, ReviewRequestedX, Blocked, Stealable, Completed}"

text \<open>The run-time value of a status.\<close>

fun status_string :: "claim_status \<Rightarrow> string" where
  "status_string Active = ''active''"
| "status_string PendingHandoff = ''pending_handoff''"
| "status_string InReview = ''in_review''"
| "status_string Completed = ''completed''"
| "status_string Released = ''released''"
| "status_string Expired = ''expired''"
| "status_string Paused = ''paused''"
| "status_string Blocked = ''blocked''"
| "status_string Stealable = ''stealable''"
| "status_string HandoffPendingX = ''handoff-pending''"
| "status_string ReviewRequestedX = ''review-requested''"

datatype issue_priority = Critical | High | Medium | Low

datatype issue_complexity = Trivial | Simple | Moderate | Complex | Epic

datatype agent_type =
    Coder | Debugger | Tester | Reviewer | Researcher | Planner | Architect | Coordinator

datatype stealable_reason = Stale | BlockedReason | Overloaded | Manual | Timeout

datatype handoff_status = HPending | HAccepted | HRejected

datatype resolver = ByQueen | ByHuman | ByTimeout

datatype claim_error_code =
    ALREADY_CLAIMED | NOT_CLAIMED | CLAIM_NOT_FOUND | ISSUE_NOT_FOUND | CLAIMANT_NOT_FOUND
  | INVALID_CLAIMANT | HANDOFF_PENDING | HANDOFF_NOT_FOUND | UNAUTHORIZED | MAX_CLAIMS_EXCEEDED
  | CAPABILITY_MISMATCH | INVALID_STATUS_TRANSITION | VALIDATION_ERROR

datatype steal_error_code =
    NOT_STEALABLE | STEAL_ALREADY_CLAIMED | CROSS_TYPE_NOT_ALLOWED | IN_GRACE_PERIOD
  | PROTECTED_BY_PROGRESS | STEALER_OVERLOADED | STEAL_ISSUE_NOT_FOUND | CONTEST_PENDING

section \<open>Durations\<close>

datatype duration_unit = Ms | Seconds | Minutes | Hours | Days

record duration =
  du_value :: int
  du_unit :: duration_unit

fun unit_ms :: "duration_unit \<Rightarrow> int" where
  "unit_ms Ms = 1"
| "unit_ms Seconds = 1000"
| "unit_ms Minutes = 60 * 1000"
| "unit_ms Hours = 60 * 60 * 1000"
| "unit_ms Days = 24 * 60 * 60 * 1000"

definition durationToMs :: "duration \<Rightarrow> int" where
  "durationToMs d = du_value d * unit_ms (du_unit d)"

section \<open>Entities\<close>

record claimant =
  ct_id :: string
  ct_type :: claimant_type
  ct_name :: string
  ct_capabilities :: "string list option"
  ct_specializations :: "string list option"
  ct_currentWorkload :: "int option"
  ct_maxConcurrentClaims :: "int option"
  ct_agentType :: "agent_type option"

text \<open>\<open>ct_agentType\<close> is the untyped property that the rules read from a challenger.\<close>

record issue =
  is_id :: string
  is_labels :: "string list"
  is_priority :: issue_priority
  is_complexity :: issue_complexity
  is_requiredCapabilities :: "string list option"

record handoff_record =
  ho_id :: string
  ho_from :: claimant
  ho_to :: claimant
  ho_reason :: string
  ho_status :: handoff_status
  ho_requestedAt :: time
  ho_resolvedAt :: "time option"
  ho_rejectionReason :: "string option"

record stealable_info =
  si_reason :: stealable_reason
  si_markedAt :: time
  si_expiresAt :: "time option"
  si_originalProgress :: "int option"
  si_allowedStealerTypes :: "agent_type list option"

record contest_resolution =
  cr_resolvedAt :: time
  cr_winner :: claimant
  cr_resolvedBy :: resolver
  cr_reason :: string

record contest_info =
  ci_contestedAt :: time
  ci_contestedBy :: claimant
  ci_stolenBy :: claimant
  ci_reason :: string
  ci_windowEndsAt :: time
  ci_resolution :: "contest_resolution option"

text \<open>
  A claim object: \<open>IssueClaim\<close> together with the properties \<open>IssueClaimWithStealing\<close> adds.
  \<open>cl_progress\<close> is absent until a repository stores the claim; \<open>cl_repository\<close> is the untyped
  property the repository reads for its issue key.
\<close>

record issue_claim =
  cl_id :: string
  cl_issueId :: string
  cl_claimant :: claimant
  cl_status :: claim_status
  cl_claimedAt :: time
  cl_lastActivityAt :: time
  cl_notes :: "string list option"
  cl_handoffChain :: "handoff_record list option"
  cl_reviewers :: "claimant list option"
  cl_repository :: "string option"
  cl_progress :: "int option"
  cl_blockedReason :: "string option"
  cl_blockedAt :: "time option"
  cl_stealableAt :: "time option"
  cl_stealInfo :: "stealable_info option"
  cl_contestInfo :: "contest_info option"

text \<open>\<open>claim.handoffChain?.find(...)\<close> reads the chain, or nothing when it is absent.\<close>

definition chain :: "issue_claim \<Rightarrow> handoff_record list" where
  "chain c = nullish (cl_handoffChain c) []"

lemma chain_updates [simp]:
  "chain (cl_status_update f c) = chain c" "chain (cl_claimant_update g c) = chain c"
  "chain (cl_lastActivityAt_update h c) = chain c" "chain (cl_notes_update k c) = chain c"
  "chain (cl_reviewers_update l c) = chain c"
  "chain (c\<lparr>cl_handoffChain := Some hs\<rparr>) = hs"
  by (simp_all add: chain_def)

text \<open>A comparison \<open>claim.progress >= n\<close> is false while \<open>progress\<close> is undefined.\<close>

definition progress_ge :: "issue_claim \<Rightarrow> int \<Rightarrow> bool" where
  "progress_ge c n = (case cl_progress c of None \<Rightarrow> False | Some p \<Rightarrow> p \<ge> n)"

definition progress_gt :: "issue_claim \<Rightarrow> int \<Rightarrow> bool" where
  "progress_gt c n = (case cl_progress c of None \<Rightarrow> False | Some p \<Rightarrow> p > n)"

text \<open>Truthiness of an optional string: \<open>undefined\<close> and the empty string are falsy.\<close>

definition truthy :: "string option \<Rightarrow> bool" where
  "truthy s = (case s of None \<Rightarrow> False | Some v \<Rightarrow> v \<noteq> [])"

text \<open>\<open>claim.contestInfo && !claim.contestInfo.resolution\<close>\<close>

definition contest_open :: "issue_claim \<Rightarrow> bool" where
  "contest_open c = (case cl_contestInfo c of None \<Rightarrow> False | Some ci \<Rightarrow> ci_resolution ci = None)"

section \<open>Work-stealing configuration\<close>

record work_stealing_config =
  staleThresholdMinutes :: int
  blockedThresholdMinutes :: int
  overloadThreshold :: int
  gracePeriodMinutes :: int
  minProgressToProtect :: int
  contestWindowMinutes :: int
  allowCrossTypeSteal :: bool
  crossTypeStealRules :: "(agent_type \<times> agent_type) list"

definition DEFAULT_WORK_STEALING_CONFIG :: work_stealing_config where
  "DEFAULT_WORK_STEALING_CONFIG =
     \<lparr>staleThresholdMinutes = 30, blockedThresholdMinutes = 60, overloadThreshold = 5,
      gracePeriodMinutes = 10, minProgressToProtect = 75, contestWindowMinutes = 5,
      allowCrossTypeSteal = True,
      crossTypeStealRules = [(Coder, Debugger), (Tester, Reviewer)]\<rparr>"

end
