(* ===== verification/ClaimRules.thy ===== *)
theory ClaimRules
  imports ClaimTypes
begin

text \<open>
  Model of \<open>claims/src/domain/rules.ts\<close>: the pure business rules for claiming, status
  transitions, work stealing, handoffs, load balancing and validation. A rule result is a sum:
  \<open>Inl\<close> with the failure's code, or \<open>Inr\<close> with the data. The lemmas characterise each rule
  and relate the two status tables.
\<close>

section \<open>Results\<close>

datatype rule_code =
    R_CLAIMANT_AT_CAPACITY | R_INVALID_STATUS_TRANSITION | R_NOT_STEALABLE | R_IN_GRACE_PERIOD
  | R_PROTECTED_BY_PROGRESS | R_CROSS_TYPE_NOT_ALLOWED | R_UNAUTHORIZED | R_CONTEST_PENDING
  | R_INVALID_STATUS | R_HANDOFF_PENDING | R_HANDOFF_NOT_FOUND | R_VALIDATION_ERROR
  | R_TARGET_AT_CAPACITY

type_synonym 'a rule_result = "rule_code + 'a"

definition ruleSuccess :: "'a \<Rightarrow> 'a rule_result" where
  "ruleSuccess d = Inr d"

definition ruleFailure :: "rule_code \<Rightarrow> 'a rule_result" where
  "ruleFailure c = Inl c"

lemma rule_result_simps [simp]:
  "ruleSuccess d = Inr d" "ruleFailure c = Inl c"
  by (simp_all add: ruleSuccess_def ruleFailure_def)

text \<open>The exception of calling a method on \<open>undefined\<close>.\<close>

datatype js_exception = TypeError

section \<open>Claim eligibility\<close>

definition isActiveClaim :: "claim_status \<Rightarrow> bool" where
  "isActiveClaim s \<longleftrightarrow>
     s \<in> {Active, Paused, Blocked, PendingHandoff, HandoffPendingX, InReview, ReviewRequestedX}"

definition canClaimIssue :: "claimant \<Rightarrow> issue_claim list \<Rightarrow> bool rule_result" where
  "canClaimIssue claimant existingClaims =
     (let maxClaims = nullish (ct_maxConcurrentClaims claimant) 5;
          activeClaims = length (filter
            (\<lambda>c. ct_id (cl_claimant c) = ct_id claimant \<and> isActiveClaim (cl_status c)) existingClaims)
      in if int activeClaims \<ge> maxClaims then ruleFailure R_CLAIMANT_AT_CAPACITY
         else if nullish (ct_currentWorkload claimant) 0 \<ge> 100 then ruleFailure R_CLAIMANT_AT_CAPACITY
         else ruleSuccess True)"

definition isIssueClaimed :: "string \<Rightarrow> issue_claim list \<Rightarrow> issue_claim option" where
  "isIssueClaimed issueId claims =
     find (\<lambda>c. cl_issueId c = issueId \<and> isActiveClaim (cl_status c)) claims"

section \<open>Status tables\<close>

fun getOriginalStatusTransitions :: "claim_status \<Rightarrow> claim_status list" where
  "getOriginalStatusTransitions Active =
     [PendingHandoff, InReview, Completed, Released, Paused, Blocked, Stealable]"
| "getOriginalStatusTransitions PendingHandoff = [Active, Completed]"
| "getOriginalStatusTransitions InReview = [Active, Completed]"
| "getOriginalStatusTransitions Paused = [Active, Blocked, Stealable, Completed]"
| "getOriginalStatusTransitions Blocked = [Active, Paused, Stealable, Completed]"
| "getOriginalStatusTransitions Stealable = [Active, Completed]"
| "getOriginalStatusTransitions _ = []"

text \<open>The extended table has no row for the statuses that are not extended ones: \<open>undefined\<close>.\<close>

fun getExtendedStatusTransitions :: "claim_status \<Rightarrow> claim_status list option" where
  "getExtendedStatusTransitions Active =
     Some [Paused, Blocked, HandoffPendingX, ReviewRequestedX, Stealable, Completed]"
| "getExtendedStatusTransitions Paused =
     Some [Active, Blocked, HandoffPendingX, Stealable, Completed]"
| "getExtendedStatusTransitions Blocked = Some [Active, Paused, Stealable, Completed]"
| "getExtendedStatusTransitions HandoffPendingX = Some [Active, Completed]"
| "getExtendedStatusTransitions ReviewRequestedX = Some [Active, Completed, Blocked]"
| "getExtendedStatusTransitions Stealable = Some [Active, Completed]"
| "getExtendedStatusTransitions Completed = Some []"
| "getExtendedStatusTransitions _ = None"

definition canTransitionStatus ::
    "claim_status \<Rightarrow> claim_status \<Rightarrow> js_exception + bool rule_result" where
  "canTransitionStatus currentStatus newStatus =
     (if currentStatus = newStatus then Inr (ruleSuccess True)
      else if newStatus \<in> set (getOriginalStatusTransitions currentStatus) then Inr (ruleSuccess True)
      else case getExtendedStatusTransitions currentStatus of
             None \<Rightarrow> Inl TypeError
           | Some ts \<Rightarrow>
               if newStatus \<in> set ts then Inr (ruleSuccess True)
               else Inr (ruleFailure R_INVALID_STATUS_TRANSITION))"

section \<open>Work-stealing rules\<close>

definition canMarkAsStealable ::
    "issue_claim \<Rightarrow> work_stealing_config \<Rightarrow> time \<Rightarrow> stealable_reason option rule_result" where
  "canMarkAsStealable claim config now =
     (if cl_status claim \<in> {Stealable, Completed, Released} then ruleSuccess None
      else if now - cl_lastActivityAt claim \<ge> staleThresholdMinutes config * 60 * 1000
      then ruleSuccess (Some Stale)
      else case cl_blockedAt claim of
             None \<Rightarrow> ruleSuccess None
           | Some blockedAt \<Rightarrow>
               if truthy (cl_blockedReason claim)
                  \<and> now - blockedAt \<ge> blockedThresholdMinutes config * 60 * 1000
               then ruleSuccess (Some BlockedReason)
               else ruleSuccess None)"

definition canStealClaim ::
    "issue_claim \<Rightarrow> claimant \<Rightarrow> work_stealing_config \<Rightarrow> time \<Rightarrow> bool rule_result" where
  "canStealClaim claim challenger config now =
     (if cl_status claim \<noteq> Stealable \<and> cl_stealInfo claim = None then ruleFailure R_NOT_STEALABLE
      else if (case cl_stealableAt claim of None \<Rightarrow> False | Some t \<Rightarrow> now < t)
      then ruleFailure R_IN_GRACE_PERIOD
      else if progress_ge claim (minProgressToProtect config)
      then ruleFailure R_PROTECTED_BY_PROGRESS
      else if allowCrossTypeSteal config
        \<and> (case Option.bind (cl_stealInfo claim) si_allowedStealerTypes of
             None \<Rightarrow> False
           | Some types \<Rightarrow>
               (case ct_agentType challenger of None \<Rightarrow> False | Some t \<Rightarrow> t \<notin> set types))
      then ruleFailure R_CROSS_TYPE_NOT_ALLOWED
      else if ct_id (cl_claimant claim) = ct_id challenger then ruleFailure R_UNAUTHORIZED
      else if contest_open claim then ruleFailure R_CONTEST_PENDING
      else ruleSuccess True)"

definition requiresStealContest :: "issue_claim \<Rightarrow> work_stealing_config \<Rightarrow> bool" where
  "requiresStealContest claim config =
     (let reason = map_option si_reason (cl_stealInfo claim)
      in if reason = Some Stale \<or> reason = Some Timeout then False
         else if reason = Some Manual then False
         else progress_gt claim 0)"

section \<open>Handoff rules\<close>

definition canInitiateHandoff :: "issue_claim \<Rightarrow> claimant \<Rightarrow> claimant \<Rightarrow> bool rule_result" where
  "canInitiateHandoff claim targetClaimant currentClaimant =
     (if cl_status claim = Completed \<or> cl_status claim = Released then ruleFailure R_INVALID_STATUS
      else if cl_status claim = PendingHandoff then ruleFailure R_HANDOFF_PENDING
      else if ct_id (cl_claimant claim) \<noteq> ct_id currentClaimant then ruleFailure R_UNAUTHORIZED
      else if ct_id (cl_claimant claim) = ct_id targetClaimant then ruleFailure R_VALIDATION_ERROR
      else if nullish (ct_currentWorkload targetClaimant) 0 \<ge> 100 then ruleFailure R_TARGET_AT_CAPACITY
      else ruleSuccess True)"

definition canAcceptHandoff :: "issue_claim \<Rightarrow> claimant \<Rightarrow> bool rule_result" where
  "canAcceptHandoff claim acceptingClaimant =
     (if cl_status claim \<noteq> PendingHandoff then ruleFailure R_INVALID_STATUS
      else case find (\<lambda>h. ho_status h = HPending) (chain claim) of
             None \<Rightarrow> ruleFailure R_HANDOFF_NOT_FOUND
           | Some h \<Rightarrow>
               if ct_id (ho_to h) \<noteq> ct_id acceptingClaimant then ruleFailure R_UNAUTHORIZED
               else ruleSuccess True)"

definition canRejectHandoff :: "issue_claim \<Rightarrow> claimant \<Rightarrow> bool rule_result" where
  "canRejectHandoff claim rejectingClaimant =
     (if cl_status claim \<noteq> PendingHandoff then ruleFailure R_INVALID_STATUS
      else case find (\<lambda>h. ho_status h = HPending) (chain claim) of
             None \<Rightarrow> ruleFailure R_HANDOFF_NOT_FOUND
           | Some h \<Rightarrow>
               if \<not> (ct_id (ho_to h) = ct_id rejectingClaimant
                     \<or> ct_id (ho_from h) = ct_id rejectingClaimant)
               then ruleFailure R_UNAUTHORIZED
               else ruleSuccess True)"

section \<open>Load-balancing rules\<close>

definition isAgentOverloaded :: "int \<Rightarrow> int \<Rightarrow> bool" where
  "isAgentOverloaded load threshold \<longleftrightarrow> load \<ge> threshold"

definition isAgentUnderloaded :: "int \<Rightarrow> int \<Rightarrow> bool" where
  "isAgentUnderloaded load threshold \<longleftrightarrow> load \<le> threshold"

record rebalance_config =
  rb_overloadThreshold :: int
  rb_underloadThreshold :: int
  rb_rebalanceThreshold :: int

definition needsRebalancing :: "int list \<Rightarrow> rebalance_config \<Rightarrow> bool" where
  "needsRebalancing loads config =
     (if length loads < 2 then False
      else
        let hasOverloaded = (\<exists>l \<in> set loads. isAgentOverloaded l (rb_overloadThreshold config));
            hasUnderloaded = (\<exists>l \<in> set loads. isAgentUnderloaded l (rb_underloadThreshold config))
        in if hasOverloaded \<and> hasUnderloaded then True
           else Max (set loads) - Min (set loads) \<ge> rb_rebalanceThreshold config)"

definition canMoveClaim :: "issue_claim \<Rightarrow> bool" where
  "canMoveClaim claim =
     (if cl_status claim = Completed \<or> cl_status claim = Released then False
      else if cl_status claim = PendingHandoff then False
      else if progress_gt claim 75 then False
      else if cl_status claim = InReview then False
      else if contest_open claim then False
      else True)"

section \<open>Validation\<close>

definition isValidPriority :: "string \<Rightarrow> bool" where
  "isValidPriority p \<longleftrightarrow> p \<in> {''critical'', ''high'', ''medium'', ''low''}"

definition isValidStatus :: "string \<Rightarrow> bool" where
  "isValidStatus s \<longleftrightarrow>
     s \<in> {''active'', ''pending_handoff'', ''in_review'', ''completed'', ''released'', ''expired''}"

definition isValidExtendedStatus :: "string \<Rightarrow> bool" where
  "isValidExtendedStatus s \<longleftrightarrow>
     s \<in> {''active'', ''paused'', ''handoff-pending'', ''review-requested'', ''blocked'',
          ''stealable'', ''completed''}"

text \<open>The regular expression \<open>[a-zA-Z0-9_-]+/[a-zA-Z0-9_.-]+\<close>, anchored at both ends.\<close>

definition owner_char :: "char \<Rightarrow> bool" where
  "owner_char c \<longleftrightarrow>
     (let n = of_char c :: nat
      in (97 \<le> n \<and> n \<le> 122) \<or> (65 \<le> n \<and> n \<le> 90) \<or> (48 \<le> n \<and> n \<le> 57) \<or> n = 95 \<or> n = 45)"

definition repo_char :: "char \<Rightarrow> bool" where
  "repo_char c \<longleftrightarrow> owner_char c \<or> c = CHR ''.''"

definition isValidRepository :: "string \<Rightarrow> bool" where
  "isValidRepository r =
     (let owner = takeWhile owner_char r; rest = dropWhile owner_char r
      in owner \<noteq> [] \<and>
         (case rest of [] \<Rightarrow> False
          | c # repo \<Rightarrow> c = CHR ''/'' \<and> repo \<noteq> [] \<and> list_all repo_char repo))"

section \<open>Lemmas on the tables\<close>

definition original_terminal :: "claim_status \<Rightarrow> bool" where
  "original_terminal s \<longleftrightarrow> s \<in> {Completed, Released, Expired} \<or> \<not> is_ClaimStatus s"

definition extended_terminal :: "claim_status \<Rightarrow> bool" where
  "extended_terminal s \<longleftrightarrow> s = Completed \<or> \<not> is_ExtendedClaimStatus s"

interpretation original_table:
  status_table getOriginalStatusTransitions original_terminal Active Completed
proof unfold_locales
  fix s
  show "original_terminal s \<longleftrightarrow> getOriginalStatusTransitions s = []"
    by (cases s) (auto simp: original_terminal_def is_ClaimStatus_def)
  show "\<not> original_terminal s \<Longrightarrow> s \<noteq> Active \<Longrightarrow> Active \<in> set (getOriginalStatusTransitions s)"
    by (cases s) (auto simp: original_terminal_def is_ClaimStatus_def)
qed (simp_all add: original_terminal_def)

interpretation extended_table:
  status_table "\<lambda>s. nullish (getExtendedStatusTransitions s) []" extended_terminal Active Completed
proof unfold_locales
  fix s
  show "extended_terminal s \<longleftrightarrow> nullish (getExtendedStatusTransitions s) [] = []"
    by (cases s) (auto simp: extended_terminal_def is_ExtendedClaimStatus_def)
  show "\<not> extended_terminal s \<Longrightarrow> s \<noteq> Active \<Longrightarrow>
      Active \<in> set (nullish (getExtendedStatusTransitions s) [])"
    by (cases s) (auto simp: extended_terminal_def is_ExtendedClaimStatus_def)
qed (simp_all add: extended_terminal_def)

lemma extended_table_dom: "getExtendedStatusTransitions s = None \<longleftrightarrow> \<not> is_ExtendedClaimStatus s"
  by (cases s) (auto simp: is_ExtendedClaimStatus_def)

lemma no_row_statuses:
  "\<not> is_ExtendedClaimStatus s \<longleftrightarrow> s \<in> {PendingHandoff, InReview, Released, Expired}"
  by (cases s) (auto simp: is_ExtendedClaimStatus_def)

section \<open>Lemmas on stealing\<close>

lemma canStealClaim_Inr:
  "canStealClaim claim ch config now = Inr b \<longleftrightarrow> b \<and>
     (cl_status claim = Stealable \<or> cl_stealInfo claim \<noteq> None) \<and>
     (\<forall>t. cl_stealableAt claim = Some t \<longrightarrow> t \<le> now) \<and>
     \<not> progress_ge claim (minProgressToProtect config) \<and>
     (\<forall>si types t. allowCrossTypeSteal config \<and> cl_stealInfo claim = Some si \<and>
        si_allowedStealerTypes si = Some types \<and> ct_agentType ch = Some t \<longrightarrow> t \<in> set types) \<and>
     ct_id (cl_claimant claim) \<noteq> ct_id ch \<and> \<not> contest_open claim"
  by (auto simp: canStealClaim_def Option.bind_eq_Some_conv not_less split: option.splits)

section \<open>Properties\<close>

text \<open>
  \<open>canTransitionStatus\<close> does not always return: from a status that the extended table has no row
  for, every target that is neither the status itself nor listed in the original table makes it
  throw a \<open>TypeError\<close> instead of reporting an invalid transition; in no other case does it throw.
\<close>

theorem canTransitionStatus_throws:
  "canTransitionStatus c n = Inl TypeError \<longleftrightarrow>
     c \<noteq> n \<and> c \<in> {PendingHandoff, InReview, Released, Expired} \<and> n \<notin> set (getOriginalStatusTransitions c)"
  using extended_table_dom [of c] no_row_statuses [of c]
  by (auto simp: canTransitionStatus_def split: option.splits if_splits)

text \<open>
  Repository names: \<open>isValidRepository\<close> accepts exactly the strings of the form owner, slash,
  name, where owner is a non-empty string of letters, digits, underscores and dashes, and name is
  one that may also contain dots.
\<close>

theorem isValidRepository_exact:
  "isValidRepository r \<longleftrightarrow>
     (\<exists>owner repo. r = owner @ ''/'' @ repo \<and> owner \<noteq> [] \<and> repo \<noteq> [] \<and>
        list_all owner_char owner \<and> list_all repo_char repo)"
proof
  assume "isValidRepository r"
  then obtain c repo where d: "dropWhile owner_char r = c # repo" "c = CHR ''/''" "repo \<noteq> []"
    "list_all repo_char repo" "takeWhile owner_char r \<noteq> []"
    by (auto simp: isValidRepository_def Let_def split: list.splits)
  have "r = takeWhile owner_char r @ ''/'' @ repo"
    using takeWhile_dropWhile_id [of owner_char r] d by simp
  moreover have "list_all owner_char (takeWhile owner_char r)"
    by (auto simp: list_all_iff dest: set_takeWhileD)
  ultimately show "\<exists>owner repo. r = owner @ ''/'' @ repo \<and> owner \<noteq> [] \<and> repo \<noteq> [] \<and>
      list_all owner_char owner \<and> list_all repo_char repo" using d by blast
next
  assume "\<exists>owner repo. r = owner @ ''/'' @ repo \<and> owner \<noteq> [] \<and> repo \<noteq> [] \<and>
      list_all owner_char owner \<and> list_all repo_char repo"
  then obtain owner repo where r: "r = owner @ ''/'' @ repo" "owner \<noteq> []" "repo \<noteq> []"
    "list_all owner_char owner" "list_all repo_char repo" by blast
  have slash: "\<not> owner_char CHR ''/''" by (simp add: owner_char_def)
  have "takeWhile owner_char r = owner" and "dropWhile owner_char r = ''/'' @ repo"
    using r slash by (simp_all add: list_all_iff takeWhile_append2 dropWhile_append2)
  with r show "isValidRepository r" by (simp add: isValidRepository_def)
qed


end
