(* ===== verification/ClaimRepository.thy ===== *)
theory ClaimRepository
  imports ClaimTypes
begin

text \<open>
  Model of \<open>claims/src/infrastructure/claim-repository.ts\<close>: claims by id, an index from issue
  keys to claim ids and an index from claimants to the ids of their claims. The repository
  hands out references to the stored objects; a service mutates such an object and saves it
  before it returns, so that a handler run to completion is the same as on values. The
  invariant says what the indexes promise; the interface \<open>claim_repository\<close> at the end is what
  the claim service relies on.
\<close>

section \<open>Definitions\<close>

record repo_state =
  rs_claims :: "(string, issue_claim) jsmap"
  rs_issueIndex :: "(string, string) jsmap"
  rs_claimantIndex :: "(string, string jsset) jsmap"

definition createClaimRepository :: repo_state where
  "createClaimRepository = \<lparr>rs_claims = [], rs_issueIndex = [], rs_claimantIndex = []\<rparr>"

definition repo_shutdown :: "repo_state \<Rightarrow> repo_state" where
  "repo_shutdown r = r\<lparr>rs_claims := [], rs_issueIndex := [], rs_claimantIndex := []\<rparr>"

definition getIssueKey :: "string \<Rightarrow> string \<Rightarrow> string" where
  "getIssueKey issueId repository = repository @ '':'' @ issueId"

definition isActiveStatus :: "claim_status \<Rightarrow> bool" where
  "isActiveStatus s \<longleftrightarrow> s \<in> {Active, Paused, Blocked, PendingHandoff, InReview, Stealable}"

definition ensureFullClaim :: "issue_claim \<Rightarrow> issue_claim" where
  "ensureFullClaim c = (if cl_progress c = None then c\<lparr>cl_progress := Some 0\<rparr> else c)"

text \<open>The key under which a claim object is indexed.\<close>

definition claim_key :: "issue_claim \<Rightarrow> string" where
  "claim_key c = getIssueKey (cl_issueId c) (nullish (cl_repository c) [])"

definition repo_save :: "issue_claim \<Rightarrow> repo_state \<Rightarrow> repo_state" where
  "repo_save claim r =
     (let fullClaim = ensureFullClaim claim;
          claimantId = ct_id (cl_claimant claim);
          owned = nullish (jget (rs_claimantIndex r) claimantId) []
      in r\<lparr>rs_claims := jset (cl_id claim) fullClaim (rs_claims r),
           rs_issueIndex := jset (claim_key claim) (cl_id claim) (rs_issueIndex r),
           rs_claimantIndex := jset claimantId (sadd (cl_id claim) owned) (rs_claimantIndex r)\<rparr>)"

definition repo_update :: "issue_claim \<Rightarrow> repo_state \<Rightarrow> repo_state" where
  "repo_update claim r = repo_save claim r"

definition repo_findById :: "repo_state \<Rightarrow> string \<Rightarrow> issue_claim option" where
  "repo_findById r claimId = jget (rs_claims r) claimId"

definition repo_findByIssueId :: "repo_state \<Rightarrow> string \<Rightarrow> string option \<Rightarrow> issue_claim option" where
  "repo_findByIssueId r issueId repository =
     (case jget (rs_issueIndex r) (getIssueKey issueId (nullish repository [])) of
        None \<Rightarrow> None
      | Some claimId \<Rightarrow>
          if claimId = [] then None
          else case jget (rs_claims r) claimId of
                 None \<Rightarrow> None
               | Some claim \<Rightarrow> if isActiveStatus (cl_status claim) then Some claim else None)"

definition repo_findByAgentId :: "repo_state \<Rightarrow> string \<Rightarrow> issue_claim list" where
  "repo_findByAgentId r agentId =
     (case jget (rs_claimantIndex r) agentId of
        None \<Rightarrow> []
      | Some claimIds \<Rightarrow> List.map_filter (\<lambda>i. jget (rs_claims r) i) claimIds)"

definition repo_findByClaimant :: "repo_state \<Rightarrow> claimant \<Rightarrow> issue_claim list" where
  "repo_findByClaimant r claimant = repo_findByAgentId r (ct_id claimant)"

definition repo_findByStatus :: "repo_state \<Rightarrow> claim_status \<Rightarrow> issue_claim list" where
  "repo_findByStatus r status = filter (\<lambda>c. cl_status c = status) (jvalues (rs_claims r))"

definition repo_findStealable :: "repo_state \<Rightarrow> agent_type option \<Rightarrow> issue_claim list" where
  "repo_findStealable r agentType =
     filter (\<lambda>c.
       if cl_status c \<noteq> Stealable then False
       else case cl_stealInfo c of
              None \<Rightarrow> True
            | Some si \<Rightarrow>
                (case agentType of
                   None \<Rightarrow> True
                 | Some t \<Rightarrow>
                     (case si_allowedStealerTypes si of None \<Rightarrow> True | Some ts \<Rightarrow> t \<in> set ts)))
       (jvalues (rs_claims r))"

definition repo_findContested :: "repo_state \<Rightarrow> issue_claim list" where
  "repo_findContested r = filter contest_open (jvalues (rs_claims r))"

definition repo_findAll :: "repo_state \<Rightarrow> issue_claim list" where
  "repo_findAll r = jvalues (rs_claims r)"

definition repo_delete :: "string \<Rightarrow> repo_state \<Rightarrow> repo_state" where
  "repo_delete claimId r =
     (case jget (rs_claims r) claimId of
        None \<Rightarrow> r
      | Some claim \<Rightarrow>
          let claimantId = ct_id (cl_claimant claim);
              idx = (case jget (rs_claimantIndex r) claimantId of
                       None \<Rightarrow> rs_claimantIndex r
                     | Some owned \<Rightarrow>
                         if sdel claimId owned = [] then jdel claimantId (rs_claimantIndex r)
                         else jset claimantId (sdel claimId owned) (rs_claimantIndex r))
          in r\<lparr>rs_issueIndex := jdel (claim_key claim) (rs_issueIndex r),
               rs_claimantIndex := idx,
               rs_claims := jdel claimId (rs_claims r)\<rparr>)"

definition repo_findActiveClaims :: "repo_state \<Rightarrow> issue_claim list" where
  "repo_findActiveClaims r = filter (\<lambda>c. isActiveStatus (cl_status c)) (jvalues (rs_claims r))"

definition repo_findStaleClaims :: "repo_state \<Rightarrow> time \<Rightarrow> issue_claim list" where
  "repo_findStaleClaims r staleSince =
     filter (\<lambda>c. isActiveStatus (cl_status c) \<and> cl_lastActivityAt c < staleSince)
       (jvalues (rs_claims r))"

definition repo_findClaimsWithPendingHandoffs :: "repo_state \<Rightarrow> issue_claim list" where
  "repo_findClaimsWithPendingHandoffs r =
     filter (\<lambda>c. cl_status c = PendingHandoff) (jvalues (rs_claims r))"

definition repo_countByClaimant :: "repo_state \<Rightarrow> string \<Rightarrow> nat" where
  "repo_countByClaimant r claimantId = length (nullish (jget (rs_claimantIndex r) claimantId) [])"

definition repo_countByAgentId :: "repo_state \<Rightarrow> string \<Rightarrow> nat" where
  "repo_countByAgentId r agentId =
     length (filter (\<lambda>c. isActiveStatus (cl_status c)) (repo_findByAgentId r agentId))"

datatype sort_field = ByClaimedAt | ByUpdatedAt | ByPriority | ByProgress

record claim_query_options =
  qo_claimantId :: "string option"
  qo_claimantType :: "claimant_type option"
  qo_status :: "claim_status list option"
  qo_repository :: "string option"
  qo_issueId :: "string option"
  qo_createdAfter :: "time option"
  qo_createdBefore :: "time option"
  qo_updatedAfter :: "time option"
  qo_stealableOnly :: bool
  qo_blockedOnly :: bool
  qo_limit :: "int option"
  qo_offset :: "int option"
  qo_sortBy :: "sort_field option"
  qo_sortDesc :: bool

text \<open>The sort value of a stored claim, whose progress is always defined; \<open>priority\<close> has no case
  in the comparator, which then leaves the order alone.\<close>

fun sort_value :: "sort_field \<Rightarrow> issue_claim \<Rightarrow> int" where
  "sort_value ByClaimedAt c = cl_claimedAt c"
| "sort_value ByUpdatedAt c = cl_lastActivityAt c"
| "sort_value ByProgress c = nullish (cl_progress c) 0"
| "sort_value ByPriority c = 0"

text \<open>A time bound of 0 is falsy and is ignored.\<close>

definition bound_filter :: "time option \<Rightarrow> (time \<Rightarrow> 'a \<Rightarrow> bool) \<Rightarrow> 'a list \<Rightarrow> 'a list" where
  "bound_filter b p xs = (if nullish b 0 \<noteq> 0 then filter (p (nullish b 0)) xs else xs)"

definition repo_query :: "repo_state \<Rightarrow> claim_query_options \<Rightarrow> issue_claim list" where
  "repo_query r q =
     (let r0 = jvalues (rs_claims r);
          r1 = (if truthy (qo_claimantId q)
                then filter (\<lambda>c. Some (ct_id (cl_claimant c)) = qo_claimantId q) r0 else r0);
          r2 = opt_filter (qo_claimantType q) (\<lambda>t c. ct_type (cl_claimant c) = t) r1;
          r3 = opt_filter (qo_status q) (\<lambda>ss c. cl_status c \<in> set ss) r2;
          r4 = (if truthy (qo_repository q)
                then filter (\<lambda>c. cl_repository c = qo_repository q) r3 else r3);
          r5 = (if truthy (qo_issueId q)
                then filter (\<lambda>c. Some (cl_issueId c) = qo_issueId q) r4 else r4);
          r6 = (if qo_stealableOnly q then filter (\<lambda>c. cl_status c = Stealable) r5 else r5);
          r7 = (if qo_blockedOnly q then filter (\<lambda>c. cl_blockedReason c \<noteq> None) r6 else r6);
          r8 = bound_filter (qo_createdAfter q) (\<lambda>t c. cl_claimedAt c \<ge> t) r7;
          r9 = bound_filter (qo_createdBefore q) (\<lambda>t c. cl_claimedAt c \<le> t) r8;
          r10 = bound_filter (qo_updatedAfter q) (\<lambda>t c. cl_lastActivityAt c \<ge> t) r9;
          r11 = (case qo_sortBy q of
                   None \<Rightarrow> r10
                 | Some f \<Rightarrow>
                     if qo_sortDesc q then sort_key (\<lambda>c. - sort_value f c) r10
                     else sort_key (sort_value f) r10)
      in paginate (qo_offset q) (qo_limit q) r11)"

section \<open>The invariant\<close>

text \<open>
  Claims are stored under their own id with a defined progress, every entry of the issue index
  leads to a claim with that key, and every claim is in the index entry of its claimant. The
  converse of the last clause does not hold: an entry may also hold ids of claims that have
  moved to another claimant.
\<close>

definition repo_wf :: "repo_state \<Rightarrow> bool" where
  "repo_wf r \<longleftrightarrow>
     jwf (rs_claims r) \<and> jwf (rs_issueIndex r) \<and> jwf (rs_claimantIndex r) \<and>
     (\<forall>i c. jget (rs_claims r) i = Some c \<longrightarrow> cl_id c = i \<and> cl_progress c \<noteq> None \<and>
        i \<in> set (nullish (jget (rs_claimantIndex r) (ct_id (cl_claimant c))) [])) \<and>
     (\<forall>k i. jget (rs_issueIndex r) k = Some i \<longrightarrow>
        (\<exists>c. jget (rs_claims r) i = Some c \<and> claim_key c = k)) \<and>
     (\<forall>a ids. jget (rs_claimantIndex r) a = Some ids \<longrightarrow> distinct ids)"

text \<open>Saving under an id in use keeps the claim's issue.\<close>

definition same_key :: "repo_state \<Rightarrow> issue_claim \<Rightarrow> bool" where
  "same_key r c \<longleftrightarrow> (\<forall>c'. jget (rs_claims r) (cl_id c) = Some c' \<longrightarrow> claim_key c' = claim_key c)"

lemma ensureFull_simps [simp]:
  "cl_id (ensureFullClaim c) = cl_id c" "cl_issueId (ensureFullClaim c) = cl_issueId c"
  "cl_claimant (ensureFullClaim c) = cl_claimant c" "cl_status (ensureFullClaim c) = cl_status c"
  "cl_lastActivityAt (ensureFullClaim c) = cl_lastActivityAt c"
  "cl_repository (ensureFullClaim c) = cl_repository c"
  "chain (ensureFullClaim c) = chain c" "claim_key (ensureFullClaim c) = claim_key c"
  by (simp_all add: ensureFullClaim_def chain_def claim_key_def)

lemma ensureFull_progress [simp]: "\<exists>p. cl_progress (ensureFullClaim c) = Some p"
  by (auto simp: ensureFullClaim_def)

lemma ensureFull_id: "cl_progress c \<noteq> None \<Longrightarrow> ensureFullClaim c = c"
  by (simp add: ensureFullClaim_def)

lemma getIssueKey_plain [simp]: "getIssueKey i [] = getIssueKey j [] \<longleftrightarrow> i = j"
  by (simp add: getIssueKey_def)

lemma repo_wf_new [simp]: "repo_wf createClaimRepository"
  by (simp add: repo_wf_def createClaimRepository_def)

lemma repo_wf_shutdown: "repo_wf (repo_shutdown r)"
  by (simp add: repo_wf_def repo_shutdown_def)

lemma repo_save_get:
  "jget (rs_claims (repo_save c r)) i =
     (if i = cl_id c then Some (ensureFullClaim c) else jget (rs_claims r) i)"
  by (simp add: repo_save_def Let_def)

lemma repo_save_index:
  "jget (rs_issueIndex (repo_save c r)) k =
     (if k = claim_key c then Some (cl_id c) else jget (rs_issueIndex r) k)"
  by (simp add: repo_save_def Let_def)

lemma repo_save_owned:
  "nullish (jget (rs_claimantIndex (repo_save c r)) a) [] =
     (if a = ct_id (cl_claimant c)
      then sadd (cl_id c) (nullish (jget (rs_claimantIndex r) a) [])
      else nullish (jget (rs_claimantIndex r) a) [])"
  by (simp add: repo_save_def Let_def)

lemma repo_wf_save:
  assumes "repo_wf r" and "same_key r c"
  shows "repo_wf (repo_save c r)"
  unfolding repo_wf_def
proof (intro conjI allI impI)
  show "jwf (rs_claims (repo_save c r))" "jwf (rs_issueIndex (repo_save c r))"
    "jwf (rs_claimantIndex (repo_save c r))"
    using assms(1) by (auto simp: repo_wf_def repo_save_def Let_def)
next
  fix i d assume d: "jget (rs_claims (repo_save c r)) i = Some d"
  show "cl_id d = i"
    using d assms(1) by (auto simp: repo_wf_def repo_save_get split: if_splits)
  show "cl_progress d \<noteq> None"
    using d assms(1) ensureFull_progress [of c]
    by (auto simp: repo_wf_def repo_save_get split: if_splits)
  show "i \<in> set (nullish (jget (rs_claimantIndex (repo_save c r)) (ct_id (cl_claimant d))) [])"
  proof (cases "i = cl_id c")
    case True
    then show ?thesis using d by (auto simp: repo_save_get repo_save_owned)
  next
    case False
    with d assms(1) have "i \<in> set (nullish (jget (rs_claimantIndex r) (ct_id (cl_claimant d))) [])"
      unfolding repo_wf_def by (simp add: repo_save_get)
    then show ?thesis by (cases "ct_id (cl_claimant d) = ct_id (cl_claimant c)") (auto simp: repo_save_owned)
  qed
next
  fix k i assume "jget (rs_issueIndex (repo_save c r)) k = Some i"
  then show "\<exists>d. jget (rs_claims (repo_save c r)) i = Some d \<and> claim_key d = k"
    using assms by (fastforce simp: repo_wf_def same_key_def repo_save_get repo_save_index split: if_splits)
next
  fix a ids assume "jget (rs_claimantIndex (repo_save c r)) a = Some ids"
  then show "distinct ids"
    using assms(1) by (auto simp: repo_wf_def repo_save_def Let_def nullish_def
        split: if_splits option.splits)
qed

lemma repo_delete_get: "jget (rs_claims (repo_delete i r)) j = (if j = i then None else jget (rs_claims r) j)"
  by (auto simp: repo_delete_def Let_def split: option.splits)

lemma repo_findById_save:
  "repo_findById (repo_save c r) i = (if i = cl_id c then Some (ensureFullClaim c) else repo_findById r i)"
  by (simp add: repo_findById_def repo_save_get)

lemma repo_values: "repo_wf r \<Longrightarrow> c \<in> set (jvalues (rs_claims r)) \<longleftrightarrow> repo_findById r (cl_id c) = Some c"
  by (auto simp: repo_findById_def repo_wf_def jvalues_jget)

lemma distinct_ids: "repo_wf r \<Longrightarrow> distinct (map cl_id (jvalues (rs_claims r)))"
proof -
  assume wf: "repo_wf r"
  then have "map cl_id (jvalues (rs_claims r)) = jkeys (rs_claims r)"
    by (force simp: repo_wf_def jvalues_def jkeys_def jget_in)
  with wf show ?thesis by (simp add: repo_wf_def jwf_def)
qed

section \<open>The interface\<close>

text \<open>\<open>IClaimRepository\<close> as the claim service uses it: a record of operations on a state.\<close>

record 'r claim_repo_ops =
  rp_save :: "issue_claim \<Rightarrow> 'r \<Rightarrow> 'r"
  rp_findByIssueId :: "'r \<Rightarrow> string \<Rightarrow> issue_claim option"
  rp_findByClaimant :: "'r \<Rightarrow> claimant \<Rightarrow> issue_claim list"
  rp_findStaleClaims :: "'r \<Rightarrow> time \<Rightarrow> issue_claim list"
  rp_countByClaimant :: "'r \<Rightarrow> string \<Rightarrow> nat"

definition in_memory_repo :: "repo_state claim_repo_ops" where
  "in_memory_repo =
     \<lparr>rp_save = repo_save,
      rp_findByIssueId = (\<lambda>r i. repo_findByIssueId r i None),
      rp_findByClaimant = repo_findByClaimant,
      rp_findStaleClaims = repo_findStaleClaims,
      rp_countByClaimant = repo_countByClaimant\<rparr>"

text \<open>
  The laws. \<open>look\<close> is the abstract content of the repository, a map from ids to claims. A claim
  is \<open>storable\<close> when it has an id, no repository name, and the issue of the claim it replaces.
\<close>

definition storable :: "(string \<Rightarrow> issue_claim option) \<Rightarrow> issue_claim \<Rightarrow> bool" where
  "storable m c \<longleftrightarrow> cl_id c \<noteq> [] \<and> cl_repository c = None \<and>
     (\<forall>c'. m (cl_id c) = Some c' \<longrightarrow> cl_issueId c' = cl_issueId c)"

locale claim_repository =
  fixes R :: "'r claim_repo_ops"
    and look :: "'r \<Rightarrow> string \<Rightarrow> issue_claim option"
    and rwf :: "'r \<Rightarrow> bool"
  assumes rwf_save: "rwf r \<Longrightarrow> storable (look r) c \<Longrightarrow> rwf (rp_save R c r)"
    and look_save: "rwf r \<Longrightarrow> storable (look r) c \<Longrightarrow>
      look (rp_save R c r) = (look r)(cl_id c \<mapsto> ensureFullClaim c)"
    and look_id: "rwf r \<Longrightarrow> look r i = Some c \<Longrightarrow>
      cl_id c = i \<and> cl_id c \<noteq> [] \<and> cl_repository c = None \<and> cl_progress c \<noteq> None"
    and find_sound: "rwf r \<Longrightarrow> rp_findByIssueId R r i = Some c \<Longrightarrow>
      look r (cl_id c) = Some c \<and> cl_issueId c = i \<and> isActiveStatus (cl_status c)"
    and find_saved: "rwf r \<Longrightarrow> storable (look r) c \<Longrightarrow>
      rp_findByIssueId R (rp_save R c r) (cl_issueId c) =
        (if isActiveStatus (cl_status c) then Some (ensureFullClaim c) else None)"
    and find_other: "rwf r \<Longrightarrow> storable (look r) c \<Longrightarrow> i \<noteq> cl_issueId c \<Longrightarrow>
      rp_findByIssueId R (rp_save R c r) i = rp_findByIssueId R r i"
    and stale_sound: "rwf r \<Longrightarrow> c \<in> set (rp_findStaleClaims R r t) \<Longrightarrow>
      look r (cl_id c) = Some c \<and> isActiveStatus (cl_status c) \<and> cl_lastActivityAt c < t"
    and stale_distinct: "rwf r \<Longrightarrow> distinct (map cl_id (rp_findStaleClaims R r t))"
begin

text \<open>Rewriting a claim that was found: same id, same issue, no repository.\<close>

lemma storable_found:
  "rwf r \<Longrightarrow> look r (cl_id c) = Some c \<Longrightarrow> cl_id d = cl_id c \<Longrightarrow> cl_issueId d = cl_issueId c \<Longrightarrow>
     cl_repository d = cl_repository c \<Longrightarrow> storable (look r) d"
  using look_id [of r "cl_id c" c] by (auto simp: storable_def)

lemma look_full: "rwf r \<Longrightarrow> look r i = Some c \<Longrightarrow> ensureFullClaim c = c"
  using look_id ensureFull_id by blast

end

definition plain_wf :: "repo_state \<Rightarrow> bool" where
  "plain_wf r \<longleftrightarrow> repo_wf r \<and>
     (\<forall>i c. repo_findById r i = Some c \<longrightarrow> i \<noteq> [] \<and> cl_repository c = None)"

lemma storable_same_key: "plain_wf r \<Longrightarrow> storable (repo_findById r) c \<Longrightarrow> same_key r c"
  by (auto simp: same_key_def storable_def plain_wf_def repo_findById_def claim_key_def)

text \<open>Distinct issues have distinct keys, so saving one leaves the lookup of the others alone.\<close>

lemma index_other:
  assumes "plain_wf r" and "storable (repo_findById r) c" and "i \<noteq> cl_issueId c"
    and "jget (rs_issueIndex r) (getIssueKey i []) = Some j"
  shows "j \<noteq> cl_id c"
proof
  assume j: "j = cl_id c"
  from assms(1,4) obtain c' where c': "jget (rs_claims r) j = Some c'" "claim_key c' = getIssueKey i []"
    unfolding plain_wf_def repo_wf_def by blast
  with assms(1) have "cl_repository c' = None"
    unfolding plain_wf_def repo_findById_def by blast
  with c'(2) have "cl_issueId c' = i" by (simp add: claim_key_def)
  moreover have "cl_issueId c' = cl_issueId c"
    using assms(2) c'(1) by (simp add: storable_def repo_findById_def j)
  ultimately show False using assms(3) by simp
qed

lemma find_sound_plain:
  assumes "plain_wf r" and "repo_findByIssueId r i None = Some c"
  shows "repo_findById r (cl_id c) = Some c \<and> cl_issueId c = i \<and> isActiveStatus (cl_status c)"
proof -
  from assms(2) obtain j where j: "jget (rs_issueIndex r) (getIssueKey i []) = Some j"
    and c: "jget (rs_claims r) j = Some c" and a: "isActiveStatus (cl_status c)"
    by (auto simp: repo_findByIssueId_def split: option.splits if_splits)
  from assms(1) j c have "claim_key c = getIssueKey i []" and "cl_id c = j"
    unfolding plain_wf_def repo_wf_def by force+
  moreover from assms(1) c have "cl_repository c = None"
    unfolding plain_wf_def repo_findById_def by blast
  ultimately show ?thesis using a c by (simp add: claim_key_def repo_findById_def)
qed

lemma find_other_plain:
  assumes "plain_wf r" and "storable (repo_findById r) c" and "i \<noteq> cl_issueId c"
  shows "repo_findByIssueId (repo_save c r) i None = repo_findByIssueId r i None"
proof -
  have "jget (rs_issueIndex (repo_save c r)) (getIssueKey i []) = jget (rs_issueIndex r) (getIssueKey i [])"
    using assms(2,3) by (simp add: repo_save_index claim_key_def storable_def)
  then show ?thesis
    using index_other [OF assms]
    by (simp add: repo_findByIssueId_def repo_save_get split: option.splits)
qed

interpretation in_memory: claim_repository in_memory_repo repo_findById plain_wf
proof unfold_locales
  fix r c i t
  assume wf: "plain_wf r"
  show "repo_findById r i = Some c \<Longrightarrow>
      cl_id c = i \<and> cl_id c \<noteq> [] \<and> cl_repository c = None \<and> cl_progress c \<noteq> None"
    using wf by (auto simp: plain_wf_def repo_wf_def repo_findById_def)
  show "rp_findByIssueId in_memory_repo r i = Some c \<Longrightarrow>
      repo_findById r (cl_id c) = Some c \<and> cl_issueId c = i \<and> isActiveStatus (cl_status c)"
    using find_sound_plain [OF wf] by (simp add: in_memory_repo_def)
  show "c \<in> set (rp_findStaleClaims in_memory_repo r t) \<Longrightarrow>
      repo_findById r (cl_id c) = Some c \<and> isActiveStatus (cl_status c) \<and> cl_lastActivityAt c < t"
    using wf by (auto simp: in_memory_repo_def repo_findStaleClaims_def plain_wf_def repo_values)
  show "distinct (map cl_id (rp_findStaleClaims in_memory_repo r t))"
    using wf distinct_ids [of r]
    by (auto simp: in_memory_repo_def repo_findStaleClaims_def plain_wf_def distinct_map
        intro: inj_on_subset)
next
  fix r c i
  assume wf: "plain_wf r" and st: "storable (repo_findById r) c"
  show "plain_wf (rp_save in_memory_repo c r)"
    using wf st repo_wf_save [OF _ storable_same_key [OF wf st]]
    by (auto simp: in_memory_repo_def plain_wf_def repo_findById_save storable_def)
  show "repo_findById (rp_save in_memory_repo c r) = (repo_findById r)(cl_id c \<mapsto> ensureFullClaim c)"
    by (auto simp: in_memory_repo_def repo_findById_save)
  show "rp_findByIssueId in_memory_repo (rp_save in_memory_repo c r) (cl_issueId c) =
      (if isActiveStatus (cl_status c) then Some (ensureFullClaim c) else None)"
    using st by (simp add: in_memory_repo_def repo_findByIssueId_def repo_save_index repo_save_get
        claim_key_def storable_def)
  show "i \<noteq> cl_issueId c \<Longrightarrow> rp_findByIssueId in_memory_repo (rp_save in_memory_repo c r) i =
      rp_findByIssueId in_memory_repo r i"
    using find_other_plain [OF wf st] by (simp add: in_memory_repo_def)
qed

lemma plain_wf_new: "plain_wf createClaimRepository"
  by (simp add: plain_wf_def repo_findById_def) (simp add: createClaimRepository_def)

lemma plain_wf_save: "plain_wf r \<Longrightarrow> storable (repo_findById r) c \<Longrightarrow> plain_wf (repo_save c r)"
  using in_memory.rwf_save by (simp add: in_memory_repo_def)

section \<open>Properties\<close>

lemma set_bound_filter [simp]:
  "set (bound_filter b p xs) = {x \<in> set xs. \<forall>t. b = Some t \<and> t \<noteq> 0 \<longrightarrow> p t x}"
  by (cases b) (auto simp: bound_filter_def)

lemma truthy_filter [simp]:
  "set (if truthy v then filter p xs else xs) = {x \<in> set xs. truthy v \<longrightarrow> p x}"
  by auto

text \<open>
  Queries answer what was asked: every claim a query returns is stored, and it satisfies each
  restriction that was given (claimant, type, status, repository, issue, stealable or blocked only,
  and the time bounds).
\<close>

theorem repo_query_sound:
  assumes "repo_wf r" and "c \<in> set (repo_query r q)"
  shows "repo_findById r (cl_id c) = Some c \<and>
    (truthy (qo_claimantId q) \<longrightarrow> qo_claimantId q = Some (ct_id (cl_claimant c))) \<and>
    (\<forall>t. qo_claimantType q = Some t \<longrightarrow> ct_type (cl_claimant c) = t) \<and>
    (\<forall>ss. qo_status q = Some ss \<longrightarrow> cl_status c \<in> set ss) \<and>
    (truthy (qo_repository q) \<longrightarrow> cl_repository c = qo_repository q) \<and>
    (truthy (qo_issueId q) \<longrightarrow> qo_issueId q = Some (cl_issueId c)) \<and>
    (qo_stealableOnly q \<longrightarrow> cl_status c = Stealable) \<and>
    (qo_blockedOnly q \<longrightarrow> cl_blockedReason c \<noteq> None) \<and>
    (\<forall>t. qo_createdAfter q = Some t \<and> t \<noteq> 0 \<longrightarrow> cl_claimedAt c \<ge> t) \<and>
    (\<forall>t. qo_createdBefore q = Some t \<and> t \<noteq> 0 \<longrightarrow> cl_claimedAt c \<le> t) \<and>
    (\<forall>t. qo_updatedAfter q = Some t \<and> t \<noteq> 0 \<longrightarrow> cl_lastActivityAt c \<ge> t)"
proof -
  have "\<exists>xs. c \<in> set xs \<and> set xs =
      {c \<in> set (jvalues (rs_claims r)).
        (truthy (qo_claimantId q) \<longrightarrow> Some (ct_id (cl_claimant c)) = qo_claimantId q) \<and>
        (\<forall>t. qo_claimantType q = Some t \<longrightarrow> ct_type (cl_claimant c) = t) \<and>
        (\<forall>ss. qo_status q = Some ss \<longrightarrow> cl_status c \<in> set ss) \<and>
        (truthy (qo_repository q) \<longrightarrow> cl_repository c = qo_repository q) \<and>
        (truthy (qo_issueId q) \<longrightarrow> Some (cl_issueId c) = qo_issueId q) \<and>
        (qo_stealableOnly q \<longrightarrow> cl_status c = Stealable) \<and>
        (qo_blockedOnly q \<longrightarrow> cl_blockedReason c \<noteq> None) \<and>
        (\<forall>t. qo_createdAfter q = Some t \<and> t \<noteq> 0 \<longrightarrow> cl_claimedAt c \<ge> t) \<and>
        (\<forall>t. qo_createdBefore q = Some t \<and> t \<noteq> 0 \<longrightarrow> cl_claimedAt c \<le> t) \<and>
        (\<forall>t. qo_updatedAfter q = Some t \<and> t \<noteq> 0 \<longrightarrow> cl_lastActivityAt c \<ge> t)}"
    using assms(2) [unfolded repo_query_def Let_def, THEN set_paginate [THEN subsetD]]
    by (intro exI conjI, assumption) (auto split: option.splits if_splits)
  then show ?thesis using repo_values [OF assms(1)] by auto
qed


text \<open>Two claims of one issue, the older one released.\<close>

definition demo_claim :: "string \<Rightarrow> claim_status \<Rightarrow> issue_claim" where
  "demo_claim i st = \<lparr>cl_id = i, cl_issueId = ''i1'',
     cl_claimant = \<lparr>ct_id = ''ann'', ct_type = Agent, ct_name = ''ann'', ct_capabilities = None,
       ct_specializations = None, ct_currentWorkload = None, ct_maxConcurrentClaims = None, ct_agentType = None\<rparr>,
     cl_status = st, cl_claimedAt = 1, cl_lastActivityAt = 1, cl_notes = None, cl_handoffChain = None,
     cl_reviewers = None, cl_repository = None, cl_progress = None, cl_blockedReason = None,
     cl_blockedAt = None, cl_stealableAt = None, cl_stealInfo = None, cl_contestInfo = None\<rparr>"

definition demo_repo :: repo_state where
  "demo_repo = repo_save (demo_claim ''c2'' Active) (repo_save (demo_claim ''c1'' Released) createClaimRepository)"

lemma demo_repo_wf: "repo_wf demo_repo"
  unfolding demo_repo_def
  by (intro repo_wf_save repo_wf_new)
    (simp_all add: same_key_def repo_save_get createClaimRepository_def demo_claim_def claim_key_def)

definition demo_query :: claim_query_options where
  "demo_query = \<lparr>qo_claimantId = Some ''ann'', qo_claimantType = None, qo_status = Some [Active], qo_repository = None,
     qo_issueId = None, qo_createdAfter = None, qo_createdBefore = None, qo_updatedAfter = None,
     qo_stealableOnly = False, qo_blockedOnly = False, qo_limit = None, qo_offset = None,
     qo_sortBy = Some ByClaimedAt, qo_sortDesc = True\<rparr>"

theorem repo_query_sound_witness:
  "repo_findById demo_repo (cl_id (hd (repo_query demo_repo demo_query))) = Some (hd (repo_query demo_repo demo_query))"
proof -
  have "hd (repo_query demo_repo demo_query) \<in> set (repo_query demo_repo demo_query)"
  proof (rule hd_in_set)
    have "map cl_id (repo_query demo_repo demo_query) = [''c2'']" by code_simp
    then show "repo_query demo_repo demo_query \<noteq> []" by auto
  qed
  from repo_query_sound [OF demo_repo_wf this] show ?thesis by blast
qed

text \<open>
  Deleting an old claim hides the current one: the index has one entry per issue, and deletion
  removes it without checking whose it is, so that an issue with an active claim is then reported as
  unclaimed.
\<close>

theorem delete_hides_current_claim:
  assumes "plain_wf r" and "repo_findByIssueId r i None = Some c" and "repo_findById r old = Some d"
    and "cl_issueId d = i" and "old \<noteq> cl_id c"
  shows "repo_findById (repo_delete old r) (cl_id c) = Some c \<and> repo_findByIssueId (repo_delete old r) i None = None"
proof -
  have "cl_repository d = None" using assms(1,3) unfolding plain_wf_def by blast
  then have "claim_key d = getIssueKey i []" using assms(4) by (simp add: claim_key_def)
  moreover have "jget (rs_claims r) old = Some d" using assms(3) by (simp add: repo_findById_def)
  ultimately have "jget (rs_issueIndex (repo_delete old r)) (getIssueKey i []) = None"
    by (simp add: repo_delete_def Let_def)
  then show ?thesis
    using find_sound_plain [OF assms(1,2)] assms(5)
    by (simp add: repo_findByIssueId_def repo_findById_def repo_delete_get)
qed

lemma demo_repo_plain: "plain_wf demo_repo"
proof -
  have "plain_wf (repo_save (demo_claim ''c1'' Released) createClaimRepository)"
    by (rule plain_wf_save [OF plain_wf_new]) (simp add: storable_def demo_claim_def repo_findById_def createClaimRepository_def)
  then show ?thesis unfolding demo_repo_def
    by (rule plain_wf_save)
      (simp add: storable_def repo_findById_def repo_save_get demo_claim_def createClaimRepository_def)
qed

theorem delete_hides_current_claim_witness:
  "repo_findByIssueId (repo_delete ''c1'' demo_repo) ''i1'' None = None"
proof -
  have "repo_findByIssueId demo_repo ''i1'' None = Some (ensureFullClaim (demo_claim ''c2'' Active))"
    and "repo_findById demo_repo ''c1'' = Some (ensureFullClaim (demo_claim ''c1'' Released))"
    by code_simp+
  from delete_hides_current_claim [OF demo_repo_plain this] show ?thesis by (simp add: demo_claim_def)
qed


end
