(* ===== verification/Hlc.thy ===== *)
theory Hlc
  imports Prelude "HOL-Library.List_Lexorder" "HOL-Library.Char_ord"
begin

text \<open>
  Model of \<open>claims/src/infrastructure/hlc.ts\<close>: the hybrid logical clock of the federation.
  The physical clock is an argument (\<open>wall\<close>) of each operation. The lemmas show that the
  timestamps a clock issues strictly increase whatever the wall clock does, that an update is
  causally after the received timestamp, and that a clock never runs ahead of the wall clock
  by more than the accepted skew. Node ids are compared as strings of code units.
\<close>

section \<open>Definitions\<close>

record hlc_timestamp =
  physicalMs :: time
  logical :: int
  nodeId :: string

definition zeroHlc :: "string \<Rightarrow> hlc_timestamp" where
  "zeroHlc n = \<lparr>physicalMs = 0, logical = 0, nodeId = n\<rparr>"

datatype hlc_error =
    HlcNoNodeId
  | HlcSkewError (receivedPhysicalMs: time) (localPhysicalMs: time) (errMaxSkewMs: time)

record local_hlc =
  hlc_nodeId :: string
  maxSkewMs :: time
  hlc_last :: hlc_timestamp

definition DEFAULT_MAX_SKEW_MS :: time where
  "DEFAULT_MAX_SKEW_MS = 30000"

definition new_LocalHlc :: "string \<Rightarrow> time \<Rightarrow> hlc_error + local_hlc" where
  "new_LocalHlc n skew =
     (if n = [] then Inl HlcNoNodeId
      else Inr \<lparr>hlc_nodeId = n, maxSkewMs = skew,
                hlc_last = \<lparr>physicalMs = -1, logical = 0, nodeId = n\<rparr>\<rparr>)"

definition hlc_now :: "time \<Rightarrow> local_hlc \<Rightarrow> hlc_timestamp \<times> local_hlc" where
  "hlc_now wall h =
     (let last = hlc_last h;
          (p, l) = (if wall > physicalMs last then (wall, 0)
                    else (physicalMs last, logical last + 1));
          ts = \<lparr>physicalMs = p, logical = l, nodeId = hlc_nodeId h\<rparr>
      in (ts, h\<lparr>hlc_last := ts\<rparr>))"

definition hlc_update ::
    "time \<Rightarrow> hlc_timestamp \<Rightarrow> local_hlc \<Rightarrow> hlc_error + hlc_timestamp \<times> local_hlc" where
  "hlc_update wall received h =
     (if physicalMs received > wall + maxSkewMs h
      then Inl (HlcSkewError (physicalMs received) wall (maxSkewMs h))
      else
        let last = hlc_last h;
            maxPhysical = max (max wall (physicalMs last)) (physicalMs received);
            l = (if maxPhysical = physicalMs last \<and> maxPhysical = physicalMs received
                 then max (logical last) (logical received) + 1
                 else if maxPhysical = physicalMs last then logical last + 1
                 else if maxPhysical = physicalMs received then logical received + 1
                 else 0);
            ts = \<lparr>physicalMs = maxPhysical, logical = l, nodeId = hlc_nodeId h\<rparr>
        in Inr (ts, h\<lparr>hlc_last := ts\<rparr>))"

definition hlc_peek :: "local_hlc \<Rightarrow> hlc_timestamp" where
  "hlc_peek h = hlc_last h"

definition compareHlc :: "hlc_timestamp \<Rightarrow> hlc_timestamp \<Rightarrow> int" where
  "compareHlc a b =
     (if physicalMs a < physicalMs b then -1
      else if physicalMs a > physicalMs b then 1
      else if logical a < logical b then -1
      else if logical a > logical b then 1
      else if nodeId a < nodeId b then -1
      else if nodeId a > nodeId b then 1
      else 0)"

definition hlcToWallMs :: "hlc_timestamp \<Rightarrow> time" where
  "hlcToWallMs t = physicalMs t"

definition wallMsToHlc :: "time \<Rightarrow> string \<Rightarrow> hlc_timestamp" where
  "wallMsToHlc ms n = \<lparr>physicalMs = ms, logical = 0, nodeId = n\<rparr>"

text \<open>
  A clock in use: local events and received timestamps, each with the wall clock read at that
  moment; a refused timestamp leaves the clock alone. The second component collects the
  timestamps issued, newest first.
\<close>

datatype hlc_op = HNow time | HUpdate time hlc_timestamp

fun hlc_step :: "hlc_op \<Rightarrow> local_hlc \<times> hlc_timestamp list \<Rightarrow> local_hlc \<times> hlc_timestamp list" where
  "hlc_step (HNow w) (h, out) = (let (ts, h') = hlc_now w h in (h', ts # out))"
| "hlc_step (HUpdate w r) (h, out) =
     (case hlc_update w r h of Inl _ \<Rightarrow> (h, out) | Inr (ts, h') \<Rightarrow> (h', ts # out))"

fun op_wall :: "hlc_op \<Rightarrow> time" where
  "op_wall (HNow w) = w"
| "op_wall (HUpdate w r) = w"

section \<open>The comparison is a total order\<close>

lemma compareHlc_less:
  "compareHlc a b < 0 \<longleftrightarrow> physicalMs a < physicalMs b \<or> physicalMs a = physicalMs b \<and>
     (logical a < logical b \<or> logical a = logical b \<and> nodeId a < nodeId b)"
  by (simp add: compareHlc_def)

interpretation hlc_order: comparator compareHlc
proof unfold_locales
  fix a b c :: hlc_timestamp
  show "compareHlc a b = 0 \<longleftrightarrow> a = b"
    by (cases a, cases b) (auto simp: compareHlc_def)
  show "compareHlc b a = - compareHlc a b"
    by (auto simp: compareHlc_def)
  show "compareHlc a b < 0 \<Longrightarrow> compareHlc b c < 0 \<Longrightarrow> compareHlc a c < 0"
    unfolding compareHlc_less by (elim disjE conjE) simp_all
qed

section \<open>Monotonicity\<close>

lemma compareHlc_up:
  "physicalMs a < physicalMs b \<or> physicalMs a = physicalMs b \<and> logical a < logical b \<Longrightarrow>
     compareHlc a b = -1"
  by (auto simp: compareHlc_def)

lemma hlc_now_advances:
  "hlc_now w h = (ts, h') \<Longrightarrow> compareHlc (hlc_last h) ts = -1 \<and> hlc_last h' = ts"
  by (auto simp: hlc_now_def compareHlc_def Let_def split: if_splits)

lemma hlc_now_wall: "hlc_now w h = (ts, h') \<Longrightarrow> physicalMs (hlc_last h) < w \<Longrightarrow>
    physicalMs ts = w \<and> logical ts = 0"
  by (auto simp: hlc_now_def Let_def)

lemma hlc_update_fields:
  assumes "hlc_update w r h = Inr (ts, h')"
  shows "physicalMs ts = max (max w (physicalMs (hlc_last h))) (physicalMs r)"
    and "physicalMs ts = physicalMs (hlc_last h) \<Longrightarrow> logical (hlc_last h) < logical ts"
    and "physicalMs ts = physicalMs r \<Longrightarrow> logical r < logical ts"
    and "hlc_last h' = ts"
  using assms by (auto simp: hlc_update_def Let_def split: if_splits)

lemma hlc_update_advances:
  assumes "hlc_update w r h = Inr (ts, h')"
  shows "compareHlc (hlc_last h) ts = -1 \<and> compareHlc r ts = -1 \<and> hlc_last h' = ts"
proof (intro conjI)
  note f = hlc_update_fields [OF assms]
  have "physicalMs (hlc_last h) \<le> physicalMs ts" and "physicalMs r \<le> physicalMs ts"
    using f(1) by simp_all
  with f(2,3) show "compareHlc (hlc_last h) ts = -1" and "compareHlc r ts = -1"
    by (auto intro!: compareHlc_up simp: le_less)
  show "hlc_last h' = ts" by (rule f(4))
qed

lemma hlc_update_refused: "(\<exists>e. hlc_update w r h = Inl e) \<longleftrightarrow> physicalMs r > w + maxSkewMs h"
  by (auto simp: hlc_update_def Let_def)

lemma hlc_frame:
  "hlc_now w h = (ts, h') \<Longrightarrow> maxSkewMs h' = maxSkewMs h \<and> hlc_nodeId h' = hlc_nodeId h"
  "hlc_update w r h = Inr (ts, h') \<Longrightarrow> maxSkewMs h' = maxSkewMs h \<and> hlc_nodeId h' = hlc_nodeId h"
  by (auto simp: hlc_now_def hlc_update_def Let_def split: if_splits)

text \<open>The timestamps issued so far strictly decrease from the newest on, and the clock's last
  timestamp is not before any of them.\<close>

definition hlc_inv :: "local_hlc \<times> hlc_timestamp list \<Rightarrow> bool" where
  "hlc_inv = (\<lambda>(h, out).
     sorted_wrt (\<lambda>a b. compareHlc b a < 0) out \<and> (\<forall>t \<in> set out. compareHlc t (hlc_last h) \<le> 0))"

lemma hlc_issue_inv:
  assumes "hlc_inv (h, out)" and "compareHlc (hlc_last h) ts < 0" and "hlc_last h' = ts"
  shows "hlc_inv (h', ts # out)"
proof -
  have "compareHlc t ts < 0" if "t \<in> set out" for t
    using that assms by (auto simp: hlc_inv_def intro: hlc_order.cmp_le_trans)
  with assms show ?thesis
    using hlc_order.cmp_zero [of ts ts] by (auto simp: hlc_inv_def intro: less_imp_le)
qed

interpretation hlc_sys: invariant_system hlc_step hlc_inv
proof unfold_locales
  fix s a assume inv: "hlc_inv s"
  obtain h out where s: "s = (h, out)" by (cases s)
  show "hlc_inv (hlc_step a s)"
  proof (cases a)
    case (HNow w)
    obtain ts h' where now: "hlc_now w h = (ts, h')" by (cases "hlc_now w h")
    with inv show ?thesis using hlc_now_advances [OF now] by (simp add: HNow s hlc_issue_inv)
  next
    case (HUpdate w r)
    show ?thesis
    proof (cases "hlc_update w r h")
      case (Inr p)
      obtain ts h' where p: "p = (ts, h')" by (cases p)
      with inv Inr show ?thesis
        using hlc_update_advances [of w r h ts h'] by (simp add: HUpdate s hlc_issue_inv)
    qed (simp add: HUpdate s inv [unfolded s])
  qed
qed

section \<open>Bounded drift\<close>

lemma hlc_now_bound: "hlc_now w h = (ts, h') \<Longrightarrow> physicalMs ts = max w (physicalMs (hlc_last h))"
  by (auto simp: hlc_now_def Let_def split: if_splits)

lemma hlc_update_bound:
  "hlc_update w r h = Inr (ts, h') \<Longrightarrow> 0 \<le> maxSkewMs h \<Longrightarrow>
     physicalMs ts \<le> max (physicalMs (hlc_last h)) (w + maxSkewMs h)"
  by (auto simp: hlc_update_def Let_def max_def split: if_splits)

definition hlc_drift_inv :: "time \<Rightarrow> time \<Rightarrow> local_hlc \<times> hlc_timestamp list \<Rightarrow> bool" where
  "hlc_drift_inv W skew = (\<lambda>(h, out). maxSkewMs h = skew \<and> physicalMs (hlc_last h) \<le> W + skew)"

interpretation hlc_drift: guarded_system "\<lambda>a s. op_wall a \<le> W \<and> 0 \<le> skew" hlc_step
    "hlc_drift_inv W skew" for W skew
proof unfold_locales
  fix a s assume ok: "op_wall a \<le> W \<and> 0 \<le> skew" and inv: "hlc_drift_inv W skew s"
  obtain h out where s: "s = (h, out)" by (cases s)
  show "hlc_drift_inv W skew (hlc_step a s)"
  proof (cases a)
    case (HNow w)
    obtain ts h' where now: "hlc_now w h = (ts, h')" by (cases "hlc_now w h")
    with inv ok show ?thesis
      using hlc_now_bound [OF now] hlc_frame(1) [OF now] hlc_now_advances [OF now]
      by (simp add: HNow s hlc_drift_inv_def)
  next
    case (HUpdate w r)
    show ?thesis
    proof (cases "hlc_update w r h")
      case (Inr p)
      obtain ts h' where p: "p = (ts, h')" by (cases p)
      with Inr have u: "hlc_update w r h = Inr (ts, h')" by simp
      with inv ok show ?thesis
        using hlc_update_bound [OF u] hlc_frame(2) [OF u] hlc_update_advances [OF u]
        by (auto simp: HUpdate s hlc_drift_inv_def max_def split: if_splits)
    qed (use inv in \<open>simp add: HUpdate s\<close>)
  qed
qed

section \<open>Properties\<close>

text \<open>
  C30. A clock never repeats itself or goes back: whatever the wall clock does and whatever
  timestamps are received, the timestamps the clock issues are strictly increasing (the list
  holds them newest first).
\<close>

theorem hlc_strictly_increases:
  "sorted_wrt (\<lambda>a b. compareHlc b a < 0) (snd (run hlc_step ops (h, [])))"
proof -
  have "hlc_inv (h, [])" by (simp add: hlc_inv_def)
  then have "hlc_inv (run hlc_step ops (h, []))" by (rule hlc_sys.run_inv)
  then show ?thesis by (simp add: hlc_inv_def split_beta)
qed

text \<open>
  A received timestamp happens before the one issued for it, and after the clock's own last
  one; it is refused exactly when it is further ahead of the wall clock than the accepted skew.
\<close>

theorem hlc_update_causal:
  "case hlc_update w r h of
     Inl _ \<Rightarrow> physicalMs r > w + maxSkewMs h
   | Inr (ts, h') \<Rightarrow> physicalMs r \<le> w + maxSkewMs h \<and> compareHlc r ts < 0 \<and>
       compareHlc (hlc_last h) ts < 0 \<and> hlc_last h' = ts"
  using hlc_update_refused [of w r h] hlc_update_advances [of w r h]
  by (auto split: sum.split prod.split)

text \<open>
  Bounded drift: as long as no wall clock reading exceeds \<open>W\<close>, no timestamp of the clock runs
  ahead of \<open>W\<close> by more than the accepted skew, however far ahead other nodes claim to be.
\<close>

theorem hlc_drift_bounded:
  assumes "0 \<le> maxSkewMs h" and "physicalMs (hlc_last h) \<le> W + maxSkewMs h"
    and "list_all (\<lambda>a. op_wall a \<le> W) ops"
  shows "physicalMs (hlc_last (fst (run hlc_step ops (h, out)))) \<le> W + maxSkewMs h"
proof -
  have "run_ok (\<lambda>a s. op_wall a \<le> W \<and> 0 \<le> maxSkewMs h) hlc_step ops s" for s
    using assms(1,3) by (induction ops arbitrary: s) auto
  then have "hlc_drift_inv W (maxSkewMs h) (run hlc_step ops (h, out))"
    by (rule hlc_drift.guarded_run) (simp add: hlc_drift_inv_def assms(2))
  then show ?thesis by (simp add: hlc_drift_inv_def split_beta)
qed

theorem hlc_drift_bounded_witness:
  "physicalMs (hlc_last (fst (run hlc_step [HNow 100, HUpdate 120 \<lparr>physicalMs = 20000, logical = 3, nodeId = ''b''\<rparr>]
     (\<lparr>hlc_nodeId = ''a'', maxSkewMs = 30000, hlc_last = zeroHlc ''a''\<rparr>, [])))) \<le> 120 + 30000"
  using hlc_drift_bounded [of "\<lparr>hlc_nodeId = ''a'', maxSkewMs = 30000, hlc_last = zeroHlc ''a''\<rparr>" 120
      "[HNow 100, HUpdate 120 \<lparr>physicalMs = 20000, logical = 3, nodeId = ''b''\<rparr>]" "[]"]
  by (simp add: zeroHlc_def)


end
