(* ===== verification/WorkStealing.thy ===== *)
theory WorkStealing
  imports ClaimRepository Hlc
begin

text \<open>
  Model of \<open>claims/src/application/work-stealing-service.ts\<close>: the event bus with its bounded
  history, and the service that marks claims as stealable, steals them, and handles contests.
  The service works on the in-memory claim repository. Its state carries the position in the
  stream of clock reads: the \<open>k\<close>-th read of a clock returns \<open>clk k\<close>, through the hybrid logical
  clock when one is wired in. Events that carry a reference to the claim object record the id of
  that claim instead.

  The repository hands out the objects it stores, so a call that waits sees what others have written in the meantime.
  \<open>markStealable\<close>, \<open>contestSteal\<close> and \<open>resolveContest\<close> check and write without a wait in between. \<open>steal\<close> waits between its
  checks and its writes, for \<open>countByAgentId\<close>: it is split there into \<open>steal_begin\<close> and \<open>steal_end\<close>, and other calls may come
  between the two. An event is emitted together with its write. \<open>autoMarkStealable\<close> waits between its calls of \<open>markStealable\<close>;
  it is one step here, and interleavings of its marks with other calls are those of separate calls of \<open>markStealable\<close>.
\<close>

section \<open>The event bus\<close>

datatype ws_event_type = IssueMarkedStealable | IssueStolen | StealContested | StealContestResolved

datatype ws_payload =
    MarkedPayload stealable_info claimant
  | StolenPayload claimant claimant "stealable_info option" time
  | ContestedPayload
  | ResolvedPayload contest_resolution

record ws_event =
  we_id :: string
  we_type :: ws_event_type
  we_timestamp :: time
  we_issueId :: string
  we_claimId :: string
  we_payload :: ws_payload

text \<open>
  The spread copy of a mark that is gone is the empty object, \<open>None\<close> in \<open>StolenPayload\<close>.
  The key \<open>None\<close> of \<open>wb_handlers\<close> is \<open>'*'\<close>. Handlers are client code, named by a number; the
  calls made to them are recorded (\<open>safeExecute\<close> catches their exceptions).
\<close>

record ws_bus =
  wb_handlers :: "(ws_event_type option, nat jsset) jsmap"
  wb_history :: "ws_event list"
  wb_maxHistorySize :: nat
  wb_calls :: "(nat \<times> ws_event) list"

definition new_ws_bus :: "nat option \<Rightarrow> ws_bus" where
  "new_ws_bus maxHistorySize =
     \<lparr>wb_handlers = [], wb_history = [], wb_maxHistorySize = nullish maxHistorySize 1000,
      wb_calls = []\<rparr>"

definition addToHistory :: "ws_event \<Rightarrow> ws_bus \<Rightarrow> ws_bus" where
  "addToHistory event b =
     (let h = wb_history b @ [event]
      in b\<lparr>wb_history :=
            (if length h > wb_maxHistorySize b then slice_last (wb_maxHistorySize b div 2) h else h)\<rparr>)"

definition ws_emit :: "ws_event \<Rightarrow> ws_bus \<Rightarrow> ws_bus" where
  "ws_emit event b0 =
     (let b = addToHistory event b0;
          typeHandlers = nullish (jget (wb_handlers b) (Some (we_type event))) [];
          allHandlers = nullish (jget (wb_handlers b) None) []
      in b\<lparr>wb_calls := wb_calls b @ map (\<lambda>h. (h, event)) (typeHandlers @ allHandlers)\<rparr>)"

definition ws_subscribe :: "ws_event_type option \<Rightarrow> nat \<Rightarrow> ws_bus \<Rightarrow> ws_bus" where
  "ws_subscribe eventType handler b =
     b\<lparr>wb_handlers := jset eventType
         (sadd handler (nullish (jget (wb_handlers b) eventType) [])) (wb_handlers b)\<rparr>"

text \<open>The closure \<open>subscribe\<close> and \<open>subscribeAll\<close> return.\<close>

definition ws_unsubscribe :: "ws_event_type option \<Rightarrow> nat \<Rightarrow> ws_bus \<Rightarrow> ws_bus" where
  "ws_unsubscribe eventType handler b =
     b\<lparr>wb_handlers := jset eventType
         (sdel handler (nullish (jget (wb_handlers b) eventType) [])) (wb_handlers b)\<rparr>"

definition getHistory :: "ws_bus \<Rightarrow> ws_event_type list option \<Rightarrow> nat option \<Rightarrow> ws_event list" where
  "getHistory b types limit =
     (let events = (if nullish types [] \<noteq> []
                    then filter (\<lambda>e. we_type e \<in> set (nullish types [])) (wb_history b)
                    else wb_history b)
      in if nullish limit 0 \<noteq> 0 then slice_last (nullish limit 0) events else events)"

section \<open>The service\<close>

datatype ws_error =
    ClaimNotFound | StillInGracePeriod | ProtectedByProgress | NoStealToContest
  | ContestAlreadyResolved | ContestWindowExpired | NotTheOriginalClaimant | NoContestToResolve

record ws_state =
  ws_repo :: repo_state
  ws_bus :: ws_bus
  ws_hlc :: "local_hlc option"
  ws_reads :: nat
  ws_stealing :: "(string \<times> string \<times> claimant) list"

text \<open>\<open>ws_stealing\<close> holds the steals that wait: the issue, the id of its claim and the stealer.\<close>

text \<open>\<open>new Date()\<close>\<close>

definition new_date :: "clock \<Rightarrow> ws_state \<Rightarrow> time \<times> ws_state" where
  "new_date clk s = (clk (ws_reads s), s\<lparr>ws_reads := Suc (ws_reads s)\<rparr>)"

definition nowMs :: "clock \<Rightarrow> ws_state \<Rightarrow> time \<times> ws_state" where
  "nowMs clk s =
     (let (wall, s') = new_date clk s
      in case ws_hlc s' of
           None \<Rightarrow> (wall, s')
         | Some h \<Rightarrow> let (t, h') = hlc_now wall h
                    in (physicalMs t, s'\<lparr>ws_hlc := Some h'\<rparr>))"

definition minutes :: "int \<Rightarrow> time" where
  "minutes m = m * 60 * 1000"

definition isInGracePeriodWithConfig ::
    "clock \<Rightarrow> issue_claim \<Rightarrow> work_stealing_config \<Rightarrow> ws_state \<Rightarrow> bool \<times> ws_state" where
  "isInGracePeriodWithConfig clk c cfg s =
     (let (now, s') = nowMs clk s
      in (now - cl_claimedAt c < minutes (gracePeriodMinutes cfg), s'))"

definition isProtectedByProgressWithConfig :: "issue_claim \<Rightarrow> work_stealing_config \<Rightarrow> bool" where
  "isProtectedByProgressWithConfig c cfg = progress_ge c (minProgressToProtect cfg)"

fun agent_keyword :: "agent_type \<Rightarrow> string" where
  "agent_keyword Coder = ''coder''"
| "agent_keyword Debugger = ''debugger''"
| "agent_keyword Tester = ''tester''"
| "agent_keyword Reviewer = ''reviewer''"
| "agent_keyword Researcher = ''researcher''"
| "agent_keyword Planner = ''planner''"
| "agent_keyword Architect = ''architect''"
| "agent_keyword Coordinator = ''coordinator''"

text \<open>\<open>toLowerCase\<close>: no letter outside ASCII lowers to a letter of a keyword within 8-bit characters.\<close>

definition char_lower :: "char \<Rightarrow> char" where
  "char_lower c = (let n = of_char c :: nat in if 65 \<le> n \<and> n \<le> 90 then char_of (n + 32) else c)"

definition str_includes :: "string \<Rightarrow> string \<Rightarrow> bool" where
  "str_includes s w = list_ex (\<lambda>n. take (length w) (drop n s) = w) [0..<Suc (length s)]"

definition typeKeywords :: "agent_type list" where
  "typeKeywords = [Coder, Debugger, Tester, Reviewer, Researcher, Planner, Architect, Coordinator]"

definition getAgentType :: "claimant \<Rightarrow> agent_type" where
  "getAgentType w =
     nullish (find (\<lambda>t. agent_keyword t \<in> set (nullish (ct_specializations w) []) \<or>
                       agent_keyword t \<in> set (nullish (ct_capabilities w) []) \<or>
                       str_includes (map char_lower (ct_name w)) (agent_keyword t)) typeKeywords)
       Coder"

definition canStealCrossType ::
    "work_stealing_config \<Rightarrow> agent_type \<Rightarrow> agent_type \<Rightarrow> stealable_info \<Rightarrow> bool" where
  "canStealCrossType cfg stealerType ownerType stealInfo =
     (if stealerType = ownerType then True
      else if \<not> allowCrossTypeSteal cfg then False
      else case si_allowedStealerTypes stealInfo of
             Some ts \<Rightarrow> stealerType \<in> set ts
           | None \<Rightarrow>
               list_ex (\<lambda>(type1, type2). stealerType = type1 \<and> ownerType = type2 \<or>
                          stealerType = type2 \<and> ownerType = type1) (crossTypeStealRules cfg))"

definition getAllowedStealerTypes :: "claimant \<Rightarrow> work_stealing_config \<Rightarrow> agent_type list option" where
  "getAllowedStealerTypes w cfg =
     (if \<not> allowCrossTypeSteal cfg then None
      else
        let ownerType = getAgentType w;
            allowed = ownerType #
              concat (map (\<lambda>(type1, type2). (if ownerType = type1 then [type2] else []) @
                                           (if ownerType = type2 then [type1] else []))
                        (crossTypeStealRules cfg))
        in Some (fold sadd allowed []))"

definition determineStaleReason ::
    "issue_claim \<Rightarrow> work_stealing_config \<Rightarrow> time \<Rightarrow> stealable_reason" where
  "determineStaleReason c cfg now =
     (if cl_status c = PendingHandoff \<and>
         (case cl_blockedAt c of None \<Rightarrow> False
          | Some t \<Rightarrow> now - t > minutes (blockedThresholdMinutes cfg))
      then BlockedReason
      else if now - cl_lastActivityAt c > minutes (staleThresholdMinutes cfg) then Stale
      else Overloaded)"

definition determineResolver ::
    "clock \<Rightarrow> claimant \<Rightarrow> contest_info \<Rightarrow> ws_state \<Rightarrow> resolver \<times> ws_state" where
  "determineResolver clk winner ci s =
     (let (now, s') = new_date clk s
      in (if now > ci_windowEndsAt ci then ByTimeout
          else if ct_type winner = Human then ByHuman else ByQueen, s'))"

text \<open>The emitters: each event has a fresh id and the time of its creation.\<close>

definition emitEvent ::
    "clock \<Rightarrow> string \<Rightarrow> ws_event_type \<Rightarrow> issue_claim \<Rightarrow> ws_payload \<Rightarrow> ws_state \<Rightarrow> ws_state" where
  "emitEvent clk uuid ty c payload s =
     (let (now, s') = new_date clk s
      in s'\<lparr>ws_bus := ws_emit \<lparr>we_id = ''evt-'' @ uuid, we_type = ty, we_timestamp = now,
              we_issueId = cl_issueId c, we_claimId = cl_id c, we_payload = payload\<rparr> (ws_bus s')\<rparr>)"

definition ws_update :: "issue_claim \<Rightarrow> ws_state \<Rightarrow> ws_state" where
  "ws_update c s = s\<lparr>ws_repo := repo_update c (ws_repo s)\<rparr>"

definition markStealable ::
    "work_stealing_config \<Rightarrow> clock \<Rightarrow> string \<Rightarrow> string \<Rightarrow> stealable_info \<Rightarrow> ws_state
      \<Rightarrow> (ws_error + unit) \<times> ws_state" where
  "markStealable cfg clk uuid issueId info s =
     (case repo_findByIssueId (ws_repo s) issueId None of
        None \<Rightarrow> (Inl ClaimNotFound, s)
      | Some c \<Rightarrow>
          if cl_stealInfo c \<noteq> None then (Inr (), s)
          else
            let (grace, s1) = isInGracePeriodWithConfig clk c cfg s
            in if grace then (Inl StillInGracePeriod, s1)
               else if isProtectedByProgressWithConfig c cfg then (Inl ProtectedByProgress, s1)
               else
                 let (now, s2) = new_date clk s1;
                     c' = c\<lparr>cl_stealInfo := Some (info\<lparr>si_markedAt := now\<rparr>),
                            cl_stealableAt := Some now\<rparr>
                 in (Inr (), emitEvent clk uuid IssueMarkedStealable c'
                               (MarkedPayload info (cl_claimant c)) (ws_update c' s2)))"

record steal_success =
  ss_claim :: issue_claim
  ss_previousClaimant :: claimant
  ss_contestWindowEndsAt :: time

text \<open>The checks of \<open>steal\<close>, with the count of the stealer's claims, which is read when the wait begins.\<close>

definition steal_begin ::
    "work_stealing_config \<Rightarrow> clock \<Rightarrow> string \<Rightarrow> claimant \<Rightarrow> ws_state
      \<Rightarrow> (steal_error_code + issue_claim) \<times> ws_state" where
  "steal_begin cfg clk issueId stealer s =
     (case repo_findByIssueId (ws_repo s) issueId None of
        None \<Rightarrow> (Inl STEAL_ISSUE_NOT_FOUND, s)
      | Some c \<Rightarrow>
          (case cl_stealInfo c of
             None \<Rightarrow> (Inl NOT_STEALABLE, s)
           | Some si \<Rightarrow>
               if contest_open c then (Inl CONTEST_PENDING, s)
               else
                 let (grace, s1) = isInGracePeriodWithConfig clk c cfg s
                 in if grace then (Inl IN_GRACE_PERIOD, s1)
                    else if isProtectedByProgressWithConfig c cfg then (Inl PROTECTED_BY_PROGRESS, s1)
                    else if \<not> canStealCrossType cfg (getAgentType stealer) (getAgentType (cl_claimant c)) si
                    then (Inl CROSS_TYPE_NOT_ALLOWED, s1)
                    else if int (repo_countByAgentId (ws_repo s1) (ct_id stealer)) \<ge> overloadThreshold cfg
                    then (Inl STEALER_OVERLOADED, s1)
                    else (Inr c, s1)))"

text \<open>The rest, on the claim object as it then is.\<close>

definition steal_end ::
    "work_stealing_config \<Rightarrow> clock \<Rightarrow> string \<Rightarrow> claimant \<Rightarrow> issue_claim \<Rightarrow> ws_state \<Rightarrow> steal_success \<times> ws_state" where
  "steal_end cfg clk uuid stealer c s =
     (let previousClaimant = cl_claimant c;
          (now, s1) = new_date clk s;
          windowEndsAt = now + minutes (contestWindowMinutes cfg);
          c' = c\<lparr>cl_claimant := stealer, cl_stealInfo := None, cl_stealableAt := None, cl_lastActivityAt := now,
                 cl_contestInfo := Some \<lparr>ci_contestedAt = now, ci_contestedBy = previousClaimant,
                   ci_stolenBy = stealer, ci_reason = [], ci_windowEndsAt = windowEndsAt, ci_resolution = None\<rparr>\<rparr>
      in (\<lparr>ss_claim = c', ss_previousClaimant = previousClaimant, ss_contestWindowEndsAt = windowEndsAt\<rparr>,
          emitEvent clk uuid IssueStolen c' (StolenPayload previousClaimant stealer (cl_stealInfo c) windowEndsAt)
            (ws_update c' s1)))"

text \<open>A call of \<open>steal\<close> with nothing in between.\<close>

definition steal ::
    "work_stealing_config \<Rightarrow> clock \<Rightarrow> string \<Rightarrow> string \<Rightarrow> claimant \<Rightarrow> ws_state
      \<Rightarrow> (steal_error_code + steal_success) \<times> ws_state" where
  "steal cfg clk uuid issueId stealer s =
     (case steal_begin cfg clk issueId stealer s of
        (Inl e, s1) \<Rightarrow> (Inl e, s1)
      | (Inr c, s1) \<Rightarrow> (let (r, s2) = steal_end cfg clk uuid stealer c s1 in (Inr r, s2)))"

fun stealable_filter ::
    "work_stealing_config \<Rightarrow> clock \<Rightarrow> agent_type option \<Rightarrow> issue_claim list \<Rightarrow> ws_state
      \<Rightarrow> issue_claim list \<times> ws_state" where
  "stealable_filter cfg clk ty [] s = ([], s)"
| "stealable_filter cfg clk ty (c # cs) s =
     (case cl_stealInfo c of
        None \<Rightarrow> stealable_filter cfg clk ty cs s
      | Some si \<Rightarrow>
          let (grace, s1) = isInGracePeriodWithConfig clk c cfg s;
              (rest, s2) = stealable_filter cfg clk ty cs s1;
              wrongType = (case (ty, si_allowedStealerTypes si) of
                             (Some t, Some ts) \<Rightarrow> t \<notin> set ts | _ \<Rightarrow> False)
          in (if grace \<or> isProtectedByProgressWithConfig c cfg \<or> wrongType then rest else c # rest, s2))"

definition getStealable ::
    "work_stealing_config \<Rightarrow> clock \<Rightarrow> agent_type option \<Rightarrow> ws_state \<Rightarrow> issue_claim list \<times> ws_state" where
  "getStealable cfg clk agentType s =
     stealable_filter cfg clk agentType (repo_findStealable (ws_repo s) agentType) s"

definition contestSteal ::
    "clock \<Rightarrow> string \<Rightarrow> string \<Rightarrow> claimant \<Rightarrow> string \<Rightarrow> ws_state \<Rightarrow> (ws_error + unit) \<times> ws_state" where
  "contestSteal clk uuid issueId originalClaimant reason s =
     (case repo_findByIssueId (ws_repo s) issueId None of
        None \<Rightarrow> (Inl ClaimNotFound, s)
      | Some c \<Rightarrow>
          (case cl_contestInfo c of
             None \<Rightarrow> (Inl NoStealToContest, s)
           | Some ci \<Rightarrow>
               if ci_resolution ci \<noteq> None then (Inl ContestAlreadyResolved, s)
               else
                 let (now, s1) = nowMs clk s
                 in if now > ci_windowEndsAt ci then (Inl ContestWindowExpired, s1)
                    else if ct_id (ci_contestedBy ci) \<noteq> ct_id originalClaimant
                    then (Inl NotTheOriginalClaimant, s1)
                    else
                      let c' = c\<lparr>cl_contestInfo := Some (ci\<lparr>ci_reason := reason, ci_contestedAt := now\<rparr>)\<rparr>
                      in (Inr (), emitEvent clk uuid StealContested c' ContestedPayload (ws_update c' s1))))"

definition resolveContest ::
    "clock \<Rightarrow> string \<Rightarrow> string \<Rightarrow> claimant \<Rightarrow> string \<Rightarrow> ws_state \<Rightarrow> (ws_error + unit) \<times> ws_state" where
  "resolveContest clk uuid issueId winner reason s =
     (case repo_findByIssueId (ws_repo s) issueId None of
        None \<Rightarrow> (Inl ClaimNotFound, s)
      | Some c \<Rightarrow>
          (case cl_contestInfo c of
             None \<Rightarrow> (Inl NoContestToResolve, s)
           | Some ci \<Rightarrow>
               if ci_resolution ci \<noteq> None then (Inl ContestAlreadyResolved, s)
               else
                 let (now, s1) = new_date clk s;
                     (resolvedBy, s2) = determineResolver clk winner ci s1;
                     resolution = \<lparr>cr_resolvedAt = now, cr_winner = winner,
                                   cr_resolvedBy = resolvedBy, cr_reason = reason\<rparr>;
                     c1 = c\<lparr>cl_contestInfo := Some (ci\<lparr>ci_resolution := Some resolution\<rparr>)\<rparr>;
                     c2 = (if ct_id winner = ct_id (ci_contestedBy ci)
                           then c1\<lparr>cl_claimant := winner\<rparr> else c1);
                     c' = c2\<lparr>cl_lastActivityAt := now\<rparr>
                 in (Inr (), emitEvent clk uuid StealContestResolved c' (ResolvedPayload resolution)
                               (ws_update c' s2))))"

text \<open>First loop of \<open>detectStaleWork\<close>: stale and long blocked claims.\<close>

definition is_stale_or_blocked :: "time \<Rightarrow> work_stealing_config \<Rightarrow> issue_claim \<Rightarrow> bool" where
  "is_stale_or_blocked now cfg c \<longleftrightarrow>
     now - cl_lastActivityAt c > minutes (staleThresholdMinutes cfg) \<or>
     cl_status c = PendingHandoff \<and>
       (case cl_blockedAt c of None \<Rightarrow> False
        | Some t \<Rightarrow> now - t > minutes (blockedThresholdMinutes cfg))"

fun stale_loop ::
    "work_stealing_config \<Rightarrow> clock \<Rightarrow> time \<Rightarrow> issue_claim list \<Rightarrow> ws_state
      \<Rightarrow> issue_claim list \<times> ws_state" where
  "stale_loop cfg clk now [] s = ([], s)"
| "stale_loop cfg clk now (c # cs) s =
     (if cl_stealInfo c \<noteq> None then stale_loop cfg clk now cs s
      else
        let (grace, s1) = isInGracePeriodWithConfig clk c cfg s;
            (rest, s2) = stale_loop cfg clk now cs s1
        in (if \<not> grace \<and> \<not> isProtectedByProgressWithConfig c cfg \<and> is_stale_or_blocked now cfg c
            then c # rest else rest, s2))"

text \<open>Grouping by claimant, and the claims given up by overloaded agents.\<close>

definition group_by_claimant :: "issue_claim list \<Rightarrow> (string, issue_claim list) jsmap" where
  "group_by_claimant cs =
     fold (\<lambda>c m. jset (ct_id (cl_claimant c)) (nullish (jget m (ct_id (cl_claimant c))) [] @ [c]) m) cs []"

fun overload_loop ::
    "work_stealing_config \<Rightarrow> issue_claim list list \<Rightarrow> issue_claim list \<Rightarrow> issue_claim list" where
  "overload_loop cfg [] stale = stale"
| "overload_loop cfg (claims # groups) stale =
     (let sorted = sort_key (\<lambda>c. nullish (cl_progress c) 0)
                     (filter (\<lambda>c. cl_stealInfo c = None \<and> cl_id c \<notin> cl_id ` set stale) claims)
      in overload_loop cfg groups
           (if int (length claims) > overloadThreshold cfg \<and> sorted \<noteq> []
            then stale @ [hd sorted] else stale))"

definition detectStaleWork ::
    "work_stealing_config \<Rightarrow> clock \<Rightarrow> ws_state \<Rightarrow> issue_claim list \<times> ws_state" where
  "detectStaleWork cfg clk s =
     (let allClaims = repo_findAll (ws_repo s);
          (now, s1) = new_date clk s;
          (stale, s2) = stale_loop cfg clk now allClaims s1
      in (overload_loop cfg (jvalues (group_by_claimant allClaims)) stale, s2))"

text \<open>\<open>uuid k\<close> is the identifier drawn for an event when \<open>k\<close> more claims are waiting.\<close>

fun mark_loop ::
    "work_stealing_config \<Rightarrow> work_stealing_config \<Rightarrow> clock \<Rightarrow> (nat \<Rightarrow> string) \<Rightarrow> time
      \<Rightarrow> issue_claim list \<Rightarrow> nat \<Rightarrow> ws_state \<Rightarrow> nat \<times> ws_state" where
  "mark_loop self cfg clk uuid now [] n s = (n, s)"
| "mark_loop self cfg clk uuid now (c # cs) n s =
     (let info = \<lparr>si_reason = determineStaleReason c cfg now, si_markedAt = now,
                  si_expiresAt = None, si_originalProgress = cl_progress c,
                  si_allowedStealerTypes = getAllowedStealerTypes (cl_claimant c) cfg\<rparr>
      in case markStealable self clk (uuid (length cs)) (cl_issueId c) info s of
           (Inl e, s') \<Rightarrow> mark_loop self cfg clk uuid now cs n s'
         | (Inr _, s') \<Rightarrow> mark_loop self cfg clk uuid now cs (n + 1) s')"

text \<open>\<open>self\<close> is the configuration of the service, \<open>cfg\<close> the argument.\<close>

definition autoMarkStealable ::
    "work_stealing_config \<Rightarrow> work_stealing_config \<Rightarrow> clock \<Rightarrow> (nat \<Rightarrow> string) \<Rightarrow> ws_state
      \<Rightarrow> nat \<times> ws_state" where
  "autoMarkStealable self cfg clk uuid s =
     (let (stale, s1) = detectStaleWork cfg clk s;
          (now, s2) = new_date clk s1
      in mark_loop self cfg clk uuid now stale 0 s2)"

section \<open>Calls\<close>

datatype ws_call =
    WMark string string stealable_info
  | WStealBegin string claimant
  | WStealEnd nat string
  | WGetStealable "agent_type option"
  | WContest string string claimant string
  | WResolve string string claimant string
  | WAutoMark work_stealing_config "nat \<Rightarrow> string"

fun ws_perform :: "work_stealing_config \<Rightarrow> clock \<Rightarrow> ws_call \<Rightarrow> ws_state \<Rightarrow> ws_state" where
  "ws_perform cfg clk (WMark u i info) s = snd (markStealable cfg clk u i info s)"
| "ws_perform cfg clk (WStealBegin i w) s =
     (case steal_begin cfg clk i w s of
        (Inl e, s1) \<Rightarrow> s1
      | (Inr c, s1) \<Rightarrow> s1\<lparr>ws_stealing := ws_stealing s1 @ [(i, cl_id c, w)]\<rparr>)"
| "ws_perform cfg clk (WStealEnd k u) s =
     (if k < length (ws_stealing s) then
        let (i, claimId, w) = ws_stealing s ! k;
            s1 = s\<lparr>ws_stealing := take k (ws_stealing s) @ drop (Suc k) (ws_stealing s)\<rparr>
        in case repo_findById (ws_repo s) claimId of None \<Rightarrow> s1 | Some c \<Rightarrow> snd (steal_end cfg clk u w c s1)
      else s)"
| "ws_perform cfg clk (WGetStealable ty) s = snd (getStealable cfg clk ty s)"
| "ws_perform cfg clk (WContest u i w reason) s = snd (contestSteal clk u i w reason s)"
| "ws_perform cfg clk (WResolve u i w reason) s = snd (resolveContest clk u i w reason s)"
| "ws_perform cfg clk (WAutoMark cfg' uuid) s = snd (autoMarkStealable cfg cfg' clk uuid s)"

section \<open>What a call does to the repository\<close>

text \<open>Reading the clock and emitting an event leave the repository alone.\<close>

lemma repo_frame [simp]:
  "ws_repo (snd (new_date clk s)) = ws_repo s"
  "ws_repo (snd (nowMs clk s)) = ws_repo s"
  "ws_repo (snd (isInGracePeriodWithConfig clk c cfg s)) = ws_repo s"
  "ws_repo (snd (determineResolver clk w ci s)) = ws_repo s"
  "ws_repo (emitEvent clk u ty c p s) = ws_repo s"
  by (auto simp: new_date_def nowMs_def isInGracePeriodWithConfig_def determineResolver_def
      emitEvent_def Let_def split: option.splits prod.splits)

lemma stealing_frame [simp]:
  "ws_stealing (snd (new_date clk s)) = ws_stealing s"
  "ws_stealing (snd (nowMs clk s)) = ws_stealing s"
  "ws_stealing (snd (isInGracePeriodWithConfig clk c cfg s)) = ws_stealing s"
  "ws_stealing (snd (determineResolver clk w ci s)) = ws_stealing s"
  "ws_stealing (emitEvent clk u ty c p s) = ws_stealing s"
  "ws_stealing (ws_update c s) = ws_stealing s"
  by (auto simp: new_date_def nowMs_def isInGracePeriodWithConfig_def determineResolver_def
      emitEvent_def ws_update_def Let_def split: option.splits prod.splits)

lemma repo_ws_update [simp]: "ws_repo (ws_update c s) = repo_save c (ws_repo s)"
  by (simp add: ws_update_def repo_update_def)

lemma stealable_filter_repo [simp]:
  "ws_repo (snd (stealable_filter cfg clk ty cs s)) = ws_repo s \<and> ws_stealing (snd (stealable_filter cfg clk ty cs s)) = ws_stealing s"
  by (induction cs arbitrary: s)
    (simp_all add: split_beta Let_def split: option.split)

lemma stale_loop_repo [simp]:
  "ws_repo (snd (stale_loop cfg clk now cs s)) = ws_repo s \<and> ws_stealing (snd (stale_loop cfg clk now cs s)) = ws_stealing s"
  by (induction cs arbitrary: s) (simp_all add: split_beta Let_def)

lemma detectStaleWork_repo [simp]:
  "ws_repo (snd (detectStaleWork cfg clk s)) = ws_repo s \<and> ws_stealing (snd (detectStaleWork cfg clk s)) = ws_stealing s"
  by (simp add: detectStaleWork_def split_beta Let_def)

lemma call_stealing [simp]:
  "ws_stealing (snd (markStealable cfg clk u i info s)) = ws_stealing s"
  "ws_stealing (snd (contestSteal clk u i w reason s)) = ws_stealing s"
  "ws_stealing (snd (resolveContest clk u i w reason s)) = ws_stealing s"
  "ws_stealing (snd (getStealable cfg clk ty s)) = ws_stealing s"
  "ws_stealing (snd (steal_begin cfg clk i w s)) = ws_stealing s"
  "ws_stealing (snd (steal_end cfg clk u w c s)) = ws_stealing s"
  by (auto simp: markStealable_def contestSteal_def resolveContest_def getStealable_def steal_begin_def steal_end_def
      split_beta Let_def split: option.split)

lemma mark_loop_stealing [simp]: "ws_stealing (snd (mark_loop self cfg clk uuid now cs n s)) = ws_stealing s"
proof (induction cs arbitrary: n s)
  case (Cons c cs)
  then show ?case
    by (auto simp: Let_def split: prod.split sum.split) (metis call_stealing(1) snd_conv)+
qed simp

lemma autoMark_stealing [simp]: "ws_stealing (snd (autoMarkStealable self cfg clk uuid s)) = ws_stealing s"
  by (simp add: autoMarkStealable_def split_beta Let_def)

text \<open>
  A change of the current claim of issue \<open>i\<close> that keeps its id, issue, status and progress;
  \<open>Q\<close> relates the claim before and after.
\<close>

definition touched ::
    "string \<Rightarrow> (issue_claim \<Rightarrow> issue_claim \<Rightarrow> bool) \<Rightarrow> repo_state \<Rightarrow> repo_state \<Rightarrow> bool" where
  "touched i Q r r' \<longleftrightarrow>
     (\<exists>c d. repo_findByIssueId r i None = Some c \<and> r' = repo_save d r \<and> Q c d \<and>
        cl_id d = cl_id c \<and> cl_issueId d = cl_issueId c \<and> cl_repository d = cl_repository c \<and>
        cl_progress d = cl_progress c \<and> cl_status d = cl_status c)"

lemma touchedI:
  "repo_findByIssueId r i None = Some c \<Longrightarrow> Q c d \<Longrightarrow> cl_id d = cl_id c \<Longrightarrow> cl_issueId d = cl_issueId c \<Longrightarrow>
     cl_repository d = cl_repository c \<Longrightarrow> cl_progress d = cl_progress c \<Longrightarrow> cl_status d = cl_status c \<Longrightarrow>
     touched i Q r (repo_save d r)"
  unfolding touched_def by blast

lemma touched_effect:
  assumes "plain_wf r" and "touched i Q r r'"
  obtains c d where "repo_findByIssueId r i None = Some c" "Q c d" "cl_id d = cl_id c"
    "cl_status d = cl_status c" "cl_progress d = cl_progress c" "plain_wf r'"
    "repo_findByIssueId r' i None = Some d"
    "\<And>j. j \<noteq> i \<Longrightarrow> repo_findByIssueId r' j None = repo_findByIssueId r j None"
    "repo_findById r' = (repo_findById r)(cl_id c \<mapsto> d)"
proof -
  from assms(2) obtain c d where c: "repo_findByIssueId r i None = Some c" and r': "r' = repo_save d r"
    and d: "Q c d" "cl_id d = cl_id c" "cl_issueId d = cl_issueId c" "cl_repository d = cl_repository c"
      "cl_progress d = cl_progress c" "cl_status d = cl_status c"
    unfolding touched_def by blast
  note f = find_sound_plain [OF assms(1) c]
  have st: "storable (repo_findById r) d"
    using in_memory.storable_found [OF assms(1)] f d by blast
  have full: "ensureFullClaim d = d"
    using in_memory.look_id [OF assms(1)] f d(5) by (intro ensureFull_id) metis
  have "plain_wf r'" and "repo_findByIssueId r' i None = Some d"
    and "\<And>j. j \<noteq> i \<Longrightarrow> repo_findByIssueId r' j None = repo_findByIssueId r j None"
    and "repo_findById r' = (repo_findById r)(cl_id c \<mapsto> d)"
    using in_memory.rwf_save [OF assms(1) st] in_memory.find_saved [OF assms(1) st]
      in_memory.find_other [OF assms(1) st] in_memory.look_save [OF assms(1) st] f d full r'
    by (auto simp: in_memory_repo_def)
  with that c d show ?thesis by blast
qed

lemma touched_mono: "touched i Q r r' \<Longrightarrow> (\<And>c d. Q c d \<Longrightarrow> Q' c d) \<Longrightarrow> touched i Q' r r'"
  unfolding touched_def by blast

text \<open>Marking: an unmarked claim without enough progress gets its mark, nothing else changes.\<close>

definition marks :: "work_stealing_config \<Rightarrow> issue_claim \<Rightarrow> issue_claim \<Rightarrow> bool" where
  "marks cfg c d \<longleftrightarrow> cl_stealInfo c = None \<and> \<not> isProtectedByProgressWithConfig c cfg \<and>
     (\<exists>info now. d = c\<lparr>cl_stealInfo := Some info, cl_stealableAt := Some now\<rparr>)"

lemma marksI:
  "cl_stealInfo c = None \<Longrightarrow> \<not> isProtectedByProgressWithConfig c cfg \<Longrightarrow>
     marks cfg c (c\<lparr>cl_stealInfo := Some info, cl_stealableAt := Some now\<rparr>)"
  unfolding marks_def by blast

lemma markStealable_touched:
  "ws_repo (snd (markStealable cfg clk u i info s)) = ws_repo s \<or>
   touched i (marks cfg) (ws_repo s) (ws_repo (snd (markStealable cfg clk u i info s)))"
proof (cases "repo_findByIssueId (ws_repo s) i None")
  case (Some c)
  then show ?thesis
    by (auto simp: markStealable_def split_beta Let_def intro!: touchedI marksI)
qed (simp add: markStealable_def)

definition stolen :: "claimant \<Rightarrow> issue_claim \<Rightarrow> issue_claim \<Rightarrow> bool" where
  "stolen w c d \<longleftrightarrow> cl_stealInfo d = None \<and> contest_open d \<and> cl_claimant d = w"

lemma steal_begin_repo [simp]: "ws_repo (snd (steal_begin cfg clk i w s)) = ws_repo s"
  by (auto simp: steal_begin_def split_beta Let_def split: option.split)

lemma steal_begin_ok:
  assumes "fst (steal_begin cfg clk i w s) = Inr c"
  shows "repo_findByIssueId (ws_repo s) i None = Some c \<and> cl_stealInfo c \<noteq> None \<and> \<not> contest_open c"
  using assms by (auto simp: steal_begin_def split_beta Let_def split: option.splits if_splits)

lemma steal_end_touched:
  assumes "repo_findByIssueId (ws_repo s) i None = Some c"
  shows "touched i (stolen w) (ws_repo s) (ws_repo (snd (steal_end cfg clk u w c s)))"
  using assms by (auto simp: steal_end_def split_beta Let_def stolen_def contest_open_def intro!: touchedI)

definition contests :: "issue_claim \<Rightarrow> issue_claim \<Rightarrow> bool" where
  "contests c d \<longleftrightarrow> contest_open c \<and> contest_open d \<and> cl_claimant d = cl_claimant c \<and>
     cl_stealInfo d = cl_stealInfo c"

lemma contestSteal_touched:
  "ws_repo (snd (contestSteal clk u i w reason s)) = ws_repo s \<or>
   touched i contests (ws_repo s) (ws_repo (snd (contestSteal clk u i w reason s)))"
proof (cases "repo_findByIssueId (ws_repo s) i None")
  case (Some c)
  then show ?thesis
    by (cases "cl_contestInfo c")
      (auto simp: contestSteal_def split_beta Let_def contests_def contest_open_def intro!: touchedI)
qed (simp add: contestSteal_def)

definition resolves :: "claimant \<Rightarrow> issue_claim \<Rightarrow> issue_claim \<Rightarrow> bool" where
  "resolves w c d \<longleftrightarrow> contest_open c \<and> \<not> contest_open d \<and> cl_stealInfo d = cl_stealInfo c \<and>
     (\<exists>ci res. cl_contestInfo c = Some ci \<and>
        cl_contestInfo d = Some (ci\<lparr>ci_resolution := Some res\<rparr>) \<and> cr_winner res = w \<and>
        cl_claimant d = (if ct_id w = ct_id (ci_contestedBy ci) then w else cl_claimant c))"

lemma resolvesI:
  "cl_contestInfo c = Some ci \<Longrightarrow> ci_resolution ci = None \<Longrightarrow> cl_stealInfo d = cl_stealInfo c \<Longrightarrow>
     cl_contestInfo d = Some (ci\<lparr>ci_resolution := Some res\<rparr>) \<Longrightarrow> cr_winner res = w \<Longrightarrow>
     cl_claimant d = (if ct_id w = ct_id (ci_contestedBy ci) then w else cl_claimant c) \<Longrightarrow> resolves w c d"
  by (auto simp: resolves_def contest_open_def)

lemma resolveContest_touched:
  "isl (fst (resolveContest clk u i w reason s)) \<and>
     ws_repo (snd (resolveContest clk u i w reason s)) = ws_repo s \<or>
   touched i (resolves w) (ws_repo s) (ws_repo (snd (resolveContest clk u i w reason s)))"
proof (cases "repo_findByIssueId (ws_repo s) i None")
  case (Some c)
  then show ?thesis
    by (cases "cl_contestInfo c")
      (auto simp: resolveContest_def split_beta Let_def intro!: touchedI resolvesI)
qed (simp add: resolveContest_def)


section \<open>Invariants of the service\<close>

lemma mark_loop_preserves:
  assumes "\<And>s u i info. P (ws_repo s) \<Longrightarrow> P (ws_repo (snd (markStealable self clk u i info s)))"
  shows "P (ws_repo s) \<Longrightarrow> P (ws_repo (snd (mark_loop self cfg clk uuid now cs n s)))"
proof (induction cs arbitrary: n s)
  case (Cons c cs)
  let ?info = "\<lparr>si_reason = determineStaleReason c cfg now, si_markedAt = now, si_expiresAt = None,
    si_originalProgress = cl_progress c, si_allowedStealerTypes = getAllowedStealerTypes (cl_claimant c) cfg\<rparr>"
  obtain r s' where m: "markStealable self clk (uuid (length cs)) (cl_issueId c) ?info s = (r, s')"
    by (cases "markStealable self clk (uuid (length cs)) (cl_issueId c) ?info s")
  have "P (ws_repo s')"
    using assms [OF Cons.prems, of "uuid (length cs)" "cl_issueId c" ?info] by (simp add: m)
  with Cons.IH show ?case by (cases r) (simp_all add: m Let_def)
qed simp

lemma autoMark_preserves:
  assumes "\<And>s u i info. P (ws_repo s) \<Longrightarrow> P (ws_repo (snd (markStealable self clk u i info s)))"
    and "P (ws_repo s)"
  shows "P (ws_repo (snd (autoMarkStealable self cfg clk uuid s)))"
  unfolding autoMarkStealable_def split_beta Let_def
  by (rule mark_loop_preserves [of P, OF assms(1)]) (simp_all add: assms(2))

text \<open>
  What no call does: claims do not appear or disappear, keep their status and progress, and a
  claim with enough progress is not marked.
\<close>

definition claim_tame :: "work_stealing_config \<Rightarrow> issue_claim \<Rightarrow> issue_claim \<Rightarrow> bool" where
  "claim_tame cfg c d \<longleftrightarrow> cl_status d = cl_status c \<and> cl_progress d = cl_progress c \<and>
     (isProtectedByProgressWithConfig c cfg \<longrightarrow> cl_stealInfo c = None \<longrightarrow> cl_stealInfo d = None)"

definition tame :: "work_stealing_config \<Rightarrow> repo_state \<Rightarrow> repo_state \<Rightarrow> bool" where
  "tame cfg r r' \<longleftrightarrow> plain_wf r' \<and>
     (\<forall>k. rel_option (claim_tame cfg) (repo_findById r k) (repo_findById r' k))"

lemma claim_tame_refl: "claim_tame cfg c c"
  by (simp add: claim_tame_def)

lemma claim_tame_trans: "claim_tame cfg b c \<Longrightarrow> claim_tame cfg c d \<Longrightarrow> claim_tame cfg b d"
  by (auto simp: claim_tame_def isProtectedByProgressWithConfig_def progress_ge_def)

lemma tame_refl: "plain_wf r \<Longrightarrow> tame cfg r r"
  by (simp add: tame_def option.rel_refl claim_tame_refl)

lemma tame_trans:
  assumes "tame cfg q r" and "tame cfg r t"
  shows "tame cfg q t"
  unfolding tame_def
proof (intro conjI allI)
  show "plain_wf t" using assms(2) by (simp add: tame_def)
  fix k
  have "rel_option (claim_tame cfg OO claim_tame cfg) (repo_findById q k) (repo_findById t k)"
    using assms unfolding tame_def option.rel_compp by blast
  then show "rel_option (claim_tame cfg) (repo_findById q k) (repo_findById t k)"
    by (rule option.rel_mono_strong) (auto intro: claim_tame_trans)
qed

lemma tame_touched:
  assumes "plain_wf r" and "touched i Q r r'" and "\<And>c d. Q c d \<Longrightarrow> isProtectedByProgressWithConfig c cfg \<Longrightarrow>
    cl_stealInfo c = None \<Longrightarrow> cl_stealInfo d = None"
  shows "tame cfg r r'"
proof -
  from touched_effect [OF assms(1,2)] obtain c d where *: "repo_findByIssueId r i None = Some c" "Q c d"
    "cl_status d = cl_status c" "cl_progress d = cl_progress c" "plain_wf r'"
    "repo_findById r' = (repo_findById r)(cl_id c \<mapsto> d)" by metis
  have "repo_findById r (cl_id c) = Some c" using find_sound_plain [OF assms(1) *(1)] by simp
  moreover have "claim_tame cfg c d" using * assms(3) by (simp add: claim_tame_def)
  ultimately show ?thesis
    using * by (auto simp: tame_def option.rel_refl claim_tame_refl)
qed

lemma markStealable_tame:
  "plain_wf (ws_repo s) \<Longrightarrow> tame cfg (ws_repo s) (ws_repo (snd (markStealable cfg clk u i info s)))"
  using markStealable_touched [of cfg clk u i info s] tame_refl tame_touched
  by (metis marks_def)

text \<open>The claim a waiting steal holds is the current claim of its issue.\<close>

definition known :: "repo_state \<Rightarrow> string \<times> string \<times> claimant \<Rightarrow> bool" where
  "known r e \<longleftrightarrow> (\<exists>c. repo_findByIssueId r (fst e) None = Some c \<and> cl_id c = fst (snd e))"

definition kept :: "(string \<times> string \<times> claimant) list \<Rightarrow> repo_state \<Rightarrow> bool" where
  "kept es r \<longleftrightarrow> plain_wf r \<and> (\<forall>e \<in> set es. known r e)"

definition ws_wf :: "ws_state \<Rightarrow> bool" where
  "ws_wf s \<longleftrightarrow> kept (ws_stealing s) (ws_repo s)"

lemma kept_touched:
  assumes "kept es r" "touched i Q r r'"
  shows "kept es r'"
proof -
  have "plain_wf r"
    using assms(1) by (simp add: kept_def)
  from touched_effect [OF this assms(2)] obtain c d where *: "repo_findByIssueId r i None = Some c" "cl_id d = cl_id c"
    "plain_wf r'" "repo_findByIssueId r' i None = Some d"
    "\<And>j. j \<noteq> i \<Longrightarrow> repo_findByIssueId r' j None = repo_findByIssueId r j None" by metis
  have "known r e \<Longrightarrow> known r' e" for e
    using * by (cases "fst e = i") (auto simp: known_def)
  then show ?thesis
    using assms(1) *(3) by (auto simp: kept_def)
qed

lemma kept_mark: "kept es (ws_repo s) \<Longrightarrow> kept es (ws_repo (snd (markStealable cfg clk u i info s)))"
  using markStealable_touched [of cfg clk u i info s] by (auto intro: kept_touched)

lemma kept_less: "kept es r \<Longrightarrow> set es' \<subseteq> set es \<Longrightarrow> kept es' r"
  by (auto simp: kept_def)

lemma drop_one: "k < length es \<Longrightarrow> set (take k es @ drop (Suc k) es) \<subseteq> set es"
  by (auto dest: in_set_takeD in_set_dropD)

text \<open>The end of a waiting steal.\<close>

lemma steal_end_step:
  assumes "ws_wf s" "k < length (ws_stealing s)" "ws_stealing s ! k = (i, claimId, w)"
  shows "touched i (stolen w) (ws_repo s) (ws_repo (ws_perform cfg clk (WStealEnd k u) s)) \<and>
    ws_stealing (ws_perform cfg clk (WStealEnd k u) s) = take k (ws_stealing s) @ drop (Suc k) (ws_stealing s)"
proof -
  have "known (ws_repo s) (i, claimId, w)" and wf: "plain_wf (ws_repo s)"
    using assms by (auto simp: ws_wf_def kept_def dest: nth_mem)
  then obtain c where c: "repo_findByIssueId (ws_repo s) i None = Some c" "cl_id c = claimId"
    by (auto simp: known_def)
  have "repo_findById (ws_repo s) claimId = Some c"
    using find_sound_plain [OF wf c(1)] c(2) by simp
  then show ?thesis
    using assms(2,3) c(1) steal_end_touched [of "s\<lparr>ws_stealing := es\<rparr>" i c w cfg clk u for es] by (simp add: Let_def)
qed

lemma steal_begin_step:
  "ws_repo (ws_perform cfg clk (WStealBegin i w) s) = ws_repo s"
  "ws_wf s \<Longrightarrow> ws_wf (ws_perform cfg clk (WStealBegin i w) s)"
proof -
  obtain r s1 where b: "steal_begin cfg clk i w s = (r, s1)"
    by fastforce
  have s1: "ws_repo s1 = ws_repo s" "ws_stealing s1 = ws_stealing s"
    using steal_begin_repo [of cfg clk i w s] call_stealing(5) [of cfg clk i w s] b by simp_all
  show "ws_repo (ws_perform cfg clk (WStealBegin i w) s) = ws_repo s"
    using b s1 by (simp split: sum.split)
  show "ws_wf (ws_perform cfg clk (WStealBegin i w) s)" if "ws_wf s"
    using that b s1 steal_begin_ok [of cfg clk i w s] by (auto simp: ws_wf_def kept_def known_def split: sum.split)
qed

lemma ws_perform_wf:
  assumes "ws_wf s"
  shows "ws_wf (ws_perform cfg clk call s)"
proof (cases call)
  case (WStealBegin i w)
  then show ?thesis
    using steal_begin_step(2) [OF assms] by simp
next
  case (WStealEnd k u)
  show ?thesis
  proof (cases "k < length (ws_stealing s)")
    case True
    obtain i claimId w where e: "ws_stealing s ! k = (i, claimId, w)"
      by (cases "ws_stealing s ! k")
    from steal_end_step [OF assms True e, of cfg clk u] assms show ?thesis
      unfolding WStealEnd ws_wf_def by (metis drop_one [OF True] kept_less kept_touched)
  qed (use WStealEnd assms in simp)
next
  case (WAutoMark cfg' uuid)
  then show ?thesis
    using autoMark_preserves [of "kept (ws_stealing s)", OF kept_mark] assms by (simp add: ws_wf_def)
next
  case (WContest u i w reason)
  then show ?thesis
    using contestSteal_touched [of clk u i w reason s] assms by (auto simp: ws_wf_def intro: kept_touched)
next
  case (WResolve u i w reason)
  then show ?thesis
    using resolveContest_touched [of clk u i w reason s] assms by (auto simp: ws_wf_def intro: kept_touched)
qed (use assms in \<open>simp_all add: ws_wf_def kept_mark getStealable_def\<close>)

lemma ws_perform_tame:
  assumes "ws_wf s"
  shows "tame cfg (ws_repo s) (ws_repo (ws_perform cfg clk call s))"
proof -
  have wf: "plain_wf (ws_repo s)"
    using assms by (simp add: ws_wf_def kept_def)
  show ?thesis
  proof (cases call)
    case (WMark u i info)
    then show ?thesis using markStealable_tame [OF wf] by simp
  next
    case (WStealBegin i w)
    then show ?thesis using steal_begin_step(1) tame_refl [OF wf] by metis
  next
    case (WStealEnd k u)
    show ?thesis
    proof (cases "k < length (ws_stealing s)")
      case True
      obtain i claimId w where "ws_stealing s ! k = (i, claimId, w)"
        by (cases "ws_stealing s ! k")
      from steal_end_step [OF assms True this] show ?thesis
        unfolding WStealEnd using tame_touched [OF wf] by (metis stolen_def)
    qed (use WStealEnd tame_refl [OF wf] in simp)
  next
    case (WContest u i w reason)
    then show ?thesis
      using contestSteal_touched [of clk u i w reason s] tame_refl [OF wf] tame_touched [OF wf]
      by (metis contests_def ws_perform.simps(5))
  next
    case (WResolve u i w reason)
    then show ?thesis
      using resolveContest_touched [of clk u i w reason s] tame_refl [OF wf] tame_touched [OF wf]
      by (metis resolves_def ws_perform.simps(6))
  next
    case (WAutoMark cfg' uuid)
    have "tame cfg (ws_repo s) (ws_repo (snd (autoMarkStealable cfg cfg' clk uuid s)))"
    proof (rule autoMark_preserves [of "tame cfg (ws_repo s)"])
      fix t :: ws_state and u i info assume "tame cfg (ws_repo s) (ws_repo t)"
      moreover from this have "plain_wf (ws_repo t)" by (simp add: tame_def)
      ultimately show "tame cfg (ws_repo s) (ws_repo (snd (markStealable cfg clk u i info t)))"
        using markStealable_tame tame_trans by blast
    qed (rule tame_refl [OF wf])
    then show ?thesis by (simp add: WAutoMark)
  qed (simp add: getStealable_def tame_refl [OF wf])
qed

interpretation ws_frame:
  invariant_system "ws_perform cfg clk" "\<lambda>s. ws_wf s \<and> tame cfg r (ws_repo s)" for cfg clk r
  by unfold_locales (meson tame_trans ws_perform_tame ws_perform_wf)

interpretation ws_steals: invariant_system "ws_perform cfg clk" ws_wf for cfg clk
  by unfold_locales (rule ws_perform_wf)

text \<open>An open contest over the claim of issue \<open>i\<close>, held by \<open>w\<close>.\<close>

definition locked :: "string \<Rightarrow> claimant \<Rightarrow> repo_state \<Rightarrow> bool" where
  "locked i w r \<longleftrightarrow> plain_wf r \<and>
     (\<exists>c. repo_findByIssueId r i None = Some c \<and> contest_open c \<and> cl_claimant c = w)"

fun resolves_issue :: "string \<Rightarrow> ws_call \<Rightarrow> bool" where
  "resolves_issue i (WResolve u j w reason) \<longleftrightarrow> j = i"
| "resolves_issue i call \<longleftrightarrow> False"

lemma locked_touched:
  assumes "locked i w r" and "touched j Q r r'"
    and "\<And>c d. j = i \<Longrightarrow> Q c d \<Longrightarrow> contest_open c \<Longrightarrow> contest_open d \<and> cl_claimant d = cl_claimant c"
  shows "locked i w r'"
proof -
  have wf: "plain_wf r" using assms(1) by (simp add: locked_def)
  from touched_effect [OF wf assms(2)] obtain c d where *: "repo_findByIssueId r j None = Some c" "Q c d"
    "plain_wf r'" "repo_findByIssueId r' j None = Some d"
    "\<And>k. k \<noteq> j \<Longrightarrow> repo_findByIssueId r' k None = repo_findByIssueId r k None" by metis
  show ?thesis
  proof (cases "j = i")
    case True
    with assms * show ?thesis by (auto simp: locked_def)
  next
    case False
    with assms(1) *(3,5) show ?thesis by (simp add: locked_def)
  qed
qed

lemma contest_open_marks: "marks cfg c d \<Longrightarrow> contest_open d = contest_open c \<and> cl_claimant d = cl_claimant c"
  by (auto simp: marks_def contest_open_def)

lemma markStealable_locked:
  "locked i w (ws_repo s) \<Longrightarrow> locked i w (ws_repo (snd (markStealable cfg clk u j info s)))"
  using markStealable_touched [of cfg clk u j info s] locked_touched contest_open_marks by metis

text \<open>In an open contest no steal of the issue begins, so none waits if none did.\<close>

definition lock_inv :: "string \<Rightarrow> claimant \<Rightarrow> ws_state \<Rightarrow> bool" where
  "lock_inv i w s \<longleftrightarrow> locked i w (ws_repo s) \<and> ws_wf s \<and> i \<notin> fst ` set (ws_stealing s)"

lemma steal_begin_locked:
  "locked i w (ws_repo s) \<Longrightarrow> fst (steal_begin cfg clk i w' s) \<in> {Inl NOT_STEALABLE, Inl CONTEST_PENDING}"
  by (auto simp: locked_def steal_begin_def split: option.splits)

lemma steal_locked:
  "locked i w (ws_repo s) \<Longrightarrow> fst (steal cfg clk u i w' s) \<in> {Inl NOT_STEALABLE, Inl CONTEST_PENDING}"
  using steal_begin_locked [of i w s cfg clk w'] by (auto simp: steal_def split: prod.split sum.split)

lemma steal_end_lock:
  assumes "ws_wf s" "k < length (ws_stealing s)" "ws_stealing s ! k = (i, claimId, w)"
    "i \<notin> fst ` set (take k (ws_stealing s) @ drop (Suc k) (ws_stealing s))"
  shows "lock_inv i w (ws_perform cfg clk (WStealEnd k u) s)"
proof -
  note e = steal_end_step [OF assms(1-3), of cfg clk u]
  have "plain_wf (ws_repo s)"
    using assms(1) by (simp add: ws_wf_def kept_def)
  from touched_effect [OF this conjunct1 [OF e]] have "locked i w (ws_repo (ws_perform cfg clk (WStealEnd k u) s))"
    unfolding locked_def stolen_def by metis
  then show ?thesis
    unfolding lock_inv_def using ws_perform_wf [OF assms(1)] e assms(4) by (simp del: ws_perform.simps)
qed

lemma ws_perform_locked:
  assumes "\<not> resolves_issue i call" and "lock_inv i w s"
  shows "locked i w (ws_repo (ws_perform cfg clk call s)) \<and> i \<notin> fst ` set (ws_stealing (ws_perform cfg clk call s))"
proof -
  have l: "locked i w (ws_repo s)" and wf: "ws_wf s" and free: "i \<notin> fst ` set (ws_stealing s)"
    using assms(2) by (simp_all add: lock_inv_def)
  show ?thesis
  proof (cases call)
    case (WMark u j info)
    then show ?thesis using markStealable_locked [OF l] free by simp
  next
    case (WStealBegin j w')
    obtain r s1 where b: "steal_begin cfg clk j w' s = (r, s1)"
      by fastforce
    have "ws_stealing s1 = ws_stealing s" "ws_repo s1 = ws_repo s"
      using steal_begin_repo [of cfg clk j w' s] call_stealing(5) [of cfg clk j w' s] b by simp_all
    moreover have "j \<noteq> i" if "r = Inr c" for c
      using steal_begin_locked [OF l, of cfg clk w'] b that by auto
    ultimately show ?thesis
      using l free WStealBegin b by (auto split: sum.split)
  next
    case (WStealEnd k u)
    show ?thesis
    proof (cases "k < length (ws_stealing s)")
      case True
      obtain j claimId w' where e: "ws_stealing s ! k = (j, claimId, w')"
        by (cases "ws_stealing s ! k")
      have "j \<noteq> i"
        using free nth_mem [OF True] e by force
      then have "locked i w (ws_repo (ws_perform cfg clk (WStealEnd k u) s))"
        using locked_touched [OF l conjunct1 [OF steal_end_step [OF wf True e]]] by blast
      moreover have "i \<notin> fst ` set (take k (ws_stealing s) @ drop (Suc k) (ws_stealing s))"
        using free drop_one [OF True] by blast
      ultimately show ?thesis
        using steal_end_step [OF wf True e, of cfg clk u] unfolding WStealEnd by (simp del: ws_perform.simps)
    qed (use WStealEnd l free in simp)
  next
    case (WContest u j w' reason)
    then show ?thesis
      using contestSteal_touched [of clk u j w' reason s] locked_touched [OF l] l free
      by (metis call_stealing(2) contests_def ws_perform.simps(5))
  next
    case (WResolve u j w' reason)
    then show ?thesis
      using resolveContest_touched [of clk u j w' reason s] locked_touched [OF l] l assms(1) free
      by (metis call_stealing(3) resolves_issue.simps(1) ws_perform.simps(6))
  next
    case (WAutoMark cfg' uuid)
    then show ?thesis
      using autoMark_preserves [of "locked i w", OF markStealable_locked l] free by simp
  qed (simp add: getStealable_def l free)
qed

interpretation ws_lock:
  guarded_system "\<lambda>call _. \<not> resolves_issue i call" "ws_perform cfg clk" "lock_inv i w"
  for i cfg clk w
  by unfold_locales (metis lock_inv_def ws_perform_locked ws_perform_wf)

lemma run_ok_list_all: "list_all P acts \<Longrightarrow> run_ok (\<lambda>a _. P a) step acts s"
  by (induction acts arbitrary: s) auto


section \<open>The history of the bus\<close>

lemma addToHistory_other [simp]:
  "wb_maxHistorySize (addToHistory e b) = wb_maxHistorySize b"
  "wb_maxHistorySize (ws_emit e b) = wb_maxHistorySize b"
  "wb_history (ws_emit e b) = wb_history (addToHistory e b)"
  by (simp_all add: addToHistory_def ws_emit_def Let_def)

definition bus_inv :: "nat \<Rightarrow> ws_bus \<Rightarrow> bool" where
  "bus_inv m b \<longleftrightarrow> wb_maxHistorySize b = m \<and> length (wb_history b) \<le> m"

interpretation bus_system: guarded_system "\<lambda>_ _. 2 \<le> m" ws_emit "bus_inv m" for m
proof unfold_locales
  fix e b assume "2 \<le> m" and "bus_inv m b"
  moreover from this have "0 < m div 2" by simp
  ultimately show "bus_inv m (ws_emit e b)"
    by (auto simp: bus_inv_def addToHistory_def Let_def length_slice_last)
qed

lemma slice_last_suffix: "\<exists>us. xs = us @ slice_last n xs"
  by (metis append_Nil append_take_drop_id slice_last_def)

lemma emit_suffix:
  "\<exists>us. wb_history b @ es = us @ wb_history (run ws_emit es b)"
proof (induction es arbitrary: b)
  case (Cons e es)
  obtain us where "wb_history b @ [e] = us @ wb_history (addToHistory e b)"
    using slice_last_suffix [of "wb_history b @ [e]" "wb_maxHistorySize b div 2"]
    by (cases "length (wb_history b @ [e]) > wb_maxHistorySize b") (force simp: addToHistory_def Let_def)+
  moreover obtain vs where "wb_history (ws_emit e b) @ es = vs @ wb_history (run ws_emit es (ws_emit e b))"
    using Cons.IH by blast
  ultimately have "wb_history b @ e # es = (us @ vs) @ wb_history (run ws_emit (e # es) b)"
    by (metis addToHistory_other(3) append.assoc append_Cons append_Nil run_Cons)
  then show ?case by blast
qed simp

lemma emit_all_small:
  "wb_maxHistorySize b \<le> 1 \<Longrightarrow> wb_history (run ws_emit es b) = wb_history b @ es"
proof (induction es arbitrary: b)
  case (Cons e es)
  then have "wb_maxHistorySize b div 2 = 0" by simp
  with Cons show ?case by (simp add: addToHistory_def slice_last_def Let_def)
qed simp

section \<open>Detecting stale work\<close>

lemma stale_loop_set:
  "set (fst (stale_loop cfg clk now cs s)) \<subseteq>
     {c \<in> set cs. cl_stealInfo c = None \<and> \<not> isProtectedByProgressWithConfig c cfg \<and>
        is_stale_or_blocked now cfg c}"
proof (induction cs arbitrary: s)
  case (Cons c cs)
  show ?case
    using Cons.IH [of s] Cons.IH [of "snd (isInGracePeriodWithConfig clk c cfg s)"]
    by (auto simp: split_beta Let_def)
qed simp

lemma stale_loop_distinct:
  "distinct (map cl_id cs) \<Longrightarrow> distinct (map cl_id (fst (stale_loop cfg clk now cs s)))"
proof (induction cs arbitrary: s)
  case (Cons c cs)
  moreover have "cl_id c \<notin> cl_id ` set (fst (stale_loop cfg clk now cs t))" for t
    using stale_loop_set [of cfg clk now cs t] Cons.prems by auto
  ultimately show ?case by (simp add: split_beta Let_def)
qed simp

lemma group_get:
  "nullish (jget (fold (\<lambda>c m. jset (f c) (nullish (jget m (f c)) [] @ [c]) m) cs m) a) [] =
     nullish (jget m a) [] @ filter (\<lambda>c. f c = a) cs"
  by (induction cs arbitrary: m) auto

lemma group_wf:
  "jwf m \<Longrightarrow> jwf (fold (\<lambda>c m. jset (f c) (nullish (jget m (f c)) [] @ [c]) m) cs m)"
  by (induction cs arbitrary: m) auto

lemma group_values:
  assumes "g \<in> set (jvalues (group_by_claimant cs))"
  shows "\<exists>a. g = filter (\<lambda>c. ct_id (cl_claimant c) = a) cs"
proof -
  have "jwf (group_by_claimant cs)" unfolding group_by_claimant_def by (rule group_wf) simp
  with assms obtain a where "jget (group_by_claimant cs) a = Some g" by (auto simp: jvalues_jget)
  moreover have "nullish (jget (group_by_claimant cs) a) [] = filter (\<lambda>c. ct_id (cl_claimant c) = a) cs"
    unfolding group_by_claimant_def using group_get [of "\<lambda>c. ct_id (cl_claimant c)" cs "[]" a] by simp
  ultimately show ?thesis by auto
qed

lemma overload_loop_inv:
  assumes "\<And>g c. g \<in> set groups \<Longrightarrow> int (length g) > overloadThreshold cfg \<Longrightarrow> c \<in> set g \<Longrightarrow>
      cl_stealInfo c = None \<Longrightarrow> P c"
  shows "\<forall>c \<in> set stale. P c \<Longrightarrow> distinct (map cl_id stale) \<Longrightarrow>
    (\<forall>c \<in> set (overload_loop cfg groups stale). P c) \<and> distinct (map cl_id (overload_loop cfg groups stale))"
  using assms
proof (induction groups arbitrary: stale)
  case (Cons g groups)
  let ?sorted = "sort_key (\<lambda>c. nullish (cl_progress c) 0)
    (filter (\<lambda>c. cl_stealInfo c = None \<and> cl_id c \<notin> cl_id ` set stale) g)"
  show ?case
  proof (cases "int (length g) > overloadThreshold cfg \<and> ?sorted \<noteq> []")
    case True
    then have "hd ?sorted \<in> set ?sorted" by (intro hd_in_set) (rule conjunct2)
    then have h: "hd ?sorted \<in> set g" "cl_stealInfo (hd ?sorted) = None" "cl_id (hd ?sorted) \<notin> cl_id ` set stale"
      unfolding set_sort set_filter by simp_all
    have len: "int (length g) > overloadThreshold cfg" using True by simp
    have eq: "overload_loop cfg (g # groups) stale = overload_loop cfg groups (stale @ [hd ?sorted])"
      using True by (simp add: Let_def)
    define x where "x = hd ?sorted"
    have "P x" using Cons.prems(3) [OF _ len h(1,2)] by (simp add: x_def)
    moreover have "cl_id x \<notin> cl_id ` set stale" using h(3) by (simp add: x_def)
    ultimately show ?thesis unfolding eq x_def [symmetric]
      by (intro Cons.IH) (use Cons.prems(1,2) in simp_all, metis Cons.prems(3) list.set_intros(2))
  next
    case False
    have eq: "overload_loop cfg (g # groups) stale = overload_loop cfg groups stale"
      by (simp only: overload_loop.simps Let_def if_not_P [OF False])
    show ?thesis unfolding eq by (rule Cons.IH) (use Cons.prems in auto)
  qed
qed simp


section \<open>Properties\<close>

text \<open>A repository with one marked claim, held by ann; bob may take it over.\<close>

definition ws_agent :: "string \<Rightarrow> claimant" where
  "ws_agent n = \<lparr>ct_id = n, ct_type = Agent, ct_name = n, ct_capabilities = None,
     ct_specializations = None, ct_currentWorkload = None, ct_maxConcurrentClaims = None,
     ct_agentType = None\<rparr>"

definition ws_claim :: issue_claim where
  "ws_claim = \<lparr>cl_id = ''claim-1'', cl_issueId = ''i1'', cl_claimant = ws_agent ''ann'',
     cl_status = Active, cl_claimedAt = 0, cl_lastActivityAt = 0, cl_notes = None,
     cl_handoffChain = None, cl_reviewers = None, cl_repository = None, cl_progress = Some 10,
     cl_blockedReason = None, cl_blockedAt = None, cl_stealableAt = None, cl_stealInfo = None,
     cl_contestInfo = None\<rparr>"

definition ws_start :: ws_state where
  "ws_start = \<lparr>ws_repo = repo_save ws_claim createClaimRepository, ws_bus = new_ws_bus None,
     ws_hlc = None, ws_reads = 0, ws_stealing = []\<rparr>"

definition ws_info :: stealable_info where
  "ws_info = \<lparr>si_reason = Stale, si_markedAt = 0, si_expiresAt = None, si_originalProgress = None,
     si_allowedStealerTypes = None\<rparr>"

definition ws_marked :: ws_state where
  "ws_marked = snd (markStealable DEFAULT_WORK_STEALING_CONFIG (\<lambda>k. 9000000) ''1'' ''i1'' ws_info ws_start)"

lemma ws_start_wf: "plain_wf (ws_repo ws_start)"
  by (simp add: ws_start_def)
    (rule plain_wf_save [OF plain_wf_new], simp add: storable_def ws_claim_def repo_findById_def createClaimRepository_def)

lemma ws_marked_wf: "plain_wf (ws_repo ws_marked)"
  unfolding ws_marked_def using markStealable_tame [OF ws_start_wf] unfolding tame_def by blast

text \<open>
  Theft follows the rules: a steal that succeeds was of a claim that was marked, without an
  open contest, past its grace period and below the protected progress, by an agent of a
  compatible type below the overload limit; afterwards the same claim belongs to the stealer, is
  no longer marked, keeps its status, has an open contest, and no other issue is affected.
\<close>

theorem steal_follows_rules:
  assumes "plain_wf (ws_repo s)" and "steal cfg clk u i w s = (Inr r, s')"
  shows "\<exists>c si. repo_findByIssueId (ws_repo s) i None = Some c \<and> cl_stealInfo c = Some si \<and>
    \<not> contest_open c \<and> fst (nowMs clk s) - cl_claimedAt c \<ge> minutes (gracePeriodMinutes cfg) \<and>
    \<not> isProtectedByProgressWithConfig c cfg \<and>
    canStealCrossType cfg (getAgentType w) (getAgentType (cl_claimant c)) si \<and>
    int (repo_countByAgentId (ws_repo s) (ct_id w)) < overloadThreshold cfg \<and>
    repo_findByIssueId (ws_repo s') i None = Some (ss_claim r) \<and> cl_id (ss_claim r) = cl_id c \<and>
    cl_claimant (ss_claim r) = w \<and> cl_stealInfo (ss_claim r) = None \<and> contest_open (ss_claim r) \<and>
    cl_status (ss_claim r) = cl_status c \<and> ss_previousClaimant r = cl_claimant c \<and>
    (\<forall>j. j \<noteq> i \<longrightarrow> repo_findByIssueId (ws_repo s') j None = repo_findByIssueId (ws_repo s) j None)"
proof -
  obtain c s1 where b: "steal_begin cfg clk i w s = (Inr c, s1)" and e: "steal_end cfg clk u w c s1 = (r, s')"
    using assms(2) by (auto simp: steal_def split: prod.splits sum.splits)
  obtain si where c: "repo_findByIssueId (ws_repo s) i None = Some c" and si: "cl_stealInfo c = Some si"
    using steal_begin_ok [of cfg clk i w s c] b by auto
  have guards: "\<not> contest_open c" "\<not> fst (isInGracePeriodWithConfig clk c cfg s)"
    "\<not> isProtectedByProgressWithConfig c cfg"
    "canStealCrossType cfg (getAgentType w) (getAgentType (cl_claimant c)) si"
    "int (repo_countByAgentId (ws_repo s) (ct_id w)) < overloadThreshold cfg"
    using b c si by (auto simp: steal_begin_def split_beta Let_def split: if_splits)
  have "ws_repo s1 = ws_repo s"
    using steal_begin_repo [of cfg clk i w s] b by simp
  then have r: "ws_repo s' = repo_save (ss_claim r) (ws_repo s)" "ss_previousClaimant r = cl_claimant c"
    "cl_id (ss_claim r) = cl_id c" "cl_claimant (ss_claim r) = w" "cl_stealInfo (ss_claim r) = None"
    "contest_open (ss_claim r)" "cl_status (ss_claim r) = cl_status c"
    "cl_issueId (ss_claim r) = cl_issueId c" "cl_repository (ss_claim r) = cl_repository c"
    "cl_progress (ss_claim r) = cl_progress c"
    using e by (auto simp: steal_end_def split_beta Let_def contest_open_def)
  have "touched i (\<lambda>a b. b = ss_claim r) (ws_repo s) (ws_repo s')"
    unfolding r(1) by (rule touchedI [OF c]) (use r in auto)
  from touched_effect [OF assms(1) this] obtain
    "repo_findByIssueId (ws_repo s') i None = Some (ss_claim r)"
    "\<And>j. j \<noteq> i \<Longrightarrow> repo_findByIssueId (ws_repo s') j None = repo_findByIssueId (ws_repo s) j None"
    by metis
  with c si guards r show ?thesis
    by (intro exI [of _ c] exI [of _ si]) (auto simp: isInGracePeriodWithConfig_def split_beta Let_def)
qed

theorem steal_follows_rules_witness:
  "cl_claimant (ss_claim (projr (fst (steal DEFAULT_WORK_STEALING_CONFIG (\<lambda>k. 9000000) ''2'' ''i1''
      (ws_agent ''bob'') ws_marked)))) = ws_agent ''bob''"
proof -
  let ?r = "steal DEFAULT_WORK_STEALING_CONFIG (\<lambda>k. 9000000) ''2'' ''i1'' (ws_agent ''bob'') ws_marked"
  have "\<not> isl (fst ?r)" by code_simp
  then have "?r = (Inr (projr (fst ?r)), snd ?r)" by (simp add: prod_eq_iff)
  from steal_follows_rules [OF ws_marked_wf this] show ?thesis by blast
qed

text \<open>
  C25. A stolen claim is locked until its contest is resolved. Take any interleaving of calls of the service, in which a steal
  may wait between its checks and its writes while other calls run. When a steal of an issue is completed while no other
  steal of the same issue waits, then whatever calls follow, as long as none of them resolves a contest over the issue, the
  thief stays the owner and every further attempt to steal the claim is refused.
\<close>

theorem stolen_claim_locked:
  assumes "plain_wf (ws_repo s0)" and "ws_stealing s0 = []" and "s = run (ws_perform cfg clk) before s0"
    and "k < length (ws_stealing s)" and "ws_stealing s ! k = (i, claimId, w)"
    and "i \<notin> fst ` set (take k (ws_stealing s) @ drop (Suc k) (ws_stealing s))"
    and "list_all (\<lambda>call. \<not> resolves_issue i call) calls"
    and "t = run (ws_perform cfg clk) calls (ws_perform cfg clk (WStealEnd k u) s)"
  shows "map_option cl_claimant (repo_findByIssueId (ws_repo t) i None) = Some w \<and>
    fst (steal_begin cfg clk i w' t) \<in> {Inl NOT_STEALABLE, Inl CONTEST_PENDING}"
proof -
  have "ws_wf s"
    unfolding assms(3) by (rule ws_steals.run_inv) (simp add: ws_wf_def kept_def assms(1,2))
  from steal_end_lock [OF this assms(4-6)] have "lock_inv i w t"
    unfolding assms(8) by (rule ws_lock.guarded_run [OF run_ok_list_all [OF assms(7)]])
  then have l: "locked i w (ws_repo t)"
    by (simp add: lock_inv_def)
  then show ?thesis
    using steal_begin_locked [OF l, of cfg clk w'] by (auto simp: locked_def)
qed

theorem stolen_claim_locked_witness:
  "map_option cl_claimant (repo_findByIssueId (ws_repo (run (ws_perform DEFAULT_WORK_STEALING_CONFIG (\<lambda>k. 9000000))
     [WMark ''4'' ''i1'' ws_info, WStealBegin ''i1'' (ws_agent ''eve'')]
     (ws_perform DEFAULT_WORK_STEALING_CONFIG (\<lambda>k. 9000000) (WStealEnd 0 ''2'')
       (run (ws_perform DEFAULT_WORK_STEALING_CONFIG (\<lambda>k. 9000000)) [WStealBegin ''i1'' (ws_agent ''bob'')] ws_marked)))) ''i1'' None)
   = Some (ws_agent ''bob'')"
proof -
  let ?s = "run (ws_perform DEFAULT_WORK_STEALING_CONFIG (\<lambda>k. 9000000)) [WStealBegin ''i1'' (ws_agent ''bob'')] ws_marked"
  have p: "ws_stealing ws_marked = []" "ws_stealing ?s = [(''i1'', ''claim-1'', ws_agent ''bob'')]"
    by code_simp+
  show ?thesis
    using stolen_claim_locked [OF ws_marked_wf p(1) refl, of 0 DEFAULT_WORK_STEALING_CONFIG "\<lambda>k. 9000000"
        "[WStealBegin ''i1'' (ws_agent ''bob'')]" "''i1''" "''claim-1''" "ws_agent ''bob''"
        "[WMark ''4'' ''i1'' ws_info, WStealBegin ''i1'' (ws_agent ''eve'')]" _ "''2''"]
    unfolding p(2) by simp
qed

text \<open>
  The condition is needed: the checks are not repeated after the wait. Two steals that overlap both succeed, and the second thief
  takes the claim from the first one while its contest is open.
\<close>

lemma overlapping_steals_both_succeed:
  "let s = run (ws_perform DEFAULT_WORK_STEALING_CONFIG (\<lambda>k. 9000000)) [WStealBegin ''i1'' (ws_agent ''bob''),
       WStealBegin ''i1'' (ws_agent ''eve''), WStealEnd 0 ''2''] ws_marked;
       t = ws_perform DEFAULT_WORK_STEALING_CONFIG (\<lambda>k. 9000000) (WStealEnd 0 ''3'') s
   in map_option (\<lambda>c. (cl_claimant c, contest_open c)) (repo_findByIssueId (ws_repo s) ''i1'' None) = Some (ws_agent ''bob'', True) \<and>
      map_option cl_claimant (repo_findByIssueId (ws_repo t) ''i1'' None) = Some (ws_agent ''eve'')"
  by code_simp

text \<open>
  What work stealing never does: along any sequence of calls, claims neither appear nor
  disappear, no claim changes its status or progress, and a claim whose progress has reached the
  protection threshold is never marked as stealable.
\<close>

theorem stealing_preserves:
  assumes "plain_wf (ws_repo s)" and "ws_stealing s = []"
  shows "plain_wf (ws_repo (run (ws_perform cfg clk) calls s)) \<and>
    rel_option (\<lambda>c d. cl_status d = cl_status c \<and> cl_progress d = cl_progress c \<and>
        (isProtectedByProgressWithConfig c cfg \<longrightarrow> cl_stealInfo c = None \<longrightarrow> cl_stealInfo d = None))
      (repo_findById (ws_repo s) k) (repo_findById (ws_repo (run (ws_perform cfg clk) calls s)) k)"
  using ws_frame.run_inv [of s cfg "ws_repo s" clk calls] tame_refl [OF assms(1), of cfg] assms
  unfolding tame_def claim_tame_def by (simp add: ws_wf_def kept_def)

theorem stealing_preserves_witness:
  "repo_findById (ws_repo (run (ws_perform DEFAULT_WORK_STEALING_CONFIG (\<lambda>k. 9000000))
      [WStealBegin ''i1'' (ws_agent ''bob''), WStealEnd 0 ''2'', WResolve ''3'' ''i1'' (ws_agent ''ann'') ''mine'']
      ws_marked)) ''claim-1'' \<noteq> None"
proof -
  have "repo_findById (ws_repo ws_marked) ''claim-1'' \<noteq> None" by code_simp
  moreover have "ws_stealing ws_marked = []" by code_simp
  ultimately show ?thesis
    using stealing_preserves [OF ws_marked_wf, of DEFAULT_WORK_STEALING_CONFIG "\<lambda>k. 9000000"
      "[WStealBegin ''i1'' (ws_agent ''bob''), WStealEnd 0 ''2'', WResolve ''3'' ''i1'' (ws_agent ''ann'') ''mine'']" "''claim-1''"]
    by (cases "repo_findById (ws_repo ws_marked) ''claim-1''") (auto simp: option_rel_Some1 simp del: run_Cons)
qed

text \<open>
  A contest is decided once: a resolution succeeds only while the contest is open; it records
  the winner, gives the claim back exactly when the winner is the claimant it was stolen from, and
  makes any second resolution fail.
\<close>

theorem contest_resolved_once:
  assumes "plain_wf (ws_repo s)" and "resolveContest clk u i w reason s = (Inr (), s')"
  shows "\<exists>c ci d res. repo_findByIssueId (ws_repo s) i None = Some c \<and> cl_contestInfo c = Some ci \<and>
    ci_resolution ci = None \<and> repo_findByIssueId (ws_repo s') i None = Some d \<and>
    cl_contestInfo d = Some (ci\<lparr>ci_resolution := Some res\<rparr>) \<and> cr_winner res = w \<and>
    cl_claimant d = (if ct_id w = ct_id (ci_contestedBy ci) then w else cl_claimant c) \<and>
    fst (resolveContest clk' u' i w' reason' s') = Inl ContestAlreadyResolved"
proof -
  have t: "touched i (resolves w) (ws_repo s) (ws_repo s')"
    using resolveContest_touched [of clk u i w reason s] assms(2) by simp
  from touched_effect [OF assms(1) this] obtain a d where d: "repo_findByIssueId (ws_repo s) i None = Some a"
    "resolves w a d" "repo_findByIssueId (ws_repo s') i None = Some d" by metis
  from d(2) obtain ci res where ci: "cl_contestInfo a = Some ci"
    "cl_contestInfo d = Some (ci\<lparr>ci_resolution := Some res\<rparr>)" "cr_winner res = w"
    "cl_claimant d = (if ct_id w = ct_id (ci_contestedBy ci) then w else cl_claimant a)"
    unfolding resolves_def by blast
  have "contest_open a" using d(2) by (simp add: resolves_def)
  then have "ci_resolution ci = None" using ci(1) by (simp add: contest_open_def)
  moreover have "fst (resolveContest clk' u' i w' reason' s') = Inl ContestAlreadyResolved"
    using d(3) ci(2) by (simp add: resolveContest_def)
  ultimately show ?thesis using d ci by blast
qed

definition ws_taken :: ws_state where
  "ws_taken = run (ws_perform DEFAULT_WORK_STEALING_CONFIG (\<lambda>k. 9000000)) [WStealBegin ''i1'' (ws_agent ''bob''), WStealEnd 0 ''2''] ws_marked"

lemma ws_taken_wf: "plain_wf (ws_repo ws_taken)"
proof -
  have "ws_stealing ws_marked = []"
    by code_simp
  then have "ws_wf ws_marked"
    using ws_marked_wf by (simp add: ws_wf_def kept_def)
  from ws_steals.run_inv [OF this] have "ws_wf ws_taken"
    unfolding ws_taken_def .
  then show ?thesis
    by (simp add: ws_wf_def kept_def)
qed

theorem contest_resolved_once_witness:
  "fst (resolveContest (\<lambda>k. 9000050) ''8'' ''i1'' (ws_agent ''bob'') ''no''
      (snd (resolveContest (\<lambda>k. 9000010) ''7'' ''i1'' (ws_agent ''ann'') ''yes'' ws_taken)))
    = Inl ContestAlreadyResolved"
proof -
  let ?r = "resolveContest (\<lambda>k. 9000010) ''7'' ''i1'' (ws_agent ''ann'') ''yes'' ws_taken"
  have "\<not> isl (fst ?r)" by code_simp
  then have "?r = (Inr (), snd ?r)" by (cases "fst ?r") (simp_all add: prod_eq_iff)
  from contest_resolved_once [OF ws_taken_wf this, of "\<lambda>k. 9000050" "''8''" "ws_agent ''bob''" "''no''"]
  show ?thesis by blast
qed

text \<open>
  The event history is bounded: with a maximum of at least two, after any sequence of events
  the history is a suffix of the events emitted and never longer than the maximum.
\<close>

theorem bus_history_bounded:
  assumes "2 \<le> m"
  shows "length (wb_history (run ws_emit es (new_ws_bus (Some m)))) \<le> m \<and>
    (\<exists>us. es = us @ wb_history (run ws_emit es (new_ws_bus (Some m))))"
proof
  have "run_ok (\<lambda>_ _. 2 \<le> m) ws_emit es (new_ws_bus (Some m))"
    using run_ok_list_all [of "\<lambda>_. 2 \<le> m" es] assms by (simp add: list.pred_True)
  then have "bus_inv m (run ws_emit es (new_ws_bus (Some m)))"
    by (rule bus_system.guarded_run) (simp add: bus_inv_def new_ws_bus_def)
  then show "length (wb_history (run ws_emit es (new_ws_bus (Some m)))) \<le> m" by (simp add: bus_inv_def)
  show "\<exists>us. es = us @ wb_history (run ws_emit es (new_ws_bus (Some m)))"
    using emit_suffix [of "new_ws_bus (Some m)" es] by (simp add: new_ws_bus_def)
qed

theorem bus_history_bounded_witness:
  "length (wb_history (run ws_emit (replicate 9 \<lparr>we_id = [], we_type = IssueStolen, we_timestamp = 0,
     we_issueId = [], we_claimId = [], we_payload = ContestedPayload\<rparr>) (new_ws_bus (Some 4)))) \<le> 4"
  using bus_history_bounded [of 4] by simp

text \<open>
  A maximum of one (or zero) turns the bound off: \<open>slice(-0)\<close> keeps the whole array, so that
  the history then holds every event ever emitted.
\<close>

theorem bus_history_unbounded:
  assumes "m \<le> 1"
  shows "wb_history (run ws_emit es (new_ws_bus (Some m))) = es"
  using emit_all_small [of "new_ws_bus (Some m)" es] assms by (simp add: new_ws_bus_def)

theorem bus_history_unbounded_witness:
  "length (wb_history (run ws_emit (replicate 9 \<lparr>we_id = [], we_type = IssueStolen, we_timestamp = 0,
     we_issueId = [], we_claimId = [], we_payload = ContestedPayload\<rparr>) (new_ws_bus (Some 1)))) = 9"
  using bus_history_unbounded [of 1] by simp

text \<open>
  Detection is sound: every claim that \<open>detectStaleWork\<close> reports is stored and unmarked, is
  reported once, and is either unprotected and stale (or blocked for too long), or held by a
  claimant with more claims than the overload threshold.
\<close>

theorem detectStaleWork_sound:
  assumes "plain_wf (ws_repo s)"
  shows "distinct (map cl_id (fst (detectStaleWork cfg clk s))) \<and>
    (\<forall>c \<in> set (fst (detectStaleWork cfg clk s)).
       repo_findById (ws_repo s) (cl_id c) = Some c \<and> cl_stealInfo c = None \<and>
       (\<not> isProtectedByProgressWithConfig c cfg \<and> is_stale_or_blocked (clk (ws_reads s)) cfg c \<or>
        int (length (filter (\<lambda>c'. ct_id (cl_claimant c') = ct_id (cl_claimant c)) (repo_findAll (ws_repo s))))
          > overloadThreshold cfg))"
proof -
  let ?all = "repo_findAll (ws_repo s)"
  let ?s1 = "snd (new_date clk s)" and ?now = "clk (ws_reads s)"
  let ?stale = "fst (stale_loop cfg clk ?now ?all ?s1)"
  define P where "P c \<longleftrightarrow> repo_findById (ws_repo s) (cl_id c) = Some c \<and> cl_stealInfo c = None \<and>
    (\<not> isProtectedByProgressWithConfig c cfg \<and> is_stale_or_blocked ?now cfg c \<or>
     int (length (filter (\<lambda>c'. ct_id (cl_claimant c') = ct_id (cl_claimant c)) ?all)) > overloadThreshold cfg)" for c
  have wf: "repo_wf (ws_repo s)" using assms by (simp add: plain_wf_def)
  have all: "c \<in> set ?all \<longleftrightarrow> repo_findById (ws_repo s) (cl_id c) = Some c" for c
    using repo_values [OF wf] by (simp add: repo_findAll_def)
  have st: "\<forall>c \<in> set ?stale. P c"
    using stale_loop_set [of cfg clk ?now ?all ?s1] all unfolding P_def by blast
  have ds: "distinct (map cl_id ?stale)"
    using stale_loop_distinct distinct_ids [OF wf] by (simp add: repo_findAll_def)
  have gr: "P c" if in_group: "g \<in> set (jvalues (group_by_claimant ?all))"
    and in_g: "int (length g) > overloadThreshold cfg" "c \<in> set g" "cl_stealInfo c = None" for g c
  proof -
    obtain a where g: "g = filter (\<lambda>c. ct_id (cl_claimant c) = a) ?all" using group_values [OF in_group] by blast
    then have "c \<in> set ?all" and "ct_id (cl_claimant c) = a" using in_g(2) by simp_all
    with g in_g(1,3) all [of c] show ?thesis unfolding P_def by blast
  qed
  have eq: "fst (detectStaleWork cfg clk s) = overload_loop cfg (jvalues (group_by_claimant ?all)) ?stale"
    by (simp add: detectStaleWork_def split_beta Let_def new_date_def)
  have "(\<forall>c \<in> set (fst (detectStaleWork cfg clk s)). P c) \<and>
      distinct (map cl_id (fst (detectStaleWork cfg clk s)))"
    unfolding eq by (rule overload_loop_inv [OF gr st ds])
  then show ?thesis unfolding P_def by blast
qed

theorem detectStaleWork_sound_witness:
  "cl_stealInfo (hd (fst (detectStaleWork DEFAULT_WORK_STEALING_CONFIG (\<lambda>k. 9000000) ws_start))) = None"
proof -
  have "fst (detectStaleWork DEFAULT_WORK_STEALING_CONFIG (\<lambda>k. 9000000) ws_start) = [ws_claim]" by code_simp
  with detectStaleWork_sound [OF ws_start_wf, of DEFAULT_WORK_STEALING_CONFIG "\<lambda>k. 9000000"]
  show ?thesis by simp
qed

lemma stealable_filter_sub: "set (fst (stealable_filter cfg clk ty cs s)) \<subseteq> set cs"
proof (induction cs arbitrary: s)
  case (Cons c cs)
  show ?case
    using Cons.IH [of s] Cons.IH [of "snd (isInGracePeriodWithConfig clk c cfg s)"]
    by (auto simp: split_beta Let_def split: option.splits if_splits)
qed simp

text \<open>
  Marked claims are not offered: \<open>markStealable\<close> leaves the status alone, while the listing
  returns only claims with status \<open>stealable\<close>; a claim marked in any other status is therefore
  never listed, although stealing it by issue id succeeds.
\<close>

theorem marked_claim_not_listed:
  assumes "plain_wf (ws_repo s)" and "repo_findByIssueId (ws_repo s) i None = Some c"
    and "cl_status c \<noteq> Stealable" and "markStealable cfg clk u i info s = (Inr (), s')"
  shows "cl_id c \<notin> cl_id ` set (fst (getStealable cfg clk ty s'))"
proof
  assume "cl_id c \<in> cl_id ` set (fst (getStealable cfg clk ty s'))"
  then obtain d where d: "d \<in> set (repo_findStealable (ws_repo s') ty)" "cl_id d = cl_id c"
    using stealable_filter_sub unfolding getStealable_def by fastforce
  have t: "tame cfg (ws_repo s) (ws_repo s')"
    using markStealable_tame [OF assms(1), of cfg clk u i info] assms(4) by simp
  then have "repo_wf (ws_repo s')" by (simp add: tame_def plain_wf_def)
  with d have "repo_findById (ws_repo s') (cl_id c) = Some d" and st: "cl_status d = Stealable"
    by (auto simp: repo_findStealable_def repo_values split: if_splits)
  moreover have "repo_findById (ws_repo s) (cl_id c) = Some c" using find_sound_plain [OF assms(1,2)] by simp
  moreover have "rel_option (claim_tame cfg) (repo_findById (ws_repo s) (cl_id c)) (repo_findById (ws_repo s') (cl_id c))"
    using t unfolding tame_def by blast
  ultimately have "cl_status d = cl_status c" by (simp add: claim_tame_def)
  with st assms(3) show False by simp
qed

theorem marked_claim_not_listed_witness:
  "''claim-1'' \<notin> cl_id ` set (fst (getStealable DEFAULT_WORK_STEALING_CONFIG (\<lambda>k. 9000000) None ws_marked))"
proof -
  let ?m = "markStealable DEFAULT_WORK_STEALING_CONFIG (\<lambda>k. 9000000) ''1'' ''i1'' ws_info ws_start"
  have "repo_findByIssueId (ws_repo ws_start) ''i1'' None = Some ws_claim" by code_simp
  moreover have "cl_status ws_claim \<noteq> Stealable" by code_simp
  moreover have "\<not> isl (fst ?m)" by code_simp
  then have "?m = (Inr (), snd ?m)" by (cases "fst ?m") (simp_all add: prod_eq_iff)
  ultimately have "cl_id ws_claim \<notin> cl_id ` set (fst (getStealable DEFAULT_WORK_STEALING_CONFIG
      (\<lambda>k. 9000000) None (snd ?m)))"
    by (rule marked_claim_not_listed [OF ws_start_wf])
  then show ?thesis by (simp add: ws_marked_def ws_claim_def)
qed

end
