(* ===== verification/VectorClock.thy ===== *)
theory VectorClock
  imports Prelude
begin

text \<open>
  Model of \<open>claims/src/infrastructure/vector-clock.ts\<close>: per-node counters with tick, merge,
  comparison and pruning. The lemmas show that \<open>compareVectorClocks\<close> decides the pointwise
  order, that merge is the least upper bound of that order, and that a tick moves strictly up.
  A clock is an object used as a record from node ids to counters; node ids are not names of
  \<open>Object.prototype\<close> properties. Counters are natural numbers (they start at 0 and only grow).
\<close>

section \<open>Definitions\<close>

record vector_clock =
  clocks :: "(string, nat) jsmap"

datatype vc_error = EmptyNodeId

datatype vc_order = VEqual | VBefore | VAfter | VConcurrent

definition zeroVectorClock :: vector_clock where
  "zeroVectorClock = \<lparr>clocks = []\<rparr>"

text \<open>\<open>vc.clocks[nodeId] ?? 0\<close>\<close>

definition vget :: "vector_clock \<Rightarrow> string \<Rightarrow> nat" where
  "vget vc n = nullish (jget (clocks vc) n) 0"

definition tickVectorClock :: "vector_clock \<Rightarrow> string \<Rightarrow> vc_error + vector_clock" where
  "tickVectorClock vc nodeId =
     (if nodeId = [] then Inl EmptyNodeId
      else Inr \<lparr>clocks = jset nodeId (vget vc nodeId + 1) (clocks vc)\<rparr>)"

definition mergeVectorClocks :: "vector_clock \<Rightarrow> vector_clock \<Rightarrow> vector_clock" where
  "mergeVectorClocks a b =
     \<lparr>clocks = fold (\<lambda>(nodeId, value) merged.
        (let current = nullish (jget merged nodeId) 0
         in if value > current then jset nodeId value merged else merged)) (clocks b) (clocks a)\<rparr>"

definition compareVectorClocks :: "vector_clock \<Rightarrow> vector_clock \<Rightarrow> vc_order" where
  "compareVectorClocks a b =
     (let allNodes = fold sadd (jkeys (clocks a) @ jkeys (clocks b)) [];
          (aDominates, bDominates) =
            fold (\<lambda>nodeId (ad, bd).
               (let av = vget a nodeId; bv = vget b nodeId
                in (if av > bv then True else ad, if bv > av then True else bd)))
              allNodes (False, False)
      in if \<not> aDominates \<and> \<not> bDominates then VEqual
         else if aDominates \<and> \<not> bDominates then VAfter
         else if \<not> aDominates \<and> bDominates then VBefore
         else VConcurrent)"

definition areConcurrent :: "vector_clock \<Rightarrow> vector_clock \<Rightarrow> bool" where
  "areConcurrent a b \<longleftrightarrow> compareVectorClocks a b = VConcurrent"

definition pruneVectorClock :: "vector_clock \<Rightarrow> string jsset \<Rightarrow> vector_clock" where
  "pruneVectorClock vc keepers =
     \<lparr>clocks = fold (\<lambda>(nodeId, value) pruned.
        if nodeId \<in> set keepers then jset nodeId value pruned else pruned) (clocks vc) []\<rparr>"

section \<open>The abstract order\<close>

text \<open>The causal order: every counter of \<open>a\<close> is at most that of \<open>b\<close>.\<close>

definition vle :: "vector_clock \<Rightarrow> vector_clock \<Rightarrow> bool" where
  "vle a b \<longleftrightarrow> (\<forall>n. vget a n \<le> vget b n)"

definition vequiv :: "vector_clock \<Rightarrow> vector_clock \<Rightarrow> bool" where
  "vequiv a b \<longleftrightarrow> (\<forall>n. vget a n = vget b n)"

definition vc_wf :: "vector_clock \<Rightarrow> bool" where
  "vc_wf vc \<longleftrightarrow> jwf (clocks vc)"

lemma vle_refl [simp]: "vle a a"
  by (simp add: vle_def)

lemma vle_trans: "vle a b \<Longrightarrow> vle b c \<Longrightarrow> vle a c"
  by (meson vle_def order_trans)

lemma vle_antisym: "vle a b \<Longrightarrow> vle b a \<Longrightarrow> vequiv a b"
  by (simp add: vle_def vequiv_def antisym)

lemma vequiv_vle: "vequiv a b \<longleftrightarrow> vle a b \<and> vle b a"
  by (auto simp: vle_def vequiv_def intro: antisym)

lemma vget_zero [simp]: "vget zeroVectorClock n = 0"
  by (simp add: vget_def zeroVectorClock_def)

lemma vget_absent: "n \<notin> set (jkeys (clocks a)) \<Longrightarrow> vget a n = 0"
  using jget_jkeys [of "clocks a" n] by (simp add: vget_def)

section \<open>Comparison decides the order\<close>

lemma fold_dominates:
  "fold (\<lambda>n (ad, bd). (let av = f n; bv = g n
      in (if av > bv then True else ad, if bv > av then True else bd))) ns (p, q) =
   (p \<or> (\<exists>n \<in> set ns. f n > (g n :: nat)), q \<or> (\<exists>n \<in> set ns. g n > f n))"
  by (induction ns arbitrary: p q) (auto simp: Let_def)

lemma compare_dominates:
  "compareVectorClocks a b =
     (let ad = (\<exists>n. vget a n > vget b n); bd = (\<exists>n. vget b n > vget a n)
      in if \<not> ad \<and> \<not> bd then VEqual else if ad \<and> \<not> bd then VAfter
         else if \<not> ad \<and> bd then VBefore else VConcurrent)"
proof -
  let ?S = "set (jkeys (clocks a)) \<union> set (jkeys (clocks b))"
  have mem: "vget a n \<noteq> vget b n \<Longrightarrow> n \<in> ?S" for n
    using vget_absent [of n a] vget_absent [of n b] by force
  then have "(\<exists>n \<in> ?S. vget a n > vget b n) = (\<exists>n. vget a n > vget b n)"
    and "(\<exists>n \<in> ?S. vget b n > vget a n) = (\<exists>n. vget b n > vget a n)"
    by (metis less_irrefl)+
  then show ?thesis
    unfolding compareVectorClocks_def Let_def fold_dominates [unfolded Let_def]
    by (simp only: set_fold_sadd set_append list.set(1) Un_empty_left prod.case simp_thms)
qed

lemma compare_equal: "compareVectorClocks a b = VEqual \<longleftrightarrow> vequiv a b"
  by (simp add: compare_dominates Let_def vequiv_def) (metis linorder_neq_iff)

lemma compare_before: "compareVectorClocks a b = VBefore \<longleftrightarrow> vle a b \<and> \<not> vle b a"
  by (auto simp: compare_dominates Let_def vle_def not_less not_le)

lemma compare_after: "compareVectorClocks a b = VAfter \<longleftrightarrow> vle b a \<and> \<not> vle a b"
  by (auto simp: compare_dominates Let_def vle_def not_less not_le)

lemma compare_concurrent: "compareVectorClocks a b = VConcurrent \<longleftrightarrow> \<not> vle a b \<and> \<not> vle b a"
  by (auto simp: compare_dominates Let_def vle_def not_less not_le)

lemmas compare_iffs = compare_equal compare_before compare_after compare_concurrent

section \<open>Tick, merge and prune\<close>

lemma vget_tick: "tickVectorClock vc n = Inr vc' \<Longrightarrow> vget vc' m = vget vc m + (if m = n then 1 else 0)"
  by (auto simp: tickVectorClock_def vget_def split: if_splits)

lemma tick_total: "n \<noteq> [] \<Longrightarrow> \<exists>vc'. tickVectorClock vc n = Inr vc'"
  by (simp add: tickVectorClock_def)

lemma tick_up: "tickVectorClock vc n = Inr vc' \<Longrightarrow> vle vc vc' \<and> \<not> vle vc' vc"
  by (auto simp: vle_def vget_tick intro!: exI [of _ n])

lemma fold_merge_get:
  assumes "jwf m"
  shows "nullish (jget (fold (\<lambda>(k, v) acc.
           if v > nullish (jget acc k) 0 then jset k v acc else acc) m acc) n) 0 =
         max (nullish (jget acc n) 0) (nullish (jget m n) (0::nat))"
  using assms
proof (induction m arbitrary: acc)
  case (Cons kv m)
  obtain k v where kv: "kv = (k, v)" by (cases kv)
  from Cons.prems have wf: "jwf m" and k: "jget m k = None"
    by (auto simp: jwf_def jkeys_def kv jget_jkeys)
  show ?case
    using Cons.IH [OF wf] k by (auto simp: kv Let_def)
qed simp

lemma vget_merge: "vc_wf b \<Longrightarrow> vget (mergeVectorClocks a b) n = max (vget a n) (vget b n)"
  by (simp add: vget_def mergeVectorClocks_def vc_wf_def fold_merge_get Let_def)

lemma fold_merge_wf:
  "jwf acc \<Longrightarrow> jwf (fold (\<lambda>(k, v) acc.
     if v > nullish (jget acc k) 0 then jset k v acc else acc) m acc)"
  by (induction m arbitrary: acc) (auto simp: Let_def)

lemma vc_wf_zero [simp]: "vc_wf zeroVectorClock"
  by (simp add: vc_wf_def zeroVectorClock_def)

lemma vc_wf_tick: "vc_wf vc \<Longrightarrow> tickVectorClock vc n = Inr vc' \<Longrightarrow> vc_wf vc'"
  by (auto simp: vc_wf_def tickVectorClock_def split: if_splits)

lemma vc_wf_merge: "vc_wf a \<Longrightarrow> vc_wf (mergeVectorClocks a b)"
  by (simp add: vc_wf_def mergeVectorClocks_def fold_merge_wf Let_def)

lemma merge_ub1: "vc_wf b \<Longrightarrow> vle a (mergeVectorClocks a b)"
  by (simp add: vle_def vget_merge)

lemma merge_ub2: "vc_wf b \<Longrightarrow> vle b (mergeVectorClocks a b)"
  by (simp add: vle_def vget_merge)

lemma merge_least: "vc_wf b \<Longrightarrow> vle a c \<Longrightarrow> vle b c \<Longrightarrow> vle (mergeVectorClocks a b) c"
  by (simp add: vle_def vget_merge)

lemma fold_prune_get:
  assumes "jwf m" and "n \<in> set keepers \<Longrightarrow> jget m n = None \<or> jget acc n = None"
  shows "jget (fold (\<lambda>(k, v) p. if k \<in> set keepers then jset k v p else p) m acc) n =
           (if n \<in> set keepers \<and> jget m n \<noteq> None then jget m n else jget acc n)"
  using assms
proof (induction m arbitrary: acc)
  case (Cons kv m)
  obtain k v where kv: "kv = (k, v)" by (cases kv)
  from Cons.prems have wf: "jwf m" and k: "jget m k = None"
    by (auto simp: jwf_def jkeys_def kv jget_jkeys)
  have IH: "jget (fold (\<lambda>(k, v) p. if k \<in> set keepers then jset k v p else p) m a) n =
      (if n \<in> set keepers \<and> jget m n \<noteq> None then jget m n else jget a n)"
    if "n \<in> set keepers \<Longrightarrow> jget m n = None \<or> jget a n = None" for a
    using Cons.IH [OF wf that] by blast
  show ?case
    using IH [of "jset k v acc"] IH [of acc] k Cons.prems(2) by (auto simp: kv)
qed auto

lemma vget_prune:
  "vc_wf vc \<Longrightarrow> vget (pruneVectorClock vc keepers) n = (if n \<in> set keepers then vget vc n else 0)"
  by (simp add: vget_def pruneVectorClock_def vc_wf_def fold_prune_get split: option.splits)

section \<open>The interface of causal clocks\<close>

text \<open>
  What a versioned store relies on: an order with joins, in which ticking goes strictly up.
  The lemmas of the interface are about the two decisions such a store takes when a remote
  clock arrives: accept it (and then the same clock is stale), or refuse it as concurrent.
\<close>

locale causal_clock =
  fixes good :: "'c \<Rightarrow> bool"
    and le :: "'c \<Rightarrow> 'c \<Rightarrow> bool"
    and merge :: "'c \<Rightarrow> 'c \<Rightarrow> 'c"
    and cmp :: "'c \<Rightarrow> 'c \<Rightarrow> vc_order"
  assumes le_refl: "le a a"
    and le_trans: "le a b \<Longrightarrow> le b c \<Longrightarrow> le a c"
    and good_merge: "good a \<Longrightarrow> good b \<Longrightarrow> good (merge a b)"
    and ub1: "good b \<Longrightarrow> le a (merge a b)"
    and ub2: "good b \<Longrightarrow> le b (merge a b)"
    and least: "good b \<Longrightarrow> le a c \<Longrightarrow> le b c \<Longrightarrow> le (merge a b) c"
    and cmp_equal: "cmp a b = VEqual \<longleftrightarrow> le a b \<and> le b a"
    and cmp_before: "cmp a b = VBefore \<longleftrightarrow> le a b \<and> \<not> le b a"
    and cmp_after: "cmp a b = VAfter \<longleftrightarrow> le b a \<and> \<not> le a b"
    and cmp_concurrent: "cmp a b = VConcurrent \<longleftrightarrow> \<not> le a b \<and> \<not> le b a"
begin

lemma accepted_is_stale: "good r \<Longrightarrow> cmp (merge s r) r \<in> {VEqual, VAfter}"
  using ub2 [of r s] cmp_equal [of "merge s r" r] cmp_after [of "merge s r" r] by auto

lemma accepted_equals: "good r \<Longrightarrow> cmp s r = VBefore \<Longrightarrow> cmp (merge s r) r = VEqual"
  using least [of r s r] ub2 [of r s] by (auto simp: cmp_equal cmp_before le_refl)

lemma concurrent_symmetric: "cmp a b = VConcurrent \<longleftrightarrow> cmp b a = VConcurrent"
  by (auto simp: cmp_concurrent)

lemma merge_resolves: "good r \<Longrightarrow> cmp s r = VConcurrent \<Longrightarrow> cmp s (merge s r) = VBefore"
  using ub1 [of r s] ub2 [of r s] le_trans [of r "merge s r" s] by (auto simp: cmp_before cmp_concurrent)

lemma merge_commutes: "good a \<Longrightarrow> good b \<Longrightarrow> cmp (merge a b) (merge b a) = VEqual"
  by (simp add: cmp_equal least ub1 ub2)

lemma merge_associates:
  "good a \<Longrightarrow> good b \<Longrightarrow> good c \<Longrightarrow> cmp (merge (merge a b) c) (merge a (merge b c)) = VEqual"
proof -
  assume g: "good a" "good b" "good c"
  then have gm: "good (merge b c)" by (simp add: good_merge)
  have "le (merge (merge a b) c) (merge a (merge b c))"
    using g gm by (meson least le_trans ub1 ub2)
  moreover have "le (merge a (merge b c)) (merge (merge a b) c)"
    using g gm by (meson least le_trans ub1 ub2)
  ultimately show ?thesis by (simp add: cmp_equal)
qed

end

interpretation vclock: causal_clock vc_wf vle mergeVectorClocks compareVectorClocks
proof unfold_locales
  show "vle a c" if "vle a b" "vle b c" for a b c using that by (rule vle_trans)
qed (simp_all add: vc_wf_merge merge_ub1 merge_ub2 merge_least compare_iffs vequiv_vle)

section \<open>Properties\<close>

text \<open>
  \<open>compareVectorClocks\<close> decides the causal order: it reports \<open>equal\<close> when all counters agree,
  \<open>before\<close> and \<open>after\<close> when one clock is pointwise at most the other, and \<open>concurrent\<close> otherwise.
\<close>

theorem compare_decides_causality:
  "compareVectorClocks a b =
     (if vequiv a b then VEqual else if vle a b then VBefore else if vle b a then VAfter else VConcurrent)"
  by (cases "compareVectorClocks a b") (auto simp: compare_iffs vequiv_vle)

text \<open>
  Merging two clocks gives their least upper bound in the causal order: it is above both, below
  every clock that is above both, and merging in either order gives equivalent clocks.
\<close>

theorem merge_least_upper_bound:
  assumes "vc_wf a" and "vc_wf b"
  shows "vle a (mergeVectorClocks a b) \<and> vle b (mergeVectorClocks a b) \<and>
    (\<forall>c. vle a c \<and> vle b c \<longrightarrow> vle (mergeVectorClocks a b) c) \<and>
    vequiv (mergeVectorClocks a b) (mergeVectorClocks b a)"
  using vclock.merge_commutes [OF assms] assms
  by (auto simp: merge_ub1 merge_ub2 merge_least compare_equal)

theorem merge_least_upper_bound_witness:
  "vequiv (mergeVectorClocks \<lparr>clocks = [(''a'', 2), (''b'', 1)]\<rparr> \<lparr>clocks = [(''b'', 3)]\<rparr>)
     (mergeVectorClocks \<lparr>clocks = [(''b'', 3)]\<rparr> \<lparr>clocks = [(''a'', 2), (''b'', 1)]\<rparr>)"
proof -
  have "vc_wf \<lparr>clocks = [(''a'', 2), (''b'', 1)]\<rparr>" "vc_wf \<lparr>clocks = [(''b'', 3)]\<rparr>"
    by (simp_all add: vc_wf_def jwf_def jkeys_def)
  from merge_least_upper_bound [OF this] show ?thesis by blast
qed


end
