(* ===== verification/ClaimEvents.thy ===== *)
theory ClaimEvents
  imports ClaimTypes VectorClock Hlc
begin

text \<open>
  Model of the event half of \<open>claims/src/domain/events.ts\<close>: the domain events of the claim
  service and their factory functions. The identifier \<open>claim-evt-<now>-<counter>\<close> is modelled as
  the pair of its two numbers. \<open>ev_federation\<close> is the \<open>federation\<close> entry of the metadata object,
  the only entry the modelled code reads or writes
  (\<open>claims/src/infrastructure/federated-event-store.ts\<close>).
\<close>

datatype claim_event_type =
    T_claim_created | T_claim_released | T_claim_expired | T_claim_status_changed
  | T_claim_note_added | T_handoff_requested | T_handoff_accepted | T_handoff_rejected
  | T_review_requested | T_review_completed

text \<open>One constructor per payload shape; the fields are in the order of the source.\<close>

datatype event_payload =
    ClaimCreated (p_claimId: string) (p_issueId: string) claimant time "time option"
  | ClaimReleased (p_claimId: string) (p_issueId: string) claimant time "string option"
  | ClaimExpired (p_claimId: string) (p_issueId: string) claimant time time
  | ClaimStatusChanged (p_claimId: string) (p_issueId: string) claim_status claim_status time
      "string option"
  | ClaimNoteAdded (p_claimId: string) (p_issueId: string) string time claimant
  | HandoffRequested (p_claimId: string) (p_issueId: string) string claimant claimant string time
  | HandoffAccepted (p_claimId: string) (p_issueId: string) string claimant claimant time
  | HandoffRejected (p_claimId: string) (p_issueId: string) string claimant claimant time string
  | ReviewRequested (p_claimId: string) (p_issueId: string) "claimant list" time claimant
  | ReviewCompleted (p_claimId: string) (p_issueId: string) claimant bool time "string option"

record federation_metadata =
  fm_hlc :: hlc_timestamp
  fm_vclock :: vector_clock
  fm_originNodeId :: string
  fm_arrivedFromFederation :: bool
  fm_envelopeSignature :: "string option"

record claim_event =
  ev_id :: "time \<times> nat"
  ev_type :: claim_event_type
  ev_aggregateId :: string
  ev_version :: nat
  ev_timestamp :: time
  ev_source :: string
  ev_payload :: event_payload
  ev_federation :: "federation_metadata option"

section \<open>Factories\<close>

text \<open>
  \<open>eventCounter\<close> is module state: each factory takes it and returns its successor. A factory
  reads the clock three times: for the payload, for the identifier and for the timestamp.
\<close>

definition generateEventId :: "time \<Rightarrow> nat \<Rightarrow> (time \<times> nat) \<times> nat" where
  "generateEventId now eventCounter = ((now, Suc eventCounter), Suc eventCounter)"

definition createClaimEvent ::
    "clock \<Rightarrow> nat \<Rightarrow> claim_event_type \<Rightarrow> string \<Rightarrow> event_payload \<Rightarrow> nat \<Rightarrow> claim_event \<times> nat" where
  "createClaimEvent clk k ty aggregateId payload eventCounter =
     (let (eid, eventCounter') = generateEventId (clk k) eventCounter
      in (\<lparr>ev_id = eid, ev_type = ty, ev_aggregateId = aggregateId, ev_version = 1,
           ev_timestamp = clk (k + 1), ev_source = ''claim-service'', ev_payload = payload,
           ev_federation = None\<rparr>, eventCounter'))"

definition createClaimCreatedEvent ::
    "clock \<Rightarrow> nat \<Rightarrow> string \<Rightarrow> string \<Rightarrow> claimant \<Rightarrow> time option \<Rightarrow> nat \<Rightarrow> claim_event \<times> nat" where
  "createClaimCreatedEvent clk k claimId issueId claimant expiresAt =
     createClaimEvent clk (k + 1) T_claim_created claimId
       (ClaimCreated claimId issueId claimant (clk k) expiresAt)"

definition createClaimReleasedEvent ::
    "clock \<Rightarrow> nat \<Rightarrow> string \<Rightarrow> string \<Rightarrow> claimant \<Rightarrow> string option \<Rightarrow> nat \<Rightarrow> claim_event \<times> nat" where
  "createClaimReleasedEvent clk k claimId issueId claimant reason =
     createClaimEvent clk (k + 1) T_claim_released claimId
       (ClaimReleased claimId issueId claimant (clk k) reason)"

definition createClaimExpiredEvent ::
    "clock \<Rightarrow> nat \<Rightarrow> string \<Rightarrow> string \<Rightarrow> claimant \<Rightarrow> time \<Rightarrow> nat \<Rightarrow> claim_event \<times> nat" where
  "createClaimExpiredEvent clk k claimId issueId claimant lastActivityAt =
     createClaimEvent clk (k + 1) T_claim_expired claimId
       (ClaimExpired claimId issueId claimant (clk k) lastActivityAt)"

definition createClaimStatusChangedEvent ::
    "clock \<Rightarrow> nat \<Rightarrow> string \<Rightarrow> string \<Rightarrow> claim_status \<Rightarrow> claim_status \<Rightarrow> string option \<Rightarrow> nat
      \<Rightarrow> claim_event \<times> nat" where
  "createClaimStatusChangedEvent clk k claimId issueId previousStatus newStatus note =
     createClaimEvent clk (k + 1) T_claim_status_changed claimId
       (ClaimStatusChanged claimId issueId previousStatus newStatus (clk k) note)"

definition createClaimNoteAddedEvent ::
    "clock \<Rightarrow> nat \<Rightarrow> string \<Rightarrow> string \<Rightarrow> string \<Rightarrow> claimant \<Rightarrow> nat \<Rightarrow> claim_event \<times> nat" where
  "createClaimNoteAddedEvent clk k claimId issueId note addedBy =
     createClaimEvent clk (k + 1) T_claim_note_added claimId
       (ClaimNoteAdded claimId issueId note (clk k) addedBy)"

definition createHandoffRequestedEvent ::
    "clock \<Rightarrow> nat \<Rightarrow> string \<Rightarrow> string \<Rightarrow> string \<Rightarrow> claimant \<Rightarrow> claimant \<Rightarrow> string \<Rightarrow> nat
      \<Rightarrow> claim_event \<times> nat" where
  "createHandoffRequestedEvent clk k claimId issueId handoffId from to reason =
     createClaimEvent clk (k + 1) T_handoff_requested claimId
       (HandoffRequested claimId issueId handoffId from to reason (clk k))"

definition createHandoffAcceptedEvent ::
    "clock \<Rightarrow> nat \<Rightarrow> string \<Rightarrow> string \<Rightarrow> string \<Rightarrow> claimant \<Rightarrow> claimant \<Rightarrow> nat
      \<Rightarrow> claim_event \<times> nat" where
  "createHandoffAcceptedEvent clk k claimId issueId handoffId from to =
     createClaimEvent clk (k + 1) T_handoff_accepted claimId
       (HandoffAccepted claimId issueId handoffId from to (clk k))"

definition createHandoffRejectedEvent ::
    "clock \<Rightarrow> nat \<Rightarrow> string \<Rightarrow> string \<Rightarrow> string \<Rightarrow> claimant \<Rightarrow> claimant \<Rightarrow> string \<Rightarrow> nat
      \<Rightarrow> claim_event \<times> nat" where
  "createHandoffRejectedEvent clk k claimId issueId handoffId from to reason =
     createClaimEvent clk (k + 1) T_handoff_rejected claimId
       (HandoffRejected claimId issueId handoffId from to (clk k) reason)"

definition createReviewRequestedEvent ::
    "clock \<Rightarrow> nat \<Rightarrow> string \<Rightarrow> string \<Rightarrow> claimant list \<Rightarrow> claimant \<Rightarrow> nat \<Rightarrow> claim_event \<times> nat" where
  "createReviewRequestedEvent clk k claimId issueId reviewers requestedBy =
     createClaimEvent clk (k + 1) T_review_requested claimId
       (ReviewRequested claimId issueId reviewers (clk k) requestedBy)"

definition createReviewCompletedEvent ::
    "clock \<Rightarrow> nat \<Rightarrow> string \<Rightarrow> string \<Rightarrow> claimant \<Rightarrow> bool \<Rightarrow> string option \<Rightarrow> nat
      \<Rightarrow> claim_event \<times> nat" where
  "createReviewCompletedEvent clk k claimId issueId reviewer approved comments =
     createClaimEvent clk (k + 1) T_review_completed claimId
       (ReviewCompleted claimId issueId reviewer approved (clk k) comments)"

lemmas event_factory_defs =
  createClaimCreatedEvent_def createClaimReleasedEvent_def createClaimExpiredEvent_def
  createClaimStatusChangedEvent_def createClaimNoteAddedEvent_def createHandoffRequestedEvent_def
  createHandoffAcceptedEvent_def createHandoffRejectedEvent_def createReviewRequestedEvent_def
  createReviewCompletedEvent_def

text \<open>A factory stamps the aggregate and the payload, and advances the counter by one.\<close>

lemma createClaimEvent_fields:
  "ev_aggregateId (fst (createClaimEvent clk k ty a p c)) = a"
  "ev_payload (fst (createClaimEvent clk k ty a p c)) = p"
  "snd (ev_id (fst (createClaimEvent clk k ty a p c))) = Suc c"
  "snd (createClaimEvent clk k ty a p c) = Suc c"
  by (simp_all add: createClaimEvent_def generateEventId_def)

end
