(* ===== verification/EventStore.thy ===== *)
theory EventStore
  imports ClaimEvents
begin

text \<open>
  Model of \<open>claims/src/infrastructure/event-store.ts\<close>: the append-only in-memory event store
  with per-aggregate versions, subscriptions, snapshots and statistics. Handlers are client
  code: the calls made to them are recorded in \<open>es_deliveries\<close> (their exceptions are caught by
  the store), and they do not call back into the store. The invariant is that the versions of
  an aggregate's events are \<open>1, 2, ..., n\<close>; from it follows that state rebuilt from a correct
  snapshot equals state rebuilt from the whole history.
\<close>

section \<open>Definitions\<close>

record event_subscription =
  sub_id :: nat
  sub_eventTypes :: "claim_event_type list"

text \<open>\<open>'s\<close> is the type of snapshot states.\<close>

record 's event_store =
  es_events :: "claim_event list"
  es_aggregateVersions :: "(string, nat) jsmap"
  es_subscriptions :: "event_subscription list"
  es_nextSubscriptionId :: nat
  es_snapshots :: "(string, 's \<times> nat) jsmap"
  es_deliveries :: "(nat \<times> claim_event) list"

definition new_event_store :: "'s event_store" where
  "new_event_store =
     \<lparr>es_events = [], es_aggregateVersions = [], es_subscriptions = [],
      es_nextSubscriptionId = 0, es_snapshots = [], es_deliveries = []\<rparr>"

definition es_shutdown :: "'s event_store \<Rightarrow> 's event_store" where
  "es_shutdown s = s\<lparr>es_events := [], es_aggregateVersions := [], es_subscriptions := []\<rparr>"

definition notifySubscribers :: "claim_event \<Rightarrow> 's event_store \<Rightarrow> 's event_store" where
  "notifySubscribers event s =
     s\<lparr>es_deliveries := es_deliveries s @
        map (\<lambda>sub. (sub_id sub, event))
          (filter (\<lambda>sub. sub_eventTypes sub = [] \<or> ev_type event \<in> set (sub_eventTypes sub))
             (es_subscriptions s))\<rparr>"

definition es_append :: "claim_event \<Rightarrow> 's event_store \<Rightarrow> 's event_store" where
  "es_append event s =
     (let currentVersion = nullish (jget (es_aggregateVersions s) (ev_aggregateId event)) 0;
          newVersion = currentVersion + 1;
          event' = event\<lparr>ev_version := newVersion\<rparr>
      in notifySubscribers event'
           (s\<lparr>es_events := es_events s @ [event'],
              es_aggregateVersions :=
                jset (ev_aggregateId event) newVersion (es_aggregateVersions s)\<rparr>))"

definition es_appendBatch :: "claim_event list \<Rightarrow> 's event_store \<Rightarrow> 's event_store" where
  "es_appendBatch events s = fold es_append events s"

definition es_getEvents :: "'s event_store \<Rightarrow> string \<Rightarrow> nat option \<Rightarrow> claim_event list" where
  "es_getEvents s claimId fromVersion =
     filter (\<lambda>e. ev_aggregateId e = claimId
                \<and> (case fromVersion of None \<Rightarrow> True | Some v \<Rightarrow> ev_version e \<ge> v)) (es_events s)"

definition es_getEventsByType :: "'s event_store \<Rightarrow> claim_event_type \<Rightarrow> claim_event list" where
  "es_getEventsByType s ty = filter (\<lambda>e. ev_type e = ty) (es_events s)"

definition es_getEventsByIssueId :: "'s event_store \<Rightarrow> string \<Rightarrow> claim_event list" where
  "es_getEventsByIssueId s issueId = filter (\<lambda>e. p_issueId (ev_payload e) = issueId) (es_events s)"

record event_filter =
  ef_aggregateId :: "string option"
  ef_eventTypes :: "claim_event_type list option"
  ef_fromTimestamp :: "time option"
  ef_toTimestamp :: "time option"
  ef_fromVersion :: "nat option"
  ef_toVersion :: "nat option"
  ef_limit :: "int option"
  ef_offset :: "int option"

definition es_query :: "'s event_store \<Rightarrow> event_filter \<Rightarrow> claim_event list" where
  "es_query s f =
     (let r0 = es_events s;
          r1 = (if truthy (ef_aggregateId f)
                then filter (\<lambda>e. Some (ev_aggregateId e) = ef_aggregateId f) r0 else r0);
          r2 = (if nullish (ef_eventTypes f) [] \<noteq> []
                then filter (\<lambda>e. ev_type e \<in> set (nullish (ef_eventTypes f) [])) r1 else r1);
          r3 = opt_filter (ef_fromTimestamp f) (\<lambda>t e. ev_timestamp e \<ge> t) r2;
          r4 = opt_filter (ef_toTimestamp f) (\<lambda>t e. ev_timestamp e \<le> t) r3;
          r5 = opt_filter (ef_fromVersion f) (\<lambda>v e. ev_version e \<ge> v) r4;
          r6 = opt_filter (ef_toVersion f) (\<lambda>v e. ev_version e \<le> v) r5
      in paginate (ef_offset f) (ef_limit f) r6)"

definition es_subscribe ::
    "claim_event_type list \<Rightarrow> 's event_store \<Rightarrow> nat \<times> 's event_store" where
  "es_subscribe eventTypes s =
     (let n = Suc (es_nextSubscriptionId s)
      in (n, s\<lparr>es_nextSubscriptionId := n,
               es_subscriptions := es_subscriptions s @
                 [\<lparr>sub_id = n, sub_eventTypes = eventTypes\<rparr>]\<rparr>))"

definition es_subscribeAll :: "'s event_store \<Rightarrow> nat \<times> 's event_store" where
  "es_subscribeAll s = es_subscribe [] s"

text \<open>The closure \<open>subscribe\<close> returns: it removes the first subscription with its id.\<close>

fun remove_sub :: "nat \<Rightarrow> event_subscription list \<Rightarrow> event_subscription list" where
  "remove_sub n [] = []"
| "remove_sub n (x # xs) = (if sub_id x = n then xs else x # remove_sub n xs)"

definition es_unsubscribe :: "nat \<Rightarrow> 's event_store \<Rightarrow> 's event_store" where
  "es_unsubscribe n s = s\<lparr>es_subscriptions := remove_sub n (es_subscriptions s)\<rparr>"

definition es_getAggregateVersion :: "'s event_store \<Rightarrow> string \<Rightarrow> nat" where
  "es_getAggregateVersion s a = nullish (jget (es_aggregateVersions s) a) 0"

definition es_getAggregateState ::
    "'s event_store \<Rightarrow> string \<Rightarrow> ('s \<Rightarrow> claim_event \<Rightarrow> 's) \<Rightarrow> 's \<Rightarrow> 's" where
  "es_getAggregateState s aggregateId reducer initialState =
     foldl reducer initialState (es_getEvents s aggregateId None)"

definition es_saveSnapshot :: "string \<Rightarrow> 's \<Rightarrow> nat \<Rightarrow> 's event_store \<Rightarrow> 's event_store" where
  "es_saveSnapshot aggregateId st version s =
     s\<lparr>es_snapshots := jset aggregateId (st, version) (es_snapshots s)\<rparr>"

definition es_getSnapshot :: "'s event_store \<Rightarrow> string \<Rightarrow> ('s \<times> nat) option" where
  "es_getSnapshot s aggregateId = jget (es_snapshots s) aggregateId"

definition es_getStateFromSnapshot ::
    "'s event_store \<Rightarrow> string \<Rightarrow> ('s \<Rightarrow> claim_event \<Rightarrow> 's) \<Rightarrow> 's \<Rightarrow> 's" where
  "es_getStateFromSnapshot s aggregateId reducer initialState =
     (let (st, fromVersion) =
            (case es_getSnapshot s aggregateId of
               Some (st, version) \<Rightarrow> (st, version + 1)
             | None \<Rightarrow> (initialState, 1))
      in foldl reducer st (es_getEvents s aggregateId (Some fromVersion)))"

definition es_getEventCount :: "'s event_store \<Rightarrow> nat" where
  "es_getEventCount s = length (es_events s)"

definition es_getEventCountByType :: "'s event_store \<Rightarrow> (claim_event_type, nat) jsmap" where
  "es_getEventCountByType s = fold (\<lambda>e. tally (ev_type e)) (es_events s) []"

definition es_getAggregateCount :: "'s event_store \<Rightarrow> nat" where
  "es_getAggregateCount s = length (es_aggregateVersions s)"

section \<open>The version invariant\<close>

definition aggregate_events :: "'s event_store \<Rightarrow> string \<Rightarrow> claim_event list" where
  "aggregate_events s a = filter (\<lambda>e. ev_aggregateId e = a) (es_events s)"

definition es_wf :: "'s event_store \<Rightarrow> bool" where
  "es_wf s \<longleftrightarrow> (\<forall>a. map ev_version (aggregate_events s a) = [1..<Suc (es_getAggregateVersion s a)])"

lemma es_append_fields [simp]:
  "es_snapshots (es_append e s) = es_snapshots s"
  "es_subscriptions (es_append e s) = es_subscriptions s"
  by (simp_all add: es_append_def notifySubscribers_def Let_def)

lemma es_append_events:
  "es_events (es_append e s) =
     es_events s @ [e\<lparr>ev_version := Suc (es_getAggregateVersion s (ev_aggregateId e))\<rparr>]"
  by (simp add: es_append_def notifySubscribers_def Let_def es_getAggregateVersion_def)

lemma es_append_version:
  "es_getAggregateVersion (es_append e s) a =
     es_getAggregateVersion s a + (if a = ev_aggregateId e then 1 else 0)"
  by (simp add: es_append_def notifySubscribers_def Let_def es_getAggregateVersion_def)

lemma aggregate_events_append:
  "aggregate_events (es_append e s) a = aggregate_events s a @
     (if ev_aggregateId e = a then [e\<lparr>ev_version := Suc (es_getAggregateVersion s a)\<rparr>] else [])"
  by (auto simp: aggregate_events_def es_append_events)

lemma es_wf_new [simp]: "es_wf new_event_store"
  by (simp add: es_wf_def new_event_store_def aggregate_events_def es_getAggregateVersion_def)

lemma es_wf_append: "es_wf s \<Longrightarrow> es_wf (es_append e s)"
  by (auto simp: es_wf_def aggregate_events_append es_append_version)

interpretation es_system: invariant_system es_append es_wf
  by unfold_locales (rule es_wf_append)

lemma es_wf_subscribe: "es_wf s \<Longrightarrow> es_wf (snd (es_subscribe tys s))"
  by (simp add: es_wf_def es_subscribe_def Let_def aggregate_events_def es_getAggregateVersion_def)

lemma es_wf_unsubscribe: "es_wf s \<Longrightarrow> es_wf (es_unsubscribe n s)"
  by (simp add: es_wf_def es_unsubscribe_def aggregate_events_def es_getAggregateVersion_def)

lemma es_wf_snapshot: "es_wf s \<Longrightarrow> es_wf (es_saveSnapshot a st v s)"
  by (simp add: es_wf_def es_saveSnapshot_def aggregate_events_def es_getAggregateVersion_def)

lemma es_wf_shutdown: "es_wf (es_shutdown s)"
  by (simp add: es_wf_def es_shutdown_def aggregate_events_def es_getAggregateVersion_def)

section \<open>Reading a suffix of the history\<close>

lemma filter_ge_drop:
  "map f xs = [m..<n] \<Longrightarrow> filter (\<lambda>x. v \<le> f x) xs = drop (v - m) xs" for f :: "'a \<Rightarrow> nat"
proof (induction xs arbitrary: m)
  case (Cons x xs)
  then have "[m..<n] = f x # map f xs" by simp
  then have x: "f x = m" and xs: "map f xs = [Suc m..<n]"
    by (auto simp: upt_eq_Cons_conv)
  have all: "\<forall>y \<in> set xs. m < f y"
  proof
    fix y assume "y \<in> set xs"
    then have "f y \<in> set (map f xs)" by simp
    then show "m < f y" by (simp add: xs)
  qed
  show ?case
  proof (cases "v \<le> m")
    case True
    with all x show ?thesis by (auto intro!: filter_True)
  next
    case False
    then have "v - m = Suc (v - Suc m)" by simp
    with False x Cons.IH [OF xs] show ?thesis by simp
  qed
qed simp

lemma getEvents_all: "es_getEvents s a None = aggregate_events s a"
  by (simp add: es_getEvents_def aggregate_events_def)

lemma getEvents_from:
  assumes "es_wf s"
  shows "es_getEvents s a (Some v) = drop (v - 1) (aggregate_events s a)"
proof -
  have "es_getEvents s a (Some v) = filter (\<lambda>e. v \<le> ev_version e) (aggregate_events s a)"
    by (auto simp: es_getEvents_def aggregate_events_def intro: filter_cong)
  moreover have "map ev_version (aggregate_events s a) = [1..<Suc (es_getAggregateVersion s a)]"
    using assms by (simp add: es_wf_def)
  ultimately show ?thesis by (simp only: filter_ge_drop)
qed

lemma length_aggregate_events: "es_wf s \<Longrightarrow> length (aggregate_events s a) = es_getAggregateVersion s a"
  by (metis add_diff_cancel_left' es_wf_def length_map length_upt plus_1_eq_Suc)

text \<open>A snapshot is sound when its state is the reduction of the first \<open>version\<close> events.\<close>

definition snapshot_sound ::
    "'s event_store \<Rightarrow> string \<Rightarrow> ('s \<Rightarrow> claim_event \<Rightarrow> 's) \<Rightarrow> 's \<Rightarrow> bool" where
  "snapshot_sound s a reducer initialState \<longleftrightarrow>
     (case es_getSnapshot s a of
        None \<Rightarrow> True
      | Some (st, version) \<Rightarrow>
          st = foldl reducer initialState (take version (aggregate_events s a)))"

lemma foldl_take_drop: "foldl f (foldl f s (take n xs)) (drop n xs) = foldl f s xs"
  by (metis append_take_drop_id foldl_append)

lemma snapshot_state:
  assumes "es_wf s" and "snapshot_sound s a reducer init"
  shows "es_getStateFromSnapshot s a reducer init = es_getAggregateState s a reducer init"
proof (cases "es_getSnapshot s a")
  case None
  then show ?thesis
    by (simp add: es_getStateFromSnapshot_def es_getAggregateState_def getEvents_all
        getEvents_from [OF assms(1)])
next
  case (Some p)
  obtain st v where p: "p = (st, v)" by (cases p)
  with Some assms(2) show ?thesis
    by (simp add: es_getStateFromSnapshot_def es_getAggregateState_def getEvents_all
        getEvents_from [OF assms(1)] snapshot_sound_def foldl_take_drop)
qed

section \<open>The interface of an event log\<close>

text \<open>
  The service sees an event store through \<open>append\<close> only. \<open>log s a\<close> is the abstract content: the
  payloads appended for aggregate \<open>a\<close>, in order.
\<close>

record 'e event_store_ops =
  eo_append :: "claim_event \<Rightarrow> 'e \<Rightarrow> 'e"

definition in_memory_events :: "'s event_store event_store_ops" where
  "in_memory_events = \<lparr>eo_append = es_append\<rparr>"

locale event_log =
  fixes E :: "'e event_store_ops"
    and log :: "'e \<Rightarrow> string \<Rightarrow> event_payload list"
    and ewf :: "'e \<Rightarrow> bool"
  assumes log_append: "ewf e \<Longrightarrow> log (eo_append E ev e) a =
      log e a @ (if ev_aggregateId ev = a then [ev_payload ev] else [])"
    and ewf_append: "ewf e \<Longrightarrow> ewf (eo_append E ev e)"
begin

lemma log_append_other: "ewf e \<Longrightarrow> ev_aggregateId ev \<noteq> a \<Longrightarrow> log (eo_append E ev e) a = log e a"
  by (simp add: log_append)

lemma log_append_all:
  "ewf e \<Longrightarrow> log (fold (eo_append E) evs e) a =
     log e a @ map ev_payload (filter (\<lambda>ev. ev_aggregateId ev = a) evs)"
  by (induction evs arbitrary: e) (auto simp: log_append ewf_append)

end

definition es_log :: "'s event_store \<Rightarrow> string \<Rightarrow> event_payload list" where
  "es_log s a = map ev_payload (aggregate_events s a)"

interpretation in_memory_log: event_log in_memory_events es_log es_wf
  by unfold_locales
    (auto simp: in_memory_events_def es_log_def aggregate_events_append es_wf_append)

section \<open>Properties\<close>

text \<open>
  The calls of clients that take a snapshot with the state and the version of that moment; \<open>reducer\<close> and \<open>init\<close> are theirs.
\<close>

datatype es_op =
    EAppend claim_event
  | EAppendBatch "claim_event list"
  | ESubscribe "claim_event_type list"
  | EUnsubscribe nat
  | ESnapshot string

fun es_step :: "('s \<Rightarrow> claim_event \<Rightarrow> 's) \<Rightarrow> 's \<Rightarrow> es_op \<Rightarrow> 's event_store \<Rightarrow> 's event_store" where
  "es_step reducer init (EAppend e) s = es_append e s"
| "es_step reducer init (EAppendBatch es) s = es_appendBatch es s"
| "es_step reducer init (ESubscribe types) s = snd (es_subscribe types s)"
| "es_step reducer init (EUnsubscribe n) s = es_unsubscribe n s"
| "es_step reducer init (ESnapshot a) s =
     es_saveSnapshot a (es_getAggregateState s a reducer init) (es_getAggregateVersion s a) s"

definition snapshots_inv :: "('s \<Rightarrow> claim_event \<Rightarrow> 's) \<Rightarrow> 's \<Rightarrow> 's event_store \<Rightarrow> bool" where
  "snapshots_inv reducer init s \<longleftrightarrow> es_wf s \<and>
     (\<forall>a st v. es_getSnapshot s a = Some (st, v) \<longrightarrow>
        v \<le> length (aggregate_events s a) \<and> st = foldl reducer init (take v (aggregate_events s a)))"

lemma snapshots_inv_append: "snapshots_inv reducer init s \<Longrightarrow> snapshots_inv reducer init (es_append e s)"
  by (auto simp: snapshots_inv_def es_wf_append es_getSnapshot_def aggregate_events_append le_SucI)

lemma snapshots_inv_batch: "snapshots_inv reducer init s \<Longrightarrow> snapshots_inv reducer init (fold es_append es s)"
  by (induction es arbitrary: s) (auto simp: snapshots_inv_append)

lemma snapshots_inv_taken:
  assumes "snapshots_inv reducer init s"
  shows "snapshots_inv reducer init
    (es_saveSnapshot a (es_getAggregateState s a reducer init) (es_getAggregateVersion s a) s)"
proof -
  have "length (aggregate_events s a) = es_getAggregateVersion s a"
    using assms by (simp add: snapshots_inv_def length_aggregate_events)
  then show ?thesis
    using assms es_wf_snapshot [of s]
    by (auto simp: snapshots_inv_def es_getSnapshot_def es_saveSnapshot_def aggregate_events_def es_getAggregateState_def
        es_getEvents_def split: if_splits)
qed

interpretation snapshots: invariant_system "es_step reducer init" "snapshots_inv reducer init" for reducer init
proof unfold_locales
  fix s a assume "snapshots_inv reducer init s"
  then show "snapshots_inv reducer init (es_step reducer init a s)"
  proof (cases a)
    case (ESubscribe types)
    have "aggregate_events (snd (es_subscribe types s)) = aggregate_events s" "es_getSnapshot (snd (es_subscribe types s)) = es_getSnapshot s"
      by (simp_all add: es_subscribe_def Let_def aggregate_events_def es_getSnapshot_def fun_eq_iff)
    then show ?thesis
      using ESubscribe \<open>snapshots_inv reducer init s\<close> es_wf_subscribe [of s types] by (simp add: snapshots_inv_def)
  next
    case (EUnsubscribe n)
    have "aggregate_events (es_unsubscribe n s) = aggregate_events s" "es_getSnapshot (es_unsubscribe n s) = es_getSnapshot s"
      by (simp_all add: es_unsubscribe_def aggregate_events_def es_getSnapshot_def fun_eq_iff)
    then show ?thesis
      using EUnsubscribe \<open>snapshots_inv reducer init s\<close> es_wf_unsubscribe [of s n] by (simp add: snapshots_inv_def)
  qed (simp_all add: snapshots_inv_append snapshots_inv_batch snapshots_inv_taken es_appendBatch_def)
qed

lemma new_store_inv: "snapshots_inv reducer init new_event_store"
  by (simp add: snapshots_inv_def es_getSnapshot_def) (simp add: new_event_store_def)

text \<open>
  C31. Rebuilding from a snapshot is rebuilding from the start. After any sequence of appends, batches, subscriptions and snapshots,
  each snapshot taken with the state and version of its moment, the in-memory store gives for every aggregate the same state from
  its snapshot and the later events as from all its events. The store numbers the events of an aggregate without gaps.
\<close>

theorem snapshot_replay_equivalent:
  assumes "s = run (es_step reducer init) ops new_event_store"
  shows "es_getStateFromSnapshot s a reducer init = es_getAggregateState s a reducer init \<and>
    map ev_version (es_getEvents s a None) = [1..<Suc (es_getAggregateVersion s a)]"
proof -
  have inv: "snapshots_inv reducer init s"
    unfolding assms by (rule snapshots.run_inv [OF new_store_inv])
  then have "snapshot_sound s a reducer init"
    by (auto simp: snapshots_inv_def snapshot_sound_def split: option.split)
  then show ?thesis
    using snapshot_state [of s a reducer init] inv by (simp add: snapshots_inv_def es_wf_def getEvents_all)
qed

text \<open>Three events of one aggregate with a snapshot after the second; the reducer collects the versions.\<close>

definition demo_claim_event :: "string \<Rightarrow> claim_event" where
  "demo_claim_event a = \<lparr>ev_id = (0, 0), ev_type = T_claim_status_changed, ev_aggregateId = a, ev_version = 0, ev_timestamp = 0, ev_source = [],
     ev_payload = ClaimStatusChanged a ''i'' Active Paused 0 None, ev_federation = None\<rparr>"

definition demo_es_ops :: "es_op list" where
  "demo_es_ops = [EAppend (demo_claim_event ''c''), EAppend (demo_claim_event ''d''), EAppend (demo_claim_event ''c''), ESnapshot ''c'',
     EAppend (demo_claim_event ''c'')]"

theorem snapshot_replay_equivalent_witness:
  "\<exists>s. s = run (es_step (\<lambda>vs e. vs @ [ev_version e]) []) demo_es_ops new_event_store \<and>
     es_getSnapshot s ''c'' = Some ([1, 2], 2) \<and> es_getStateFromSnapshot s ''c'' (\<lambda>vs e. vs @ [ev_version e]) [] = [1, 2, 3] \<and>
     es_getAggregateState s ''c'' (\<lambda>vs e. vs @ [ev_version e]) [] = [1, 2, 3]"
proof -
  define s where "s = run (es_step (\<lambda>vs e. vs @ [ev_version e]) []) demo_es_ops new_event_store"
  have "es_getSnapshot s ''c'' = Some ([1, 2], 2)" "es_getAggregateState s ''c'' (\<lambda>vs e. vs @ [ev_version e]) [] = [1, 2, 3]"
    unfolding s_def by code_simp+
  then show ?thesis
    using snapshot_replay_equivalent [OF s_def, of "''c''"] s_def by simp
qed

text \<open>
  \<open>shutdown\<close> empties the events and versions but not the snapshots: a store used again after it rebuilds from the snapshot of the
  previous life.
\<close>

lemma snapshot_survives_shutdown:
  "let s = es_append (demo_claim_event ''c'') (es_shutdown (run (es_step (\<lambda>n e. n + 1) 0) demo_es_ops new_event_store))
   in es_getAggregateState s ''c'' (\<lambda>n e. n + 1) 0 = (1 :: nat) \<and> es_getStateFromSnapshot s ''c'' (\<lambda>n e. n + 1) 0 = 2"
  by code_simp

end
