(* ===== verification/ClaimService.thy ===== *)
theory ClaimService
  imports ClaimRepository EventStore
begin

text \<open>
  Model of \<open>claims/src/application/claim-service.ts\<close>. The service talks to a claim repository and
  an event store through their interfaces; both are passed as records of operations, and the
  issue and claimant repositories, which are not part of the package, are the fields of
  \<open>externals\<close>. A handler is a function from the state of the two stores to a result (\<open>Inl\<close> the
  code of the error it throws or returns) and the new state. Handlers run to completion one
  after the other: two handlers that overlap at an await are not modelled, nor is an append that rejects.

  The lemmas are proved once, in the locale \<open>claim_service\<close>, against the laws of the interfaces
  \<open>claim_repository\<close> and \<open>event_log\<close>. The main result is that the event log of a claim, replayed
  from the start, gives the stored claim.
\<close>

section \<open>Definitions\<close>

text \<open>The collaborators outside the package, and the ISO rendering of a date.\<close>

record externals =
  issue_findById :: "string \<Rightarrow> issue option"
  claimant_findById :: "string \<Rightarrow> claimant option"
  claimant_exists :: "string \<Rightarrow> bool"
  toISOString :: "time \<Rightarrow> string"

text \<open>The state a handler works on; the last field is the module variable \<open>eventCounter\<close>.\<close>

record ('r, 'e) claim_svc =
  sv_repo :: 'r
  sv_events :: 'e
  sv_counter :: nat

text \<open>
  \<open>await this.eventStore.append(create...Event(...))\<close>. The append of the in-memory store never rejects: it
  awaits only its subscribers, whose errors it catches. A log whose append can reject, as that of a federated
  store whose publish fails, would leave the saved claim without its event; the handlers here are those
  on a log that accepts every event, and the failing append is \<open>FederatedStore.fed_append\<close>.
\<close>

definition emit ::
    "'e event_store_ops \<Rightarrow> (nat \<Rightarrow> claim_event \<times> nat) \<Rightarrow> ('r, 'e) claim_svc \<Rightarrow> ('r, 'e) claim_svc" where
  "emit E mk s =
     (let (ev, n) = mk (sv_counter s)
      in s\<lparr>sv_events := eo_append E ev (sv_events s), sv_counter := n\<rparr>)"

text \<open>\<open>await this.claimRepository.save(claim)\<close>\<close>

definition save :: "'r claim_repo_ops \<Rightarrow> issue_claim \<Rightarrow> ('r, 'e) claim_svc \<Rightarrow> ('r, 'e) claim_svc" where
  "save R c s = s\<lparr>sv_repo := rp_save R c (sv_repo s)\<rparr>"

definition pending :: "handoff_record \<Rightarrow> bool" where
  "pending h \<longleftrightarrow> ho_status h = HPending"

definition pending_for :: "claimant \<Rightarrow> handoff_record \<Rightarrow> bool" where
  "pending_for claimant h \<longleftrightarrow> ho_status h = HPending \<and> ct_id (ho_to h) = ct_id claimant"

text \<open>\<open>issue.requiredCapabilities\<close> that the claimant lacks.\<close>

definition missingCapabilities :: "issue \<Rightarrow> claimant \<Rightarrow> string list" where
  "missingCapabilities iss claimant =
     filter (\<lambda>cap. cap \<notin> set (nullish (ct_capabilities claimant) []))
       (nullish (is_requiredCapabilities iss) [])"

text \<open>
  \<open>claim\<close>: the uuid that \<open>randomUUID\<close> returns is an argument. The repository stores the claim
  object itself and fills in its progress, so that the object the handler returns has it too.
\<close>

definition claim ::
    "'r claim_repo_ops \<Rightarrow> 'e event_store_ops \<Rightarrow> externals \<Rightarrow> clock \<Rightarrow> string \<Rightarrow> string \<Rightarrow> claimant
      \<Rightarrow> ('r, 'e) claim_svc \<Rightarrow> (claim_error_code + issue_claim) \<times> ('r, 'e) claim_svc" where
  "claim R E X clk uuid issueId claimant s =
     (case issue_findById X issueId of
        None \<Rightarrow> (Inl ISSUE_NOT_FOUND, s)
      | Some iss \<Rightarrow>
          if (case rp_findByIssueId R (sv_repo s) issueId of
                None \<Rightarrow> False | Some existing \<Rightarrow> cl_status existing = Active)
          then (Inl ALREADY_CLAIMED, s)
          else if int (rp_countByClaimant R (sv_repo s) (ct_id claimant))
                    \<ge> nullish (ct_maxConcurrentClaims claimant) 5
          then (Inl MAX_CLAIMS_EXCEEDED, s)
          else if missingCapabilities iss claimant \<noteq> []
          then (Inl CAPABILITY_MISMATCH, s)
          else
            let now = clk 0;
                claimId = ''claim-'' @ uuid;
                c = \<lparr>cl_id = claimId, cl_issueId = issueId, cl_claimant = claimant,
                     cl_status = Active, cl_claimedAt = now, cl_lastActivityAt = now,
                     cl_notes = Some [], cl_handoffChain = Some [], cl_reviewers = Some [],
                     cl_repository = None, cl_progress = None, cl_blockedReason = None,
                     cl_blockedAt = None, cl_stealableAt = None, cl_stealInfo = None,
                     cl_contestInfo = None\<rparr>
            in (Inr (ensureFullClaim c),
                emit E (createClaimCreatedEvent clk 1 claimId issueId claimant None) (save R c s)))"

definition release ::
    "'r claim_repo_ops \<Rightarrow> 'e event_store_ops \<Rightarrow> clock \<Rightarrow> string \<Rightarrow> claimant
      \<Rightarrow> ('r, 'e) claim_svc \<Rightarrow> (claim_error_code + unit) \<times> ('r, 'e) claim_svc" where
  "release R E clk issueId claimant s =
     (case rp_findByIssueId R (sv_repo s) issueId of
        None \<Rightarrow> (Inl NOT_CLAIMED, s)
      | Some c \<Rightarrow>
          if ct_id (cl_claimant c) \<noteq> ct_id claimant then (Inl UNAUTHORIZED, s)
          else if find pending (chain c) \<noteq> None then (Inl HANDOFF_PENDING, s)
          else
            let previousStatus = cl_status c;
                c' = c\<lparr>cl_status := Released, cl_lastActivityAt := clk 0\<rparr>;
                s' = emit E (createClaimReleasedEvent clk 1 (cl_id c) issueId claimant None) (save R c' s)
            in (Inr (),
                if previousStatus \<noteq> Released
                then emit E (createClaimStatusChangedEvent clk 4 (cl_id c) issueId
                               previousStatus Released None) s'
                else s'))"

definition requestHandoff ::
    "'r claim_repo_ops \<Rightarrow> 'e event_store_ops \<Rightarrow> externals \<Rightarrow> clock \<Rightarrow> string \<Rightarrow> string \<Rightarrow> claimant
      \<Rightarrow> claimant \<Rightarrow> string \<Rightarrow> ('r, 'e) claim_svc \<Rightarrow> (claim_error_code + unit) \<times> ('r, 'e) claim_svc" where
  "requestHandoff R E X clk uuid issueId from to reason s =
     (case rp_findByIssueId R (sv_repo s) issueId of
        None \<Rightarrow> (Inl NOT_CLAIMED, s)
      | Some c \<Rightarrow>
          if ct_id (cl_claimant c) \<noteq> ct_id from then (Inl UNAUTHORIZED, s)
          else if find pending (chain c) \<noteq> None then (Inl HANDOFF_PENDING, s)
          else if claimant_findById X (ct_id to) = None then (Inl CLAIMANT_NOT_FOUND, s)
          else
            let handoffId = ''handoff-'' @ uuid;
                handoffRecord = \<lparr>ho_id = handoffId, ho_from = from, ho_to = to, ho_reason = reason,
                                 ho_status = HPending, ho_requestedAt = clk 0,
                                 ho_resolvedAt = None, ho_rejectionReason = None\<rparr>;
                c' = c\<lparr>cl_handoffChain := Some (chain c @ [handoffRecord]),
                       cl_status := PendingHandoff, cl_lastActivityAt := clk 1\<rparr>
            in (Inr (),
                emit E (createClaimStatusChangedEvent clk 5 (cl_id c) issueId Active PendingHandoff None)
                  (emit E (createHandoffRequestedEvent clk 2 (cl_id c) issueId handoffId from to reason)
                    (save R c' s))))"

definition acceptHandoff ::
    "'r claim_repo_ops \<Rightarrow> 'e event_store_ops \<Rightarrow> clock \<Rightarrow> string \<Rightarrow> claimant
      \<Rightarrow> ('r, 'e) claim_svc \<Rightarrow> (claim_error_code + unit) \<times> ('r, 'e) claim_svc" where
  "acceptHandoff R E clk issueId claimant s =
     (case rp_findByIssueId R (sv_repo s) issueId of
        None \<Rightarrow> (Inl NOT_CLAIMED, s)
      | Some c \<Rightarrow>
          (case find (pending_for claimant) (chain c) of
             None \<Rightarrow> (Inl HANDOFF_NOT_FOUND, s)
           | Some h \<Rightarrow>
               if int (rp_countByClaimant R (sv_repo s) (ct_id claimant))
                    \<ge> nullish (ct_maxConcurrentClaims claimant) 5
               then (Inl MAX_CLAIMS_EXCEEDED, s)
               else
                 let resolve = (\<lambda>h. h\<lparr>ho_status := HAccepted, ho_resolvedAt := Some (clk 0)\<rparr>);
                     previousClaimant = cl_claimant c;
                     c' = c\<lparr>cl_handoffChain := Some (upd_first (pending_for claimant) resolve (chain c)),
                            cl_claimant := claimant, cl_status := Active,
                            cl_lastActivityAt := clk 1\<rparr>
                 in (Inr (),
                     emit E (createClaimStatusChangedEvent clk 5 (cl_id c) issueId
                               PendingHandoff Active None)
                       (emit E (createHandoffAcceptedEvent clk 2 (cl_id c) issueId (ho_id h)
                                  previousClaimant claimant)
                         (save R c' s)))))"

definition rejectHandoff ::
    "'r claim_repo_ops \<Rightarrow> 'e event_store_ops \<Rightarrow> clock \<Rightarrow> string \<Rightarrow> claimant \<Rightarrow> string
      \<Rightarrow> ('r, 'e) claim_svc \<Rightarrow> (claim_error_code + unit) \<times> ('r, 'e) claim_svc" where
  "rejectHandoff R E clk issueId claimant reason s =
     (case rp_findByIssueId R (sv_repo s) issueId of
        None \<Rightarrow> (Inl NOT_CLAIMED, s)
      | Some c \<Rightarrow>
          (case find (pending_for claimant) (chain c) of
             None \<Rightarrow> (Inl HANDOFF_NOT_FOUND, s)
           | Some h \<Rightarrow>
               let resolve = (\<lambda>h. h\<lparr>ho_status := HRejected, ho_resolvedAt := Some (clk 0),
                                   ho_rejectionReason := Some reason\<rparr>);
                   c' = c\<lparr>cl_handoffChain := Some (upd_first (pending_for claimant) resolve (chain c)),
                          cl_status := Active, cl_lastActivityAt := clk 1\<rparr>
               in (Inr (),
                   emit E (createClaimStatusChangedEvent clk 5 (cl_id c) issueId
                             PendingHandoff Active None)
                     (emit E (createHandoffRejectedEvent clk 2 (cl_id c) issueId (ho_id h)
                                (ho_from h) claimant reason)
                       (save R c' s)))))"

fun getValidStatusTransitions :: "claim_status \<Rightarrow> claim_status list" where
  "getValidStatusTransitions Active =
     [PendingHandoff, InReview, Completed, Released, Paused, Blocked, Stealable]"
| "getValidStatusTransitions PendingHandoff = [Active, Released]"
| "getValidStatusTransitions InReview = [Active, Completed, Released]"
| "getValidStatusTransitions Completed = []"
| "getValidStatusTransitions Released = []"
| "getValidStatusTransitions Expired = []"
| "getValidStatusTransitions Paused = [Active, Blocked, Stealable, Completed]"
| "getValidStatusTransitions Blocked = [Active, Paused, Stealable, Completed]"
| "getValidStatusTransitions Stealable = [Active, Completed]"
| "getValidStatusTransitions HandoffPendingX = []"
| "getValidStatusTransitions ReviewRequestedX = []"

definition updateStatus ::
    "'r claim_repo_ops \<Rightarrow> 'e event_store_ops \<Rightarrow> externals \<Rightarrow> clock \<Rightarrow> string \<Rightarrow> claim_status
      \<Rightarrow> string option \<Rightarrow> ('r, 'e) claim_svc \<Rightarrow> (claim_error_code + unit) \<times> ('r, 'e) claim_svc" where
  "updateStatus R E X clk issueId status note s =
     (case rp_findByIssueId R (sv_repo s) issueId of
        None \<Rightarrow> (Inl NOT_CLAIMED, s)
      | Some c \<Rightarrow>
          if status \<notin> set (getValidStatusTransitions (cl_status c))
          then (Inl INVALID_STATUS_TRANSITION, s)
          else
            let previousStatus = cl_status c;
                c1 = c\<lparr>cl_status := status, cl_lastActivityAt := clk 0\<rparr>;
                entry = ''['' @ toISOString X (clk 1) @ ''] Status changed to '' @
                       status_string status @ '': '' @ nullish note [];
                c' = (if truthy note
                      then c1\<lparr>cl_notes := Some (nullish (cl_notes c) [] @ [entry])\<rparr> else c1)
            in (Inr (),
                emit E (createClaimStatusChangedEvent clk (if truthy note then 2 else 1) (cl_id c)
                          issueId previousStatus status note)
                  (save R c' s)))"

text \<open>The loop over the reviewers stops at the first one that does not exist.\<close>

definition requestReview ::
    "'r claim_repo_ops \<Rightarrow> 'e event_store_ops \<Rightarrow> externals \<Rightarrow> clock \<Rightarrow> string \<Rightarrow> claimant list
      \<Rightarrow> ('r, 'e) claim_svc \<Rightarrow> (claim_error_code + unit) \<times> ('r, 'e) claim_svc" where
  "requestReview R E X clk issueId reviewers s =
     (case rp_findByIssueId R (sv_repo s) issueId of
        None \<Rightarrow> (Inl NOT_CLAIMED, s)
      | Some c \<Rightarrow>
          if reviewers = [] then (Inl VALIDATION_ERROR, s)
          else if find (\<lambda>v. \<not> claimant_exists X (ct_id v)) reviewers \<noteq> None
          then (Inl CLAIMANT_NOT_FOUND, s)
          else
            let previousStatus = cl_status c;
                c' = c\<lparr>cl_reviewers := Some reviewers, cl_status := InReview,
                       cl_lastActivityAt := clk 0\<rparr>;
                s' = emit E (createReviewRequestedEvent clk 1 (cl_id c) issueId reviewers
                               (cl_claimant c)) (save R c' s)
            in (Inr (),
                if previousStatus \<noteq> InReview
                then emit E (createClaimStatusChangedEvent clk 4 (cl_id c) issueId
                               previousStatus InReview None) s'
                else s'))"

definition getClaimedBy :: "'r claim_repo_ops \<Rightarrow> claimant \<Rightarrow> ('r, 'e) claim_svc \<Rightarrow> issue_claim list" where
  "getClaimedBy R claimant s = rp_findByClaimant R (sv_repo s) claimant"

record issue_with_claim =
  iw_issue :: issue
  iw_claim :: "issue_claim option"
  iw_pendingHandoffs :: "handoff_record list"

definition getIssueStatus ::
    "'r claim_repo_ops \<Rightarrow> externals \<Rightarrow> string \<Rightarrow> ('r, 'e) claim_svc
      \<Rightarrow> claim_error_code + issue_with_claim" where
  "getIssueStatus R X issueId s =
     (case issue_findById X issueId of
        None \<Rightarrow> Inl ISSUE_NOT_FOUND
      | Some iss \<Rightarrow>
          let c = rp_findByIssueId R (sv_repo s) issueId
          in Inr \<lparr>iw_issue = iss, iw_claim = c,
                  iw_pendingHandoffs =
                    (case c of None \<Rightarrow> [] | Some c \<Rightarrow> filter pending (chain c))\<rparr>)"

text \<open>
  \<open>expireStale\<close>: the claims the repository hands out are distinct objects, so that an iteration
  changes no claim that a later one looks at. The six clock reads of an iteration follow those
  of the iterations before it.
\<close>

fun expire_loop ::
    "'r claim_repo_ops \<Rightarrow> 'e event_store_ops \<Rightarrow> clock \<Rightarrow> nat \<Rightarrow> issue_claim list
      \<Rightarrow> ('r, 'e) claim_svc \<Rightarrow> issue_claim list \<times> ('r, 'e) claim_svc" where
  "expire_loop R E clk k [] s = ([], s)"
| "expire_loop R E clk k (c # cs) s =
     (if cl_status c \<noteq> Active then expire_loop R E clk k cs s
      else
        let previousStatus = cl_status c;
            c' = c\<lparr>cl_status := Expired\<rparr>;
            s1 = emit E (createClaimExpiredEvent clk k (cl_id c) (cl_issueId c) (cl_claimant c)
                           (cl_lastActivityAt c)) (save R c' s);
            s2 = emit E (createClaimStatusChangedEvent clk (k + 3) (cl_id c) (cl_issueId c)
                           previousStatus Expired None) s1;
            (rest, s3) = expire_loop R E clk (k + 6) cs s2
        in (c' # rest, s3))"

definition expireStale ::
    "'r claim_repo_ops \<Rightarrow> 'e event_store_ops \<Rightarrow> clock \<Rightarrow> duration
      \<Rightarrow> ('r, 'e) claim_svc \<Rightarrow> issue_claim list \<times> ('r, 'e) claim_svc" where
  "expireStale R E clk maxAge s =
     expire_loop R E clk 1
       (rp_findStaleClaims R (sv_repo s) (clk 0 - durationToMs maxAge)) s"


section \<open>Calls\<close>

text \<open>A call of a state-changing handler with its arguments.\<close>

datatype service_call =
    CClaim clock string string claimant
  | CRelease clock string claimant
  | CRequestHandoff clock string string claimant claimant string
  | CAcceptHandoff clock string claimant
  | CRejectHandoff clock string claimant string
  | CUpdateStatus clock string claim_status "string option"
  | CRequestReview clock string "claimant list"
  | CExpireStale clock duration

fun perform ::
    "'r claim_repo_ops \<Rightarrow> 'e event_store_ops \<Rightarrow> externals \<Rightarrow> service_call
      \<Rightarrow> ('r, 'e) claim_svc \<Rightarrow> ('r, 'e) claim_svc" where
  "perform R E X (CClaim clk uuid i w) s = snd (claim R E X clk uuid i w s)"
| "perform R E X (CRelease clk i w) s = snd (release R E clk i w s)"
| "perform R E X (CRequestHandoff clk uuid i from to reason) s =
     snd (requestHandoff R E X clk uuid i from to reason s)"
| "perform R E X (CAcceptHandoff clk i w) s = snd (acceptHandoff R E clk i w s)"
| "perform R E X (CRejectHandoff clk i w reason) s = snd (rejectHandoff R E clk i w reason s)"
| "perform R E X (CUpdateStatus clk i st note) s = snd (updateStatus R E X clk i st note s)"
| "perform R E X (CRequestReview clk i vs) s = snd (requestReview R E X clk i vs s)"
| "perform R E X (CExpireStale clk d) s = snd (expireStale R E clk d s)"

text \<open>\<open>randomUUID\<close> gives a claim an id that no stored claim has.\<close>

fun fresh_ids :: "('r \<Rightarrow> string \<Rightarrow> issue_claim option) \<Rightarrow> service_call \<Rightarrow> ('r, 'e) claim_svc \<Rightarrow> bool" where
  "fresh_ids look (CClaim clk uuid i w) s = (look (sv_repo s) (''claim-'' @ uuid) = None)"
| "fresh_ids look call s = True"

section \<open>The specification: replaying events\<close>

text \<open>
  What the log of a claim determines: its issue, status, owner, reviewers and the ids of its
  pending handoffs.
\<close>

record claim_view =
  vw_issueId :: string
  vw_status :: claim_status
  vw_claimant :: claimant
  vw_reviewers :: "claimant list"
  vw_pending :: "string list"

definition view :: "issue_claim \<Rightarrow> claim_view" where
  "view c = \<lparr>vw_issueId = cl_issueId c, vw_status = cl_status c, vw_claimant = cl_claimant c,
             vw_reviewers = nullish (cl_reviewers c) [],
             vw_pending = map ho_id (filter pending (chain c))\<rparr>"

fun apply_payload :: "event_payload \<Rightarrow> claim_view \<Rightarrow> claim_view" where
  "apply_payload (ClaimCreated _ i w _ _) v =
     \<lparr>vw_issueId = i, vw_status = Active, vw_claimant = w, vw_reviewers = [], vw_pending = []\<rparr>"
| "apply_payload (ClaimReleased _ _ _ _ _) v = v\<lparr>vw_status := Released\<rparr>"
| "apply_payload (ClaimExpired _ _ _ _ _) v = v\<lparr>vw_status := Expired\<rparr>"
| "apply_payload (ClaimStatusChanged _ _ _ st _ _) v = v\<lparr>vw_status := st\<rparr>"
| "apply_payload (ClaimNoteAdded _ _ _ _ _) v = v"
| "apply_payload (HandoffRequested _ _ h _ _ _ _) v = v\<lparr>vw_pending := [h]\<rparr>"
| "apply_payload (HandoffAccepted _ _ _ _ w _) v = v\<lparr>vw_claimant := w, vw_pending := []\<rparr>"
| "apply_payload (HandoffRejected _ _ _ _ _ _ _) v = v\<lparr>vw_pending := []\<rparr>"
| "apply_payload (ReviewRequested _ _ vs _ _) v = v\<lparr>vw_reviewers := vs\<rparr>"
| "apply_payload (ReviewCompleted _ _ _ _ _ _) v = v"

fun replay_step :: "claim_view option \<Rightarrow> event_payload \<Rightarrow> claim_view option" where
  "replay_step None (ClaimCreated _ i w _ _) =
     Some \<lparr>vw_issueId = i, vw_status = Active, vw_claimant = w, vw_reviewers = [], vw_pending = []\<rparr>"
| "replay_step None _ = None"
| "replay_step (Some v) p = Some (apply_payload p v)"

definition replay :: "event_payload list \<Rightarrow> claim_view option" where
  "replay ps = foldl replay_step None ps"

text \<open>
  What a call may do to a stored claim \<open>c\<close>: \<open>permitted call c d\<close> says that the call may replace
  it by \<open>d\<close>. Only the owner releases a claim or offers it, only the claimant it is offered to
  takes it over, and a claim expires only when it is active and stale.
\<close>

fun permitted :: "service_call \<Rightarrow> issue_claim \<Rightarrow> issue_claim \<Rightarrow> bool" where
  "permitted (CClaim clk u i w) c d \<longleftrightarrow> False"
| "permitted (CRelease clk i w) c d \<longleftrightarrow>
     cl_issueId c = i \<and> ct_id (cl_claimant c) = ct_id w \<and> filter pending (chain c) = [] \<and>
     d = c\<lparr>cl_status := Released, cl_lastActivityAt := clk 0\<rparr>"
| "permitted (CRequestHandoff clk u i from to r) c d \<longleftrightarrow>
     cl_issueId c = i \<and> ct_id (cl_claimant c) = ct_id from \<and> filter pending (chain c) = [] \<and>
     cl_claimant d = cl_claimant c \<and> cl_status d = PendingHandoff \<and>
     (\<exists>h. chain d = chain c @ [h] \<and> ho_id h = ''handoff-'' @ u \<and> ho_to h = to \<and> pending h)"
| "permitted (CAcceptHandoff clk i w) c d \<longleftrightarrow>
     cl_issueId c = i \<and> (\<exists>h \<in> set (chain c). pending_for w h) \<and>
     cl_claimant d = w \<and> cl_status d = Active \<and> filter pending (chain d) = []"
| "permitted (CRejectHandoff clk i w r) c d \<longleftrightarrow>
     cl_issueId c = i \<and> (\<exists>h \<in> set (chain c). pending_for w h) \<and>
     cl_claimant d = cl_claimant c \<and> cl_status d = Active \<and> filter pending (chain d) = []"
| "permitted (CUpdateStatus clk i st note) c d \<longleftrightarrow>
     cl_issueId c = i \<and> st \<in> set (getValidStatusTransitions (cl_status c)) \<and>
     cl_claimant d = cl_claimant c \<and> cl_status d = st \<and> chain d = chain c"
| "permitted (CRequestReview clk i vs) c d \<longleftrightarrow>
     cl_issueId c = i \<and> vs \<noteq> [] \<and> cl_claimant d = cl_claimant c \<and>
     cl_status d = InReview \<and> cl_reviewers d = Some vs \<and> chain d = chain c"
| "permitted (CExpireStale clk t) c d \<longleftrightarrow>
     cl_status c = Active \<and> cl_lastActivityAt c < clk 0 - durationToMs t \<and>
     d = c\<lparr>cl_status := Expired\<rparr>"

definition terminal_status :: "claim_status \<Rightarrow> bool" where
  "terminal_status st \<longleftrightarrow> st \<in> {Completed, Released, Expired}"

lemma replay_append: "replay (ps @ qs) = foldl replay_step (replay ps) qs"
  by (simp add: replay_def)

lemma replay_Some: "foldl replay_step (Some v) ps = Some (fold apply_payload ps v)"
  by (induction ps arbitrary: v) auto

lemma isActive_not_terminal: "isActiveStatus st \<Longrightarrow> \<not> terminal_status st"
  by (auto simp: isActiveStatus_def terminal_status_def)

text \<open>Resolving the first matching handoff of a chain with at most one pending one.\<close>

lemma pending_for_pending: "pending_for w h \<Longrightarrow> pending h"
  by (simp add: pending_for_def pending_def)

lemma resolve_none_pending:
  assumes "length (filter pending hs) \<le> 1" and "find (pending_for w) hs = Some h"
    and "\<And>h. \<not> pending (f h)"
  shows "filter pending (upd_first (pending_for w) f hs) = []"
  using assms
proof (induction hs)
  case (Cons x xs)
  show ?case
  proof (cases "pending_for w x")
    case True
    then have "filter pending xs = []"
      using Cons.prems(1) by (simp add: pending_for_pending)
    with True Cons.prems(3) show ?thesis by simp
  next
    case False
    with Cons.prems(2) have f: "find (pending_for w) xs = Some h" by simp
    then have "filter pending xs \<noteq> []"
      using find_mem [OF f] by (auto simp: filter_empty_conv dest: pending_for_pending)
    then have np: "\<not> pending x" and le: "length (filter pending xs) \<le> 1"
      using Cons.prems(1) by (auto split: if_splits)
    with False Cons.IH [OF le f Cons.prems(3)] show ?thesis by simp
  qed
qed simp

lemma find_pending_none: "find pending hs = None \<Longrightarrow> filter pending hs = []"
  by (simp add: find_none_iff filter_empty_conv)

section \<open>Correctness against the interfaces\<close>

locale claim_service =
  claim_repository R look rwf + event_log E log ewf
  for R :: "'r claim_repo_ops" and look rwf and E :: "'e event_store_ops" and log ewf
begin

lemma repo_emit [simp]: "sv_repo (emit E mk s) = sv_repo s"
  by (simp add: emit_def split: prod.splits)

lemma events_save [simp]: "sv_events (save R c s) = sv_events s"
  by (simp add: save_def)

lemma repo_save_sv [simp]: "sv_repo (save R c s) = rp_save R c (sv_repo s)"
  by (simp add: save_def)

text \<open>The events of a handler, as the factories build them.\<close>

definition built :: "(nat \<Rightarrow> claim_event \<times> nat) \<Rightarrow> string \<Rightarrow> event_payload \<Rightarrow> bool" where
  "built mk a p \<longleftrightarrow> (\<forall>n. ev_aggregateId (fst (mk n)) = a \<and> ev_payload (fst (mk n)) = p)"

lemma ewf_emit: "ewf (sv_events s) \<Longrightarrow> ewf (sv_events (emit E mk s))"
  by (simp add: emit_def ewf_append split: prod.splits)

lemma log_emit:
  "ewf (sv_events s) \<Longrightarrow> built mk a p \<Longrightarrow>
     log (sv_events (emit E mk s)) i = log (sv_events s) i @ (if i = a then [p] else [])"
  by (cases "mk (sv_counter s)") (auto simp: emit_def built_def log_append dest: spec [of _ "sv_counter s"])

text \<open>
  The invariant: both stores are well-formed, a claim has at most one pending handoff, and the
  log of each claim replays to it.
\<close>

definition svc_inv :: "('r, 'e) claim_svc \<Rightarrow> bool" where
  "svc_inv s \<longleftrightarrow> rwf (sv_repo s) \<and> ewf (sv_events s) \<and>
     (\<forall>i c. look (sv_repo s) i = Some c \<longrightarrow> length (filter pending (chain c)) \<le> 1) \<and>
     (\<forall>i. replay (log (sv_events s) i) = map_option view (look (sv_repo s) i))"

text \<open>\<open>committed s d ps s'\<close>: the step from \<open>s\<close> to \<open>s'\<close> saved \<open>d\<close> and logged the payloads \<open>ps\<close> for it.\<close>

definition committed ::
    "('r, 'e) claim_svc \<Rightarrow> issue_claim \<Rightarrow> event_payload list \<Rightarrow> ('r, 'e) claim_svc \<Rightarrow> bool" where
  "committed s d ps s' \<longleftrightarrow> sv_repo s' = rp_save R d (sv_repo s) \<and> ewf (sv_events s') \<and>
     (\<forall>i. log (sv_events s') i = log (sv_events s) i @ (if i = cl_id d then ps else []))"

lemma committed_log:
  "committed s d ps s' \<Longrightarrow> log (sv_events s') i = log (sv_events s) i @ (if i = cl_id d then ps else [])"
  by (simp add: committed_def)

lemma committed_save: "svc_inv s \<Longrightarrow> committed s d [] (save R d s)"
  by (simp add: committed_def svc_inv_def)

lemma committed_emit:
  "committed s d ps s' \<Longrightarrow> built mk (cl_id d) p \<Longrightarrow> committed s d (ps @ [p]) (emit E mk s')"
  by (auto simp: committed_def ewf_emit log_emit)

lemma committed_one:
  "svc_inv s \<Longrightarrow> built mk (cl_id d) p \<Longrightarrow> committed s d [p] (emit E mk (save R d s))"
  using committed_emit [OF committed_save] by force

lemma committed_two:
  "svc_inv s \<Longrightarrow> built mk (cl_id d) p \<Longrightarrow> built mk' (cl_id d) q \<Longrightarrow>
     committed s d [p, q] (emit E mk' (emit E mk (save R d s)))"
  using committed_emit [OF committed_one] by force

text \<open>
  A step that rewrites one claim that is in an active status, in agreement with its events;
  \<open>Q\<close> relates the claim before and after.
\<close>

definition rewritten ::
    "(issue_claim \<Rightarrow> issue_claim \<Rightarrow> bool) \<Rightarrow> ('r, 'e) claim_svc \<Rightarrow> ('r, 'e) claim_svc \<Rightarrow> bool" where
  "rewritten Q s s' \<longleftrightarrow>
     (\<exists>c d ps. look (sv_repo s) (cl_id c) = Some c \<and> isActiveStatus (cl_status c) \<and>
        cl_id d = cl_id c \<and> cl_issueId d = cl_issueId c \<and> cl_repository d = cl_repository c \<and>
        cl_progress d = cl_progress c \<and> Q c d \<and>
        committed s d ps s' \<and> fold apply_payload ps (view c) = view d \<and>
        length (filter pending (chain d)) \<le> 1)"

lemma view_full [simp]: "view (ensureFullClaim d) = view d"
  by (simp add: view_def ensureFullClaim_def chain_def)

lemma rewritten_look:
  assumes "svc_inv s" and "rewritten Q s s'"
  obtains c d where "look (sv_repo s) (cl_id c) = Some c" "isActiveStatus (cl_status c)" "Q c d"
    "look (sv_repo s') = (look (sv_repo s))(cl_id c \<mapsto> d)"
proof -
  from assms(2) obtain c d ps where c: "look (sv_repo s) (cl_id c) = Some c"
    and d: "cl_id d = cl_id c" "cl_issueId d = cl_issueId c" "cl_repository d = cl_repository c"
    and q: "cl_progress d = cl_progress c" "isActiveStatus (cl_status c)" "Q c d"
    and cm: "committed s d ps s'"
    unfolding rewritten_def by blast
  have wf: "rwf (sv_repo s)" using assms(1) by (simp add: svc_inv_def)
  have "ensureFullClaim d = d" using look_id [OF wf c] q by (simp add: ensureFull_id)
  then have "look (sv_repo s') = (look (sv_repo s))(cl_id c \<mapsto> d)"
    using look_save [OF wf storable_found [OF wf c d]] cm d by (simp add: committed_def)
  with c q that show ?thesis by blast
qed

lemma rewritten_inv:
  assumes "svc_inv s" and "rewritten Q s s'"
  shows "svc_inv s'"
proof -
  from assms(2) obtain c d ps where c: "look (sv_repo s) (cl_id c) = Some c"
    and d: "cl_id d = cl_id c" "cl_issueId d = cl_issueId c" "cl_repository d = cl_repository c"
    and cm: "committed s d ps s'" and v: "fold apply_payload ps (view c) = view d"
    and p: "length (filter pending (chain d)) \<le> 1"
    unfolding rewritten_def by blast
  have wf: "rwf (sv_repo s)" and ew: "ewf (sv_events s)" using assms(1) by (auto simp: svc_inv_def)
  have st: "storable (look (sv_repo s)) d" using storable_found [OF wf c d] .
  have rp: "replay (log (sv_events s) i) = map_option view (look (sv_repo s) i)" for i
    using assms(1) by (simp add: svc_inv_def)
  have lk: "look (sv_repo s') = (look (sv_repo s))(cl_id d \<mapsto> ensureFullClaim d)"
    using cm look_save [OF wf st] by (simp add: committed_def)
  have "replay (log (sv_events s') i) = map_option view (look (sv_repo s') i)" for i
    using rp [of i] c d v by (simp add: committed_log [OF cm] lk replay_append replay_Some)
  moreover have "rwf (sv_repo s')" "ewf (sv_events s')"
    using cm rwf_save [OF wf st] by (simp_all add: committed_def)
  moreover have "length (filter pending (chain c')) \<le> 1" if "look (sv_repo s') i = Some c'" for i c'
    using that p assms(1) by (auto simp: lk svc_inv_def split: if_splits)
  ultimately show ?thesis by (simp add: svc_inv_def)
qed

text \<open>A step that creates a claim under a fresh id.\<close>

definition creates :: "('r, 'e) claim_svc \<Rightarrow> ('r, 'e) claim_svc \<Rightarrow> bool" where
  "creates s s' \<longleftrightarrow>
     (\<exists>d p. look (sv_repo s) (cl_id d) = None \<and> cl_id d \<noteq> [] \<and> cl_repository d = None \<and>
        committed s d [p] s' \<and> (\<forall>v. replay_step v p = Some (view d)) \<and>
        filter pending (chain d) = [])"

lemma creates_look:
  assumes "svc_inv s" and "creates s s'"
  obtains d where "look (sv_repo s) (cl_id d) = None"
    "look (sv_repo s') = (look (sv_repo s))(cl_id d \<mapsto> ensureFullClaim d)"
proof -
  from assms(2) obtain d p where *: "look (sv_repo s) (cl_id d) = None" "cl_id d \<noteq> []"
    "cl_repository d = None" "committed s d [p] s'" unfolding creates_def by blast
  then have "storable (look (sv_repo s)) d" by (simp add: storable_def)
  with * assms(1) that show ?thesis by (auto simp: committed_def svc_inv_def look_save)
qed

lemma creates_inv:
  assumes "svc_inv s" and "creates s s'"
  shows "svc_inv s'"
proof -
  from assms(2) obtain d p where n: "look (sv_repo s) (cl_id d) = None" "cl_id d \<noteq> []"
    "cl_repository d = None" and cm: "committed s d [p] s'"
    and v: "\<forall>v. replay_step v p = Some (view d)" and pd: "filter pending (chain d) = []"
    unfolding creates_def by blast
  from n have st: "storable (look (sv_repo s)) d" by (simp add: storable_def)
  have wf: "rwf (sv_repo s)" using assms(1) by (simp add: svc_inv_def)
  have lk: "look (sv_repo s') = (look (sv_repo s))(cl_id d \<mapsto> ensureFullClaim d)"
    using cm look_save [OF wf st] by (simp add: committed_def)
  have "replay (log (sv_events s') i) = map_option view (look (sv_repo s') i)" for i
    using v assms(1) by (simp add: committed_log [OF cm] lk replay_append svc_inv_def)
  moreover have "rwf (sv_repo s')" "ewf (sv_events s')"
    using cm rwf_save [OF wf st] by (simp_all add: committed_def)
  moreover have "length (filter pending (chain c')) \<le> 1" if "look (sv_repo s') i = Some c'" for i c'
    using that pd assms(1) by (auto simp: lk svc_inv_def split: if_splits)
  ultimately show ?thesis by (simp add: svc_inv_def)
qed

text \<open>What the factories build.\<close>

lemma built_factories [simp]:
  "built (createClaimCreatedEvent clk k c i w x) a p \<longleftrightarrow> a = c \<and> p = ClaimCreated c i w (clk k) x"
  "built (createClaimReleasedEvent clk k c i w ro) a p \<longleftrightarrow> a = c \<and> p = ClaimReleased c i w (clk k) ro"
  "built (createClaimExpiredEvent clk k c i w t) a p \<longleftrightarrow> a = c \<and> p = ClaimExpired c i w (clk k) t"
  "built (createClaimStatusChangedEvent clk k c i st st' note) a p \<longleftrightarrow>
     a = c \<and> p = ClaimStatusChanged c i st st' (clk k) note"
  "built (createHandoffRequestedEvent clk k c i h w w' r) a p \<longleftrightarrow>
     a = c \<and> p = HandoffRequested c i h w w' r (clk k)"
  "built (createHandoffAcceptedEvent clk k c i h w w') a p \<longleftrightarrow>
     a = c \<and> p = HandoffAccepted c i h w w' (clk k)"
  "built (createHandoffRejectedEvent clk k c i h w w' r) a p \<longleftrightarrow>
     a = c \<and> p = HandoffRejected c i h w w' (clk k) r"
  "built (createReviewRequestedEvent clk k c i vs w) a p \<longleftrightarrow>
     a = c \<and> p = ReviewRequested c i vs (clk k) w"
  by (auto simp: built_def event_factory_defs createClaimEvent_fields)

lemma found: "svc_inv s \<Longrightarrow> rp_findByIssueId R (sv_repo s) i = Some c \<Longrightarrow>
    look (sv_repo s) (cl_id c) = Some c \<and> cl_issueId c = i \<and> isActiveStatus (cl_status c) \<and>
    length (filter pending (chain c)) \<le> 1"
  using find_sound [of "sv_repo s" i c] by (auto simp: svc_inv_def)

text \<open>The shape of a handler: the claim it found is saved changed, with the payloads \<open>ps\<close>.\<close>

lemma rewrittenI:
  assumes "svc_inv s" and "rp_findByIssueId R (sv_repo s) i = Some c" and "committed s d ps s'"
    and "cl_id d = cl_id c" "cl_issueId d = cl_issueId c" "cl_repository d = cl_repository c"
    and "cl_progress d = cl_progress c" and "Q c d"
    and "fold apply_payload ps (view c) = view d" and "length (filter pending (chain d)) \<le> 1"
  shows "rewritten Q s s'"
  using assms found [OF assms(1,2)] unfolding rewritten_def by blast

lemma release_rewritten:
  assumes "svc_inv s"
  shows "snd (release R E clk i w s) = s \<or> rewritten (permitted (CRelease clk i w)) s (snd (release R E clk i w s))"
proof (cases "rp_findByIssueId R (sv_repo s) i")
  case None
  then show ?thesis by (simp add: release_def)
next
  case (Some c)
  have "cl_status c \<noteq> Released" and "length (filter pending (chain c)) \<le> 1"
    using found [OF assms Some] by (auto simp: isActiveStatus_def)
  then show ?thesis
    using assms found [OF assms Some] find_pending_none [of "chain c"]
    by (auto simp: release_def Some Let_def view_def
        intro!: rewrittenI [OF assms Some committed_two])
qed

lemma requestHandoff_rewritten:
  assumes "svc_inv s"
  shows "snd (requestHandoff R E X clk u i w w' r s) = s \<or>
    rewritten (permitted (CRequestHandoff clk u i w w' r)) s (snd (requestHandoff R E X clk u i w w' r s))"
proof (cases "rp_findByIssueId R (sv_repo s) i")
  case None
  then show ?thesis by (simp add: requestHandoff_def)
next
  case (Some c)
  show ?thesis
    using assms found [OF assms Some]
    by (auto simp: requestHandoff_def Some Let_def view_def pending_def
        find_none_iff intro!: rewrittenI [OF assms Some committed_two])
qed

lemma acceptHandoff_rewritten:
  assumes "svc_inv s"
  shows "snd (acceptHandoff R E clk i w s) = s \<or> rewritten (permitted (CAcceptHandoff clk i w)) s (snd (acceptHandoff R E clk i w s))"
proof (cases "rp_findByIssueId R (sv_repo s) i")
  case None
  then show ?thesis by (simp add: acceptHandoff_def)
next
  case (Some c)
  show ?thesis
  proof (cases "find (pending_for w) (chain c)")
    case None
    then show ?thesis by (simp add: acceptHandoff_def Some)
  next
    case h: (Some h)
    let ?f = "\<lambda>h. h\<lparr>ho_status := HAccepted, ho_resolvedAt := Some (clk 0)\<rparr>"
    have np: "filter pending (upd_first (pending_for w) ?f (chain c)) = []"
      using found [OF assms Some] h by (auto intro!: resolve_none_pending simp: pending_def)
    then show ?thesis
      using assms found [OF assms Some] find_mem [OF h]
      by (auto simp: acceptHandoff_def Some h Let_def view_def
          intro!: rewrittenI [OF assms Some committed_two])
  qed
qed

lemma rejectHandoff_rewritten:
  assumes "svc_inv s"
  shows "snd (rejectHandoff R E clk i w r s) = s \<or> rewritten (permitted (CRejectHandoff clk i w r)) s (snd (rejectHandoff R E clk i w r s))"
proof (cases "rp_findByIssueId R (sv_repo s) i")
  case None
  then show ?thesis by (simp add: rejectHandoff_def)
next
  case (Some c)
  show ?thesis
  proof (cases "find (pending_for w) (chain c)")
    case None
    then show ?thesis by (simp add: rejectHandoff_def Some)
  next
    case h: (Some h)
    let ?f = "\<lambda>h. h\<lparr>ho_status := HRejected, ho_resolvedAt := Some (clk 0),
      ho_rejectionReason := Some r\<rparr>"
    have np: "filter pending (upd_first (pending_for w) ?f (chain c)) = []"
      using found [OF assms Some] h by (auto intro!: resolve_none_pending simp: pending_def)
    then show ?thesis
      using assms found [OF assms Some] find_mem [OF h]
      by (auto simp: rejectHandoff_def Some h Let_def view_def
          intro!: rewrittenI [OF assms Some committed_two])
  qed
qed

lemma updateStatus_rewritten:
  assumes "svc_inv s"
  shows "snd (updateStatus R E X clk i st note s) = s \<or>
    rewritten (permitted (CUpdateStatus clk i st note)) s (snd (updateStatus R E X clk i st note s))"
proof (cases "rp_findByIssueId R (sv_repo s) i")
  case None
  then show ?thesis by (simp add: updateStatus_def)
next
  case (Some c)
  show ?thesis
    using assms found [OF assms Some]
    by (auto simp: updateStatus_def Some Let_def view_def
        intro!: rewrittenI [OF assms Some committed_one])
qed

lemma requestReview_rewritten:
  assumes "svc_inv s"
  shows "snd (requestReview R E X clk i vs s) = s \<or> rewritten (permitted (CRequestReview clk i vs)) s (snd (requestReview R E X clk i vs s))"
proof (cases "rp_findByIssueId R (sv_repo s) i")
  case None
  then show ?thesis by (simp add: requestReview_def)
next
  case (Some c)
  show ?thesis
    using assms found [OF assms Some]
    by (auto simp: requestReview_def Some Let_def view_def
        intro!: rewrittenI [OF assms Some committed_one] rewrittenI [OF assms Some committed_two])
qed

lemma claim_creates:
  assumes "svc_inv s" and "look (sv_repo s) (''claim-'' @ u) = None"
  shows "snd (claim R E X clk u i w s) = s \<or> creates s (snd (claim R E X clk u i w s))"
proof -
  let ?d = "\<lparr>cl_id = ''claim-'' @ u, cl_issueId = i, cl_claimant = w, cl_status = Active,
    cl_claimedAt = clk 0, cl_lastActivityAt = clk 0, cl_notes = Some [], cl_handoffChain = Some [],
    cl_reviewers = Some [], cl_repository = None, cl_progress = None, cl_blockedReason = None,
    cl_blockedAt = None, cl_stealableAt = None, cl_stealInfo = None, cl_contestInfo = None\<rparr>"
  let ?p = "ClaimCreated (''claim-'' @ u) i w (clk 1) None"
  have "replay_step v ?p = Some (view ?d)" for v
    by (cases v) (simp_all add: view_def chain_def)
  moreover have "committed s ?d [?p]
      (emit E (createClaimCreatedEvent clk 1 (''claim-'' @ u) i w None) (save R ?d s))"
    by (rule committed_one [OF assms(1)]) simp
  ultimately have "creates s
      (emit E (createClaimCreatedEvent clk 1 (''claim-'' @ u) i w None) (save R ?d s))"
    unfolding creates_def using assms(2) by (intro exI [of _ ?d] exI [of _ ?p]) (simp add: chain_def)
  then show ?thesis by (simp add: claim_def Let_def split: option.splits)
qed


text \<open>One iteration of \<open>expireStale\<close>, and the loop.\<close>

definition expire_one :: "clock \<Rightarrow> nat \<Rightarrow> issue_claim \<Rightarrow> ('r, 'e) claim_svc \<Rightarrow> ('r, 'e) claim_svc" where
  "expire_one clk k c s =
     emit E (createClaimStatusChangedEvent clk (k + 3) (cl_id c) (cl_issueId c) Active Expired None)
       (emit E (createClaimExpiredEvent clk k (cl_id c) (cl_issueId c) (cl_claimant c)
          (cl_lastActivityAt c)) (save R (c\<lparr>cl_status := Expired\<rparr>) s))"

lemma expire_one_step:
  assumes "svc_inv s" and "look (sv_repo s) (cl_id c) = Some c" and "cl_status c = Active"
    and "Q c (c\<lparr>cl_status := Expired\<rparr>)"
  shows "rewritten Q s (expire_one clk k c s)"
    and "look (sv_repo (expire_one clk k c s)) =
      (look (sv_repo s))(cl_id c \<mapsto> c\<lparr>cl_status := Expired\<rparr>)"
proof -
  let ?d = "c\<lparr>cl_status := Expired\<rparr>"
  have wf: "rwf (sv_repo s)" and p: "length (filter pending (chain c)) \<le> 1"
    using assms(1,2) by (auto simp: svc_inv_def)
  have "committed s ?d [ClaimExpired (cl_id c) (cl_issueId c) (cl_claimant c) (clk k) (cl_lastActivityAt c),
      ClaimStatusChanged (cl_id c) (cl_issueId c) Active Expired (clk (k + 3)) None] (expire_one clk k c s)"
    unfolding expire_one_def by (rule committed_two [OF assms(1)]) simp_all
  then show "rewritten Q s (expire_one clk k c s)"
    unfolding rewritten_def using assms(2-4) p
    by (intro exI [of _ c] exI [of _ ?d] exI conjI) (auto simp: view_def isActiveStatus_def)
  have "ensureFullClaim ?d = ?d"
    using look_id [OF wf assms(2)] by (intro ensureFull_id) simp
  then show "look (sv_repo (expire_one clk k c s)) = (look (sv_repo s))(cl_id c \<mapsto> ?d)"
    using look_save [OF wf storable_found [OF wf assms(2), of ?d]] by (simp add: expire_one_def)
qed

lemma expire_loop_spec:
  assumes "svc_inv s" and "distinct (map cl_id cs)"
    and "\<forall>c \<in> set cs. look (sv_repo s) (cl_id c) = Some c"
    and "\<forall>c \<in> set cs. cl_status c = Active \<longrightarrow> Q c (c\<lparr>cl_status := Expired\<rparr>)"
  shows "(rewritten Q)\<^sup>*\<^sup>* s (snd (expire_loop R E clk k cs s))
    \<and> fst (expire_loop R E clk k cs s) =
        map (\<lambda>c. c\<lparr>cl_status := Expired\<rparr>) (filter (\<lambda>c. cl_status c = Active) cs)
    \<and> look (sv_repo (snd (expire_loop R E clk k cs s))) =
        (\<lambda>i. case find (\<lambda>c. cl_id c = i) (filter (\<lambda>c. cl_status c = Active) cs) of
               None \<Rightarrow> look (sv_repo s) i
             | Some c \<Rightarrow> Some (c\<lparr>cl_status := Expired\<rparr>))"
  using assms
proof (induction cs arbitrary: s k)
  case (Cons c cs)
  show ?case
  proof (cases "cl_status c = Active")
    case False
    with Cons show ?thesis by simp
  next
    case True
    let ?s = "expire_one clk k c s"
    have c: "look (sv_repo s) (cl_id c) = Some c" and q: "Q c (c\<lparr>cl_status := Expired\<rparr>)"
      using Cons.prems(3,4) True by simp_all
    note one = expire_one_step [where Q = Q, OF Cons.prems(1) c True q, of clk k]
    have inv: "svc_inv ?s" using rewritten_inv [OF Cons.prems(1) one(1)] .
    have d: "distinct (map cl_id cs)" and n: "cl_id c \<notin> cl_id ` set cs" using Cons.prems(2) by auto
    have "\<forall>c' \<in> set cs. look (sv_repo ?s) (cl_id c') = Some c'"
    proof
      fix c' assume c': "c' \<in> set cs"
      then have "cl_id c' \<noteq> cl_id c" using n by (metis imageI)
      with c' Cons.prems(3) show "look (sv_repo ?s) (cl_id c') = Some c'"
        unfolding one(2) fun_upd_def by simp
    qed
    moreover have "\<forall>c \<in> set cs. cl_status c = Active \<longrightarrow> Q c (c\<lparr>cl_status := Expired\<rparr>)"
      using Cons.prems(4) by simp
    ultimately have IH: "(rewritten Q)\<^sup>*\<^sup>* ?s (snd (expire_loop R E clk (k + 6) cs ?s))"
      and IH2: "fst (expire_loop R E clk (k + 6) cs ?s) =
        map (\<lambda>c. c\<lparr>cl_status := Expired\<rparr>) (filter (\<lambda>c. cl_status c = Active) cs)"
      and IH3: "look (sv_repo (snd (expire_loop R E clk (k + 6) cs ?s))) =
        (\<lambda>i. case find (\<lambda>c. cl_id c = i) (filter (\<lambda>c. cl_status c = Active) cs) of
               None \<Rightarrow> look (sv_repo ?s) i
             | Some c \<Rightarrow> Some (c\<lparr>cl_status := Expired\<rparr>))"
      using Cons.IH [OF inv d, of "k + 6"] by blast+
    have eq: "expire_loop R E clk k (c # cs) s =
        (let (xs, t) = expire_loop R E clk (k + 6) cs ?s in (c\<lparr>cl_status := Expired\<rparr> # xs, t))"
      by (simp add: expire_one_def True Let_def)
    have "find (\<lambda>c'. cl_id c' = cl_id c) (filter (\<lambda>c. cl_status c = Active) cs) = None"
      using n by (metis (mono_tags, lifting) filter_is_subset find_none_iff image_eqI subsetD)
    moreover have "(rewritten Q)\<^sup>*\<^sup>* s (snd (expire_loop R E clk (k + 6) cs ?s))"
      using one(1) IH by (rule converse_rtranclp_into_rtranclp)
    moreover have "look (sv_repo ?s) j =
        (if j = cl_id c then Some (c\<lparr>cl_status := Expired\<rparr>) else look (sv_repo s) j)" for j
      by (simp add: one(2))
    ultimately show ?thesis
      using IH2 unfolding eq split_beta Let_def fst_conv snd_conv IH3
      by (intro conjI ext) (auto simp: True split: option.splits)
  qed
qed simp

lemma expireStale_spec:
  assumes "svc_inv s"
  shows "(rewritten (permitted (CExpireStale clk d)))\<^sup>*\<^sup>* s (snd (expireStale R E clk d s))"
    and "fst (expireStale R E clk d s) = map (\<lambda>c. c\<lparr>cl_status := Expired\<rparr>)
      (filter (\<lambda>c. cl_status c = Active) (rp_findStaleClaims R (sv_repo s) (clk 0 - durationToMs d)))"
    and "look (sv_repo (snd (expireStale R E clk d s))) =
        (\<lambda>i. case find (\<lambda>c. cl_id c = i) (filter (\<lambda>c. cl_status c = Active)
                 (rp_findStaleClaims R (sv_repo s) (clk 0 - durationToMs d))) of
               None \<Rightarrow> look (sv_repo s) i
             | Some c \<Rightarrow> Some (c\<lparr>cl_status := Expired\<rparr>))"
proof -
  let ?cs = "rp_findStaleClaims R (sv_repo s) (clk 0 - durationToMs d)"
  have wf: "rwf (sv_repo s)" using assms by (simp add: svc_inv_def)
  have "\<forall>c \<in> set ?cs. look (sv_repo s) (cl_id c) = Some c"
    and "\<forall>c \<in> set ?cs. cl_status c = Active \<longrightarrow>
      permitted (CExpireStale clk d) c (c\<lparr>cl_status := Expired\<rparr>)"
    using stale_sound [OF wf] by simp_all
  note spec = expire_loop_spec [where Q = "permitted (CExpireStale clk d)", OF assms stale_distinct [OF wf] this, of clk 1]
  show "(rewritten (permitted (CExpireStale clk d)))\<^sup>*\<^sup>* s (snd (expireStale R E clk d s))"
    and "fst (expireStale R E clk d s) = map (\<lambda>c. c\<lparr>cl_status := Expired\<rparr>)
      (filter (\<lambda>c. cl_status c = Active) ?cs)"
    and "look (sv_repo (snd (expireStale R E clk d s))) =
        (\<lambda>i. case find (\<lambda>c. cl_id c = i) (filter (\<lambda>c. cl_status c = Active) ?cs) of
               None \<Rightarrow> look (sv_repo s) i | Some c \<Rightarrow> Some (c\<lparr>cl_status := Expired\<rparr>))"
    using spec by (simp_all add: expireStale_def)
qed

text \<open>Every call leaves the state alone, rewrites active claims as permitted, or creates a claim.\<close>

lemma perform_cases:
  assumes "svc_inv s" and "fresh_ids look call s"
  shows "perform R E X call s = s \<or> rewritten (permitted call) s (perform R E X call s) \<or>
    creates s (perform R E X call s) \<or>
    (\<exists>clk d. call = CExpireStale clk d \<and> perform R E X call s = snd (expireStale R E clk d s))"
proof (cases call)
  case (CClaim clk u i w)
  then have "look (sv_repo s) (''claim-'' @ u) = None" using assms(2) by simp
  from claim_creates [OF assms(1) this] show ?thesis by (auto simp: CClaim)
next
  case (CExpireStale clk d)
  then show ?thesis by auto
next
  case (CRelease clk i w)
  then show ?thesis unfolding CRelease perform.simps using release_rewritten [OF assms(1), of clk i w] by blast
next
  case (CRequestHandoff clk u i w w' r)
  then show ?thesis unfolding CRequestHandoff perform.simps using requestHandoff_rewritten [OF assms(1), of X clk u i w w' r] by blast
next
  case (CAcceptHandoff clk i w)
  then show ?thesis unfolding CAcceptHandoff perform.simps using acceptHandoff_rewritten [OF assms(1), of clk i w] by blast
next
  case (CRejectHandoff clk i w r)
  then show ?thesis unfolding CRejectHandoff perform.simps using rejectHandoff_rewritten [OF assms(1), of clk i w r] by blast
next
  case (CUpdateStatus clk i st nt)
  then show ?thesis unfolding CUpdateStatus perform.simps using updateStatus_rewritten [OF assms(1), of X clk i st nt] by blast
next
  case (CRequestReview clk i vs)
  then show ?thesis unfolding CRequestReview perform.simps using requestReview_rewritten [OF assms(1), of X clk i vs] by blast
qed

lemma rewritten_star_inv: "(rewritten Q)\<^sup>*\<^sup>* s s' \<Longrightarrow> svc_inv s \<Longrightarrow> svc_inv s'"
  by (induction rule: rtranclp_induct) (auto intro: rewritten_inv)

lemma perform_inv: "fresh_ids look call s \<Longrightarrow> svc_inv s \<Longrightarrow> svc_inv (perform R E X call s)"
  using perform_cases [of s call X] rewritten_inv creates_inv
    rewritten_star_inv [OF expireStale_spec(1)] by metis

text \<open>A stored claim stays stored, and is unchanged or changed as the call permits.\<close>

lemma expireStale_permitted:
  assumes "svc_inv s" and "look (sv_repo s) i = Some c"
  obtains "look (sv_repo (snd (expireStale R E clk d s))) i = Some c"
  | d' where "isActiveStatus (cl_status c)" "permitted (CExpireStale clk d) c d'"
      "look (sv_repo (snd (expireStale R E clk d s))) i = Some d'"
proof (cases "find (\<lambda>c. cl_id c = i) (filter (\<lambda>c. cl_status c = Active)
      (rp_findStaleClaims R (sv_repo s) (clk 0 - durationToMs d)))")
  case None
  then show ?thesis using that(1) assms(2) by (simp add: expireStale_spec(3) [OF assms(1)])
next
  case (Some c')
  have wf: "rwf (sv_repo s)" using assms(1) by (simp add: svc_inv_def)
  from find_mem [OF Some] have i: "cl_id c' = i" and st: "cl_status c' = Active"
    and m: "c' \<in> set (rp_findStaleClaims R (sv_repo s) (clk 0 - durationToMs d))" by auto
  from stale_sound [OF wf m] i assms(2) have "c' = c" by simp
  with Some st stale_sound [OF wf m] show ?thesis
    by (intro that(2) [of "c\<lparr>cl_status := Expired\<rparr>"])
      (simp_all add: expireStale_spec(3) [OF assms(1)])
qed

lemma perform_permitted:
  assumes "svc_inv s" and "fresh_ids look call s" and "look (sv_repo s) i = Some c"
  shows "\<exists>d. look (sv_repo (perform R E X call s)) i = Some d \<and>
    (d = c \<or> isActiveStatus (cl_status c) \<and> permitted call c d)"
  using perform_cases [OF assms(1,2), of X]
proof (elim disjE exE conjE)
  assume "rewritten (permitted call) s (perform R E X call s)"
  from rewritten_look [OF assms(1) this] show ?thesis using assms(3)
    by (metis fun_upd_apply option.inject)
next
  assume "creates s (perform R E X call s)"
  from creates_look [OF assms(1) this] show ?thesis using assms(3)
    by (metis fun_upd_other option.distinct(1))
next
  fix clk d assume call: "call = CExpireStale clk d"
  then show ?thesis
    using expireStale_permitted [OF assms(1,3), of clk d] by (metis perform.simps(8))
qed (use assms(3) in simp)

lemma perform_terminal:
  "svc_inv s \<Longrightarrow> fresh_ids look call s \<Longrightarrow> look (sv_repo s) i = Some c \<Longrightarrow>
     terminal_status (cl_status c) \<Longrightarrow> look (sv_repo (perform R E X call s)) i = Some c"
  using perform_permitted [of s call i c X] isActive_not_terminal by blast

lemma run_terminal:
  "svc_inv s \<Longrightarrow> run_ok (fresh_ids look) (perform R E X) calls s \<Longrightarrow> look (sv_repo s) i = Some c \<Longrightarrow>
     terminal_status (cl_status c) \<Longrightarrow> look (sv_repo (run (perform R E X) calls s)) i = Some c"
proof (induction calls arbitrary: s)
  case (Cons call calls)
  then show ?case
    using perform_inv [of call s X] perform_terminal [of s call i c X] by simp
qed simp

text \<open>Only the claimant a handoff is offered to becomes the new owner.\<close>

lemma perform_owner:
  assumes "svc_inv s" and "fresh_ids look call s" and "look (sv_repo s) i = Some c"
    and "look (sv_repo (perform R E X call s)) i = Some d" and "cl_claimant d \<noteq> cl_claimant c"
  shows "\<exists>clk. call = CAcceptHandoff clk (cl_issueId c) (cl_claimant d) \<and>
    (\<exists>h \<in> set (chain c). pending_for (cl_claimant d) h)"
proof -
  from perform_permitted [OF assms(1-3), of X] assms(4,5) have "permitted call c d" by auto
  with assms(5) show ?thesis by (cases call) auto
qed

text \<open>Results of the handlers.\<close>

lemma find_after:
  assumes "svc_inv s" and "rp_findByIssueId R (sv_repo s) i = Some c" and "sv_repo s' = rp_save R d (sv_repo s)"
    and "cl_id d = cl_id c" "cl_issueId d = cl_issueId c" "cl_repository d = cl_repository c"
    and "cl_progress d = cl_progress c"
  shows "rp_findByIssueId R (sv_repo s') i = (if isActiveStatus (cl_status d) then Some d else None)"
    and "look (sv_repo s') (cl_id c) = Some d"
    and "j \<noteq> i \<Longrightarrow> rp_findByIssueId R (sv_repo s') j = rp_findByIssueId R (sv_repo s) j"
proof -
  have wf: "rwf (sv_repo s)" using assms(1) by (simp add: svc_inv_def)
  have c: "look (sv_repo s) (cl_id c) = Some c" and i: "cl_issueId c = i" using found [OF assms(1,2)] by auto
  note st = storable_found [OF wf c assms(4-6)]
  have "ensureFullClaim d = d" using look_id [OF wf c] assms(7) by (simp add: ensureFull_id)
  then show "rp_findByIssueId R (sv_repo s') i = (if isActiveStatus (cl_status d) then Some d else None)"
    and "look (sv_repo s') (cl_id c) = Some d"
    using find_saved [OF wf st] look_save [OF wf st] assms(3,4,5) i by auto
  show "j \<noteq> i \<Longrightarrow> rp_findByIssueId R (sv_repo s') j = rp_findByIssueId R (sv_repo s) j"
    using find_other [OF wf st] assms(3,5) i by auto
qed

lemma updateStatus_ok:
  assumes "svc_inv s" and "rp_findByIssueId R (sv_repo s) i = Some c"
    and "st \<in> set (getValidStatusTransitions (cl_status c))"
  shows "\<exists>d. cl_id d = cl_id c \<and> cl_status d = st \<and> cl_claimant d = cl_claimant c \<and>
    look (sv_repo (snd (updateStatus R E X clk i st note s))) (cl_id c) = Some d \<and>
    rp_findByIssueId R (sv_repo (snd (updateStatus R E X clk i st note s))) i =
      (if isActiveStatus st then Some d else None)"
proof -
  let ?c1 = "c\<lparr>cl_status := st, cl_lastActivityAt := clk 0\<rparr>"
  let ?d = "if truthy note
    then ?c1\<lparr>cl_notes := Some (nullish (cl_notes c) [] @
      [''['' @ toISOString X (clk 1) @ ''] Status changed to '' @ status_string st @ '': '' @ nullish note []])\<rparr>
    else ?c1"
  have s': "sv_repo (snd (updateStatus R E X clk i st note s)) = rp_save R ?d (sv_repo s)"
    using assms(2,3) by (simp add: updateStatus_def Let_def)
  have d: "cl_id ?d = cl_id c" "cl_issueId ?d = cl_issueId c" "cl_repository ?d = cl_repository c"
    "cl_progress ?d = cl_progress c" "cl_status ?d = st" "cl_claimant ?d = cl_claimant c"
    by simp_all
  show ?thesis
    using find_after(1,2) [OF assms(1,2) s' d(1-4)] d by (intro exI [of _ ?d]) simp
qed

lemma claim_ok:
  assumes "svc_inv s" and "look (sv_repo s) (''claim-'' @ u) = None"
    and "claim R E X clk u i w s = (Inr c, s')"
  shows "rp_findByIssueId R (sv_repo s') i = Some c \<and> cl_id c = ''claim-'' @ u \<and> cl_issueId c = i \<and>
    cl_claimant c = w \<and> cl_status c = Active \<and>
    log (sv_events s') (cl_id c) = log (sv_events s) (cl_id c) @ [ClaimCreated (cl_id c) i w (clk 1) None] \<and>
    (\<forall>j. j \<noteq> i \<longrightarrow> rp_findByIssueId R (sv_repo s') j = rp_findByIssueId R (sv_repo s) j)"
proof -
  let ?d = "\<lparr>cl_id = ''claim-'' @ u, cl_issueId = i, cl_claimant = w, cl_status = Active,
    cl_claimedAt = clk 0, cl_lastActivityAt = clk 0, cl_notes = Some [], cl_handoffChain = Some [],
    cl_reviewers = Some [], cl_repository = None, cl_progress = None, cl_blockedReason = None,
    cl_blockedAt = None, cl_stealableAt = None, cl_stealInfo = None, cl_contestInfo = None\<rparr>"
  let ?e = "createClaimCreatedEvent clk 1 (''claim-'' @ u) i w None"
  have c: "c = ensureFullClaim ?d" and s': "s' = emit E ?e (save R ?d s)"
    using assms(3) by (auto simp: claim_def Let_def split: option.splits if_splits)
  have wf: "rwf (sv_repo s)" "ewf (sv_events s)" using assms(1) by (simp_all add: svc_inv_def)
  have st: "storable (look (sv_repo s)) ?d" using assms(2) by (simp add: storable_def)
  have "committed s ?d [ClaimCreated (cl_id ?d) i w (clk 1) None] s'"
    unfolding s' by (rule committed_one [OF assms(1)]) simp
  from committed_log [OF this] show ?thesis
    using find_saved [OF wf(1) st] find_other [OF wf(1) st] unfolding c s'
    by (simp add: isActiveStatus_def)
qed

lemma acceptHandoff_ok:
  assumes "svc_inv s" and "acceptHandoff R E clk i w s = (Inr (), s')"
  shows "\<exists>c d. rp_findByIssueId R (sv_repo s) i = Some c \<and> rp_findByIssueId R (sv_repo s') i = Some d \<and>
    cl_id d = cl_id c \<and> cl_claimant d = w \<and> cl_status d = Active \<and> filter pending (chain d) = [] \<and>
    length (chain d) = length (chain c) \<and> (\<exists>h \<in> set (chain c). pending_for w h)"
proof -
  let ?f = "\<lambda>h. h\<lparr>ho_status := HAccepted, ho_resolvedAt := Some (clk 0)\<rparr>"
  obtain c h where c: "rp_findByIssueId R (sv_repo s) i = Some c"
    and h: "find (pending_for w) (chain c) = Some h"
    and s': "sv_repo s' = rp_save R (c\<lparr>cl_handoffChain := Some (upd_first (pending_for w) ?f (chain c)),
      cl_claimant := w, cl_status := Active, cl_lastActivityAt := clk 1\<rparr>) (sv_repo s)"
    using assms(2) by (auto simp: acceptHandoff_def Let_def split: option.splits if_splits)
  have "filter pending (upd_first (pending_for w) ?f (chain c)) = []"
    using found [OF assms(1) c] h by (auto intro!: resolve_none_pending simp: pending_def)
  then show ?thesis
    using find_after(1) [OF assms(1) c s'] c find_mem [OF h] by (auto simp: isActiveStatus_def)
qed

text \<open>A live claim can be completed with at most two status updates.\<close>

lemma can_complete:
  assumes "svc_inv s" and "rp_findByIssueId R (sv_repo s) i = Some c"
  shows "\<exists>sts d. length sts \<le> 2 \<and> cl_status d = Completed \<and>
    look (sv_repo (run (perform R E X) (map (\<lambda>st. CUpdateStatus clk i st None) sts) s)) (cl_id c) = Some d"
proof (cases "Completed \<in> set (getValidStatusTransitions (cl_status c))")
  case True
  then show ?thesis
    using updateStatus_ok [OF assms, of Completed X clk None] by (intro exI [of _ "[Completed]"]) auto
next
  case False
  then have a: "Active \<in> set (getValidStatusTransitions (cl_status c))"
    using found [OF assms] by (auto simp: isActiveStatus_def)
  let ?s = "snd (updateStatus R E X clk i Active None s)"
  from updateStatus_ok [OF assms a, of X clk None] obtain d
    where d: "cl_id d = cl_id c" "cl_status d = Active" "rp_findByIssueId R (sv_repo ?s) i = Some d"
    by (auto simp: isActiveStatus_def)
  have "svc_inv ?s" using perform_inv [of "CUpdateStatus clk i Active None" s X] assms(1) by simp
  from updateStatus_ok [OF this d(3), of Completed X clk None] d show ?thesis
    by (intro exI [of _ "[Active, Completed]"]) auto
qed


end

section \<open>The service on the in-memory stores\<close>

interpretation mem_service:
  claim_service in_memory_repo repo_findById plain_wf in_memory_events es_log es_wf
  by unfold_locales

type_synonym 's mem_svc = "(repo_state, 's event_store) claim_svc"

definition svc_init :: "'s mem_svc" where
  "svc_init = \<lparr>sv_repo = createClaimRepository, sv_events = new_event_store, sv_counter = 0\<rparr>"

text \<open>The states a service reaches from its empty stores.\<close>

inductive svc_reachable :: "externals \<Rightarrow> 's mem_svc \<Rightarrow> bool" for X where
  init: "svc_reachable X svc_init"
| call: "svc_reachable X s \<Longrightarrow> fresh_ids repo_findById call s \<Longrightarrow>
    svc_reachable X (perform in_memory_repo in_memory_events X call s)"

interpretation mem_system:
  guarded_system "fresh_ids repo_findById" "perform in_memory_repo in_memory_events X"
    "mem_service.svc_inv :: 's mem_svc \<Rightarrow> bool" for X
  by unfold_locales (rule mem_service.perform_inv)

lemma svc_init_inv: "mem_service.svc_inv svc_init"
  by (simp add: mem_service.svc_inv_def svc_init_def plain_wf_def repo_findById_def replay_def
      createClaimRepository_def es_log_def aggregate_events_def new_event_store_def repo_wf_new
      [unfolded createClaimRepository_def] es_wf_new [unfolded new_event_store_def])

lemma reachable_inv: "svc_reachable X s \<Longrightarrow> mem_service.svc_inv s"
  by (induction rule: svc_reachable.induct) (auto intro: svc_init_inv mem_service.perform_inv)

lemma reachable_run:
  "svc_reachable X s \<Longrightarrow>
     run_ok (fresh_ids repo_findById) (perform in_memory_repo in_memory_events X) calls s \<Longrightarrow>
     svc_reachable X (run (perform in_memory_repo in_memory_events X) calls s)"
  by (induction calls arbitrary: s) (auto intro: svc_reachable.call)


section \<open>A concrete history\<close>

text \<open>Two agents and one issue: ann claims it, offers it to bob, and bob accepts.\<close>

definition demo_agent :: "string \<Rightarrow> claimant" where
  "demo_agent n = \<lparr>ct_id = n, ct_type = Agent, ct_name = n, ct_capabilities = None,
     ct_specializations = None, ct_currentWorkload = None, ct_maxConcurrentClaims = None,
     ct_agentType = Some Coder\<rparr>"

definition demo_issue :: issue where
  "demo_issue = \<lparr>is_id = ''i1'', is_labels = [], is_priority = High, is_complexity = Simple,
     is_requiredCapabilities = None\<rparr>"

definition demo_externals :: externals where
  "demo_externals = \<lparr>issue_findById = (\<lambda>i. if i = ''i1'' then Some demo_issue else None),
     claimant_findById = (\<lambda>i. Some (demo_agent i)), claimant_exists = (\<lambda>_. True),
     toISOString = (\<lambda>_. ''1970-01-01'')\<rparr>"

definition demo_calls :: "service_call list" where
  "demo_calls =
     [CClaim (\<lambda>k. int k) ''1'' ''i1'' (demo_agent ''ann''),
      CRequestHandoff (\<lambda>k. 10 + int k) ''2'' ''i1'' (demo_agent ''ann'') (demo_agent ''bob'') ''busy'']"

definition demo_state :: "unit mem_svc" where
  "demo_state = run (perform in_memory_repo in_memory_events demo_externals) demo_calls svc_init"

lemma demo_reachable: "svc_reachable demo_externals demo_state"
  unfolding demo_state_def
  by (rule reachable_run [OF svc_reachable.init]) code_simp

section \<open>Properties\<close>

text \<open>
  C1. The event log is a faithful history: in every state the service reaches, replaying the
  events of a claim id from the start gives the issue, status, owner, reviewers and pending
  handoffs of the claim stored under that id, and nothing when there is none.
\<close>

theorem service_replay:
  assumes "svc_reachable X s"
  shows "replay (es_log (sv_events s) i) = map_option view (repo_findById (sv_repo s) i)"
  using reachable_inv [OF assms] by (simp add: mem_service.svc_inv_def)

theorem service_replay_witness:
  "replay (es_log (sv_events demo_state) ''claim-1'') =
     map_option view (repo_findById (sv_repo demo_state) ''claim-1'')
   \<and> map_option vw_pending (map_option view (repo_findById (sv_repo demo_state) ''claim-1'')) = Some [''handoff-2'']"
proof
  show "replay (es_log (sv_events demo_state) ''claim-1'') =
     map_option view (repo_findById (sv_repo demo_state) ''claim-1'')"
    by (rule service_replay [OF demo_reachable])
  show "map_option vw_pending (map_option view (repo_findById (sv_repo demo_state) ''claim-1'')) =
      Some [''handoff-2'']"
    by code_simp
qed

text \<open>
  C19. A claim that is completed, released or expired is never changed again, whatever calls
  follow: its record, owner and history entry stay as they are.
\<close>

theorem terminal_claims_final:
  assumes "svc_reachable X s" and "repo_findById (sv_repo s) i = Some c"
    and "terminal_status (cl_status c)"
    and "run_ok (fresh_ids repo_findById) (perform in_memory_repo in_memory_events X) calls s"
  shows "repo_findById (sv_repo (run (perform in_memory_repo in_memory_events X) calls s)) i = Some c"
  using mem_service.run_terminal [OF reachable_inv [OF assms(1)] assms(4,2,3)] .


definition demo_done :: "unit mem_svc" where
  "demo_done = run (perform in_memory_repo in_memory_events demo_externals)
     [CClaim (\<lambda>k. int k) ''1'' ''i1'' (demo_agent ''ann''),
      CUpdateStatus (\<lambda>k. 10) ''i1'' Completed (Some ''ok'')] svc_init"

lemma demo_done_reachable: "svc_reachable demo_externals demo_done"
  unfolding demo_done_def by (rule reachable_run [OF svc_reachable.init]) code_simp

theorem terminal_claims_final_witness:
  "repo_findById (sv_repo (run (perform in_memory_repo in_memory_events demo_externals)
      [CClaim (\<lambda>k. 20) ''2'' ''i1'' (demo_agent ''bob''), CExpireStale (\<lambda>k. 99) \<lparr>du_value = 1, du_unit = Ms\<rparr>]
      demo_done)) ''claim-1'' = Some (the (repo_findById (sv_repo demo_done) ''claim-1''))"
proof (rule terminal_claims_final [OF demo_done_reachable])
  show "repo_findById (sv_repo demo_done) ''claim-1'' = Some (the (repo_findById (sv_repo demo_done) ''claim-1''))"
    by code_simp
  show "terminal_status (cl_status (the (repo_findById (sv_repo demo_done) ''claim-1'')))"
    by code_simp
  show "run_ok (fresh_ids repo_findById) (perform in_memory_repo in_memory_events demo_externals)
      [CClaim (\<lambda>k. 20) ''2'' ''i1'' (demo_agent ''bob''), CExpireStale (\<lambda>k. 99) \<lparr>du_value = 1, du_unit = Ms\<rparr>]
      demo_done"
    by code_simp
qed

text \<open>
  C4. Ownership is transferred only by consent of both sides: when a call changes the owner of a
  stored claim, the call is the acceptance, by the new owner, of a handoff of that claim which was
  pending for that new owner.
\<close>

theorem ownership_transfer:
  assumes "svc_reachable X s" and "fresh_ids repo_findById call s"
    and "repo_findById (sv_repo s) i = Some c"
    and "repo_findById (sv_repo (perform in_memory_repo in_memory_events X call s)) i = Some d"
    and "cl_claimant d \<noteq> cl_claimant c"
  shows "\<exists>clk. call = CAcceptHandoff clk (cl_issueId c) (cl_claimant d) \<and>
    (\<exists>h \<in> set (chain c). pending_for (cl_claimant d) h)"
  using mem_service.perform_owner [OF reachable_inv [OF assms(1)] assms(2-5)] .

theorem ownership_transfer_witness:
  "\<exists>clk. CAcceptHandoff (\<lambda>k. 30) ''i1'' (demo_agent ''bob'') = CAcceptHandoff clk ''i1'' (demo_agent ''bob'') \<and>
     (\<exists>h \<in> set (chain (the (repo_findById (sv_repo demo_state) ''claim-1''))). pending_for (demo_agent ''bob'') h)"
proof -
  let ?call = "CAcceptHandoff (\<lambda>k. 30) ''i1'' (demo_agent ''bob'')"
  let ?c = "the (repo_findById (sv_repo demo_state) ''claim-1'')"
  let ?d = "the (repo_findById (sv_repo (perform in_memory_repo in_memory_events demo_externals ?call
    demo_state)) ''claim-1'')"
  have "repo_findById (sv_repo demo_state) ''claim-1'' = Some ?c" by code_simp
  moreover have "repo_findById (sv_repo (perform in_memory_repo in_memory_events demo_externals ?call
      demo_state)) ''claim-1'' = Some ?d" by code_simp
  moreover have d: "cl_claimant ?d = demo_agent ''bob''" by code_simp
  moreover have "cl_claimant ?d \<noteq> cl_claimant ?c" by code_simp
  moreover have "cl_issueId ?c = ''i1''" by code_simp
  ultimately show ?thesis
    using ownership_transfer [OF demo_reachable, of ?call "''claim-1''" ?c ?d] by auto
qed

text \<open>
  A successful claim is exclusive: afterwards the issue's claim is the one returned, active and
  owned by the caller, its creation is the next entry of its log, no other issue is affected, and
  any further attempt to claim the issue is refused with \<open>ALREADY_CLAIMED\<close>.
\<close>

theorem claim_exclusive:
  assumes "svc_reachable X s" and "repo_findById (sv_repo s) (''claim-'' @ u) = None"
    and "claim in_memory_repo in_memory_events X clk u i w s = (Inr c, s')"
  shows "repo_findByIssueId (sv_repo s') i None = Some c \<and> cl_claimant c = w \<and> cl_status c = Active \<and>
    es_log (sv_events s') (cl_id c) = es_log (sv_events s) (cl_id c) @ [ClaimCreated (cl_id c) i w (clk 1) None] \<and>
    (\<forall>j. j \<noteq> i \<longrightarrow> repo_findByIssueId (sv_repo s') j None = repo_findByIssueId (sv_repo s) j None) \<and>
    (\<forall>clk' u' w'. claim in_memory_repo in_memory_events X clk' u' i w' s' = (Inl ALREADY_CLAIMED, s'))"
proof -
  note ok = mem_service.claim_ok [OF reachable_inv [OF assms(1)] assms(2,3)]
  obtain iss where "issue_findById X i = Some iss"
    using assms(3) by (auto simp: claim_def split: option.splits)
  moreover have f: "repo_findByIssueId r j None = rp_findByIssueId in_memory_repo r j" for r j
    by (simp add: in_memory_repo_def)
  ultimately have "claim in_memory_repo in_memory_events X clk' u' i w' s' = (Inl ALREADY_CLAIMED, s')"
    for clk' u' w'
    using ok by (simp add: claim_def)
  with ok show ?thesis unfolding f by blast
qed

theorem claim_exclusive_witness:
  "\<forall>clk' u' w'. claim in_memory_repo in_memory_events demo_externals clk' u' ''i1'' w'
      (snd (claim in_memory_repo in_memory_events demo_externals (\<lambda>k. 5) ''7'' ''i1'' (demo_agent ''ann'') (svc_init :: unit mem_svc)))
    = (Inl ALREADY_CLAIMED,
       snd (claim in_memory_repo in_memory_events demo_externals (\<lambda>k. 5) ''7'' ''i1'' (demo_agent ''ann'') svc_init))"
proof -
  let ?r = "claim in_memory_repo in_memory_events demo_externals (\<lambda>k. 5) ''7'' ''i1'' (demo_agent ''ann'')
    (svc_init :: unit mem_svc)"
  have "repo_findById (sv_repo (svc_init :: unit mem_svc)) (''claim-'' @ ''7'') = None" by code_simp
  moreover have "\<not> isl (fst ?r)" by code_simp
  then have "?r = (Inr (projr (fst ?r)), snd ?r)" by (simp add: prod_eq_iff)
  ultimately show ?thesis
    using claim_exclusive [OF svc_reachable.init, of "''7''" demo_externals "\<lambda>k. 5" "''i1''"
        "demo_agent ''ann''" "projr (fst ?r)" "snd ?r"] by simp
qed

text \<open>
  Accepting a handoff: when it succeeds there was a pending handoff to the caller, and
  afterwards the same claim is active, owned by the caller, with no pending handoff left and a
  handoff chain of the same length.
\<close>

theorem acceptHandoff_transfers:
  assumes "svc_reachable X s" and "acceptHandoff in_memory_repo in_memory_events clk i w s = (Inr (), s')"
  shows "\<exists>c d. repo_findByIssueId (sv_repo s) i None = Some c \<and> repo_findByIssueId (sv_repo s') i None = Some d \<and>
    cl_id d = cl_id c \<and> cl_claimant d = w \<and> cl_status d = Active \<and> filter pending (chain d) = [] \<and>
    length (chain d) = length (chain c) \<and> (\<exists>h \<in> set (chain c). pending_for w h)"
  using mem_service.acceptHandoff_ok [OF reachable_inv [OF assms(1)] assms(2)]
  by (simp add: in_memory_repo_def)

theorem acceptHandoff_transfers_witness:
  "\<exists>c d. repo_findByIssueId (sv_repo demo_state) ''i1'' None = Some c \<and>
    repo_findByIssueId (sv_repo (snd (acceptHandoff in_memory_repo in_memory_events (\<lambda>k. 40) ''i1''
      (demo_agent ''bob'') demo_state))) ''i1'' None = Some d \<and> cl_claimant d = demo_agent ''bob''"
proof -
  let ?r = "acceptHandoff in_memory_repo in_memory_events (\<lambda>k. 40) ''i1'' (demo_agent ''bob'') demo_state"
  have "\<not> isl (fst ?r)" by code_simp
  then have "?r = (Inr (), snd ?r)" by (cases "fst ?r") (simp_all add: prod_eq_iff)
  from acceptHandoff_transfers [OF demo_reachable this] show ?thesis by blast
qed

text \<open>
  Expiry is exact: \<open>expireStale\<close> turns precisely the active claims whose last activity is
  older than the given age into expired ones, returns those claims, and changes no other claim.
\<close>

theorem expireStale_exact:
  assumes "svc_reachable X s" and "expireStale in_memory_repo in_memory_events clk d s = (cs, s')"
  shows "repo_findById (sv_repo s') i =
      map_option (\<lambda>c. if cl_status c = Active \<and> cl_lastActivityAt c < clk 0 - durationToMs d
                      then c\<lparr>cl_status := Expired\<rparr> else c) (repo_findById (sv_repo s) i)
    \<and> set cs = {c\<lparr>cl_status := Expired\<rparr> | c j. repo_findById (sv_repo s) j = Some c \<and>
        cl_status c = Active \<and> cl_lastActivityAt c < clk 0 - durationToMs d}"
proof -
  note inv = reachable_inv [OF assms(1)]
  note spec = mem_service.expireStale_spec(2,3) [OF inv, of clk d, unfolded assms(2) fst_conv snd_conv]
  let ?old = "\<lambda>c. cl_status c = Active \<and> cl_lastActivityAt c < clk 0 - durationToMs d"
  have wf: "plain_wf (sv_repo s)" "repo_wf (sv_repo s)"
    using inv by (simp_all add: mem_service.svc_inv_def plain_wf_def)
  have old: "filter (\<lambda>c. cl_status c = Active)
      (rp_findStaleClaims in_memory_repo (sv_repo s) (clk 0 - durationToMs d)) =
      filter ?old (jvalues (rs_claims (sv_repo s)))"
    by (auto simp: in_memory_repo_def repo_findStaleClaims_def isActiveStatus_def intro!: filter_cong)
  have mem: "c \<in> set (filter ?old (jvalues (rs_claims (sv_repo s)))) \<longleftrightarrow>
      repo_findById (sv_repo s) (cl_id c) = Some c \<and> ?old c" for c
    by (simp add: repo_values [OF wf(2)])
  have "set cs = {c\<lparr>cl_status := Expired\<rparr> | c j. repo_findById (sv_repo s) j = Some c \<and> ?old c}"
  proof -
    have "{c. repo_findById (sv_repo s) (cl_id c) = Some c \<and> ?old c} =
        {c. \<exists>j. repo_findById (sv_repo s) j = Some c \<and> ?old c}"
      using in_memory.look_id [OF wf(1)] by blast
    moreover have "set cs = (\<lambda>c. c\<lparr>cl_status := Expired\<rparr>) ` {c. repo_findById (sv_repo s) (cl_id c) = Some c \<and> ?old c}"
      unfolding spec(1) old set_map using mem by blast
    ultimately show ?thesis by auto
  qed
  moreover have "repo_findById (sv_repo s') i =
      map_option (\<lambda>c. if ?old c then c\<lparr>cl_status := Expired\<rparr> else c) (repo_findById (sv_repo s) i)"
  proof (cases "find (\<lambda>c. cl_id c = i) (filter ?old (jvalues (rs_claims (sv_repo s))))")
    case None
    then have "\<not> ?old c" if "repo_findById (sv_repo s) i = Some c" for c
      using that mem [of c] in_memory.look_id [OF wf(1) that] by (auto simp: find_none_iff)
    then show ?thesis unfolding spec(2) old None by (cases "repo_findById (sv_repo s) i") auto
  next
    case (Some c)
    then show ?thesis unfolding spec(2) old Some using find_mem [OF Some] mem [of c] by auto
  qed
  ultimately show ?thesis by blast
qed

theorem expireStale_exact_witness:
  "repo_findById (sv_repo (snd (expireStale in_memory_repo in_memory_events (\<lambda>k. 5000)
      \<lparr>du_value = 1, du_unit = Seconds\<rparr>
      (snd (claim in_memory_repo in_memory_events demo_externals (\<lambda>k. 5) ''7'' ''i1'' (demo_agent ''ann'')
        (svc_init :: unit mem_svc)))))) ''claim-7'' \<noteq> None"
proof -
  let ?s = "snd (claim in_memory_repo in_memory_events demo_externals (\<lambda>k. 5) ''7'' ''i1'' (demo_agent ''ann'')
    (svc_init :: unit mem_svc))"
  have "svc_reachable demo_externals ?s"
    using svc_reachable.call [OF svc_reachable.init, of "CClaim (\<lambda>k. 5) ''7'' ''i1'' (demo_agent ''ann'')"]
    by (simp add: svc_init_def createClaimRepository_def repo_findById_def)
  from expireStale_exact [OF this prod.collapse [symmetric], of "\<lambda>k. 5000" "\<lparr>du_value = 1, du_unit = Seconds\<rparr>"
      "''claim-7''"]
  have "repo_findById (sv_repo (snd (expireStale in_memory_repo in_memory_events (\<lambda>k. 5000)
      \<lparr>du_value = 1, du_unit = Seconds\<rparr> ?s))) ''claim-7'' = None \<longleftrightarrow> repo_findById (sv_repo ?s) ''claim-7'' = None"
    by simp
  moreover have "repo_findById (sv_repo ?s) ''claim-7'' \<noteq> None" by code_simp
  ultimately show ?thesis by blast
qed

text \<open>
  No live claim is stuck: while an issue has a current claim, at most two status updates
  bring that claim to \<open>completed\<close>.
\<close>

theorem live_claim_completes:
  assumes "svc_reachable X s" and "repo_findByIssueId (sv_repo s) i None = Some c"
  shows "\<exists>sts d. length sts \<le> 2 \<and> cl_status d = Completed \<and>
    repo_findById (sv_repo (run (perform in_memory_repo in_memory_events X)
      (map (\<lambda>st. CUpdateStatus clk i st None) sts) s)) (cl_id c) = Some d"
  using mem_service.can_complete [OF reachable_inv [OF assms(1)], of i c X clk] assms(2)
  by (simp add: in_memory_repo_def)

theorem live_claim_completes_witness:
  "\<exists>sts d. length sts \<le> 2 \<and> cl_status d = Completed \<and>
    repo_findById (sv_repo (run (perform in_memory_repo in_memory_events demo_externals)
      (map (\<lambda>st. CUpdateStatus (\<lambda>k. 60) ''i1'' st None) sts) demo_state)) ''claim-1'' = Some d"
proof -
  let ?c = "the (repo_findByIssueId (sv_repo demo_state) ''i1'' None)"
  have "repo_findByIssueId (sv_repo demo_state) ''i1'' None = Some ?c" and "cl_id ?c = ''claim-1''"
    by code_simp+
  then show ?thesis
    using live_claim_completes [OF demo_reachable, of "''i1''" ?c "\<lambda>k. 60"] by simp
qed

text \<open>
  The stores are consistent in every reachable state: a claim is stored under its own id, has
  a progress value and at most one pending handoff, its id is in the index entry of its owner, and
  the events of each claim id are numbered 1, 2, 3 and so on without a gap.
\<close>

theorem service_stores_consistent:
  assumes "svc_reachable X s" and "repo_findById (sv_repo s) i = Some c"
  shows "cl_id c = i \<and> cl_progress c \<noteq> None \<and> length (filter pending (chain c)) \<le> 1 \<and>
    i \<in> set (nullish (jget (rs_claimantIndex (sv_repo s)) (ct_id (cl_claimant c))) []) \<and>
    map ev_version (es_getEvents (sv_events s) i None) =
      [1..<Suc (es_getAggregateVersion (sv_events s) i)]"
proof -
  note inv = reachable_inv [OF assms(1), unfolded mem_service.svc_inv_def]
  from inv have "repo_wf (sv_repo s)" and "es_wf (sv_events s)" by (simp_all add: plain_wf_def)
  with inv assms(2) show ?thesis
    unfolding repo_wf_def es_wf_def getEvents_all repo_findById_def by blast
qed

theorem service_stores_consistent_witness:
  "map ev_version (es_getEvents (sv_events demo_state) ''claim-1'' None) = [1, 2, 3]"
proof -
  have "repo_findById (sv_repo demo_state) ''claim-1'' = Some (the (repo_findById (sv_repo demo_state) ''claim-1''))"
    and v: "es_getAggregateVersion (sv_events demo_state) ''claim-1'' = 3"
    by code_simp+
  from service_stores_consistent [OF demo_reachable this(1)] show ?thesis by (simp add: v upt_rec)
qed


text \<open>
  Releasing frees no capacity: the number of claims that \<open>claim\<close> and \<open>acceptHandoff\<close> compare
  with the claimant's maximum is the same before and after a release, so that released claims count
  as concurrent ones for ever.
\<close>

theorem release_frees_no_capacity:
  assumes "svc_reachable X s" and "release in_memory_repo in_memory_events clk i w s = (Inr (), s')"
  shows "repo_countByClaimant (sv_repo s') x = repo_countByClaimant (sv_repo s) x"
proof -
  obtain c where c: "repo_findByIssueId (sv_repo s) i None = Some c"
    and s': "sv_repo s' = repo_save (c\<lparr>cl_status := Released, cl_lastActivityAt := clk 0\<rparr>) (sv_repo s)"
    using assms(2) mem_service.repo_emit
    by (auto simp: release_def Let_def in_memory_repo_def save_def split: option.splits if_splits)
  have wf: "plain_wf (sv_repo s)" using reachable_inv [OF assms(1)] by (simp add: mem_service.svc_inv_def)
  from find_sound_plain [OF wf c] have "jget (rs_claims (sv_repo s)) (cl_id c) = Some c"
    by (simp add: repo_findById_def)
  with wf have "cl_id c \<in> set (nullish (jget (rs_claimantIndex (sv_repo s)) (ct_id (cl_claimant c))) [])"
    unfolding plain_wf_def repo_wf_def by blast
  then show ?thesis
    by (simp add: repo_countByClaimant_def s' repo_save_owned sadd_def)
qed

theorem release_frees_no_capacity_witness:
  "repo_countByClaimant (sv_repo (snd (release in_memory_repo in_memory_events (\<lambda>k. 9) ''i1'' (demo_agent ''ann'')
      (snd (claim in_memory_repo in_memory_events demo_externals (\<lambda>k. 5) ''7'' ''i1'' (demo_agent ''ann'')
        (svc_init :: unit mem_svc)))))) ''ann'' = 1"
proof -
  let ?s = "snd (claim in_memory_repo in_memory_events demo_externals (\<lambda>k. 5) ''7'' ''i1'' (demo_agent ''ann'')
    (svc_init :: unit mem_svc))"
  let ?r = "release in_memory_repo in_memory_events (\<lambda>k. 9) ''i1'' (demo_agent ''ann'') ?s"
  have "svc_reachable demo_externals ?s"
    using svc_reachable.call [OF svc_reachable.init, of "CClaim (\<lambda>k. 5) ''7'' ''i1'' (demo_agent ''ann'')"]
    by (simp add: svc_init_def createClaimRepository_def repo_findById_def)
  moreover have "\<not> isl (fst ?r)" by code_simp
  then have "?r = (Inr (), snd ?r)" by (cases "fst ?r") (simp_all add: prod_eq_iff)
  ultimately have "repo_countByClaimant (sv_repo (snd ?r)) ''ann'' = repo_countByClaimant (sv_repo ?s) ''ann''"
    by (rule release_frees_no_capacity)
  moreover have "repo_countByClaimant (sv_repo ?s) ''ann'' = 1" by code_simp
  ultimately show ?thesis by simp
qed

text \<open>
  A live claim can be claimed over: when the current claim of an issue is live but not
  \<open>active\<close> (paused, blocked, in review, handed over or stealable), a further claim may succeed, and
  then two live claims of the same issue are stored, of which lookups by issue only see the new one.
\<close>

theorem live_claim_overwritten:
  assumes "svc_reachable X s" and "repo_findById (sv_repo s) (''claim-'' @ u) = None"
    and "repo_findByIssueId (sv_repo s) i None = Some c"
    and "claim in_memory_repo in_memory_events X clk u i w s = (Inr d, s')"
  shows "cl_status c \<noteq> Active \<and> isActiveStatus (cl_status c) \<and> cl_id d \<noteq> cl_id c \<and>
    repo_findById (sv_repo s') (cl_id c) = Some c \<and> repo_findByIssueId (sv_repo s') i None = Some d"
proof -
  note inv = reachable_inv [OF assms(1)]
  have f: "repo_findByIssueId r j None = rp_findByIssueId in_memory_repo r j" for r j
    by (simp add: in_memory_repo_def)
  note ok = mem_service.claim_ok [OF inv assms(2,4)]
  have na: "cl_status c \<noteq> Active"
    using assms(4) assms(3) [unfolded f] by (auto simp: claim_def split: option.splits if_splits)
  have c: "repo_findById (sv_repo s) (cl_id c) = Some c" "isActiveStatus (cl_status c)"
    using mem_service.found [OF inv assms(3) [unfolded f]] by auto
  then have ne: "cl_id d \<noteq> cl_id c" using ok assms(2) by auto
  have "repo_findById (sv_repo s') (cl_id c) = Some c"
    using mem_service.perform_permitted [OF inv, of "CClaim clk u i w" "cl_id c" c X] assms(2,4) c(1) by simp
  with na c(2) ne ok show ?thesis unfolding f by blast
qed

theorem live_claim_overwritten_witness:
  "\<exists>c d. isActiveStatus (cl_status c) \<and> cl_id d \<noteq> cl_id c \<and>
     repo_findById (sv_repo (snd (claim in_memory_repo in_memory_events demo_externals (\<lambda>k. 70) ''5'' ''i1''
       (demo_agent ''eve'') demo_state))) (cl_id c) = Some c \<and>
     repo_findByIssueId (sv_repo (snd (claim in_memory_repo in_memory_events demo_externals (\<lambda>k. 70) ''5'' ''i1''
       (demo_agent ''eve'') demo_state))) ''i1'' None = Some d"
proof -
  let ?r = "claim in_memory_repo in_memory_events demo_externals (\<lambda>k. 70) ''5'' ''i1'' (demo_agent ''eve'') demo_state"
  let ?c = "the (repo_findByIssueId (sv_repo demo_state) ''i1'' None)"
  have "repo_findById (sv_repo demo_state) (''claim-'' @ ''5'') = None"
    and "repo_findByIssueId (sv_repo demo_state) ''i1'' None = Some ?c" by code_simp+
  moreover have "\<not> isl (fst ?r)" by code_simp
  then have "?r = (Inr (projr (fst ?r)), snd ?r)" by (simp add: prod_eq_iff)
  ultimately show ?thesis using live_claim_overwritten [OF demo_reachable] by blast
qed


end
