(* ===== verification/FederatedStore.thy ===== *)
theory FederatedStore
  imports ClaimService
begin

text \<open>
  Model of \<open>claims/src/infrastructure/federated-event-store.ts\<close> and
  \<open>federated-claim-repository.ts\<close>: the event store that stamps events with vector clocks and
  hybrid logical clocks, accepts events of other nodes, and rolls back when publishing fails;
  and the repository that delegates to the local one. The bridge that publishes events is not
  part of the model: \<open>publish\<close> is the outcome of its call, \<open>None\<close> when no bridge is configured
  and \<open>Some False\<close> when it throws. The wall clock the HLC reads is an argument.
\<close>

section \<open>Definitions\<close>

datatype fed_error =
    FedNoNodeId
  | ConcurrentWriteError (cw_aggregateId: string) (cw_local: vector_clock) (cw_remote: vector_clock)
  | FedHlcError hlc_error
  | PublishError

type_synonym aggregate_state = "vector_clock \<times> hlc_timestamp option"

record 's federated_store =
  fs_local :: "'s event_store"
  fs_hlc :: local_hlc
  fs_nodeId :: string
  fs_aggregates :: "(string, aggregate_state) jsmap"

definition new_federated_store ::
    "'s event_store \<Rightarrow> local_hlc \<Rightarrow> string \<Rightarrow> fed_error + 's federated_store" where
  "new_federated_store loc hlc nid =
     (if nid = [] then Inl FedNoNodeId
      else Inr \<lparr>fs_local = loc, fs_hlc = hlc, fs_nodeId = nid, fs_aggregates = []\<rparr>)"

definition fed_shutdown :: "'s federated_store \<Rightarrow> 's federated_store" where
  "fed_shutdown s = s\<lparr>fs_local := es_shutdown (fs_local s), fs_aggregates := []\<rparr>"

definition readFederationMetadata :: "claim_event \<Rightarrow> federation_metadata option" where
  "readFederationMetadata event = ev_federation event"

definition writeFederationMetadata :: "claim_event \<Rightarrow> federation_metadata \<Rightarrow> claim_event" where
  "writeFederationMetadata event fm = event\<lparr>ev_federation := Some fm\<rparr>"

definition getAggregateVclock :: "'s federated_store \<Rightarrow> string \<Rightarrow> vector_clock" where
  "getAggregateVclock s a = fst (nullish (jget (fs_aggregates s) a) (zeroVectorClock, None))"

definition wouldConflict :: "'s federated_store \<Rightarrow> string \<Rightarrow> vector_clock \<Rightarrow> bool" where
  "wouldConflict s a remoteVclock = areConcurrent (getAggregateVclock s a) remoteVclock"

text \<open>The loop of the rollback: it removes the last event with the given id.\<close>

fun remove_first :: "('a \<Rightarrow> bool) \<Rightarrow> 'a list \<Rightarrow> 'a list" where
  "remove_first p [] = []"
| "remove_first p (x # xs) = (if p x then xs else x # remove_first p xs)"

definition remove_last :: "('a \<Rightarrow> bool) \<Rightarrow> 'a list \<Rightarrow> 'a list" where
  "remove_last p xs = rev (remove_first p (rev xs))"

definition last_metadata :: "claim_event list \<Rightarrow> string \<Rightarrow> federation_metadata option" where
  "last_metadata events a =
     (case rev (filter (\<lambda>e. ev_aggregateId e = a) events) of
        [] \<Rightarrow> None | e # _ \<Rightarrow> readFederationMetadata e)"

definition rollbackLastAppend :: "claim_event \<Rightarrow> 's federated_store \<Rightarrow> 's federated_store" where
  "rollbackLastAppend stamped s =
     (let events = remove_last (\<lambda>e. ev_id e = ev_id stamped) (es_events (fs_local s));
          s1 = s\<lparr>fs_local := (fs_local s)\<lparr>es_events := events\<rparr>\<rparr>
      in if readFederationMetadata stamped = None then s1
         else
           let lastFm = last_metadata events (ev_aggregateId stamped)
           in s1\<lparr>fs_aggregates := jset (ev_aggregateId stamped)
                   (case lastFm of None \<Rightarrow> (zeroVectorClock, None)
                    | Some fm \<Rightarrow> (fm_vclock fm, Some (fm_hlc fm))) (fs_aggregates s1)\<rparr>)"

definition fed_append ::
    "bool option \<Rightarrow> time \<Rightarrow> claim_event \<Rightarrow> 's federated_store \<Rightarrow> (fed_error + unit) \<times> 's federated_store" where
  "fed_append publish wall event s =
     (case tickVectorClock (getAggregateVclock s (ev_aggregateId event)) (fs_nodeId s) of
        Inl _ \<Rightarrow> (Inl FedNoNodeId, s)
      | Inr nextVclock \<Rightarrow>
          let (nextHlc, hlc') = hlc_now wall (fs_hlc s);
              stamped = writeFederationMetadata event
                \<lparr>fm_hlc = nextHlc, fm_vclock = nextVclock, fm_originNodeId = fs_nodeId s,
                 fm_arrivedFromFederation = False, fm_envelopeSignature = None\<rparr>;
              s1 = s\<lparr>fs_hlc := hlc', fs_local := es_append stamped (fs_local s),
                     fs_aggregates := jset (ev_aggregateId event) (nextVclock, Some nextHlc)
                                        (fs_aggregates s)\<rparr>
          in if publish = Some False then (Inl PublishError, rollbackLastAppend stamped s1)
             else (Inr (), s1))"

text \<open>\<open>appendBatch\<close> stops at the first event that fails. Each event has its own outcome and wall time.\<close>

fun fed_appendBatch ::
    "(bool option \<times> time \<times> claim_event) list \<Rightarrow> 's federated_store \<Rightarrow> (fed_error + unit) \<times> 's federated_store" where
  "fed_appendBatch [] s = (Inr (), s)"
| "fed_appendBatch ((publish, wall, event) # rest) s =
     (case fed_append publish wall event s of
        (Inl e, s') \<Rightarrow> (Inl e, s')
      | (Inr _, s') \<Rightarrow> fed_appendBatch rest s')"

definition applyRemoteEvent ::
    "time \<Rightarrow> claim_event \<Rightarrow> vector_clock \<Rightarrow> hlc_timestamp \<Rightarrow> string option \<Rightarrow> 's federated_store
      \<Rightarrow> (fed_error + unit) \<times> 's federated_store" where
  "applyRemoteEvent wall event remoteVclock remoteHlc sig s =
     (let a = ev_aggregateId event;
          vc = getAggregateVclock s a;
          order = compareVectorClocks vc remoteVclock
      in if order = VConcurrent then (Inl (ConcurrentWriteError a vc remoteVclock), s)
         else if order = VAfter \<or> order = VEqual then (Inr (), s)
         else
           case hlc_update wall remoteHlc (fs_hlc s) of
             Inl e \<Rightarrow> (Inl (FedHlcError e), s)
           | Inr (mergedHlc, hlc') \<Rightarrow>
               let mergedVclock = mergeVectorClocks vc remoteVclock;
                   origin = (case readFederationMetadata event of
                               None \<Rightarrow> ''unknown'' | Some fm \<Rightarrow> fm_originNodeId fm);
                   stamped = writeFederationMetadata event
                     \<lparr>fm_hlc = mergedHlc, fm_vclock = mergedVclock, fm_originNodeId = origin,
                      fm_arrivedFromFederation = True, fm_envelopeSignature = sig\<rparr>
               in (Inr (), s\<lparr>fs_hlc := hlc', fs_local := es_append stamped (fs_local s),
                            fs_aggregates := jset a (mergedVclock, Some mergedHlc) (fs_aggregates s)\<rparr>))"

text \<open>Reads and subscriptions go to the local store.\<close>

definition fed_getEvents :: "'s federated_store \<Rightarrow> string \<Rightarrow> nat option \<Rightarrow> claim_event list" where
  "fed_getEvents s claimId fromVersion = es_getEvents (fs_local s) claimId fromVersion"

definition fed_getEventsByType :: "'s federated_store \<Rightarrow> claim_event_type \<Rightarrow> claim_event list" where
  "fed_getEventsByType s ty = es_getEventsByType (fs_local s) ty"

definition fed_getEventsByIssueId :: "'s federated_store \<Rightarrow> string \<Rightarrow> claim_event list" where
  "fed_getEventsByIssueId s issueId = es_getEventsByIssueId (fs_local s) issueId"

definition fed_subscribe ::
    "claim_event_type list \<Rightarrow> 's federated_store \<Rightarrow> nat \<times> 's federated_store" where
  "fed_subscribe tys s =
     (let (n, loc) = es_subscribe tys (fs_local s) in (n, s\<lparr>fs_local := loc\<rparr>))"

text \<open>
  The federated repository: every operation is that of the local repository; the option
  \<open>includeRemote\<close> of \<open>findByClaimant\<close> is not looked at.
\<close>

definition fr_save :: "issue_claim \<Rightarrow> repo_state \<Rightarrow> repo_state" where
  "fr_save c loc = repo_save c loc"

definition fr_update :: "issue_claim \<Rightarrow> repo_state \<Rightarrow> repo_state" where
  "fr_update c loc = repo_update c loc"

definition fr_delete :: "string \<Rightarrow> repo_state \<Rightarrow> repo_state" where
  "fr_delete claimId loc = repo_delete claimId loc"

definition fr_findById :: "repo_state \<Rightarrow> string \<Rightarrow> issue_claim option" where
  "fr_findById loc claimId = repo_findById loc claimId"

definition fr_findByIssueId :: "repo_state \<Rightarrow> string \<Rightarrow> string option \<Rightarrow> issue_claim option" where
  "fr_findByIssueId loc issueId repository = repo_findByIssueId loc issueId repository"

definition fr_findByClaimant :: "bool option \<Rightarrow> repo_state \<Rightarrow> claimant \<Rightarrow> issue_claim list" where
  "fr_findByClaimant includeRemote loc claimant = repo_findByClaimant loc claimant"

definition fr_findByAgentId :: "repo_state \<Rightarrow> string \<Rightarrow> issue_claim list" where
  "fr_findByAgentId loc agentId = repo_findByAgentId loc agentId"

definition fr_findByStatus :: "repo_state \<Rightarrow> claim_status \<Rightarrow> issue_claim list" where
  "fr_findByStatus loc status = repo_findByStatus loc status"

definition fr_findStealable :: "repo_state \<Rightarrow> agent_type option \<Rightarrow> issue_claim list" where
  "fr_findStealable loc agentType = repo_findStealable loc agentType"

definition fr_findContested :: "repo_state \<Rightarrow> issue_claim list" where
  "fr_findContested loc = repo_findContested loc"

definition fr_findAll :: "repo_state \<Rightarrow> issue_claim list" where
  "fr_findAll loc = repo_findAll loc"

definition fr_countByClaimant :: "repo_state \<Rightarrow> string \<Rightarrow> nat" where
  "fr_countByClaimant loc claimantId = repo_countByClaimant loc claimantId"

definition fr_countByAgentId :: "repo_state \<Rightarrow> string \<Rightarrow> nat" where
  "fr_countByAgentId loc agentId = repo_countByAgentId loc agentId"

definition fr_findActiveClaims :: "repo_state \<Rightarrow> issue_claim list" where
  "fr_findActiveClaims loc = repo_findActiveClaims loc"

definition fr_findStaleClaims :: "repo_state \<Rightarrow> time \<Rightarrow> issue_claim list" where
  "fr_findStaleClaims loc staleSince = repo_findStaleClaims loc staleSince"

definition fr_findClaimsWithPendingHandoffs :: "repo_state \<Rightarrow> issue_claim list" where
  "fr_findClaimsWithPendingHandoffs loc = repo_findClaimsWithPendingHandoffs loc"

definition federated_repo :: "repo_state claim_repo_ops" where
  "federated_repo =
     \<lparr>rp_save = fr_save,
      rp_findByIssueId = (\<lambda>loc i. fr_findByIssueId loc i None),
      rp_findByClaimant = fr_findByClaimant None,
      rp_findStaleClaims = fr_findStaleClaims,
      rp_countByClaimant = fr_countByClaimant\<rparr>"

section \<open>The invariant of the clocks\<close>

lemma vclock_set [simp]:
  "getAggregateVclock (s\<lparr>fs_aggregates := jset a st (fs_aggregates s)\<rparr>) b =
     (if b = a then fst st else getAggregateVclock s b)"
  by (simp add: getAggregateVclock_def)

lemma vclock_frame [simp]:
  "getAggregateVclock (s\<lparr>fs_hlc := h\<rparr>) a = getAggregateVclock s a"
  "getAggregateVclock (s\<lparr>fs_local := l\<rparr>) a = getAggregateVclock s a"
  by (simp_all add: getAggregateVclock_def)

text \<open>
  The node has an id, the clock of an aggregate is the one stamped on its last event (zero when
  it has none), and clocks have distinct node ids.
\<close>

definition last_clock :: "claim_event list \<Rightarrow> string \<Rightarrow> vector_clock" where
  "last_clock events a =
     (case last_metadata events a of None \<Rightarrow> zeroVectorClock | Some fm \<Rightarrow> fm_vclock fm)"

definition fed_inv :: "'s federated_store \<Rightarrow> bool" where
  "fed_inv s \<longleftrightarrow> fs_nodeId s \<noteq> [] \<and> (\<forall>a. vc_wf (getAggregateVclock s a)) \<and>
     (\<forall>a. last_clock (es_events (fs_local s)) a = getAggregateVclock s a)"

lemma last_clock_append:
  "ev_federation e = Some fm \<Longrightarrow> last_clock (es_events (es_append e l)) a =
     (if ev_aggregateId e = a then fm_vclock fm else last_clock (es_events l) a)"
  by (simp add: last_clock_def last_metadata_def readFederationMetadata_def es_append_events)

lemma rolled_back_clock:
  "fst (case last_metadata events a of None \<Rightarrow> (zeroVectorClock, None)
        | Some fm \<Rightarrow> (fm_vclock fm, Some (fm_hlc fm))) = last_clock events a"
  by (simp add: last_clock_def split: option.split)

lemma remove_last_snoc [simp]:
  "remove_last p (xs @ [x]) = (if p x then xs else remove_last p xs @ [x])"
  by (simp add: remove_last_def)

text \<open>A local append: the clock ticks, and the stamped event is the new last one.\<close>

definition stamp :: "time \<Rightarrow> vector_clock \<Rightarrow> claim_event \<Rightarrow> 's federated_store \<Rightarrow> claim_event" where
  "stamp wall v event s = writeFederationMetadata event
     \<lparr>fm_hlc = fst (hlc_now wall (fs_hlc s)), fm_vclock = v, fm_originNodeId = fs_nodeId s,
      fm_arrivedFromFederation = False, fm_envelopeSignature = None\<rparr>"

definition appended :: "time \<Rightarrow> vector_clock \<Rightarrow> claim_event \<Rightarrow> 's federated_store \<Rightarrow> 's federated_store" where
  "appended wall v event s =
     s\<lparr>fs_hlc := snd (hlc_now wall (fs_hlc s)), fs_local := es_append (stamp wall v event s) (fs_local s),
       fs_aggregates := jset (ev_aggregateId event) (v, Some (fst (hlc_now wall (fs_hlc s)))) (fs_aggregates s)\<rparr>"

lemma stamp_simps [simp]:
  "ev_id (stamp wall v event s) = ev_id event"
  "ev_aggregateId (stamp wall v event s) = ev_aggregateId event"
  "ev_payload (stamp wall v event s) = ev_payload event"
  by (simp_all add: stamp_def writeFederationMetadata_def)

lemma stamp_federation: "\<exists>fm. ev_federation (stamp wall v event s) = Some fm \<and> fm_vclock fm = v"
  by (simp add: stamp_def writeFederationMetadata_def)

lemma fed_append_eq:
  assumes "tickVectorClock (getAggregateVclock s (ev_aggregateId event)) (fs_nodeId s) = Inr v"
  shows "fed_append publish wall event s =
    (if publish = Some False
     then (Inl PublishError, rollbackLastAppend (stamp wall v event s) (appended wall v event s))
     else (Inr (), appended wall v event s))"
  using assms by (simp add: fed_append_def appended_def stamp_def split_beta Let_def)

lemma appended_simps [simp]:
  "getAggregateVclock (appended wall v event s) a = (if a = ev_aggregateId event then v else getAggregateVclock s a)"
  "fs_nodeId (appended wall v event s) = fs_nodeId s"
  "fs_local (appended wall v event s) = es_append (stamp wall v event s) (fs_local s)"
  by (simp_all add: appended_def getAggregateVclock_def)

lemma inv_tick:
  assumes "fed_inv s"
  obtains v where "tickVectorClock (getAggregateVclock s a) (fs_nodeId s) = Inr v" "vc_wf v"
    "vle (getAggregateVclock s a) v" "\<not> vle v (getAggregateVclock s a)"
  using assms tick_total [of "fs_nodeId s" "getAggregateVclock s a"] tick_up vc_wf_tick
  unfolding fed_inv_def by metis

lemma inv_appended:
  assumes "fed_inv s" and "vc_wf v"
  shows "fed_inv (appended wall v event s)"
proof -
  obtain fm where "ev_federation (stamp wall v event s) = Some fm" "fm_vclock fm = v"
    using stamp_federation by blast
  with assms show ?thesis by (simp add: fed_inv_def last_clock_append)
qed

text \<open>A rolled back append: the events and all clocks are as before, the version counter is not.\<close>

definition fresh_event :: "claim_event \<Rightarrow> 's federated_store \<Rightarrow> bool" where
  "fresh_event event s \<longleftrightarrow> list_all (\<lambda>e. ev_id e \<noteq> ev_id event) (es_events (fs_local s))"

lemma getAggregateVclock_rolled:
  "getAggregateVclock (s\<lparr>fs_local := l, fs_aggregates := jset a st m\<rparr>) b =
     (if b = a then fst st else getAggregateVclock (s\<lparr>fs_aggregates := m\<rparr>) b)"
  by (simp add: getAggregateVclock_def)

lemma rollback_undoes:
  assumes "fed_inv s"
  shows "es_events (fs_local (rollbackLastAppend (stamp wall v event s) (appended wall v event s))) =
      es_events (fs_local s)"
    and "getAggregateVclock (rollbackLastAppend (stamp wall v event s) (appended wall v event s)) a =
      getAggregateVclock s a"
    and "fs_nodeId (rollbackLastAppend (stamp wall v event s) (appended wall v event s)) = fs_nodeId s"
    and "es_getAggregateVersion (fs_local (rollbackLastAppend (stamp wall v event s) (appended wall v event s)))
      (ev_aggregateId event) = es_getAggregateVersion (fs_local s) (ev_aggregateId event) + 1"
proof -
  have fm: "readFederationMetadata (stamp wall v event s) \<noteq> None"
    by (simp add: readFederationMetadata_def stamp_def writeFederationMetadata_def)
  have ev: "remove_last (\<lambda>e. ev_id e = ev_id event) (es_events (es_append (stamp wall v event s) (fs_local s))) =
      es_events (fs_local s)"
    by (simp add: es_append_events)
  show "es_events (fs_local (rollbackLastAppend (stamp wall v event s) (appended wall v event s))) =
      es_events (fs_local s)"
    "fs_nodeId (rollbackLastAppend (stamp wall v event s) (appended wall v event s)) = fs_nodeId s"
    by (simp_all add: rollbackLastAppend_def Let_def fm ev)
  show "getAggregateVclock (rollbackLastAppend (stamp wall v event s) (appended wall v event s)) a =
      getAggregateVclock s a"
    using assms
    by (simp add: rollbackLastAppend_def Let_def fm ev fed_inv_def getAggregateVclock_rolled rolled_back_clock)
  show "es_getAggregateVersion (fs_local (rollbackLastAppend (stamp wall v event s) (appended wall v event s)))
      (ev_aggregateId event) = es_getAggregateVersion (fs_local s) (ev_aggregateId event) + 1"
    using es_append_version [of "stamp wall v event s" "fs_local s" "ev_aggregateId event"]
    by (simp add: rollbackLastAppend_def Let_def fm es_getAggregateVersion_def)
qed

lemma inv_append:
  assumes "fed_inv s"
  shows "fed_inv (snd (fed_append publish wall event s)) \<and>
    vle (getAggregateVclock s a) (getAggregateVclock (snd (fed_append publish wall event s)) a)"
proof -
  obtain v where v: "tickVectorClock (getAggregateVclock s (ev_aggregateId event)) (fs_nodeId s) = Inr v"
    "vc_wf v" "vle (getAggregateVclock s (ev_aggregateId event)) v"
    using inv_tick [OF assms] by metis
  have "fed_inv (rollbackLastAppend (stamp wall v event s) (appended wall v event s))"
    using assms rollback_undoes [OF assms] by (simp add: fed_inv_def)
  then show ?thesis
    using inv_appended [OF assms v(2)] v rollback_undoes(2) [OF assms]
    by (simp add: fed_append_eq [OF v(1)])
qed

text \<open>A remote event: accepted when the local clock is strictly before the remote one.\<close>

lemma applyRemote_cases:
  assumes "fed_inv s" and "vc_wf rv"
  obtains (conflict) "compareVectorClocks (getAggregateVclock s (ev_aggregateId event)) rv = VConcurrent"
      "applyRemoteEvent wall event rv rh sig s =
        (Inl (ConcurrentWriteError (ev_aggregateId event) (getAggregateVclock s (ev_aggregateId event)) rv), s)"
    | (stale) "vle rv (getAggregateVclock s (ev_aggregateId event))"
      "applyRemoteEvent wall event rv rh sig s = (Inr (), s)"
    | (skew) e where "hlc_update wall rh (fs_hlc s) = Inl e"
      "applyRemoteEvent wall event rv rh sig s = (Inl (FedHlcError e), s)"
    | (accepted) s' where "applyRemoteEvent wall event rv rh sig s = (Inr (), s')"
      "compareVectorClocks (getAggregateVclock s (ev_aggregateId event)) rv = VBefore"
      "fed_inv s'" "fs_nodeId s' = fs_nodeId s"
      "getAggregateVclock s' = (getAggregateVclock s)(ev_aggregateId event :=
         mergeVectorClocks (getAggregateVclock s (ev_aggregateId event)) rv)"
      "es_log (fs_local s') (ev_aggregateId event) =
         es_log (fs_local s) (ev_aggregateId event) @ [ev_payload event]"
proof (cases "compareVectorClocks (getAggregateVclock s (ev_aggregateId event)) rv")
  case VConcurrent
  then show ?thesis using conflict by (simp add: applyRemoteEvent_def Let_def)
next
  case VEqual
  then show ?thesis using stale by (simp add: applyRemoteEvent_def Let_def compare_iffs vequiv_vle)
next
  case VAfter
  then show ?thesis using stale by (simp add: applyRemoteEvent_def Let_def compare_iffs)
next
  case VBefore
  show ?thesis
  proof (cases "hlc_update wall rh (fs_hlc s)")
    case (Inl e)
    then show ?thesis using VBefore skew by (simp add: applyRemoteEvent_def Let_def)
  next
    case (Inr p)
    obtain mh h' where p: "p = (mh, h')" by (cases p)
    let ?a = "ev_aggregateId event"
    let ?mv = "mergeVectorClocks (getAggregateVclock s ?a) rv"
    let ?st = "writeFederationMetadata event \<lparr>fm_hlc = mh, fm_vclock = ?mv,
      fm_originNodeId = (case readFederationMetadata event of None \<Rightarrow> ''unknown'' | Some fm \<Rightarrow> fm_originNodeId fm),
      fm_arrivedFromFederation = True, fm_envelopeSignature = sig\<rparr>"
    let ?s = "s\<lparr>fs_hlc := h', fs_local := es_append ?st (fs_local s),
      fs_aggregates := jset ?a (?mv, Some mh) (fs_aggregates s)\<rparr>"
    have eq: "applyRemoteEvent wall event rv rh sig s = (Inr (), ?s)"
      using VBefore Inr p by (simp add: applyRemoteEvent_def Let_def)
    have vc: "getAggregateVclock ?s = (getAggregateVclock s)(?a := ?mv)"
      by (auto simp: getAggregateVclock_def)
    have st: "ev_aggregateId ?st = ?a" "map_option fm_vclock (ev_federation ?st) = Some ?mv"
      "ev_payload ?st = ev_payload event" by (simp_all add: writeFederationMetadata_def)
    have "vc_wf ?mv" using assms by (simp add: fed_inv_def vc_wf_merge)
    moreover obtain fm where "ev_federation ?st = Some fm" "fm_vclock fm = ?mv" using st(2) by auto
    ultimately have "fed_inv ?s"
      using assms(1) st(1) by (simp add: fed_inv_def vc last_clock_append)
    moreover have "es_log (fs_local ?s) ?a = es_log (fs_local s) ?a @ [ev_payload event]"
      by (simp add: es_log_def aggregate_events_append st)
    ultimately show ?thesis by (intro accepted [OF eq VBefore _ _ vc]) simp_all
  qed
qed


section \<open>Calls of a node\<close>

datatype fed_call =
    FAppend "bool option" time claim_event
  | FRemote time claim_event vector_clock hlc_timestamp "string option"

fun fed_perform :: "fed_call \<Rightarrow> 's federated_store \<Rightarrow> 's federated_store" where
  "fed_perform (FAppend publish wall event) s = snd (fed_append publish wall event s)"
| "fed_perform (FRemote wall event rv rh sig) s = snd (applyRemoteEvent wall event rv rh sig s)"

text \<open>A remote clock arrives as an object, so that its node ids are distinct.\<close>

fun fed_call_ok :: "fed_call \<Rightarrow> bool" where
  "fed_call_ok (FAppend publish wall event) = True"
| "fed_call_ok (FRemote wall event rv rh sig) = vc_wf rv"

lemma fed_perform_step:
  assumes "fed_inv s" and "fed_call_ok call"
  shows "fed_inv (fed_perform call s) \<and> vle (getAggregateVclock s a) (getAggregateVclock (fed_perform call s) a)"
proof (cases call)
  case (FAppend publish wall event)
  then show ?thesis using inv_append [OF assms(1)] by simp
next
  case (FRemote wall event rv rh sig)
  then have rv: "vc_wf rv" using assms(2) by simp
  show ?thesis
    by (rule applyRemote_cases [OF assms(1) rv, of event wall rh sig])
      (use FRemote assms(1) rv in \<open>auto simp: vclock.ub1\<close>)
qed

interpretation fed_system:
  guarded_system "\<lambda>call _. fed_call_ok call" fed_perform
    "\<lambda>s :: 's federated_store. fed_inv s \<and> vle v (getAggregateVclock s a)" for v a
  using fed_perform_step vle_trans by unfold_locales blast

section \<open>The federated stores as providers of the service interfaces\<close>

text \<open>
  Without a bridge, the federated store keeps the promises of the event log; the wall time of an
  append may be any function of the number of events stored.
\<close>

definition federated_events :: "clock \<Rightarrow> 's federated_store event_store_ops" where
  "federated_events clk =
     \<lparr>eo_append = (\<lambda>ev s. snd (fed_append None (clk (length (es_events (fs_local s)))) ev s))\<rparr>"

definition fed_log :: "'s federated_store \<Rightarrow> string \<Rightarrow> event_payload list" where
  "fed_log s a = es_log (fs_local s) a"

definition fed_wf :: "'s federated_store \<Rightarrow> bool" where
  "fed_wf s \<longleftrightarrow> fed_inv s \<and> es_wf (fs_local s)"

interpretation federated_event_log: event_log "federated_events clk" fed_log fed_wf for clk
proof unfold_locales
  fix s :: "'s federated_store" and ev :: claim_event and a
  assume wf: "fed_wf s"
  then have inv: "fed_inv s" and es: "es_wf (fs_local s)" by (simp_all add: fed_wf_def)
  obtain v where v: "tickVectorClock (getAggregateVclock s (ev_aggregateId ev)) (fs_nodeId s) = Inr v" "vc_wf v"
    using inv_tick [OF inv] by metis
  show "fed_log (eo_append (federated_events clk) ev s) a =
      fed_log s a @ (if ev_aggregateId ev = a then [ev_payload ev] else [])"
    by (simp add: federated_events_def fed_append_eq [OF v(1)] fed_log_def es_log_def aggregate_events_append)
  show "fed_wf (eo_append (federated_events clk) ev s)"
    by (simp add: federated_events_def fed_append_eq [OF v(1)] fed_wf_def inv_appended [OF inv v(2)]
        es_wf_append [OF es])
qed

lemma federated_repo_local: "federated_repo = in_memory_repo"
  by (simp add: federated_repo_def in_memory_repo_def fr_save_def fr_findByIssueId_def
      fr_findByClaimant_def fr_findStaleClaims_def fr_countByClaimant_def fun_eq_iff)

interpretation federated_service:
  claim_service federated_repo repo_findById plain_wf "federated_events clk" fed_log fed_wf for clk
proof -
  show "claim_service federated_repo repo_findById plain_wf (federated_events clk) fed_log fed_wf"
    unfolding federated_repo_local
    by (intro claim_service.intro in_memory.claim_repository_axioms federated_event_log.event_log_axioms)
qed

section \<open>Properties\<close>

text \<open>A fresh node, and an event for one claim.\<close>

definition demo_node :: "string \<Rightarrow> unit federated_store" where
  "demo_node n = \<lparr>fs_local = new_event_store,
     fs_hlc = \<lparr>hlc_nodeId = n, maxSkewMs = DEFAULT_MAX_SKEW_MS,
       hlc_last = \<lparr>physicalMs = -1, logical = 0, nodeId = n\<rparr>\<rparr>,
     fs_nodeId = n, fs_aggregates = []\<rparr>"

definition demo_event :: "nat \<Rightarrow> claim_event" where
  "demo_event k = fst (createClaimReleasedEvent (\<lambda>i. int i) 0 ''claim-1'' ''i1'' (demo_agent ''ann'') None k)"

lemma demo_node_inv: "n \<noteq> [] \<Longrightarrow> fed_inv (demo_node n)"
  by (simp add: fed_inv_def demo_node_def getAggregateVclock_def last_clock_def last_metadata_def
      new_event_store_def)

text \<open>
  Causality only grows: along any sequence of local appends (published or rolled back) and
  remote events, the vector clock of each aggregate stays or moves up in the causal order, and it
  is always the clock stamped on the last stored event of the aggregate.
\<close>

theorem fed_clocks_grow:
  assumes "fed_inv s" and "list_all fed_call_ok calls"
  shows "vle (getAggregateVclock s a) (getAggregateVclock (run fed_perform calls s) a) \<and>
    last_clock (es_events (fs_local (run fed_perform calls s))) a = getAggregateVclock (run fed_perform calls s) a"
proof -
  have "run_ok (\<lambda>call _. fed_call_ok call) fed_perform calls s"
    using assms(2) by (induction calls arbitrary: s) auto
  then have "fed_inv (run fed_perform calls s) \<and>
      vle (getAggregateVclock s a) (getAggregateVclock (run fed_perform calls s) a)"
    by (rule fed_system.guarded_run) (simp add: assms(1))
  then show ?thesis by (simp add: fed_inv_def)
qed

theorem fed_clocks_grow_witness:
  "vle (getAggregateVclock (demo_node ''n1'') ''claim-1'')
     (getAggregateVclock (run fed_perform [FAppend None 5 (demo_event 0), FAppend (Some False) 6 (demo_event 1)]
       (demo_node ''n1'')) ''claim-1'')"
  using fed_clocks_grow [OF demo_node_inv, of "''n1''"
      "[FAppend None 5 (demo_event 0), FAppend (Some False) 6 (demo_event 1)]" "''claim-1''"]
  by simp

text \<open>
  Redelivery is harmless: once a remote event has been applied, applying it again, with any
  receive time and signature, succeeds and changes nothing.
\<close>

theorem redelivery_idempotent:
  assumes "fed_inv s" and "vc_wf rv" and "applyRemoteEvent wall event rv rh sig s = (Inr (), s')"
  shows "applyRemoteEvent wall' event rv rh' sig' s' = (Inr (), s')"
proof (rule applyRemote_cases [OF assms(1,2), of event wall rh sig])
  fix t assume t: "applyRemoteEvent wall event rv rh sig s = (Inr (), t)"
    "getAggregateVclock t = (getAggregateVclock s)(ev_aggregateId event :=
       mergeVectorClocks (getAggregateVclock s (ev_aggregateId event)) rv)"
  then have "t = s'" using assms(3) by simp
  with t vclock.accepted_is_stale [OF assms(2), of "getAggregateVclock s (ev_aggregateId event)"]
  show ?thesis by (auto simp: applyRemoteEvent_def Let_def)
next
  assume "vle rv (getAggregateVclock s (ev_aggregateId event))"
    "applyRemoteEvent wall event rv rh sig s = (Inr (), s)"
  then have "s' = s" and "compareVectorClocks (getAggregateVclock s (ev_aggregateId event)) rv \<in> {VEqual, VAfter}"
    using assms(3) by (auto simp: compare_iffs vequiv_vle)
  then show ?thesis by (auto simp: applyRemoteEvent_def Let_def)
qed (use assms(3) in simp_all)

theorem redelivery_idempotent_witness:
  "applyRemoteEvent 9 (demo_event 0) \<lparr>clocks = [(''n2'', 1)]\<rparr> (zeroHlc ''n2'') (Some ''sig'')
     (snd (applyRemoteEvent 5 (demo_event 0) \<lparr>clocks = [(''n2'', 1)]\<rparr> (zeroHlc ''n2'') None (demo_node ''n1'')))
   = (Inr (), snd (applyRemoteEvent 5 (demo_event 0) \<lparr>clocks = [(''n2'', 1)]\<rparr> (zeroHlc ''n2'') None (demo_node ''n1'')))"
proof -
  let ?r = "applyRemoteEvent 5 (demo_event 0) \<lparr>clocks = [(''n2'', 1)]\<rparr> (zeroHlc ''n2'') None (demo_node ''n1'')"
  have "\<not> isl (fst ?r)" by code_simp
  then have r: "?r = (Inr (), snd ?r)" by (cases "fst ?r") (simp_all add: prod_eq_iff)
  have "vc_wf \<lparr>clocks = [(''n2'', 1)]\<rparr>" by (simp add: vc_wf_def jwf_def jkeys_def)
  from redelivery_idempotent [OF demo_node_inv this r] show ?thesis by simp
qed


text \<open>
  A failed publish is rolled back: the append reports the error, and the stored events and the
  vector clocks of all aggregates are exactly as before.
\<close>

theorem failed_publish_rolled_back:
  assumes "fed_inv s" and "fed_append (Some False) wall event s = (r, s')"
  shows "r = Inl PublishError \<and> es_events (fs_local s') = es_events (fs_local s) \<and>
    (\<forall>a. getAggregateVclock s' a = getAggregateVclock s a)"
proof -
  obtain v where "tickVectorClock (getAggregateVclock s (ev_aggregateId event)) (fs_nodeId s) = Inr v"
    using inv_tick [OF assms(1)] by metis
  from fed_append_eq [OF this, of "Some False" wall] assms(2)
  have "r = Inl PublishError" and s': "s' = rollbackLastAppend (stamp wall v event s) (appended wall v event s)"
    by simp_all
  then show ?thesis using rollback_undoes(1,2) [OF assms(1)] by simp
qed

theorem failed_publish_rolled_back_witness:
  "es_events (fs_local (snd (fed_append (Some False) 7 (demo_event 0) (demo_node ''n1'')))) =
     es_events (fs_local (demo_node ''n1''))"
  using failed_publish_rolled_back [OF demo_node_inv prod.collapse [symmetric]] by simp

text \<open>
  The rollback leaves the version counter of the local store advanced: after a failed publish
  the next event of the aggregate is stored with a version that skips one number.
\<close>

theorem failed_publish_version_gap:
  assumes "fed_inv s" and "es_wf (fs_local s)"
    and "fed_append (Some False) wall event s = (r, s')" and "fed_append None wall' event' s' = (r', s'')"
    and "ev_aggregateId event' = ev_aggregateId event"
  shows "map ev_version (es_getEvents (fs_local s'') (ev_aggregateId event) None) =
    [1..<Suc (es_getAggregateVersion (fs_local s) (ev_aggregateId event))] @
    [es_getAggregateVersion (fs_local s) (ev_aggregateId event) + 2]"
proof -
  let ?a = "ev_aggregateId event"
  obtain v where v: "tickVectorClock (getAggregateVclock s ?a) (fs_nodeId s) = Inr v"
    using inv_tick [OF assms(1)] by metis
  from fed_append_eq [OF this, of "Some False" wall] assms(3)
  have s': "s' = rollbackLastAppend (stamp wall v event s) (appended wall v event s)" by simp
  have ev: "es_events (fs_local s') = es_events (fs_local s)"
    and ver: "es_getAggregateVersion (fs_local s') ?a = es_getAggregateVersion (fs_local s) ?a + 1"
    unfolding s' using rollback_undoes(1,4) [OF assms(1)] by simp_all
  have "fs_nodeId s' = fs_nodeId s" and "getAggregateVclock s' ?a = getAggregateVclock s ?a"
    unfolding s' using rollback_undoes(2,3) [OF assms(1)] by simp_all
  with v assms(5) have "tickVectorClock (getAggregateVclock s' (ev_aggregateId event')) (fs_nodeId s') = Inr v" by simp
  from fed_append_eq [OF this, of None wall'] assms(4) have "s'' = appended wall' v event' s'" by simp
  moreover have "map ev_version (aggregate_events (fs_local s) ?a) = [1..<Suc (es_getAggregateVersion (fs_local s) ?a)]"
    using assms(2) by (simp add: es_wf_def)
  moreover have "aggregate_events (fs_local s') ?a = aggregate_events (fs_local s) ?a"
    by (simp add: aggregate_events_def ev)
  ultimately show ?thesis using assms(5) by (simp add: getEvents_all aggregate_events_append ver)
qed

theorem failed_publish_version_gap_witness:
  "map ev_version (es_getEvents (fs_local (snd (fed_append None 8 (demo_event 1)
     (snd (fed_append (Some False) 7 (demo_event 0) (demo_node ''n1'')))))) ''claim-1'' None) = [2]"
proof -
  have a: "ev_aggregateId (demo_event k) = ''claim-1''" for k
    by (simp add: demo_event_def createClaimReleasedEvent_def createClaimEvent_def generateEventId_def)
  have "es_wf (fs_local (demo_node ''n1''))" by (simp add: demo_node_def)
  from failed_publish_version_gap [where wall = 7 and event = "demo_event 0" and wall' = 8 and event' = "demo_event 1",
      OF demo_node_inv this prod.collapse [symmetric] prod.collapse [symmetric]]
  show ?thesis by (simp add: a demo_node_def es_getAggregateVersion_def new_event_store_def)
qed

text \<open>
  Replication converges: when two nodes agree on the clock of an aggregate and one of them
  appends an event, the other node accepts that event with the clock it was published with, unless
  its hybrid clock refuses the timestamp; afterwards the two nodes agree on the clock again and the
  event's payload is the last one in both logs.
\<close>

theorem replication_converges:
  assumes "fed_inv s" and "fed_inv t"
    and "vequiv (getAggregateVclock t (ev_aggregateId event)) (getAggregateVclock s (ev_aggregateId event))"
    and "fed_append publish wall event s = (Inr (), s')"
    and "applyRemoteEvent wall' event (getAggregateVclock s' (ev_aggregateId event)) rh sig t = (r, t')"
    and "\<not> isl (hlc_update wall' rh (fs_hlc t))"
  shows "r = Inr () \<and>
    vequiv (getAggregateVclock t' (ev_aggregateId event)) (getAggregateVclock s' (ev_aggregateId event)) \<and>
    last (es_log (fs_local s') (ev_aggregateId event)) = ev_payload event \<and>
    last (es_log (fs_local t') (ev_aggregateId event)) = ev_payload event"
proof -
  let ?a = "ev_aggregateId event"
  obtain v where v: "tickVectorClock (getAggregateVclock s ?a) (fs_nodeId s) = Inr v" "vc_wf v"
    "vle (getAggregateVclock s ?a) v" "\<not> vle v (getAggregateVclock s ?a)"
    using inv_tick [OF assms(1)] by metis
  from fed_append_eq [OF v(1)] assms(4) have s': "s' = appended wall v event s"
    by (simp split: if_splits)
  have ts: "vle (getAggregateVclock t ?a) (getAggregateVclock s ?a)" "vle (getAggregateVclock s ?a) (getAggregateVclock t ?a)"
    using assms(3) by (simp_all add: vequiv_vle)
  have before: "compareVectorClocks (getAggregateVclock t ?a) v = VBefore"
    unfolding compare_before using vle_trans [OF ts(1) v(3)] vle_trans [OF _ ts(1), of v] v(4) by blast
  have rv: "getAggregateVclock s' ?a = v" by (simp add: s')
  note ap = assms(5) [unfolded rv]
  show ?thesis
  proof (rule applyRemote_cases [OF assms(2) v(2), of event wall' rh sig])
    fix u assume u: "applyRemoteEvent wall' event v rh sig t = (Inr (), u)"
      "getAggregateVclock u = (getAggregateVclock t)(?a := mergeVectorClocks (getAggregateVclock t ?a) v)"
      "es_log (fs_local u) ?a = es_log (fs_local t) ?a @ [ev_payload event]"
    then have "r = Inr ()" and "t' = u" using ap by auto
    moreover have "vequiv (mergeVectorClocks (getAggregateVclock t ?a) v) v"
      using vclock.accepted_equals [OF v(2) before] by (simp add: compare_equal)
    ultimately show ?thesis using u
      by (simp add: s' es_log_def aggregate_events_append)
  next
    assume "vle v (getAggregateVclock t ?a)"
    then show ?thesis using before by (simp add: compare_before)
  qed (use before assms(6) in \<open>simp_all\<close>)
qed

theorem replication_converges_witness:
  "vequiv (getAggregateVclock (snd (applyRemoteEvent 6 (demo_event 0)
      (getAggregateVclock (snd (fed_append None 5 (demo_event 0) (demo_node ''n1''))) ''claim-1'')
      (zeroHlc ''n1'') None (demo_node ''n2''))) ''claim-1'')
    (getAggregateVclock (snd (fed_append None 5 (demo_event 0) (demo_node ''n1''))) ''claim-1'')"
proof -
  let ?s = "snd (fed_append None 5 (demo_event 0) (demo_node ''n1''))"
  have a: "ev_aggregateId (demo_event 0) = ''claim-1''" by code_simp
  have "\<not> isl (fst (fed_append None 5 (demo_event 0) (demo_node ''n1'')))" by code_simp
  then have s: "fed_append None 5 (demo_event 0) (demo_node ''n1'') = (Inr (), ?s)"
    by (cases "fst (fed_append None 5 (demo_event 0) (demo_node ''n1''))") (simp_all add: prod_eq_iff)
  have v: "vequiv (getAggregateVclock (demo_node ''n2'') (ev_aggregateId (demo_event 0)))
      (getAggregateVclock (demo_node ''n1'') (ev_aggregateId (demo_event 0)))"
    by (simp add: demo_node_def getAggregateVclock_def vequiv_vle)
  have h: "\<not> isl (hlc_update 6 (zeroHlc ''n1'') (fs_hlc (demo_node ''n2'')))" by code_simp
  from replication_converges [OF demo_node_inv demo_node_inv v s prod.collapse [symmetric] h, of None]
  show ?thesis by (simp add: a)
qed


text \<open>
  C17. Split brain is detected: when two nodes with different ids agree on the clock of an aggregate
  and both append an event to it, each of them refuses the event of the other one as a concurrent
  write and keeps its state.
\<close>

theorem split_brain_detected:
  assumes "fed_inv s" and "fed_inv t" and "fs_nodeId s \<noteq> fs_nodeId t"
    and "vequiv (getAggregateVclock s a) (getAggregateVclock t a)"
    and "ev_aggregateId e = a" and "ev_aggregateId e' = a"
    and "fed_append publish wall e s = (Inr (), s')" and "fed_append publish' wall' e' t = (Inr (), t')"
  shows "applyRemoteEvent w e' (getAggregateVclock t' a) rh sig s' =
      (Inl (ConcurrentWriteError a (getAggregateVclock s' a) (getAggregateVclock t' a)), s') \<and>
    applyRemoteEvent w e (getAggregateVclock s' a) rh sig t' =
      (Inl (ConcurrentWriteError a (getAggregateVclock t' a) (getAggregateVclock s' a)), t')"
proof -
  obtain v where v: "tickVectorClock (getAggregateVclock s a) (fs_nodeId s) = Inr v"
    using inv_tick [OF assms(1)] by metis
  obtain v' where v': "tickVectorClock (getAggregateVclock t a) (fs_nodeId t) = Inr v'"
    using inv_tick [OF assms(2)] by metis
  have s': "getAggregateVclock s' a = v" and t': "getAggregateVclock t' a = v'"
    using fed_append_eq [of s e v publish wall] fed_append_eq [of t e' v' publish' wall'] v v' assms(5-8)
    by (simp_all split: if_splits)
  have "vget v (fs_nodeId s) > vget v' (fs_nodeId s)" and "vget v' (fs_nodeId t) > vget v (fs_nodeId t)"
    using vget_tick [OF v] vget_tick [OF v'] assms(3,4) by (simp_all add: vequiv_def)
  then have "\<not> vle v v'" and "\<not> vle v' v" by (auto simp: vle_def not_le)
  then have "compareVectorClocks v v' = VConcurrent" "compareVectorClocks v' v = VConcurrent"
    by (simp_all add: compare_concurrent)
  then show ?thesis using s' t' assms(5,6) by (simp add: applyRemoteEvent_def Let_def)
qed

theorem split_brain_detected_witness:
  "isl (fst (applyRemoteEvent 9 (demo_event 1)
      (getAggregateVclock (snd (fed_append None 6 (demo_event 1) (demo_node ''n2''))) ''claim-1'') (zeroHlc ''n2'') None
      (snd (fed_append None 5 (demo_event 0) (demo_node ''n1'')))))"
proof -
  let ?s = "fed_append None 5 (demo_event 0) (demo_node ''n1'')"
  let ?t = "fed_append None 6 (demo_event 1) (demo_node ''n2'')"
  have "\<not> isl (fst ?s)" and "\<not> isl (fst ?t)" by code_simp+
  then have "?s = (Inr (), snd ?s)" and "?t = (Inr (), snd ?t)"
    by (cases "fst ?s", simp_all add: prod_eq_iff) (cases "fst ?t", simp_all add: prod_eq_iff)
  moreover have "fs_nodeId (demo_node ''n1'') \<noteq> fs_nodeId (demo_node ''n2'')"
    and "vequiv (getAggregateVclock (demo_node ''n1'') ''claim-1'') (getAggregateVclock (demo_node ''n2'') ''claim-1'')"
    by (simp_all add: demo_node_def getAggregateVclock_def vequiv_vle)
  moreover have "ev_aggregateId (demo_event 0) = ''claim-1''" "ev_aggregateId (demo_event 1) = ''claim-1''"
    by code_simp+
  ultimately show ?thesis
    using split_brain_detected [OF demo_node_inv demo_node_inv, of "''n1''" "''n2''" "''claim-1''" "demo_event 0"
        "demo_event 1" None 5 "snd ?s" None 6 "snd ?t" 9 "zeroHlc ''n2''" None]
    by simp
qed

text \<open>
  The claim service on a federated node that does not publish: the laws of its interfaces hold for the
  federated stores as well, so the log of each claim replays to the stored claim. With a publisher this
  fails, because a failed publish takes back the event of a claim that is already saved.
\<close>

lemma unpublished_replay:
  assumes "fs_nodeId n \<noteq> []" and "fs_local n = new_event_store" and "fs_aggregates n = []"
    and "run_ok (fresh_ids repo_findById) (perform federated_repo (federated_events clk) X) calls
      \<lparr>sv_repo = createClaimRepository, sv_events = n, sv_counter = 0\<rparr>"
  shows "let s = run (perform federated_repo (federated_events clk) X) calls
      \<lparr>sv_repo = createClaimRepository, sv_events = n, sv_counter = 0\<rparr>
    in replay (es_log (fs_local (sv_events s)) i) = map_option view (repo_findById (sv_repo s) i)"
proof -
  let ?s = "\<lparr>sv_repo = createClaimRepository, sv_events = n, sv_counter = 0\<rparr>"
  have "fed_wf n"
    using assms(1-3) by (simp add: fed_wf_def fed_inv_def getAggregateVclock_def last_clock_def
        last_metadata_def) (simp add: new_event_store_def)
  then have "federated_service.svc_inv ?s"
    using svc_init_inv [unfolded mem_service.svc_inv_def svc_init_def] assms(2)
    by (simp add: federated_service.svc_inv_def fed_log_def)
  moreover have "federated_service.svc_inv (run (perform federated_repo (federated_events clk) X) calls s)"
    if "federated_service.svc_inv s"
      "run_ok (fresh_ids repo_findById) (perform federated_repo (federated_events clk) X) calls s" for s
    using that
    by (induction calls arbitrary: s) (auto simp: federated_service.perform_inv)
  ultimately show ?thesis
    using assms(4) unfolding federated_service.svc_inv_def fed_log_def Let_def by blast
qed

end
