(* ===== verification/CircuitBreaker.thy ===== *)
theory CircuitBreaker
  imports Prelude
begin

text \<open>
  Model of \<open>shared/src/resilience/circuit-breaker.ts\<close>. A call of \<open>execute\<close> waits for the protected
  function, so that calls overlap; it is modelled as its parts that run without interruption: the
  admission (\<open>execute_begin\<close>), the handling of the outcome (\<open>onSuccess\<close>, \<open>onFailure\<close>), and the
  callback of the timer. \<open>clk k\<close> is the \<open>k\<close>-th clock read of such a part. Listeners are client
  code: the notifications they get are recorded in \<open>cb_changes\<close>.
\<close>

section \<open>Definitions\<close>

datatype circuit_state = CLOSED | OPEN | HALF_OPEN

record cb_options =
  failureThreshold :: nat
  successThreshold :: nat
  cb_timeout :: time
  rollingWindow :: time
  volumeThreshold :: nat

definition CB_DEFAULT_OPTIONS :: cb_options where
  "CB_DEFAULT_OPTIONS = \<lparr>failureThreshold = 5, successThreshold = 3, cb_timeout = 30000,
     rollingWindow = 60000, volumeThreshold = 10\<rparr>"

record request_entry =
  re_timestamp :: time
  re_success :: bool

text \<open>\<open>cb_timer\<close> is the time at which the pending timer is due, \<open>None\<close> when no timer is pending.\<close>

record breaker =
  cb_state :: circuit_state
  cb_requests :: "request_entry list"
  cb_halfOpenSuccesses :: nat
  cb_openedAt :: "time option"
  cb_lastFailure :: "time option"
  cb_lastSuccess :: "time option"
  cb_rejectedCount :: nat
  cb_timer :: "time option"
  cb_changes :: "(circuit_state \<times> circuit_state) list"

definition new_breaker :: breaker where
  "new_breaker = \<lparr>cb_state = CLOSED, cb_requests = [], cb_halfOpenSuccesses = 0, cb_openedAt = None,
     cb_lastFailure = None, cb_lastSuccess = None, cb_rejectedCount = 0, cb_timer = None,
     cb_changes = []\<rparr>"

definition notifyStateChange :: "circuit_state \<Rightarrow> circuit_state \<Rightarrow> breaker \<Rightarrow> breaker" where
  "notifyStateChange from to b = b\<lparr>cb_changes := cb_changes b @ [(from, to)]\<rparr>"

definition cleanOldRequests :: "cb_options \<Rightarrow> time \<Rightarrow> breaker \<Rightarrow> breaker" where
  "cleanOldRequests opt now b =
     b\<lparr>cb_requests := filter (\<lambda>r. re_timestamp r \<ge> now - rollingWindow opt) (cb_requests b)\<rparr>"

text \<open>The timer set at \<open>now\<close> is due after the timeout; a pending one is cancelled.\<close>

definition scheduleHalfOpen :: "cb_options \<Rightarrow> time \<Rightarrow> breaker \<Rightarrow> breaker" where
  "scheduleHalfOpen opt now b = b\<lparr>cb_timer := Some (now + cb_timeout opt)\<rparr>"

definition transitionTo :: "cb_options \<Rightarrow> time \<Rightarrow> circuit_state \<Rightarrow> breaker \<Rightarrow> breaker" where
  "transitionTo opt now newState b =
     (if cb_state b = newState then b
      else
        let previousState = cb_state b;
            b1 = b\<lparr>cb_state := newState\<rparr>;
            b2 = (if newState = OPEN then scheduleHalfOpen opt now (b1\<lparr>cb_openedAt := Some now\<rparr>)
                  else if newState = CLOSED
                  then b1\<lparr>cb_openedAt := None, cb_requests := [], cb_timer := None\<rparr>
                  else b1)
        in notifyStateChange previousState newState b2)"

definition checkState :: "cb_options \<Rightarrow> time \<Rightarrow> breaker \<Rightarrow> breaker" where
  "checkState opt now b =
     (case cb_openedAt b of
        None \<Rightarrow> b
      | Some t \<Rightarrow>
          if cb_state b = OPEN \<and> now - t \<ge> cb_timeout opt then transitionTo opt now HALF_OPEN b else b)"

text \<open>The admission: \<open>True\<close> when the function is called, \<open>False\<close> when the call is rejected.\<close>

definition execute_begin :: "cb_options \<Rightarrow> clock \<Rightarrow> breaker \<Rightarrow> bool \<times> breaker" where
  "execute_begin opt clk b =
     (let b1 = checkState opt (clk 1) (cleanOldRequests opt (clk 0) b)
      in if cb_state b1 = OPEN then (False, b1\<lparr>cb_rejectedCount := cb_rejectedCount b1 + 1\<rparr>)
         else (True, b1))"

definition onSuccess :: "cb_options \<Rightarrow> clock \<Rightarrow> breaker \<Rightarrow> breaker" where
  "onSuccess opt clk b =
     (let b0 = cleanOldRequests opt (clk 0) b;
          b1 = b0\<lparr>cb_lastSuccess := Some (clk 1),
                  cb_requests := cb_requests b0 @ [\<lparr>re_timestamp = clk 2, re_success = True\<rparr>]\<rparr>
      in if cb_state b1 = HALF_OPEN
         then
           let b2 = b1\<lparr>cb_halfOpenSuccesses := cb_halfOpenSuccesses b1 + 1\<rparr>
           in if cb_halfOpenSuccesses b2 \<ge> successThreshold opt
              then (transitionTo opt (clk 3) CLOSED b2)\<lparr>cb_halfOpenSuccesses := 0\<rparr>
              else b2
         else b1)"

definition onFailure :: "cb_options \<Rightarrow> clock \<Rightarrow> breaker \<Rightarrow> breaker" where
  "onFailure opt clk b =
     (let b0 = cleanOldRequests opt (clk 0) b;
          b1 = b0\<lparr>cb_lastFailure := Some (clk 1),
                  cb_requests := cb_requests b0 @ [\<lparr>re_timestamp = clk 2, re_success = False\<rparr>]\<rparr>
      in if cb_state b1 = HALF_OPEN
         then (transitionTo opt (clk 3) OPEN b1)\<lparr>cb_halfOpenSuccesses := 0\<rparr>
         else
           let failures = length (filter (\<lambda>r. \<not> re_success r) (cb_requests b1));
               totalRequests = length (cb_requests b1)
           in if totalRequests \<ge> volumeThreshold opt \<and> failures \<ge> failureThreshold opt
              then transitionTo opt (clk 3) OPEN b1 else b1)"

text \<open>The rest of \<open>execute\<close> after an admission: \<open>Some isFailure\<close> when the function threw.\<close>

definition execute_end :: "cb_options \<Rightarrow> clock \<Rightarrow> bool option \<Rightarrow> breaker \<Rightarrow> breaker" where
  "execute_end opt clk outcome b =
     (case outcome of
        None \<Rightarrow> onSuccess opt clk b
      | Some isFailure \<Rightarrow> if isFailure then onFailure opt clk b else b)"

text \<open>The callback of the timer.\<close>

definition timer_fires :: "cb_options \<Rightarrow> time \<Rightarrow> breaker \<Rightarrow> breaker" where
  "timer_fires opt now b =
     (let b1 = b\<lparr>cb_timer := None\<rparr>
      in if cb_state b1 = OPEN then transitionTo opt now HALF_OPEN b1 else b1)"

definition getState :: "cb_options \<Rightarrow> time \<Rightarrow> breaker \<Rightarrow> circuit_state \<times> breaker" where
  "getState opt now b = (let b' = checkState opt now b in (cb_state b', b'))"

record cb_stats =
  st_state :: circuit_state
  st_failures :: nat
  st_successes :: nat
  st_totalRequests :: nat
  st_rejectedRequests :: nat
  st_lastFailure :: "time option"
  st_lastSuccess :: "time option"
  st_openSince :: "time option"

definition getStats :: "cb_options \<Rightarrow> time \<Rightarrow> breaker \<Rightarrow> cb_stats \<times> breaker" where
  "getStats opt now b =
     (let b' = cleanOldRequests opt now b
      in (\<lparr>st_state = cb_state b',
           st_failures = length (filter (\<lambda>r. \<not> re_success r) (cb_requests b')),
           st_successes = length (filter re_success (cb_requests b')),
           st_totalRequests = length (cb_requests b'),
           st_rejectedRequests = cb_rejectedCount b',
           st_lastFailure = cb_lastFailure b', st_lastSuccess = cb_lastSuccess b',
           st_openSince = cb_openedAt b'\<rparr>, b'))"

definition cb_reset :: "breaker \<Rightarrow> breaker" where
  "cb_reset b =
     (let previousState = cb_state b;
          b1 = b\<lparr>cb_state := CLOSED, cb_requests := [], cb_halfOpenSuccesses := 0,
                 cb_openedAt := None, cb_timer := None\<rparr>
      in if previousState \<noteq> CLOSED then notifyStateChange previousState CLOSED b1 else b1)"

section \<open>Steps\<close>

datatype cb_step =
    CBegin clock
  | CEnd clock "bool option"
  | CTimer time
  | CGetState time
  | CGetStats time
  | CReset

fun cb_do :: "cb_options \<Rightarrow> cb_step \<Rightarrow> breaker \<Rightarrow> breaker" where
  "cb_do opt (CBegin clk) b = snd (execute_begin opt clk b)"
| "cb_do opt (CEnd clk outcome) b = execute_end opt clk outcome b"
| "cb_do opt (CTimer now) b = timer_fires opt now b"
| "cb_do opt (CGetState now) b = snd (getState opt now b)"
| "cb_do opt (CGetStats now) b = snd (getStats opt now b)"
| "cb_do opt CReset b = cb_reset b"

lemmas cb_defs [handler_defs] =
  execute_begin_def execute_end_def onSuccess_def onFailure_def timer_fires_def getState_def
  getStats_def cb_reset_def checkState_def transitionTo_def scheduleHalfOpen_def
  cleanOldRequests_def notifyStateChange_def Let_def

section \<open>Invariants\<close>

text \<open>
  A closed circuit has no opening time and no timer, an open one has a timer due at its opening
  time plus the timeout, and successes are counted only while half open, below the threshold.
\<close>

definition cb_inv :: "cb_options \<Rightarrow> breaker \<Rightarrow> bool" where
  "cb_inv opt b \<longleftrightarrow>
     (case cb_state b of
        CLOSED \<Rightarrow> cb_openedAt b = None \<and> cb_timer b = None \<and> cb_halfOpenSuccesses b = 0
      | OPEN \<Rightarrow> (\<exists>t. cb_openedAt b = Some t \<and> cb_timer b = Some (t + cb_timeout opt)) \<and>
                cb_halfOpenSuccesses b = 0
      | HALF_OPEN \<Rightarrow> cb_openedAt b \<noteq> None \<and> cb_halfOpenSuccesses b < max 1 (successThreshold opt))"

lemma cb_inv_clean [simp]: "cb_inv opt (cleanOldRequests opt now b) = cb_inv opt b"
  by (cases "cb_state b") (simp_all add: cb_inv_def cleanOldRequests_def)

lemma cb_inv_begin: "cb_inv opt b \<Longrightarrow> cb_inv opt (snd (execute_begin opt clk b))"
  by (cases "cb_state b") (auto simp: cb_inv_def cb_defs split: if_splits option.splits)

lemma cb_inv_success: "cb_inv opt b \<Longrightarrow> cb_inv opt (onSuccess opt clk b)"
  by (cases "cb_state b") (auto simp: cb_inv_def cb_defs)

lemma cb_inv_failure: "cb_inv opt b \<Longrightarrow> cb_inv opt (onFailure opt clk b)"
  by (cases "cb_state b") (auto simp: cb_inv_def cb_defs)

lemma cb_inv_other:
  "cb_inv opt b \<Longrightarrow> cb_inv opt (timer_fires opt now b)"
  "cb_inv opt b \<Longrightarrow> cb_inv opt (snd (getState opt now b))"
  "cb_inv opt b \<Longrightarrow> cb_inv opt (snd (getStats opt now b))"
  "cb_inv opt (cb_reset b)"
  by (cases "cb_state b", auto simp: cb_inv_def cb_defs split: option.splits)+

interpretation cb_system: invariant_system "cb_do opt" "cb_inv opt" for opt
proof unfold_locales
  fix b a assume "cb_inv opt b"
  then show "cb_inv opt (cb_do opt a b)"
    by (cases a) (auto simp: cb_inv_begin cb_inv_other cb_inv_success cb_inv_failure execute_end_def
        split: option.split)
qed

text \<open>The recorded notifications form a path from \<open>CLOSED\<close> to the current state.\<close>

fun cb_path :: "(circuit_state \<times> circuit_state) set \<Rightarrow> circuit_state \<Rightarrow> (circuit_state \<times> circuit_state) list
      \<Rightarrow> circuit_state \<Rightarrow> bool" where
  "cb_path E s [] t \<longleftrightarrow> s = t"
| "cb_path E s ((a, b) # es) t \<longleftrightarrow> a = s \<and> (a, b) \<in> E \<and> cb_path E b es t"

definition cb_edges :: "(circuit_state \<times> circuit_state) set" where
  "cb_edges = {(CLOSED, OPEN), (OPEN, HALF_OPEN), (HALF_OPEN, OPEN), (HALF_OPEN, CLOSED)}"

lemma cb_path_snoc: "cb_path E s (es @ [(a, b)]) t \<longleftrightarrow> cb_path E s es a \<and> (a, b) \<in> E \<and> b = t"
  by (induction E s es t rule: cb_path.induct) auto

lemma cb_do_path:
  assumes "a \<noteq> CReset" and "cb_path cb_edges CLOSED (cb_changes b) (cb_state b)"
  shows "cb_path cb_edges CLOSED (cb_changes (cb_do opt a b)) (cb_state (cb_do opt a b))"
  using assms
  by (cases a; cases "cb_state b")
    (auto simp: cb_defs cb_path_snoc cb_edges_def split: option.split)

interpretation cb_graph:
  guarded_system "\<lambda>a _. a \<noteq> CReset" "cb_do opt" "\<lambda>b. cb_path cb_edges CLOSED (cb_changes b) (cb_state b)" for opt
  by unfold_locales (rule cb_do_path)

text \<open>
  A step before the timeout of a circuit opened at \<open>t0\<close>: every clock read is before \<open>t0\<close> plus the
  timeout, the timer callback runs when its timer is due, and nobody resets the breaker.
\<close>

fun before_timeout :: "cb_options \<Rightarrow> time \<Rightarrow> cb_step \<Rightarrow> breaker \<Rightarrow> bool" where
  "before_timeout opt t0 (CBegin clk) b \<longleftrightarrow> clk 1 < t0 + cb_timeout opt"
| "before_timeout opt t0 (CEnd clk outcome) b \<longleftrightarrow> True"
| "before_timeout opt t0 (CTimer now) b \<longleftrightarrow>
     now < t0 + cb_timeout opt \<and> (case cb_timer b of None \<Rightarrow> False | Some due \<Rightarrow> due \<le> now)"
| "before_timeout opt t0 (CGetState now) b \<longleftrightarrow> now < t0 + cb_timeout opt"
| "before_timeout opt t0 (CGetStats now) b \<longleftrightarrow> True"
| "before_timeout opt t0 CReset b \<longleftrightarrow> False"

definition open_since :: "cb_options \<Rightarrow> time \<Rightarrow> breaker \<Rightarrow> bool" where
  "open_since opt t0 b \<longleftrightarrow>
     cb_state b = OPEN \<and> cb_openedAt b = Some t0 \<and> cb_timer b = Some (t0 + cb_timeout opt)"

interpretation cb_open: guarded_system "before_timeout opt t0" "cb_do opt" "open_since opt t0" for opt t0
proof unfold_locales
  fix a b assume "before_timeout opt t0 a b" "open_since opt t0 b"
  then show "open_since opt t0 (cb_do opt a b)"
    by (cases a) (auto simp: open_since_def cb_defs split: option.split)
qed

text \<open>Only the end of a failed call opens the circuit.\<close>

lemma failed_call_opens:
  assumes "cb_state b0 \<noteq> OPEN" "cb_state (cb_do opt a b0) = OPEN"
  shows "\<exists>clk. a = CEnd clk (Some True) \<and> open_since opt (clk 3) (cb_do opt a b0)"
  using assms by (cases a) (auto simp: open_since_def cb_defs split: option.splits if_splits bool.splits)

section \<open>Properties\<close>

text \<open>
  C21. An open circuit protects the service: from the moment it opens until its timeout has passed or
  \<open>reset\<close> is called by hand, whatever calls, outcomes of earlier calls and timer callbacks happen in
  between, the circuit stays open and every new call is rejected without running the function. Only the
  end of a failed call opens it; \<open>t0\<close> is the time that call reads when it does.
\<close>

theorem open_circuit_rejects:
  assumes "cb_state b0 \<noteq> OPEN" and "b = cb_do opt (CEnd clk0 outcome) b0" and "cb_state b = OPEN" and "t0 = clk0 3"
    and "run_ok (before_timeout opt t0) (cb_do opt) steps b" and "clk 1 < t0 + cb_timeout opt"
  shows "cb_state (run (cb_do opt) steps b) = OPEN \<and>
    \<not> fst (execute_begin opt clk (run (cb_do opt) steps b)) \<and>
    cb_rejectedCount (snd (execute_begin opt clk (run (cb_do opt) steps b))) =
      Suc (cb_rejectedCount (run (cb_do opt) steps b))"
proof -
  have "open_since opt t0 b"
    using failed_call_opens [OF assms(1), of opt "CEnd clk0 outcome"] assms(2-4) by auto
  then have "open_since opt t0 (run (cb_do opt) steps b)"
    by (rule cb_open.guarded_run [OF assms(5)])
  then show ?thesis using assms(6) by (auto simp: open_since_def cb_defs)
qed

definition demo_cb_options :: cb_options where
  "demo_cb_options = CB_DEFAULT_OPTIONS\<lparr>failureThreshold := 2, volumeThreshold := 2\<rparr>"

definition demo_closed :: breaker where
  "demo_closed = run (cb_do demo_cb_options) [CBegin (\<lambda>k. 1), CEnd (\<lambda>k. 2) (Some True), CBegin (\<lambda>k. 3), CBegin (\<lambda>k. 3)] new_breaker"

theorem open_circuit_rejects_witness:
  "\<not> fst (execute_begin demo_cb_options (\<lambda>k. 20000)
     (run (cb_do demo_cb_options) [CBegin (\<lambda>k. 9), CEnd (\<lambda>k. 10) None] (cb_do demo_cb_options (CEnd (\<lambda>k. 4) (Some True)) demo_closed)))"
proof -
  have "cb_state demo_closed \<noteq> OPEN" "cb_state (cb_do demo_cb_options (CEnd (\<lambda>k. 4) (Some True)) demo_closed) = OPEN" by code_simp+
  moreover have "run_ok (before_timeout demo_cb_options 4) (cb_do demo_cb_options) [CBegin (\<lambda>k. 9), CEnd (\<lambda>k. 10) None]
      (cb_do demo_cb_options (CEnd (\<lambda>k. 4) (Some True)) demo_closed)" by code_simp
  moreover have "(20000 :: time) < 4 + cb_timeout demo_cb_options" by code_simp
  ultimately show ?thesis
    using open_circuit_rejects [of demo_closed _ demo_cb_options "\<lambda>k. 4" "Some True" 4 _ "\<lambda>k. 20000"] by blast
qed

text \<open>
  The breaker follows its state diagram: as long as it is not reset by hand, the state changes it
  announces form a path from closed to its current state, and each of them is closed to open, open to
  half open, half open to open, or half open to closed.
\<close>

theorem breaker_follows_diagram:
  assumes "CReset \<notin> set steps"
  shows "cb_path {(CLOSED, OPEN), (OPEN, HALF_OPEN), (HALF_OPEN, OPEN), (HALF_OPEN, CLOSED)} CLOSED
    (cb_changes (run (cb_do opt) steps new_breaker)) (cb_state (run (cb_do opt) steps new_breaker))"
proof -
  have "run_ok (\<lambda>a _. a \<noteq> CReset) (cb_do opt) steps b" for b
    using assms by (induction steps arbitrary: b) auto
  then have "cb_path cb_edges CLOSED (cb_changes (run (cb_do opt) steps new_breaker))
      (cb_state (run (cb_do opt) steps new_breaker))"
    by (rule cb_graph.guarded_run) (simp add: new_breaker_def)
  then show ?thesis by (simp add: cb_edges_def)
qed

theorem breaker_follows_diagram_witness:
  "cb_path {(CLOSED, OPEN), (OPEN, HALF_OPEN), (HALF_OPEN, OPEN), (HALF_OPEN, CLOSED)} CLOSED
    (cb_changes (run (cb_do CB_DEFAULT_OPTIONS) [CBegin (\<lambda>k. 1), CTimer 5] new_breaker))
    (cb_state (run (cb_do CB_DEFAULT_OPTIONS) [CBegin (\<lambda>k. 1), CTimer 5] new_breaker))"
  by (rule breaker_follows_diagram) simp


end
