(* ===== verification/RateLimiter.thy ===== *)
theory RateLimiter
  imports Prelude
begin

text \<open>
  Model of \<open>shared/src/resilience/rate-limiter.ts\<close>: the sliding window limiter and the token bucket
  limiter. An operation takes the values its clock reads return: \<open>clk k\<close> is the \<open>k\<close>-th one.
  \<open>onRateLimited\<close> is client code and is not modelled; the cleanup that the interval timer starts is
  an operation of its own. The key of an entry is the key it is stored under. The window of a token
  bucket is positive, so that the quotient of two numbers of milliseconds is an integer division.
\<close>

section \<open>Sliding window: definitions\<close>

record rl_options =
  maxRequests :: nat
  windowMs :: time

record rate_limit_result =
  rr_allowed :: bool
  rr_remaining :: int
  rr_resetAt :: time
  rr_retryAfter :: time
  rr_total :: nat
  rr_used :: int

type_synonym sliding = "(string, time list) jsmap"

definition sw_cleanupKey :: "rl_options \<Rightarrow> time \<Rightarrow> string \<Rightarrow> sliding \<Rightarrow> sliding" where
  "sw_cleanupKey opt now key m =
     (case jget m key of
        None \<Rightarrow> m
      | Some entries \<Rightarrow>
          let filtered = filter (\<lambda>t. t > now - windowMs opt) entries
          in if filtered = [] then jdel key m
             else if length filtered \<noteq> length entries then jset key filtered m else m)"

definition sw_cleanup :: "rl_options \<Rightarrow> clock \<Rightarrow> sliding \<Rightarrow> sliding" where
  "sw_cleanup opt clk m =
     snd (fold (\<lambda>key (k, m). (Suc k, sw_cleanupKey opt (clk k) key m)) (jkeys m) (0, m))"

definition sw_getResetTime :: "rl_options \<Rightarrow> time \<Rightarrow> time list \<Rightarrow> time" where
  "sw_getResetTime opt now entries =
     (case entries of [] \<Rightarrow> now + windowMs opt | oldest # _ \<Rightarrow> oldest + windowMs opt)"

text \<open>With a maximum of 0 and no entry, the source reads a property of \<open>undefined\<close> and throws.\<close>

datatype rl_exception = RlTypeError

definition sw_getRetryAfter :: "rl_options \<Rightarrow> time \<Rightarrow> time list \<Rightarrow> rl_exception + time" where
  "sw_getRetryAfter opt now entries =
     (if length entries < maxRequests opt then Inr 0
      else case entries of
             [] \<Rightarrow> Inl RlTypeError
           | oldest # _ \<Rightarrow> Inr (max 0 (oldest + windowMs opt - now)))"

definition sw_check ::
    "rl_options \<Rightarrow> clock \<Rightarrow> string \<Rightarrow> sliding \<Rightarrow> (rl_exception + rate_limit_result) \<times> sliding" where
  "sw_check opt clk key m =
     (let m1 = sw_cleanupKey opt (clk 0) key m;
          entries = nullish (jget m1 key) []
      in case sw_getRetryAfter opt (clk 2) entries of
           Inl e \<Rightarrow> (Inl e, m1)
         | Inr retryAfter \<Rightarrow>
             (Inr \<lparr>rr_allowed = length entries < maxRequests opt,
                   rr_remaining = max 0 (int (maxRequests opt) - int (length entries)),
                   rr_resetAt = sw_getResetTime opt (clk 1) entries,
                   rr_retryAfter = retryAfter, rr_total = maxRequests opt,
                   rr_used = int (length entries)\<rparr>, m1))"

definition sw_consume ::
    "rl_options \<Rightarrow> clock \<Rightarrow> string \<Rightarrow> sliding \<Rightarrow> (rl_exception + rate_limit_result) \<times> sliding" where
  "sw_consume opt clk key m =
     (let m1 = sw_cleanupKey opt (clk 0) key m;
          entries = nullish (jget m1 key) [];
          m2 = (if jget m1 key = None then jset key [] m1 else m1)
      in if length entries \<ge> maxRequests opt
         then
           (case sw_getRetryAfter opt (clk 2) entries of
              Inl e \<Rightarrow> (Inl e, m2)
            | Inr retryAfter \<Rightarrow>
                (Inr \<lparr>rr_allowed = False, rr_remaining = 0,
                      rr_resetAt = sw_getResetTime opt (clk 1) entries,
                      rr_retryAfter = retryAfter, rr_total = maxRequests opt,
                      rr_used = int (length entries)\<rparr>, m2))
         else
           let entries' = entries @ [clk 1]
           in (Inr \<lparr>rr_allowed = True,
                    rr_remaining = int (maxRequests opt) - int (length entries'),
                    rr_resetAt = sw_getResetTime opt (clk 2) entries', rr_retryAfter = 0,
                    rr_total = maxRequests opt, rr_used = int (length entries')\<rparr>,
               jset key entries' m2))"

text \<open>An empty key is falsy: it resets all keys.\<close>

definition sw_reset :: "string option \<Rightarrow> sliding \<Rightarrow> sliding" where
  "sw_reset key m = (if nullish key [] \<noteq> [] then jdel (nullish key []) m else [])"

definition sw_status ::
    "rl_options \<Rightarrow> clock \<Rightarrow> string \<Rightarrow> sliding \<Rightarrow> (rl_exception + rate_limit_result) \<times> sliding" where
  "sw_status opt clk key m = sw_check opt clk key m"

section \<open>Token bucket: definitions\<close>

record bucket =
  bk_tokens :: int
  bk_lastRefill :: time

type_synonym buckets = "(string, bucket) jsmap"

definition tb_getBucket :: "rl_options \<Rightarrow> time \<Rightarrow> string \<Rightarrow> buckets \<Rightarrow> bucket \<times> buckets" where
  "tb_getBucket opt now key m =
     (case jget m key of
        Some b \<Rightarrow> (b, m)
      | None \<Rightarrow> let b = \<lparr>bk_tokens = int (maxRequests opt), bk_lastRefill = now\<rparr> in (b, jset key b m))"

definition tb_refill :: "rl_options \<Rightarrow> clock \<Rightarrow> string \<Rightarrow> buckets \<Rightarrow> buckets" where
  "tb_refill opt clk key m =
     (let (b, m1) = tb_getBucket opt (clk 0) key m;
          now = clk 1;
          elapsed = now - bk_lastRefill b
      in if elapsed \<ge> windowMs opt
         then
           let intervals = elapsed div windowMs opt
           in jset key (b\<lparr>bk_tokens := min (int (maxRequests opt))
                           (bk_tokens b + intervals * int (maxRequests opt)),
                         bk_lastRefill := now\<rparr>) m1
         else m1)"

definition tb_check :: "rl_options \<Rightarrow> clock \<Rightarrow> string \<Rightarrow> buckets \<Rightarrow> rate_limit_result \<times> buckets" where
  "tb_check opt clk key m =
     (let (b, m1) = tb_getBucket opt (clk 2) key (tb_refill opt clk key m)
      in (\<lparr>rr_allowed = bk_tokens b \<ge> 1, rr_remaining = bk_tokens b,
           rr_resetAt = bk_lastRefill b + windowMs opt,
           rr_retryAfter = (if bk_tokens b \<ge> 1 then 0
                            else max 0 (bk_lastRefill b + windowMs opt - clk 3)),
           rr_total = maxRequests opt, rr_used = int (maxRequests opt) - bk_tokens b\<rparr>, m1))"

definition tb_consume :: "rl_options \<Rightarrow> clock \<Rightarrow> string \<Rightarrow> buckets \<Rightarrow> rate_limit_result \<times> buckets" where
  "tb_consume opt clk key m =
     (let (b, m1) = tb_getBucket opt (clk 2) key (tb_refill opt clk key m)
      in if bk_tokens b < 1
         then (\<lparr>rr_allowed = False, rr_remaining = 0, rr_resetAt = bk_lastRefill b + windowMs opt,
                rr_retryAfter = max 0 (bk_lastRefill b + windowMs opt - clk 3),
                rr_total = maxRequests opt, rr_used = int (maxRequests opt)\<rparr>, m1)
         else
           let b' = b\<lparr>bk_tokens := bk_tokens b - 1\<rparr>
           in (\<lparr>rr_allowed = True, rr_remaining = bk_tokens b', rr_resetAt = bk_lastRefill b' + windowMs opt,
                rr_retryAfter = 0, rr_total = maxRequests opt,
                rr_used = int (maxRequests opt) - bk_tokens b'\<rparr>, jset key b' m1))"

definition tb_reset :: "string option \<Rightarrow> buckets \<Rightarrow> buckets" where
  "tb_reset key m = (if nullish key [] \<noteq> [] then jdel (nullish key []) m else [])"

definition tb_status :: "rl_options \<Rightarrow> clock \<Rightarrow> string \<Rightarrow> buckets \<Rightarrow> rate_limit_result \<times> buckets" where
  "tb_status opt clk key m = tb_check opt clk key m"

definition tb_cleanup :: "rl_options \<Rightarrow> time \<Rightarrow> buckets \<Rightarrow> buckets" where
  "tb_cleanup opt now m =
     (let cutoff = now - windowMs opt * 10
      in filter (\<lambda>(key, b). \<not> (bk_lastRefill b < cutoff \<and> bk_tokens b \<ge> int (maxRequests opt))) m)"

section \<open>The sliding window\<close>

text \<open>
  A history of a limiter: for each call, what its clock reads return. The state carries the last
  clock read, the limiter, and the key and timestamp of every request allowed since the last reset of
  its key. The clock does not go backwards: neither within a call nor between calls.
\<close>

datatype sw_call = SConsume clock string | SCheck clock string | SCleanup clock | SReset "string option"

type_synonym sw_history = "time \<times> sliding \<times> (string \<times> time) list"

fun sw_step :: "rl_options \<Rightarrow> sw_call \<Rightarrow> sw_history \<Rightarrow> sw_history" where
  "sw_step opt (SConsume clk key) (now, m, granted) =
     (case sw_consume opt clk key m of
        (Inr r, m') \<Rightarrow> (clk 1, m', if rr_allowed r then granted @ [(key, clk 1)] else granted)
      | (Inl _, m') \<Rightarrow> (clk 1, m', granted))"
| "sw_step opt (SCheck clk key) (now, m, granted) = (clk 0, snd (sw_check opt clk key m), granted)"
| "sw_step opt (SCleanup clk) (now, m, granted) = (clk (length m), sw_cleanup opt clk m, granted)"
| "sw_step opt (SReset key) (now, m, granted) =
     (now, sw_reset key m,
      if nullish key [] \<noteq> [] then filter (\<lambda>p. fst p \<noteq> nullish key []) granted else [])"

fun sw_ordered :: "sw_call \<Rightarrow> sw_history \<Rightarrow> bool" where
  "sw_ordered (SConsume clk key) (now, _) \<longleftrightarrow> now \<le> clk 0 \<and> mono clk"
| "sw_ordered (SCheck clk key) (now, _) \<longleftrightarrow> now \<le> clk 0 \<and> mono clk"
| "sw_ordered (SCleanup clk) (now, _) \<longleftrightarrow> now \<le> clk 0 \<and> mono clk"
| "sw_ordered (SReset key) _ \<longleftrightarrow> True"

definition times_of :: "string \<Rightarrow> (string \<times> time) list \<Rightarrow> time list" where
  "times_of key granted = map snd (filter (\<lambda>p. fst p = key) granted)"

lemma times_of_simps [simp]:
  "times_of k (g @ [(key, t)]) = times_of k g @ (if key = k then [t] else [])"
  "times_of k [] = []"
  "times_of k (filter (\<lambda>p. fst p \<noteq> key) g) = (if k = key then [] else times_of k g)"
  by (auto simp: times_of_def intro: arg_cong [of _ _ "map snd"] filter_cong)

text \<open>The number of requests in the window that ends at \<open>T\<close>.\<close>

definition in_window :: "time \<Rightarrow> time \<Rightarrow> time list \<Rightarrow> nat" where
  "in_window w T ts = length (filter (\<lambda>t. T - w < t \<and> t \<le> T) ts)"

definition entries_of :: "sliding \<Rightarrow> string \<Rightarrow> time list" where
  "entries_of m key = nullish (jget m key) []"

definition recent :: "time \<Rightarrow> time \<Rightarrow> time list \<Rightarrow> time list" where
  "recent w now ts = filter (\<lambda>t. t > now - w) ts"

lemma recent_recent: "now \<le> now' \<Longrightarrow> recent w now' (recent w now ts) = recent w now' ts"
  by (auto simp: recent_def intro: filter_cong)

lemma recent_mono: "recent w now xs = recent w now ys \<Longrightarrow> now \<le> now' \<Longrightarrow> recent w now' xs = recent w now' ys"
  by (metis recent_recent)

lemma recent_append: "recent w now (xs @ ys) = recent w now xs @ recent w now ys"
  by (simp add: recent_def)

lemma in_window_recent:
  assumes "\<forall>t \<in> set ts. t \<le> now" "now \<le> T"
  shows "in_window w T ts \<le> length (recent w now ts)"
  using assms by (induction ts) (auto simp: in_window_def recent_def)

lemma filter_same_length: "length (filter P xs) = length xs \<Longrightarrow> filter P xs = xs"
  by (metis filter_id_conv length_filter_less less_irrefl)

lemma entries_cleanupKey:
  "entries_of (sw_cleanupKey opt now key m) k =
     (if k = key then recent (windowMs opt) now (entries_of m k) else entries_of m k)"
proof (cases "jget m key")
  case (Some es)
  then show ?thesis
    using filter_same_length [of "\<lambda>t. t > now - windowMs opt" es]
    by (auto simp: entries_of_def sw_cleanupKey_def Let_def recent_def)
qed (simp add: entries_of_def sw_cleanupKey_def recent_def)

lemma entries_check:
  "entries_of (snd (sw_check opt clk key m)) k =
     (if k = key then recent (windowMs opt) (clk 0) (entries_of m k) else entries_of m k)"
  by (simp add: sw_check_def Let_def entries_cleanupKey split: sum.split)

text \<open>A consumed request is allowed exactly when fewer than the maximum are in the window.\<close>

lemma consume_allowed:
  assumes "length (recent (windowMs opt) (clk 0) (entries_of m key)) < maxRequests opt"
  shows "\<exists>r. fst (sw_consume opt clk key m) = Inr r \<and> rr_allowed r"
    and "entries_of (snd (sw_consume opt clk key m)) k =
      (if k = key then recent (windowMs opt) (clk 0) (entries_of m k) @ [clk 1] else entries_of m k)"
  using assms entries_cleanupKey [of opt "clk 0" key m key] entries_cleanupKey [of opt "clk 0" key m k]
  by (auto simp: sw_consume_def Let_def entries_of_def)

lemma consume_refused:
  assumes "\<not> length (recent (windowMs opt) (clk 0) (entries_of m key)) < maxRequests opt"
  shows "\<And>r. fst (sw_consume opt clk key m) = Inr r \<Longrightarrow> \<not> rr_allowed r"
    and "entries_of (snd (sw_consume opt clk key m)) k =
      (if k = key then recent (windowMs opt) (clk 0) (entries_of m k) else entries_of m k)"
  using assms entries_cleanupKey [of opt "clk 0" key m key] entries_cleanupKey [of opt "clk 0" key m k]
  by (auto simp: sw_consume_def Let_def entries_of_def split: sum.splits option.splits)

lemma cleanup_fold:
  assumes "mono clk" "i + length ks \<le> n" and w: "w = windowMs opt"
  shows "recent w (clk n) (entries_of (snd (fold (\<lambda>key (k, m). (Suc k, sw_cleanupKey opt (clk k) key m)) ks (i, m))) key) =
    recent w (clk n) (entries_of m key)"
  using assms(2)
proof (induction ks arbitrary: i m)
  case (Cons k ks)
  have "clk i \<le> clk n" using Cons.prems assms(1) by (auto intro: monoD)
  then show ?case
    using Cons.IH [of "Suc i" "sw_cleanupKey opt (clk i) k m"] Cons.prems
    by (simp add: entries_cleanupKey recent_recent w)
qed simp

lemma recent_cleanup:
  assumes "mono clk"
  shows "recent (windowMs opt) (clk (length m)) (entries_of (sw_cleanup opt clk m) key) =
    recent (windowMs opt) (clk (length m)) (entries_of m key)"
  unfolding sw_cleanup_def by (rule cleanup_fold [OF assms]) (simp_all add: jkeys_def)

text \<open>
  The invariant: inside the window the stored entries of a key are the granted requests, no request
  lies in the future, and no window holds more requests than the maximum.
\<close>

definition sw_key_inv :: "rl_options \<Rightarrow> time \<Rightarrow> time list \<Rightarrow> time list \<Rightarrow> bool" where
  "sw_key_inv opt now es ts \<longleftrightarrow>
     recent (windowMs opt) now es = recent (windowMs opt) now ts \<and> (\<forall>t \<in> set ts. t \<le> now) \<and>
     (\<forall>T. in_window (windowMs opt) T ts \<le> maxRequests opt)"

fun sw_inv :: "rl_options \<Rightarrow> sw_history \<Rightarrow> bool" where
  "sw_inv opt (now, m, granted) \<longleftrightarrow> (\<forall>k. sw_key_inv opt now (entries_of m k) (times_of k granted))"

lemma sw_key_inv_later:
  assumes "sw_key_inv opt now es ts" "now \<le> now'"
    and "recent (windowMs opt) now' es' = recent (windowMs opt) now' es"
  shows "sw_key_inv opt now' es' ts"
proof -
  have "recent (windowMs opt) now' es = recent (windowMs opt) now' ts"
    by (rule recent_mono [OF _ assms(2)]) (use assms(1) in \<open>simp add: sw_key_inv_def\<close>)
  moreover have "\<forall>t \<in> set ts. t \<le> now" using assms(1) by (simp add: sw_key_inv_def)
  then have "\<forall>t \<in> set ts. t \<le> now'" using assms(2) by (meson order_trans)
  ultimately show ?thesis using assms(1,3) unfolding sw_key_inv_def by metis
qed

lemma sw_key_inv_grant:
  assumes inv: "sw_key_inv opt now es ts" and "now \<le> c" "c \<le> t"
    and room: "length (recent (windowMs opt) c es) < maxRequests opt"
  shows "sw_key_inv opt t (recent (windowMs opt) c es @ [t]) (ts @ [t])"
proof -
  let ?w = "windowMs opt"
  have same: "recent ?w c es = recent ?w c ts"
    by (rule recent_mono [OF _ \<open>now \<le> c\<close>]) (use inv in \<open>simp add: sw_key_inv_def\<close>)
  have past: "\<forall>u \<in> set ts. u \<le> c"
    using inv \<open>now \<le> c\<close> unfolding sw_key_inv_def by (meson order_trans)
  have "in_window ?w T (ts @ [t]) \<le> maxRequests opt" for T
  proof (cases "T < t")
    case True
    then show ?thesis using inv by (simp add: in_window_def sw_key_inv_def)
  next
    case False
    then have "in_window ?w T ts \<le> length (recent ?w c ts)"
      using past \<open>c \<le> t\<close> by (intro in_window_recent) auto
    then show ?thesis using room same by (simp add: in_window_def)
  qed
  moreover have "recent ?w t (recent ?w c es @ [t]) = recent ?w t (ts @ [t])"
    using \<open>c \<le> t\<close> by (simp add: recent_append recent_recent same)
  ultimately show ?thesis using past \<open>c \<le> t\<close> by (auto simp: sw_key_inv_def)
qed

lemma sw_inv_consume:
  assumes "sw_inv opt (now, m, granted)" "now \<le> clk 0" "mono clk"
  shows "sw_inv opt (sw_step opt (SConsume clk key) (now, m, granted))"
proof -
  have le: "clk 0 \<le> clk 1" using \<open>mono clk\<close> by (auto intro: monoD)
  have inv: "sw_key_inv opt now (entries_of m k) (times_of k granted)" for k
    using assms(1) by simp
  note later = sw_key_inv_later [of opt now _ _ "clk 1"]
  show ?thesis
  proof (cases "length (recent (windowMs opt) (clk 0) (entries_of m key)) < maxRequests opt")
    case True
    obtain r m' where c: "sw_consume opt clk key m = (Inr r, m')" "rr_allowed r"
      using consume_allowed(1) [of opt clk m key, OF True] by (metis prod.collapse)
    have "sw_key_inv opt (clk 1) (entries_of m' k) (times_of k (granted @ [(key, clk 1)]))" for k
    proof (cases "k = key")
      case True
      then show ?thesis
        using consume_allowed(2) [of opt clk m key key] \<open>length _ < _\<close> c le assms(2) inv [of key]
        by (simp add: sw_key_inv_grant)
    next
      case False
      then show ?thesis
        using consume_allowed(2) [of opt clk m key k] \<open>length _ < _\<close> c le assms(2)
          later [OF inv [of k], of "entries_of m k"]
        by simp
    qed
    then show ?thesis by (simp add: c)
  next
    case False
    have "sw_key_inv opt (clk 1) (entries_of (snd (sw_consume opt clk key m)) k) (times_of k granted)" for k
      using consume_refused(2) [of opt clk m key k, OF False] le assms(2)
      by (intro later [OF inv]) (auto simp: recent_recent)
    then show ?thesis
      using consume_refused(1) [of opt clk m key, OF False]
      by (cases "sw_consume opt clk key m") (simp split: sum.split)
  qed
qed

lemma sw_inv_step:
  assumes "sw_ordered a s" "sw_inv opt s"
  shows "sw_inv opt (sw_step opt a s)"
proof -
  obtain now m granted where s: "s = (now, m, granted)" by (cases s)
  have inv: "sw_key_inv opt now (entries_of m k) (times_of k granted)" for k
    using assms(2) s by simp
  show ?thesis
  proof (cases a)
    case (SConsume clk key)
    then show ?thesis using sw_inv_consume assms s by simp
  next
    case (SCheck clk key)
    then have "sw_key_inv opt (clk 0) (entries_of (snd (sw_check opt clk key m)) k) (times_of k granted)" for k
      using assms s by (intro sw_key_inv_later [OF inv]) (simp_all add: entries_check recent_recent)
    then show ?thesis using s SCheck by simp
  next
    case (SCleanup clk)
    then have "mono clk" "now \<le> clk 0" "clk 0 \<le> clk (length m)" using assms s by (auto intro: monoD)
    then have "sw_key_inv opt (clk (length m)) (entries_of (sw_cleanup opt clk m) k) (times_of k granted)" for k
      by (intro sw_key_inv_later [OF inv]) (simp_all add: recent_cleanup)
    then show ?thesis using s SCleanup by simp
  next
    case (SReset key)
    then show ?thesis
      using assms s
      by (auto simp: sw_reset_def entries_of_def sw_key_inv_def recent_def in_window_def)
  qed
qed

interpretation sw_system: guarded_system sw_ordered "sw_step opt" "sw_inv opt" for opt
  by unfold_locales (rule sw_inv_step)

lemma sw_inv_init: "sw_inv opt (now, [], [])"
  by (simp add: sw_key_inv_def entries_of_def in_window_def)

lemma sw_inv_consume_exact:
  assumes "sw_key_inv opt now (entries_of m key) (times_of key granted)" "now \<le> clk 0"
  shows "(\<exists>r. fst (sw_consume opt clk key m) = Inr r \<and> rr_allowed r) \<longleftrightarrow>
    length (filter (\<lambda>t. t > clk 0 - windowMs opt) (times_of key granted)) < maxRequests opt"
proof -
  have "recent (windowMs opt) (clk 0) (entries_of m key) = recent (windowMs opt) (clk 0) (times_of key granted)"
    by (rule recent_mono [OF _ assms(2)]) (use assms(1) in \<open>simp add: sw_key_inv_def\<close>)
  then show ?thesis
    using consume_allowed(1) [of opt clk m key] consume_refused(1) [of opt clk m key]
    by (auto simp: recent_def)
qed

section \<open>The token bucket\<close>

text \<open>The state carries the last clock read, the limiter and the keys of the allowed requests.\<close>

datatype tb_call = TConsume clock string | TCheck clock string | TCleanup time | TReset "string option"

type_synonym tb_history = "time \<times> buckets \<times> string list"

fun tb_step :: "rl_options \<Rightarrow> tb_call \<Rightarrow> tb_history \<Rightarrow> tb_history" where
  "tb_step opt (TConsume clk key) (now, m, granted) =
     (case tb_consume opt clk key m of
        (r, m') \<Rightarrow> (clk 3, m', if rr_allowed r then granted @ [key] else granted))"
| "tb_step opt (TCheck clk key) (now, m, granted) = (clk 3, snd (tb_check opt clk key m), granted)"
| "tb_step opt (TCleanup t) (now, m, granted) = (t, tb_cleanup opt t m, granted)"
| "tb_step opt (TReset key) (now, m, granted) =
     (now, tb_reset key m, if nullish key [] \<noteq> [] then filter (\<lambda>k. k \<noteq> nullish key []) granted else [])"

fun tb_ordered :: "tb_call \<Rightarrow> tb_history \<Rightarrow> bool" where
  "tb_ordered (TConsume clk key) (now, _) \<longleftrightarrow> now \<le> clk 0 \<and> mono clk"
| "tb_ordered (TCheck clk key) (now, _) \<longleftrightarrow> now \<le> clk 0 \<and> mono clk"
| "tb_ordered (TCleanup t) (now, _) \<longleftrightarrow> now \<le> t"
| "tb_ordered (TReset key) _ \<longleftrightarrow> True"

text \<open>A missing bucket is a full one that was refilled just now.\<close>

definition bucket_of :: "rl_options \<Rightarrow> time \<Rightarrow> buckets \<Rightarrow> string \<Rightarrow> bucket" where
  "bucket_of opt now m key =
     nullish (jget m key) \<lparr>bk_tokens = int (maxRequests opt), bk_lastRefill = now\<rparr>"

text \<open>
  The account of a bucket: requests allowed so far and tokens left never exceed one full bucket plus
  one for every window that has passed up to the last refill.
\<close>

definition tb_bucket_inv :: "rl_options \<Rightarrow> time \<Rightarrow> time \<Rightarrow> bucket \<Rightarrow> int \<Rightarrow> bool" where
  "tb_bucket_inv opt t0 now b n \<longleftrightarrow>
     0 \<le> bk_tokens b \<and> bk_tokens b \<le> int (maxRequests opt) \<and> t0 \<le> bk_lastRefill b \<and> bk_lastRefill b \<le> now \<and>
     n + bk_tokens b \<le> int (maxRequests opt) * (1 + (bk_lastRefill b - t0) div windowMs opt)"

definition tb_granted :: "string \<Rightarrow> string list \<Rightarrow> int" where
  "tb_granted key granted = int (length (filter (\<lambda>k. k = key) granted))"

fun tb_inv :: "rl_options \<Rightarrow> time \<Rightarrow> tb_history \<Rightarrow> bool" where
  "tb_inv opt t0 (now, m, granted) \<longleftrightarrow> jwf m \<and>
     (\<forall>k. tb_bucket_inv opt t0 now (bucket_of opt now m k) (tb_granted k granted))"

lemma budget_mono:
  assumes "0 < w" "a \<le> b"
  shows "int n * (1 + (a - t0) div w) \<le> int n * (1 + (b - t0) div w)"
  using assms by (intro mult_left_mono add_left_mono zdiv_mono1) auto

text \<open>The clock moves on: a missing bucket is refilled with it.\<close>

lemma bucket_of_later:
  assumes "0 < windowMs opt" "now \<le> now'" "tb_bucket_inv opt t0 now (bucket_of opt now m k) n"
  shows "tb_bucket_inv opt t0 now' (bucket_of opt now' m k) n"
  using assms budget_mono [OF assms(1,2), of "maxRequests opt" t0]
  by (auto simp: tb_bucket_inv_def bucket_of_def nullish_def split: option.splits)

text \<open>The bucket an operation works on, after the refill at \<open>now\<close>.\<close>

definition refilled :: "rl_options \<Rightarrow> time \<Rightarrow> bucket \<Rightarrow> bucket" where
  "refilled opt now b =
     (if now - bk_lastRefill b \<ge> windowMs opt
      then b\<lparr>bk_tokens := min (int (maxRequests opt))
               (bk_tokens b + (now - bk_lastRefill b) div windowMs opt * int (maxRequests opt)),
             bk_lastRefill := now\<rparr>
      else b)"

lemma jget_refill:
  "jget (tb_refill opt clk key m) k =
     (if k = key then Some (refilled opt (clk 1) (bucket_of opt (clk 0) m key)) else jget m k)"
  by (auto simp: tb_refill_def tb_getBucket_def refilled_def bucket_of_def Let_def split: option.split)

lemma jwf_refill: "jwf m \<Longrightarrow> jwf (tb_refill opt clk key m)"
  by (auto simp: tb_refill_def tb_getBucket_def Let_def split: option.split)

lemma refilled_inv:
  assumes w: "0 < windowMs opt" and "now \<le> now'" and inv: "tb_bucket_inv opt t0 now b n"
  shows "tb_bucket_inv opt t0 now' (refilled opt now' b) n"
proof (cases "now' - bk_lastRefill b \<ge> windowMs opt")
  case True
  let ?w = "windowMs opt" and ?m = "int (maxRequests opt)"
  have "(bk_lastRefill b - t0) div ?w + 1 = (bk_lastRefill b - t0 + ?w) div ?w"
    using w by (simp add: div_add_self2)
  also have "\<dots> \<le> (now' - t0) div ?w" using w True by (intro zdiv_mono1) auto
  finally have "?m * (1 + ((bk_lastRefill b - t0) div ?w + 1)) \<le> ?m * (1 + (now' - t0) div ?w)"
    by (intro mult_left_mono) auto
  then have "n + bk_tokens b + ?m \<le> ?m * (1 + (now' - t0) div ?w)"
    using inv by (simp add: tb_bucket_inv_def algebra_simps)
  moreover have "0 \<le> (now' - bk_lastRefill b) div ?w * ?m"
    using w True by (intro mult_nonneg_nonneg) (auto simp: pos_imp_zdiv_nonneg_iff)
  ultimately show ?thesis
    using True inv \<open>now \<le> now'\<close> by (auto simp: refilled_def tb_bucket_inv_def)
next
  case False
  then show ?thesis using inv \<open>now \<le> now'\<close> by (auto simp: refilled_def tb_bucket_inv_def)
qed

lemma tb_check_buckets: "snd (tb_check opt clk key m) = tb_refill opt clk key m"
  by (simp add: tb_check_def tb_getBucket_def jget_refill)

lemma tb_consume_simp:
  "tb_consume opt clk key m =
     (let b = refilled opt (clk 1) (bucket_of opt (clk 0) m key)
      in if bk_tokens b < 1 then (fst (tb_consume opt clk key m), tb_refill opt clk key m)
         else (fst (tb_consume opt clk key m), jset key (b\<lparr>bk_tokens := bk_tokens b - 1\<rparr>) (tb_refill opt clk key m)))"
  by (simp add: tb_consume_def tb_getBucket_def jget_refill Let_def)

lemma tb_consume_allowed:
  "rr_allowed (fst (tb_consume opt clk key m)) \<longleftrightarrow>
     bk_tokens (refilled opt (clk 1) (bucket_of opt (clk 0) m key)) \<ge> 1"
  by (simp add: tb_consume_def tb_getBucket_def jget_refill Let_def)

lemma tb_bucket_inv_later:
  "tb_bucket_inv opt t0 now b n \<Longrightarrow> now \<le> now' \<Longrightarrow> tb_bucket_inv opt t0 now' b n"
  by (simp add: tb_bucket_inv_def)

text \<open>What a refill of one key does to the account of every key.\<close>

lemma tb_inv_refill:
  assumes w: "0 < windowMs opt" and inv: "tb_inv opt t0 (now, m, granted)"
    and clk: "now \<le> clk 0" "mono clk"
  shows "tb_bucket_inv opt t0 (clk 1) (refilled opt (clk 1) (bucket_of opt (clk 0) m key)) (tb_granted key granted)"
    and "tb_inv opt t0 (clk 3, tb_refill opt clk key m, granted)"
proof -
  have le: "clk 0 \<le> clk 1" "clk 1 \<le> clk 3" using clk(2) by (auto intro: monoD)
  have b: "tb_bucket_inv opt t0 t (bucket_of opt t m k) (tb_granted k granted)" if "clk 0 \<le> t" for k t
    by (rule bucket_of_later [OF w, of now]) (use clk that inv in auto)
  show r: "tb_bucket_inv opt t0 (clk 1) (refilled opt (clk 1) (bucket_of opt (clk 0) m key)) (tb_granted key granted)"
    using refilled_inv [OF w le(1) b] by simp
  have "tb_bucket_inv opt t0 (clk 3) (bucket_of opt (clk 3) (tb_refill opt clk key m) k) (tb_granted k granted)" for k
    using tb_bucket_inv_later [OF r le(2)] b [of "clk 3" k] le
    by (cases "k = key") (simp_all add: bucket_of_def jget_refill)
  then show "tb_inv opt t0 (clk 3, tb_refill opt clk key m, granted)"
    using inv by (simp add: jwf_refill)
qed

lemma tb_granted_simps [simp]:
  "tb_granted k (granted @ [key]) = tb_granted k granted + (if key = k then 1 else 0)"
  "tb_granted k [] = 0"
  "tb_granted k (filter (\<lambda>k. k \<noteq> key) granted) = (if k = key then 0 else tb_granted k granted)"
  by (auto simp: tb_granted_def filter_empty_conv intro: filter_cong arg_cong [of _ _ length])

lemma tb_inv_consume:
  assumes w: "0 < windowMs opt" and inv: "tb_inv opt t0 (now, m, granted)"
    and clk: "now \<le> clk 0" "mono clk"
  shows "tb_inv opt t0 (tb_step opt (TConsume clk key) (now, m, granted))"
proof -
  define b where "b = refilled opt (clk 1) (bucket_of opt (clk 0) m key)"
  note r = tb_inv_refill [OF w inv clk, of key]
  have le: "clk 1 \<le> clk 3" using clk(2) by (auto intro: monoD)
  show ?thesis
  proof (cases "bk_tokens b < 1")
    case True
    then show ?thesis
      using r(2) tb_consume_allowed [of opt clk key m] by (subst tb_step.simps, subst tb_consume_simp) (simp add: b_def Let_def)
  next
    case False
    have "tb_bucket_inv opt t0 (clk 3) (b\<lparr>bk_tokens := bk_tokens b - 1\<rparr>) (tb_granted key granted + 1)"
      using r(1) False le by (simp add: b_def tb_bucket_inv_def)
    then have "tb_inv opt t0 (clk 3, jset key (b\<lparr>bk_tokens := bk_tokens b - 1\<rparr>) (tb_refill opt clk key m), granted @ [key])"
      using r(2) by (auto simp: bucket_of_def)
    then show ?thesis
      using False tb_consume_allowed [of opt clk key m] by (subst tb_step.simps, subst tb_consume_simp) (simp add: b_def Let_def)
  qed
qed

lemma tb_inv_cleanup:
  assumes w: "0 < windowMs opt" and inv: "tb_inv opt t0 (now, m, granted)" and "now \<le> t"
  shows "tb_inv opt t0 (t, tb_cleanup opt t m, granted)"
proof -
  have jwf: "jwf m" using inv by simp
  have b: "tb_bucket_inv opt t0 t (bucket_of opt t m k) (tb_granted k granted)" for k
    by (rule bucket_of_later [OF w \<open>now \<le> t\<close>]) (use inv in auto)
  have "tb_bucket_inv opt t0 t (bucket_of opt t (tb_cleanup opt t m) k) (tb_granted k granted)" for k
  proof (cases "jget m k")
    case None
    then show ?thesis using b [of k] by (simp add: tb_cleanup_def Let_def jget_filter [OF jwf] bucket_of_def)
  next
    case (Some c)
    then show ?thesis
      using b [of k] budget_mono [OF w, of "bk_lastRefill c" t "maxRequests opt" t0]
      by (auto simp: tb_cleanup_def Let_def jget_filter [OF jwf] bucket_of_def tb_bucket_inv_def)
  qed
  then show ?thesis using jwf by (simp add: tb_cleanup_def Let_def jwf_filter)
qed

lemma tb_inv_step:
  assumes w: "0 < windowMs opt" and ok: "tb_ordered a s" and inv: "t0 \<le> fst s \<and> tb_inv opt t0 s"
  shows "t0 \<le> fst (tb_step opt a s) \<and> tb_inv opt t0 (tb_step opt a s)"
proof -
  obtain now m granted where s: "s = (now, m, granted)" by (cases s)
  have i: "tb_inv opt t0 (now, m, granted)" "t0 \<le> now" using inv s by auto
  show ?thesis
  proof (cases a)
    case (TConsume clk key)
    moreover from this have "clk 0 \<le> clk 3" using ok s by (auto intro: monoD)
    ultimately show ?thesis using tb_inv_consume [OF w i(1)] ok i(2) s by (auto split: prod.split)
  next
    case (TCheck clk key)
    moreover from this have "clk 0 \<le> clk 3" using ok s by (auto intro: monoD)
    ultimately show ?thesis
      using tb_inv_refill(2) [OF w i(1)] ok i(2) s by (simp add: tb_check_buckets)
  next
    case (TCleanup t)
    then show ?thesis using tb_inv_cleanup [OF w i(1)] ok i(2) s by simp
  next
    case (TReset key)
    have "tb_bucket_inv opt t0 now \<lparr>bk_tokens = int (maxRequests opt), bk_lastRefill = now\<rparr> 0"
      using i(2) w by (simp add: tb_bucket_inv_def algebra_simps pos_imp_zdiv_nonneg_iff)
    then show ?thesis using TReset i s by (auto simp: tb_reset_def bucket_of_def)
  qed
qed

interpretation tb_system: guarded_system "\<lambda>a s. 0 < windowMs opt \<and> tb_ordered a s" "tb_step opt"
    "\<lambda>s. t0 \<le> fst s \<and> tb_inv opt t0 s" for opt t0
  by unfold_locales (use tb_inv_step in blast)

section \<open>Properties\<close>

text \<open>
  C24. The sliding window limiter keeps its limit and nothing but it. In every history of consumed and
  checked requests, cleanups and resets, under a clock that does not go backwards: no window of the
  configured length ever holds more than the maximum number of allowed requests of a key (since the
  key was last reset), and a further request of the key is allowed exactly when fewer than the maximum
  were allowed in the window that ends at that moment.
\<close>

theorem sliding_window_limit:
  assumes "run_ok sw_ordered (sw_step opt) calls (t0, [], [])"
    and "run (sw_step opt) calls (t0, [], []) = (now, m, granted)"
  shows "in_window (windowMs opt) T (times_of key granted) \<le> maxRequests opt \<and>
    (now \<le> clk 0 \<longrightarrow>
      ((\<exists>r. fst (sw_consume opt clk key m) = Inr r \<and> rr_allowed r) \<longleftrightarrow>
        length (filter (\<lambda>t. t > clk 0 - windowMs opt) (times_of key granted)) < maxRequests opt))"
proof -
  have "sw_inv opt (now, m, granted)"
    using sw_system.guarded_run [OF assms(1) sw_inv_init] assms(2) by simp
  then have "sw_key_inv opt now (entries_of m key) (times_of key granted)" by simp
  then show ?thesis using sw_inv_consume_exact by (simp add: sw_key_inv_def)
qed

definition demo_rl_options :: rl_options where
  "demo_rl_options = \<lparr>maxRequests = 2, windowMs = 100\<rparr>"

definition demo_sw_calls :: "sw_call list" where
  "demo_sw_calls = [SConsume (\<lambda>k. 10) ''a'', SConsume (\<lambda>k. 20) ''a'', SConsume (\<lambda>k. 30) ''a'',
     SCheck (\<lambda>k. 40) ''a'', SConsume (\<lambda>k. 111) ''a'', SCleanup (\<lambda>k. 115)]"

lemmas demo_rl_simps = demo_sw_calls_def demo_rl_options_def sw_consume_def sw_check_def sw_cleanup_def
  sw_cleanupKey_def sw_getResetTime_def sw_getRetryAfter_def jdel_def jkeys_def Let_def mono_def

theorem sliding_window_limit_witness:
  "run (sw_step demo_rl_options) demo_sw_calls (0, [], []) =
     (115, [(''a'', [20, 111])], [(''a'', 10), (''a'', 20), (''a'', 111)]) \<and>
   in_window 100 115 (times_of ''a'' [(''a'', 10), (''a'', 20), (''a'', 111)]) \<le> 2"
proof -
  have "run (sw_step demo_rl_options) demo_sw_calls (0, [], []) =
     (115, [(''a'', [20, 111])], [(''a'', 10), (''a'', 20), (''a'', 111)])"
    by (simp add: demo_rl_simps)
  moreover have "run_ok sw_ordered (sw_step demo_rl_options) demo_sw_calls (0, [], [])"
    by (simp add: demo_rl_simps)
  ultimately show ?thesis
    using sliding_window_limit [of demo_rl_options demo_sw_calls 0 115 _ _ 115 "''a''"]
    by (simp add: demo_rl_options_def)
qed

text \<open>
  C32. The token bucket limiter bounds the rate: in every history of calls from time \<open>t0\<close> to
  \<open>now\<close> in which the clock does not go back, for a positive window, the number of allowed requests of a key (since it was last reset) is at most one full bucket
  plus one full bucket for every whole window that has passed. Every bucket keeps between 0 and the maximum number
  of tokens, and a request is allowed exactly when, after the refill, a token is left.
\<close>

theorem token_bucket_rate:
  assumes "0 < windowMs opt"
    and "run_ok tb_ordered (tb_step opt) calls (t0, [], [])"
    and "run (tb_step opt) calls (t0, [], []) = (now, m, granted)"
  shows "int (length (filter (\<lambda>k. k = key) granted)) \<le> int (maxRequests opt) * (1 + (now - t0) div windowMs opt) \<and>
    (\<forall>b. jget m key = Some b \<longrightarrow> 0 \<le> bk_tokens b \<and> bk_tokens b \<le> int (maxRequests opt)) \<and>
    (rr_allowed (fst (tb_consume opt clk key m)) \<longleftrightarrow>
      bk_tokens (fst (tb_getBucket opt (clk 2) key (tb_refill opt clk key m))) \<ge> 1)"
proof -
  have "run_ok (\<lambda>a s. 0 < windowMs opt \<and> tb_ordered a s) (tb_step opt) calls s"
    if "run_ok tb_ordered (tb_step opt) calls s" for s
    using that assms(1) by (induction calls arbitrary: s) auto
  from tb_system.guarded_run [OF this [OF assms(2)], of t0]
  have "tb_inv opt t0 (now, m, granted)"
    using assms(1,3) by (simp add: tb_bucket_inv_def bucket_of_def)
  then have i: "tb_bucket_inv opt t0 now (bucket_of opt now m key) (tb_granted key granted)" by simp
  then have "tb_granted key granted \<le> int (maxRequests opt) * (1 + (now - t0) div windowMs opt)"
    using budget_mono [OF assms(1), of "bk_lastRefill (bucket_of opt now m key)" now "maxRequests opt" t0]
    by (simp add: tb_bucket_inv_def)
  then show ?thesis
    using i by (auto simp: tb_granted_def tb_bucket_inv_def bucket_of_def tb_consume_allowed tb_getBucket_def
        jget_refill)
qed

definition demo_tb_calls :: "tb_call list" where
  "demo_tb_calls = [TConsume (\<lambda>k. 10) ''a'', TConsume (\<lambda>k. 20) ''a'', TConsume (\<lambda>k. 30) ''a'',
     TCheck (\<lambda>k. 40) ''a'', TConsume (\<lambda>k. 111) ''a'', TCleanup 115]"

theorem token_bucket_rate_witness:
  "run (tb_step demo_rl_options) demo_tb_calls (0, [], []) =
     (115, [(''a'', \<lparr>bk_tokens = 1, bk_lastRefill = 111\<rparr>)], [''a'', ''a'', ''a'']) \<and>
   int (length (filter (\<lambda>k. k = ''a'') [''a'', ''a'', ''a''])) \<le> 2 * (1 + (115 - 0) div 100)"
proof -
  have "run (tb_step demo_rl_options) demo_tb_calls (0, [], []) =
     (115, [(''a'', \<lparr>bk_tokens = 1, bk_lastRefill = 111\<rparr>)], [''a'', ''a'', ''a''])"
    by (simp add: demo_tb_calls_def demo_rl_options_def tb_consume_def tb_check_def tb_getBucket_def
        tb_refill_def tb_cleanup_def Let_def)
  moreover have "run_ok tb_ordered (tb_step demo_rl_options) demo_tb_calls (0, [], [])"
    by (simp add: demo_tb_calls_def demo_rl_options_def tb_consume_def tb_check_def tb_getBucket_def
        tb_refill_def tb_cleanup_def Let_def mono_def)
  ultimately show ?thesis
    using token_bucket_rate [of demo_rl_options demo_tb_calls 0 115 _ _ "''a''"]
    by (simp add: demo_rl_options_def)
qed

end
