(* ===== verification/Bulkhead.thy ===== *)
theory Bulkhead
  imports Prelude
begin

text \<open>
  Model of \<open>shared/src/resilience/bulkhead.ts\<close>: the bulkhead, which bounds the number of functions
  that run at the same time and queues the rest, and the counting semaphore. A call of \<open>execute\<close> is
  named by a task id; the event loop is explicit: \<open>bh_running\<close> holds the tasks whose function has
  not settled yet, \<open>bh_settled\<close> the tasks whose function has settled and whose \<open>finally\<close> block has
  not run. For a function that ran at once the two steps follow each other; for a queued one other
  steps may come between them. Callbacks and emitted events are client code and not modelled.
\<close>

section \<open>Definitions\<close>

record bulkhead_options =
  bo_name :: string
  maxConcurrent :: nat
  maxQueue :: nat
  queueTimeout :: time

definition BH_DEFAULT_OPTIONS :: "string \<Rightarrow> bulkhead_options" where
  "BH_DEFAULT_OPTIONS name = \<lparr>bo_name = name, maxConcurrent = 10, maxQueue = 100, queueTimeout = 30000\<rparr>"

record queued_item =
  qi_task :: nat
  qi_queuedAt :: time

record bulkhead =
  bh_active :: nat
  bh_queue :: "queued_item list"
  bh_completed :: nat
  bh_rejected :: nat
  bh_timedOut :: nat
  bh_running :: "nat list"
  bh_settled :: "nat list"

definition new_bulkhead :: bulkhead where
  "new_bulkhead = \<lparr>bh_active = 0, bh_queue = [], bh_completed = 0, bh_rejected = 0, bh_timedOut = 0,
     bh_running = [], bh_settled = []\<rparr>"

datatype bh_outcome = BhRuns | BhQueued | BhFull

text \<open>The part of \<open>runNow\<close> up to its \<open>await\<close>.\<close>

definition runNow :: "nat \<Rightarrow> bulkhead \<Rightarrow> bulkhead" where
  "runNow task b = b\<lparr>bh_active := bh_active b + 1, bh_running := bh_running b @ [task]\<rparr>"

definition addToQueue :: "time \<Rightarrow> nat \<Rightarrow> bulkhead \<Rightarrow> bulkhead" where
  "addToQueue now task b = b\<lparr>bh_queue := bh_queue b @ [\<lparr>qi_task = task, qi_queuedAt = now\<rparr>]\<rparr>"

definition bh_execute :: "bulkhead_options \<Rightarrow> time \<Rightarrow> nat \<Rightarrow> bulkhead \<Rightarrow> bh_outcome \<times> bulkhead" where
  "bh_execute opt now task b =
     (if bh_active b < maxConcurrent opt then (BhRuns, runNow task b)
      else if length (bh_queue b) \<ge> maxQueue opt then (BhFull, b\<lparr>bh_rejected := bh_rejected b + 1\<rparr>)
      else (BhQueued, addToQueue now task b))"

definition processQueue :: "bulkhead_options \<Rightarrow> bulkhead \<Rightarrow> bulkhead" where
  "processQueue opt b =
     (if bh_active b \<ge> maxConcurrent opt then b
      else case bh_queue b of
             [] \<Rightarrow> b
           | item # rest \<Rightarrow>
               b\<lparr>bh_queue := rest, bh_active := bh_active b + 1, bh_running := bh_running b @ [qi_task item]\<rparr>)"

text \<open>The function of a running task settles: it returns or throws.\<close>

definition fn_settles :: "nat \<Rightarrow> bool \<Rightarrow> bulkhead \<Rightarrow> bulkhead" where
  "fn_settles task ok b =
     (if task \<in> set (bh_running b)
      then b\<lparr>bh_completed := bh_completed b + (if ok then 1 else 0),
             bh_running := remove1 task (bh_running b), bh_settled := bh_settled b @ [task]\<rparr>
      else b)"

text \<open>The \<open>finally\<close> block of a settled task.\<close>

definition fn_finally :: "bulkhead_options \<Rightarrow> nat \<Rightarrow> bulkhead \<Rightarrow> bulkhead" where
  "fn_finally opt task b =
     (if task \<in> set (bh_settled b)
      then processQueue opt (b\<lparr>bh_active := bh_active b - 1, bh_settled := remove1 task (bh_settled b)\<rparr>)
      else b)"

text \<open>The callback of the timer of a queued item, which \<open>processQueue\<close> clears.\<close>

definition queue_timeout :: "nat \<Rightarrow> bulkhead \<Rightarrow> bulkhead" where
  "queue_timeout task b =
     (case find (\<lambda>i. qi_task i = task) (bh_queue b) of
        None \<Rightarrow> b
      | Some item \<Rightarrow> b\<lparr>bh_queue := remove1 item (bh_queue b), bh_timedOut := bh_timedOut b + 1\<rparr>)"

record bh_stats =
  bs_active :: nat
  bs_queued :: nat
  bs_maxConcurrent :: nat
  bs_maxQueue :: nat
  bs_completed :: nat
  bs_rejected :: nat
  bs_timedOut :: nat

definition bh_getStats :: "bulkhead_options \<Rightarrow> bulkhead \<Rightarrow> bh_stats" where
  "bh_getStats opt b =
     \<lparr>bs_active = bh_active b, bs_queued = length (bh_queue b), bs_maxConcurrent = maxConcurrent opt,
      bs_maxQueue = maxQueue opt, bs_completed = bh_completed b, bs_rejected = bh_rejected b,
      bs_timedOut = bh_timedOut b\<rparr>"

definition hasCapacity :: "bulkhead_options \<Rightarrow> bulkhead \<Rightarrow> bool" where
  "hasCapacity opt b \<longleftrightarrow> bh_active b < maxConcurrent opt \<or> length (bh_queue b) < maxQueue opt"

definition availableCapacity :: "bulkhead_options \<Rightarrow> bulkhead \<Rightarrow> int" where
  "availableCapacity opt b =
     (let concurrentAvailable = int (maxConcurrent opt) - int (bh_active b);
          queueAvailable = int (maxQueue opt) - int (length (bh_queue b))
      in concurrentAvailable + queueAvailable)"

definition bh_resetStats :: "bulkhead \<Rightarrow> bulkhead" where
  "bh_resetStats b = b\<lparr>bh_completed := 0, bh_rejected := 0, bh_timedOut := 0\<rparr>"

subsection \<open>The semaphore\<close>

text \<open>A client is named by an id; \<open>sem_holders\<close> are the clients whose \<open>acquire\<close> has resolved.\<close>

record semaphore =
  sem_current :: nat
  sem_waiting :: "nat list"
  sem_holders :: "nat list"

definition createSemaphore :: semaphore where
  "createSemaphore = \<lparr>sem_current = 0, sem_waiting = [], sem_holders = []\<rparr>"

definition sem_acquire :: "nat \<Rightarrow> nat \<Rightarrow> semaphore \<Rightarrow> semaphore" where
  "sem_acquire limit client s =
     (if sem_current s < limit
      then s\<lparr>sem_current := sem_current s + 1, sem_holders := sem_holders s @ [client]\<rparr>
      else s\<lparr>sem_waiting := sem_waiting s @ [client]\<rparr>)"

text \<open>\<open>sem_current\<close> is a natural number: the subtraction stops at 0, as \<open>Math.max\<close> makes it.\<close>

definition sem_release :: "nat \<Rightarrow> semaphore \<Rightarrow> semaphore" where
  "sem_release client s =
     (case sem_waiting s of
        next # rest \<Rightarrow>
          s\<lparr>sem_waiting := rest, sem_holders := remove1 client (sem_holders s) @ [next]\<rparr>
      | [] \<Rightarrow> s\<lparr>sem_current := sem_current s - 1, sem_holders := remove1 client (sem_holders s)\<rparr>)"

definition sem_available :: "nat \<Rightarrow> semaphore \<Rightarrow> int" where
  "sem_available limit s = int limit - int (sem_current s)"

section \<open>Steps and invariants of the bulkhead\<close>

text \<open>
  Next to the bulkhead the state counts the calls of \<open>execute\<close> and the functions that threw, since
  the statistics were last reset.
\<close>

datatype bh_event =
    BExecute time nat
  | BSettle nat bool
  | BFinally nat
  | BTimeout nat
  | BReset

type_synonym bh_history = "bulkhead \<times> nat \<times> nat"

fun bh_step :: "bulkhead_options \<Rightarrow> bh_event \<Rightarrow> bh_history \<Rightarrow> bh_history" where
  "bh_step opt (BExecute now task) (b, calls, failed) = (snd (bh_execute opt now task b), calls + 1, failed)"
| "bh_step opt (BSettle task ok) (b, calls, failed) =
     (fn_settles task ok b, calls, if task \<in> set (bh_running b) \<and> \<not> ok then failed + 1 else failed)"
| "bh_step opt (BFinally task) (b, calls, failed) = (fn_finally opt task b, calls, failed)"
| "bh_step opt (BTimeout task) (b, calls, failed) = (queue_timeout task b, calls, failed)"
| "bh_step opt BReset (b, calls, failed) =
     (bh_resetStats b, length (bh_running b) + length (bh_queue b), 0)"

lemmas bh_defs [handler_defs] =
  bh_execute_def runNow_def addToQueue_def processQueue_def fn_settles_def fn_finally_def
  queue_timeout_def bh_resetStats_def

fun bh_inv :: "bulkhead_options \<Rightarrow> bh_history \<Rightarrow> bool" where
  "bh_inv opt (b, calls, failed) \<longleftrightarrow>
     bh_active b = length (bh_running b) + length (bh_settled b) \<and>
     bh_active b \<le> maxConcurrent opt \<and>
     length (bh_queue b) \<le> maxQueue opt \<and>
     (bh_queue b \<noteq> [] \<longrightarrow> bh_active b = maxConcurrent opt) \<and>
     calls = length (bh_running b) + length (bh_queue b) + bh_completed b + failed + bh_rejected b + bh_timedOut b"

lemma find_remove1:
  "find P xs = Some x \<Longrightarrow> length xs = Suc (length (remove1 x xs)) \<and> xs \<noteq> []"
  by (cases xs) (auto simp: find_Some_iff length_remove1 dest: nth_mem split: if_splits)

lemma length_remove1_in: "x \<in> set xs \<Longrightarrow> length xs = Suc (length (remove1 x xs))"
  by (induction xs) auto

lemma bh_inv_step:
  assumes "bh_inv opt s"
  shows "bh_inv opt (bh_step opt e s)"
proof -
  obtain b calls failed where s: "s = (b, calls, failed)" by (cases s)
  show ?thesis
  proof (cases e)
    case (BExecute now task)
    then show ?thesis using assms s by (auto simp: bh_defs)
  next
    case (BSettle task ok)
    then show ?thesis using assms s length_remove1_in [of task "bh_running b"] by (auto simp: bh_defs)
  next
    case (BFinally task)
    then show ?thesis
      using assms s length_remove1_in [of task "bh_settled b"]
      by (cases "bh_queue b") (auto simp: bh_defs)
  next
    case (BTimeout task)
    then show ?thesis
      using assms s
      by (auto simp: bh_defs split: option.split dest!: find_remove1)
  next
    case BReset
    then show ?thesis using assms s by (auto simp: bh_defs)
  qed
qed

interpretation bh_system: invariant_system "bh_step opt" "bh_inv opt" for opt
  by unfold_locales (rule bh_inv_step)

section \<open>Invariant of the semaphore\<close>

datatype sem_event = SemAcquire nat | SemRelease nat

fun sem_step :: "nat \<Rightarrow> sem_event \<Rightarrow> semaphore \<Rightarrow> semaphore" where
  "sem_step limit (SemAcquire c) s = sem_acquire limit c s"
| "sem_step limit (SemRelease c) s = sem_release c s"

text \<open>Only a holder releases.\<close>

fun sem_ok :: "sem_event \<Rightarrow> semaphore \<Rightarrow> bool" where
  "sem_ok (SemAcquire c) s \<longleftrightarrow> True"
| "sem_ok (SemRelease c) s \<longleftrightarrow> c \<in> set (sem_holders s)"

definition sem_inv :: "nat \<Rightarrow> semaphore \<Rightarrow> bool" where
  "sem_inv limit s \<longleftrightarrow> sem_current s = length (sem_holders s) \<and> sem_current s \<le> limit \<and>
     (sem_waiting s \<noteq> [] \<longrightarrow> sem_current s = limit)"

interpretation sem_system: guarded_system sem_ok "sem_step limit" "sem_inv limit" for limit
proof unfold_locales
  fix a s assume "sem_ok a s" "sem_inv limit s"
  then show "sem_inv limit (sem_step limit a s)"
    using length_remove1_in [of _ "sem_holders s"]
    by (cases a) (fastforce simp: sem_inv_def sem_acquire_def sem_release_def split: list.split)+
qed

section \<open>Properties\<close>

text \<open>
  C23. The bulkhead isolates: after any sequence of calls, settling functions, \<open>finally\<close> blocks, queue
  timeouts and resets of the statistics, never more than the maximum number of functions run at the
  same time and never more than the maximum number of calls wait. A call waits only while every slot
  is taken, so that no wakeup is lost. Every call since the last reset is accounted for exactly once:
  it runs, waits, completed, threw, was rejected or timed out. The capacity queries tell the truth: a
  further call is refused exactly when \<open>hasCapacity\<close> is false.
\<close>

theorem bulkhead_bounded:
  assumes "run (bh_step opt) events (new_bulkhead, 0, 0) = (b, calls, failed)"
  shows "length (bh_running b) + length (bh_settled b) \<le> maxConcurrent opt \<and>
    length (bh_queue b) \<le> maxQueue opt \<and>
    (bh_queue b \<noteq> [] \<longrightarrow> length (bh_running b) + length (bh_settled b) = maxConcurrent opt) \<and>
    calls = length (bh_running b) + length (bh_queue b) + bh_completed b + failed + bh_rejected b + bh_timedOut b \<and>
    (fst (bh_execute opt now task b) = BhFull \<longleftrightarrow> \<not> hasCapacity opt b)"
proof -
  have "bh_inv opt (new_bulkhead, 0, 0)" by (simp add: new_bulkhead_def)
  then have "bh_inv opt (b, calls, failed)"
    using bh_system.run_inv assms by metis
  then show ?thesis by (auto simp: bh_execute_def hasCapacity_def)
qed

definition demo_bh_options :: bulkhead_options where
  "demo_bh_options = \<lparr>bo_name = ''db'', maxConcurrent = 1, maxQueue = 1, queueTimeout = 1000\<rparr>"

theorem bulkhead_bounded_witness:
  "run (bh_step demo_bh_options)
      [BExecute 1 1, BExecute 2 2, BExecute 3 3, BSettle 1 True, BFinally 1, BExecute 4 4, BTimeout 4]
      (new_bulkhead, 0, 0) =
    (\<lparr>bh_active = 1, bh_queue = [], bh_completed = 1, bh_rejected = 1, bh_timedOut = 1,
      bh_running = [2], bh_settled = []\<rparr>, 4, 0) \<and>
   (4 :: nat) = length [2 :: nat] + length [] + 1 + 0 + 1 + 1"
proof -
  let ?b = "\<lparr>bh_active = 1, bh_queue = [], bh_completed = 1, bh_rejected = 1, bh_timedOut = 1,
      bh_running = [2], bh_settled = []\<rparr>"
  have r: "run (bh_step demo_bh_options)
      [BExecute 1 1, BExecute 2 2, BExecute 3 3, BSettle 1 True, BFinally 1, BExecute 4 4, BTimeout 4]
      (new_bulkhead, 0, 0) = (?b, 4, 0)"
    by (simp add: new_bulkhead_def demo_bh_options_def bh_defs)
  show ?thesis using bulkhead_bounded [OF r] r by simp
qed

text \<open>
  The semaphore admits at most its limit: as long as only holders release, never more than the
  limit of clients hold it, a client waits only while all permits are taken, and a release hands its
  permit to the client that has waited longest.
\<close>

theorem semaphore_mutual_exclusion:
  assumes "run_ok sem_ok (sem_step limit) events createSemaphore"
    and "run (sem_step limit) events createSemaphore = s"
  shows "length (sem_holders s) \<le> limit \<and>
    sem_available limit s = int limit - int (length (sem_holders s)) \<and>
    (sem_waiting s \<noteq> [] \<longrightarrow> length (sem_holders s) = limit \<and>
      (\<forall>c. last (sem_holders (sem_release c s)) = hd (sem_waiting s) \<and>
           sem_waiting (sem_release c s) = tl (sem_waiting s)))"
proof -
  have "sem_inv limit createSemaphore" by (simp add: sem_inv_def createSemaphore_def)
  then have "sem_inv limit s"
    using sem_system.guarded_run [OF assms(1)] assms(2) by blast
  then show ?thesis
    by (auto simp: sem_inv_def sem_available_def sem_release_def split: list.split)
qed

theorem semaphore_mutual_exclusion_witness:
  "run (sem_step 1) [SemAcquire 7, SemAcquire 8, SemAcquire 9, SemRelease 7] createSemaphore =
     \<lparr>sem_current = 1, sem_waiting = [9], sem_holders = [8]\<rparr> \<and> length [8 :: nat] \<le> 1"
proof -
  have "run_ok sem_ok (sem_step 1) [SemAcquire 7, SemAcquire 8, SemAcquire 9, SemRelease 7] createSemaphore"
    and r: "run (sem_step 1) [SemAcquire 7, SemAcquire 8, SemAcquire 9, SemRelease 7] createSemaphore =
     \<lparr>sem_current = 1, sem_waiting = [9], sem_holders = [8]\<rparr>"
    by (simp_all add: createSemaphore_def sem_acquire_def sem_release_def)
  then show ?thesis using semaphore_mutual_exclusion [OF _ r] by simp
qed

end
