(* ===== verification/LruCache.thy ===== *)
theory LruCache
  imports Prelude
begin

text \<open>
  Model of \<open>memory/src/cache-manager.ts\<close>: the LRU cache with expiry and a memory budget; the
  two-level cache above it is in \<open>TieredCache\<close>. The nodes of the doubly linked list are objects with
  identity: they live in a heap, a pointer is an address or \<open>None\<close> for \<open>null\<close>, and \<open>ca_fresh\<close> is the next free
  address. \<open>JSON.stringify\<close> of the cached type is a parameter \<open>str\<close> (\<open>None\<close> when it fails), cached
  values are not \<open>null\<close>, clock reads are arguments, and \<open>await\<close> splits an operation in two. An
  eviction loop may not end; its value is then \<open>None\<close>. Emitted events are not modelled.
\<close>

section \<open>Definitions\<close>

record cache_config =
  maxSize :: int
  cc_ttl :: time
  lruEnabled :: bool
  maxMemory :: "int option"
  writeThrough :: bool

record 'a cached_entry =
  ce_data :: 'a
  ce_cachedAt :: time
  ce_expiresAt :: time
  ce_lastAccessedAt :: time
  ce_accessCount :: nat

record 'a lru_node =
  ln_key :: string
  ln_value :: "'a cached_entry"
  ln_prev :: "nat option"
  ln_next :: "nat option"

record 'a cache =
  ca_map :: "(string, nat) jsmap"
  ca_heap :: "nat \<Rightarrow> 'a lru_node option"
  ca_fresh :: nat
  ca_head :: "nat option"
  ca_tail :: "nat option"
  ca_memory :: int
  ca_hits :: nat
  ca_misses :: nat
  ca_evictions :: nat
  ca_expirations :: nat
  ca_writes :: nat

definition new_cache :: "'a cache" where
  "new_cache = \<lparr>ca_map = [], ca_heap = (\<lambda>_. None), ca_fresh = 0, ca_head = None, ca_tail = None,
     ca_memory = 0, ca_hits = 0, ca_misses = 0, ca_evictions = 0, ca_expirations = 0, ca_writes = 0\<rparr>"

text \<open>The operator \<open>x || d\<close> on a number that may be undefined.\<close>

definition or_default :: "int option \<Rightarrow> int \<Rightarrow> int" where
  "or_default v d = (case v of None \<Rightarrow> d | Some n \<Rightarrow> if n = 0 then d else n)"

definition mergeConfig ::
    "int option \<Rightarrow> int option \<Rightarrow> bool option \<Rightarrow> int option \<Rightarrow> bool option \<Rightarrow> cache_config" where
  "mergeConfig sz t lru mem wt =
     \<lparr>maxSize = or_default sz 10000, cc_ttl = or_default t 300000, lruEnabled = (lru \<noteq> Some False),
      maxMemory = mem, writeThrough = nullish wt False\<rparr>"

definition estimateSize :: "('a \<Rightarrow> string option) \<Rightarrow> 'a \<Rightarrow> int" where
  "estimateSize str d = (case str d of Some s \<Rightarrow> int (length s) * 2 | None \<Rightarrow> 1000)"

definition isExpired :: "time \<Rightarrow> 'a cached_entry \<Rightarrow> bool" where
  "isExpired now e \<longleftrightarrow> now > ce_expiresAt e"

text \<open>Reading a node and assigning to one of its fields.\<close>

definition deref :: "'a cache \<Rightarrow> nat \<Rightarrow> 'a lru_node" where
  "deref c a = the (ca_heap c a)"

definition modify :: "nat \<Rightarrow> ('a lru_node \<Rightarrow> 'a lru_node) \<Rightarrow> 'a cache \<Rightarrow> 'a cache" where
  "modify a f c = c\<lparr>ca_heap := (ca_heap c)(a := Some (f (deref c a)))\<rparr>"

definition addToFront :: "nat \<Rightarrow> 'a cache \<Rightarrow> 'a cache" where
  "addToFront a c =
     (let c1 = modify a (\<lambda>n. n\<lparr>ln_prev := None, ln_next := ca_head c\<rparr>) c;
          c2 = (case ca_head c1 of
                  None \<Rightarrow> c1
                | Some h \<Rightarrow> modify h (\<lambda>n. n\<lparr>ln_prev := Some a\<rparr>) c1);
          c3 = c2\<lparr>ca_head := Some a\<rparr>
      in if ca_tail c3 = None then c3\<lparr>ca_tail := Some a\<rparr> else c3)"

definition removeNode :: "nat \<Rightarrow> 'a cache \<Rightarrow> 'a cache" where
  "removeNode a c =
     (let c1 = (case ln_prev (deref c a) of
                  Some p \<Rightarrow> modify p (\<lambda>n. n\<lparr>ln_next := ln_next (deref c a)\<rparr>) c
                | None \<Rightarrow> c\<lparr>ca_head := ln_next (deref c a)\<rparr>)
      in case ln_next (deref c1 a) of
           Some q \<Rightarrow> modify q (\<lambda>n. n\<lparr>ln_prev := ln_prev (deref c1 a)\<rparr>) c1
         | None \<Rightarrow> c1\<lparr>ca_tail := ln_prev (deref c1 a)\<rparr>)"

definition moveToFront :: "nat \<Rightarrow> 'a cache \<Rightarrow> 'a cache" where
  "moveToFront a c = (if ca_head c = Some a then c else addToFront a (removeNode a c))"

definition evictLRU :: "('a \<Rightarrow> string option) \<Rightarrow> 'a cache \<Rightarrow> 'a cache" where
  "evictLRU str c =
     (case ca_tail c of
        None \<Rightarrow> c
      | Some t \<Rightarrow>
          let evictedKey = ln_key (deref c t);
              evictedSize = estimateSize str (ce_data (ln_value (deref c t)));
              c1 = removeNode t c
          in c1\<lparr>ca_map := jdel evictedKey (ca_map c1), ca_memory := ca_memory c1 - evictedSize,
                ca_evictions := ca_evictions c1 + 1\<rparr>)"

definition ca_size :: "'a cache \<Rightarrow> nat" where
  "ca_size c = length (ca_map c)"

definition ca_keys :: "'a cache \<Rightarrow> string list" where
  "ca_keys c = jkeys (ca_map c)"

definition ca_delete :: "('a \<Rightarrow> string option) \<Rightarrow> string \<Rightarrow> 'a cache \<Rightarrow> bool \<times> 'a cache" where
  "ca_delete str key c =
     (case jget (ca_map c) key of
        None \<Rightarrow> (False, c)
      | Some a \<Rightarrow>
          let c1 = removeNode a c
          in (True, c1\<lparr>ca_map := jdel key (ca_map c1),
                       ca_memory := ca_memory c1 - estimateSize str (ce_data (ln_value (deref c1 a)))\<rparr>))"

definition ca_get :: "('a \<Rightarrow> string option) \<Rightarrow> clock \<Rightarrow> string \<Rightarrow> 'a cache \<Rightarrow> 'a option \<times> 'a cache" where
  "ca_get str clk key c =
     (case jget (ca_map c) key of
        None \<Rightarrow> (None, c\<lparr>ca_misses := ca_misses c + 1\<rparr>)
      | Some a \<Rightarrow>
          if isExpired (clk 0) (ln_value (deref c a))
          then let c1 = snd (ca_delete str key c)
               in (None, c1\<lparr>ca_misses := ca_misses c1 + 1, ca_expirations := ca_expirations c1 + 1\<rparr>)
          else
            let c1 = modify a (\<lambda>n. n\<lparr>ln_value := (ln_value n)\<lparr>ce_lastAccessedAt := clk 1,
                                      ce_accessCount := ce_accessCount (ln_value n) + 1\<rparr>\<rparr>) c;
                c2 = moveToFront a c1;
                c3 = c2\<lparr>ca_hits := ca_hits c2 + 1\<rparr>
            in (Some (ce_data (ln_value (deref c3 a))), c3))"

text \<open>
  The eviction loops of \<open>set\<close>: while the budget \<open>limit\<close> cannot take \<open>extra\<close> more bytes, and while
  the cache is at capacity.
\<close>

partial_function (option) evict_for_memory ::
    "('a \<Rightarrow> string option) \<Rightarrow> int \<Rightarrow> int \<Rightarrow> 'a cache \<Rightarrow> 'a cache option" where
  "evict_for_memory str limit extra c =
     (if ca_memory c + extra > limit \<and> ca_size c > 0
      then evict_for_memory str limit extra (evictLRU str c) else Some c)"

partial_function (option) evict_for_size ::
    "('a \<Rightarrow> string option) \<Rightarrow> int \<Rightarrow> 'a cache \<Rightarrow> 'a cache option" where
  "evict_for_size str limit c =
     (if int (ca_size c) \<ge> limit then evict_for_size str limit (evictLRU str c) else Some c)"

declare evict_for_memory.simps [code] evict_for_size.simps [code]

text \<open>A budget that is undefined or 0 is falsy: there is no limit.\<close>

definition memory_limit :: "cache_config \<Rightarrow> int option" where
  "memory_limit cfg = (if maxMemory cfg = Some 0 then None else maxMemory cfg)"

definition evict_memory_loop ::
    "('a \<Rightarrow> string option) \<Rightarrow> cache_config \<Rightarrow> int \<Rightarrow> 'a cache \<Rightarrow> 'a cache option" where
  "evict_memory_loop str cfg extra c =
     (case memory_limit cfg of None \<Rightarrow> Some c | Some limit \<Rightarrow> evict_for_memory str limit extra c)"

definition ca_set ::
    "('a \<Rightarrow> string option) \<Rightarrow> cache_config \<Rightarrow> time \<Rightarrow> string \<Rightarrow> 'a \<Rightarrow> int option \<Rightarrow> 'a cache \<Rightarrow> 'a cache option" where
  "ca_set str cfg now key d ttl c =
     (let entryTtl = or_default ttl (cc_ttl cfg);
          entryMemory = estimateSize str d
      in if (case memory_limit cfg of None \<Rightarrow> False | Some limit \<Rightarrow> entryMemory > limit)
         then Some (snd (ca_delete str key c))
         else
           case jget (ca_map c) key of
             Some a \<Rightarrow>
               let c1 = c\<lparr>ca_memory := ca_memory c +
                            (entryMemory - estimateSize str (ce_data (ln_value (deref c a))))\<rparr>;
                   c2 = modify a (\<lambda>n. n\<lparr>ln_value := (ln_value n)\<lparr>ce_data := d, ce_cachedAt := now,
                                     ce_expiresAt := now + entryTtl, ce_lastAccessedAt := now\<rparr>\<rparr>) c1;
                   c3 = moveToFront a c2
               in map_option (\<lambda>c4. c4\<lparr>ca_writes := ca_writes c4 + 1\<rparr>) (evict_memory_loop str cfg 0 c3)
           | None \<Rightarrow>
               (case evict_memory_loop str cfg entryMemory c of
                  None \<Rightarrow> None
                | Some c1 \<Rightarrow>
                    case evict_for_size str (maxSize cfg) c1 of
                      None \<Rightarrow> None
                    | Some c2 \<Rightarrow>
                        let a = ca_fresh c2;
                            node = \<lparr>ln_key = key,
                                    ln_value = \<lparr>ce_data = d, ce_cachedAt = now, ce_expiresAt = now + entryTtl,
                                                ce_lastAccessedAt = now, ce_accessCount = 0\<rparr>,
                                    ln_prev = None, ln_next = None\<rparr>;
                            c3 = c2\<lparr>ca_heap := (ca_heap c2)(a := Some node), ca_fresh := a + 1,
                                    ca_map := jset key a (ca_map c2)\<rparr>;
                            c4 = addToFront a c3
                        in Some (c4\<lparr>ca_memory := ca_memory c4 + entryMemory, ca_writes := ca_writes c4 + 1\<rparr>)))"

definition ca_has :: "('a \<Rightarrow> string option) \<Rightarrow> time \<Rightarrow> string \<Rightarrow> 'a cache \<Rightarrow> bool \<times> 'a cache" where
  "ca_has str now key c =
     (case jget (ca_map c) key of
        None \<Rightarrow> (False, c)
      | Some a \<Rightarrow>
          if isExpired now (ln_value (deref c a)) then (False, snd (ca_delete str key c)) else (True, c))"

definition ca_clear :: "'a cache \<Rightarrow> 'a cache" where
  "ca_clear c = c\<lparr>ca_map := [], ca_head := None, ca_tail := None, ca_memory := 0\<rparr>"

record cache_stats =
  cs_size :: nat
  cs_hits :: nat
  cs_misses :: nat
  cs_evictions :: nat
  cs_memoryUsage :: int

text \<open>The hit rate, the quotient of two of the counters, is left out.\<close>

definition ca_getStats :: "'a cache \<Rightarrow> cache_stats" where
  "ca_getStats c = \<lparr>cs_size = ca_size c, cs_hits = ca_hits c, cs_misses = ca_misses c,
     cs_evictions = ca_evictions c, cs_memoryUsage = ca_memory c\<rparr>"

text \<open>Setting a list of values in order; \<open>clk k\<close> is the clock read of the \<open>k\<close>-th one.\<close>

fun set_all ::
    "('a \<Rightarrow> string option) \<Rightarrow> cache_config \<Rightarrow> clock \<Rightarrow> (string \<times> 'a \<times> int option) list \<Rightarrow> 'a cache \<Rightarrow> 'a cache option" where
  "set_all str cfg clk [] c = Some c"
| "set_all str cfg clk ((key, d, ttl) # entries) c =
     (case ca_set str cfg (clk 0) key d ttl c of
        None \<Rightarrow> None
      | Some c' \<Rightarrow> set_all str cfg (\<lambda>k. clk (Suc k)) entries c')"

definition ca_warmUp ::
    "('a \<Rightarrow> string option) \<Rightarrow> cache_config \<Rightarrow> clock \<Rightarrow> (string \<times> 'a \<times> int option) list \<Rightarrow> 'a cache \<Rightarrow> 'a cache option" where
  "ca_warmUp str cfg clk entries c = set_all str cfg clk entries c"

text \<open>\<open>prefetch\<close> up to the call of the loader, which gets the missing keys, and what follows it.\<close>

fun prefetch_missing ::
    "('a \<Rightarrow> string option) \<Rightarrow> clock \<Rightarrow> string list \<Rightarrow> 'a cache \<Rightarrow> string list \<times> 'a cache" where
  "prefetch_missing str clk [] c = ([], c)"
| "prefetch_missing str clk (key # keys) c =
     (let (present, c1) = ca_has str (clk 0) key c;
          (missing, c2) = prefetch_missing str (\<lambda>k. clk (Suc k)) keys c1
      in (if present then missing else key # missing, c2))"

definition prefetch_store ::
    "('a \<Rightarrow> string option) \<Rightarrow> cache_config \<Rightarrow> clock \<Rightarrow> (string, 'a) jsmap \<Rightarrow> int option \<Rightarrow> 'a cache \<Rightarrow> 'a cache option" where
  "prefetch_store str cfg clk loaded ttl c =
     set_all str cfg clk (map (\<lambda>(key, d). (key, d, ttl)) loaded) c"

text \<open>\<open>getOrSet\<close>: the lookup; on a miss the loader runs, and its value is stored.\<close>

definition getOrSet_begin ::
    "('a \<Rightarrow> string option) \<Rightarrow> clock \<Rightarrow> string \<Rightarrow> 'a cache \<Rightarrow> 'a option \<times> 'a cache" where
  "getOrSet_begin str clk key c = ca_get str clk key c"

definition getOrSet_end ::
    "('a \<Rightarrow> string option) \<Rightarrow> cache_config \<Rightarrow> time \<Rightarrow> string \<Rightarrow> 'a \<Rightarrow> int option \<Rightarrow> 'a cache \<Rightarrow> ('a \<times> 'a cache) option" where
  "getOrSet_end str cfg now key d ttl c = map_option (\<lambda>c'. (d, c')) (ca_set str cfg now key d ttl c)"

text \<open>
  \<open>invalidatePattern\<close> for a regular expression that matches the keys \<open>matches\<close>, and the cleanup
  the interval timer starts. Both walk over the map while they delete from it.
\<close>

definition invalidatePattern ::
    "('a \<Rightarrow> string option) \<Rightarrow> (string \<Rightarrow> bool) \<Rightarrow> 'a cache \<Rightarrow> nat \<times> 'a cache" where
  "invalidatePattern str matches c =
     fold (\<lambda>key (n, c). if matches key then (n + 1, snd (ca_delete str key c)) else (n, c)) (jkeys (ca_map c)) (0, c)"

definition cleanupExpired :: "('a \<Rightarrow> string option) \<Rightarrow> time \<Rightarrow> 'a cache \<Rightarrow> nat \<times> 'a cache" where
  "cleanupExpired str now c =
     fold (\<lambda>(key, a) (n, c). if ce_expiresAt (ln_value (deref c a)) < now
                             then (n + 1, snd (ca_delete str key c)) else (n, c)) (ca_map c) (0, c)"

section \<open>The doubly linked list\<close>

text \<open>
  \<open>linked h p xs n\<close>: the nodes at the addresses \<open>xs\<close> are chained in this order, the first one
  points back to \<open>p\<close> and the last one forward to \<open>n\<close>.
\<close>

definition first_or :: "nat list \<Rightarrow> nat option \<Rightarrow> nat option" where
  "first_or xs n = (case xs of [] \<Rightarrow> n | a # _ \<Rightarrow> Some a)"

definition last_or :: "nat option \<Rightarrow> nat list \<Rightarrow> nat option" where
  "last_or p xs = (if xs = [] then p else Some (last xs))"

fun linked :: "(nat \<Rightarrow> 'a lru_node option) \<Rightarrow> nat option \<Rightarrow> nat list \<Rightarrow> nat option \<Rightarrow> bool" where
  "linked h p [] n \<longleftrightarrow> True"
| "linked h p (a # xs) n \<longleftrightarrow>
     (\<exists>nd. h a = Some nd \<and> ln_prev nd = p \<and> ln_next nd = first_or xs n) \<and> linked h (Some a) xs n"

lemma first_or_simps [simp]: "first_or [] n = n" "first_or (a # xs) n = Some a"
  by (simp_all add: first_or_def)

lemma last_or_simps [simp]: "last_or p [] = p" "last_or p (a # xs) = last_or (Some a) xs"
  by (simp_all add: last_or_def)

lemma first_or_append: "first_or (xs @ ys) n = first_or xs (first_or ys n)"
  by (cases xs) auto

lemma last_or_append: "last_or p (xs @ ys) = last_or (last_or p xs) ys"
  by (simp add: last_or_def)

lemma first_or_None [simp]: "first_or xs None = None \<longleftrightarrow> xs = []"
  by (cases xs) auto

lemma last_or_Some [simp]: "\<exists>y. last_or (Some b) xs = Some y"
  by (simp add: last_or_def)

lemma last_or_None [simp]: "last_or None xs = None \<longleftrightarrow> xs = []"
  by (simp add: last_or_def)

lemma linked_append: "linked h p (xs @ ys) n \<longleftrightarrow> linked h p xs (first_or ys n) \<and> linked h (last_or p xs) ys n"
  by (induction xs arbitrary: p) (auto simp: first_or_append)

lemma linked_frame: "a \<notin> set xs \<Longrightarrow> linked (h(a := v)) p xs n = linked h p xs n"
  by (induction xs arbitrary: p) auto

lemma linked_dom: "linked h p xs n \<Longrightarrow> a \<in> set xs \<Longrightarrow> \<exists>nd. h a = Some nd"
  by (induction xs arbitrary: p) auto

text \<open>Redirecting the end of a chain, and the beginning of one.\<close>

lemma linked_set_next:
  assumes "linked h p (xs @ [b]) n" "b \<notin> set xs"
  shows "linked (h(b := Some ((the (h b))\<lparr>ln_next := n'\<rparr>))) p (xs @ [b]) n'"
  using assms by (auto simp: linked_append linked_frame)

lemma linked_set_prev:
  assumes "linked h p (b # ys) n" "b \<notin> set ys"
  shows "linked (h(b := Some ((the (h b))\<lparr>ln_prev := p'\<rparr>))) p' (b # ys) n"
  using assms by (auto simp: linked_frame)

definition dll :: "'a cache \<Rightarrow> nat list \<Rightarrow> bool" where
  "dll c xs \<longleftrightarrow> distinct xs \<and> linked (ca_heap c) None xs None \<and>
     ca_head c = first_or xs None \<and> ca_tail c = last_or None xs"

text \<open>What a node holds, next to its pointers, and what pointer operations leave alone.\<close>

definition content :: "'a cache \<Rightarrow> nat \<Rightarrow> (string \<times> 'a cached_entry) option" where
  "content c a = map_option (\<lambda>n. (ln_key n, ln_value n)) (ca_heap c a)"

definition same_but_pointers :: "'a cache \<Rightarrow> 'a cache \<Rightarrow> bool" where
  "same_but_pointers c c' \<longleftrightarrow> content c' = content c \<and> ca_map c' = ca_map c \<and> ca_fresh c' = ca_fresh c \<and>
     ca_memory c' = ca_memory c \<and> ca_hits c' = ca_hits c \<and> ca_misses c' = ca_misses c \<and>
     ca_evictions c' = ca_evictions c \<and> ca_expirations c' = ca_expirations c \<and> ca_writes c' = ca_writes c"

lemma same_but_pointers_trans:
  "same_but_pointers c c' \<Longrightarrow> same_but_pointers c' c'' \<Longrightarrow> same_but_pointers c c''"
  by (simp add: same_but_pointers_def)

lemma content_deref: "content c a = Some (k, e) \<Longrightarrow> ln_key (deref c a) = k \<and> ln_value (deref c a) = e"
  by (auto simp: content_def deref_def)

lemma dll_removeNode:
  assumes "dll c (xs @ a # ys)"
  shows "dll (removeNode a c) (xs @ ys)" and "same_but_pointers c (removeNode a c)"
proof -
  obtain nd where nd: "ca_heap c a = Some nd" "ln_prev nd = last_or None xs" "ln_next nd = first_or ys None"
    and lx: "linked (ca_heap c) None xs (Some a)" and ly: "linked (ca_heap c) (Some a) ys None"
    and d: "distinct xs" "distinct ys" "a \<notin> set xs" "a \<notin> set ys" "set xs \<inter> set ys = {}"
    and h: "ca_head c = first_or xs (Some a)" and t: "ca_tail c = last_or (Some a) ys"
    using assms by (auto simp: dll_def linked_append first_or_append last_or_append)
  note simps = removeNode_def Let_def deref_def nd dll_def linked_append first_or_append last_or_append
  show "dll (removeNode a c) (xs @ ys)"
  proof (cases xs rule: rev_cases)
    case Nil
    note x = Nil
    show ?thesis
    proof (cases ys)
      case Nil
      then show ?thesis using x nd by (simp add: simps)
    next
      case (Cons b bs)
      then show ?thesis
        using x d ly linked_set_prev [of "ca_heap c" "Some a" b bs None None] t
        by (simp add: simps modify_def)
    qed
  next
    case (snoc as p)
    note x = snoc
    have lp: "linked ((ca_heap c)(p := Some ((the (ca_heap c p))\<lparr>ln_next := first_or ys None\<rparr>))) None xs (first_or ys None)"
      using linked_set_next [of "ca_heap c" None as p] lx d x by auto
    show ?thesis
    proof (cases ys)
      case Nil
      then show ?thesis using x d lp h by (simp add: simps modify_def last_or_append)
    next
      case (Cons b bs)
      then show ?thesis
        using x d lp ly h t linked_set_prev [of "ca_heap c" "Some a" b bs None "Some p"]
        by (auto simp: simps modify_def linked_frame last_or_append)
    qed
  qed
  have "ca_heap c (last xs) \<noteq> None" if "xs \<noteq> []"
    using linked_dom [OF lx, of "last xs"] that by auto
  moreover have "ca_heap c (hd ys) \<noteq> None" if "ys \<noteq> []"
    using linked_dom [OF ly, of "hd ys"] that by auto
  ultimately show "same_but_pointers c (removeNode a c)"
    using d nd
    by (cases ys; cases "xs = []")
      (auto simp: removeNode_def Let_def deref_def last_or_def same_but_pointers_def content_def modify_def fun_eq_iff)
qed

lemma dll_addToFront:
  assumes "dll c xs" "a \<notin> set xs" "ca_heap c a = Some nd"
  shows "dll (addToFront a c) (a # xs)" and "same_but_pointers c (addToFront a c)"
proof -
  have l: "linked (ca_heap c) None xs None" "distinct xs"
    and ht: "ca_head c = first_or xs None" "ca_tail c = last_or None xs"
    using assms(1) by (simp_all add: dll_def)
  show "dll (addToFront a c) (a # xs)"
  proof (cases xs)
    case Nil
    then show ?thesis using assms ht by (simp add: addToFront_def Let_def modify_def dll_def deref_def)
  next
    case (Cons b bs)
    then show ?thesis
      using assms l ht linked_set_prev [of "ca_heap c" None b bs None "Some a"]
      by (auto simp: addToFront_def Let_def modify_def dll_def deref_def linked_frame)
  qed
  show "same_but_pointers c (addToFront a c)"
  proof (cases xs)
    case (Cons b bs)
    then have "ca_heap c b \<noteq> None" using linked_dom [OF l(1), of b] by auto
    then show ?thesis
      using assms(2,3) ht Cons
      by (auto simp: addToFront_def Let_def deref_def same_but_pointers_def content_def modify_def fun_eq_iff)
  qed (use assms(3) ht in \<open>auto simp: addToFront_def Let_def deref_def same_but_pointers_def content_def
        modify_def fun_eq_iff\<close>)
qed

lemma dll_moveToFront:
  assumes "dll c (xs @ a # ys)"
  shows "dll (moveToFront a c) (a # xs @ ys)" and "same_but_pointers c (moveToFront a c)"
proof -
  obtain nd where a: "ca_heap c a = Some nd" and "a \<notin> set (xs @ ys)" and head: "ca_head c = first_or xs (Some a)"
    using assms by (auto simp: dll_def linked_append first_or_append)
  note r = dll_removeNode [OF assms]
  have "content (removeNode a c) a \<noteq> None" using r(2) a by (simp add: same_but_pointers_def content_def)
  then obtain nd' where a': "ca_heap (removeNode a c) a = Some nd'" by (auto simp: content_def)
  note m = dll_addToFront [OF r(1) \<open>a \<notin> _\<close> a']
  have "xs = []" if "ca_head c = Some a"
    using that \<open>a \<notin> _\<close> head by (cases xs) auto
  then show "dll (moveToFront a c) (a # xs @ ys)" using m(1) assms by (auto simp: moveToFront_def)
  show "same_but_pointers c (moveToFront a c)"
    using same_but_pointers_trans [OF r(2) m(2)] by (simp add: moveToFront_def same_but_pointers_def)
qed

section \<open>The abstract cache\<close>

text \<open>
  The abstract cache is the list of its keys and entries, most recently used first. A lookup moves its
  entry to the front, and evictions take entries from the end.
\<close>

type_synonym 'a lru = "(string \<times> 'a cached_entry) list"

definition weight :: "('a \<Rightarrow> string option) \<Rightarrow> 'a lru \<Rightarrow> int" where
  "weight str l = sum_list (map (\<lambda>(k, e). estimateSize str (ce_data e)) l)"

definition spec_get :: "clock \<Rightarrow> string \<Rightarrow> 'a lru \<Rightarrow> 'a option \<times> 'a lru" where
  "spec_get clk key l =
     (case jget l key of
        None \<Rightarrow> (None, l)
      | Some e \<Rightarrow>
          if isExpired (clk 0) e then (None, jdel key l)
          else (Some (ce_data e),
                (key, e\<lparr>ce_lastAccessedAt := clk 1, ce_accessCount := ce_accessCount e + 1\<rparr>) # jdel key l))"

function shrink :: "('a \<Rightarrow> string option) \<Rightarrow> int \<Rightarrow> int \<Rightarrow> 'a lru \<Rightarrow> 'a lru" where
  "shrink str limit extra l =
     (if weight str l + extra > limit \<and> l \<noteq> [] then shrink str limit extra (butlast l) else l)"
  by auto
termination by (relation "measure (\<lambda>(str, limit, extra, l). length l)") auto

declare shrink.simps [simp del]

definition fit_memory :: "('a \<Rightarrow> string option) \<Rightarrow> cache_config \<Rightarrow> int \<Rightarrow> 'a lru \<Rightarrow> 'a lru" where
  "fit_memory str cfg extra l =
     (case memory_limit cfg of None \<Rightarrow> l | Some limit \<Rightarrow> shrink str limit extra l)"

definition spec_set ::
    "('a \<Rightarrow> string option) \<Rightarrow> cache_config \<Rightarrow> time \<Rightarrow> string \<Rightarrow> 'a \<Rightarrow> int option \<Rightarrow> 'a lru \<Rightarrow> 'a lru" where
  "spec_set str cfg now key d ttl l =
     (let expiry = now + or_default ttl (cc_ttl cfg)
      in if (case memory_limit cfg of None \<Rightarrow> False | Some limit \<Rightarrow> estimateSize str d > limit) then jdel key l
         else case jget l key of
                Some e \<Rightarrow>
                  fit_memory str cfg 0
                    ((key, e\<lparr>ce_data := d, ce_cachedAt := now, ce_expiresAt := expiry, ce_lastAccessedAt := now\<rparr>)
                     # jdel key l)
              | None \<Rightarrow>
                  (key, \<lparr>ce_data = d, ce_cachedAt = now, ce_expiresAt = expiry, ce_lastAccessedAt = now,
                         ce_accessCount = 0\<rparr>)
                  # take (nat (maxSize cfg - 1)) (fit_memory str cfg (estimateSize str d) l))"

section \<open>The cache implements the abstract cache\<close>

definition abs_cache :: "'a cache \<Rightarrow> nat list \<Rightarrow> 'a lru" where
  "abs_cache c xs = map (\<lambda>a. the (content c a)) xs"

definition cache_inv :: "('a \<Rightarrow> string option) \<Rightarrow> 'a cache \<Rightarrow> nat list \<Rightarrow> bool" where
  "cache_inv str c xs \<longleftrightarrow> dll c xs \<and> jwf (ca_map c) \<and>
     (\<forall>k a. jget (ca_map c) k = Some a \<longleftrightarrow> a \<in> set xs \<and> (\<exists>e. content c a = Some (k, e))) \<and>
     ca_memory c = weight str (abs_cache c xs) \<and> (\<forall>a. content c a \<noteq> None \<longrightarrow> a < ca_fresh c)"

lemma stats_irrelevant [simp]:
  "cache_inv str (c\<lparr>ca_hits := n\<rparr>) xs = cache_inv str c xs"
  "cache_inv str (c\<lparr>ca_misses := n\<rparr>) xs = cache_inv str c xs"
  "cache_inv str (c\<lparr>ca_evictions := n\<rparr>) xs = cache_inv str c xs"
  "cache_inv str (c\<lparr>ca_expirations := n\<rparr>) xs = cache_inv str c xs"
  "cache_inv str (c\<lparr>ca_writes := n\<rparr>) xs = cache_inv str c xs"
  "abs_cache (c\<lparr>ca_hits := n\<rparr>) xs = abs_cache c xs"
  "abs_cache (c\<lparr>ca_misses := n\<rparr>) xs = abs_cache c xs"
  "abs_cache (c\<lparr>ca_evictions := n\<rparr>) xs = abs_cache c xs"
  "abs_cache (c\<lparr>ca_expirations := n\<rparr>) xs = abs_cache c xs"
  "abs_cache (c\<lparr>ca_writes := n\<rparr>) xs = abs_cache c xs"
  "abs_cache (c\<lparr>ca_map := m\<rparr>) xs = abs_cache c xs"
  "abs_cache (c\<lparr>ca_memory := v\<rparr>) xs = abs_cache c xs"
  by (simp_all add: cache_inv_def dll_def content_def abs_cache_def)

lemma content_core [simp]:
  "content (c\<lparr>ca_map := m\<rparr>) = content c" "content (c\<lparr>ca_memory := v\<rparr>) = content c"
  "content (c\<lparr>ca_hits := n\<rparr>) = content c" "content (c\<lparr>ca_evictions := n\<rparr>) = content c"
  by (simp_all add: content_def fun_eq_iff)

lemma dll_core [simp]: "dll (c\<lparr>ca_map := m\<rparr>) xs = dll c xs" "dll (c\<lparr>ca_memory := v\<rparr>) xs = dll c xs"
  by (simp_all add: dll_def)

lemma cache_inv_key:
  assumes "cache_inv str c xs" "a \<in> set xs"
  obtains k e where "content c a = Some (k, e)" "jget (ca_map c) k = Some a"
proof -
  have "\<exists>nd. ca_heap c a = Some nd" using assms linked_dom by (fastforce simp: cache_inv_def dll_def)
  then obtain k e where "content c a = Some (k, e)" by (auto simp: content_def)
  moreover from this have "jget (ca_map c) k = Some a" using assms by (auto simp: cache_inv_def)
  ultimately show ?thesis by (rule that)
qed

lemma cache_inv_lookup:
  assumes "cache_inv str c xs" "jget (ca_map c) k = Some a"
  obtains e where "a \<in> set xs" "content c a = Some (k, e)"
  using assms by (auto simp: cache_inv_def)

lemma abs_jwf: "cache_inv str c xs \<Longrightarrow> jwf (abs_cache c xs)"
proof -
  assume i: "cache_inv str c xs"
  have "inj_on (\<lambda>a. fst (the (content c a))) (set xs)"
  proof (rule inj_onI)
    fix a b assume "a \<in> set xs" "b \<in> set xs" "fst (the (content c a)) = fst (the (content c b))"
    then show "a = b" using cache_inv_key [OF i] by (metis fst_conv option.inject option.sel)
  qed
  then show ?thesis using i
    by (simp add: jwf_def jkeys_def abs_cache_def cache_inv_def dll_def distinct_map comp_def)
qed

lemma jget_abs:
  assumes "cache_inv str c xs"
  shows "jget (abs_cache c xs) k = (case jget (ca_map c) k of None \<Rightarrow> None | Some a \<Rightarrow> map_option snd (content c a))"
proof (cases "jget (ca_map c) k")
  case None
  have "jget (abs_cache c xs) k = None"
  proof (rule ccontr)
    assume "jget (abs_cache c xs) k \<noteq> None"
    then obtain e where "(k, e) \<in> set (abs_cache c xs)" using jget_mem by fastforce
    then obtain a where "a \<in> set xs" "the (content c a) = (k, e)" by (auto simp: abs_cache_def)
    then show False using cache_inv_key [OF assms \<open>a \<in> set xs\<close>] None by (metis fst_conv option.sel option.distinct(1))
  qed
  then show ?thesis using None by simp
next
  case (Some a)
  then obtain e where a: "a \<in> set xs" "content c a = Some (k, e)" using assms by (auto simp: cache_inv_def)
  then have "(k, e) \<in> set (abs_cache c xs)" by (force simp: abs_cache_def)
  then show ?thesis using Some a jget_in [OF abs_jwf [OF assms]] by simp
qed

lemma set_keys_abs:
  assumes "cache_inv str c xs"
  shows "set (jkeys (ca_map c)) = set (jkeys (abs_cache c xs))"
proof -
  have "jget (abs_cache c xs) k = None \<longleftrightarrow> jget (ca_map c) k = None" for k
    using jget_abs [OF assms, of k]
    by (cases "jget (ca_map c) k") (auto elim: cache_inv_lookup [OF assms])
  then show ?thesis by (auto simp: jget_jkeys)
qed

lemma ca_size_abs:
  assumes "cache_inv str c xs"
  shows "ca_size c = length xs"
proof -
  have "distinct (jkeys (ca_map c))" "distinct (jkeys (abs_cache c xs))"
    using assms abs_jwf [OF assms] by (simp_all add: cache_inv_def jwf_def)
  then have "length (jkeys (ca_map c)) = length (jkeys (abs_cache c xs))"
    using set_keys_abs [OF assms] by (metis distinct_card)
  then show ?thesis by (simp add: ca_size_def jkeys_def abs_cache_def)
qed

lemma jdel_split: "jwf (l1 @ (k, e) # l2) \<Longrightarrow> jdel k (l1 @ (k, e) # l2) = l1 @ l2"
  by (auto simp: jwf_def jkeys_def jdel_def image_iff intro!: arg_cong2 [where f = append] filter_True)

lemma abs_split:
  assumes "cache_inv str c (xs @ a # ys)" "content c a = Some (k, e)"
  shows "abs_cache c (xs @ a # ys) = abs_cache c xs @ (k, e) # abs_cache c ys"
    and "jdel k (abs_cache c (xs @ a # ys)) = abs_cache c xs @ abs_cache c ys"
proof -
  show s: "abs_cache c (xs @ a # ys) = abs_cache c xs @ (k, e) # abs_cache c ys"
    using assms(2) by (simp add: abs_cache_def)
  show "jdel k (abs_cache c (xs @ a # ys)) = abs_cache c xs @ abs_cache c ys"
    unfolding s by (rule jdel_split) (use abs_jwf [OF assms(1)] s in simp)
qed

lemma weight_simps [simp]:
  "weight str [] = 0" "weight str ((k, e) # l) = estimateSize str (ce_data e) + weight str l"
  "weight str (l1 @ l2) = weight str l1 + weight str l2"
  by (simp_all add: weight_def)

text \<open>Taking a node out of the list and its key out of the map.\<close>

lemma cache_inv_remove:
  assumes inv: "cache_inv str c (xs @ a # ys)" and a: "content c a = Some (k, e)"
  defines "c' \<equiv> (removeNode a c)\<lparr>ca_map := jdel k (ca_map c), ca_memory := ca_memory c - estimateSize str (ce_data e)\<rparr>"
  shows "cache_inv str c' (xs @ ys)" and "abs_cache c' (xs @ ys) = jdel k (abs_cache c (xs @ a # ys))"
    and "content c' = content c"
proof -
  have d: "dll c (xs @ a # ys)" using inv by (simp add: cache_inv_def)
  note r = dll_removeNode [OF d]
  show cont: "content c' = content c" using r(2) by (simp add: c'_def same_but_pointers_def)
  have abs: "abs_cache c' zs = abs_cache c zs" for zs by (simp add: abs_cache_def cont)
  show "abs_cache c' (xs @ ys) = jdel k (abs_cache c (xs @ a # ys))"
    using abs_split(2) [OF inv a] by (simp add: abs) (simp add: abs_cache_def)
  have iff: "jget (ca_map c) j = Some b \<longleftrightarrow> b \<in> set (xs @ a # ys) \<and> (\<exists>e. content c b = Some (j, e))" for j b
    using inv by (simp add: cache_inv_def)
  have "jget (ca_map c) k = Some a" using a iff by auto
  then have "jget (jdel k (ca_map c)) j = Some b \<longleftrightarrow> b \<in> set (xs @ ys) \<and> (\<exists>e. content c b = Some (j, e))" for j b
    using iff [of j b] a d by (cases "j = k") (auto simp: dll_def)
  moreover have "ca_memory c - estimateSize str (ce_data e) = weight str (abs_cache c (xs @ ys))"
    using inv abs_split(1) [OF inv a] by (simp add: cache_inv_def abs_cache_def)
  ultimately show "cache_inv str c' (xs @ ys)"
    using inv r by (simp add: cache_inv_def cont abs same_but_pointers_def) (simp add: c'_def same_but_pointers_def)
qed

lemma delete_refines:
  assumes "cache_inv str c xs"
  shows "\<exists>ys. cache_inv str (snd (ca_delete str k c)) ys \<and>
    abs_cache (snd (ca_delete str k c)) ys = jdel k (abs_cache c xs)"
    and "fst (ca_delete str k c) \<longleftrightarrow> jget (abs_cache c xs) k \<noteq> None"
proof -
  show "fst (ca_delete str k c) \<longleftrightarrow> jget (abs_cache c xs) k \<noteq> None"
    using jget_abs [OF assms, of k]
    by (cases "jget (ca_map c) k") (auto simp: ca_delete_def Let_def elim: cache_inv_lookup [OF assms])
  show "\<exists>ys. cache_inv str (snd (ca_delete str k c)) ys \<and>
    abs_cache (snd (ca_delete str k c)) ys = jdel k (abs_cache c xs)"
  proof (cases "jget (ca_map c) k")
    case None
    then have "jget (abs_cache c xs) k = None" using jget_abs [OF assms] by simp
    then have "jdel k (abs_cache c xs) = abs_cache c xs"
      by (auto simp: jdel_def filter_id_conv jget_jkeys jkeys_def)
    then show ?thesis using None assms by (auto simp: ca_delete_def)
  next
    case (Some a)
    then obtain e where a: "a \<in> set xs" "content c a = Some (k, e)" using cache_inv_lookup [OF assms] by blast
    then obtain us vs where xs: "xs = us @ a # vs" by (auto simp: in_set_conv_decomp)
    have d: "dll c (us @ a # vs)" using assms xs by (simp add: cache_inv_def)
    have "same_but_pointers c (removeNode a c)" by (rule dll_removeNode(2) [OF d])
    then have "content (removeNode a c) a = Some (k, e)" "ca_map (removeNode a c) = ca_map c"
      "ca_memory (removeNode a c) = ca_memory c" using a by (simp_all add: same_but_pointers_def)
    then have "snd (ca_delete str k c) =
        (removeNode a c)\<lparr>ca_map := jdel k (ca_map c), ca_memory := ca_memory c - estimateSize str (ce_data e)\<rparr>"
      using Some content_deref [of "removeNode a c"] by (simp add: ca_delete_def Let_def)
    then show ?thesis using cache_inv_remove [OF assms [unfolded xs] a(2)] xs by auto
  qed
qed

lemma evict_refines:
  assumes "cache_inv str c xs" "xs \<noteq> []"
  shows "cache_inv str (evictLRU str c) (butlast xs)" and "abs_cache (evictLRU str c) (butlast xs) = butlast (abs_cache c xs)"
proof -
  obtain us t where xs: "xs = us @ [t]" using assms(2) by (cases xs rule: rev_cases) auto
  have i: "cache_inv str c (us @ t # [])" using assms(1) xs by simp
  obtain k e where t: "content c t = Some (k, e)" by (rule cache_inv_key [OF i]) auto
  have d: "dll c (us @ t # [])" using i by (simp add: cache_inv_def)
  have "same_but_pointers c (removeNode t c)" by (rule dll_removeNode(2) [OF d])
  then have "ca_map (removeNode t c) = ca_map c" "ca_memory (removeNode t c) = ca_memory c"
    by (simp_all add: same_but_pointers_def)
  moreover have "ca_tail c = Some t" using d by (simp add: dll_def last_or_def)
  ultimately have "evictLRU str c = ((removeNode t c)\<lparr>ca_map := jdel k (ca_map c),
      ca_memory := ca_memory c - estimateSize str (ce_data e)\<rparr>)\<lparr>ca_evictions := ca_evictions (removeNode t c) + 1\<rparr>"
    using content_deref [OF t] by (simp add: evictLRU_def Let_def)
  then show "cache_inv str (evictLRU str c) (butlast xs)"
    "abs_cache (evictLRU str c) (butlast xs) = butlast (abs_cache c xs)"
    using cache_inv_remove(1,2) [OF i t] abs_split [OF i t] xs by (simp_all add: abs_cache_def)
qed

text \<open>Changing the value of a node and moving it to the front.\<close>

lemma linked_value:
  "h a = Some nd \<Longrightarrow> linked (h(a := Some (nd\<lparr>ln_value := v\<rparr>))) p xs n = linked h p xs n"
  by (induction xs arbitrary: p) auto

lemma touch_refines:
  fixes f :: "'a cached_entry \<Rightarrow> 'a cached_entry"
  assumes inv: "cache_inv str c (xs @ a # ys)" and a: "content c a = Some (k, e)"
  defines "c' \<equiv> moveToFront a (modify a (\<lambda>n. n\<lparr>ln_value := f (ln_value n)\<rparr>)
      (c\<lparr>ca_memory := ca_memory c + (estimateSize str (ce_data (f e)) - estimateSize str (ce_data e))\<rparr>))"
  shows "cache_inv str c' (a # xs @ ys)" and "abs_cache c' (a # xs @ ys) = (k, f e) # jdel k (abs_cache c (xs @ a # ys))"
    and "content c' a = Some (k, f e)"
proof -
  let ?c1 = "modify a (\<lambda>n. n\<lparr>ln_value := f (ln_value n)\<rparr>)
      (c\<lparr>ca_memory := ca_memory c + (estimateSize str (ce_data (f e)) - estimateSize str (ce_data e))\<rparr>)"
  obtain nd where nd: "ca_heap c a = Some nd" "ln_key nd = k" "ln_value nd = e" using a by (auto simp: content_def)
  have d: "dll c (xs @ a # ys)" using inv by (simp add: cache_inv_def)
  then have d1: "dll ?c1 (xs @ a # ys)" using nd linked_value [of "ca_heap c" a nd] by (simp add: dll_def modify_def deref_def)
  have c1: "content ?c1 = (content c)(a := Some (k, f e))"
    using nd by (auto simp: fun_eq_iff content_def modify_def deref_def)
  note m = dll_moveToFront [OF d1]
  have cont: "content c' = (content c)(a := Some (k, f e))"
    using m(2) c1 by (simp add: c'_def same_but_pointers_def)
  then show "content c' a = Some (k, f e)" by simp
  have "a \<notin> set (xs @ ys)" using d by (auto simp: dll_def)
  then have ab: "abs_cache c' (xs @ ys) = abs_cache c (xs @ ys)" using cont by (auto simp: abs_cache_def)
  show abs: "abs_cache c' (a # xs @ ys) = (k, f e) # jdel k (abs_cache c (xs @ a # ys))"
    using ab abs_split(2) [OF inv a] cont by (simp add: abs_cache_def)
  have "jget (ca_map c) k = Some a" using inv a by (auto simp: cache_inv_def)
  then have "jget (ca_map c) j = Some b \<longleftrightarrow> b \<in> set (a # xs @ ys) \<and> (\<exists>e. content c' b = Some (j, e))" for j b
    using inv a by (auto simp: cache_inv_def cont)
  moreover have "ca_memory c' = weight str (abs_cache c' (a # xs @ ys))"
  proof -
    have "ca_memory c = weight str (abs_cache c (xs @ a # ys))" using inv by (simp add: cache_inv_def)
    then show ?thesis
      using abs abs_split [OF inv a] m(2) by (simp add: c'_def same_but_pointers_def modify_def)
  qed
  moreover have same: "ca_map c' = ca_map c" "ca_fresh c' = ca_fresh c"
    using m(2) by (simp_all add: c'_def same_but_pointers_def modify_def)
  moreover have "\<forall>b. content c' b \<noteq> None \<longrightarrow> b < ca_fresh c'"
    using inv a unfolding cont same(2) by (simp add: cache_inv_def)
  moreover have "dll c' (a # xs @ ys)" using m(1) by (simp add: c'_def)
  moreover have "jwf (ca_map c)" using inv by (simp add: cache_inv_def)
  ultimately show "cache_inv str c' (a # xs @ ys)" unfolding cache_inv_def by simp
qed

definition touch :: "time \<Rightarrow> 'a cached_entry \<Rightarrow> 'a cached_entry" where
  "touch now e = e\<lparr>ce_lastAccessedAt := now, ce_accessCount := ce_accessCount e + 1\<rparr>"

lemma ce_data_touch [simp]: "ce_data (touch now e) = ce_data e"
  by (simp add: touch_def)

lemma get_refines:
  assumes "cache_inv str c xs"
  shows "\<exists>ys. cache_inv str (snd (ca_get str clk k c)) ys \<and>
    abs_cache (snd (ca_get str clk k c)) ys = snd (spec_get clk k (abs_cache c xs)) \<and>
    fst (ca_get str clk k c) = fst (spec_get clk k (abs_cache c xs))"
proof (cases "jget (ca_map c) k")
  case None
  then show ?thesis using assms jget_abs [OF assms, of k] by (auto simp: ca_get_def spec_get_def)
next
  case (Some a)
  then obtain e where a: "a \<in> set xs" "content c a = Some (k, e)" using cache_inv_lookup [OF assms] by blast
  then obtain us vs where xs: "xs = us @ a # vs" by (auto simp: in_set_conv_decomp)
  have l: "jget (abs_cache c xs) k = Some e" using jget_abs [OF assms, of k] Some a by simp
  have v: "ln_value (deref c a) = e" using content_deref [OF a(2)] by simp
  show ?thesis
  proof (cases "isExpired (clk 0) e")
    case True
    then show ?thesis using delete_refines(1) [OF assms, of k] Some l v by (simp add: ca_get_def spec_get_def Let_def)
  next
    case False
    let ?c = "moveToFront a (modify a (\<lambda>n. n\<lparr>ln_value := touch (clk 1) (ln_value n)\<rparr>) c)"
    note t = touch_refines [OF assms [unfolded xs] a(2), of "touch (clk 1)", simplified]
    have "ca_get str clk k c = (Some (ce_data e), ?c\<lparr>ca_hits := ca_hits ?c + 1\<rparr>)"
      using content_deref [OF t(3)] False Some v
      by (simp add: ca_get_def Let_def touch_def deref_def)
    then show ?thesis using t(1,2) l False xs by (auto simp: spec_get_def touch_def)
  qed
qed

lemma evict_for_memory_refines:
  assumes "cache_inv str c xs"
  shows "\<exists>c' ys. evict_for_memory str limit extra c = Some c' \<and> cache_inv str c' ys \<and>
    abs_cache c' ys = shrink str limit extra (abs_cache c xs)"
  using assms
proof (induction "length xs" arbitrary: c xs)
  case 0
  then have "\<not> ca_size c > 0" "abs_cache c xs = []" using ca_size_abs [of str c xs] by (simp_all add: abs_cache_def)
  then show ?case using 0 by (subst evict_for_memory.simps) (auto simp: shrink.simps)
next
  case (Suc n)
  have sz: "ca_size c > 0" "xs \<noteq> []" "abs_cache c xs \<noteq> []"
    using Suc ca_size_abs [of str c xs] by (auto simp: abs_cache_def)
  have w: "ca_memory c = weight str (abs_cache c xs)" using Suc.prems by (simp add: cache_inv_def)
  show ?case
  proof (cases "ca_memory c + extra > limit")
    case True
    have "n = length (butlast xs)" using Suc.hyps(2) by simp
    from Suc.hyps(1) [OF this evict_refines(1) [OF Suc.prems sz(2)]]
    show ?thesis
      using True sz w evict_refines(2) [OF Suc.prems sz(2)]
      by (subst evict_for_memory.simps, subst shrink.simps) simp
  next
    case False
    then show ?thesis using Suc.prems w by (subst evict_for_memory.simps, subst shrink.simps) auto
  qed
qed

lemma evict_for_size_refines:
  assumes "1 \<le> limit" "cache_inv str c xs"
  shows "\<exists>c' ys. evict_for_size str limit c = Some c' \<and> cache_inv str c' ys \<and>
    abs_cache c' ys = take (nat (limit - 1)) (abs_cache c xs)"
  using assms(2)
proof (induction "length xs" arbitrary: c xs)
  case 0
  then show ?case
    using ca_size_abs [of str c xs] assms(1) by (subst evict_for_size.simps) (auto simp: abs_cache_def)
next
  case (Suc n)
  have ne: "xs \<noteq> []" using Suc.hyps(2) by auto
  have sz: "ca_size c = length xs" by (rule ca_size_abs [OF Suc.prems])
  show ?case
  proof (cases "int (ca_size c) \<ge> limit")
    case True
    have "n = length (butlast xs)" using Suc.hyps(2) by simp
    from Suc.hyps(1) [OF this evict_refines(1) [OF Suc.prems ne]]
    moreover have "take (nat (limit - 1)) (butlast (abs_cache c xs)) = take (nat (limit - 1)) (abs_cache c xs)"
      using True sz assms(1) by (intro take_butlast) (auto simp: abs_cache_def)
    ultimately show ?thesis
      using True evict_refines(2) [OF Suc.prems ne] by (subst evict_for_size.simps) simp
  next
    case False
    then show ?thesis using Suc.prems sz by (subst evict_for_size.simps) (auto simp: abs_cache_def)
  qed
qed

lemma memory_loop_refines:
  assumes "cache_inv str c xs"
  shows "\<exists>c' ys. evict_memory_loop str cfg extra c = Some c' \<and> cache_inv str c' ys \<and>
    abs_cache c' ys = fit_memory str cfg extra (abs_cache c xs)"
  using assms evict_for_memory_refines [OF assms]
  by (auto simp: evict_memory_loop_def fit_memory_def split: option.split)

text \<open>Adding a new node at the front.\<close>

lemma insert_refines:
  fixes e :: "'a cached_entry"
  assumes inv: "cache_inv str c xs" and new: "jget (ca_map c) k = None"
  defines "node \<equiv> \<lparr>ln_key = k, ln_value = e, ln_prev = None, ln_next = None\<rparr>"
  defines "c1 \<equiv> c\<lparr>ca_heap := (ca_heap c)(ca_fresh c := Some node), ca_fresh := ca_fresh c + 1,
      ca_map := jset k (ca_fresh c) (ca_map c)\<rparr>"
  defines "c' \<equiv> (addToFront (ca_fresh c) c1)\<lparr>ca_memory := ca_memory c + estimateSize str (ce_data e)\<rparr>"
  shows "cache_inv str c' (ca_fresh c # xs)" and "abs_cache c' (ca_fresh c # xs) = (k, e) # abs_cache c xs"
proof -
  let ?a = "ca_fresh c"
  have lt: "b < ?a" if "b \<in> set xs" for b using cache_inv_key [OF inv that] inv by (force simp: cache_inv_def)
  then have notin: "?a \<notin> set xs" by blast
  have "dll c1 xs" using inv linked_frame [OF notin, of "ca_heap c"] by (simp add: cache_inv_def dll_def c1_def)
  note f = dll_addToFront [OF this notin, of node]
  have cont: "content c' = (content c)(?a := Some (k, e))"
    using f(2) by (auto simp: c'_def same_but_pointers_def c1_def content_def node_def fun_eq_iff)
  have ab: "abs_cache c' xs = abs_cache c xs" using notin cont by (auto simp: abs_cache_def)
  show abs: "abs_cache c' (?a # xs) = (k, e) # abs_cache c xs" using ab cont by (simp add: abs_cache_def)
  have same: "ca_map c' = jset k ?a (ca_map c)" "ca_fresh c' = ?a + 1"
    using f(2) by (simp_all add: c'_def c1_def same_but_pointers_def)
  have iff: "jget (ca_map c) j = Some b \<longleftrightarrow> b \<in> set xs \<and> (\<exists>e. content c b = Some (j, e))" for j b
    using inv by (simp add: cache_inv_def)
  have "jget (ca_map c') j = Some b \<longleftrightarrow> b \<in> set (?a # xs) \<and> (\<exists>e. content c' b = Some (j, e))" for j b
    using iff [of j b] new notin unfolding same cont by (cases "j = k"; cases "b = ?a") auto
  moreover have "dll c' (?a # xs)" using f(1) by (simp add: c'_def c1_def)
  moreover have "ca_memory c' = weight str (abs_cache c' (?a # xs))"
    using inv abs by (simp add: cache_inv_def c'_def)
  moreover have "\<forall>b. content c' b \<noteq> None \<longrightarrow> b < ca_fresh c'"
    using inv unfolding cont same(2) by (auto simp: cache_inv_def less_Suc_eq)
  moreover have "jwf (ca_map c')" using inv by (simp add: same cache_inv_def)
  ultimately show "cache_inv str c' (?a # xs)" unfolding cache_inv_def by simp
qed

lemma shrink_prefix: "\<exists>n. shrink str limit extra l = take n l"
proof (induction str limit extra l rule: shrink.induct)
  case (1 str limit extra l)
  show ?case
  proof (cases "weight str l + extra > limit \<and> l \<noteq> []")
    case True
    then obtain n where "shrink str limit extra (butlast l) = take n (butlast l)" using 1 by blast
    then show ?thesis using True by (subst shrink.simps) (auto simp: butlast_conv_take)
  next
    case False
    then show ?thesis by (subst shrink.simps) (auto intro: exI [of _ "length l"])
  qed
qed

lemma fit_prefix: "\<exists>n. fit_memory str cfg extra l = take n l"
  using shrink_prefix by (auto simp: fit_memory_def split: option.split intro: exI [of _ "length l"])

lemma jget_take: "jget l k = None \<Longrightarrow> jget (take n l) k = None"
  by (auto simp: jget_jkeys jkeys_def dest: in_set_takeD)

lemma set_refines:
  assumes size: "1 \<le> maxSize cfg" and inv: "cache_inv str c xs"
  shows "\<exists>c' ys. ca_set str cfg now k d ttl c = Some c' \<and> cache_inv str c' ys \<and>
    abs_cache c' ys = spec_set str cfg now k d ttl (abs_cache c xs)"
proof -
  let ?big = "case memory_limit cfg of None \<Rightarrow> False | Some limit \<Rightarrow> estimateSize str d > limit"
  let ?exp = "now + or_default ttl (cc_ttl cfg)"
  consider (big) "?big" | (old) a where "\<not> ?big" "jget (ca_map c) k = Some a"
    | (new) "\<not> ?big" "jget (ca_map c) k = None" by fastforce
  then show ?thesis
  proof cases
    case big
    then show ?thesis using delete_refines(1) [OF inv, of k] by (auto simp: ca_set_def spec_set_def Let_def)
  next
    case (old a)
    then obtain e where a: "a \<in> set xs" "content c a = Some (k, e)" using cache_inv_lookup [OF inv] by blast
    then obtain us vs where xs: "xs = us @ a # vs" by (auto simp: in_set_conv_decomp)
    let ?f = "\<lambda>e. e\<lparr>ce_data := d, ce_cachedAt := now, ce_expiresAt := ?exp, ce_lastAccessedAt := now\<rparr>"
    note t = touch_refines [OF inv [unfolded xs] a(2), of ?f]
    from memory_loop_refines [OF t(1), of cfg 0] t(2)
    show ?thesis
      using old jget_abs [OF inv, of k] a content_deref [OF a(2)] xs
      by (auto simp: ca_set_def spec_set_def Let_def)
  next
    case new
    have none: "jget (abs_cache c xs) k = None" using jget_abs [OF inv, of k] new by simp
    obtain c1 ys where c1: "evict_memory_loop str cfg (estimateSize str d) c = Some c1" "cache_inv str c1 ys"
      "abs_cache c1 ys = fit_memory str cfg (estimateSize str d) (abs_cache c xs)"
      using memory_loop_refines [OF inv] by blast
    obtain c2 zs where c2: "evict_for_size str (maxSize cfg) c1 = Some c2" "cache_inv str c2 zs"
      "abs_cache c2 zs = take (nat (maxSize cfg - 1)) (abs_cache c1 ys)"
      using evict_for_size_refines [OF size c1(2)] by blast
    have "jget (abs_cache c2 zs) k = None"
      using c2(3) c1(3) fit_prefix [of str cfg "estimateSize str d"] none by (metis jget_take)
    then have "jget (ca_map c2) k = None"
      using jget_abs [OF c2(2), of k] cache_inv_lookup [OF c2(2)] by (cases "jget (ca_map c2) k") fastforce+
    note i = insert_refines [OF c2(2) this, of "\<lparr>ce_data = d, ce_cachedAt = now, ce_expiresAt = ?exp,
        ce_lastAccessedAt = now, ce_accessCount = 0\<rparr>"]
    have "ca_memory (addToFront a c3) = ca_memory c3" for a and c3 :: "'a cache"
      by (simp add: addToFront_def Let_def modify_def split: option.split)
    then show ?thesis
      using new none c1 c2 i by (auto simp: ca_set_def spec_set_def Let_def)
  qed
qed

lemma has_refines:
  assumes "cache_inv str c xs"
  shows "\<exists>ys. cache_inv str (snd (ca_has str now k c)) ys \<and>
    abs_cache (snd (ca_has str now k c)) ys =
      (case jget (abs_cache c xs) k of
         None \<Rightarrow> abs_cache c xs
       | Some e \<Rightarrow> if isExpired now e then jdel k (abs_cache c xs) else abs_cache c xs) \<and>
    (fst (ca_has str now k c) \<longleftrightarrow> (\<exists>e. jget (abs_cache c xs) k = Some e \<and> \<not> isExpired now e))"
proof (cases "jget (ca_map c) k")
  case None
  then show ?thesis using assms jget_abs [OF assms, of k] by (auto simp: ca_has_def)
next
  case (Some a)
  then obtain e where a: "a \<in> set xs" "content c a = Some (k, e)" using cache_inv_lookup [OF assms] by blast
  then show ?thesis
    using jget_abs [OF assms, of k] Some content_deref [OF a(2)] delete_refines(1) [OF assms, of k] assms
    by (auto simp: ca_has_def)
qed

lemma clear_refines: "cache_inv str c xs \<Longrightarrow> cache_inv str (ca_clear c) []"
  by (auto simp: cache_inv_def ca_clear_def dll_def abs_cache_def content_def)

lemma new_cache_inv: "cache_inv str new_cache []"
  by (simp add: cache_inv_def new_cache_def dll_def abs_cache_def content_def)

subsection \<open>Walks over the map that delete\<close>

lemma delete_content:
  assumes "cache_inv str c xs"
  shows "content (snd (ca_delete str k c)) = content c"
proof (cases "jget (ca_map c) k")
  case (Some a)
  then obtain e where a: "a \<in> set xs" using cache_inv_lookup [OF assms] by blast
  then obtain us vs where "xs = us @ a # vs" by (auto simp: in_set_conv_decomp)
  then have "same_but_pointers c (removeNode a c)"
    using assms by (intro dll_removeNode(2) [of c us a vs]) (simp add: cache_inv_def)
  then show ?thesis using Some by (simp add: ca_delete_def Let_def same_but_pointers_def)
qed (simp add: ca_delete_def)

definition delete_if :: "('a \<Rightarrow> string option) \<Rightarrow> (string \<Rightarrow> bool) \<Rightarrow> string \<Rightarrow> nat \<times> 'a cache \<Rightarrow> nat \<times> 'a cache" where
  "delete_if str P key = (\<lambda>(n, c). if P key then (n + 1, snd (ca_delete str key c)) else (n, c))"

lemma delete_walk_refines:
  assumes "cache_inv str c xs"
  shows "\<exists>ys. cache_inv str (snd (fold (delete_if str P) ks (n, c))) ys \<and>
    abs_cache (snd (fold (delete_if str P) ks (n, c))) ys =
      filter (\<lambda>p. \<not> (fst p \<in> set ks \<and> P (fst p))) (abs_cache c xs)"
    and "fst (fold (delete_if str P) ks (n, c)) = n + length (filter P ks)"
proof -
  show "\<exists>ys. cache_inv str (snd (fold (delete_if str P) ks (n, c))) ys \<and>
    abs_cache (snd (fold (delete_if str P) ks (n, c))) ys =
      filter (\<lambda>p. \<not> (fst p \<in> set ks \<and> P (fst p))) (abs_cache c xs)"
    using assms
  proof (induction ks arbitrary: n c xs)
    case Nil
    then show ?case by auto
  next
    case (Cons k ks)
    show ?case
    proof (cases "P k")
      case True
      obtain ys where ys: "cache_inv str (snd (ca_delete str k c)) ys"
        "abs_cache (snd (ca_delete str k c)) ys = jdel k (abs_cache c xs)"
        using delete_refines(1) [OF Cons.prems] by blast
      have "filter (\<lambda>p. \<not> (fst p \<in> set ks \<and> P (fst p))) (jdel k (abs_cache c xs)) =
          filter (\<lambda>p. \<not> (fst p \<in> set (k # ks) \<and> P (fst p))) (abs_cache c xs)"
        using True by (auto simp: jdel_def intro: filter_cong)
      then show ?thesis
        using Cons.IH [OF ys(1), of "n + 1"] ys(2) True by (simp add: delete_if_def)
    next
      case False
      then have "filter (\<lambda>p. \<not> (fst p \<in> set ks \<and> P (fst p))) (abs_cache c xs) =
          filter (\<lambda>p. \<not> (fst p \<in> set (k # ks) \<and> P (fst p))) (abs_cache c xs)"
        by (auto intro: filter_cong)
      then show ?thesis using Cons.IH [OF Cons.prems, of n] False by (simp add: delete_if_def)
    qed
  qed
  show "fst (fold (delete_if str P) ks (n, c)) = n + length (filter P ks)"
    by (induction ks arbitrary: n c) (auto simp: delete_if_def)
qed

lemma invalidate_refines:
  assumes "cache_inv str c xs"
  shows "\<exists>ys. cache_inv str (snd (invalidatePattern str P c)) ys \<and>
    abs_cache (snd (invalidatePattern str P c)) ys = filter (\<lambda>p. \<not> P (fst p)) (abs_cache c xs)"
    and "fst (invalidatePattern str P c) = length (filter (\<lambda>p. P (fst p)) (abs_cache c xs))"
proof -
  have e: "invalidatePattern str P c = fold (delete_if str P) (jkeys (ca_map c)) (0, c)"
    by (simp add: invalidatePattern_def delete_if_def [abs_def])
  have "filter (\<lambda>p. \<not> (fst p \<in> set (jkeys (ca_map c)) \<and> P (fst p))) (abs_cache c xs) =
      filter (\<lambda>p. \<not> P (fst p)) (abs_cache c xs)"
    using set_keys_abs [OF assms] by (auto simp: jkeys_def intro!: filter_cong)
  then show "\<exists>ys. cache_inv str (snd (invalidatePattern str P c)) ys \<and>
    abs_cache (snd (invalidatePattern str P c)) ys = filter (\<lambda>p. \<not> P (fst p)) (abs_cache c xs)"
    unfolding e using delete_walk_refines(1) [OF assms, of P "jkeys (ca_map c)" 0] by simp
  have "length (filter P (jkeys (ca_map c))) = card (set (filter P (jkeys (ca_map c))))"
    using assms by (intro distinct_card [symmetric]) (simp add: cache_inv_def jwf_def)
  also have "\<dots> = card (set (filter P (map fst (abs_cache c xs))))" using set_keys_abs [OF assms] by (simp add: jkeys_def)
  also have "\<dots> = length (filter P (map fst (abs_cache c xs)))"
    using abs_jwf [OF assms] by (intro distinct_card) (simp add: jwf_def jkeys_def)
  finally show "fst (invalidatePattern str P c) = length (filter (\<lambda>p. P (fst p)) (abs_cache c xs))"
    unfolding e using delete_walk_refines(2) [OF assms, of P "jkeys (ca_map c)" 0]
    by (simp add: filter_map comp_def)
qed

text \<open>The cleanup walks over pairs of keys and nodes; the entries of the nodes stay what they are.\<close>

definition old_key :: "time \<Rightarrow> 'a lru \<Rightarrow> string \<Rightarrow> bool" where
  "old_key now l k \<longleftrightarrow> (case jget l k of None \<Rightarrow> False | Some e \<Rightarrow> ce_expiresAt e < now)"

lemma cleanup_walk:
  assumes "\<forall>(k, a) \<in> set kas. \<exists>e. content c0 a = Some (k, e) \<and> (ce_expiresAt e < now \<longleftrightarrow> P k)"
    and "content c = content c0" "cache_inv str c xs"
  shows "fold (\<lambda>(key, a) (n, c). if ce_expiresAt (ln_value (deref c a)) < now
      then (n + 1, snd (ca_delete str key c)) else (n, c)) kas (n, c) =
    fold (delete_if str P) (map fst kas) (n, c)"
  using assms
proof (induction kas arbitrary: n c xs)
  case (Cons ka kas)
  obtain k a where ka: "ka = (k, a)" by (cases ka)
  obtain e where e: "content c a = Some (k, e)" "ce_expiresAt e < now \<longleftrightarrow> P k"
    using Cons.prems ka by auto
  have v: "ln_value (deref c a) = e" using content_deref [OF e(1)] by simp
  show ?case
  proof (cases "P k")
    case True
    obtain ys where "cache_inv str (snd (ca_delete str k c)) ys" using delete_refines(1) [OF Cons.prems(3)] by blast
    then show ?thesis
      using Cons.IH [of "snd (ca_delete str k c)" ys "n + 1"] Cons.prems delete_content [OF Cons.prems(3)] True e v ka
      by (simp add: delete_if_def)
  next
    case False
    then show ?thesis using Cons.IH [of c xs n] Cons.prems e v ka by (simp add: delete_if_def)
  qed
qed simp

lemma cleanup_eq_invalidate:
  assumes "cache_inv str c xs"
  shows "cleanupExpired str now c = invalidatePattern str (old_key now (abs_cache c xs)) c"
proof -
  have "\<forall>(k, a) \<in> set (ca_map c). \<exists>e. content c a = Some (k, e) \<and>
      (ce_expiresAt e < now \<longleftrightarrow> old_key now (abs_cache c xs) k)"
  proof clarify
    fix k a assume "(k, a) \<in> set (ca_map c)"
    moreover have "jwf (ca_map c)" using assms by (simp add: cache_inv_def)
    ultimately have m: "jget (ca_map c) k = Some a" by (simp add: jget_in)
    then obtain e where e: "content c a = Some (k, e)" using cache_inv_lookup [OF assms] by blast
    then show "\<exists>e. content c a = Some (k, e) \<and> (ce_expiresAt e < now \<longleftrightarrow> old_key now (abs_cache c xs) k)"
      using jget_abs [OF assms, of k] m by (simp add: old_key_def)
  qed
  from cleanup_walk [OF this refl assms] show ?thesis
    by (simp add: cleanupExpired_def invalidatePattern_def delete_if_def [abs_def] jkeys_def)
qed

subsection \<open>Histories\<close>

text \<open>
  An operation gives a result and a cache, or does not return. Storing many values is a sequence of
  single stores, so that the list has one operation per lookup, store or walk.
\<close>

datatype 'a cache_op =
    CGet clock string
  | CSet time string 'a "int option"
  | CDelete string
  | CHas time string
  | CInvalidate "string \<Rightarrow> bool"
  | CCleanup time
  | CClear

datatype 'a cache_result = RValue "'a option" | RBool bool | RCount nat | RUnit

fun cache_do ::
    "('a \<Rightarrow> string option) \<Rightarrow> cache_config \<Rightarrow> 'a cache_op \<Rightarrow> 'a cache \<Rightarrow> ('a cache_result \<times> 'a cache) option" where
  "cache_do str cfg (CGet clk key) c = (let (r, c') = ca_get str clk key c in Some (RValue r, c'))"
| "cache_do str cfg (CSet now key d ttl) c = map_option (\<lambda>c'. (RUnit, c')) (ca_set str cfg now key d ttl c)"
| "cache_do str cfg (CDelete key) c = (let (r, c') = ca_delete str key c in Some (RBool r, c'))"
| "cache_do str cfg (CHas now key) c = (let (r, c') = ca_has str now key c in Some (RBool r, c'))"
| "cache_do str cfg (CInvalidate P) c = (let (n, c') = invalidatePattern str P c in Some (RCount n, c'))"
| "cache_do str cfg (CCleanup now) c = (let (n, c') = cleanupExpired str now c in Some (RCount n, c'))"
| "cache_do str cfg CClear c = Some (RUnit, ca_clear c)"

fun spec_do :: "('a \<Rightarrow> string option) \<Rightarrow> cache_config \<Rightarrow> 'a cache_op \<Rightarrow> 'a lru \<Rightarrow> 'a cache_result \<times> 'a lru" where
  "spec_do str cfg (CGet clk key) l = (let (r, l') = spec_get clk key l in (RValue r, l'))"
| "spec_do str cfg (CSet now key d ttl) l = (RUnit, spec_set str cfg now key d ttl l)"
| "spec_do str cfg (CDelete key) l = (RBool (jget l key \<noteq> None), jdel key l)"
| "spec_do str cfg (CHas now key) l =
     (case jget l key of
        None \<Rightarrow> (RBool False, l)
      | Some e \<Rightarrow> if isExpired now e then (RBool False, jdel key l) else (RBool True, l))"
| "spec_do str cfg (CInvalidate P) l =
     (RCount (length (filter (\<lambda>p. P (fst p)) l)), filter (\<lambda>p. \<not> P (fst p)) l)"
| "spec_do str cfg (CCleanup now) l =
     (RCount (length (filter (\<lambda>p. ce_expiresAt (snd p) < now) l)), filter (\<lambda>p. \<not> ce_expiresAt (snd p) < now) l)"
| "spec_do str cfg CClear l = (RUnit, [])"

fun cache_run ::
    "('a \<Rightarrow> string option) \<Rightarrow> cache_config \<Rightarrow> 'a cache_op list \<Rightarrow> 'a cache \<Rightarrow> ('a cache_result list \<times> 'a cache) option" where
  "cache_run str cfg [] c = Some ([], c)"
| "cache_run str cfg (p # ps) c =
     (case cache_do str cfg p c of
        None \<Rightarrow> None
      | Some (r, c') \<Rightarrow> map_option (\<lambda>(rs, c''). (r # rs, c'')) (cache_run str cfg ps c'))"

fun spec_run ::
    "('a \<Rightarrow> string option) \<Rightarrow> cache_config \<Rightarrow> 'a cache_op list \<Rightarrow> 'a lru \<Rightarrow> 'a cache_result list \<times> 'a lru" where
  "spec_run str cfg [] l = ([], l)"
| "spec_run str cfg (p # ps) l =
     (let (r, l') = spec_do str cfg p l; (rs, l'') = spec_run str cfg ps l' in (r # rs, l''))"

lemma filter_old_key:
  assumes "jwf l"
  shows "filter (\<lambda>p. old_key now l (fst p)) l = filter (\<lambda>p. ce_expiresAt (snd p) < now) l"
    and "filter (\<lambda>p. \<not> old_key now l (fst p)) l = filter (\<lambda>p. \<not> ce_expiresAt (snd p) < now) l"
  using assms by (auto simp: old_key_def jget_in [OF assms] intro!: filter_cong split: option.split)
    (metis jget_in option.inject option.distinct(1))+

lemma do_refines:
  assumes size: "1 \<le> maxSize cfg" and inv: "cache_inv str c xs"
  shows "\<exists>c' ys. cache_do str cfg p c = Some (fst (spec_do str cfg p (abs_cache c xs)), c') \<and>
    cache_inv str c' ys \<and> abs_cache c' ys = snd (spec_do str cfg p (abs_cache c xs))"
proof (cases p)
  case (CGet clk key)
  then show ?thesis using get_refines [OF inv, of clk key] by (auto simp: Let_def split: prod.split)
next
  case (CSet now key d ttl)
  then show ?thesis using set_refines [OF size inv, of now key d ttl] by auto
next
  case (CDelete key)
  then show ?thesis
    using delete_refines [OF inv, of key] by (cases "ca_delete str key c") auto
next
  case (CHas now key)
  then show ?thesis
    using has_refines [OF inv, of now key]
    by (cases "ca_has str now key c"; cases "jget (abs_cache c xs) key") auto
next
  case (CInvalidate P)
  then show ?thesis using invalidate_refines [OF inv, of P] by (cases "invalidatePattern str P c") auto
next
  case (CCleanup now)
  have "cleanupExpired str now c = invalidatePattern str (old_key now (abs_cache c xs)) c"
    by (rule cleanup_eq_invalidate [OF inv])
  then show ?thesis
    using CCleanup invalidate_refines [OF inv, of "old_key now (abs_cache c xs)"] filter_old_key [OF abs_jwf [OF inv], of now]
    by (cases "invalidatePattern str (old_key now (abs_cache c xs)) c") auto
next
  case CClear
  then show ?thesis using clear_refines [OF inv] by (auto simp: abs_cache_def)
qed

lemma run_refines:
  assumes "1 \<le> maxSize cfg" "cache_inv str c xs"
  shows "\<exists>c' ys. cache_run str cfg ps c = Some (fst (spec_run str cfg ps (abs_cache c xs)), c') \<and>
    cache_inv str c' ys \<and> abs_cache c' ys = snd (spec_run str cfg ps (abs_cache c xs))"
  using assms(2)
proof (induction ps arbitrary: c xs)
  case (Cons p ps)
  obtain c1 zs where c1: "cache_do str cfg p c = Some (fst (spec_do str cfg p (abs_cache c xs)), c1)"
    "cache_inv str c1 zs" "abs_cache c1 zs = snd (spec_do str cfg p (abs_cache c xs))"
    using do_refines [OF assms(1) Cons.prems] by blast
  from Cons.IH [OF c1(2)] c1 show ?case by (auto simp: Let_def split: prod.split)
qed auto

section \<open>Bounds\<close>

lemma estimateSize_nonneg: "0 \<le> estimateSize str d"
  by (simp add: estimateSize_def split: option.split)

lemma weight_nonneg: "0 \<le> weight str l"
  by (induction l) (auto simp: estimateSize_nonneg add_nonneg_nonneg)

lemma weight_filter: "weight str (filter P l) \<le> weight str l"
proof (induction l)
  case (Cons p l)
  then show ?case using estimateSize_nonneg [of str "ce_data (snd p)"] by (cases p) auto
qed simp

lemma weight_take: "weight str (take n l) \<le> weight str l"
  using weight_nonneg [of str "drop n l"] weight_simps(3) [of str "take n l" "drop n l"] by simp

lemma shrink_fits: "shrink str limit extra l = [] \<or> weight str (shrink str limit extra l) + extra \<le> limit"
proof (induction str limit extra l rule: shrink.induct)
  case (1 str limit extra l)
  show ?case
  proof (cases "weight str l + extra > limit \<and> l \<noteq> []")
    case True
    then show ?thesis using 1 shrink.simps [of str limit extra l] by simp
  next
    case False
    then show ?thesis using shrink.simps [of str limit extra l] by auto
  qed
qed

text \<open>An entry that fits the budget by itself stays when the rest is dropped.\<close>

lemma shrink_keeps_first:
  assumes "weight str [p] \<le> limit"
  shows "\<exists>n. shrink str limit 0 (p # l) = p # take n l"
proof (induction "length l" arbitrary: l)
  case 0
  then show ?case using assms by (subst shrink.simps) auto
next
  case (Suc n)
  have "l \<noteq> []" "n = length (butlast l)" using Suc.hyps(2) by auto
  then obtain m where "shrink str limit 0 (p # butlast l) = p # take m (butlast l)" using Suc.hyps(1) by blast
  then have IH: "\<exists>n. shrink str limit 0 (butlast (p # l)) = p # take n l"
    using \<open>l \<noteq> []\<close> take_butlast by (auto simp: butlast_conv_take [of l])
  show ?case
  proof (cases "weight str (p # l) + 0 > limit")
    case True
    then show ?thesis using IH by (subst shrink.simps) simp
  next
    case False
    then show ?thesis by (subst shrink.simps) (auto intro: exI [of _ "length l"])
  qed
qed

definition within_bounds :: "('a \<Rightarrow> string option) \<Rightarrow> cache_config \<Rightarrow> 'a lru \<Rightarrow> bool" where
  "within_bounds str cfg l \<longleftrightarrow> int (length l) \<le> maxSize cfg \<and>
     (\<forall>m. maxMemory cfg = Some m \<longrightarrow> 0 < m \<longrightarrow> weight str l \<le> m)"

lemma within_filter: "within_bounds str cfg l \<Longrightarrow> within_bounds str cfg (filter P l)"
  unfolding within_bounds_def
  using length_filter_le [of P l] weight_filter [of str P l] by (meson of_nat_le_iff order_trans)

lemma jget_split: "jget l k = Some e \<Longrightarrow> jwf l \<Longrightarrow> \<exists>l1 l2. l = l1 @ (k, e) # l2"
  by (metis jget_mem in_set_conv_decomp)

lemma jget_weight:
  assumes "jget l k = Some e" "jwf l"
  shows "length l = Suc (length (jdel k l))" "weight str l = estimateSize str (ce_data e) + weight str (jdel k l)"
proof -
  obtain l1 l2 where l: "l = l1 @ (k, e) # l2" using jget_split [OF assms] by blast
  have d: "jdel k l = l1 @ l2" unfolding l by (rule jdel_split) (use assms(2) l in simp)
  show "length l = Suc (length (jdel k l))" by (simp only: d) (simp add: l)
  show "weight str l = estimateSize str (ce_data e) + weight str (jdel k l)" by (simp only: d) (simp add: l)
qed

lemma within_set:
  assumes "1 \<le> maxSize cfg" "jwf l" "within_bounds str cfg l"
  shows "within_bounds str cfg (spec_set str cfg now k d ttl l)"
proof -
  let ?big = "case memory_limit cfg of None \<Rightarrow> False | Some limit \<Rightarrow> estimateSize str d > limit"
  consider (big) "?big" | (old) e where "\<not> ?big" "jget l k = Some e" | (new) "\<not> ?big" "jget l k = None" by fastforce
  then show ?thesis
  proof cases
    case big
    then show ?thesis using within_filter [OF assms(3)] by (simp add: spec_set_def Let_def jdel_def)
  next
    case (old e)
    let ?l = "(k, e\<lparr>ce_data := d, ce_cachedAt := now, ce_expiresAt := now + or_default ttl (cc_ttl cfg),
        ce_lastAccessedAt := now\<rparr>) # jdel k l"
    obtain n where n: "fit_memory str cfg 0 ?l = take n ?l" using fit_prefix by blast
    have "length (take n ?l) \<le> length l" using jget_weight(1) [OF old(2) assms(2)] by auto
    moreover have "weight str (fit_memory str cfg 0 ?l) \<le> m" if "maxMemory cfg = Some m" "0 < m" for m
      using shrink_fits [of str m 0 ?l] that by (auto simp: fit_memory_def memory_limit_def)
    ultimately show ?thesis
      using assms(3) old n by (auto simp: spec_set_def Let_def within_bounds_def)
  next
    case new
    let ?s = "estimateSize str d" and ?k = "nat (maxSize cfg - 1)"
    have "weight str (take ?k (fit_memory str cfg ?s l)) + ?s \<le> m" if "maxMemory cfg = Some m" "0 < m" for m
      using shrink_fits [of str m ?s l] weight_take [of str ?k "shrink str m ?s l"] that new(1)
      by (auto simp: fit_memory_def memory_limit_def)
    then show ?thesis
      using assms(1) new by (auto simp: spec_set_def Let_def within_bounds_def)
  qed
qed

lemma within_get:
  assumes "jwf l" "within_bounds str cfg l"
  shows "within_bounds str cfg (snd (spec_get clk k l))"
proof (cases "jget l k")
  case (Some e)
  then show ?thesis
    using jget_weight(1) [OF Some assms(1)] jget_weight(2) [OF Some assms(1), of str] assms(2) within_filter [OF assms(2)]
    by (auto simp: spec_get_def within_bounds_def jdel_def)
qed (use assms in \<open>simp add: spec_get_def\<close>)

lemma within_do:
  assumes "1 \<le> maxSize cfg" "jwf l" "within_bounds str cfg l"
  shows "within_bounds str cfg (snd (spec_do str cfg p l))"
proof (cases p)
  case (CGet clk key)
  then show ?thesis using within_get [OF assms(2,3), of clk key] by (auto simp: Let_def split: prod.split)
next
  case (CSet now key d ttl)
  then show ?thesis using within_set [OF assms] by simp
next
  case CClear
  then show ?thesis using assms(1) by (simp add: within_bounds_def)
qed (use within_filter [OF assms(3)] assms(3) in \<open>auto simp: jdel_def split: option.split\<close>)

lemma within_run:
  assumes "1 \<le> maxSize cfg" "cache_inv str c xs" "within_bounds str cfg (abs_cache c xs)"
  shows "within_bounds str cfg (snd (spec_run str cfg ps (abs_cache c xs)))"
  using assms(2,3)
proof (induction ps arbitrary: c xs)
  case (Cons p ps)
  obtain c1 zs where c1: "cache_inv str c1 zs" "abs_cache c1 zs = snd (spec_do str cfg p (abs_cache c xs))"
    using do_refines [OF assms(1) Cons.prems(1), of p] by blast
  have "within_bounds str cfg (abs_cache c1 zs)"
    unfolding c1(2) by (rule within_do [OF assms(1) abs_jwf [OF Cons.prems(1)] Cons.prems(2)])
  from Cons.IH [OF c1(1) this] c1(2) show ?case by (auto simp: Let_def split: prod.split)
qed simp

text \<open>What a finished history says about the cache it leaves.\<close>

lemma run_reaches:
  assumes "1 \<le> maxSize cfg" "cache_run str cfg ps new_cache = Some (rs, c)"
  obtains xs where "cache_inv str c xs" "abs_cache c xs = snd (spec_run str cfg ps [])"
    "rs = fst (spec_run str cfg ps [])" "within_bounds str cfg (abs_cache c xs)"
proof -
  have e: "abs_cache new_cache [] = []" by (simp add: abs_cache_def)
  obtain c' xs where c': "cache_run str cfg ps new_cache = Some (fst (spec_run str cfg ps []), c')"
    "cache_inv str c' xs" "abs_cache c' xs = snd (spec_run str cfg ps [])"
    using run_refines [OF assms(1) new_cache_inv, of str ps] unfolding e by blast
  have "within_bounds str cfg (snd (spec_run str cfg ps []))"
    using within_run [OF assms(1) new_cache_inv, of str ps] assms(1) unfolding e by (simp add: within_bounds_def)
  then show ?thesis using that [of xs] c' assms(2) by simp
qed

text \<open>With a limit below one the loop for the number of entries never ends.\<close>

lemma evict_for_size_result: "evict_for_size str limit c = Some c' \<Longrightarrow> int (ca_size c') < limit"
  by (rule evict_for_size.raw_induct [of "\<lambda>str limit c c'. int (ca_size c') < limit"]) (auto split: if_splits)

lemma spec_set_get:
  assumes "jwf l" "maxMemory cfg = None \<or> maxMemory cfg = Some 0 \<or> (\<exists>m. maxMemory cfg = Some m \<and> estimateSize str d \<le> m)"
    and "clk 0 \<le> now + or_default ttl (cc_ttl cfg)"
  shows "fst (spec_get clk k (spec_set str cfg now k d ttl l)) = Some d"
proof -
  have fits: "\<not> (case memory_limit cfg of None \<Rightarrow> False | Some limit \<Rightarrow> estimateSize str d > limit)"
    using assms(2) by (auto simp: memory_limit_def)
  show ?thesis
  proof (cases "jget l k")
    case None
    then show ?thesis using fits assms(3) by (simp add: spec_set_def Let_def spec_get_def isExpired_def)
  next
    case (Some e)
    let ?p = "(k, e\<lparr>ce_data := d, ce_cachedAt := now, ce_expiresAt := now + or_default ttl (cc_ttl cfg),
        ce_lastAccessedAt := now\<rparr>)"
    have "\<exists>n. fit_memory str cfg 0 (?p # jdel k l) = ?p # take n (jdel k l)"
    proof (cases "memory_limit cfg")
      case None
      then show ?thesis by (auto simp: fit_memory_def intro: exI [of _ "length (jdel k l)"])
    next
      case (Some m)
      then show ?thesis using fits shrink_keeps_first [of str ?p m] by (simp add: fit_memory_def)
    qed
    then show ?thesis using fits assms(3) Some by (auto simp: spec_set_def Let_def spec_get_def isExpired_def)
  qed
qed

section \<open>Properties\<close>

text \<open>
  C3. The LRU cache implements its specification. For every sequence of lookups, stores, deletions,
  pattern invalidations, cleanups and clears, the operations on the pointer structure all return, give
  the results of the abstract cache (a list ordered from the most to the least recently used entry, with
  evictions from its end), and leave a well-formed doubly linked list whose nodes, in order, are the
  entries of the abstract cache and whose map has exactly their keys.
\<close>

theorem lru_cache_refines:
  assumes "1 \<le> maxSize cfg"
  shows "\<exists>c xs. cache_run str cfg ps new_cache = Some (fst (spec_run str cfg ps []), c) \<and>
    dll c xs \<and> abs_cache c xs = snd (spec_run str cfg ps []) \<and>
    (\<forall>k a. jget (ca_map c) k = Some a \<longleftrightarrow> a \<in> set xs \<and> ln_key (deref c a) = k)"
proof -
  obtain c xs where c: "cache_run str cfg ps new_cache = Some (fst (spec_run str cfg ps []), c)"
    "cache_inv str c xs" "abs_cache c xs = snd (spec_run str cfg ps [])"
    using run_refines [OF assms new_cache_inv, of str ps] by (auto simp: abs_cache_def)
  have "jget (ca_map c) k = Some a \<longleftrightarrow> a \<in> set xs \<and> ln_key (deref c a) = k" for k a
    using cache_inv_lookup [OF c(2), of k a] cache_inv_key [OF c(2), of a] content_deref by metis
  moreover have "dll c xs" using c(2) by (simp add: cache_inv_def)
  ultimately show ?thesis using c(1,3) by blast
qed

definition demo_cache_config :: cache_config where
  "demo_cache_config = mergeConfig (Some 2) None None (Some 40) None"

definition demo_cache_ops :: "nat cache_op list" where
  "demo_cache_ops = [CSet 1 ''a'' 10 None, CSet 2 ''b'' 20 None, CGet (\<lambda>_. 3) ''a'', CSet 4 ''c'' 30 None,
     CGet (\<lambda>_. 5) ''b'', CGet (\<lambda>_. 6) ''a'']"

definition demo_str :: "nat \<Rightarrow> string option" where
  "demo_str n = (if n < 100 then Some ''12'' else None)"

theorem lru_cache_refines_witness:
  "map_option fst (cache_run demo_str demo_cache_config demo_cache_ops new_cache) =
     Some [RUnit, RUnit, RValue (Some 10), RUnit, RValue None, RValue (Some 10)]"
proof -
  have "1 \<le> maxSize demo_cache_config" by code_simp
  moreover have "fst (spec_run demo_str demo_cache_config demo_cache_ops []) =
     [RUnit, RUnit, RValue (Some 10), RUnit, RValue None, RValue (Some 10)]" by code_simp
  ultimately show ?thesis using lru_cache_refines [of demo_cache_config demo_str demo_cache_ops] by auto
qed

text \<open>
  The cache stays within its bounds: after every sequence of operations it holds at most
  \<open>maxSize\<close> entries, its memory counter is the sum of the estimated sizes of the entries it holds, and
  with a positive \<open>maxMemory\<close> that sum is at most \<open>maxMemory\<close>.
\<close>

theorem lru_cache_bounded:
  assumes "1 \<le> maxSize cfg" and "cache_run str cfg ps new_cache = Some (rs, c)"
  shows "int (ca_size c) \<le> maxSize cfg \<and> length (snd (spec_run str cfg ps [])) = ca_size c \<and>
    ca_memory c = (\<Sum>(k, e) \<leftarrow> snd (spec_run str cfg ps []). estimateSize str (ce_data e)) \<and>
    (\<forall>m. maxMemory cfg = Some m \<longrightarrow> 0 < m \<longrightarrow> ca_memory c \<le> m)"
proof -
  obtain xs where xs: "cache_inv str c xs" "abs_cache c xs = snd (spec_run str cfg ps [])"
    "within_bounds str cfg (abs_cache c xs)" by (rule run_reaches [OF assms])
  have "ca_memory c = weight str (abs_cache c xs)" using xs(1) by (simp add: cache_inv_def)
  moreover have "length (abs_cache c xs) = ca_size c" using ca_size_abs [OF xs(1)] by (simp add: abs_cache_def)
  ultimately show ?thesis using xs by (simp add: within_bounds_def weight_def)
qed

theorem lru_cache_bounded_witness:
  "\<exists>rs c. cache_run demo_str demo_cache_config demo_cache_ops new_cache = Some (rs, c) \<and>
     int (ca_size c) \<le> 2 \<and> ca_memory c \<le> 40"
proof -
  have "map_option (\<lambda>_. True) (cache_run demo_str demo_cache_config demo_cache_ops new_cache) = Some True"
    by code_simp
  then obtain rs c where r: "cache_run demo_str demo_cache_config demo_cache_ops new_cache = Some (rs, c)" by auto
  have "1 \<le> maxSize demo_cache_config" by code_simp
  from lru_cache_bounded [OF this r] r show ?thesis by (simp add: demo_cache_config_def mergeConfig_def or_default_def)
qed

text \<open>
  What is stored is found: after any history, storing a value that fits the memory budget
  succeeds, and a lookup of its key until its time to live has passed returns the value.
\<close>

theorem lru_set_get:
  assumes "1 \<le> maxSize cfg" and "cache_run str cfg ps new_cache = Some (rs, c)"
    and "maxMemory cfg = None \<or> maxMemory cfg = Some 0 \<or> (\<exists>m. maxMemory cfg = Some m \<and> estimateSize str d \<le> m)"
    and "clk 0 \<le> now + or_default ttl (cc_ttl cfg)"
  shows "\<exists>c'. ca_set str cfg now k d ttl c = Some c' \<and> fst (ca_get str clk k c') = Some d"
proof -
  obtain xs where xs: "cache_inv str c xs" by (rule run_reaches [OF assms(1,2)])
  obtain c' ys where c': "ca_set str cfg now k d ttl c = Some c'" "cache_inv str c' ys"
    "abs_cache c' ys = spec_set str cfg now k d ttl (abs_cache c xs)"
    using set_refines [OF assms(1) xs] by blast
  have "fst (ca_get str clk k c') = fst (spec_get clk k (abs_cache c' ys))" using get_refines [OF c'(2)] by blast
  also have "\<dots> = Some d" unfolding c'(3) using abs_jwf [OF xs] assms(3,4) by (rule spec_set_get)
  finally show ?thesis using c'(1) by blast
qed

theorem lru_set_get_witness:
  "\<exists>c'. ca_set demo_str demo_cache_config 7 ''k'' 42 (Some 5) new_cache = Some c' \<and>
     fst (ca_get demo_str (\<lambda>_. 12) ''k'' c') = Some 42"
proof -
  have "1 \<le> maxSize demo_cache_config" by code_simp
  moreover have "cache_run demo_str demo_cache_config [] new_cache = Some ([], new_cache)" by simp
  moreover have "maxMemory demo_cache_config = Some 40" "estimateSize demo_str 42 \<le> 40" by code_simp+
  moreover have "(12 :: time) \<le> 7 + or_default (Some 5) (cc_ttl demo_cache_config)" by code_simp
  ultimately show ?thesis
    using lru_set_get [of demo_cache_config demo_str "[]" "[]" new_cache 42 "\<lambda>_. 12" 7 "Some 5" "''k''"] by simp
qed

text \<open>
  A configured \<open>maxSize\<close> of zero becomes the default. A negative one is taken as it is, and then the store of a new key never
  returns: the loop waits for the size of an empty cache to fall below it.
\<close>

lemma zero_size_is_default: "mergeConfig (Some 0) t l m w = mergeConfig None t l m w"
  by (simp add: mergeConfig_def or_default_def)

lemma negative_size_hangs:
  assumes "n < 0"
  shows "ca_set str (mergeConfig (Some n) t l None w) now k d ttl new_cache = None"
proof -
  have "evict_for_size str n new_cache = None"
    using evict_for_size_result [of str n new_cache] assms by (cases "evict_for_size str n new_cache") fastforce+
  then show ?thesis
    using assms by (simp add: ca_set_def Let_def memory_limit_def evict_memory_loop_def mergeConfig_def or_default_def new_cache_def)
qed

end
