(* ===== verification/TieredCache.thy ===== *)
theory TieredCache
  imports LruCache
begin

text \<open>
  Model of \<open>TieredCacheManager\<close> in \<open>memory/src/cache-manager.ts\<close>: the LRU cache as a first level in
  front of a second level that is read on a miss and written through. The second part states what the
  tiers need of their first level as a locale and interprets it for the LRU cache.
\<close>

section \<open>The tiered cache\<close>

text \<open>
  \<open>TieredCacheManager\<close> calls the operations of its first level, which are arguments here, and the
  loader and writer of its second level, which are client code: \<open>loaded\<close> is what the loader gives,
  and a store returns the write it asks the writer for. \<open>get\<close> is split at its \<open>await\<close>, and a write
  asked for is still to be done when \<open>set\<close> waits.
\<close>

definition tiered_get_l1 ::
    "(clock \<Rightarrow> string \<Rightarrow> 'c \<Rightarrow> 'a option \<times> 'c) \<Rightarrow> clock \<Rightarrow> string \<Rightarrow> 'c \<Rightarrow> 'a option \<times> 'c" where
  "tiered_get_l1 get clk key c = get clk key c"

definition tiered_get_l2 ::
    "(time \<Rightarrow> string \<Rightarrow> 'a \<Rightarrow> int option \<Rightarrow> 'c \<Rightarrow> 'c option) \<Rightarrow> time \<Rightarrow> string \<Rightarrow> 'a option \<Rightarrow> 'c \<Rightarrow> ('a option \<times> 'c) option" where
  "tiered_get_l2 put now key loaded c =
     (case loaded of
        None \<Rightarrow> Some (None, c)
      | Some v \<Rightarrow> map_option (\<lambda>c'. (Some v, c')) (put now key v None c))"

definition tiered_set ::
    "(time \<Rightarrow> string \<Rightarrow> 'a \<Rightarrow> int option \<Rightarrow> 'c \<Rightarrow> 'c option) \<Rightarrow> bool \<Rightarrow> time \<Rightarrow> string \<Rightarrow> 'a \<Rightarrow> int option \<Rightarrow> 'c \<Rightarrow> ((string \<times> 'a) option \<times> 'c) option" where
  "tiered_set put writer now key v ttl c =
     map_option (\<lambda>c'. (if writer then Some (key, v) else None, c')) (put now key v ttl c)"

definition tiered_delete :: "(string \<Rightarrow> 'c \<Rightarrow> bool \<times> 'c) \<Rightarrow> string \<Rightarrow> 'c \<Rightarrow> bool \<times> 'c" where
  "tiered_delete del key c = del key c"

text \<open>
  The tiers over a store that the loader reads and the writer writes. Calls overlap: \<open>ti_gets\<close> holds the lookups that wait for
  the loader, with what it has read once it has, and \<open>ti_sets\<close> the writes that the writer has not done yet. \<open>ti_answers\<close>
  records for every completed lookup its key, its result, and what the store held under the key at that moment.
\<close>

record ('c, 'a) tiers =
  ti_l1 :: 'c
  ti_store :: "string \<Rightarrow> 'a option"
  ti_gets :: "(string \<times> 'a option option) list"
  ti_sets :: "(string \<times> 'a) list"
  ti_answers :: "(string \<times> 'a option \<times> 'a option) list"

datatype 'a tier_op =
    TGet clock string
  | TLoad nat
  | TPromote nat time
  | TSet time string 'a "int option"
  | TWrite nat
  | TDelete string

definition new_tiers :: "'c \<Rightarrow> (string \<Rightarrow> 'a option) \<Rightarrow> ('c, 'a) tiers" where
  "new_tiers c store = \<lparr>ti_l1 = c, ti_store = store, ti_gets = [], ti_sets = [], ti_answers = []\<rparr>"

definition remove_nth :: "nat \<Rightarrow> 'b list \<Rightarrow> 'b list" where
  "remove_nth k xs = take k xs @ drop (Suc k) xs"

fun tier_step ::
    "(clock \<Rightarrow> string \<Rightarrow> 'c \<Rightarrow> 'a option \<times> 'c) \<Rightarrow> (time \<Rightarrow> string \<Rightarrow> 'a \<Rightarrow> int option \<Rightarrow> 'c \<Rightarrow> 'c option)
      \<Rightarrow> (string \<Rightarrow> 'c \<Rightarrow> bool \<times> 'c) \<Rightarrow> 'a tier_op \<Rightarrow> ('c, 'a) tiers \<Rightarrow> ('c, 'a) tiers option" where
  "tier_step get put del (TGet clk key) s =
     (case tiered_get_l1 get clk key (ti_l1 s) of
        (Some v, c) \<Rightarrow> Some (s\<lparr>ti_l1 := c, ti_answers := ti_answers s @ [(key, Some v, ti_store s key)]\<rparr>)
      | (None, c) \<Rightarrow> Some (s\<lparr>ti_l1 := c, ti_gets := ti_gets s @ [(key, None)]\<rparr>))"
| "tier_step get put del (TLoad k) s =
     (if k < length (ti_gets s) then
        (case ti_gets s ! k of
           (key, None) \<Rightarrow> Some (s\<lparr>ti_gets := (ti_gets s)[k := (key, Some (ti_store s key))]\<rparr>)
         | (key, Some r) \<Rightarrow> Some s)
      else Some s)"
| "tier_step get put del (TPromote k now) s =
     (if k < length (ti_gets s) then
        (case ti_gets s ! k of
           (key, None) \<Rightarrow> Some s
         | (key, Some loaded) \<Rightarrow>
             (case tiered_get_l2 put now key loaded (ti_l1 s) of
                None \<Rightarrow> None
              | Some (r, c) \<Rightarrow>
                  Some (s\<lparr>ti_l1 := c, ti_gets := remove_nth k (ti_gets s),
                          ti_answers := ti_answers s @ [(key, r, ti_store s key)]\<rparr>)))
      else Some s)"
| "tier_step get put del (TSet now key v ttl) s =
     (case tiered_set put True now key v ttl (ti_l1 s) of
        None \<Rightarrow> None
      | Some (w, c) \<Rightarrow> Some (s\<lparr>ti_l1 := c, ti_sets := ti_sets s @ (case w of None \<Rightarrow> [] | Some kv \<Rightarrow> [kv])\<rparr>))"
| "tier_step get put del (TWrite k) s =
     (if k < length (ti_sets s) then
        Some (s\<lparr>ti_store := (ti_store s)(fst (ti_sets s ! k) := Some (snd (ti_sets s ! k))), ti_sets := remove_nth k (ti_sets s)\<rparr>)
      else Some s)"
| "tier_step get put del (TDelete key) s = Some (s\<lparr>ti_l1 := snd (tiered_delete del key (ti_l1 s))\<rparr>)"

fun tier_run ::
    "(clock \<Rightarrow> string \<Rightarrow> 'c \<Rightarrow> 'a option \<times> 'c) \<Rightarrow> (time \<Rightarrow> string \<Rightarrow> 'a \<Rightarrow> int option \<Rightarrow> 'c \<Rightarrow> 'c option)
      \<Rightarrow> (string \<Rightarrow> 'c \<Rightarrow> bool \<times> 'c) \<Rightarrow> 'a tier_op list \<Rightarrow> ('c, 'a) tiers \<Rightarrow> ('c, 'a) tiers option" where
  "tier_run get put del [] s = Some s"
| "tier_run get put del (p # ps) s =
     (case tier_step get put del p s of None \<Rightarrow> None | Some s' \<Rightarrow> tier_run get put del ps s')"

text \<open>
  A store of a key does not overlap another call for the same key; lookups of a key may overlap each other and deletions, and calls
  for different keys overlap freely.
\<close>

fun tier_ok :: "'a tier_op \<Rightarrow> ('c, 'a) tiers \<Rightarrow> bool" where
  "tier_ok (TGet clk key) s \<longleftrightarrow> key \<notin> fst ` set (ti_sets s)"
| "tier_ok (TSet now key v ttl) s \<longleftrightarrow> key \<notin> fst ` set (ti_sets s) \<and> key \<notin> fst ` set (ti_gets s)"
| "tier_ok _ s \<longleftrightarrow> True"

fun tiers_ok ::
    "(clock \<Rightarrow> string \<Rightarrow> 'c \<Rightarrow> 'a option \<times> 'c) \<Rightarrow> (time \<Rightarrow> string \<Rightarrow> 'a \<Rightarrow> int option \<Rightarrow> 'c \<Rightarrow> 'c option)
      \<Rightarrow> (string \<Rightarrow> 'c \<Rightarrow> bool \<times> 'c) \<Rightarrow> 'a tier_op list \<Rightarrow> ('c, 'a) tiers \<Rightarrow> bool" where
  "tiers_ok get put del [] s = True"
| "tiers_ok get put del (p # ps) s \<longleftrightarrow> tier_ok p s \<and>
     (case tier_step get put del p s of None \<Rightarrow> True | Some s' \<Rightarrow> tiers_ok get put del ps s')"

lemma set_remove_nth: "set (remove_nth k xs) \<subseteq> set xs"
  by (auto simp: remove_nth_def dest: in_set_takeD in_set_dropD)

lemma remove_nth_distinct:
  "k < length xs \<Longrightarrow> distinct (map f xs) \<Longrightarrow> distinct (map f (remove_nth k xs)) \<and> f (xs ! k) \<notin> f ` set (remove_nth k xs)"
proof -
  assume a: "k < length xs" "distinct (map f xs)"
  then have "map f xs = map f (take k xs) @ f (xs ! k) # map f (drop (Suc k) xs)"
    by (metis id_take_nth_drop list.simps(9) map_append)
  then have "distinct (map f (take k xs) @ f (xs ! k) # map f (drop (Suc k) xs))"
    using a(2) by simp
  then show ?thesis
    by (auto simp: remove_nth_def)
qed

text \<open>No key that is being looked up is being stored, and what the loader has read is what the store holds.\<close>

definition gets_ok :: "(string \<Rightarrow> 'a option) \<Rightarrow> (string \<times> 'a) list \<Rightarrow> (string \<times> 'a option option) list \<Rightarrow> bool" where
  "gets_ok store sets gs \<longleftrightarrow> (\<forall>e \<in> set gs. fst e \<notin> fst ` set sets \<and> (\<forall>x. snd e = Some x \<longrightarrow> x = store (fst e)))"

lemma gets_ok_less: "gets_ok store sets gs \<Longrightarrow> set gs' \<subseteq> set gs \<Longrightarrow> gets_ok store sets gs'"
  by (auto simp: gets_ok_def)

lemma gets_ok_nth: "gets_ok store sets gs \<Longrightarrow> k < length gs \<Longrightarrow> gs ! k = (key, r) \<Longrightarrow>
    key \<notin> fst ` set sets \<and> (\<forall>x. r = Some x \<longrightarrow> x = store key)"
  unfolding gets_ok_def by (metis fst_conv nth_mem snd_conv)

lemma gets_ok_update: "gets_ok store sets gs \<Longrightarrow> key \<notin> fst ` set sets \<Longrightarrow> gets_ok store sets (gs[k := (key, Some (store key))])"
  using set_update_subset_insert [of gs k "(key, Some (store key))"] by (force simp: gets_ok_def)

lemma map_of_remove_nth:
  assumes "k < length xs" "distinct (map fst xs)"
  shows "map_of (remove_nth k xs) = (map_of xs)(fst (xs ! k) := None)"
proof -
  have xs: "xs = take k xs @ xs ! k # drop (Suc k) xs"
    by (rule id_take_nth_drop [OF assms(1)])
  have "map_of (remove_nth k xs) (fst (xs ! k)) = None"
    using remove_nth_distinct [OF assms] by (simp add: map_of_eq_None_iff)
  moreover have "map_of (remove_nth k xs) x = map_of xs x" if "x \<noteq> fst (xs ! k)" for x
    using that by (subst (2) xs) (simp add: remove_nth_def map_add_def fun_upd_def)
  ultimately show ?thesis
    by (auto simp: fun_eq_iff)
qed

definition answers_ok :: "(string \<times> 'a option \<times> 'a option) list \<Rightarrow> bool" where
  "answers_ok as \<longleftrightarrow> (\<forall>(key, r, h) \<in> set as. r = h)"

text \<open>
  What the tiers need of their first level: it may forget at any time, but what it returns was stored
  last under the key.
\<close>

locale forgetful_cache =
  fixes inv :: "'c \<Rightarrow> bool"
    and view :: "'c \<Rightarrow> string \<Rightarrow> 'a option"
    and get :: "clock \<Rightarrow> string \<Rightarrow> 'c \<Rightarrow> 'a option \<times> 'c"
    and put :: "time \<Rightarrow> string \<Rightarrow> 'a \<Rightarrow> int option \<Rightarrow> 'c \<Rightarrow> 'c option"
    and del :: "string \<Rightarrow> 'c \<Rightarrow> bool \<times> 'c"
  assumes get_law: "inv c \<Longrightarrow> get clk k c = (r, c') \<Longrightarrow>
      inv c' \<and> view c' \<subseteq>\<^sub>m view c \<and> (r = None \<or> r = view c k)"
    and set_law: "inv c \<Longrightarrow> \<exists>c'. put now k v ttl c = Some c' \<and> inv c' \<and> view c' \<subseteq>\<^sub>m (view c)(k := Some v)"
    and del_law: "inv c \<Longrightarrow> inv (snd (del k c)) \<and> view (snd (del k c)) \<subseteq>\<^sub>m view c"
begin

text \<open>
  The first level agrees with the store, or with the write that is still to be done.
\<close>

definition coherent :: "('c, 'a) tiers \<Rightarrow> bool" where
  "coherent s \<longleftrightarrow> inv (ti_l1 s) \<and> view (ti_l1 s) \<subseteq>\<^sub>m ti_store s ++ map_of (ti_sets s) \<and> distinct (map fst (ti_sets s)) \<and>
     gets_ok (ti_store s) (ti_sets s) (ti_gets s) \<and> answers_ok (ti_answers s)"

lemma coherent_get:
  assumes "coherent s" "key \<notin> fst ` set (ti_sets s)"
  shows "\<exists>s'. tier_step get put del (TGet clk key) s = Some s' \<and> coherent s'"
proof -
  obtain r c where g: "get clk key (ti_l1 s) = (r, c)" by fastforce
  from get_law [OF _ g] assms have c: "inv c" "view c \<subseteq>\<^sub>m ti_store s ++ map_of (ti_sets s)" and r: "r = None \<or> r = view (ti_l1 s) key"
    by (auto simp: coherent_def intro: map_le_trans)
  show ?thesis
  proof (cases r)
    case (Some v)
    then have "view (ti_l1 s) key = Some v" using r by simp
    then have "(ti_store s ++ map_of (ti_sets s)) key = Some v"
      using assms(1) unfolding coherent_def map_le_def by (metis domI)
    then have "ti_store s key = Some v"
      using assms(2) by (simp add: map_add_def map_of_eq_None_iff [THEN iffD2])
    then show ?thesis
      using g Some c assms(1) by (simp add: tiered_get_l1_def coherent_def answers_ok_def gets_ok_def)
  next
    case None
    then show ?thesis
      using g c assms by (simp add: tiered_get_l1_def coherent_def answers_ok_def gets_ok_def)
  qed
qed

lemma coherent_load:
  assumes "coherent s"
  shows "\<exists>s'. tier_step get put del (TLoad k) s = Some s' \<and> coherent s'"
proof (cases "k < length (ti_gets s) \<and> snd (ti_gets s ! k) = None")
  case True
  then obtain key where k: "k < length (ti_gets s)" "ti_gets s ! k = (key, None)"
    by (metis prod.collapse)
  then have "key \<notin> fst ` set (ti_sets s)"
    using assms gets_ok_nth [OF _ k] by (auto simp: coherent_def)
  then have "coherent (s\<lparr>ti_gets := (ti_gets s)[k := (key, Some (ti_store s key))]\<rparr>)"
    using assms gets_ok_update [of "ti_store s" "ti_sets s" "ti_gets s" key k]
    by (simp add: coherent_def answers_ok_def)
  then show ?thesis
    using k by simp
qed (use assms in \<open>auto split: prod.split option.split\<close>)

lemma coherent_promote:
  assumes "coherent s"
  shows "\<exists>s'. tier_step get put del (TPromote k now) s = Some s' \<and> coherent s'"
proof (cases "k < length (ti_gets s) \<and> snd (ti_gets s ! k) \<noteq> None")
  case True
  then obtain key loaded where k: "k < length (ti_gets s)" "ti_gets s ! k = (key, Some loaded)"
    by (metis option.exhaust prod.collapse)
  then have key: "key \<notin> fst ` set (ti_sets s)" "loaded = ti_store s key"
    using assms gets_ok_nth [of "ti_store s" "ti_sets s", OF _ k] by (simp_all add: coherent_def)
  have rest: "gets_ok (ti_store s) (ti_sets s) (remove_nth k (ti_gets s))"
    by (rule gets_ok_less [OF _ set_remove_nth]) (use assms in \<open>simp add: coherent_def\<close>)
  show ?thesis
  proof (cases loaded)
    case None
    then show ?thesis
      using k key assms rest by (simp add: tiered_get_l2_def coherent_def answers_ok_def)
  next
    case (Some v)
    have s: "inv (ti_l1 s)" "view (ti_l1 s) \<subseteq>\<^sub>m ti_store s ++ map_of (ti_sets s)"
      using assms by (simp_all add: coherent_def)
    obtain c where c: "put now key v None (ti_l1 s) = Some c" "inv c" "view c \<subseteq>\<^sub>m (view (ti_l1 s))(key := Some v)"
      using set_law [OF s(1)] by blast
    have "(ti_store s ++ map_of (ti_sets s)) key = Some v"
      using key Some by (simp add: map_add_def map_of_eq_None_iff [THEN iffD2])
    then have "view c \<subseteq>\<^sub>m ti_store s ++ map_of (ti_sets s)"
      using c(3) s(2) map_le_upd [OF s(2), of key "Some v"] by (metis fun_upd_triv map_le_trans)
    moreover have "ti_store s key = Some v"
      using key(2) Some by simp
    ultimately show ?thesis
      using k(1) k(2) [unfolded Some] c assms rest by (simp add: tiered_get_l2_def coherent_def answers_ok_def)
  qed
qed (use assms in \<open>auto split: prod.split option.split\<close>)

lemma coherent_set:
  assumes "coherent s" "key \<notin> fst ` set (ti_sets s)" "key \<notin> fst ` set (ti_gets s)"
  shows "\<exists>s'. tier_step get put del (TSet now key v ttl) s = Some s' \<and> coherent s'"
proof -
  have s: "inv (ti_l1 s)" "view (ti_l1 s) \<subseteq>\<^sub>m ti_store s ++ map_of (ti_sets s)"
    using assms(1) by (simp_all add: coherent_def)
  obtain c where c: "put now key v ttl (ti_l1 s) = Some c" "inv c" "view c \<subseteq>\<^sub>m (view (ti_l1 s))(key := Some v)"
    using set_law [OF s(1)] by blast
  have "ti_store s ++ map_of (ti_sets s @ [(key, v)]) = (ti_store s ++ map_of (ti_sets s))(key := Some v)"
    using assms(2) by (auto simp: fun_eq_iff map_add_def map_of_eq_None_iff [THEN iffD2] split: option.split)
  then have "view c \<subseteq>\<^sub>m ti_store s ++ map_of (ti_sets s @ [(key, v)])"
    using map_le_trans [OF c(3) map_le_upd [OF s(2), of key "Some v"]] by simp
  moreover have "gets_ok (ti_store s) (ti_sets s @ [(key, v)]) (ti_gets s)"
    using assms by (auto simp: coherent_def gets_ok_def)
  ultimately show ?thesis
    using c assms by (simp add: tiered_set_def coherent_def answers_ok_def)
qed

lemma coherent_write:
  assumes "coherent s"
  shows "\<exists>s'. tier_step get put del (TWrite k) s = Some s' \<and> coherent s'"
proof (cases "k < length (ti_sets s)")
  case True
  obtain key v where kv: "ti_sets s ! k = (key, v)"
    by fastforce
  have d: "distinct (map fst (ti_sets s))"
    using assms by (simp add: coherent_def)
  note r = remove_nth_distinct [OF True d]
  have mem: "(key, v) \<in> set (ti_sets s)"
    using kv True by (metis nth_mem)
  then have "map_of (ti_sets s) key = Some v"
    using d by simp
  then have "(ti_store s)(key := Some v) ++ map_of (remove_nth k (ti_sets s)) = ti_store s ++ map_of (ti_sets s)"
    unfolding map_of_remove_nth [OF True d] kv by (auto simp: fun_eq_iff map_add_def split: option.split)
  moreover have "gets_ok ((ti_store s)(key := Some v)) (remove_nth k (ti_sets s)) (ti_gets s)"
  proof -
    have "fst e \<noteq> key" if "e \<in> set (ti_gets s)" for e
      using assms that mem by (force simp: coherent_def gets_ok_def)
    moreover have "fst e \<notin> fst ` set (remove_nth k (ti_sets s))" "\<forall>x. snd e = Some x \<longrightarrow> x = ti_store s (fst e)"
      if "e \<in> set (ti_gets s)" for e
      using assms that set_remove_nth [of k "ti_sets s"] unfolding coherent_def gets_ok_def by blast+
    ultimately show ?thesis
      unfolding gets_ok_def by (metis fun_upd_other)
  qed
  ultimately have "coherent (s\<lparr>ti_store := (ti_store s)(key := Some v), ti_sets := remove_nth k (ti_sets s)\<rparr>)"
    using assms r by (simp add: coherent_def answers_ok_def)
  then show ?thesis
    using True kv by simp
qed (use assms in simp)

lemma coherent_step:
  assumes "coherent s" "tier_ok p s"
  shows "\<exists>s'. tier_step get put del p s = Some s' \<and> coherent s'"
proof (cases p)
  case (TDelete key)
  then show ?thesis
    using del_law [of "ti_l1 s" key] assms
    by (auto simp: tiered_delete_def coherent_def answers_ok_def intro: map_le_trans)
qed (use assms in \<open>simp_all add: coherent_get coherent_load coherent_promote coherent_set coherent_write del: tier_step.simps\<close>)

lemma coherent_run: "coherent s \<Longrightarrow> tiers_ok get put del ps s \<Longrightarrow> \<exists>s'. tier_run get put del ps s = Some s' \<and> coherent s'"
proof (induction ps arbitrary: s)
  case (Cons p ps)
  then show ?case using coherent_step [of s p] by fastforce
qed simp

end

section \<open>The LRU cache as a first level\<close>

definition cache_ok :: "('a \<Rightarrow> string option) \<Rightarrow> 'a cache \<Rightarrow> bool" where
  "cache_ok str c \<longleftrightarrow> (\<exists>xs. cache_inv str c xs)"

definition cache_view :: "'a cache \<Rightarrow> string \<Rightarrow> 'a option" where
  "cache_view c k = (case jget (ca_map c) k of None \<Rightarrow> None | Some a \<Rightarrow> Some (ce_data (ln_value (deref c a))))"

definition lru_view :: "'a lru \<Rightarrow> string \<Rightarrow> 'a option" where
  "lru_view l k = map_option ce_data (jget l k)"

lemma cache_view_abs: "cache_inv str c xs \<Longrightarrow> cache_view c = lru_view (abs_cache c xs)"
proof
  fix k assume i: "cache_inv str c xs"
  show "cache_view c k = lru_view (abs_cache c xs) k"
  proof (cases "jget (ca_map c) k")
    case (Some a)
    then obtain e where "content c a = Some (k, e)" using cache_inv_lookup [OF i] by blast
    then show ?thesis using Some jget_abs [OF i, of k] content_deref [of c a k e] by (simp add: cache_view_def lru_view_def)
  qed (use jget_abs [OF i, of k] in \<open>simp add: cache_view_def lru_view_def\<close>)
qed

lemma lru_view_simps:
  "lru_view ((k, e) # l) = (lru_view l)(k := Some (ce_data e))"
  "lru_view (jdel k l) = (lru_view l)(k := None)"
  by (auto simp: lru_view_def fun_eq_iff)

lemma lru_view_take: "lru_view (take n l) \<subseteq>\<^sub>m lru_view l"
proof (induction l arbitrary: n)
  case (Cons p l)
  obtain k e where "p = (k, e)" by (cases p)
  then show ?case
  proof (cases n)
    case 0
    then show ?thesis by (simp add: lru_view_def map_le_def dom_def)
  next
    case (Suc m)
    show ?thesis unfolding \<open>p = _\<close> Suc take_Suc_Cons lru_view_simps by (rule map_le_upd [OF Cons])
  qed
qed simp

lemma spec_get_view:
  "lru_view (snd (spec_get clk k l)) \<subseteq>\<^sub>m lru_view l"
  "fst (spec_get clk k l) = None \<or> fst (spec_get clk k l) = lru_view l k"
  by (auto simp: spec_get_def lru_view_simps map_le_def split: option.split) (auto simp: lru_view_def)

lemma spec_set_view: "lru_view (spec_set str cfg now k v ttl l) \<subseteq>\<^sub>m (lru_view l)(k := Some v)"
proof -
  have del: "(lru_view l)(k := None) \<subseteq>\<^sub>m (lru_view l)(k := Some v)" by (auto simp: map_le_def)
  have "lru_view (take n (take m l)) \<subseteq>\<^sub>m lru_view l" for n m
    using lru_view_take map_le_trans by blast
  then have new: "(lru_view (take n (fit_memory str cfg s l)))(k := Some v) \<subseteq>\<^sub>m (lru_view l)(k := Some v)" for n s
    using fit_prefix [of str cfg s l] by (metis map_le_upd)
  have "lru_view (fit_memory str cfg 0 ((k, e) # jdel k l)) \<subseteq>\<^sub>m (lru_view l)(k := Some v)" if "ce_data e = v" for e
    using fit_prefix [of str cfg 0 "(k, e) # jdel k l"] lru_view_take [of _ "(k, e) # jdel k l"] that
    by (auto simp: lru_view_simps)
  then show ?thesis
    using del new by (auto simp: spec_set_def Let_def lru_view_simps split: option.split)
qed

interpretation l1: forgetful_cache "\<lambda>c. cache_ok str c \<and> 1 \<le> maxSize cfg" cache_view "ca_get str" "ca_set str cfg" "ca_delete str"
  for str :: "'a \<Rightarrow> string option" and cfg
proof unfold_locales
  fix c c' :: "'a cache" and clk k r
  assume a: "cache_ok str c \<and> 1 \<le> maxSize cfg" "ca_get str clk k c = (r, c')"
  then obtain xs where xs: "cache_inv str c xs" by (auto simp: cache_ok_def)
  obtain ys where "cache_inv str c' ys" "abs_cache c' ys = snd (spec_get clk k (abs_cache c xs))"
    "r = fst (spec_get clk k (abs_cache c xs))" using get_refines [OF xs, of clk k] a(2) by auto
  then show "(cache_ok str c' \<and> 1 \<le> maxSize cfg) \<and> cache_view c' \<subseteq>\<^sub>m cache_view c \<and> (r = None \<or> r = cache_view c k)"
    using a(1) spec_get_view [of clk k "abs_cache c xs"] cache_view_abs [OF xs] cache_view_abs [of str c' ys]
    by (auto simp: cache_ok_def)
next
  fix c :: "'a cache" and now k v ttl
  assume a: "cache_ok str c \<and> 1 \<le> maxSize cfg"
  then obtain xs where xs: "cache_inv str c xs" by (auto simp: cache_ok_def)
  obtain c' ys where c': "ca_set str cfg now k v ttl c = Some c'" "cache_inv str c' ys"
    "abs_cache c' ys = spec_set str cfg now k v ttl (abs_cache c xs)"
    using set_refines [OF _ xs] a by blast
  then have "cache_view c' \<subseteq>\<^sub>m (cache_view c)(k := Some v)"
    using spec_set_view [of str cfg now k v ttl "abs_cache c xs"] cache_view_abs [OF xs] cache_view_abs [OF c'(2)] by simp
  then show "\<exists>c'. ca_set str cfg now k v ttl c = Some c' \<and> (cache_ok str c' \<and> 1 \<le> maxSize cfg) \<and>
      cache_view c' \<subseteq>\<^sub>m (cache_view c)(k := Some v)"
    using c' a by (auto simp: cache_ok_def)
next
  fix c :: "'a cache" and k
  assume a: "cache_ok str c \<and> 1 \<le> maxSize cfg"
  then obtain xs where xs: "cache_inv str c xs" by (auto simp: cache_ok_def)
  obtain ys where ys: "cache_inv str (snd (ca_delete str k c)) ys"
    "abs_cache (snd (ca_delete str k c)) ys = jdel k (abs_cache c xs)" using delete_refines(1) [OF xs] by blast
  then show "(cache_ok str (snd (ca_delete str k c)) \<and> 1 \<le> maxSize cfg) \<and>
      cache_view (snd (ca_delete str k c)) \<subseteq>\<^sub>m cache_view c"
    using a cache_view_abs [OF xs] cache_view_abs [OF ys(1)]
    by (auto simp: cache_ok_def lru_view_simps map_le_def)
qed

section \<open>Properties\<close>

text \<open>
  C33. The tiered cache is transparent. With a writer that writes the store the loader reads, take any interleaving of lookups,
  stores and deletions, waits for the loader and the writer included, in which a store of a key does not overlap another store or a
  lookup of the same key. Every call returns, and every lookup that completes gives exactly what the store holds under its key at
  that moment: the first level, whatever it has evicted, expired or deleted, never serves a stale value.
\<close>

theorem tiered_cache_transparent:
  fixes str :: "'a \<Rightarrow> string option"
  assumes "1 \<le> maxSize cfg" and "tiers_ok (ca_get str) (ca_set str cfg) (ca_delete str) ps (new_tiers new_cache store0)"
  shows "\<exists>s. tier_run (ca_get str) (ca_set str cfg) (ca_delete str) ps (new_tiers new_cache store0) = Some s \<and>
    (\<forall>(key, result, held) \<in> set (ti_answers s). result = held)"
proof -
  have "cache_ok str new_cache" using new_cache_inv by (auto simp: cache_ok_def)
  moreover have "cache_view new_cache \<subseteq>\<^sub>m store0" by (simp add: cache_view_def new_cache_def map_le_def dom_def)
  ultimately have "l1.coherent str cfg (new_tiers new_cache store0)"
    using assms(1) unfolding l1.coherent_def by (simp add: new_tiers_def gets_ok_def answers_ok_def)
  from l1.coherent_run [OF this assms(2)] show ?thesis
    unfolding l1.coherent_def answers_ok_def by blast
qed

text \<open>
  Two lookups of \<open>''a''\<close> and stores of other keys, which evict it from a first level of two entries, overlap.
\<close>

definition demo_tier_ops :: "nat tier_op list" where
  "demo_tier_ops = [TSet 1 ''a'' 10 None, TSet 2 ''b'' 20 None, TWrite 0, TSet 3 ''c'' 30 None, TGet (\<lambda>_. 4) ''a'', TWrite 0,
     TGet (\<lambda>_. 5) ''a'', TLoad 0, TPromote 0 6, TDelete ''a'', TGet (\<lambda>_. 7) ''b'', TLoad 0, TPromote 0 8, TGet (\<lambda>_. 9) ''a'']"

definition demo_tiers :: "(nat cache, nat) tiers option" where
  "demo_tiers = tier_run (ca_get demo_str) (ca_set demo_str demo_cache_config) (ca_delete demo_str) demo_tier_ops
     (new_tiers new_cache (\<lambda>_. None))"

theorem tiered_cache_transparent_witness:
  "\<exists>s. demo_tiers = Some s \<and> length (ti_answers s) = 3 \<and> (\<forall>(key, result, held) \<in> set (ti_answers s). result = held)"
proof -
  have "1 \<le> maxSize demo_cache_config" by code_simp
  moreover have "tiers_ok (ca_get demo_str) (ca_set demo_str demo_cache_config) (ca_delete demo_str) demo_tier_ops
      (new_tiers new_cache (\<lambda>_. None))" by code_simp
  ultimately have "\<exists>s. demo_tiers = Some s \<and> (\<forall>(key, result, held) \<in> set (ti_answers s). result = held)"
    unfolding demo_tiers_def by (rule tiered_cache_transparent)
  moreover have "map_option (\<lambda>s. length (ti_answers s)) demo_tiers = Some 3" by code_simp
  ultimately show ?thesis by (metis (no_types, lifting) map_option_eq_Some option.inject)
qed

text \<open>
  The condition is needed: a lookup that waits for the loader while the key is stored puts the old value over the new one, and
  later lookups are served with it.
\<close>

lemma overlapped_lookup_serves_stale:
  "map_option ti_answers (tier_run (ca_get demo_str) (ca_set demo_str demo_cache_config) (ca_delete demo_str)
     [TGet (\<lambda>_. 1) ''a'', TLoad 0, TSet 2 ''a'' 10 None, TWrite 0, TPromote 0 3, TGet (\<lambda>_. 4) ''a'']
     (new_tiers new_cache (\<lambda>_. Some 7)))
   = Some [(''a'', Some 7, Some 10), (''a'', Some 7, Some 10)]"
  by code_simp

end
