(* ===== verification/SemVer.thy ===== *)
theory SemVer
  imports Prelude
begin

text \<open>
  Model of the version utilities of \<open>plugins/src/registry/dependency-graph.ts\<close>: \<open>parseVersion\<close>,
  \<open>compareVersions\<close> and \<open>satisfiesVersion\<close>. Strings are sequences of characters of the first
  Unicode block; the numbers of a version are natural numbers (\<open>parseInt\<close> is exact below \<open>2 ^ 53\<close>).
\<close>

section \<open>Definitions\<close>

definition is_digit :: "char \<Rightarrow> bool" where
  "is_digit c \<longleftrightarrow> 48 \<le> (of_char c :: nat) \<and> (of_char c :: nat) \<le> 57"

text \<open>The characters \<open>trim\<close> and \<open>\s\<close> take as white space.\<close>

definition is_space :: "char \<Rightarrow> bool" where
  "is_space c \<longleftrightarrow> (of_char c :: nat) \<in> {9, 10, 11, 12, 13, 32, 160}"

definition parseInt10 :: "string \<Rightarrow> nat" where
  "parseInt10 s = foldl (\<lambda>n c. 10 * n + (of_char c - 48)) 0 s"

record version =
  major :: nat
  minor :: nat
  patch :: nat

text \<open>The expression \<open>/^(\d+)\.(\d+)\.(\d+)/\<close>: three runs of digits separated by dots, then anything.\<close>

definition digits :: "string \<Rightarrow> string" where
  "digits s = takeWhile is_digit s"

definition after_digits :: "string \<Rightarrow> string" where
  "after_digits s = dropWhile is_digit s"

definition parseVersion :: "string \<Rightarrow> version option" where
  "parseVersion s =
     (case after_digits s of
        c # s2 \<Rightarrow>
          if digits s = [] \<or> c \<noteq> CHR ''.'' then None
          else (case after_digits s2 of
                  c2 # s3 \<Rightarrow>
                    if digits s2 = [] \<or> c2 \<noteq> CHR ''.'' \<or> digits s3 = [] then None
                    else Some \<lparr>major = parseInt10 (digits s), minor = parseInt10 (digits s2),
                               patch = parseInt10 (digits s3)\<rparr>
                | [] \<Rightarrow> None)
      | [] \<Rightarrow> None)"

definition compareVersions :: "string \<Rightarrow> string \<Rightarrow> int" where
  "compareVersions a b =
     (case (parseVersion a, parseVersion b) of
        (Some va, Some vb) \<Rightarrow>
          if major va \<noteq> major vb then (if major va < major vb then - 1 else 1)
          else if minor va \<noteq> minor vb then (if minor va < minor vb then - 1 else 1)
          else if patch va \<noteq> patch vb then (if patch va < patch vb then - 1 else 1)
          else 0
      | _ \<Rightarrow> 0)"

definition trim :: "string \<Rightarrow> string" where
  "trim s = rev (dropWhile is_space (rev (dropWhile is_space s)))"

text \<open>\<open>split(/\s+/)\<close> on a string without white space at its ends.\<close>

function split_spaces :: "string \<Rightarrow> string list" where
  "split_spaces s =
     (case dropWhile (\<lambda>c. \<not> is_space c) s of
        [] \<Rightarrow> [s]
      | c # rest \<Rightarrow> takeWhile (\<lambda>c. \<not> is_space c) s # split_spaces (dropWhile is_space rest))"
  by auto
termination
proof (relation "measure length")
  fix s c rest assume "dropWhile (\<lambda>c. \<not> is_space c) s = c # rest"
  then have "length (c # rest) \<le> length s" by (metis length_dropWhile_le)
  moreover have "length (dropWhile is_space rest) \<le> length rest" by (rule length_dropWhile_le)
  ultimately show "(dropWhile is_space rest, s) \<in> measure length" by simp
qed simp

declare split_spaces.simps [simp del]

lemma split_spaces_part: "p \<in> set (split_spaces s) \<Longrightarrow> set p \<subseteq> {c \<in> set s. \<not> is_space c} \<and> length p \<le> length (filter (\<lambda>c. \<not> is_space c) s)"
proof (induction s rule: split_spaces.induct)
  case (1 s)
  show ?case
  proof (cases "dropWhile (\<lambda>c. \<not> is_space c) s")
    case Nil
    have "p = s" using "1.prems" unfolding split_spaces.simps [of s] Nil by simp
    then show ?thesis using Nil by (auto simp: dropWhile_eq_Nil_conv)
  next
    case (Cons c rest)
    have s: "s = takeWhile (\<lambda>c. \<not> is_space c) s @ c # rest" using Cons by (metis takeWhile_dropWhile_id)
    have "filter (\<lambda>c. \<not> is_space c) (takeWhile (\<lambda>c. \<not> is_space c) s) = takeWhile (\<lambda>c. \<not> is_space c) s"
      by (rule filter_True) (auto dest: set_takeWhileD)
    then have len: "length (filter (\<lambda>c. \<not> is_space c) s) =
        length (takeWhile (\<lambda>c. \<not> is_space c) s) + length (filter (\<lambda>c. \<not> is_space c) (c # rest))"
      using arg_cong [OF s, of "filter (\<lambda>c. \<not> is_space c)"] by (metis filter_append length_append)
    consider "p = takeWhile (\<lambda>c. \<not> is_space c) s" | "p \<in> set (split_spaces (dropWhile is_space rest))"
      using "1.prems" Cons by (auto simp: split_spaces.simps [of s])
    then show ?thesis
    proof cases
      case 1
      then show ?thesis using len by (auto dest: set_takeWhileD)
    next
      case 2
      have sub: "set (dropWhile is_space rest) \<subseteq> set s" using s by (metis Un_iff set_append set_subset_Cons set_dropWhileD subsetI subsetD)
      have "length (filter (\<lambda>c. \<not> is_space c) (dropWhile is_space rest)) \<le> length (filter (\<lambda>c. \<not> is_space c) rest)"
        using takeWhile_dropWhile_id [of is_space rest] by (metis filter_append le_add2 length_append)
      then show ?thesis using "1.IH" [OF Cons 2] sub len by auto
    qed
  qed
qed
lemma set_trim: "set (trim s) \<subseteq> set s" "length (trim s) \<le> length s"
proof -
  show "set (trim s) \<subseteq> set s" by (auto simp: trim_def dest!: set_dropWhileD)
  have "length (trim s) \<le> length (dropWhile is_space s)"
    using length_dropWhile_le [of is_space "rev (dropWhile is_space s)"] by (simp add: trim_def)
  also have "\<dots> \<le> length s" by (rule length_dropWhile_le)
  finally show "length (trim s) \<le> length s" .
qed

text \<open>The formats of a single range, in the order of the source.\<close>

definition startsWith :: "string \<Rightarrow> string \<Rightarrow> bool" where
  "startsWith s p \<longleftrightarrow> take (length p) s = p"

definition satisfies_range :: "string \<Rightarrow> version \<Rightarrow> string \<Rightarrow> bool" where
  "satisfies_range trimmed actual version =
     (let against = (\<lambda>req test. case parseVersion req of None \<Rightarrow> False | Some required \<Rightarrow> test required)
      in if startsWith trimmed ''^'' then
           against (drop 1 trimmed) (\<lambda>required. major actual = major required \<and>
             (minor actual > minor required \<or> (minor actual = minor required \<and> patch actual \<ge> patch required)))
         else if startsWith trimmed ''~'' then
           against (drop 1 trimmed) (\<lambda>required. major actual = major required \<and> minor actual = minor required \<and>
             patch actual \<ge> patch required)
         else if startsWith trimmed ''>='' then
           against (drop 2 trimmed) (\<lambda>_. compareVersions version (drop 2 trimmed) \<ge> 0)
         else if startsWith trimmed ''<='' then
           against (drop 2 trimmed) (\<lambda>_. compareVersions version (drop 2 trimmed) \<le> 0)
         else if startsWith trimmed ''>'' then
           against (drop 1 trimmed) (\<lambda>_. compareVersions version (drop 1 trimmed) > 0)
         else if startsWith trimmed ''<'' then
           against (drop 1 trimmed) (\<lambda>_. compareVersions version (drop 1 trimmed) < 0)
         else against trimmed (\<lambda>_. compareVersions version trimmed = 0))"

function satisfiesVersion :: "string \<Rightarrow> string \<Rightarrow> bool" where
  "satisfiesVersion rng version =
     (let trimmed = trim rng
      in if trimmed = ''*'' \<or> trimmed = [] then True
         else case parseVersion version of
                None \<Rightarrow> False
              | Some actual \<Rightarrow>
                  if CHR '' '' \<in> set trimmed
                  then list_all (\<lambda>part. satisfiesVersion part version) (split_spaces trimmed)
                  else satisfies_range trimmed actual version)"
  by auto
termination
proof (relation "measure (\<lambda>(rng, version). length rng)")
  fix rng version :: string and trimmed actual part
  assume t: "trimmed = trim rng" and sp: "CHR '' '' \<in> set trimmed" and "part \<in> set (split_spaces trimmed)"
  then have "length part \<le> length (filter (\<lambda>c. \<not> is_space c) trimmed)" using split_spaces_part by blast
  also have "\<dots> < length trimmed" using sp by (intro length_filter_less) (auto simp: is_space_def)
  also have "\<dots> \<le> length rng" using t set_trim by simp
  finally show "((part, version), rng, version) \<in> measure (\<lambda>(rng, version). length rng)" by simp
qed simp

declare satisfiesVersion.simps [simp del]

section \<open>Versions are ordered lexicographically\<close>

definition version_le :: "version \<Rightarrow> version \<Rightarrow> bool" where
  "version_le a b \<longleftrightarrow> major a < major b \<or>
     (major a = major b \<and> (minor a < minor b \<or> (minor a = minor b \<and> patch a \<le> patch b)))"

definition version_less :: "version \<Rightarrow> version \<Rightarrow> bool" where
  "version_less a b \<longleftrightarrow> version_le a b \<and> a \<noteq> b"

lemma compareVersions_order:
  assumes "parseVersion a = Some va" "parseVersion b = Some vb"
  shows "compareVersions a b \<ge> 0 \<longleftrightarrow> version_le vb va" "compareVersions a b \<le> 0 \<longleftrightarrow> version_le va vb"
    "compareVersions a b > 0 \<longleftrightarrow> version_less vb va" "compareVersions a b < 0 \<longleftrightarrow> version_less va vb"
    "compareVersions a b = 0 \<longleftrightarrow> va = vb"
  using assms by (auto simp: compareVersions_def version_le_def version_less_def)

text \<open>A range without white space is its own trim.\<close>

lemma trim_id: "\<forall>c \<in> set s. \<not> is_space c \<Longrightarrow> trim s = s"
proof -
  assume a: "\<forall>c \<in> set s. \<not> is_space c"
  have d: "dropWhile is_space t = t" if "\<forall>c \<in> set t. \<not> is_space c" for t
    using that by (cases t) auto
  show ?thesis using d [of s] d [of "rev s"] a by (simp add: trim_def)
qed

lemma satisfies_plain:
  assumes "\<forall>c \<in> set r. \<not> is_space c" "r \<noteq> ''*''" "r \<noteq> []" "parseVersion v = Some V"
  shows "satisfiesVersion r v = satisfies_range r V v"
  using assms by (subst satisfiesVersion.simps) (auto simp: trim_id is_space_def)

lemma parseVersion_starts:
  assumes "parseVersion r = Some R"
  obtains c rest where "r = c # rest" "is_digit c"
proof -
  have "digits r \<noteq> []" using assms by (auto simp: parseVersion_def split: list.splits if_splits)
  then show ?thesis using that by (cases r) (auto simp: digits_def split: if_splits)
qed

lemma digit_not_operator:
  "is_digit c \<Longrightarrow> c \<noteq> CHR ''^'' \<and> c \<noteq> CHR ''~'' \<and> c \<noteq> CHR ''>'' \<and> c \<noteq> CHR ''<'' \<and> c \<noteq> CHR ''='' \<and> c \<noteq> CHR ''*''"
  by (auto simp: is_digit_def)

text \<open>The range formats applied to a version \<open>r\<close> that parses.\<close>

lemma satisfies_formats:
  assumes "parseVersion r = Some R" "parseVersion v = Some V"
  shows "satisfies_range (CHR ''^'' # r) V v \<longleftrightarrow> version_le R V \<and> version_less V \<lparr>major = major R + 1, minor = 0, patch = 0\<rparr>"
    "satisfies_range (CHR ''~'' # r) V v \<longleftrightarrow>
      version_le R V \<and> version_less V \<lparr>major = major R, minor = minor R + 1, patch = 0\<rparr>"
    "satisfies_range (CHR ''>'' # CHR ''='' # r) V v \<longleftrightarrow> version_le R V"
    "satisfies_range (CHR ''<'' # CHR ''='' # r) V v \<longleftrightarrow> version_le V R"
    "satisfies_range (CHR ''>'' # r) V v \<longleftrightarrow> version_less R V"
    "satisfies_range (CHR ''<'' # r) V v \<longleftrightarrow> version_less V R"
    "satisfies_range r V v \<longleftrightarrow> V = R"
proof -
  obtain c rest where r: "r = c # rest" "is_digit c" using parseVersion_starts [OF assms(1)] .
  note ops = digit_not_operator [OF r(2)]
  show "satisfies_range (CHR ''^'' # r) V v \<longleftrightarrow> version_le R V \<and> version_less V \<lparr>major = major R + 1, minor = 0, patch = 0\<rparr>"
    "satisfies_range (CHR ''~'' # r) V v \<longleftrightarrow>
      version_le R V \<and> version_less V \<lparr>major = major R, minor = minor R + 1, patch = 0\<rparr>"
    using assms by (cases V; cases R; auto simp: satisfies_range_def startsWith_def version_le_def version_less_def)+
  show "satisfies_range (CHR ''>'' # CHR ''='' # r) V v \<longleftrightarrow> version_le R V"
    "satisfies_range (CHR ''<'' # CHR ''='' # r) V v \<longleftrightarrow> version_le V R"
    using assms compareVersions_order [OF assms(2,1)] by (simp_all add: satisfies_range_def startsWith_def)
  show "satisfies_range (CHR ''>'' # r) V v \<longleftrightarrow> version_less R V"
    "satisfies_range (CHR ''<'' # r) V v \<longleftrightarrow> version_less V R"
    using assms compareVersions_order [OF assms(2,1)] ops r(1)
    by (simp_all add: satisfies_range_def startsWith_def)
  show "satisfies_range r V v \<longleftrightarrow> V = R"
    using assms compareVersions_order(5) [OF assms(2,1)] ops r(1)
    by (simp add: satisfies_range_def startsWith_def take_Suc_Cons)
qed

text \<open>Ranges without white space, separated by spaces.\<close>

fun spaced :: "string list \<Rightarrow> string" where
  "spaced [] = []"
| "spaced [p] = p"
| "spaced (p # q # ps) = p @ CHR '' '' # spaced (q # ps)"

definition ranges :: "string list \<Rightarrow> bool" where
  "ranges ps \<longleftrightarrow> ps \<noteq> [] \<and> (\<forall>p \<in> set ps. p \<noteq> [] \<and> (\<forall>c \<in> set p. \<not> is_space c))"

lemma trim_ends:
  assumes "s \<noteq> []" "\<not> is_space (hd s)" "\<not> is_space (last s)"
  shows "trim s = s"
proof -
  have "dropWhile is_space t = t" if "t \<noteq> []" "\<not> is_space (hd t)" for t
    using that by (cases t) auto
  from this [of s] this [of "rev s"] show ?thesis
    using assms by (simp add: trim_def hd_rev)
qed

lemma spaced_ends: "ranges ps \<Longrightarrow> spaced ps \<noteq> [] \<and> \<not> is_space (hd (spaced ps)) \<and> \<not> is_space (last (spaced ps))"
  by (induction ps rule: spaced.induct) (auto simp: ranges_def)

lemma split_spaced: "ranges ps \<Longrightarrow> split_spaces (spaced ps) = ps"
proof (induction ps rule: spaced.induct)
  case (2 p)
  then have "dropWhile (\<lambda>c. \<not> is_space c) p = []"
    by (auto simp: ranges_def dropWhile_eq_Nil_conv)
  then show ?case
    by (simp only: spaced.simps split_spaces.simps [of p] list.case)
next
  case (3 p q ps)
  then have r: "ranges (q # ps)" and p: "\<forall>c \<in> set p. \<not> is_space c"
    by (simp_all add: ranges_def)
  have "is_space (CHR '' '')"
    by (simp add: is_space_def)
  then have w: "dropWhile (\<lambda>c. \<not> is_space c) (p @ CHR '' '' # spaced (q # ps)) = CHR '' '' # spaced (q # ps)"
    "takeWhile (\<lambda>c. \<not> is_space c) (p @ CHR '' '' # spaced (q # ps)) = p"
    using p by (simp_all add: dropWhile_append2 takeWhile_append2)
  have "dropWhile is_space (spaced (q # ps)) = spaced (q # ps)"
    using spaced_ends [OF r] by (cases "spaced (q # ps)") auto
  then show ?case
    unfolding spaced.simps(3) split_spaces.simps [of "p @ CHR '' '' # spaced (q # ps)"] w using "3.IH" [OF r] by simp
qed (simp add: ranges_def)

lemma satisfies_spaced:
  assumes "ranges ps" "parseVersion v = Some V"
  shows "satisfiesVersion (spaced ps) v \<longleftrightarrow> (\<forall>p \<in> set ps. satisfiesVersion p v)"
proof (cases "\<exists>p. ps = [p]")
  case False
  then obtain p q qs where ps: "ps = p # q # qs"
    using assms(1) by (cases ps rule: spaced.cases) (auto simp: ranges_def)
  then have sp: "CHR '' '' \<in> set (spaced ps)"
    by simp
  moreover have "spaced ps \<noteq> ''*''"
    using sp by auto
  moreover have "trim (spaced ps) = spaced ps" "spaced ps \<noteq> []"
    using trim_ends spaced_ends [OF assms(1)] by blast+
  ultimately show ?thesis
    using assms(2) split_spaced [OF assms(1)] by (subst satisfiesVersion.simps) (simp add: list_all_iff)
qed auto

section \<open>Properties\<close>

text \<open>
  C34. Version ranges mean what they document. For a version \<open>r\<close> in a range and a checked version
  \<open>v\<close>, both parsing, with versions ordered lexicographically: \<open>^r\<close> accepts the versions from \<open>r\<close>
  up to the next major version, \<open>~r\<close> those up to the next minor version, the comparison operators
  accept the versions at least, at most, above and below \<open>r\<close>, \<open>r\<close> itself accepts only the same
  version, \<open>*\<close> accepts every version, and any number of ranges of any of these forms separated by spaces, as in
  \<open>>=2.0.0 <3.0.0\<close>, are intersected.
\<close>

theorem ranges_denote_intervals:
  assumes r: "\<forall>c \<in> set r. \<not> is_space c" "parseVersion r = Some R" and v: "parseVersion v = Some V"
  shows "(satisfiesVersion (''^'' @ r) v \<longleftrightarrow>
      version_le R V \<and> version_less V \<lparr>major = major R + 1, minor = 0, patch = 0\<rparr>) \<and>
    (satisfiesVersion (''~'' @ r) v \<longleftrightarrow>
      version_le R V \<and> version_less V \<lparr>major = major R, minor = minor R + 1, patch = 0\<rparr>) \<and>
    (satisfiesVersion (''>='' @ r) v \<longleftrightarrow> version_le R V) \<and>
    (satisfiesVersion (''<='' @ r) v \<longleftrightarrow> version_le V R) \<and>
    (satisfiesVersion (''>'' @ r) v \<longleftrightarrow> version_less R V) \<and>
    (satisfiesVersion (''<'' @ r) v \<longleftrightarrow> version_less V R) \<and>
    (satisfiesVersion r v \<longleftrightarrow> V = R) \<and> satisfiesVersion ''*'' v \<and>
    (\<forall>ps. ranges ps \<longrightarrow> (satisfiesVersion (spaced ps) v \<longleftrightarrow> (\<forall>p \<in> set ps. satisfiesVersion p v)))"
proof -
  obtain c rest where c: "r = c # rest" "is_digit c" using parseVersion_starts [OF r(2)] .
  then have "r \<noteq> ''*''" using digit_not_operator by auto
  moreover have "\<not> is_space (CHR ''^'')" "\<not> is_space (CHR ''~'')" "\<not> is_space (CHR ''>'')"
    "\<not> is_space (CHR ''<'')" "\<not> is_space (CHR ''='')" by (simp_all add: is_space_def)
  moreover have "satisfiesVersion ''*'' v" by (subst satisfiesVersion.simps) (simp add: trim_def is_space_def)
  ultimately show ?thesis
    using satisfies_formats [OF r(2) v] satisfies_spaced [OF _ v] r v c by (simp add: satisfies_plain)
qed

theorem ranges_denote_intervals_witness:
  "satisfiesVersion ''^3.1.0'' ''3.10.2'' \<and> satisfiesVersion ''>=2.0.0 <4.0.0'' ''3.10.2'' \<and> \<not> satisfiesVersion ''>=2.0.0 <3.0.0'' ''3.10.2''"
proof -
  let ?v = "\<lambda>a b c. \<lparr>major = a, minor = b, patch = c\<rparr>"
  have v: "parseVersion ''3.1.0'' = Some (?v 3 1 0)" "parseVersion ''3.10.2'' = Some (?v 3 10 2)" "parseVersion ''2.0.0'' = Some (?v 2 0 0)"
    "parseVersion ''4.0.0'' = Some (?v 4 0 0)" "parseVersion ''3.0.0'' = Some (?v 3 0 0)" by code_simp+
  have n: "\<forall>c \<in> set ''3.1.0''. \<not> is_space c" "\<forall>c \<in> set ''2.0.0''. \<not> is_space c" "\<forall>c \<in> set ''4.0.0''. \<not> is_space c"
    "\<forall>c \<in> set ''3.0.0''. \<not> is_space c" "ranges [''>='' @ ''2.0.0'', ''<'' @ ''4.0.0'']" "ranges [''>='' @ ''2.0.0'', ''<'' @ ''3.0.0'']" by code_simp+
  have o: "version_le (?v 3 1 0) (?v 3 10 2)" "version_less (?v 3 10 2) (?v 4 0 0)" "version_le (?v 2 0 0) (?v 3 10 2)"
    "\<not> version_less (?v 3 10 2) (?v 3 0 0)" by code_simp+
  note p = ranges_denote_intervals [OF n(1) v(1,2)] ranges_denote_intervals [OF n(2) v(3,2)]
    ranges_denote_intervals [OF n(3) v(4,2)] ranges_denote_intervals [OF n(4) v(5,2)]
  have parts: "satisfiesVersion (''^'' @ ''3.1.0'') ''3.10.2''" "satisfiesVersion (''>='' @ ''2.0.0'') ''3.10.2''"
    "satisfiesVersion (''<'' @ ''4.0.0'') ''3.10.2''" "\<not> satisfiesVersion (''<'' @ ''3.0.0'') ''3.10.2''"
  proof -
    have "major (?v 3 1 0) + 1 = 4" by simp
    then show "satisfiesVersion (''^'' @ ''3.1.0'') ''3.10.2''" using p(1) o(1,2) by metis
  qed (use p(2) o(3) in metis, use p(3) o(2) in metis, use p(4) o(4) in metis)
  have "satisfiesVersion (spaced [''>='' @ ''2.0.0'', ''<'' @ ''4.0.0'']) ''3.10.2'' \<longleftrightarrow>
      (\<forall>p \<in> set [''>='' @ ''2.0.0'', ''<'' @ ''4.0.0'']. satisfiesVersion p ''3.10.2'')"
    using p(1) n(5) by blast
  then have both: "satisfiesVersion (spaced [''>='' @ ''2.0.0'', ''<'' @ ''4.0.0'']) ''3.10.2''"
    using parts(2,3) unfolding list.set ball_simps by blast
  have "satisfiesVersion (spaced [''>='' @ ''2.0.0'', ''<'' @ ''3.0.0'']) ''3.10.2'' \<longleftrightarrow>
      (\<forall>p \<in> set [''>='' @ ''2.0.0'', ''<'' @ ''3.0.0'']. satisfiesVersion p ''3.10.2'')"
    using p(1) n(6) by blast
  then have "\<not> satisfiesVersion (spaced [''>='' @ ''2.0.0'', ''<'' @ ''3.0.0'']) ''3.10.2''"
    using parts(4) unfolding list.set ball_simps by blast
  then show ?thesis
    using parts(1) both by simp
qed

end
