(* ===== verification/DependencyGraph.thy ===== *)
theory DependencyGraph
  imports SemVer
begin

text \<open>
  Model of the class \<open>DependencyGraph\<close> in \<open>plugins/src/registry/dependency-graph.ts\<close>: plugins with
  their forward and reverse edges, the transitive queries, cycle detection, load order, removal order
  and depth levels. The recursive closures of the source become functions on the list of names a loop
  still has to visit, with the variables the closure captures as their state. They are proved to
  terminate: every call that is not a step of a loop visits a new key of the edge map.
\<close>

section \<open>Definitions\<close>

record plugin_dependency =
  pd_name :: string
  pd_version :: string
  pd_optional :: bool
  pd_peer :: bool

record dependency_node =
  dn_name :: string
  dn_version :: string
  dn_dependencies :: "plugin_dependency list"

datatype dependency_error =
    Missing string string string
  | VersionMismatch string string string string
  | Circular "string list"

type_synonym edges = "(string, string jsset) jsmap"

record dep_graph =
  dg_nodes :: "(string, dependency_node) jsmap"
  dg_dependencies :: edges
  dg_dependents :: edges

definition new_graph :: dep_graph where
  "new_graph = \<lparr>dg_nodes = [], dg_dependencies = [], dg_dependents = []\<rparr>"

definition succs :: "edges \<Rightarrow> string \<Rightarrow> string list" where
  "succs E n = nullish (jget E n) []"

text \<open>\<open>if (!m.has(name)) m.set(name, new Set())\<close>, and \<open>m.get(name)?.delete(x)\<close>.\<close>

definition ensure_set :: "string \<Rightarrow> edges \<Rightarrow> edges" where
  "ensure_set name E = (if jget E name = None then jset name [] E else E)"

definition add_edge :: "string \<Rightarrow> string \<Rightarrow> edges \<Rightarrow> edges" where
  "add_edge a b E = jset a (sadd b (succs E a)) E"

definition drop_edge :: "string \<Rightarrow> string \<Rightarrow> edges \<Rightarrow> edges" where
  "drop_edge a b E = (case jget E a of None \<Rightarrow> E | Some s \<Rightarrow> jset a (sdel b s) E)"

definition addPlugin :: "string \<Rightarrow> string \<Rightarrow> plugin_dependency list \<Rightarrow> dep_graph \<Rightarrow> dep_graph" where
  "addPlugin name version deps g =
     (let g1 = g\<lparr>dg_nodes := jset name \<lparr>dn_name = name, dn_version = version, dn_dependencies = deps\<rparr> (dg_nodes g),
                 dg_dependencies := ensure_set name (dg_dependencies g),
                 dg_dependents := ensure_set name (dg_dependents g)\<rparr>
      in fold (\<lambda>dep g. g\<lparr>dg_dependencies := add_edge name (pd_name dep) (dg_dependencies g),
                         dg_dependents := add_edge (pd_name dep) name
                           (ensure_set (pd_name dep) (dg_dependents g))\<rparr>) deps g1)"

definition removePlugin :: "string \<Rightarrow> dep_graph \<Rightarrow> dep_graph" where
  "removePlugin name g =
     (if jget (dg_nodes g) name = None then g
      else
        let dependents1 = fold (\<lambda>dep. drop_edge dep name) (succs (dg_dependencies g) name) (dg_dependents g);
            dependencies1 = jdel name (dg_dependencies g);
            dependencies2 = fold (\<lambda>depender. drop_edge depender name) (succs dependents1 name) dependencies1
        in g\<lparr>dg_dependencies := dependencies2, dg_dependents := jdel name dependents1,
             dg_nodes := jdel name (dg_nodes g)\<rparr>)"

definition hasPlugin :: "string \<Rightarrow> dep_graph \<Rightarrow> bool" where
  "hasPlugin name g \<longleftrightarrow> jget (dg_nodes g) name \<noteq> None"

definition getVersion :: "string \<Rightarrow> dep_graph \<Rightarrow> string option" where
  "getVersion name g = map_option dn_version (jget (dg_nodes g) name)"

definition getDependencies :: "string \<Rightarrow> dep_graph \<Rightarrow> string list" where
  "getDependencies name g = succs (dg_dependencies g) name"

definition getDependents :: "string \<Rightarrow> dep_graph \<Rightarrow> string list" where
  "getDependents name g = succs (dg_dependents g) name"

text \<open>
  The loop over \<open>deps\<close> in \<open>visit\<close> of \<open>getAllDependencies\<close> and \<open>getAllDependents\<close>; the state is
  the pair of \<open>visited\<close> and \<open>result\<close>.
\<close>

function visit_reach :: "edges \<Rightarrow> string list \<Rightarrow> string list \<times> string list \<Rightarrow> string list \<times> string list" where
  "visit_reach E [] s = s"
| "visit_reach E (dep # deps) (visited, result) =
     (let (visited1, result1) =
            (if dep \<in> set visited then (visited, result) else visit_reach E (succs E dep) (visited @ [dep], result))
      in visit_reach E deps (visited1, sadd dep result1))"
  by pat_completeness auto

text \<open>
  The calls of \<open>visit\<close> for a list of names in \<open>getLoadOrder\<close> and \<open>getRemovalOrder\<close>; only names
  that satisfy \<open>ok\<close> are visited from a node. The state is the pair of \<open>visited\<close> and the order.
\<close>

function visit_post ::
    "(string \<Rightarrow> bool) \<Rightarrow> edges \<Rightarrow> string list \<Rightarrow> string list \<times> string list \<Rightarrow> string list \<times> string list" where
  "visit_post ok E [] s = s"
| "visit_post ok E (name # names) (visited, order) =
     (if name \<in> set visited then visit_post ok E names (visited, order)
      else
        let (visited1, order1) = visit_post ok E (filter ok (succs E name)) (visited @ [name], order)
        in visit_post ok E names (visited1, order1 @ [name]))"
  by pat_completeness auto

text \<open>
  The loop over \<open>deps\<close> in \<open>dfs\<close> of \<open>detectCircular\<close>. The recursion stack and the path change
  together; they are restored when \<open>dfs\<close> returns, so that they are arguments here.
\<close>

definition path_slice :: "string \<Rightarrow> string list \<Rightarrow> string list" where
  "path_slice x path = dropWhile (\<lambda>y. y \<noteq> x) path"

function visit_cycles ::
    "edges \<Rightarrow> string list \<Rightarrow> string list \<Rightarrow> string list \<Rightarrow> string list \<times> string list list \<Rightarrow> string list \<times> string list list" where
  "visit_cycles E stack path [] s = s"
| "visit_cycles E stack path (dep # deps) (visited, cycles) =
     (if dep \<notin> set visited
      then visit_cycles E stack path deps
             (visit_cycles E (sadd dep stack) (path @ [dep]) (succs E dep) (visited @ [dep], cycles))
      else if dep \<in> set stack
      then visit_cycles E stack path deps (visited, cycles @ [path_slice dep path @ [dep]])
      else visit_cycles E stack path deps (visited, cycles))"
  by pat_completeness auto

subsection \<open>Termination\<close>

text \<open>The keys of the edge map that are not visited yet.\<close>

definition fresh :: "edges \<Rightarrow> string list \<Rightarrow> string set" where
  "fresh E visited = set (jkeys E) - set visited"

lemma fresh_step: "n \<notin> set visited \<Longrightarrow> n \<in> set (jkeys E) \<Longrightarrow> card (fresh E (visited @ [n])) < card (fresh E visited)"
  by (rule psubset_card_mono) (auto simp: fresh_def)

lemma fresh_mono: "set visited \<subseteq> set visited' \<Longrightarrow> card (fresh E visited') \<le> card (fresh E visited)"
  by (rule card_mono) (auto simp: fresh_def)

lemma fresh_snoc: "card (fresh E (visited @ [n])) \<le> card (fresh E visited)"
  by (rule fresh_mono) auto

lemma succs_key: "succs E n \<noteq> [] \<Longrightarrow> n \<in> set (jkeys E)"
  by (metis succs_def jget_jkeys nullish_simps(1))

lemma visit_reach_visited:
  "visit_reach_dom (E, deps, s) \<Longrightarrow> set (fst s) \<subseteq> set (fst (visit_reach E deps s))"
  by (induction E deps s rule: visit_reach.pinduct)
    (auto simp: visit_reach.psimps Let_def split: prod.split, fastforce+)

lemma visit_post_visited:
  "visit_post_dom (ok, E, names, s) \<Longrightarrow> set (fst s) \<subseteq> set (fst (visit_post ok E names s))"
  by (induction ok E names s rule: visit_post.pinduct)
    (auto simp: visit_post.psimps Let_def split: prod.split, fastforce+)

lemma visit_cycles_visited:
  "visit_cycles_dom (E, stack, path, deps, s) \<Longrightarrow> set (fst s) \<subseteq> set (fst (visit_cycles E stack path deps s))"
  by (induction E stack path deps s rule: visit_cycles.pinduct)
    (auto simp: visit_cycles.psimps)

termination visit_reach
proof (relation "measures [\<lambda>(E, deps, s). card (fresh E (fst s)), \<lambda>(E, deps, s). length deps]")
  fix E and dep :: string and deps visited and result :: "string list"
  assume "dep \<notin> set visited"
  then show "((E, succs E dep, visited @ [dep], result), E, dep # deps, visited, result)
      \<in> measures [\<lambda>(E, deps, s). card (fresh E (fst s)), \<lambda>(E, deps, s). length deps]"
    using fresh_step [of dep visited E] fresh_snoc [of E visited dep] succs_key [of E dep]
    by (cases "succs E dep = []") auto
next
  fix E and dep :: string and deps visited and result :: "string list" and x visited1 result1
  assume x: "x = (if dep \<in> set visited then (visited, result) else visit_reach E (succs E dep) (visited @ [dep], result))"
    "(visited1, result1) = x"
    and dom: "dep \<notin> set visited \<Longrightarrow> visit_reach_dom (E, succs E dep, visited @ [dep], result)"
  have "set visited \<subseteq> set visited1"
    using x visit_reach_visited [OF dom] by (auto split: if_splits) (metis fst_conv in_mono)
  then show "((E, deps, visited1, sadd dep result1), E, dep # deps, visited, result)
      \<in> measures [\<lambda>(E, deps, s). card (fresh E (fst s)), \<lambda>(E, deps, s). length deps]"
    using fresh_mono [of visited visited1 E] by auto
qed simp

termination visit_post
proof (relation "measures [\<lambda>(ok, E, names, s). card (fresh E (fst s)), \<lambda>(ok, E, names, s). length names]")
  fix ok E and name :: string and names visited and order :: "string list"
  assume "name \<notin> set visited"
  then show "((ok, E, filter ok (succs E name), visited @ [name], order), ok, E, name # names, visited, order)
      \<in> measures [\<lambda>(ok, E, names, s). card (fresh E (fst s)), \<lambda>(ok, E, names, s). length names]"
    using fresh_step [of name visited E] fresh_snoc [of E visited name] succs_key [of E name]
    by (cases "succs E name = []") auto
next
  fix ok E and name :: string and names visited and order :: "string list" and x visited1 order1
  assume "name \<notin> set visited" and x: "x = visit_post ok E (filter ok (succs E name)) (visited @ [name], order)"
    "(visited1, order1) = x" and dom: "visit_post_dom (ok, E, filter ok (succs E name), visited @ [name], order)"
  have "set visited \<subseteq> set visited1"
    using x visit_post_visited [OF dom] by (metis fst_conv le_supE set_append)
  then show "((ok, E, names, visited1, order1 @ [name]), ok, E, name # names, visited, order)
      \<in> measures [\<lambda>(ok, E, names, s). card (fresh E (fst s)), \<lambda>(ok, E, names, s). length names]"
    using fresh_mono [of visited visited1 E] by auto
qed auto

termination visit_cycles
proof (relation "measures [\<lambda>(E, stack, path, deps, s). card (fresh E (fst s)), \<lambda>(E, stack, path, deps, s). length deps]")
  fix E stack path and dep :: string and deps visited and cycles :: "string list list"
  assume "dep \<notin> set visited"
  then show "((E, sadd dep stack, path @ [dep], succs E dep, visited @ [dep], cycles), E, stack, path, dep # deps, visited, cycles)
      \<in> measures [\<lambda>(E, stack, path, deps, s). card (fresh E (fst s)), \<lambda>(E, stack, path, deps, s). length deps]"
    using fresh_step [of dep visited E] fresh_snoc [of E visited dep] succs_key [of E dep]
    by (cases "succs E dep = []") auto
next
  fix E stack path and dep :: string and deps visited and cycles :: "string list list"
  assume "visit_cycles_dom (E, sadd dep stack, path @ [dep], succs E dep, visited @ [dep], cycles)"
  from visit_cycles_visited [OF this]
  have "card (fresh E (fst (visit_cycles E (sadd dep stack) (path @ [dep]) (succs E dep) (visited @ [dep], cycles))))
      \<le> card (fresh E visited)" by (intro fresh_mono) auto
  then show "((E, stack, path, deps, visit_cycles E (sadd dep stack) (path @ [dep]) (succs E dep) (visited @ [dep], cycles)),
      E, stack, path, dep # deps, visited, cycles)
      \<in> measures [\<lambda>(E, stack, path, deps, s). card (fresh E (fst s)), \<lambda>(E, stack, path, deps, s). length deps]"
    by auto
qed auto

subsection \<open>Queries\<close>

definition getAllDependencies :: "string \<Rightarrow> dep_graph \<Rightarrow> string list" where
  "getAllDependencies name g =
     snd (visit_reach (dg_dependencies g) (succs (dg_dependencies g) name) ([name], []))"

definition getAllDependents :: "string \<Rightarrow> dep_graph \<Rightarrow> string list" where
  "getAllDependents name g =
     snd (visit_reach (dg_dependents g) (succs (dg_dependents g) name) ([name], []))"

definition canSafelyRemove :: "string \<Rightarrow> dep_graph \<Rightarrow> bool" where
  "canSafelyRemove name g \<longleftrightarrow> length (getDependents name g) = 0"

definition getRemovalOrder :: "string \<Rightarrow> dep_graph \<Rightarrow> string list" where
  "getRemovalOrder name g =
     (let allDependents = getAllDependents name g
      in snd (visit_post (\<lambda>dep. dep \<in> set allDependents) (dg_dependents g) [name] ([], [])))"

text \<open>The outer loop starts \<open>dfs\<close> on names that are not visited, with an empty stack and path.\<close>

definition detectCircular :: "dep_graph \<Rightarrow> string list list" where
  "detectCircular g = snd (visit_cycles (dg_dependencies g) [] [] (jkeys (dg_nodes g)) ([], []))"

definition check_dependency :: "dep_graph \<Rightarrow> string \<Rightarrow> plugin_dependency \<Rightarrow> dependency_error list" where
  "check_dependency g name dep =
     (case jget (dg_nodes g) (pd_name dep) of
        None \<Rightarrow> if pd_optional dep then [] else [Missing name (pd_name dep) (pd_version dep)]
      | Some depNode \<Rightarrow>
          if satisfiesVersion (pd_version dep) (dn_version depNode) then []
          else [VersionMismatch name (pd_name dep) (pd_version dep) (dn_version depNode)])"

definition validate :: "dep_graph \<Rightarrow> dependency_error list" where
  "validate g =
     concat (map (\<lambda>(name, node). concat (map (check_dependency g name) (dn_dependencies node))) (dg_nodes g))
     @ map Circular (detectCircular g)"

definition getLoadOrder :: "dep_graph \<Rightarrow> string list" where
  "getLoadOrder g =
     snd (visit_post (\<lambda>dep. jget (dg_nodes g) dep \<noteq> None) (dg_dependencies g) (jkeys (dg_nodes g)) ([], []))"

text \<open>The depth of a name: one more than the deepest of its dependencies whose depth is known.\<close>

definition deeper :: "(string, nat) jsmap \<Rightarrow> string \<Rightarrow> int \<Rightarrow> int" where
  "deeper depths dep maxDepth =
     (case jget depths dep of
        None \<Rightarrow> maxDepth
      | Some depDepth \<Rightarrow> if int depDepth > maxDepth then int depDepth else maxDepth)"

definition depth_step :: "dep_graph \<Rightarrow> string \<Rightarrow> (string, nat) jsmap \<Rightarrow> (string, nat) jsmap" where
  "depth_step g name depths =
     (let maxDepth = fold (deeper depths) (succs (dg_dependencies g) name) (- 1)
      in jset name (nat (maxDepth + 1)) depths)"

definition place :: "string \<times> nat \<Rightarrow> string list list \<Rightarrow> string list list" where
  "place = (\<lambda>(name, depth) levels.
     (let levels1 = levels @ replicate (Suc depth - length levels) []
      in levels1[depth := levels1 ! depth @ [name]]))"

definition getDepthLevels :: "dep_graph \<Rightarrow> string list list" where
  "getDepthLevels g = fold place (fold (depth_step g) (getLoadOrder g) []) []"

definition getPluginNames :: "dep_graph \<Rightarrow> string list" where
  "getPluginNames g = jkeys (dg_nodes g)"

definition dg_size :: "dep_graph \<Rightarrow> nat" where
  "dg_size g = length (dg_nodes g)"

definition dg_clear :: "dep_graph \<Rightarrow> dep_graph" where
  "dg_clear g = g\<lparr>dg_nodes := [], dg_dependencies := [], dg_dependents := []\<rparr>"

section \<open>Reachability\<close>

definition edge_rel :: "(string \<Rightarrow> bool) \<Rightarrow> edges \<Rightarrow> (string \<times> string) set" where
  "edge_rel ok E = {(a, b). b \<in> set (succs E a) \<and> ok b}"

abbreviation all_edges :: "edges \<Rightarrow> (string \<times> string) set" where
  "all_edges \<equiv> edge_rel (\<lambda>_. True)"

lemma visit_reach_props:
  assumes "visit_reach E deps (visited, result) = (visited', result')"
  shows "set visited \<union> set deps \<subseteq> set visited' \<and> set result \<union> set deps \<subseteq> set result' \<and>
    set result' \<subseteq> set result \<union> set visited' \<and>
    set result' \<subseteq> set result \<union> (all_edges E)\<^sup>* `` set deps \<and>
    (\<forall>v \<in> set visited' - set visited. set (succs E v) \<subseteq> set result')"
  using assms
proof (induction E deps "(visited, result)" arbitrary: visited result visited' result' rule: visit_reach.induct)
  case (1 E)
  then show ?case by auto
next
  case (2 E dep deps visited result)
  show ?case
  proof (cases "dep \<in> set visited")
    case True
    then have "visit_reach E deps (visited, sadd dep result) = (visited', result')" using "2.prems" by simp
    from "2.hyps"(2) [OF _ _ this] True
    have IH: "set visited \<union> set deps \<subseteq> set visited'" "insert dep (set result) \<union> set deps \<subseteq> set result'"
      "set result' \<subseteq> insert dep (set result) \<union> set visited'"
      "set result' \<subseteq> insert dep (set result) \<union> (all_edges E)\<^sup>* `` set deps"
      "\<forall>v \<in> set visited' - set visited. set (succs E v) \<subseteq> set result'" by auto
    have "insert dep ((all_edges E)\<^sup>* `` set deps) \<subseteq> (all_edges E)\<^sup>* `` set (dep # deps)" by auto
    then show ?thesis using IH True by auto
  next
    case False
    obtain v1 r1 where v1: "visit_reach E (succs E dep) (visited @ [dep], result) = (v1, r1)" by fastforce
    then have next_: "visit_reach E deps (v1, sadd dep r1) = (visited', result')" using False "2.prems" by simp
    note IH1 = "2.hyps"(1) [OF False v1] and IH2 = "2.hyps"(2) [OF _ _ next_]
    have sub: "(all_edges E)\<^sup>* `` set (succs E dep) \<subseteq> (all_edges E)\<^sup>* `` {dep}"
      by (auto simp: edge_rel_def intro: converse_rtrancl_into_rtrancl)
    have IH2': "set v1 \<union> set deps \<subseteq> set visited'" "insert dep (set r1) \<union> set deps \<subseteq> set result'"
      "set result' \<subseteq> insert dep (set r1) \<union> set visited'"
      "set result' \<subseteq> insert dep (set r1) \<union> (all_edges E)\<^sup>* `` set deps"
      "\<forall>v \<in> set visited' - set v1. set (succs E v) \<subseteq> set result'"
      using IH2 v1 False by auto
    have r1: "set (succs E v) \<subseteq> set r1" if "v \<in> set v1 - set visited" for v
      using that IH1 by (cases "v = dep") auto
    have "set (succs E v) \<subseteq> set result'" if "v \<in> set visited' - set visited" for v
    proof (cases "v \<in> set v1")
      case True
      then show ?thesis using r1 [of v] that IH2'(2) by blast
    qed (use that IH2'(5) in blast)
    moreover have im: "insert dep ((all_edges E)\<^sup>* `` set (succs E dep) \<union> (all_edges E)\<^sup>* `` set deps)
        \<subseteq> (all_edges E)\<^sup>* `` set (dep # deps)" using sub by auto
    have r1_reach: "set r1 \<subseteq> set result \<union> (all_edges E)\<^sup>* `` set (succs E dep)" using IH1 by simp
    have "set result' \<subseteq> set result \<union> (all_edges E)\<^sup>* `` set (dep # deps)" using r1_reach IH2'(4) im by blast
    moreover have "set r1 \<subseteq> set result \<union> set v1" "dep \<in> set v1" using IH1 by auto
    then have "set result' \<subseteq> set result \<union> set visited'" using IH2'(1,3) by blast
    ultimately show ?thesis using IH1 IH2'(1,2) by auto
  qed
qed

lemma reach_exact:
  "set (snd (visit_reach E (succs E name) ([name], []))) = {b. (name, b) \<in> (all_edges E)\<^sup>+}"
proof -
  obtain v r where vr: "visit_reach E (succs E name) ([name], []) = (v, r)" by fastforce
  note p = visit_reach_props [OF vr]
  have closed: "set (succs E y) \<subseteq> set r" if "y = name \<or> y \<in> set r" for y
    using p that by (cases "y = name") auto
  have "b \<in> set r" if "(name, b) \<in> (all_edges E)\<^sup>+" for b
    using that by (induction rule: trancl_induct) (use closed in \<open>auto simp: edge_rel_def\<close>)
  moreover have "(name, b) \<in> (all_edges E)\<^sup>+" if b: "b \<in> set r" for b
  proof -
    obtain d where "d \<in> set (succs E name)" "(d, b) \<in> (all_edges E)\<^sup>*" using p b by auto
    then show ?thesis by (auto simp: edge_rel_def intro: rtrancl_into_trancl2)
  qed
  ultimately show ?thesis using vr by auto
qed

section \<open>Post-order visits\<close>

text \<open>In a topological order every node comes after the nodes it points to.\<close>

definition topo :: "(string \<Rightarrow> bool) \<Rightarrow> edges \<Rightarrow> string list \<Rightarrow> bool" where
  "topo ok E ord \<longleftrightarrow> (\<forall>xs a ys. ord = xs @ a # ys \<longrightarrow> (\<forall>b \<in> set (succs E a). ok b \<longrightarrow> b \<in> set xs))"

lemma topo_snoc: "topo ok E (ord @ [n]) \<longleftrightarrow> topo ok E ord \<and> (\<forall>b \<in> set (succs E n). ok b \<longrightarrow> b \<in> set ord)"
proof -
  have "ord @ [n] = xs @ a # ys \<longleftrightarrow> (ys = [] \<and> xs = ord \<and> a = n) \<or> (\<exists>zs. ys = zs @ [n] \<and> ord = xs @ a # zs)" for xs a ys
    by (cases ys rule: rev_cases) auto
  then show ?thesis by (auto simp: topo_def)
qed

lemma topo_Nil [simp]: "topo ok E []"
  by (simp add: topo_def)

text \<open>The nodes that are visited but not yet in the order are on the recursion stack.\<close>

lemma visit_post_topo:
  assumes "visit_post ok E names (visited, order) = (visited', order')"
    and "acyclic (edge_rel ok E)"
    and "set order \<subseteq> set visited" "distinct order" "topo ok E order"
    and "\<forall>o1 \<in> set visited - set order. \<forall>n \<in> set names. (o1, n) \<in> (edge_rel ok E)\<^sup>+"
  shows "topo ok E order' \<and> distinct order' \<and> set order' \<subseteq> set visited' \<and> set order \<subseteq> set order' \<and>
    set visited' - set order' = set visited - set order \<and> set visited \<union> set names \<subseteq> set visited' \<and>
    set visited' \<subseteq> set visited \<union> (edge_rel ok E)\<^sup>* `` set names"
  using assms
proof (induction ok E names "(visited, order)" arbitrary: visited order visited' order' rule: visit_post.induct)
  case (1 ok E)
  then show ?case by auto
next
  case (2 ok E name names visited order)
  let ?R = "edge_rel ok E"
  show ?case
  proof (cases "name \<in> set visited")
    case True
    then have "visit_post ok E names (visited, order) = (visited', order')" using "2.prems"(1) by simp
    from "2.hyps"(1) [OF True this] "2.prems" True
    have IH: "topo ok E order'" "distinct order'" "set order' \<subseteq> set visited'" "set order \<subseteq> set order'"
      "set visited' - set order' = set visited - set order" "set visited \<union> set names \<subseteq> set visited'"
      "set visited' \<subseteq> set visited \<union> ?R\<^sup>* `` set names" by auto
    then show ?thesis using True by auto
  next
    case False
    obtain v1 o1 where v1: "visit_post ok E (filter ok (succs E name)) (visited @ [name], order) = (v1, o1)" by fastforce
    then have rest: "visit_post ok E names (v1, o1 @ [name]) = (visited', order')" using False "2.prems"(1) by simp
    have on_stack: "(x, n) \<in> ?R\<^sup>+" if "x \<in> set (visited @ [name]) - set order" "n \<in> set (filter ok (succs E name))" for x n
    proof -
      have "(name, n) \<in> ?R" using that(2) by (simp add: edge_rel_def)
      then show ?thesis using that(1) "2.prems"(6) by (cases "x = name") (auto intro: trancl_into_trancl)
    qed
    have sub: "set order \<subseteq> set (visited @ [name])" using "2.prems"(3) by auto
    have "\<forall>x \<in> set (visited @ [name]) - set order. \<forall>n \<in> set (filter ok (succs E name)). (x, n) \<in> ?R\<^sup>+"
      using on_stack by blast
    note IH1 = "2.hyps"(2) [OF False v1 "2.prems"(2) sub "2.prems"(4,5) this]
    have I1: "topo ok E o1" "distinct o1" "set o1 \<subseteq> set v1" "set order \<subseteq> set o1"
      "set v1 - set o1 = insert name (set visited) - set order" "insert name (set visited) \<subseteq> set v1"
      "set (filter ok (succs E name)) \<subseteq> set v1"
      "set v1 \<subseteq> insert name (set visited) \<union> ?R\<^sup>* `` set (filter ok (succs E name))"
      using IH1 by auto
    have acyc: "acyclic ?R" by (rule "2.prems"(2))
    then have no_loop: "(name, name) \<notin> ?R\<^sup>+" by (simp add: acyclic_def)
    have name: "name \<notin> set o1" using I1(5) False "2.prems"(3) by auto
    have finished: "b \<in> set o1" if "b \<in> set (succs E name)" "ok b" for b
    proof (rule ccontr)
      assume "b \<notin> set o1"
      then have "b \<in> set (visited @ [name]) - set order" using that I1(5,7) by auto
      moreover have "(name, b) \<in> ?R" using that by (simp add: edge_rel_def)
      ultimately show False using no_loop on_stack [of b b] that acyc by (auto simp: acyclic_def)
    qed
    have stack: "set v1 - set (o1 @ [name]) = set visited - set order" using I1(5) False name by auto
    have I2: "topo ok E order'" "distinct order'" "set order' \<subseteq> set visited'" "set (o1 @ [name]) \<subseteq> set order'"
      "set visited' - set order' = set v1 - set (o1 @ [name])" "set v1 \<union> set names \<subseteq> set visited'"
      "set visited' \<subseteq> set v1 \<union> ?R\<^sup>* `` set names"
      using "2.hyps"(3) [OF False v1 [symmetric] refl rest acyc] I1 name finished stack "2.prems"(6)
      by (auto simp: topo_snoc)
    have "?R\<^sup>* `` set (filter ok (succs E name)) \<subseteq> ?R\<^sup>* `` {name}"
      by (auto simp: edge_rel_def intro: converse_rtrancl_into_rtrancl)
    then have "insert name (?R\<^sup>* `` set (filter ok (succs E name)) \<union> ?R\<^sup>* `` set names) \<subseteq> ?R\<^sup>* `` set (name # names)"
      by auto
    then have "set visited' \<subseteq> set visited \<union> ?R\<^sup>* `` set (name # names)" using I1(8) I2(7) by blast
    then show ?thesis using I1 I2 stack by auto
  qed
qed

section \<open>Cycle detection\<close>

definition is_cycle :: "edges \<Rightarrow> string list \<Rightarrow> bool" where
  "is_cycle E c \<longleftrightarrow> length c \<ge> 2 \<and> hd c = last c \<and> successively (\<lambda>a b. b \<in> set (succs E a)) c"

lemma path_slice_split: "x \<in> set path \<Longrightarrow> \<exists>us vs. path = us @ x # vs \<and> path_slice x path = x # vs"
proof (induction path)
  case (Cons y path)
  then show ?case
  proof (cases "y = x")
    case True
    then show ?thesis by (intro exI [of _ "[]"] exI [of _ path]) (simp add: path_slice_def)
  next
    case False
    then obtain us vs where "path = us @ x # vs" "path_slice x path = x # vs" using Cons by auto
    then show ?thesis using False by (intro exI [of _ "y # us"] exI [of _ vs]) (simp add: path_slice_def)
  qed
qed simp

lemma slice_is_cycle:
  assumes "successively (\<lambda>a b. b \<in> set (succs E a)) path" "x \<in> set path" "x \<in> set (succs E (last path))"
  shows "is_cycle E (path_slice x path @ [x])"
proof -
  obtain us vs where p: "path = us @ x # vs" "path_slice x path = x # vs" using path_slice_split [OF assms(2)] by blast
  have "successively (\<lambda>a b. b \<in> set (succs E a)) (x # vs)"
    using assms(1) p(1) by (simp add: successively_append_iff)
  then have "successively (\<lambda>a b. b \<in> set (succs E a)) ((x # vs) @ [x])"
    unfolding successively_append_iff using assms(3) p(1) by simp
  then show ?thesis using p(2) by (simp add: is_cycle_def)
qed

text \<open>Every cycle that is found is one: the path is a chain and the loop runs over its last node.\<close>

lemma visit_cycles_sound:
  assumes "set stack = set path" "successively (\<lambda>a b. b \<in> set (succs E a)) path"
    "path \<noteq> [] \<longrightarrow> set deps \<subseteq> set (succs E (last path))"
  shows "\<forall>c \<in> set (snd (visit_cycles E stack path deps s)) - set (snd s). is_cycle E c"
  using assms
proof (induction E stack path deps s rule: visit_cycles.induct)
  case (1 E stack path s)
  then show ?case by simp
next
  case (2 E stack path dep deps visited cycles)
  consider "dep \<notin> set visited" | "dep \<in> set visited" "dep \<in> set stack" | "dep \<in> set visited" "dep \<notin> set stack" by blast
  then show ?case
  proof cases
    case 1
    let ?s1 = "visit_cycles E (sadd dep stack) (path @ [dep]) (succs E dep) (visited @ [dep], cycles)"
    have "set (sadd dep stack) = set (path @ [dep])" using "2.prems"(1) by simp
    moreover have "successively (\<lambda>a b. b \<in> set (succs E a)) (path @ [dep])"
      unfolding successively_append_iff using "2.prems"(2,3) by auto
    ultimately have "\<forall>c \<in> set (snd ?s1) - set (snd (visited @ [dep], cycles)). is_cycle E c"
      by (intro "2.IH"(1) [OF 1]) simp_all
    moreover have "\<forall>c \<in> set (snd (visit_cycles E stack path deps ?s1)) - set (snd ?s1). is_cycle E c"
      using "2.prems" by (intro "2.IH"(2) [OF 1]) simp_all
    ultimately have "\<forall>c \<in> set (snd (visit_cycles E stack path deps ?s1)) - set cycles. is_cycle E c"
      by (metis DiffD1 DiffD2 DiffI snd_conv)
    then show ?thesis using 1 by simp
  next
    case 2
    have dp: "dep \<in> set path" using 2(2) "2.prems"(1) by simp
    then have "path \<noteq> []" by auto
    then have "dep \<in> set (succs E (last path))" using "2.prems"(3) by simp
    then have "is_cycle E (path_slice dep path @ [dep])" by (rule slice_is_cycle [OF "2.prems"(2) dp])
    then show ?thesis using "2.IH"(3) 2 "2.prems" by auto
  next
    case 3
    then show ?thesis using "2.IH"(4) "2.prems" by auto
  qed
qed

lemma visit_cycles_grows: "\<exists>new. snd (visit_cycles E stack path deps s) = snd s @ new"
proof (induction E stack path deps s rule: visit_cycles.induct)
  case (2 E stack path dep deps visited cycles)
  consider "dep \<notin> set visited" | "dep \<in> set visited" "dep \<in> set stack" | "dep \<in> set visited" "dep \<notin> set stack" by blast
  then show ?case
  proof cases
    case 1
    obtain n1 n2 where "snd (visit_cycles E (sadd dep stack) (path @ [dep]) (succs E dep) (visited @ [dep], cycles)) = cycles @ n1"
      "snd (visit_cycles E stack path deps (visit_cycles E (sadd dep stack) (path @ [dep]) (succs E dep) (visited @ [dep], cycles))) =
       (cycles @ n1) @ n2" using "2.IH"(1,2) [OF 1] by (metis snd_conv)
    then show ?thesis using 1 by simp
  qed (use "2.IH"(3,4) in auto)
qed simp

text \<open>
  When no cycle is found, the finished nodes (visited and not on the path) are closed under edges and
  lie on no cycle.
\<close>

definition settled :: "edges \<Rightarrow> string set \<Rightarrow> bool" where
  "settled E F \<longleftrightarrow> (\<forall>x \<in> F. set (succs E x) \<subseteq> F \<and> (x, x) \<notin> (all_edges E)\<^sup>+)"

lemma settled_reach: "settled E F \<Longrightarrow> x \<in> F \<Longrightarrow> (x, y) \<in> (all_edges E)\<^sup>* \<Longrightarrow> y \<in> F"
  by (rotate_tac 2, induction rule: rtrancl_induct) (auto simp: settled_def edge_rel_def)

lemma settled_insert:
  assumes "settled E F" "set (succs E n) \<subseteq> F" "n \<notin> F"
  shows "settled E (insert n F)"
proof -
  have "(n, n) \<notin> (all_edges E)\<^sup>+"
  proof
    assume "(n, n) \<in> (all_edges E)\<^sup>+"
    then obtain b where "(n, b) \<in> all_edges E" "(b, n) \<in> (all_edges E)\<^sup>*" by (auto dest: tranclD)
    then show False using settled_reach [OF assms(1)] assms(2,3) by (auto simp: edge_rel_def)
  qed
  then show ?thesis using assms by (auto simp: settled_def)
qed

lemma visit_cycles_complete:
  assumes "visit_cycles E stack path deps (visited, []) = (visited', [])"
    and "set stack = set path" "set path \<subseteq> set visited" "settled E (set visited - set path)"
  shows "settled E (set visited' - set path) \<and> set visited \<union> set deps \<subseteq> set visited' \<and>
    (\<forall>d \<in> set deps. d \<notin> set path)"
  using assms
proof (induction E stack path deps "(visited, [] :: string list list)" arbitrary: visited visited' rule: visit_cycles.induct)
  case (1 E stack path)
  then show ?case by auto
next
  case (2 E stack path dep deps visited)
  consider (new) "dep \<notin> set visited" | (loop) "dep \<in> set visited" "dep \<in> set stack" | (old) "dep \<in> set visited" "dep \<notin> set stack" by blast
  then show ?case
  proof cases
    case new
    obtain v1 c1 where s1: "visit_cycles E (sadd dep stack) (path @ [dep]) (succs E dep) (visited @ [dep], []) = (v1, c1)" by fastforce
    then have rest: "visit_cycles E stack path deps (v1, c1) = (visited', [])" using "2.prems"(1) new by simp
    have c1: "c1 = []" using visit_cycles_grows [of E stack path deps "(v1, c1)"] rest by auto
    have dp: "dep \<notin> set path" using new "2.prems"(3) by auto
    have "set (visited @ [dep]) - set (path @ [dep]) = set visited - set path" using new by auto
    then have I1: "settled E (set v1 - set (path @ [dep]))" "set (visited @ [dep]) \<union> set (succs E dep) \<subseteq> set v1"
      "\<forall>d \<in> set (succs E dep). d \<notin> set (path @ [dep])"
      using "2.hyps"(1) [OF new s1 [unfolded c1]] "2.prems"(2-4) by auto
    have "set v1 - set path = insert dep (set v1 - set (path @ [dep]))" using I1(2) dp by auto
    moreover have "settled E (insert dep (set v1 - set (path @ [dep])))"
      by (rule settled_insert [OF I1(1)]) (use I1(2,3) in auto)
    ultimately have st: "settled E (set v1 - set path)" by simp
    have "set path \<subseteq> set v1" using "2.prems"(3) I1(2) by auto
    from "2.hyps"(2) [OF new s1 [unfolded c1] rest [unfolded c1] "2.prems"(2) this st]
    show ?thesis using I1(2) dp by auto
  next
    case loop
    then show ?thesis
      using "2.prems"(1) visit_cycles_grows [of E stack path deps "(visited, [path_slice dep path @ [dep]])"] by auto
  next
    case old
    then have "visit_cycles E stack path deps (visited, []) = (visited', [])" using "2.prems"(1) by simp
    then show ?thesis using "2.hyps"(4) [OF _ old(2)] old "2.prems" by auto
  qed
qed

lemma cycle_not_acyclic: "is_cycle E c \<Longrightarrow> \<not> acyclic (all_edges E)"
proof -
  assume c: "is_cycle E c"
  have walk: "successively (\<lambda>a b. b \<in> set (succs E a)) xs \<Longrightarrow> length xs \<ge> 2 \<Longrightarrow> (hd xs, last xs) \<in> (all_edges E)\<^sup>+" for xs
  proof (induction xs rule: induct_list012)
    case (3 x y zs)
    then have e: "(x, y) \<in> all_edges E" by (simp add: edge_rel_def)
    show ?case
    proof (cases "zs = []")
      case True
      then show ?thesis using e by auto
    next
      case False
      then have "(y, last (y # zs)) \<in> (all_edges E)\<^sup>+" using 3 by (cases zs) auto
      then show ?thesis using e by (auto intro: trancl_into_trancl2)
    qed
  qed auto
  show ?thesis using c walk [of c] by (auto simp: is_cycle_def acyclic_def)
qed

section \<open>The edge maps\<close>

lemma succs_simps [simp]:
  "succs (jset a s E) x = (if x = a then s else succs E x)"
  "succs (jdel a E) x = (if x = a then [] else succs E x)"
  "succs (ensure_set a E) x = succs E x"
  "succs [] x = []"
  by (auto simp: succs_def ensure_set_def)

lemma set_succs_edges [simp]:
  "set (succs (add_edge a b E) x) = (if x = a then insert b (set (succs E a)) else set (succs E x))"
  "set (succs (drop_edge a b E) x) = (if x = a then set (succs E a) - {b} else set (succs E x))"
  by (auto simp: add_edge_def) (auto simp: drop_edge_def succs_def split: option.splits)

lemma keys_edges [simp]:
  "set (jkeys (ensure_set a E)) = insert a (set (jkeys E))"
  "set (jkeys (add_edge a b E)) = insert a (set (jkeys E))"
  "set (jkeys (drop_edge a b E)) = set (jkeys E)"
proof -
  show "set (jkeys (ensure_set a E)) = insert a (set (jkeys E))"
    using jget_jkeys [of E a] by (auto simp: ensure_set_def set_jkeys_jset)
  show "set (jkeys (add_edge a b E)) = insert a (set (jkeys E))" by (simp add: add_edge_def set_jkeys_jset)
  show "set (jkeys (drop_edge a b E)) = set (jkeys E)"
    using jget_jkeys [of E a] by (auto simp: drop_edge_def set_jkeys_jset split: option.split)
qed

lemma drop_edges:
  "set (succs (fold (\<lambda>d. drop_edge d n) ds E) x) = (if x \<in> set ds then set (succs E x) - {n} else set (succs E x))"
  "set (jkeys (fold (\<lambda>d. drop_edge d n) ds E)) = set (jkeys E)"
  by (induction ds arbitrary: E) auto

text \<open>
  The nodes are the keys of the forward edges, and the reverse edges are the converse of the forward
  edges.
\<close>

definition dg_inv :: "dep_graph \<Rightarrow> bool" where
  "dg_inv g \<longleftrightarrow> jwf (dg_nodes g) \<and> set (jkeys (dg_dependencies g)) = set (jkeys (dg_nodes g)) \<and>
     (\<forall>a b. b \<in> set (succs (dg_dependencies g) a) \<longleftrightarrow> a \<in> set (succs (dg_dependents g) b))"

definition link :: "string \<Rightarrow> plugin_dependency \<Rightarrow> dep_graph \<Rightarrow> dep_graph" where
  "link name dep g = g\<lparr>dg_dependencies := add_edge name (pd_name dep) (dg_dependencies g),
     dg_dependents := add_edge (pd_name dep) name (ensure_set (pd_name dep) (dg_dependents g))\<rparr>"

lemma link_props:
  "dg_inv g \<Longrightarrow> name \<in> set (jkeys (dg_nodes g)) \<Longrightarrow> dg_inv (fold (link name) deps g)"
  "dg_nodes (fold (link name) deps g) = dg_nodes g"
  "set (succs (dg_dependencies (fold (link name) deps g)) a) =
     set (succs (dg_dependencies g) a) \<union> (if a = name then pd_name ` set deps else {})"
proof -
  show "dg_nodes (fold (link name) deps g) = dg_nodes g" by (induction deps arbitrary: g) (auto simp: link_def)
  show "set (succs (dg_dependencies (fold (link name) deps g)) a) =
     set (succs (dg_dependencies g) a) \<union> (if a = name then pd_name ` set deps else {})"
    by (induction deps arbitrary: g) (auto simp: link_def)
  have step: "dg_inv (link name dep g)" if "dg_inv g" "name \<in> set (jkeys (dg_nodes g))" for dep g
    using that by (auto simp: dg_inv_def link_def)
  show "dg_inv g \<Longrightarrow> name \<in> set (jkeys (dg_nodes g)) \<Longrightarrow> dg_inv (fold (link name) deps g)"
  proof (induction deps arbitrary: g)
    case (Cons dep deps)
    then show ?case using step [of g dep] by (simp add: link_def)
  qed simp
qed

lemma addPlugin_fold:
  "addPlugin name version deps g = fold (link name) deps
     (g\<lparr>dg_nodes := jset name \<lparr>dn_name = name, dn_version = version, dn_dependencies = deps\<rparr> (dg_nodes g),
        dg_dependencies := ensure_set name (dg_dependencies g), dg_dependents := ensure_set name (dg_dependents g)\<rparr>)"
  by (simp add: addPlugin_def link_def [abs_def])

lemma dg_inv_add: "dg_inv g \<Longrightarrow> dg_inv (addPlugin name version deps g)"
  unfolding addPlugin_fold by (rule link_props(1)) (auto simp: dg_inv_def set_jkeys_jset)

lemma removePlugin_edges:
  assumes "dg_inv g" "jget (dg_nodes g) name \<noteq> None"
  shows "b \<in> set (succs (dg_dependencies (removePlugin name g)) a) \<longleftrightarrow>
      b \<in> set (succs (dg_dependencies g) a) \<and> a \<noteq> name \<and> b \<noteq> name"
    and "b \<in> set (succs (dg_dependents (removePlugin name g)) a) \<longleftrightarrow>
      b \<in> set (succs (dg_dependents g) a) \<and> a \<noteq> name \<and> b \<noteq> name"
  using assms by (auto simp: removePlugin_def Let_def drop_edges dg_inv_def)

lemma dg_inv_remove:
  assumes "dg_inv g"
  shows "dg_inv (removePlugin name g)"
proof (cases "jget (dg_nodes g) name = None")
  case False
  have "set (jkeys (dg_dependencies (removePlugin name g))) = set (jkeys (dg_nodes (removePlugin name g)))"
    using assms False by (simp add: removePlugin_def Let_def drop_edges set_jkeys_jdel dg_inv_def)
  moreover have "jwf (dg_nodes (removePlugin name g))" using assms by (simp add: removePlugin_def Let_def dg_inv_def)
  ultimately show ?thesis
    using assms removePlugin_edges [OF assms False] by (auto simp: dg_inv_def)
qed (use assms in \<open>simp add: removePlugin_def\<close>)

datatype dg_op = DAdd string string "plugin_dependency list" | DRemove string | DClear

fun dg_do :: "dg_op \<Rightarrow> dep_graph \<Rightarrow> dep_graph" where
  "dg_do (DAdd name version deps) g = addPlugin name version deps g"
| "dg_do (DRemove name) g = removePlugin name g"
| "dg_do DClear g = dg_clear g"

interpretation dg_system: invariant_system dg_do dg_inv
proof unfold_locales
  fix g a assume "dg_inv g"
  then show "dg_inv (dg_do a g)"
    by (cases a) (auto simp: dg_inv_add dg_inv_remove, simp add: dg_inv_def dg_clear_def jkeys_def)
qed

lemma dg_inv_new: "dg_inv new_graph"
  by (simp add: dg_inv_def new_graph_def jkeys_def)

section \<open>Queries on well-formed graphs\<close>

lemma detectCircular_exact:
  assumes "dg_inv g"
  shows "detectCircular g = [] \<longleftrightarrow> acyclic (all_edges (dg_dependencies g))"
    and "c \<in> set (detectCircular g) \<Longrightarrow> is_cycle (dg_dependencies g) c"
proof -
  let ?E = "dg_dependencies g"
  have sound: "is_cycle ?E c" if "c \<in> set (detectCircular g)" for c
    using visit_cycles_sound [of "[]" "[]" ?E "jkeys (dg_nodes g)" "([], [])"] that by (simp add: detectCircular_def)
  then show "c \<in> set (detectCircular g) \<Longrightarrow> is_cycle ?E c" .
  show "detectCircular g = [] \<longleftrightarrow> acyclic (all_edges ?E)"
  proof
    assume "detectCircular g = []"
    then obtain v where "visit_cycles ?E [] [] (jkeys (dg_nodes g)) ([], []) = (v, [])"
      unfolding detectCircular_def by (metis prod.collapse)
    from visit_cycles_complete [OF this] have v: "settled ?E (set v)" "set (jkeys (dg_nodes g)) \<subseteq> set v"
      by (auto simp: settled_def)
    show "acyclic (all_edges ?E)" unfolding acyclic_def
    proof (intro allI notI)
      fix x assume x: "(x, x) \<in> (all_edges ?E)\<^sup>+"
      then obtain y where "(x, y) \<in> all_edges ?E" by (auto dest: tranclD)
      then have "succs ?E x \<noteq> []" by (auto simp: edge_rel_def)
      then have "x \<in> set v" using succs_key [of ?E x] v(2) assms by (auto simp: dg_inv_def)
      then show False using v(1) x by (simp add: settled_def)
    qed
  next
    assume "acyclic (all_edges ?E)"
    then show "detectCircular g = []" using sound cycle_not_acyclic by (metis list.set_intros(1) neq_Nil_conv)
  qed
qed

lemma edge_rel_mono: "edge_rel ok E \<subseteq> all_edges E"
  by (auto simp: edge_rel_def)

lemma load_order:
  assumes "dg_inv g" "acyclic (all_edges (dg_dependencies g))"
  shows "distinct (getLoadOrder g)" "set (getLoadOrder g) = set (jkeys (dg_nodes g))"
    "topo (\<lambda>dep. jget (dg_nodes g) dep \<noteq> None) (dg_dependencies g) (getLoadOrder g)"
proof -
  let ?ok = "\<lambda>dep. jget (dg_nodes g) dep \<noteq> None" and ?E = "dg_dependencies g"
  obtain v ord where v: "visit_post ?ok ?E (jkeys (dg_nodes g)) ([], []) = (v, ord)" by fastforce
  have "acyclic (edge_rel ?ok ?E)" using assms(2) edge_rel_mono by (rule acyclic_subset)
  from visit_post_topo [OF v this] have p: "topo ?ok ?E ord" "distinct ord" "set v = set ord" "set (jkeys (dg_nodes g)) \<subseteq> set v"
    "set v \<subseteq> (edge_rel ?ok ?E)\<^sup>* `` set (jkeys (dg_nodes g))" by auto
  have "b \<in> set (jkeys (dg_nodes g))" if "(a, b) \<in> (edge_rel ?ok ?E)\<^sup>*" "a \<in> set (jkeys (dg_nodes g))" for a b
    using that by (induction rule: rtrancl_induct) (auto simp: edge_rel_def jget_jkeys)
  then have "set v \<subseteq> set (jkeys (dg_nodes g))" using p(5) by auto
  then show "distinct (getLoadOrder g)" "set (getLoadOrder g) = set (jkeys (dg_nodes g))"
    "topo ?ok ?E (getLoadOrder g)" using p v by (auto simp: getLoadOrder_def)
qed

lemma dependents_converse: "dg_inv g \<Longrightarrow> all_edges (dg_dependents g) = (all_edges (dg_dependencies g))\<inverse>"
  by (auto simp: edge_rel_def dg_inv_def)

lemma removal_order:
  assumes "dg_inv g" "acyclic (all_edges (dg_dependencies g))"
  shows "distinct (getRemovalOrder name g)" "set (getRemovalOrder name g) = insert name (set (getAllDependents name g))"
    "getRemovalOrder name g = xs @ a # ys \<Longrightarrow> set (getDependents a g) \<subseteq> set xs"
proof -
  let ?T = "dg_dependents g" and ?all = "set (getAllDependents name g)"
  let ?ok = "\<lambda>dep. dep \<in> ?all"
  have all: "?all = {b. (name, b) \<in> (all_edges ?T)\<^sup>+}" using reach_exact [of ?T name] by (simp add: getAllDependents_def)
  obtain v ord where v: "visit_post ?ok ?T [name] ([], []) = (v, ord)" by fastforce
  have "acyclic (all_edges ?T)" using assms by (simp add: dependents_converse acyclic_converse)
  then have "acyclic (edge_rel ?ok ?T)" using edge_rel_mono by (rule acyclic_subset)
  from visit_post_topo [OF v this] have p: "topo ?ok ?T ord" "distinct ord" "set v = set ord" "name \<in> set v"
    "set v \<subseteq> (edge_rel ?ok ?T)\<^sup>* `` {name}" by auto
  have "(edge_rel ?ok ?T)\<^sup>* \<subseteq> (all_edges ?T)\<^sup>*" by (rule rtrancl_mono [OF edge_rel_mono])
  then have sub: "set ord \<subseteq> insert name ?all" using p(3,5) all by (auto simp: rtrancl_eq_or_trancl)
  have ok: "?ok b" if "a \<in> set ord" "b \<in> set (succs ?T a)" for a b
  proof -
    have "(name, a) \<in> (all_edges ?T)\<^sup>*" using sub that(1) all by auto
    moreover have "(a, b) \<in> all_edges ?T" using that(2) by (simp add: edge_rel_def)
    ultimately show ?thesis unfolding all by (auto intro: rtrancl_into_trancl1)
  qed
  have before: "set (succs ?T a) \<subseteq> set xs" if "ord = xs @ a # ys" for xs a ys
    using p(1) ok [of a] that by (auto simp: topo_def)
  have closed: "set (succs ?T a) \<subseteq> set ord" if a: "a \<in> set ord" for a
  proof -
    obtain xs ys where "ord = xs @ a # ys" using a by (auto simp: in_set_conv_decomp)
    with before [OF this] show ?thesis by auto
  qed
  have "b \<in> set ord" if "(name, b) \<in> (all_edges ?T)\<^sup>+" for b
    using that by (induction rule: trancl_induct) (use closed p(3,4) in \<open>auto simp: edge_rel_def\<close>)
  then have "set ord = insert name ?all" using sub p(3,4) all by auto
  then show "distinct (getRemovalOrder name g)" "set (getRemovalOrder name g) = insert name ?all"
    "getRemovalOrder name g = xs @ a # ys \<Longrightarrow> set (getDependents a g) \<subseteq> set xs"
    using p(2) v before by (simp_all add: getRemovalOrder_def getDependents_def)
qed

subsection \<open>Depths\<close>

lemma deeper_ge: "m \<le> fold (deeper depths) deps m"
proof (induction deps arbitrary: m)
  case (Cons x deps)
  have "m \<le> deeper depths x m" by (auto simp: deeper_def split: option.split)
  then show ?case using Cons [of "deeper depths x m"] by simp
qed simp

lemma deeper_all: "dep \<in> set deps \<Longrightarrow> jget depths dep = Some d \<Longrightarrow> int d \<le> fold (deeper depths) deps m"
proof (induction deps arbitrary: m)
  case (Cons x deps)
  show ?case
  proof (cases "x = dep")
    case True
    then have "int d \<le> deeper depths x m" using Cons.prems by (simp add: deeper_def)
    then show ?thesis using deeper_ge [of "deeper depths x m" depths deps] by simp
  qed (use Cons in auto)
qed simp

definition layered :: "dep_graph \<Rightarrow> string list \<Rightarrow> (string, nat) jsmap \<Rightarrow> bool" where
  "layered g xs depths \<longleftrightarrow> jwf depths \<and> set (jkeys depths) = set xs \<and>
     (\<forall>a \<in> set xs. \<forall>b \<in> set (succs (dg_dependencies g) a). jget (dg_nodes g) b \<noteq> None \<longrightarrow>
        (\<exists>i j. jget depths a = Some i \<and> jget depths b = Some j \<and> j < i))"

lemma layered_fold:
  assumes "topo (\<lambda>dep. jget (dg_nodes g) dep \<noteq> None) (dg_dependencies g) xs" "distinct xs"
  shows "layered g xs (fold (depth_step g) xs [])"
  using assms
proof (induction xs rule: rev_induct)
  case Nil
  then show ?case by (simp add: layered_def jkeys_def)
next
  case (snoc a xs)
  let ?d = "fold (depth_step g) xs []" and ?m = "fold (deeper (fold (depth_step g) xs [])) (succs (dg_dependencies g) a) (- 1)"
  have IH: "layered g xs ?d" using snoc by (simp add: topo_snoc)
  have d': "fold (depth_step g) (xs @ [a]) [] = jset a (nat (?m + 1)) ?d" by (simp add: depth_step_def)
  have a: "a \<notin> set xs" using snoc.prems(2) by simp
  have new: "\<exists>j. jget (jset a (nat (?m + 1)) ?d) b = Some j \<and> j < nat (?m + 1)"
    if "b \<in> set (succs (dg_dependencies g) a)" "jget (dg_nodes g) b \<noteq> None" for b
  proof -
    have b: "b \<in> set xs" using that snoc.prems(1) by (auto simp: topo_snoc)
    then have "jget ?d b \<noteq> None" using IH jget_jkeys [of ?d b] by (simp add: layered_def)
    then obtain j where j: "jget ?d b = Some j" by auto
    have "int j \<le> ?m" by (rule deeper_all [OF that(1) j])
    then show ?thesis using j b a by auto
  qed
  have old: "\<exists>i j. jget (jset a (nat (?m + 1)) ?d) c = Some i \<and> jget (jset a (nat (?m + 1)) ?d) b = Some j \<and> j < i"
    if c: "c \<in> set xs" "b \<in> set (succs (dg_dependencies g) c)" "jget (dg_nodes g) b \<noteq> None" for b c
  proof -
    obtain i j where ij: "jget ?d c = Some i" "jget ?d b = Some j" "j < i" using IH c unfolding layered_def by blast
    then have "b \<in> set xs" using IH jget_jkeys [of ?d b] by (simp add: layered_def)
    then show ?thesis using ij a c(1) by auto
  qed
  show ?case
    using IH new old unfolding d' by (auto simp: layered_def set_jkeys_jset)
qed

definition in_level :: "string list list \<Rightarrow> string \<Rightarrow> nat \<Rightarrow> bool" where
  "in_level levels name i \<longleftrightarrow> i < length levels \<and> name \<in> set (levels ! i)"

lemma in_level_place: "in_level (place (name, d) levels) m i \<longleftrightarrow> in_level levels m i \<or> (m = name \<and> i = d)"
  by (auto simp: in_level_def place_def Let_def nth_list_update nth_append)

lemma in_level_fold: "in_level (fold place kvs levels) m i \<longleftrightarrow> in_level levels m i \<or> (m, i) \<in> set kvs"
proof (induction kvs arbitrary: levels)
  case (Cons kv kvs)
  then show ?case by (cases kv) (auto simp: in_level_place)
qed simp

lemma depth_levels:
  assumes "dg_inv g" "acyclic (all_edges (dg_dependencies g))"
  shows "jget (dg_nodes g) name \<noteq> None \<longleftrightarrow> (\<exists>!i. in_level (getDepthLevels g) name i)"
    and "in_level (getDepthLevels g) a i \<Longrightarrow> in_level (getDepthLevels g) b j \<Longrightarrow>
      b \<in> set (succs (dg_dependencies g) a) \<Longrightarrow> j < i"
proof -
  let ?d = "fold (depth_step g) (getLoadOrder g) []"
  note lo = load_order [OF assms]
  have l: "layered g (getLoadOrder g) ?d" by (rule layered_fold [OF lo(3,1)])
  have lev: "in_level (getDepthLevels g) n i \<longleftrightarrow> jget ?d n = Some i" for n i
    using l jget_in [of ?d n i] by (simp add: getDepthLevels_def in_level_fold layered_def) (simp add: in_level_def)
  have "jget ?d name = None \<longleftrightarrow> jget (dg_nodes g) name = None" for name
    using l lo(2) by (simp add: layered_def jget_jkeys)
  then show "jget (dg_nodes g) name \<noteq> None \<longleftrightarrow> (\<exists>!i. in_level (getDepthLevels g) name i)"
    unfolding lev by (metis option.distinct(1) option.exhaust option.inject)
  assume "in_level (getDepthLevels g) a i" "in_level (getDepthLevels g) b j" and e: "b \<in> set (succs (dg_dependencies g) a)"
  then have d: "jget ?d a = Some i" "jget ?d b = Some j" unfolding lev by auto
  then have "a \<in> set (getLoadOrder g)" "b \<in> set (getLoadOrder g)"
    using l jget_jkeys [of ?d a] jget_jkeys [of ?d b] by (auto simp: layered_def)
  then have "jget (dg_nodes g) b \<noteq> None" "a \<in> set (getLoadOrder g)" using lo(2) by (auto simp: jget_jkeys)
  then show "j < i" using l e d unfolding layered_def by fastforce
qed

section \<open>Properties\<close>

text \<open>
  As long as a plugin is removed only after those that declare a dependency on it, the recorded edges of a plugin include its
  declared dependencies.
\<close>

definition declared :: "dep_graph \<Rightarrow> bool" where
  "declared g \<longleftrightarrow> (\<forall>name node. jget (dg_nodes g) name = Some node \<longrightarrow>
     pd_name ` set (dn_dependencies node) \<subseteq> set (succs (dg_dependencies g) name))"

fun dependents_first :: "dg_op \<Rightarrow> dep_graph \<Rightarrow> bool" where
  "dependents_first (DRemove name) g \<longleftrightarrow>
     (\<forall>(other, node) \<in> set (dg_nodes g). other \<noteq> name \<longrightarrow> name \<notin> pd_name ` set (dn_dependencies node))"
| "dependents_first _ g \<longleftrightarrow> True"

lemma remove_declared:
  assumes "dg_inv g" "declared g" "dependents_first (DRemove name) g"
  shows "declared (removePlugin name g)"
proof (cases "jget (dg_nodes g) name = None")
  case False
  have "pd_name ` set (dn_dependencies node) \<subseteq> set (succs (dg_dependencies (removePlugin name g)) other)"
    if "jget (dg_nodes (removePlugin name g)) other = Some node" for other node
  proof -
    have "jwf (dg_nodes g)"
      using assms(1) by (simp add: dg_inv_def)
    then have "other \<noteq> name" "jget (dg_nodes g) other = Some node"
      using that False by (auto simp: removePlugin_def Let_def split: if_splits)
    then have "name \<notin> pd_name ` set (dn_dependencies node)" "pd_name ` set (dn_dependencies node) \<subseteq> set (succs (dg_dependencies g) other)"
      using assms(2,3) jget_mem [of "dg_nodes g" other node] by (fastforce simp: declared_def)+
    then show ?thesis
      using removePlugin_edges(1) [OF assms(1) False] \<open>other \<noteq> name\<close> by blast
  qed
  then show ?thesis
    by (simp add: declared_def)
qed (use assms in \<open>simp add: removePlugin_def\<close>)

interpretation dg_declared: guarded_system dependents_first dg_do "\<lambda>g. dg_inv g \<and> declared g"
proof unfold_locales
  fix a g assume a: "dependents_first a g" "dg_inv g \<and> declared g"
  have "declared (dg_do a g)"
  proof (cases a)
    case (DRemove name)
    then show ?thesis using remove_declared a by simp
  qed (use a in \<open>auto simp: declared_def addPlugin_fold link_props(2,3) dg_clear_def split: if_splits\<close>)
  then show "dg_inv (dg_do a g) \<and> declared (dg_do a g)"
    using dg_system.step_inv a(2) by blast
qed

text \<open>
  C8. Cycle detection is exact: in every graph built by adding and removing plugins, \<open>detectCircular\<close>
  reports nothing exactly when the dependency relation is acyclic, and every reported list is a cycle
  of dependencies that starts and ends at the same plugin.
\<close>

theorem circular_exact:
  assumes "g = run dg_do ops new_graph"
  shows "(detectCircular g = [] \<longleftrightarrow> acyclic {(a, b). b \<in> set (getDependencies a g)}) \<and>
    (\<forall>c \<in> set (detectCircular g). is_cycle (dg_dependencies g) c)"
proof -
  have "dg_inv g" unfolding assms by (rule dg_system.run_inv [OF dg_inv_new])
  from detectCircular_exact [OF this] show ?thesis by (simp add: edge_rel_def getDependencies_def)
qed

definition demo_dep :: "string \<Rightarrow> plugin_dependency" where
  "demo_dep n = \<lparr>pd_name = n, pd_version = ''^1.0.0'', pd_optional = False, pd_peer = False\<rparr>"

definition demo_dg_ops :: "dg_op list" where
  "demo_dg_ops = [DAdd ''app'' ''1.0.0'' [demo_dep ''ui'', demo_dep ''core''], DAdd ''ui'' ''1.2.0'' [demo_dep ''core''],
     DAdd ''core'' ''1.0.5'' []]"

theorem circular_exact_witness:
  "acyclic {(a, b). b \<in> set (getDependencies a (run dg_do demo_dg_ops new_graph))} \<and>
   detectCircular (run dg_do (demo_dg_ops @ [DAdd ''core'' ''1.0.6'' [demo_dep ''app'']]) new_graph) =
     [[''app'', ''ui'', ''core'', ''app'']]"
proof -
  have "detectCircular (run dg_do demo_dg_ops new_graph) = []" by code_simp
  moreover have "detectCircular (run dg_do (demo_dg_ops @ [DAdd ''core'' ''1.0.6'' [demo_dep ''app'']]) new_graph) =
     [[''app'', ''ui'', ''core'', ''app'']]" by code_simp
  ultimately show ?thesis using circular_exact [OF refl, of demo_dg_ops] by blast
qed

text \<open>
  C20. A validated set of plugins loads in order. Let plugins be added, cleared, and removed only while no other installed plugin
  declares a dependency on them. When \<open>validate\<close> reports no error, every declared dependency that is not optional is installed, every installed
  dependency has a version in its range, and \<open>getLoadOrder\<close> lists every plugin exactly once, after all
  its declared dependencies that are installed.
\<close>

theorem validated_plugins_load_in_order:
  assumes "run_ok dependents_first dg_do ops new_graph" and "g = run dg_do ops new_graph" and "validate g = []"
  shows "distinct (getLoadOrder g) \<and> set (getLoadOrder g) = set (getPluginNames g) \<and>
    (\<forall>name node dep. jget (dg_nodes g) name = Some node \<longrightarrow> dep \<in> set (dn_dependencies node) \<longrightarrow>
      (case getVersion (pd_name dep) g of
         None \<Rightarrow> pd_optional dep
       | Some version \<Rightarrow> satisfiesVersion (pd_version dep) version \<and>
           (\<forall>xs ys. getLoadOrder g = xs @ name # ys \<longrightarrow> pd_name dep \<in> set xs)))"
proof -
  have inv: "dg_inv g" unfolding assms(2) by (rule dg_system.run_inv [OF dg_inv_new])
  have decl: "declared g" unfolding assms(2)
    using dg_declared.guarded_run [OF assms(1)] dg_inv_new by (simp add: declared_def new_graph_def)
  have "detectCircular g = []" using assms(3) by (simp add: validate_def)
  then have lo: "distinct (getLoadOrder g)" "set (getLoadOrder g) = set (jkeys (dg_nodes g))"
    "topo (\<lambda>dep. jget (dg_nodes g) dep \<noteq> None) (dg_dependencies g) (getLoadOrder g)"
    using load_order [OF inv] detectCircular_exact(1) [OF inv] by auto
  have "case getVersion (pd_name dep) g of
         None \<Rightarrow> pd_optional dep
       | Some version \<Rightarrow> satisfiesVersion (pd_version dep) version \<and>
           (\<forall>xs ys. getLoadOrder g = xs @ name # ys \<longrightarrow> pd_name dep \<in> set xs)"
    if n: "jget (dg_nodes g) name = Some node" "dep \<in> set (dn_dependencies node)" for name node dep
  proof -
    have "check_dependency g name dep = []" using assms(3) jget_mem [OF n(1)] n(2) by (force simp: validate_def)
    moreover have "pd_name dep \<in> set (succs (dg_dependencies g) name)" using decl n by (auto simp: declared_def)
    ultimately show ?thesis
      using lo(3) by (auto simp: check_dependency_def getVersion_def topo_def split: option.splits if_splits)
  qed
  then show ?thesis using lo(1,2) by (simp add: getPluginNames_def)
qed

theorem validated_plugins_load_in_order_witness:
  "validate (run dg_do (demo_dg_ops @ [DRemove ''app'']) new_graph) = [] \<and>
   getLoadOrder (run dg_do (demo_dg_ops @ [DRemove ''app'']) new_graph) = [''core'', ''ui''] \<and>
   set [''core'', ''ui''] = set (getPluginNames (run dg_do (demo_dg_ops @ [DRemove ''app'']) new_graph))"
proof -
  have "run_ok dependents_first dg_do (demo_dg_ops @ [DRemove ''app'']) new_graph" by code_simp
  moreover have v: "validate (run dg_do (demo_dg_ops @ [DRemove ''app'']) new_graph) = []" by code_simp
  moreover have o: "getLoadOrder (run dg_do (demo_dg_ops @ [DRemove ''app'']) new_graph) = [''core'', ''ui'']" by code_simp
  ultimately show ?thesis
    using validated_plugins_load_in_order [OF _ refl, of "demo_dg_ops @ [DRemove ''app'']"] unfolding o by blast
qed

text \<open>
  Removal cascades in the right order: in a graph without cycles, \<open>getRemovalOrder\<close> lists the
  plugin and exactly its direct and indirect dependents, each once and after everything that depends
  on it, and the transitive queries are converse to each other.
\<close>

theorem removal_order_dependents_first:
  assumes "g = run dg_do ops new_graph" and "detectCircular g = []"
  shows "distinct (getRemovalOrder name g) \<and>
    set (getRemovalOrder name g) = insert name {d. name \<in> set (getAllDependencies d g)} \<and>
    set (getAllDependents name g) = {d. name \<in> set (getAllDependencies d g)} \<and>
    (\<forall>xs a ys. getRemovalOrder name g = xs @ a # ys \<longrightarrow> set (getDependents a g) \<subseteq> set xs)"
proof -
  have inv: "dg_inv g" unfolding assms(1) by (rule dg_system.run_inv [OF dg_inv_new])
  have acyc: "acyclic (all_edges (dg_dependencies g))" using detectCircular_exact(1) [OF inv] assms(2) by simp
  have "set (getAllDependents name g) = {d. name \<in> set (getAllDependencies d g)}"
    using reach_exact [of "dg_dependents g" name] reach_exact [of "dg_dependencies g"]
    by (auto simp: getAllDependents_def getAllDependencies_def dependents_converse [OF inv] trancl_converse)
  then show ?thesis using removal_order [OF inv acyc, of name] by auto
qed

theorem removal_order_dependents_first_witness:
  "getRemovalOrder ''core'' (run dg_do demo_dg_ops new_graph) = [''app'', ''ui'', ''core''] \<and>
   set [''app'', ''ui'', ''core''] =
     insert ''core'' {d. ''core'' \<in> set (getAllDependencies d (run dg_do demo_dg_ops new_graph))}"
proof -
  have o: "getRemovalOrder ''core'' (run dg_do demo_dg_ops new_graph) = [''app'', ''ui'', ''core'']" by code_simp
  have "detectCircular (run dg_do demo_dg_ops new_graph) = []" by code_simp
  then show ?thesis using removal_order_dependents_first [OF refl, of demo_dg_ops "''core''"] unfolding o by simp
qed

text \<open>
  Depth levels allow parallel initialisation: in a graph without cycles every plugin is in exactly
  one level of \<open>getDepthLevels\<close>, and its dependencies that are plugins are in lower levels.
\<close>

theorem depth_levels_layered:
  assumes "g = run dg_do ops new_graph" and "detectCircular g = []"
  shows "(hasPlugin name g \<longleftrightarrow> (\<exists>!i. i < length (getDepthLevels g) \<and> name \<in> set (getDepthLevels g ! i))) \<and>
    (\<forall>i j. i < length (getDepthLevels g) \<longrightarrow> name \<in> set (getDepthLevels g ! i) \<longrightarrow>
      j < length (getDepthLevels g) \<longrightarrow> dep \<in> set (getDepthLevels g ! j) \<longrightarrow>
      dep \<in> set (getDependencies name g) \<longrightarrow> j < i)"
proof -
  have inv: "dg_inv g" unfolding assms(1) by (rule dg_system.run_inv [OF dg_inv_new])
  have acyc: "acyclic (all_edges (dg_dependencies g))" using detectCircular_exact(1) [OF inv] assms(2) by simp
  show ?thesis
    using depth_levels [OF inv acyc] by (auto simp: in_level_def hasPlugin_def getDependencies_def)
qed

theorem depth_levels_layered_witness:
  "getDepthLevels (run dg_do demo_dg_ops new_graph) = [[''core''], [''ui''], [''app'']] \<and>
   (\<exists>!i. i < 3 \<and> ''ui'' \<in> set ([[''core''], [''ui''], [''app'']] ! i))"
proof -
  have l: "getDepthLevels (run dg_do demo_dg_ops new_graph) = [[''core''], [''ui''], [''app'']]"
    "detectCircular (run dg_do demo_dg_ops new_graph) = []" "hasPlugin ''ui'' (run dg_do demo_dg_ops new_graph)"
    by code_simp+
  show ?thesis using depth_levels_layered [OF refl l(2), of "''ui''"] l(3) unfolding l(1) by (simp add: numeral_3_eq_3)
qed

text \<open>
  A plugin that is removed and added again has lost the edges of the plugins that depend on it: they
  are loaded before it although validation finds no error.
\<close>

lemma readded_plugin_loads_late:
  "validate (run dg_do [DAdd ''app'' ''1.0.0'' [demo_dep ''core''], DAdd ''core'' ''1.0.0'' [], DRemove ''core'',
      DAdd ''core'' ''1.0.0'' []] new_graph) = [] \<and>
   getLoadOrder (run dg_do [DAdd ''app'' ''1.0.0'' [demo_dep ''core''], DAdd ''core'' ''1.0.0'' [], DRemove ''core'',
      DAdd ''core'' ''1.0.0'' []] new_graph) = [''app'', ''core'']"
  by code_simp

end
