(* ===== verification/Raft.thy ===== *)
theory Raft
  imports Prelude Complex_Main
begin

text \<open>
  Model of one node of \<open>swarm/src/consensus/raft.ts\<close>. Asynchronous operations are split at their
  \<open>await\<close>s: what a node does with the reply of an RPC is a function of its own. Payload fields that
  may be missing or of the wrong type are options; vote weights and the threshold are rational numbers
  and their sums exact. Timers only say when operations start and are not part of the state; emitted
  events are not modelled.
\<close>

section \<open>Nodes and messages\<close>

datatype raft_state = Follower | Candidate | Leader

record 'v raft_log_entry =
  le_term :: int
  le_index :: int
  le_command :: 'v
  le_timestamp :: time

record 'v raft_node =
  rn_id :: string
  rn_state :: raft_state
  rn_currentTerm :: int
  rn_votedFor :: "string option"
  rn_log :: "'v raft_log_entry list"
  rn_commitIndex :: int
  rn_lastApplied :: int

definition new_raft_node :: "string \<Rightarrow> 'v raft_node" where
  "new_raft_node i = \<lparr>rn_id = i, rn_state = Follower, rn_currentTerm = 0, rn_votedFor = None, rn_log = [],
     rn_commitIndex = 0, rn_lastApplied = 0\<rparr>"

datatype raft_msg_type = RequestVote | AppendEntries | OtherMessage

record 'v raft_payload =
  pl_term :: "int option"
  pl_candidateId :: "string option"
  pl_lastLogIndex :: "int option"
  pl_lastLogTerm :: "int option"
  pl_entries :: "'v raft_log_entry list option"
  pl_leaderCommit :: "int option"

record 'v raft_message =
  ms_type :: raft_msg_type
  ms_from :: string
  ms_payload :: "'v raft_payload"

text \<open>The payload of a response: the term and the flag \<open>granted\<close> or \<open>success\<close>.\<close>

record raft_reply =
  rp_term :: "int option"
  rp_ok :: bool

definition lastLogInfo :: "'v raft_node \<Rightarrow> int \<times> int" where
  "lastLogInfo n = (if rn_log n = [] then (0, 0) else (le_index (last (rn_log n)), le_term (last (rn_log n))))"

section \<open>The receiver\<close>

definition adopt_term :: "int \<Rightarrow> 'v raft_node \<Rightarrow> 'v raft_node" where
  "adopt_term t n =
     (if t > rn_currentTerm n then n\<lparr>rn_currentTerm := t, rn_votedFor := None, rn_state := Follower\<rparr> else n)"

definition append_new :: "'v raft_log_entry list \<Rightarrow> 'v raft_log_entry list \<Rightarrow> 'v raft_log_entry list" where
  "append_new entries lg =
     fold (\<lambda>e xs. if \<exists>x \<in> set xs. le_index x = le_index e then xs else xs @ [e]) entries lg"

definition handle_request_vote :: "'v raft_message \<Rightarrow> int \<Rightarrow> 'v raft_node \<Rightarrow> raft_reply \<times> 'v raft_node" where
  "handle_request_vote msg t n =
     (let p = ms_payload msg;
          candidateId = nullish (pl_candidateId p) (ms_from msg);
          candLastIndex = nullish (pl_lastLogIndex p) 0;
          candLastTerm = nullish (pl_lastLogTerm p) 0;
          (myIndex, myTerm) = lastLogInfo n;
          logOk = (candLastTerm > myTerm \<or> (candLastTerm = myTerm \<and> candLastIndex \<ge> myIndex));
          termOk = (t \<ge> rn_currentTerm n);
          notVotedOrSame = (rn_votedFor n = None \<or> rn_votedFor n = Some candidateId);
          granted = (termOk \<and> notVotedOrSame \<and> logOk);
          n1 = (if granted then n\<lparr>rn_votedFor := Some candidateId\<rparr> else n)
      in (\<lparr>rp_term = Some (rn_currentTerm n1), rp_ok = granted\<rparr>, n1))"

definition handle_append_entries :: "'v raft_message \<Rightarrow> int \<Rightarrow> 'v raft_node \<Rightarrow> raft_reply \<times> 'v raft_node" where
  "handle_append_entries msg t n =
     (if t < rn_currentTerm n then (\<lparr>rp_term = Some (rn_currentTerm n), rp_ok = False\<rparr>, n)
      else
        let p = ms_payload msg;
            n1 = n\<lparr>rn_state := Follower, rn_log := append_new (nullish (pl_entries p) []) (rn_log n)\<rparr>;
            leaderCommit = nullish (pl_leaderCommit p) (rn_commitIndex n1);
            n2 = (if leaderCommit > rn_commitIndex n1
                  then n1\<lparr>rn_commitIndex := min leaderCommit (fst (lastLogInfo n1))\<rparr> else n1)
        in (\<lparr>rp_term = Some (rn_currentTerm n2), rp_ok = True\<rparr>, n2))"

definition handleInboundRaftMessage :: "'v raft_message \<Rightarrow> 'v raft_node \<Rightarrow> raft_reply option \<times> 'v raft_node" where
  "handleInboundRaftMessage msg n =
     (let t = nullish (pl_term (ms_payload msg)) 0;
          n1 = adopt_term t n
      in case ms_type msg of
           RequestVote \<Rightarrow> (let (r, n2) = handle_request_vote msg t n1 in (Some r, n2))
         | AppendEntries \<Rightarrow> (let (r, n2) = handle_append_entries msg t n1 in (Some r, n2))
         | OtherMessage \<Rightarrow> (None, n1))"

section \<open>Elections\<close>

text \<open>\<open>startElection\<close> up to its loop, the request it sends, and the number of votes it needs.\<close>

definition begin_election :: "'v raft_node \<Rightarrow> 'v raft_node" where
  "begin_election n =
     n\<lparr>rn_state := Candidate, rn_currentTerm := rn_currentTerm n + 1, rn_votedFor := Some (rn_id n)\<rparr>"

definition votes_needed :: "nat \<Rightarrow> nat" where
  "votes_needed peers = (peers + 1) div 2 + 1"

definition vote_request :: "'v raft_node \<Rightarrow> 'v raft_message" where
  "vote_request n =
     \<lparr>ms_type = RequestVote, ms_from = rn_id n,
      ms_payload = \<lparr>pl_term = Some (rn_currentTerm n), pl_candidateId = Some (rn_id n),
        pl_lastLogIndex = Some (fst (lastLogInfo n)), pl_lastLogTerm = Some (snd (lastLogInfo n)),
        pl_entries = None, pl_leaderCommit = None\<rparr>\<rparr>"

text \<open>\<open>requestVote\<close> after its \<open>await\<close>; \<open>None\<close> is a failed send.\<close>

definition requestVote_reply :: "raft_reply option \<Rightarrow> 'v raft_node \<Rightarrow> bool \<times> 'v raft_node" where
  "requestVote_reply reply n =
     (case reply of
        None \<Rightarrow> (False, n)
      | Some r \<Rightarrow>
          (case rp_term r of
             Some t \<Rightarrow> if t > rn_currentTerm n
                       then (False, n\<lparr>rn_currentTerm := t, rn_votedFor := None, rn_state := Follower\<rparr>)
                       else (rp_ok r, n)
           | None \<Rightarrow> (rp_ok r, n)))"

definition becomeLeader :: "'v raft_node \<Rightarrow> 'v raft_node" where
  "becomeLeader n = n\<lparr>rn_state := Leader\<rparr>"

definition election_failed :: "'v raft_node \<Rightarrow> 'v raft_node" where
  "election_failed n = n\<lparr>rn_state := Follower\<rparr>"

section \<open>Replication\<close>

definition append_request :: "'v raft_log_entry list \<Rightarrow> 'v raft_node \<Rightarrow> 'v raft_message" where
  "append_request entries n =
     \<lparr>ms_type = AppendEntries, ms_from = rn_id n,
      ms_payload = \<lparr>pl_term = Some (rn_currentTerm n), pl_candidateId = None, pl_lastLogIndex = None,
        pl_lastLogTerm = None, pl_entries = Some entries, pl_leaderCommit = Some (rn_commitIndex n)\<rparr>\<rparr>"

definition appendEntries_reply :: "raft_reply option \<Rightarrow> 'v raft_node \<Rightarrow> bool \<times> 'v raft_node" where
  "appendEntries_reply reply n = requestVote_reply reply n"

text \<open>\<open>replicateToFollowers\<close> after all replies have settled: how many of them succeeded.\<close>

definition replicate_end :: "nat \<Rightarrow> 'v raft_log_entry \<Rightarrow> bool list \<Rightarrow> 'v raft_node \<Rightarrow> 'v raft_node" where
  "replicate_end peers entry results n =
     (let successCount = length (filter (\<lambda>r. r) results);
          majority = (peers + 1) div 2 + 1
      in if successCount + 1 \<ge> majority then n\<lparr>rn_commitIndex := le_index entry\<rparr> else n)"

text \<open>The part of \<open>propose\<close> that extends the log.\<close>

definition propose_entry :: "time \<Rightarrow> 'v \<Rightarrow> 'v raft_node \<Rightarrow> ('v raft_log_entry \<times> 'v raft_node) option" where
  "propose_entry now command n =
     (if rn_state n \<noteq> Leader then None
      else
        let entry = \<lparr>le_term = rn_currentTerm n, le_index = int (length (rn_log n)) + 1, le_command = command,
                     le_timestamp = now\<rparr>
        in Some (entry, n\<lparr>rn_log := rn_log n @ [entry]\<rparr>))"

section \<open>The public handlers\<close>

definition handleVoteRequest :: "string \<Rightarrow> int \<Rightarrow> int \<Rightarrow> int \<Rightarrow> 'v raft_node \<Rightarrow> bool \<times> 'v raft_node" where
  "handleVoteRequest candidateId t lastLogIndex lastLogTerm n =
     (if t < rn_currentTerm n then (False, n)
      else
        let n1 = (if t > rn_currentTerm n
                  then n\<lparr>rn_currentTerm := t, rn_state := Follower, rn_votedFor := None\<rparr> else n)
        in if rn_votedFor n1 = None \<or> rn_votedFor n1 = Some candidateId
           then
             let (myLastIndex, myLastTerm) = lastLogInfo n1
             in if lastLogTerm > myLastTerm \<or> (lastLogTerm = myLastTerm \<and> lastLogIndex \<ge> myLastIndex)
                then (True, n1\<lparr>rn_votedFor := Some candidateId\<rparr>) else (False, n1)
           else (False, n1))"

definition handleAppendEntries ::
    "string \<Rightarrow> int \<Rightarrow> 'v raft_log_entry list \<Rightarrow> int \<Rightarrow> 'v raft_node \<Rightarrow> bool \<times> 'v raft_node" where
  "handleAppendEntries leaderId t entries leaderCommit n =
     (if t < rn_currentTerm n then (False, n)
      else
        let n1 = (if t > rn_currentTerm n then n\<lparr>rn_currentTerm := t, rn_state := Follower\<rparr> else n);
            n2 = n1\<lparr>rn_votedFor := Some leaderId, rn_log := rn_log n1 @ entries\<rparr>;
            n3 = (if leaderCommit > rn_commitIndex n2
                  then n2\<lparr>rn_commitIndex := min leaderCommit (int (length (rn_log n2)))\<rparr> else n2)
        in (True, n3))"

definition getLeaderId :: "'v raft_node \<Rightarrow> string option" where
  "getLeaderId n = (if rn_state n = Leader then Some (rn_id n) else rn_votedFor n)"

section \<open>Voting on proposals\<close>

datatype proposal_status = PPending | PAccepted | PRejected | PExpired

record consensus_vote =
  cv_voterId :: string
  cv_approve :: bool

record 'v consensus_proposal =
  cp_id :: string
  cp_value :: 'v
  cp_term :: int
  cp_votes :: "(string, consensus_vote) jsmap"
  cp_status :: proposal_status
  cp_weights :: "(string, rat) jsmap option"

definition voteWeight :: "'v consensus_proposal \<Rightarrow> string \<Rightarrow> rat" where
  "voteWeight p voter =
     (let w = nullish (case cp_weights p of None \<Rightarrow> None | Some ws \<Rightarrow> jget ws voter) 1
      in max 0 (min 1 w))"

definition approvingWeight :: "'v consensus_proposal \<Rightarrow> rat" where
  "approvingWeight p =
     (\<Sum>v \<leftarrow> filter cv_approve (jvalues (cp_votes p)). voteWeight p (cv_voterId v))"

definition totalCastWeight :: "'v consensus_proposal \<Rightarrow> rat" where
  "totalCastWeight p = (\<Sum>v \<leftarrow> jvalues (cp_votes p). voteWeight p (cv_voterId v))"

definition raft_quorum :: "rat \<Rightarrow> nat \<Rightarrow> int" where
  "raft_quorum threshold peers = \<lfloor>rat_of_nat (peers + 1) * threshold\<rfloor>"

definition checkConsensus :: "rat \<Rightarrow> nat \<Rightarrow> 'v consensus_proposal \<Rightarrow> 'v consensus_proposal" where
  "checkConsensus threshold peers p =
     (if cp_status p \<noteq> PPending then p
      else
        let totalVoters = rat_of_nat (peers + 1);
            quorum = rat_of_int (raft_quorum threshold peers)
        in if approvingWeight p \<ge> quorum then p\<lparr>cp_status := PAccepted\<rparr>
           else if totalCastWeight p - approvingWeight p > totalVoters - quorum then p\<lparr>cp_status := PRejected\<rparr>
           else p)"

text \<open>The proposal of \<open>propose\<close> with the vote of the leader, a vote, and one tick of \<open>awaitConsensus\<close>.\<close>

definition new_proposal :: "string \<Rightarrow> string \<Rightarrow> 'v \<Rightarrow> int \<Rightarrow> (string, rat) jsmap option \<Rightarrow> 'v consensus_proposal" where
  "new_proposal i leader v t ws =
     \<lparr>cp_id = i, cp_value = v, cp_term = t, cp_votes = [(leader, \<lparr>cv_voterId = leader, cv_approve = True\<rparr>)],
      cp_status = PPending, cp_weights = ws\<rparr>"

definition raft_vote :: "rat \<Rightarrow> nat \<Rightarrow> consensus_vote \<Rightarrow> 'v consensus_proposal \<Rightarrow> 'v consensus_proposal" where
  "raft_vote threshold peers v p =
     (if cp_status p \<noteq> PPending then p
      else checkConsensus threshold peers (p\<lparr>cp_votes := jset (cv_voterId v) v (cp_votes p)\<rparr>))"

definition await_tick :: "time \<Rightarrow> time \<Rightarrow> time \<Rightarrow> 'v consensus_proposal \<Rightarrow> 'v consensus_proposal" where
  "await_tick startTime timeoutMs now p =
     (if cp_status p \<noteq> PPending then p
      else if now - startTime > timeoutMs then p\<lparr>cp_status := PExpired\<rparr> else p)"

datatype proposal_op = CastVote consensus_vote | AwaitTick time

fun proposal_step :: "rat \<Rightarrow> nat \<Rightarrow> time \<Rightarrow> time \<Rightarrow> proposal_op \<Rightarrow> 'v consensus_proposal \<Rightarrow> 'v consensus_proposal" where
  "proposal_step threshold peers startTime timeoutMs (CastVote v) p = raft_vote threshold peers v p"
| "proposal_step threshold peers startTime timeoutMs (AwaitTick now) p = await_tick startTime timeoutMs now p"

section \<open>Decisions\<close>

definition ballots :: "bool \<Rightarrow> 'v consensus_proposal \<Rightarrow> consensus_vote list" where
  "ballots b p = filter (\<lambda>v. cv_approve v = b) (jvalues (cp_votes p))"

definition ballots_wf :: "'v consensus_proposal \<Rightarrow> bool" where
  "ballots_wf p \<longleftrightarrow> jwf (cp_votes p) \<and> (\<forall>(k, v) \<in> set (cp_votes p). cv_voterId v = k)"

lemma ballots_distinct: "ballots_wf p \<Longrightarrow> distinct (map cv_voterId (ballots b p))"
proof -
  assume wf: "ballots_wf p"
  then have "map (cv_voterId \<circ> snd) (cp_votes p) = map fst (cp_votes p)"
    by (auto simp: ballots_wf_def)
  moreover have "distinct (map fst (cp_votes p))"
    using wf by (simp add: ballots_wf_def jwf_def jkeys_def)
  ultimately have "distinct (map cv_voterId (jvalues (cp_votes p)))"
    unfolding jvalues_def map_map by metis
  then show ?thesis
    by (simp add: ballots_def distinct_map_filter)
qed

lemma set_jset: "set (jset k v m) \<subseteq> insert (k, v) (set m)"
  by (induction m) (auto split: if_splits)

lemma ballots_wf_vote: "ballots_wf p \<Longrightarrow> ballots_wf (p\<lparr>cp_votes := jset (cv_voterId v) v (cp_votes p)\<rparr>)"
  using set_jset [of "cv_voterId v" v "cp_votes p"] by (auto simp: ballots_wf_def)

lemma voteWeight_bounds: "0 \<le> voteWeight p x" "voteWeight p x \<le> 1"
  by (simp_all add: voteWeight_def Let_def)

lemma sum_le_count: "(\<And>x. f x \<le> (1 :: rat)) \<Longrightarrow> (\<Sum>x \<leftarrow> xs. f x) \<le> rat_of_nat (length xs)"
  by (induction xs) (auto intro: add_mono)

lemma approving_le: "approvingWeight p \<le> rat_of_nat (length (ballots True p))"
  unfolding approvingWeight_def ballots_def by simp (intro sum_le_count voteWeight_bounds)

lemma rejecting_weight:
  "totalCastWeight p - approvingWeight p = (\<Sum>v \<leftarrow> ballots False p. voteWeight p (cv_voterId v))"
proof -
  have split: "(\<Sum>v \<leftarrow> vs. f v) = (\<Sum>v \<leftarrow> filter cv_approve vs. f v) + (\<Sum>v \<leftarrow> filter (\<lambda>v. \<not> cv_approve v) vs. f v)"
    for f :: "consensus_vote \<Rightarrow> rat" and vs
    by (induction vs) simp_all
  show ?thesis
    unfolding totalCastWeight_def approvingWeight_def ballots_def
    by (subst split) simp
qed

lemma rejecting_le: "totalCastWeight p - approvingWeight p \<le> rat_of_nat (length (ballots False p))"
  unfolding rejecting_weight by (intro sum_le_count voteWeight_bounds)

text \<open>What a decided proposal shows.\<close>

definition decision_ok :: "rat \<Rightarrow> nat \<Rightarrow> 'v consensus_proposal \<Rightarrow> bool" where
  "decision_ok threshold peers p \<longleftrightarrow> ballots_wf p \<and>
     (cp_status p = PAccepted \<longrightarrow> raft_quorum threshold peers \<le> int (length (ballots True p))) \<and>
     (cp_status p = PRejected \<longrightarrow> int peers + 1 - raft_quorum threshold peers < int (length (ballots False p)))"

lemma rat_int_le: "rat_of_int a \<le> rat_of_nat b \<longleftrightarrow> a \<le> int b" "rat_of_int a < rat_of_nat b \<longleftrightarrow> a < int b"
  by (metis of_int_le_iff of_int_of_nat_eq) (metis of_int_less_iff of_int_of_nat_eq)

lemma checkConsensus_ok:
  assumes "ballots_wf p" "cp_status p = PPending"
  shows "decision_ok threshold peers (checkConsensus threshold peers p)"
proof -
  let ?q = "raft_quorum threshold peers"
  have kept: "ballots_wf (p\<lparr>cp_status := x\<rparr>) = ballots_wf p" "ballots b (p\<lparr>cp_status := x\<rparr>) = ballots b p" for x b
    by (simp_all add: ballots_wf_def ballots_def)
  have "?q \<le> int (length (ballots True p))" if "approvingWeight p \<ge> rat_of_int ?q"
    using that approving_le [of p] rat_int_le(1) order_trans by blast
  moreover have "int peers + 1 - ?q < int (length (ballots False p))"
    if "totalCastWeight p - approvingWeight p > rat_of_nat (peers + 1) - rat_of_int ?q"
  proof -
    have "rat_of_int (int peers + 1 - ?q) = rat_of_nat (peers + 1) - rat_of_int ?q"
      by simp
    then show ?thesis
      using that rejecting_le [of p] rat_int_le(2) order_less_le_trans by metis
  qed
  ultimately show ?thesis
    using assms by (simp add: checkConsensus_def decision_ok_def kept Let_def)
qed

lemma proposal_step_ok:
  assumes "decision_ok threshold peers p"
  shows "decision_ok threshold peers (proposal_step threshold peers start timeout a p)"
proof (cases a)
  case (CastVote v)
  then show ?thesis
    using assms checkConsensus_ok [OF ballots_wf_vote [of p v], of threshold peers]
    by (simp add: raft_vote_def) (simp add: decision_ok_def)
next
  case (AwaitTick now)
  then show ?thesis
    using assms by (simp add: await_tick_def decision_ok_def ballots_wf_def)
qed

interpretation proposal: invariant_system "proposal_step threshold peers start timeout" "decision_ok threshold peers"
  for threshold peers start timeout
  by unfold_locales (rule proposal_step_ok)

lemma new_proposal_ok: "decision_ok threshold peers (new_proposal i l v t ws)"
  by (simp add: decision_ok_def new_proposal_def ballots_wf_def jwf_def jkeys_def)

lemma decided_final:
  "cp_status p \<noteq> PPending \<Longrightarrow> run (proposal_step threshold peers start timeout) ops p = p"
proof (induction ops)
  case (Cons a ops)
  then show ?case by (cases a) (simp_all add: raft_vote_def await_tick_def)
qed simp

text \<open>
  The decision on a proposal. Whatever votes and clock ticks follow: an accepted proposal has approving
  votes of at least a quorum of different voters, a rejected one has rejecting votes of more different
  voters than a quorum can spare, weights of any size included; and once a proposal is accepted,
  rejected or expired no operation changes it again.
\<close>

theorem proposal_decision:
  fixes ops :: "proposal_op list" and threshold :: rat and peers :: nat and start timeout :: time
    and i l :: string and v :: 'v and t :: int and ws :: "(string, rat) jsmap option"
  defines "p \<equiv> run (proposal_step threshold peers start timeout) ops (new_proposal i l v t ws)"
  shows "(cp_status p = PAccepted \<longrightarrow> raft_quorum threshold peers \<le> int (card (cv_voterId ` set (ballots True p)))) \<and>
    (cp_status p = PRejected \<longrightarrow>
       int peers + 1 - raft_quorum threshold peers < int (card (cv_voterId ` set (ballots False p)))) \<and>
    (cp_status p \<noteq> PPending \<longrightarrow> run (proposal_step threshold peers start timeout) ops' p = p)"
proof -
  have ok: "decision_ok threshold peers p"
    unfolding p_def by (rule proposal.run_inv [OF new_proposal_ok])
  then have "card (cv_voterId ` set (ballots b p)) = length (ballots b p)" for b
    using distinct_card [OF ballots_distinct [of p b]] by (simp add: decision_ok_def)
  then show ?thesis
    using ok decided_final [of p] by (simp add: decision_ok_def)
qed

theorem proposal_decision_witness:
  "let p = run (proposal_step (66/100) 4 0 1000) [CastVote \<lparr>cv_voterId = ''b'', cv_approve = True\<rparr>,
         CastVote \<lparr>cv_voterId = ''c'', cv_approve = False\<rparr>, CastVote \<lparr>cv_voterId = ''d'', cv_approve = True\<rparr>]
       (new_proposal ''p'' ''a'' (7 :: nat) 1 (Some [(''b'', 5)]))
   in raft_quorum (66/100) 4 = 3 \<and> cp_status p = PAccepted \<and> 3 \<le> int (card (cv_voterId ` set (ballots True p))) \<and>
     run (proposal_step (66/100) 4 0 1000) [CastVote \<lparr>cv_voterId = ''e'', cv_approve = False\<rparr>] p = p"
proof -
  define p where "p = run (proposal_step (66/100) 4 0 1000) [CastVote \<lparr>cv_voterId = ''b'', cv_approve = True\<rparr>,
         CastVote \<lparr>cv_voterId = ''c'', cv_approve = False\<rparr>, CastVote \<lparr>cv_voterId = ''d'', cv_approve = True\<rparr>]
       (new_proposal ''p'' ''a'' (7 :: nat) 1 (Some [(''b'', 5)]))"
  have q: "raft_quorum (66/100) 4 = 3"
    by (simp add: raft_quorum_def floor_eq_iff)
  have "cp_status p = PAccepted"
    unfolding p_def by code_simp
  then show ?thesis
    using proposal_decision [of "66/100" 4 0 1000 "[CastVote \<lparr>cv_voterId = ''b'', cv_approve = True\<rparr>,
         CastVote \<lparr>cv_voterId = ''c'', cv_approve = False\<rparr>, CastVote \<lparr>cv_voterId = ''d'', cv_approve = True\<rparr>]"
        "''p''" "''a''" "7 :: nat" 1 "Some [(''b'', 5)]", folded p_def] q
    unfolding Let_def p_def [symmetric] by (simp add: raft_vote_def)
qed

text \<open>
  The quorum is rounded down: with the default threshold of 0.66 one vote out of three accepts, which
  is no majority.
\<close>

lemma minority_quorum: "raft_quorum (66/100) 2 = 1"
  by (simp add: raft_quorum_def floor_eq_iff)

end
