(* ===== verification/RaftElection.thy ===== *)
theory RaftElection
  imports Raft
begin

text \<open>
  A cluster of Raft nodes joined by a request-response transport: every member has all the others as
  peers. An election is a run of the loop of \<open>startElection\<close>: it has one request under way, the peer
  asked last, the peers still to ask and its count of votes. Elections, deliveries, losses, all other
  messages and calls of the public \<open>handleVoteRequest\<close> and \<open>handleAppendEntries\<close> interleave freely, and a
  node may run several elections at a time.

  Two components of the state record history only and no operation reads them: \<open>cl_ballots\<close> the first
  candidate a node has voted for in each term, and in an election the term it was started in, the
  granted votes with the term of their requests, and the term it was won in. The theorem is election safety:
  elections that were won in the term they were started in have different terms. It has one condition:
  \<open>handleAppendEntries\<close> sets \<open>votedFor\<close> to the leader it is called with, so it may replace a vote of the same
  term only in the name of a node that has won that term. \<open>append_call_elects_second_leader\<close> shows that without
  it a term gets two leaders.
\<close>

section \<open>The cluster\<close>

datatype 'v rpc = Sent "'v raft_message" | Answered "'v raft_message" "raft_reply option"

datatype 'v election_stage = Asking string "'v rpc" "string list" | Won int | Lost

record 'v election =
  el_candidate :: string
  el_term :: int
  el_votes :: nat
  el_voters :: "(string \<times> int) list"
  el_stage :: "'v election_stage"

record 'v cluster =
  cl_nodes :: "string \<Rightarrow> 'v raft_node"
  cl_elections :: "'v election list"
  cl_ballots :: "string \<times> int \<Rightarrow> string option"

datatype 'v cluster_action =
    StartElection string
  | DeliverRequest nat
  | LoseMessage nat
  | HandleReply nat
  | Inbound string "'v raft_message"
  | VoteRequest string string int int int
  | AppendReply string "raft_reply option"
  | AppendCall string string int "'v raft_log_entry list" int
  | Propose string time 'v
  | Replicated string "'v raft_log_entry" "bool list"

definition new_cluster :: "'v cluster" where
  "new_cluster = \<lparr>cl_nodes = new_raft_node, cl_elections = [], cl_ballots = (\<lambda>_. None)\<rparr>"

definition peers_of :: "string list \<Rightarrow> string \<Rightarrow> string list" where
  "peers_of members i = filter (\<lambda>p. p \<noteq> i) members"

text \<open>The head of the loop: ask the next peer, or give up when none is left.\<close>

definition next_peer :: "string list \<Rightarrow> 'v raft_node \<Rightarrow> 'v election_stage \<times> 'v raft_node" where
  "next_peer ps n =
     (case ps of [] \<Rightarrow> (Lost, election_failed n) | p # rest \<Rightarrow> (Asking p (Sent (vote_request n)) rest, n))"

definition startElection :: "string list \<Rightarrow> 'v raft_node \<Rightarrow> 'v election \<times> 'v raft_node" where
  "startElection ps n =
     (let n1 = begin_election n;
          (stage, n2) = next_peer ps n1
      in (\<lparr>el_candidate = rn_id n, el_term = rn_currentTerm n1, el_votes = 1, el_voters = [], el_stage = stage\<rparr>, n2))"

text \<open>The body of the loop after \<open>await this.requestVote(peerId)\<close>.\<close>

definition election_reply ::
    "nat \<Rightarrow> string \<Rightarrow> int \<Rightarrow> raft_reply option \<Rightarrow> string list \<Rightarrow> 'v election \<Rightarrow> 'v raft_node
      \<Rightarrow> 'v election \<times> 'v raft_node" where
  "election_reply needed p t reply rest e n =
     (let (granted, n1) = requestVote_reply reply n;
          e1 = (if granted then e\<lparr>el_votes := el_votes e + 1, el_voters := (p, t) # el_voters e\<rparr> else e)
      in if el_votes e1 \<ge> needed then (e1\<lparr>el_stage := Won (rn_currentTerm n1)\<rparr>, becomeLeader n1)
         else let (stage, n2) = next_peer rest n1 in (e1\<lparr>el_stage := stage\<rparr>, n2))"

definition set_node :: "string \<Rightarrow> 'v raft_node \<Rightarrow> 'v cluster \<Rightarrow> 'v cluster" where
  "set_node i n s =
     s\<lparr>cl_nodes := (cl_nodes s)(i := n),
       cl_ballots := (if cl_ballots s (i, rn_currentTerm n) = None then (cl_ballots s)((i, rn_currentTerm n) := rn_votedFor n)
                      else cl_ballots s)\<rparr>"

definition set_election :: "nat \<Rightarrow> 'v election \<Rightarrow> 'v cluster \<Rightarrow> 'v cluster" where
  "set_election k e s = s\<lparr>cl_elections := (cl_elections s)[k := e]\<rparr>"

definition request_term :: "'v raft_message \<Rightarrow> int" where
  "request_term m = nullish (pl_term (ms_payload m)) 0"

definition on_election :: "nat \<Rightarrow> ('v election \<Rightarrow> 'v cluster \<Rightarrow> 'v cluster) \<Rightarrow> 'v cluster \<Rightarrow> 'v cluster" where
  "on_election k f s = (if k < length (cl_elections s) then f (cl_elections s ! k) s else s)"

text \<open>The receiver answers the request of an election; a request or its answer is lost.\<close>

definition deliver_request :: "nat \<Rightarrow> 'v election \<Rightarrow> 'v cluster \<Rightarrow> 'v cluster" where
  "deliver_request k e s =
     (case el_stage e of
        Asking p (Sent m) rest \<Rightarrow>
          let (reply, n) = handleInboundRaftMessage m (cl_nodes s p)
          in set_election k (e\<lparr>el_stage := Asking p (Answered m reply) rest\<rparr>) (set_node p n s)
      | _ \<Rightarrow> s)"

fun rpc_message :: "'v rpc \<Rightarrow> 'v raft_message" where
  "rpc_message (Sent m) = m"
| "rpc_message (Answered m _) = m"

definition lose_message :: "nat \<Rightarrow> 'v election \<Rightarrow> 'v cluster \<Rightarrow> 'v cluster" where
  "lose_message k e s =
     (case el_stage e of
        Asking p r rest \<Rightarrow> set_election k (e\<lparr>el_stage := Asking p (Answered (rpc_message r) None) rest\<rparr>) s
      | _ \<Rightarrow> s)"

definition handle_reply :: "string list \<Rightarrow> nat \<Rightarrow> 'v election \<Rightarrow> 'v cluster \<Rightarrow> 'v cluster" where
  "handle_reply members k e s =
     (case el_stage e of
        Asking p (Answered m reply) rest \<Rightarrow>
          let c = el_candidate e;
              (e1, n) = election_reply (votes_needed (length (peers_of members c))) p (request_term m) reply rest e
                          (cl_nodes s c)
          in set_election k e1 (set_node c n s)
      | _ \<Rightarrow> s)"

fun cluster_step :: "string list \<Rightarrow> 'v cluster_action \<Rightarrow> 'v cluster \<Rightarrow> 'v cluster" where
  "cluster_step members (StartElection c) s =
     (if c \<in> set members then
        let (e, n) = startElection (peers_of members c) (cl_nodes s c)
        in (set_node c n s)\<lparr>cl_elections := cl_elections s @ [e]\<rparr>
      else s)"
| "cluster_step members (DeliverRequest k) s = on_election k (deliver_request k) s"
| "cluster_step members (LoseMessage k) s = on_election k (lose_message k) s"
| "cluster_step members (HandleReply k) s = on_election k (handle_reply members k) s"
| "cluster_step members (Inbound i m) s = set_node i (snd (handleInboundRaftMessage m (cl_nodes s i))) s"
| "cluster_step members (VoteRequest i c t li lt) s = set_node i (snd (handleVoteRequest c t li lt (cl_nodes s i))) s"
| "cluster_step members (AppendReply i r) s = set_node i (snd (appendEntries_reply r (cl_nodes s i))) s"
| "cluster_step members (AppendCall i leaderId t entries leaderCommit) s =
     set_node i (snd (handleAppendEntries leaderId t entries leaderCommit (cl_nodes s i))) s"
| "cluster_step members (Propose i now v) s =
     (case propose_entry now v (cl_nodes s i) of None \<Rightarrow> s | Some (_, n) \<Rightarrow> set_node i n s)"
| "cluster_step members (Replicated i entry results) s =
     set_node i (replicate_end (length (peers_of members i)) entry results (cl_nodes s i)) s"

text \<open>The elections that were won in the term they were started in, and the condition on \<open>handleAppendEntries\<close>.\<close>

definition wins :: "'v cluster \<Rightarrow> string \<Rightarrow> int \<Rightarrow> bool" where
  "wins s c t \<longleftrightarrow> (\<exists>e \<in> set (cl_elections s). el_candidate e = c \<and> el_term e = t \<and> el_stage e = Won t)"

fun cluster_ok :: "'v cluster_action \<Rightarrow> 'v cluster \<Rightarrow> bool" where
  "cluster_ok (AppendCall i leaderId t entries leaderCommit) s \<longleftrightarrow>
     rn_currentTerm (cl_nodes s i) \<noteq> t \<or> rn_votedFor (cl_nodes s i) \<in> {None, Some leaderId} \<or> wins s leaderId t"
| "cluster_ok _ s \<longleftrightarrow> True"

section \<open>One vote per term\<close>

text \<open>
  What every operation of a node but \<open>handleAppendEntries\<close> keeps: the term never falls, and within a term a
  vote is never changed or taken back.
\<close>

definition votes_kept :: "'v raft_node \<Rightarrow> 'v raft_node \<Rightarrow> bool" where
  "votes_kept n n' \<longleftrightarrow> rn_id n' = rn_id n \<and> rn_currentTerm n \<le> rn_currentTerm n' \<and>
     (rn_currentTerm n' = rn_currentTerm n \<longrightarrow> rn_votedFor n \<noteq> None \<longrightarrow> rn_votedFor n' = rn_votedFor n)"

named_theorems votes_kept_intros

lemma votes_kept_refl [votes_kept_intros]: "votes_kept n n"
  by (simp add: votes_kept_def)

lemma votes_kept_inbound [votes_kept_intros]: "votes_kept n (snd (handleInboundRaftMessage m n))"
  by (auto simp: votes_kept_def handleInboundRaftMessage_def adopt_term_def handle_request_vote_def
      handle_append_entries_def Let_def split: raft_msg_type.splits prod.splits if_splits)

lemma votes_kept_request [votes_kept_intros]: "votes_kept n (snd (handleVoteRequest c t li lt n))"
  by (auto simp: votes_kept_def handleVoteRequest_def Let_def split: prod.splits)

lemma votes_kept_reply [votes_kept_intros]: "votes_kept n (snd (requestVote_reply r n))"
  by (auto simp: votes_kept_def requestVote_reply_def split: option.splits)

lemma votes_kept_append [votes_kept_intros]: "votes_kept n (snd (appendEntries_reply r n))"
  unfolding appendEntries_reply_def by (rule votes_kept_reply)

lemma votes_kept_propose [votes_kept_intros]: "propose_entry now v n = Some (e, n') \<Longrightarrow> votes_kept n n'"
  by (auto simp: votes_kept_def propose_entry_def Let_def split: if_splits)

lemma votes_kept_replicate [votes_kept_intros]: "votes_kept n (replicate_end k e rs n)"
  by (simp add: votes_kept_def replicate_end_def Let_def)

lemma next_peer_node:
  "rn_id (snd (next_peer ps n)) = rn_id n" "rn_currentTerm (snd (next_peer ps n)) = rn_currentTerm n"
  "rn_votedFor (snd (next_peer ps n)) = rn_votedFor n"
  by (simp_all add: next_peer_def election_failed_def split: list.splits)

lemma election_reply_node:
  "rn_id (snd (election_reply k p t r rest e n)) = rn_id (snd (requestVote_reply r n))"
  "rn_currentTerm (snd (election_reply k p t r rest e n)) = rn_currentTerm (snd (requestVote_reply r n))"
  "rn_votedFor (snd (election_reply k p t r rest e n)) = rn_votedFor (snd (requestVote_reply r n))"
  by (auto simp: election_reply_def becomeLeader_def Let_def next_peer_node split: prod.splits)
    (use next_peer_node in \<open>metis snd_conv\<close>)+

lemma votes_kept_election_reply [votes_kept_intros]: "votes_kept n (snd (election_reply k p t r rest e n))"
  using votes_kept_reply [of n r] by (simp add: votes_kept_def election_reply_node)

lemma votes_kept_begin: "votes_kept n (begin_election n)"
  by (simp add: votes_kept_def begin_election_def)

lemma startElection_node:
  "rn_id (snd (startElection ps n)) = rn_id n" "rn_currentTerm (snd (startElection ps n)) = rn_currentTerm n + 1"
  "rn_votedFor (snd (startElection ps n)) = Some (rn_id n)"
  using next_peer_node [of ps "begin_election n"]
  by (simp_all add: startElection_def begin_election_def Let_def case_prod_beta)

lemma votes_kept_start [votes_kept_intros]: "votes_kept n (snd (startElection ps n))"
  by (simp add: votes_kept_def startElection_node)

text \<open>A granted vote is recorded in the term of the request.\<close>

lemma granted_vote:
  assumes "handleInboundRaftMessage m n = (Some r, n')" "rp_ok r" "ms_type m = RequestVote"
    "pl_candidateId (ms_payload m) = Some c"
  shows "rn_currentTerm n' = request_term m \<and> rn_votedFor n' = Some c"
  using assms
  by (auto simp: handleInboundRaftMessage_def handle_request_vote_def adopt_term_def request_term_def Let_def
      split: prod.splits if_splits)

lemma denied_reply: "fst (requestVote_reply r n) \<Longrightarrow> (\<exists>x. r = Some x \<and> rp_ok x) \<and> snd (requestVote_reply r n) = n"
  by (auto simp: requestVote_reply_def split: option.splits if_splits)

text \<open>
  A change of a node in a cluster: within a term a vote changes only to a candidate that has won the term. So the vote
  of a node is its first one of the term, or for the winner of the term.
\<close>

definition vote_change :: "'v cluster \<Rightarrow> 'v raft_node \<Rightarrow> 'v raft_node \<Rightarrow> bool" where
  "vote_change s n n' \<longleftrightarrow> rn_id n' = rn_id n \<and> rn_currentTerm n \<le> rn_currentTerm n' \<and>
     (rn_currentTerm n' = rn_currentTerm n \<longrightarrow> rn_votedFor n \<noteq> None \<longrightarrow>
        rn_votedFor n' = rn_votedFor n \<or> (\<exists>c. rn_votedFor n' = Some c \<and> wins s c (rn_currentTerm n)))"

lemma votes_kept_change: "votes_kept n n' \<Longrightarrow> vote_change s n n'"
  by (simp add: votes_kept_def vote_change_def)

lemma vote_change_append_call:
  "cluster_ok (AppendCall i leaderId t entries leaderCommit) s \<Longrightarrow>
    vote_change s (cl_nodes s i) (snd (handleAppendEntries leaderId t entries leaderCommit (cl_nodes s i)))"
  by (auto simp: vote_change_def handleAppendEntries_def Let_def)

definition node_inv :: "'v cluster \<Rightarrow> string \<Rightarrow> bool" where
  "node_inv s i \<longleftrightarrow> rn_id (cl_nodes s i) = i \<and>
     (case rn_votedFor (cl_nodes s i) of
        None \<Rightarrow> cl_ballots s (i, rn_currentTerm (cl_nodes s i)) = None
      | Some c \<Rightarrow> cl_ballots s (i, rn_currentTerm (cl_nodes s i)) = Some c \<or>
          cl_ballots s (i, rn_currentTerm (cl_nodes s i)) \<noteq> None \<and> wins s c (rn_currentTerm (cl_nodes s i))) \<and>
     (\<forall>t > rn_currentTerm (cl_nodes s i). cl_ballots s (i, t) = None)"

definition nodes_inv :: "'v cluster \<Rightarrow> bool" where
  "nodes_inv s \<longleftrightarrow> (\<forall>i. node_inv s i)"

lemma nodes_invD:
  assumes "nodes_inv s"
  shows "rn_id (cl_nodes s i) = i" "rn_currentTerm (cl_nodes s i) < t \<Longrightarrow> cl_ballots s (i, t) = None"
    "rn_votedFor (cl_nodes s i) = None \<Longrightarrow> cl_ballots s (i, rn_currentTerm (cl_nodes s i)) = None"
    "rn_votedFor (cl_nodes s i) = Some c \<Longrightarrow> cl_ballots s (i, rn_currentTerm (cl_nodes s i)) = Some c \<or>
       cl_ballots s (i, rn_currentTerm (cl_nodes s i)) \<noteq> None \<and> wins s c (rn_currentTerm (cl_nodes s i))"
  using spec [OF assms [unfolded nodes_inv_def], of i] by (auto simp: node_inv_def split: option.splits)

text \<open>The order of clusters: no term falls and no recorded vote changes.\<close>

definition grows :: "'v cluster \<Rightarrow> 'v cluster \<Rightarrow> bool" where
  "grows s s' \<longleftrightarrow> (\<forall>i. rn_currentTerm (cl_nodes s i) \<le> rn_currentTerm (cl_nodes s' i)) \<and>
     (\<forall>k c. cl_ballots s k = Some c \<longrightarrow> cl_ballots s' k = Some c)"

lemma set_node_simps [simp]:
  "cl_elections (set_node i n s) = cl_elections s" "cl_nodes (set_node i n s) = (cl_nodes s)(i := n)" "wins (set_node i n s) = wins s"
  by (simp_all add: set_node_def wins_def fun_eq_iff)

lemma nodes_inv_mono:
  assumes "nodes_inv s" "cl_nodes s' = cl_nodes s" "cl_ballots s' = cl_ballots s" "\<And>c t. wins s c t \<Longrightarrow> wins s' c t"
  shows "nodes_inv s'"
  using assms unfolding nodes_inv_def node_inv_def by (fastforce split: option.splits)

lemma set_node_grows:
  assumes "nodes_inv s" "vote_change s (cl_nodes s i) n"
  shows "nodes_inv (set_node i n s)" "grows s (set_node i n s)"
proof -
  let ?b = "cl_ballots s (i, rn_currentTerm n)"
  note i = nodes_invD [OF assms(1), of i]
  have n: "rn_id n = i" "rn_currentTerm (cl_nodes s i) \<le> rn_currentTerm n"
    "rn_currentTerm n = rn_currentTerm (cl_nodes s i) \<Longrightarrow> rn_votedFor (cl_nodes s i) \<noteq> None \<Longrightarrow>
       rn_votedFor n = rn_votedFor (cl_nodes s i) \<or> (\<exists>c. rn_votedFor n = Some c \<and> wins s c (rn_currentTerm (cl_nodes s i)))"
    using assms(2) i(1) by (auto simp: vote_change_def)
  have old: "\<exists>c. rn_votedFor n = Some c \<and> (?b = Some c \<or> wins s c (rn_currentTerm n))" if b: "?b \<noteq> None"
  proof -
    have same: "rn_currentTerm n = rn_currentTerm (cl_nodes s i)"
      using b n(2) i(2) [of "rn_currentTerm n"] by fastforce
    then obtain c where "rn_votedFor (cl_nodes s i) = Some c"
      using b i(3) by fastforce
    then show ?thesis
      using same n(3) i(4) by auto
  qed
  have "\<forall>t > rn_currentTerm n. cl_ballots s (i, t) = None"
    using i(2) n(2) by auto
  then have "node_inv (set_node i n s) i"
    using n(1) old by (cases "?b") (auto simp: node_inv_def set_node_def wins_def split: option.splits)
  moreover have "node_inv (set_node i n s) j" if "j \<noteq> i" for j
  proof -
    have "cl_ballots (set_node i n s) (j, t) = cl_ballots s (j, t)" for t
      using that by (simp add: set_node_def)
    then show ?thesis
      using assms(1) that by (simp add: nodes_inv_def node_inv_def cong: option.case_cong)
  qed
  ultimately show "nodes_inv (set_node i n s)"
    unfolding nodes_inv_def by metis
  show "grows s (set_node i n s)"
    using n(2) by (auto simp: grows_def set_node_def)
qed

section \<open>Elections and their votes\<close>

definition request_inv :: "'v cluster \<Rightarrow> 'v election \<Rightarrow> 'v raft_message \<Rightarrow> bool" where
  "request_inv s e m \<longleftrightarrow> ms_type m = RequestVote \<and> pl_candidateId (ms_payload m) = Some (el_candidate e) \<and>
     el_term e \<le> request_term m \<and> request_term m \<le> rn_currentTerm (cl_nodes s (el_candidate e))"

text \<open>A vote in the term of the election is the first vote of its voter there.\<close>

definition counts :: "'v cluster \<Rightarrow> 'v election \<Rightarrow> string \<Rightarrow> int \<Rightarrow> bool" where
  "counts s e p t \<longleftrightarrow> cl_ballots s (p, t) = Some (el_candidate e) \<or> el_term e < t"

fun stage_inv :: "string list \<Rightarrow> 'v cluster \<Rightarrow> 'v election \<Rightarrow> 'v election_stage \<Rightarrow> bool" where
  "stage_inv members s e (Asking p r rest) \<longleftrightarrow>
     request_inv s e (rpc_message r) \<and> distinct (p # rest) \<and> set (p # rest) \<inter> fst ` set (el_voters e) = {} \<and>
     set (p # rest) \<subseteq> set (peers_of members (el_candidate e)) \<and>
     (case r of Answered m (Some x) \<Rightarrow> rp_ok x \<longrightarrow> counts s e p (request_term m) | _ \<Rightarrow> True)"
| "stage_inv members s e (Won w) \<longleftrightarrow>
     el_votes e \<ge> votes_needed (length (peers_of members (el_candidate e))) \<and> (\<forall>(p, t) \<in> set (el_voters e). t \<le> w)"
| "stage_inv members s e Lost \<longleftrightarrow> True"

definition election_inv :: "string list \<Rightarrow> 'v cluster \<Rightarrow> 'v election \<Rightarrow> bool" where
  "election_inv members s e \<longleftrightarrow>
     el_candidate e \<in> set members \<and> el_term e \<le> rn_currentTerm (cl_nodes s (el_candidate e)) \<and>
     cl_ballots s (el_candidate e, el_term e) = Some (el_candidate e) \<and>
     el_votes e = 1 + length (el_voters e) \<and> distinct (map fst (el_voters e)) \<and>
     fst ` set (el_voters e) \<subseteq> set (peers_of members (el_candidate e)) \<and>
     (\<forall>(p, t) \<in> set (el_voters e). el_term e \<le> t \<and> t \<le> rn_currentTerm (cl_nodes s (el_candidate e)) \<and>
        counts s e p t) \<and>
     stage_inv members s e (el_stage e)"

lemma stage_inv_grows: "stage_inv members s e g \<Longrightarrow> grows s s' \<Longrightarrow> stage_inv members s' e g"
  by (cases g) (fastforce simp: request_inv_def grows_def counts_def split: rpc.splits option.splits intro: order_trans)+

lemma election_inv_grows: "election_inv members s e \<Longrightarrow> grows s s' \<Longrightarrow> election_inv members s' e"
  unfolding election_inv_def using stage_inv_grows by (fastforce simp: grows_def counts_def intro: order_trans)

definition cluster_inv :: "string list \<Rightarrow> 'v cluster \<Rightarrow> bool" where
  "cluster_inv members s \<longleftrightarrow> nodes_inv s \<and> (\<forall>e \<in> set (cl_elections s). election_inv members s e) \<and>
     distinct (map (\<lambda>e. (el_candidate e, el_term e)) (cl_elections s)) \<and>
     (\<forall>i. rn_state (cl_nodes s i) = Leader \<longrightarrow>
        (\<exists>e \<in> set (cl_elections s). el_candidate e = i \<and> el_stage e = Won (rn_currentTerm (cl_nodes s i))))"

section \<open>Preservation\<close>

text \<open>No operation but the end of an election makes a leader or keeps one in a new term.\<close>

definition no_new_leader :: "'v raft_node \<Rightarrow> 'v raft_node \<Rightarrow> bool" where
  "no_new_leader n n' \<longleftrightarrow>
     (rn_state n' = Leader \<longrightarrow> rn_state n = Leader \<and> rn_currentTerm n' = rn_currentTerm n)"

named_theorems no_new_leader_intros

lemma no_new_leader_refl [no_new_leader_intros]: "no_new_leader n n"
  by (simp add: no_new_leader_def)

lemma no_new_leader_inbound [no_new_leader_intros]: "no_new_leader n (snd (handleInboundRaftMessage m n))"
  by (auto simp: no_new_leader_def handleInboundRaftMessage_def adopt_term_def handle_request_vote_def
      handle_append_entries_def Let_def split: raft_msg_type.splits prod.splits if_splits)

lemma no_new_leader_request [no_new_leader_intros]: "no_new_leader n (snd (handleVoteRequest c t li lt n))"
  by (auto simp: no_new_leader_def handleVoteRequest_def Let_def split: prod.splits if_splits)

lemma no_new_leader_reply [no_new_leader_intros]: "no_new_leader n (snd (requestVote_reply r n))"
  by (auto simp: no_new_leader_def requestVote_reply_def split: option.splits)

lemma no_new_leader_append [no_new_leader_intros]: "no_new_leader n (snd (appendEntries_reply r n))"
  unfolding appendEntries_reply_def by (rule no_new_leader_reply)

lemma no_new_leader_append_call [no_new_leader_intros]: "no_new_leader n (snd (handleAppendEntries l t es lc n))"
  by (auto simp: no_new_leader_def handleAppendEntries_def Let_def)

lemma no_new_leader_propose [no_new_leader_intros]: "propose_entry now v n = Some (e, n') \<Longrightarrow> no_new_leader n n'"
  by (auto simp: no_new_leader_def propose_entry_def Let_def split: if_splits)

lemma no_new_leader_replicate [no_new_leader_intros]: "no_new_leader n (replicate_end k e rs n)"
  by (simp add: no_new_leader_def replicate_end_def Let_def)

lemma no_new_leader_next: "no_new_leader n n' \<Longrightarrow> no_new_leader n (snd (next_peer ps n'))"
  by (auto simp: no_new_leader_def next_peer_def election_failed_def split: list.splits)

lemma no_new_leader_start [no_new_leader_intros]: "no_new_leader n (snd (startElection ps n))"
  by (auto simp: no_new_leader_def startElection_def next_peer_def election_failed_def begin_election_def Let_def
      split: list.splits)

lemma set_node_inv:
  assumes "cluster_inv members s" "vote_change s (cl_nodes s i) n" "no_new_leader (cl_nodes s i) n"
  shows "cluster_inv members (set_node i n s)"
proof -
  have s: "nodes_inv s" "\<forall>e \<in> set (cl_elections s). election_inv members s e"
    "distinct (map (\<lambda>e. (el_candidate e, el_term e)) (cl_elections s))"
    "\<forall>i. rn_state (cl_nodes s i) = Leader \<longrightarrow>
        (\<exists>e \<in> set (cl_elections s). el_candidate e = i \<and> el_stage e = Won (rn_currentTerm (cl_nodes s i)))"
    using assms(1) by (auto simp: cluster_inv_def)
  note g = set_node_grows [OF s(1) assms(2)]
  have "\<forall>e \<in> set (cl_elections s). election_inv members (set_node i n s) e"
    using s(2) election_inv_grows [OF _ g(2)] by blast
  moreover have "\<exists>e \<in> set (cl_elections s). el_candidate e = j \<and> el_stage e = Won (rn_currentTerm (cl_nodes (set_node i n s) j))"
    if "rn_state (cl_nodes (set_node i n s) j) = Leader" for j
    using s(4) that assms(3) by (cases "j = i") (auto simp: set_node_def no_new_leader_def)
  ultimately show ?thesis
    using g(1) s(3) by (simp add: cluster_inv_def)
qed

lemma set_node_same:
  assumes "nodes_inv s"
  shows "set_node i (cl_nodes s i) s = s"
proof -
  have "cl_ballots s (i, rn_currentTerm (cl_nodes s i)) = None \<Longrightarrow> rn_votedFor (cl_nodes s i) = None"
    using nodes_invD(4) [OF assms, of i] by fastforce
  then show ?thesis
    by (auto simp: set_node_def fun_upd_idem)
qed

lemma map_update_same: "k < length xs \<Longrightarrow> f y = f (xs ! k) \<Longrightarrow> map f (xs[k := y]) = map f xs"
  by (simp add: map_update list_update_same_conv)

lemma set_election_inv:
  assumes s: "cluster_inv members s" and k: "k < length (cl_elections s)" "e = cl_elections s ! k"
    and e': "el_candidate e' = el_candidate e" "el_term e' = el_term e"
    and run: "\<And>w. el_stage e \<noteq> Won w"
    and i: "vote_change s (cl_nodes s i) n"
    and inv: "election_inv members (set_node i n s) e'"
    and won: "no_new_leader (cl_nodes s i) n \<or> (i = el_candidate e \<and> el_stage e' = Won (rn_currentTerm n))"
  shows "cluster_inv members (set_election k e' (set_node i n s))" (is "cluster_inv members ?s")
proof -
  have ni: "nodes_inv s" using s by (simp add: cluster_inv_def)
  note g = set_node_grows [OF ni i]
  have es: "cl_elections ?s = (cl_elections s)[k := e']"
    and ns: "cl_nodes ?s = (cl_nodes s)(i := n)" and bs: "cl_ballots ?s = cl_ballots (set_node i n s)"
    by (simp_all add: set_election_def)
  have lift: "election_inv members ?s x = election_inv members (set_node i n s) x" for x
    unfolding election_inv_def
    by (cases "el_stage x") (simp_all add: request_inv_def set_election_def counts_def cong: rpc.case_cong option.case_cong)
  have "\<forall>x \<in> set (cl_elections ?s). election_inv members ?s x"
  proof
    fix x assume "x \<in> set (cl_elections ?s)"
    then have "x = e' \<or> x \<in> set (cl_elections s)"
      using set_update_subset_insert unfolding es by fast
    then show "election_inv members ?s x"
      using inv s election_inv_grows [OF _ g(2)] unfolding lift by (auto simp: cluster_inv_def)
  qed
  moreover have "map (\<lambda>e. (el_candidate e, el_term e)) (cl_elections ?s) = map (\<lambda>e. (el_candidate e, el_term e)) (cl_elections s)"
    unfolding es by (rule map_update_same) (use k e' in auto)
  moreover have "\<exists>x \<in> set (cl_elections ?s). el_candidate x = j \<and> el_stage x = Won (rn_currentTerm (cl_nodes ?s j))"
    if lead: "rn_state (cl_nodes ?s j) = Leader" for j
  proof (cases "j = i \<and> \<not> no_new_leader (cl_nodes s i) n")
    case True
    then show ?thesis
      using won e' k set_update_memI [OF k(1)] unfolding es ns by auto
  next
    case False
    then have "rn_state (cl_nodes s j) = Leader \<and> rn_currentTerm (cl_nodes ?s j) = rn_currentTerm (cl_nodes s j)"
      using lead unfolding ns by (auto simp: no_new_leader_def)
    then obtain x where x: "x \<in> set (cl_elections s)" "el_candidate x = j" "el_stage x = Won (rn_currentTerm (cl_nodes ?s j))"
      using s unfolding cluster_inv_def by metis
    then obtain l where l: "l < length (cl_elections s)" "cl_elections s ! l = x"
      by (auto simp: in_set_conv_nth)
    then have "l \<noteq> k"
      using x(3) run k by auto
    then have "x \<in> set (cl_elections ?s)"
      using l unfolding es by (metis length_list_update nth_list_update_neq nth_mem)
    then show ?thesis using x by blast
  qed
  moreover have "wins s c t \<Longrightarrow> wins ?s c t" for c t
    using run k unfolding wins_def es by (metis in_set_conv_nth length_list_update nth_list_update_neq)
  then have "nodes_inv ?s"
    using g(1) by (intro nodes_inv_mono [OF g(1)]) (simp_all add: set_election_def)
  ultimately show ?thesis
    using s by (simp add: cluster_inv_def)
qed

lemma cluster_inv_election:
  "cluster_inv members s \<Longrightarrow> k < length (cl_elections s) \<Longrightarrow> election_inv members s (cl_elections s ! k)"
  by (simp add: cluster_inv_def)

text \<open>An election that is not won yet is not the one its candidate has won in a term.\<close>

lemma running_not_winner:
  assumes "cluster_inv members s" "k < length (cl_elections s)" "e = cl_elections s ! k" "\<And>w. el_stage e \<noteq> Won w"
    "wins s (el_candidate e) t" "el_term e \<le> t"
  shows "el_term e < t"
proof -
  obtain l where l: "l < length (cl_elections s)" "el_candidate (cl_elections s ! l) = el_candidate e"
      "el_term (cl_elections s ! l) = t" "el_stage (cl_elections s ! l) = Won t"
    using assms(5) by (auto simp: wins_def in_set_conv_nth)
  moreover have "distinct (map (\<lambda>e. (el_candidate e, el_term e)) (cl_elections s))"
    using assms(1) by (simp add: cluster_inv_def)
  ultimately have "el_term e \<noteq> t"
    using assms(2-4) by (auto simp: distinct_conv_nth) (metis assms(4))
  then show ?thesis
    using assms(6) by simp
qed

lemma deliver_request_inv:
  assumes s: "cluster_inv members s" and k: "k < length (cl_elections s)" "e = cl_elections s ! k"
  shows "cluster_inv members (deliver_request k e s)"
proof (cases "\<exists>p m rest. el_stage e = Asking p (Sent m) rest")
  case True
  then obtain p m rest where st: "el_stage e = Asking p (Sent m) rest"
    by blast
  obtain reply n where h: "handleInboundRaftMessage m (cl_nodes s p) = (reply, n)"
    by fastforce
  then have n: "vote_change s (cl_nodes s p) n" "no_new_leader (cl_nodes s p) n"
    using votes_kept_change [OF votes_kept_inbound [of "cl_nodes s p" m], of s] no_new_leader_inbound [of "cl_nodes s p" m] by simp_all
  define e' where "e' = e\<lparr>el_stage := Asking p (Answered m reply) rest\<rparr>"
  have "election_inv members (set_node p n s) e"
    using cluster_inv_election [OF s k(1)] set_node_grows(2) [OF _ n(1)] election_inv_grows s k(2)
    unfolding cluster_inv_def by blast
  moreover have "counts (set_node p n s) e' p (request_term m)" if "reply = Some x" "rp_ok x" for x
  proof -
    have m: "ms_type m = RequestVote" "pl_candidateId (ms_payload m) = Some (el_candidate e)" "el_term e \<le> request_term m"
      using cluster_inv_election [OF s k(1)] st k(2) by (auto simp: election_inv_def request_inv_def)
    then have voted: "rn_currentTerm n = request_term m" "rn_votedFor n = Some (el_candidate e)"
      using granted_vote [of m "cl_nodes s p" x n] h that by simp_all
    have "nodes_inv (set_node p n s)"
      using set_node_grows(1) [OF _ n(1)] s by (simp add: cluster_inv_def)
    then have "cl_ballots (set_node p n s) (p, request_term m) = Some (el_candidate e) \<or> wins s (el_candidate e) (request_term m)"
      using voted nodes_invD(4) [of "set_node p n s" p "el_candidate e"] by auto
    moreover have "wins s (el_candidate e) (request_term m) \<Longrightarrow> el_term e < request_term m"
      using running_not_winner [OF s k] st m(3) by simp
    ultimately show ?thesis
      by (auto simp: counts_def e'_def)
  qed
  ultimately have "election_inv members (set_node p n s) e'"
    using st unfolding election_inv_def e'_def by (auto simp: request_inv_def counts_def split: option.splits)
  then have "cluster_inv members (set_election k e' (set_node p n s))"
    by (intro set_election_inv [OF s k _ _ _ n(1)]) (auto simp: e'_def st n(2))
  then show ?thesis
    using st h by (simp add: deliver_request_def e'_def)
next
  case False
  then have "deliver_request k e s = s"
    by (auto simp: deliver_request_def split: election_stage.splits rpc.splits)
  then show ?thesis using s by simp
qed

lemma lose_message_inv:
  assumes s: "cluster_inv members s" and k: "k < length (cl_elections s)" "e = cl_elections s ! k"
  shows "cluster_inv members (lose_message k e s)"
proof (cases "el_stage e")
  case (Asking p r rest)
  define e' where "e' = e\<lparr>el_stage := Asking p (Answered (rpc_message r) None) rest\<rparr>"
  have same: "set_node p (cl_nodes s p) s = s"
    using s by (simp add: set_node_same cluster_inv_def)
  have "election_inv members s e'"
    using cluster_inv_election [OF s k(1)] Asking k(2) unfolding election_inv_def e'_def
    by (auto simp: request_inv_def counts_def)
  then have "cluster_inv members (set_election k e' (set_node p (cl_nodes s p) s))"
    by (intro set_election_inv [OF s k _ _ _ votes_kept_change [OF votes_kept_refl]])
      (auto simp: e'_def Asking same no_new_leader_refl)
  then show ?thesis
    using Asking same by (simp add: lose_message_def e'_def)
qed (use s in \<open>simp_all add: lose_message_def\<close>)

text \<open>The next request of an election meets the invariant of its stage.\<close>

lemma next_peer_stage:
  assumes "next_peer rest n = (stage, n')" "rn_id n = el_candidate e" "rn_currentTerm n = rn_currentTerm (cl_nodes s (el_candidate e))"
    "el_term e \<le> rn_currentTerm n" "distinct rest" "set rest \<inter> fst ` set (el_voters e) = {}"
    "set rest \<subseteq> set (peers_of members (el_candidate e))"
  shows "stage_inv members s e stage \<and> (\<forall>w. stage \<noteq> Won w)"
  using assms
  by (auto simp: next_peer_def request_inv_def vote_request_def request_term_def split: list.splits)

lemma stage_inv_more [simp]: "stage_inv members s (e\<lparr>el_stage := g\<rparr>) g' = stage_inv members s e g'"
  by (cases g') (simp_all add: request_inv_def counts_def cong: rpc.case_cong option.case_cong)

lemma election_reply_inv:
  assumes e: "election_inv members s e" and st: "el_stage e = Asking p (Answered m reply) rest"
    and ni: "nodes_inv s" and c: "c = el_candidate e"
    and r: "election_reply (votes_needed (length (peers_of members c))) p (request_term m) reply rest e (cl_nodes s c) = (e', n)"
  shows "el_candidate e' = c \<and> el_term e' = el_term e \<and> election_inv members (set_node c n s) e' \<and>
    (no_new_leader (cl_nodes s c) n \<or> el_stage e' = Won (rn_currentTerm n))"
proof -
  define needed where "needed = votes_needed (length (peers_of members c))"
  obtain granted n1 where q: "requestVote_reply reply (cl_nodes s c) = (granted, n1)"
    by fastforce
  define e1 where "e1 = (if granted then e\<lparr>el_votes := el_votes e + 1, el_voters := (p, request_term m) # el_voters e\<rparr> else e)"
  have n: "votes_kept (cl_nodes s c) n" "rn_currentTerm n = rn_currentTerm n1" "rn_id n1 = c"
    using votes_kept_election_reply [of "cl_nodes s c" needed p "request_term m" reply rest e]
      election_reply_node [of needed p "request_term m" reply rest e "cl_nodes s c"] votes_kept_reply [of "cl_nodes s c" reply]
      r q ni by (simp_all add: votes_kept_def nodes_invD needed_def)
  have e2: "election_inv members (set_node c n s) e"
    using e set_node_grows(2) [OF ni votes_kept_change [OF n(1)]] election_inv_grows by blast
  have cur: "rn_currentTerm (cl_nodes (set_node c n s) c) = rn_currentTerm n1"
    using n(2) by simp
  have grant: "counts (set_node c n s) e p (request_term m)" if granted
    using denied_reply [of reply "cl_nodes s c"] q that e2 st c by (auto simp: election_inv_def)
  have c1 [simp]: "el_candidate e1 = c" "el_term e1 = el_term e"
    by (simp_all add: e1_def c)
  have part: "stage_inv members (set_node c n s) e1 g \<Longrightarrow> election_inv members (set_node c n s) (e1\<lparr>el_stage := g\<rparr>)" for g
    using e2 st grant c unfolding election_inv_def by (auto simp: e1_def request_inv_def counts_def)
  have fresh: "distinct rest" "set rest \<inter> fst ` set (el_voters e1) = {}" "set rest \<subseteq> set (peers_of members c)"
    using e st c by (auto simp: election_inv_def e1_def)
  have times: "\<forall>(q, t) \<in> set (el_voters e1). t \<le> rn_currentTerm n1" "el_term e \<le> rn_currentTerm n1"
    using e2 st c cur by (auto simp: election_inv_def e1_def request_inv_def)
  show ?thesis
  proof (cases "el_votes e1 \<ge> needed")
    case True
    then have "e' = e1\<lparr>el_stage := Won (rn_currentTerm n1)\<rparr>"
      using r q by (simp add: election_reply_def e1_def needed_def)
    then show ?thesis
      using part [of "Won (rn_currentTerm n1)"] True times n(2) by (simp add: needed_def)
  next
    case False
    then obtain g where g: "next_peer rest n1 = (g, n)" "e' = e1\<lparr>el_stage := g\<rparr>"
      using r q by (auto simp: election_reply_def e1_def needed_def Let_def split: prod.splits)
    then have "stage_inv members (set_node c n s) e1 g"
      using next_peer_stage [of rest n1 g n e1 "set_node c n s" members] fresh n(3) cur times(2) by simp
    moreover have "no_new_leader (cl_nodes s c) n"
      using no_new_leader_next [OF no_new_leader_reply, of "cl_nodes s c" rest reply] q g(1) by simp
    ultimately show ?thesis
      using part g(2) by simp
  qed
qed

lemma handle_reply_inv:
  assumes s: "cluster_inv members s" and k: "k < length (cl_elections s)" "e = cl_elections s ! k"
  shows "cluster_inv members (handle_reply members k e s)"
proof (cases "\<exists>p m reply rest. el_stage e = Asking p (Answered m reply) rest")
  case True
  then obtain p m reply rest where st: "el_stage e = Asking p (Answered m reply) rest"
    by blast
  define c where "c = el_candidate e"
  obtain e' n where r: "election_reply (votes_needed (length (peers_of members c))) p (request_term m) reply rest e (cl_nodes s c) = (e', n)"
    by fastforce
  have "election_inv members s e" "nodes_inv s"
    using cluster_inv_election [OF s k(1)] k(2) s by (simp_all add: cluster_inv_def)
  note i = election_reply_inv [OF this(1) st this(2) c_def r]
  have "vote_change s (cl_nodes s c) n"
    using votes_kept_change [OF votes_kept_election_reply [of "cl_nodes s c"]] r by (metis snd_conv)
  then have "cluster_inv members (set_election k e' (set_node c n s))"
    using i by (intro set_election_inv [OF s k]) (auto simp: st c_def)
  then show ?thesis
    using st r by (simp add: handle_reply_def c_def)
next
  case False
  then have "handle_reply members k e s = s"
    by (auto simp: handle_reply_def split: election_stage.splits rpc.splits)
  then show ?thesis using s by simp
qed

lemma start_election_inv:
  assumes s: "cluster_inv members s" and c: "c \<in> set members" "distinct members"
  shows "cluster_inv members (cluster_step members (StartElection c) s)"
proof -
  obtain e n where st: "startElection (peers_of members c) (cl_nodes s c) = (e, n)"
    by fastforce
  obtain g n' where np: "next_peer (peers_of members c) (begin_election (cl_nodes s c)) = (g, n')"
    by fastforce
  have ni: "nodes_inv s" and id: "rn_id (cl_nodes s c) = c"
    using s by (auto simp: cluster_inv_def nodes_invD)
  have e: "el_candidate e = c" "el_term e = rn_currentTerm (cl_nodes s c) + 1" "el_votes e = 1" "el_voters e = []"
    "el_stage e = g" "n' = n"
    using st np id by (auto simp: startElection_def begin_election_def Let_def)
  have n: "rn_id n = c" "rn_currentTerm n = rn_currentTerm (cl_nodes s c) + 1" "rn_votedFor n = Some c"
    using startElection_node [of "peers_of members c" "cl_nodes s c"] st id by simp_all
  have kept: "vote_change s (cl_nodes s c) n" "no_new_leader (cl_nodes s c) n"
    using votes_kept_change [OF votes_kept_start [of "cl_nodes s c" "peers_of members c"], of s] no_new_leader_start [of "cl_nodes s c" "peers_of members c"] st
    by simp_all
  let ?s1 = "set_node c n s"
  note s1 = set_node_inv [OF s kept]
  have "stage_inv members ?s1 e g"
    using next_peer_stage [OF np, of e ?s1 members] e n id c(2)
    by (simp add: begin_election_def set_node_def peers_of_def)
  moreover have "cl_ballots s (c, rn_currentTerm n) = None"
    using ni n(2) by (simp add: nodes_invD)
  ultimately have "election_inv members ?s1 e"
    using e n c by (simp add: election_inv_def set_node_def)
  moreover have "(c, rn_currentTerm n) \<notin> (\<lambda>e. (el_candidate e, el_term e)) ` set (cl_elections s)"
    using s n(2) by (fastforce simp: cluster_inv_def election_inv_def)
  moreover have "election_inv members (?s1\<lparr>cl_elections := es\<rparr>) x = election_inv members ?s1 x" for x es
    unfolding election_inv_def
    by (cases "el_stage x") (simp_all add: request_inv_def counts_def cong: rpc.case_cong option.case_cong)
  moreover have "nodes_inv (?s1\<lparr>cl_elections := cl_elections s @ [e]\<rparr>)"
    by (rule nodes_inv_mono [OF set_node_grows(1) [OF ni kept(1)]]) (auto simp: wins_def)
  ultimately have "cluster_inv members (?s1\<lparr>cl_elections := cl_elections s @ [e]\<rparr>)"
    using s1 e(1,2) n(2) unfolding cluster_inv_def by auto
  then show ?thesis
    using st c(1) by simp
qed

lemma cluster_step_inv:
  assumes ok: "cluster_ok a s" and s: "cluster_inv members s" and d: "distinct members"
  shows "cluster_inv members (cluster_step members a s)"
proof (cases a)
  case (StartElection c)
  then show ?thesis
    using start_election_inv [OF s _ d] s by (cases "c \<in> set members") simp_all
next
  case (Propose i now v)
  then show ?thesis
    using s by (auto split: option.splits intro!: set_node_inv votes_kept_change votes_kept_propose no_new_leader_propose)
next
  case (AppendCall i leaderId t entries leaderCommit)
  then show ?thesis
    using set_node_inv [OF s vote_change_append_call no_new_leader_append_call, of i leaderId t entries leaderCommit] ok by simp
qed (use s in \<open>auto simp: on_election_def deliver_request_inv lose_message_inv handle_reply_inv
      intro!: set_node_inv votes_kept_change votes_kept_intros no_new_leader_intros\<close>)

lemma new_cluster_inv: "cluster_inv members new_cluster"
  by (simp add: cluster_inv_def new_cluster_def nodes_inv_def node_inv_def new_raft_node_def)

interpretation raft_cluster: guarded_system cluster_ok "cluster_step members" "\<lambda>s. distinct members \<longrightarrow> cluster_inv members s" for members
  by unfold_locales (simp add: cluster_step_inv)

lemma cluster_reachable_inv:
  "distinct members \<Longrightarrow> run_ok cluster_ok (cluster_step members) acts new_cluster \<Longrightarrow>
    cluster_inv members (run (cluster_step members) acts new_cluster)"
  using raft_cluster.guarded_run [of members acts new_cluster] new_cluster_inv by blast

section \<open>Election safety\<close>

lemma majorities_meet:
  assumes "finite U" "A \<subseteq> U" "B \<subseteq> U" "card U < card A + card B"
  shows "A \<inter> B \<noteq> {}"
proof
  assume "A \<inter> B = {}"
  then have "card (A \<union> B) = card A + card B"
    using assms(1-3) by (intro card_Un_disjoint) (auto dest: finite_subset)
  moreover have "card (A \<union> B) \<le> card U"
    using assms(1-3) by (intro card_mono) auto
  ultimately show False
    using assms(4) by simp
qed

lemma length_peers_of: "distinct members \<Longrightarrow> c \<in> set members \<Longrightarrow> length (peers_of members c) + 1 = length members"
  unfolding peers_of_def by (induction members) (auto intro: arg_cong [of _ _ length] filter_True)

text \<open>The voters of an election that was won in its own term, with the candidate.\<close>

lemma clean_win_ballots:
  assumes e: "election_inv members s e" and w: "el_stage e = Won (el_term e)" and d: "distinct members"
  shows "length members < 2 * card {v \<in> set members. cl_ballots s (v, el_term e) = Some (el_candidate e)}"
proof -
  let ?c = "el_candidate e"
  let ?V = "insert ?c (fst ` set (el_voters e))"
  have terms: "\<forall>(p, t) \<in> set (el_voters e). t = el_term e"
    using e w by (fastforce simp: election_inv_def)
  then have "?V \<subseteq> {v \<in> set members. cl_ballots s (v, el_term e) = Some ?c}"
    using e by (fastforce simp: election_inv_def peers_of_def counts_def)
  then have "card ?V \<le> card {v \<in> set members. cl_ballots s (v, el_term e) = Some ?c}"
    by (intro card_mono) simp_all
  moreover have "card ?V = Suc (length (el_voters e))"
  proof -
    have "?c \<notin> fst ` set (el_voters e)"
      using e by (fastforce simp: election_inv_def peers_of_def)
    moreover have "card (fst ` set (el_voters e)) = length (el_voters e)"
      using e distinct_card [of "map fst (el_voters e)"] by (simp add: election_inv_def)
    ultimately show ?thesis by simp
  qed
  moreover have "length (peers_of members ?c) + 1 = length members"
    using e d by (simp add: election_inv_def length_peers_of [simplified])
  ultimately show ?thesis
    using e w by (auto simp: election_inv_def votes_needed_def)
qed

lemma clean_wins_agree:
  assumes s: "cluster_inv members s" "distinct members"
    and e: "e \<in> set (cl_elections s)" "e' \<in> set (cl_elections s)"
      "el_stage e = Won (el_term e)" "el_stage e' = Won (el_term e')" "el_term e = el_term e'"
  shows "el_candidate e = el_candidate e'"
proof -
  define A where "A e = {v \<in> set members. cl_ballots s (v, el_term e) = Some (el_candidate e)}" for e :: "'a election"
  have "election_inv members s e" "election_inv members s e'"
    using s(1) e(1,2) by (auto simp: cluster_inv_def)
  then have "length members < 2 * card (A e)" "length members < 2 * card (A e')"
    unfolding A_def using clean_win_ballots s(2) e(3,4) by blast+
  then have "card (set members) < card (A e) + card (A e')"
    using distinct_card [OF s(2)] by linarith
  then have "A e \<inter> A e' \<noteq> {}"
    by (intro majorities_meet [of "set members"]) (auto simp: A_def)
  then show ?thesis
    using e(5) by (auto simp: A_def)
qed

lemma one_clean_win_per_term:
  assumes inv: "cluster_inv members s" "distinct members"
    and kl: "k < length (cl_elections s)" "l < length (cl_elections s)"
      "el_stage (cl_elections s ! k) = Won (el_term (cl_elections s ! k))"
      "el_stage (cl_elections s ! l) = Won (el_term (cl_elections s ! k))"
      "el_term (cl_elections s ! l) = el_term (cl_elections s ! k)"
  shows "k = l"
proof -
  have "el_candidate (cl_elections s ! k) = el_candidate (cl_elections s ! l)"
    using kl by (intro clean_wins_agree [OF inv]) simp_all
  moreover have "distinct (map (\<lambda>e. (el_candidate e, el_term e)) (cl_elections s))"
    using inv(1) by (simp add: cluster_inv_def)
  ultimately show "k = l"
    using kl by (simp add: distinct_conv_nth) metis
qed

lemma one_leader_per_term:
  assumes inv: "cluster_inv members s" "distinct members"
    and clean: "\<forall>e \<in> set (cl_elections s). \<forall>w. el_stage e = Won w \<longrightarrow> w = el_term e"
    and lead: "rn_state (cl_nodes s i) = Leader" "rn_state (cl_nodes s j) = Leader"
      "rn_currentTerm (cl_nodes s i) = rn_currentTerm (cl_nodes s j)"
  shows "i = j"
proof -
  obtain e e' where "e \<in> set (cl_elections s)" "e' \<in> set (cl_elections s)" "el_candidate e = i" "el_candidate e' = j"
    "el_stage e = Won (rn_currentTerm (cl_nodes s j))" "el_stage e' = Won (rn_currentTerm (cl_nodes s j))"
    using inv(1) lead unfolding cluster_inv_def by metis
  then show ?thesis
    using clean_wins_agree [OF inv, of e e'] clean by auto
qed

text \<open>
  C2. Election safety. In a cluster in which every member has the others as peers, under every interleaving
  of elections, deliveries, losses, other messages and calls of \<open>handleVoteRequest\<close> and \<open>handleAppendEntries\<close>, in
  which \<open>handleAppendEntries\<close> replaces a vote of the same term only in the name of a node that has won that term:
  every leader has won an election in its current term; elections that were won in the term they were started in
  have different terms; and so, unless an election was won in a later term than its own, there is at most one leader
  per term.
\<close>

theorem election_safety:
  fixes acts :: "'v cluster_action list" and members :: "string list"
  defines "s \<equiv> run (cluster_step members) acts new_cluster"
  assumes "distinct members" and "run_ok cluster_ok (cluster_step members) acts new_cluster"
  shows "(\<forall>i. rn_state (cl_nodes s i) = Leader \<longrightarrow>
      (\<exists>e \<in> set (cl_elections s). el_candidate e = i \<and> el_stage e = Won (rn_currentTerm (cl_nodes s i)))) \<and>
    (\<forall>k l. k < length (cl_elections s) \<longrightarrow> l < length (cl_elections s) \<longrightarrow>
      el_stage (cl_elections s ! k) = Won (el_term (cl_elections s ! k)) \<longrightarrow>
      el_stage (cl_elections s ! l) = Won (el_term (cl_elections s ! k)) \<longrightarrow>
      el_term (cl_elections s ! l) = el_term (cl_elections s ! k) \<longrightarrow> k = l) \<and>
    ((\<forall>e \<in> set (cl_elections s). \<forall>w. el_stage e = Won w \<longrightarrow> w = el_term e) \<longrightarrow>
      (\<forall>i j. rn_state (cl_nodes s i) = Leader \<longrightarrow> rn_state (cl_nodes s j) = Leader \<longrightarrow>
        rn_currentTerm (cl_nodes s i) = rn_currentTerm (cl_nodes s j) \<longrightarrow> i = j))"
proof -
  have inv: "cluster_inv members s"
    unfolding s_def by (rule cluster_reachable_inv [OF assms(2,3)])
  then have "\<forall>i. rn_state (cl_nodes s i) = Leader \<longrightarrow>
      (\<exists>e \<in> set (cl_elections s). el_candidate e = i \<and> el_stage e = Won (rn_currentTerm (cl_nodes s i)))"
    by (simp add: cluster_inv_def)
  then show ?thesis
    using one_clean_win_per_term [OF inv assms(2)] one_leader_per_term [OF inv assms(2)] by blast
qed

text \<open>
  Three nodes: both candidates of the first round ask the third one, and one of them wins; it then calls
  \<open>handleAppendEntries\<close> of the other one, which replaces its vote.
\<close>

abbreviation race :: "nat cluster_action list" where
  "race \<equiv> [StartElection ''a'', StartElection ''b'', DeliverRequest 0, HandleReply 0, DeliverRequest 1, HandleReply 1,
     DeliverRequest 0, DeliverRequest 1, HandleReply 0, HandleReply 1, AppendCall ''b'' ''a'' 1 [] 0]"

text \<open>
  The condition of the last part is needed: \<open>startElection\<close> goes on asking peers after a reply has made it
  step down, and adds the votes of its new term to those of the old one. Here \<open>''a''\<close> has the vote of
  \<open>''b''\<close> for term 1, learns of term 2 from \<open>''c''\<close>, gets the vote of \<open>''d''\<close> for term 2 and becomes its
  leader with two votes out of five, beside \<open>''c''\<close>, which has won that term with \<open>''b''\<close> and \<open>''e''\<close>.
\<close>

abbreviation two_leaders :: "nat cluster_action list" where
  "two_leaders \<equiv> [StartElection ''a'', DeliverRequest 0, HandleReply 0,
     StartElection ''c'', LoseMessage 1, HandleReply 1, LoseMessage 1, HandleReply 1, LoseMessage 1, HandleReply 1,
     LoseMessage 1, HandleReply 1, StartElection ''c'',
     LoseMessage 2, HandleReply 2, DeliverRequest 2, HandleReply 2, LoseMessage 2, HandleReply 2, DeliverRequest 2, HandleReply 2,
     DeliverRequest 0, HandleReply 0, DeliverRequest 0, HandleReply 0]"

lemma stale_votes_elect_second_leader:
  "let s = run (cluster_step [''a'', ''b'', ''c'', ''d'', ''e'']) two_leaders new_cluster
   in map (\<lambda>i. (rn_state (cl_nodes s i), rn_currentTerm (cl_nodes s i))) [''a'', ''c''] = [(Leader, 2), (Leader, 2)]"
  by code_simp

text \<open>
  The condition on \<open>handleAppendEntries\<close> is needed: \<open>''a''\<close> has won term 1 with the vote of \<open>''c''\<close>; a call in the name of
  \<open>''b''\<close>, a candidate of the same term, replaces the vote of \<open>''c''\<close>, which then votes for \<open>''b''\<close> too.
\<close>

lemma append_call_elects_second_leader:
  "let s = run (cluster_step [''a'', ''b'', ''c'']) [StartElection ''a'', StartElection ''b'', LoseMessage 0, HandleReply 0,
       DeliverRequest 0, HandleReply 0, LoseMessage 1, HandleReply 1, AppendCall ''c'' ''b'' 1 [] 0, DeliverRequest 1, HandleReply 1]
       (new_cluster :: nat cluster)
   in map (\<lambda>i. (rn_state (cl_nodes s i), rn_currentTerm (cl_nodes s i))) [''a'', ''b''] = [(Leader, 1), (Leader, 1)]"
  by code_simp

theorem election_safety_witness:
  "let s = run (cluster_step [''a'', ''b'', ''c'']) race new_cluster
   in map (\<lambda>i. rn_state (cl_nodes s i)) [''a'', ''b'', ''c''] = [Leader, Follower, Follower] \<and>
      (\<forall>i. rn_state (cl_nodes s i) = Leader \<longrightarrow>
        (\<exists>e \<in> set (cl_elections s). el_candidate e = i \<and> el_stage e = Won (rn_currentTerm (cl_nodes s i)))) \<and>
      (\<forall>i j. rn_state (cl_nodes s i) = Leader \<longrightarrow> rn_state (cl_nodes s j) = Leader \<longrightarrow>
        rn_currentTerm (cl_nodes s i) = rn_currentTerm (cl_nodes s j) \<longrightarrow> i = j)"
proof -
  let ?s = "run (cluster_step [''a'', ''b'', ''c'']) race new_cluster"
  have "map (\<lambda>i. rn_state (cl_nodes ?s i)) [''a'', ''b'', ''c''] = [Leader, Follower, Follower]"
    by code_simp
  moreover have "map el_stage (cl_elections ?s) = [Won 1, Lost] \<and> map el_term (cl_elections ?s) = [1, 1]"
    by code_simp
  then have "\<forall>e \<in> set (cl_elections ?s). \<forall>w. el_stage e = Won w \<longrightarrow> w = el_term e"
    by (auto simp: map_eq_Cons_conv)
  moreover have "distinct [''a'', ''b'', ''c'']" "run_ok cluster_ok (cluster_step [''a'', ''b'', ''c'']) race new_cluster"
    by code_simp+
  note election_safety [OF this]
  ultimately show ?thesis
    unfolding Let_def by blast
qed

end
