(* ===== verification/Byzantine.thy ===== *)
theory Byzantine
  imports Raft
begin

text \<open>
  Model of one node of \<open>swarm/src/consensus/byzantine.ts\<close>. A handler that awaits a broadcast is split there: its
  remainder is a continuation in \<open>bz_pending\<close> that runs at any later moment. \<open>bz_sent\<close> collects the
  broadcast messages. The arrays in \<open>preparedMessages\<close> and \<open>committedMessages\<close> are those of the message
  log, so that only their keys are kept. The hash of a value is a parameter; timestamps and signatures
  are not modelled. Proposals and the weights of votes are those of the theory \<open>Raft\<close>.
\<close>

section \<open>Messages and nodes\<close>

datatype byz_phase = PrePrepare | Prepare | Commit | Reply | UnknownPhase

record 'v byz_message =
  bm_type :: byz_phase
  bm_viewNumber :: int
  bm_sequenceNumber :: int
  bm_digest :: string
  bm_senderId :: string
  bm_payload :: "'v option"

text \<open>A message of the transport; fields of the payload that are missing or of a wrong type are \<open>None\<close>.\<close>

record 'v inbound_message =
  im_type :: "byz_phase option"
  im_from :: string
  im_ptype :: "byz_phase option"
  im_viewNumber :: "int option"
  im_sequenceNumber :: "int option"
  im_digest :: "string option"
  im_payload :: "'v option"

datatype 'v continuation = KPrepare "'v byz_message" | KSelfPrepare "'v byz_message" | KCommit "'v byz_message" | KVote string

record 'v byz =
  bz_id :: string
  bz_isPrimary :: bool
  bz_viewNumber :: int
  bz_sequenceNumber :: int
  bz_prepared :: "string jsset"
  bz_committed :: "string jsset"
  bz_nodes :: "(string, bool) jsmap"
  bz_maxFaultyNodes :: "int option"
  bz_proposals :: "(string, 'v consensus_proposal) jsmap"
  bz_messageLog :: "(string, 'v byz_message list) jsmap"
  bz_pending :: "'v continuation list"
  bz_sent :: "'v byz_message list"

text \<open>Numbers in template strings.\<close>

fun show_nat :: "nat \<Rightarrow> string" where
  "show_nat n = (if n < 10 then [char_of (48 + n)] else show_nat (n div 10) @ [char_of (48 + n mod 10)])"

declare show_nat.simps [simp del]

definition show_int :: "int \<Rightarrow> string" where
  "show_int i = (if i < 0 then ''-'' @ show_nat (nat (- i)) else show_nat (nat i))"

definition log_key :: "int \<Rightarrow> int \<Rightarrow> string" where
  "log_key v s = show_int v @ ''_'' @ show_int s"

definition bft_id :: "int \<Rightarrow> int \<Rightarrow> string" where
  "bft_id v s = ''bft_'' @ show_int v @ ''_'' @ show_int s"

section \<open>Membership and quorum\<close>

text \<open>The constructor throws on a negative number of faulty nodes.\<close>

definition new_byzantine :: "string \<Rightarrow> int option \<Rightarrow> 'v byz option" where
  "new_byzantine i maxFaulty =
     (if \<exists>f \<in> set_option maxFaulty. f < 0 then None
      else Some \<lparr>bz_id = i, bz_isPrimary = False, bz_viewNumber = 0, bz_sequenceNumber = 0, bz_prepared = [],
        bz_committed = [], bz_nodes = [], bz_maxFaultyNodes = maxFaulty, bz_proposals = [], bz_messageLog = [],
        bz_pending = [], bz_sent = []\<rparr>)"

definition addNode :: "string \<Rightarrow> bool \<Rightarrow> 'v byz \<Rightarrow> 'v byz" where
  "addNode nodeId isPrimary b =
     (let b1 = b\<lparr>bz_nodes := jset nodeId isPrimary (bz_nodes b)\<rparr>
      in if isPrimary \<and> bz_id b = nodeId then b1\<lparr>bz_isPrimary := True\<rparr> else b1)"

definition removeByzNode :: "string \<Rightarrow> 'v byz \<Rightarrow> 'v byz" where
  "removeByzNode nodeId b = b\<lparr>bz_nodes := jdel nodeId (bz_nodes b)\<rparr>"

definition byzantineF :: "'v byz \<Rightarrow> int" where
  "byzantineF b =
     (let n = int (length (bz_nodes b)) + 1;
          derived = (n - 1) div 3
      in case bz_maxFaultyNodes b of None \<Rightarrow> derived | Some cap \<Rightarrow> min derived cap)"

definition quorumSize :: "'v byz \<Rightarrow> int" where
  "quorumSize b = (int (length (bz_nodes b)) + 1 + byzantineF b) div 2 + 1"

definition canTolerate :: "int \<Rightarrow> 'v byz \<Rightarrow> bool" where
  "canTolerate faultyCount b \<longleftrightarrow> faultyCount \<le> byzantineF b"

definition electPrimary :: "'v byz \<Rightarrow> string \<times> 'v byz" where
  "electPrimary b =
     (let nodeIds = bz_id b # jkeys (bz_nodes b);
          primaryId = nodeIds ! nat (bz_viewNumber b mod int (length nodeIds))
      in (primaryId, b\<lparr>bz_isPrimary := (primaryId = bz_id b),
                       bz_nodes := map (\<lambda>(i, _). (i, i = primaryId)) (bz_nodes b)\<rparr>))"

definition initiateViewChange :: "'v byz \<Rightarrow> 'v byz" where
  "initiateViewChange b = snd (electPrimary (b\<lparr>bz_viewNumber := bz_viewNumber b + 1\<rparr>))"

section \<open>The protocol\<close>

definition broadcastMessage :: "'v byz_message \<Rightarrow> 'v continuation \<Rightarrow> 'v byz \<Rightarrow> 'v byz" where
  "broadcastMessage m k b = b\<lparr>bz_sent := bz_sent b @ [m], bz_pending := bz_pending b @ [k]\<rparr>"

text \<open>The message log under a key, created when missing, with the message unless its sender has one of that type.\<close>

definition log_message :: "byz_phase \<Rightarrow> 'v byz_message \<Rightarrow> 'v byz \<Rightarrow> 'v byz_message list \<times> 'v byz" where
  "log_message ty m b =
     (let key = log_key (bm_viewNumber m) (bm_sequenceNumber m);
          messages = nullish (jget (bz_messageLog b) key) [];
          messages' = (if \<exists>x \<in> set messages. bm_type x = ty \<and> bm_senderId x = bm_senderId m then messages else messages @ [m])
      in (messages', b\<lparr>bz_messageLog := jset key messages' (bz_messageLog b)\<rparr>))"

definition own_message :: "byz_phase \<Rightarrow> 'v byz_message \<Rightarrow> 'v byz \<Rightarrow> 'v byz_message" where
  "own_message ty m b =
     \<lparr>bm_type = ty, bm_viewNumber = bm_viewNumber m, bm_sequenceNumber = bm_sequenceNumber m,
      bm_digest = bm_digest m, bm_senderId = bz_id b, bm_payload = None\<rparr>"

definition handlePrepare :: "'v byz_message \<Rightarrow> 'v byz \<Rightarrow> 'v byz" where
  "handlePrepare m b =
     (let (messages, b1) = log_message Prepare m b;
          prepareCount = int (length (filter (\<lambda>x. bm_type x = Prepare) messages));
          commitMsg = own_message Commit m b
      in if prepareCount \<ge> quorumSize b
         then broadcastMessage commitMsg (KCommit commitMsg)
                (b1\<lparr>bz_prepared := sadd (log_key (bm_viewNumber m) (bm_sequenceNumber m)) (bz_prepared b1)\<rparr>)
         else b1)"

definition handleCommit :: "'v byz_message \<Rightarrow> 'v byz \<Rightarrow> 'v byz" where
  "handleCommit m b =
     (let (messages, b1) = log_message Commit m b;
          commitCount = int (length (filter (\<lambda>x. bm_type x = Commit) messages));
          pid = bft_id (bm_viewNumber m) (bm_sequenceNumber m)
      in if commitCount \<ge> quorumSize b
         then
           let b2 = b1\<lparr>bz_committed := sadd (log_key (bm_viewNumber m) (bm_sequenceNumber m)) (bz_committed b1)\<rparr>
           in case jget (bz_proposals b2) pid of
                Some p \<Rightarrow> if cp_status p = PPending
                          then b2\<lparr>bz_proposals := jset pid (p\<lparr>cp_status := PAccepted\<rparr>) (bz_proposals b2)\<rparr> else b2
              | None \<Rightarrow> b2
         else b1)"

definition handlePrePrepare :: "'v byz_message \<Rightarrow> 'v byz \<Rightarrow> 'v byz" where
  "handlePrePrepare m b =
     (if bm_viewNumber m \<noteq> bz_viewNumber b then b
      else
        let pid = bft_id (bm_viewNumber m) (bm_sequenceNumber m);
            b1 = (case bm_payload m of
                    Some v \<Rightarrow>
                      if jget (bz_proposals b) pid = None
                      then b\<lparr>bz_proposals := jset pid \<lparr>cp_id = pid, cp_value = v, cp_term = bm_viewNumber m, cp_votes = [],
                               cp_status = PPending, cp_weights = None\<rparr> (bz_proposals b)\<rparr>
                      else b
                  | None \<Rightarrow> b);
            prepareMsg = own_message Prepare m b
        in broadcastMessage prepareMsg (KPrepare prepareMsg) b1)"

definition record_vote :: "string \<Rightarrow> 'v byz \<Rightarrow> 'v byz" where
  "record_vote pid b =
     (case jget (bz_proposals b) pid of
        None \<Rightarrow> b
      | Some p \<Rightarrow> b\<lparr>bz_proposals := jset pid
          (p\<lparr>cp_votes := jset (bz_id b) \<lparr>cv_voterId = bz_id b, cv_approve = True\<rparr> (cp_votes p)\<rparr>) (bz_proposals b)\<rparr>)"

text \<open>The code after an \<open>await\<close>; \<open>propose\<close> reads the view again there, and the remainder of \<open>handlePrepare\<close> awaits \<open>handleCommit\<close> before it records the vote.\<close>

fun resume :: "'v continuation \<Rightarrow> 'v byz \<Rightarrow> 'v byz" where
  "resume (KPrepare m) b = handlePrepare m b"
| "resume (KSelfPrepare m) b = handlePrepare (m\<lparr>bm_viewNumber := bz_viewNumber b\<rparr>) b"
| "resume (KCommit m) b =
     (let b1 = handleCommit m b
      in b1\<lparr>bz_pending := bz_pending b1 @ [KVote (bft_id (bm_viewNumber m) (bm_sequenceNumber m))]\<rparr>)"
| "resume (KVote pid) b = record_vote pid b"

definition handleInboundMessage :: "'v inbound_message \<Rightarrow> 'v byz \<Rightarrow> 'v byz" where
  "handleInboundMessage msg b =
     (case (im_viewNumber msg, im_sequenceNumber msg, im_digest msg) of
        (Some v, Some s, Some d) \<Rightarrow>
          let ty = nullish (im_type msg) (nullish (im_ptype msg) Prepare);
              bm = \<lparr>bm_type = ty, bm_viewNumber = v, bm_sequenceNumber = s, bm_digest = d, bm_senderId = im_from msg,
                    bm_payload = im_payload msg\<rparr>
          in (case ty of
                PrePrepare \<Rightarrow> handlePrePrepare bm b
              | Prepare \<Rightarrow> handlePrepare bm b
              | Commit \<Rightarrow> handleCommit bm b
              | _ \<Rightarrow> b)
      | _ \<Rightarrow> b)"

text \<open>\<open>None\<close> is the error that only the primary can propose.\<close>

definition byz_propose ::
    "('v \<Rightarrow> string) \<Rightarrow> 'v \<Rightarrow> (string, rat) jsmap option \<Rightarrow> 'v byz \<Rightarrow> (string \<times> 'v byz) option" where
  "byz_propose computeDigest v weights b =
     (if \<not> bz_isPrimary b then None
      else
        let s = bz_sequenceNumber b + 1;
            pid = bft_id (bz_viewNumber b) s;
            prePrepareMsg = \<lparr>bm_type = PrePrepare, bm_viewNumber = bz_viewNumber b, bm_sequenceNumber = s,
              bm_digest = computeDigest v, bm_senderId = bz_id b, bm_payload = Some v\<rparr>;
            b1 = b\<lparr>bz_sequenceNumber := s, bz_proposals := jset pid \<lparr>cp_id = pid, cp_value = v, cp_term = bz_viewNumber b,
                     cp_votes = [], cp_status = PPending, cp_weights = weights\<rparr> (bz_proposals b)\<rparr>
        in Some (pid, broadcastMessage prePrepareMsg (KSelfPrepare (own_message Prepare prePrepareMsg b)) b1))"

section \<open>Votes\<close>

definition byz_count :: "int \<Rightarrow> int \<Rightarrow> 'v consensus_proposal \<Rightarrow> 'v consensus_proposal" where
  "byz_count n requiredVotes p =
     (if approvingWeight p \<ge> rat_of_int requiredVotes then p\<lparr>cp_status := PAccepted\<rparr>
      else if int (length (cp_votes p)) \<ge> n \<and> approvingWeight p < rat_of_int requiredVotes
      then p\<lparr>cp_status := PRejected\<rparr>
      else p)"

definition byz_vote :: "string \<Rightarrow> consensus_vote \<Rightarrow> 'v byz \<Rightarrow> 'v byz" where
  "byz_vote pid v b =
     (case jget (bz_proposals b) pid of
        None \<Rightarrow> b
      | Some p \<Rightarrow>
          if cp_status p \<noteq> PPending then b
          else b\<lparr>bz_proposals := jset pid
                 (byz_count (int (length (bz_nodes b)) + 1) (quorumSize b)
                   (p\<lparr>cp_votes := jset (cv_voterId v) v (cp_votes p)\<rparr>)) (bz_proposals b)\<rparr>)"

definition byz_tick :: "string \<Rightarrow> time \<Rightarrow> time \<Rightarrow> time \<Rightarrow> 'v byz \<Rightarrow> 'v byz" where
  "byz_tick pid startTime timeoutMs now b =
     (case jget (bz_proposals b) pid of
        None \<Rightarrow> b
      | Some p \<Rightarrow> b\<lparr>bz_proposals := jset pid (await_tick startTime timeoutMs now p) (bz_proposals b)\<rparr>)"

section \<open>Runs of a node\<close>

datatype 'v byz_op =
    BReceive "'v inbound_message"
  | BResume nat
  | BVote string consensus_vote
  | BTick string time time time
  | BPropose 'v "(string, rat) jsmap option"
  | BElect
  | BViewChange

fun byz_step :: "('v \<Rightarrow> string) \<Rightarrow> 'v byz_op \<Rightarrow> 'v byz \<Rightarrow> 'v byz" where
  "byz_step dig (BReceive m) b = handleInboundMessage m b"
| "byz_step dig (BResume k) b =
     (if k < length (bz_pending b)
      then resume (bz_pending b ! k) (b\<lparr>bz_pending := take k (bz_pending b) @ drop (Suc k) (bz_pending b)\<rparr>) else b)"
| "byz_step dig (BVote pid v) b = byz_vote pid v b"
| "byz_step dig (BTick pid start timeout now) b = byz_tick pid start timeout now b"
| "byz_step dig (BPropose v ws) b = (case byz_propose dig v ws b of None \<Rightarrow> b | Some (_, b1) \<Rightarrow> b1)"
| "byz_step dig BElect b = snd (electPrimary b)"
| "byz_step dig BViewChange b = initiateViewChange b"

section \<open>Quorums\<close>

lemma byzantineF_bounds:
  assumes "\<forall>c. bz_maxFaultyNodes b = Some c \<longrightarrow> 0 \<le> c"
  shows "0 \<le> byzantineF b" "3 * byzantineF b + 1 \<le> int (length (bz_nodes b)) + 1"
    "bz_maxFaultyNodes b = Some c \<Longrightarrow> byzantineF b \<le> c"
  using assms by (auto simp: byzantineF_def Let_def split: option.splits)

section \<open>Acceptance needs a quorum\<close>

definition committers :: "'v byz \<Rightarrow> int \<Rightarrow> int \<Rightarrow> 'v byz_message list" where
  "committers b v s = filter (\<lambda>x. bm_type x = Commit) (nullish (jget (bz_messageLog b) (log_key v s)) [])"

definition log_ok :: "'v byz_message list \<Rightarrow> bool" where
  "log_ok ms \<longleftrightarrow> distinct (map bm_senderId (filter (\<lambda>x. bm_type x = Commit) ms))"

definition proposal_ok :: "int \<Rightarrow> 'v byz \<Rightarrow> string \<Rightarrow> 'v consensus_proposal \<Rightarrow> bool" where
  "proposal_ok q b pid p \<longleftrightarrow> ballots_wf p \<and>
     (cp_status p = PAccepted \<longrightarrow>
        (\<exists>v s. pid = bft_id v s \<and> q \<le> int (length (committers b v s))) \<or> q \<le> int (length (ballots True p))) \<and>
     (cp_status p = PRejected \<longrightarrow> length (bz_nodes b) + 1 \<le> length (cp_votes p))"

fun cont_ok :: "'v continuation \<Rightarrow> bool" where
  "cont_ok (KPrepare m) \<longleftrightarrow> bm_type m = Prepare"
| "cont_ok (KSelfPrepare m) \<longleftrightarrow> bm_type m = Prepare"
| "cont_ok (KCommit m) \<longleftrightarrow> bm_type m = Commit"
| "cont_ok (KVote _) \<longleftrightarrow> True"

definition byz_inv :: "nat \<Rightarrow> int \<Rightarrow> 'v byz \<Rightarrow> bool" where
  "byz_inv n q b \<longleftrightarrow> length (bz_nodes b) = n \<and> quorumSize b = q \<and>
     (\<forall>key ms. jget (bz_messageLog b) key = Some ms \<longrightarrow> log_ok ms) \<and>
     (\<forall>pid p. jget (bz_proposals b) pid = Some p \<longrightarrow> proposal_ok q b pid p) \<and>
     (\<forall>k \<in> set (bz_pending b). cont_ok k)"

lemma ballots_jset_approve:
  "length (filter cv_approve (jvalues m)) \<le> length (filter cv_approve (jvalues (jset k \<lparr>cv_voterId = k, cv_approve = True\<rparr> m)))"
  by (induction m) (auto simp: jvalues_def)

text \<open>
  The parts of the state the invariant depends on: a step that keeps members, extends the log by messages
  of new senders and adds well-formed continuations keeps it.
\<close>

lemma quorumSize_cong: "length (bz_nodes b') = length (bz_nodes b) \<Longrightarrow> bz_maxFaultyNodes b' = bz_maxFaultyNodes b \<Longrightarrow>
    quorumSize b' = quorumSize b"
  by (simp add: quorumSize_def byzantineF_def)

lemma byz_inv_same:
  assumes "byz_inv n q b" "length (bz_nodes b') = length (bz_nodes b)" "bz_maxFaultyNodes b' = bz_maxFaultyNodes b"
    "bz_messageLog b' = bz_messageLog b" "bz_proposals b' = bz_proposals b" "\<forall>k \<in> set (bz_pending b'). cont_ok k"
  shows "byz_inv n q b'"
proof -
  have "proposal_ok q b' pid p = proposal_ok q b pid p" for pid p
    by (simp add: proposal_ok_def committers_def assms(2,4))
  then show ?thesis
    using assms quorumSize_cong [OF assms(2,3)] unfolding byz_inv_def by simp
qed

lemma set_proposal_inv:
  assumes "byz_inv n q b" "proposal_ok q b pid p"
  shows "byz_inv n q (b\<lparr>bz_proposals := jset pid p (bz_proposals b)\<rparr>)" (is "byz_inv n q ?b")
proof -
  have "proposal_ok q ?b = proposal_ok q b"
    by (intro ext) (simp add: proposal_ok_def committers_def)
  moreover have "quorumSize ?b = quorumSize b"
    by (rule quorumSize_cong) simp_all
  ultimately show ?thesis
    using assms unfolding byz_inv_def by simp
qed

lemma log_message_inv:
  assumes b: "byz_inv n q b" and m: "bm_type m = ty" "log_message ty m b = (ms, b')"
  shows "byz_inv n q b'" "nullish (jget (bz_messageLog b') (log_key (bm_viewNumber m) (bm_sequenceNumber m))) [] = ms"
    "bz_proposals b' = bz_proposals b" "bz_pending b' = bz_pending b"
proof -
  define key where "key = log_key (bm_viewNumber m) (bm_sequenceNumber m)"
  define ms0 where "ms0 = nullish (jget (bz_messageLog b) key) []"
  have ms: "ms = (if \<exists>x \<in> set ms0. bm_type x = ty \<and> bm_senderId x = bm_senderId m then ms0 else ms0 @ [m])"
    and b': "b' = b\<lparr>bz_messageLog := jset key ms (bz_messageLog b)\<rparr>"
    using m(2) unfolding key_def [symmetric] ms0_def log_message_def Let_def by auto
  have nodes: "bz_nodes b' = bz_nodes b"
    by (simp add: b')
  have "log_ok ms0"
    using b by (cases "jget (bz_messageLog b) key") (auto simp: byz_inv_def ms0_def log_ok_def)
  then have "log_ok ms"
    using m(1) by (auto simp: ms log_ok_def)
  have grow: "length (filter (\<lambda>x. bm_type x = Commit) ms0) \<le> length (filter (\<lambda>x. bm_type x = Commit) ms)"
    by (simp add: ms)
  have "q \<le> int (length (committers b' v s))" if "q \<le> int (length (committers b v s))" for v s
    using grow that by (cases "log_key v s = key") (simp_all add: committers_def b' ms0_def)
  then have "proposal_ok q b pid p \<Longrightarrow> proposal_ok q b' pid p" for pid p
    unfolding proposal_ok_def by (metis (no_types, lifting) nodes)
  moreover have "quorumSize b' = quorumSize b"
    by (rule quorumSize_cong) (simp_all add: b')
  ultimately show "byz_inv n q b'"
    using b \<open>log_ok ms\<close> unfolding byz_inv_def b' by simp
  show "nullish (jget (bz_messageLog b') (log_key (bm_viewNumber m) (bm_sequenceNumber m))) [] = ms"
    "bz_proposals b' = bz_proposals b" "bz_pending b' = bz_pending b"
    by (simp_all add: b' key_def [symmetric])
qed

lemma broadcast_inv: "byz_inv n q b \<Longrightarrow> cont_ok k \<Longrightarrow> byz_inv n q (broadcastMessage m k b)"
  by (rule byz_inv_same [of n q b]) (auto simp: broadcastMessage_def byz_inv_def)

lemma handlePrepare_inv:
  assumes "byz_inv n q b" "bm_type m = Prepare"
  shows "byz_inv n q (handlePrepare m b)"
proof -
  obtain ms b1 where l: "log_message Prepare m b = (ms, b1)"
    by fastforce
  note b1 = log_message_inv(1) [OF assms(1,2) l]
  then have "byz_inv n q (b1\<lparr>bz_prepared := x\<rparr>)" for x
    by (rule byz_inv_same) (use b1 in \<open>auto simp: byz_inv_def\<close>)
  then show ?thesis
    using b1 by (simp add: handlePrepare_def l Let_def broadcast_inv own_message_def)
qed

lemma handleCommit_inv:
  assumes "byz_inv n q b" "bm_type m = Commit"
  shows "byz_inv n q (handleCommit m b)"
proof -
  obtain ms b1 where l: "log_message Commit m b = (ms, b1)"
    by fastforce
  note b1 = log_message_inv [OF assms(1,2) l]
  let ?pid = "bft_id (bm_viewNumber m) (bm_sequenceNumber m)"
  define b2 where "b2 = b1\<lparr>bz_committed := sadd (log_key (bm_viewNumber m) (bm_sequenceNumber m)) (bz_committed b1)\<rparr>"
  have b2: "byz_inv n q b2"
    unfolding b2_def by (rule byz_inv_same [OF b1(1)]) (use b1(1) in \<open>auto simp: byz_inv_def\<close>)
  have "proposal_ok q b2 ?pid (p\<lparr>cp_status := PAccepted\<rparr>)"
    if "jget (bz_proposals b2) ?pid = Some p" "q \<le> int (length (filter (\<lambda>x. bm_type x = Commit) ms))" for p
  proof -
    have "committers b2 (bm_viewNumber m) (bm_sequenceNumber m) = filter (\<lambda>x. bm_type x = Commit) ms"
      using b1(2) by (simp add: committers_def b2_def)
    then have "\<exists>v s. ?pid = bft_id v s \<and> q \<le> int (length (committers b2 v s))"
      using that(2) by metis
    moreover have "ballots_wf p"
      using b2 that(1) by (auto simp: byz_inv_def proposal_ok_def)
    ultimately show ?thesis
      by (simp add: proposal_ok_def ballots_wf_def)
  qed
  moreover have "quorumSize b = q"
    using assms(1) by (simp add: byz_inv_def)
  ultimately show ?thesis
    using b1(1) b2 set_proposal_inv [OF b2]
    by (auto simp: handleCommit_def l Let_def b2_def [symmetric] split: option.splits)
qed

lemma fresh_proposal_ok:
  "proposal_ok q b pid \<lparr>cp_id = i, cp_value = v, cp_term = t, cp_votes = [], cp_status = PPending, cp_weights = ws\<rparr>"
  by (simp add: proposal_ok_def ballots_wf_def)

lemma handlePrePrepare_inv:
  assumes "byz_inv n q b"
  shows "byz_inv n q (handlePrePrepare m b)"
  using assms set_proposal_inv [OF assms fresh_proposal_ok]
  by (auto simp: handlePrePrepare_def Let_def own_message_def intro!: broadcast_inv split: option.splits)

lemma record_vote_inv:
  assumes "byz_inv n q b"
  shows "byz_inv n q (record_vote pid b)"
proof (cases "jget (bz_proposals b) pid")
  case (Some p)
  let ?v = "\<lparr>cv_voterId = bz_id b, cv_approve = True\<rparr>"
  let ?p = "p\<lparr>cp_votes := jset (bz_id b) ?v (cp_votes p)\<rparr>"
  have ok: "proposal_ok q b pid p"
    using assms Some by (simp add: byz_inv_def)
  have "length (ballots True p) \<le> length (ballots True ?p)"
    using ballots_jset_approve [of "cp_votes p" "bz_id b"] by (simp add: ballots_def)
  moreover have "length (cp_votes p) \<le> length (cp_votes ?p)"
    by (simp add: length_jset)
  moreover have "ballots_wf ?p"
    using ok ballots_wf_vote [of p ?v] by (simp add: proposal_ok_def)
  ultimately have "proposal_ok q b pid ?p"
    using ok unfolding proposal_ok_def by auto
  then show ?thesis
    using set_proposal_inv [OF assms] Some by (simp add: record_vote_def)
qed (simp add: record_vote_def assms)

lemma byz_vote_inv:
  assumes "byz_inv n q b"
  shows "byz_inv n q (byz_vote pid v b)"
proof (cases "jget (bz_proposals b) pid")
  case (Some p)
  let ?p = "p\<lparr>cp_votes := jset (cv_voterId v) v (cp_votes p)\<rparr>"
  have ok: "ballots_wf p" and q: "quorumSize b = q"
    using assms Some by (auto simp: byz_inv_def proposal_ok_def)
  have "proposal_ok q b pid (byz_count (int (length (bz_nodes b)) + 1) q ?p)" if "cp_status p = PPending"
  proof -
    have "q \<le> int (length (ballots True ?p))" if "rat_of_int q \<le> approvingWeight ?p"
      using that approving_le [of ?p] rat_int_le(1) order_trans by blast
    moreover have "ballots True (?p\<lparr>cp_status := x\<rparr>) = ballots True ?p" "ballots_wf (?p\<lparr>cp_status := x\<rparr>)" for x
      using ballots_wf_vote [OF ok, of v] by (simp_all add: ballots_def ballots_wf_def)
    moreover have "ballots_wf ?p"
      by (rule ballots_wf_vote [OF ok])
    ultimately show ?thesis
      using that by (auto simp: byz_count_def proposal_ok_def)
  qed
  then show ?thesis
    using set_proposal_inv [OF assms] Some assms q by (simp add: byz_vote_def)
qed (simp add: byz_vote_def assms)

lemma byz_tick_inv:
  assumes "byz_inv n q b"
  shows "byz_inv n q (byz_tick pid start timeout now b)"
proof (cases "jget (bz_proposals b) pid")
  case (Some p)
  then have "proposal_ok q b pid p"
    using assms by (simp add: byz_inv_def)
  then have "proposal_ok q b pid (await_tick start timeout now p)"
    by (auto simp: await_tick_def proposal_ok_def ballots_wf_def)
  then show ?thesis
    using set_proposal_inv [OF assms] Some by (simp add: byz_tick_def)
qed (simp add: byz_tick_def assms)

lemma byz_propose_inv:
  assumes "byz_inv n q b" "byz_propose dig v ws b = Some (pid, b')"
  shows "byz_inv n q b'"
proof -
  have "byz_inv n q (b\<lparr>bz_sequenceNumber := s\<rparr>)" for s
    by (rule byz_inv_same [OF assms(1)]) (use assms(1) in \<open>auto simp: byz_inv_def\<close>)
  from set_proposal_inv [OF this fresh_proposal_ok] show ?thesis
    using assms(2) by (auto simp: byz_propose_def Let_def own_message_def intro!: broadcast_inv split: if_splits)
qed

lemma electPrimary_inv:
  assumes "byz_inv n q b" shows "byz_inv n q (snd (electPrimary b))"
  by (rule byz_inv_same [OF assms]) (use assms in \<open>auto simp: electPrimary_def Let_def byz_inv_def\<close>)

lemma resume_inv: "byz_inv n q b \<Longrightarrow> cont_ok k \<Longrightarrow> byz_inv n q (resume k b)"
proof (cases k)
  case (KCommit m)
  assume "byz_inv n q b" "cont_ok k"
  then have b1: "byz_inv n q (handleCommit m b)"
    using KCommit by (simp add: handleCommit_inv)
  show ?thesis
    unfolding KCommit by (simp add: Let_def, rule byz_inv_same [OF b1]) (use b1 in \<open>auto simp: byz_inv_def\<close>)
qed (simp_all add: handlePrepare_inv record_vote_inv)

lemma byz_step_inv:
  assumes "byz_inv n q b"
  shows "byz_inv n q (byz_step dig a b)"
proof (cases a)
  case (BReceive m)
  then show ?thesis
    using assms by (auto simp: handleInboundMessage_def Let_def handlePrePrepare_inv handlePrepare_inv handleCommit_inv
        split: option.splits byz_phase.splits)
next
  case (BResume k)
  let ?b = "b\<lparr>bz_pending := take k (bz_pending b) @ drop (Suc k) (bz_pending b)\<rparr>"
  have "byz_inv n q ?b"
    by (rule byz_inv_same [OF assms]) (use assms in \<open>auto simp: byz_inv_def dest: in_set_takeD in_set_dropD\<close>)
  moreover have "k < length (bz_pending b) \<Longrightarrow> cont_ok (bz_pending b ! k)"
    using assms by (simp add: byz_inv_def)
  ultimately show ?thesis
    using assms BResume by (simp add: resume_inv)
next
  case BViewChange
  have "byz_inv n q (b\<lparr>bz_viewNumber := bz_viewNumber b + 1\<rparr>)"
    by (rule byz_inv_same [OF assms]) (use assms in \<open>auto simp: byz_inv_def\<close>)
  then show ?thesis
    using BViewChange by (simp add: initiateViewChange_def electPrimary_inv)
qed (use assms in \<open>auto simp: byz_vote_inv byz_tick_inv electPrimary_inv byz_propose_inv split: option.splits\<close>)

interpretation byzantine: invariant_system "byz_step dig" "byz_inv n q" for dig n q
  by unfold_locales (rule byz_step_inv)

text \<open>A node that has been given its peers and nothing else.\<close>

definition byz_cluster :: "string \<Rightarrow> int option \<Rightarrow> string list \<Rightarrow> 'v byz option" where
  "byz_cluster i maxFaulty peers =
     (case new_byzantine i maxFaulty of None \<Rightarrow> None | Some b \<Rightarrow> Some (fold (\<lambda>p. addNode p False) peers b))"

lemma fold_addNode:
  "bz_messageLog (fold (\<lambda>p. addNode p False) peers b) = bz_messageLog b"
  "bz_proposals (fold (\<lambda>p. addNode p False) peers b) = bz_proposals b"
  "bz_pending (fold (\<lambda>p. addNode p False) peers b) = bz_pending b"
  "bz_maxFaultyNodes (fold (\<lambda>p. addNode p False) peers b) = bz_maxFaultyNodes b"
  by (induction peers arbitrary: b) (simp_all add: addNode_def)

lemma jset_new: "k \<notin> set (jkeys m) \<Longrightarrow> jset k v m = m @ [(k, v)]"
  by (induction m) (auto simp: jkeys_def)

lemma length_addNodes:
  "distinct peers \<Longrightarrow> set peers \<inter> set (jkeys (bz_nodes b)) = {} \<Longrightarrow>
    length (bz_nodes (fold (\<lambda>p. addNode p False) peers b)) = length (bz_nodes b) + length peers"
  by (induction peers arbitrary: b) (auto simp: addNode_def jset_new jkeys_def)

lemma byz_cluster_some:
  assumes "byz_cluster i maxFaulty peers = Some (b :: 'v byz)"
  shows "bz_messageLog b = [] \<and> bz_proposals b = [] \<and> bz_pending b = [] \<and> bz_maxFaultyNodes b = maxFaulty \<and>
    (\<forall>c. maxFaulty = Some c \<longrightarrow> 0 \<le> c)"
  using assms by (auto simp: byz_cluster_def new_byzantine_def fold_addNode split: option.splits if_splits)

lemma byz_cluster_length:
  assumes "byz_cluster i maxFaulty peers = Some (b :: 'v byz)" "distinct peers"
  shows "length (bz_nodes b) = length peers"
  using assms by (auto simp: byz_cluster_def new_byzantine_def jkeys_def length_addNodes split: option.splits if_splits)

lemma byz_cluster_inv:
  "byz_cluster i maxFaulty peers = Some b \<Longrightarrow> byz_inv (length (bz_nodes b)) (quorumSize b) b"
  using byz_cluster_some [of i maxFaulty peers b] by (simp add: byz_inv_def)

text \<open>A decision stays unless \<open>propose\<close> replaces the proposal.\<close>

definition not_propose :: "'v byz_op \<Rightarrow> bool" where
  "not_propose a \<longleftrightarrow> (\<forall>v ws. a \<noteq> BPropose v ws)"

definition decided :: "string \<Rightarrow> proposal_status \<Rightarrow> 'v \<Rightarrow> 'v byz \<Rightarrow> bool" where
  "decided pid st v b \<longleftrightarrow> (\<exists>p. jget (bz_proposals b) pid = Some p \<and> cp_status p = st \<and> cp_value p = v)"

lemma decided_log: "log_message ty m b = (ms, b1) \<Longrightarrow> bz_proposals b1 = bz_proposals b"
  by (auto simp: log_message_def Let_def)

lemma decided_prepare: "decided pid st v (handlePrepare m b) = decided pid st v b"
  using decided_log [of Prepare m b] by (auto simp: decided_def handlePrepare_def broadcastMessage_def Let_def split: prod.splits)

lemma decided_commit: "decided pid st v b \<Longrightarrow> st \<noteq> PPending \<Longrightarrow> decided pid st v (handleCommit m b)"
  using decided_log [of Commit m b] by (auto simp: decided_def handleCommit_def Let_def split: prod.splits option.splits)

lemma decided_resume: "decided pid st v b \<Longrightarrow> st \<noteq> PPending \<Longrightarrow> decided pid st v (resume k b)"
proof (cases k)
  case (KCommit m)
  assume "decided pid st v b" "st \<noteq> PPending"
  then show ?thesis
    using KCommit decided_commit [of pid st v b m] by (simp add: Let_def) (simp add: decided_def)
next
  case (KVote i)
  assume "decided pid st v b"
  then show ?thesis
    using KVote by (auto simp: decided_def record_vote_def split: option.splits)
qed (simp_all add: decided_prepare)

lemma decided_step:
  assumes "decided pid st v b" "st \<noteq> PPending" "not_propose a"
  shows "decided pid st v (byz_step dig a b)"
proof (cases a)
  case (BReceive m)
  have "decided pid st v (handlePrePrepare x b)" for x
    using assms(1) by (auto simp: decided_def handlePrePrepare_def broadcastMessage_def Let_def split: option.splits)
  then show ?thesis
    using assms BReceive
    by (auto simp: handleInboundMessage_def Let_def decided_prepare decided_commit split: option.splits byz_phase.splits)
next
  case (BResume k)
  have "decided pid st v (b\<lparr>bz_pending := x\<rparr>)" for x
    using assms(1) by (simp add: decided_def)
  then show ?thesis
    using assms BResume by (simp add: decided_resume)
qed (use assms in \<open>auto simp: decided_def not_propose_def byz_vote_def byz_tick_def await_tick_def electPrimary_def
      initiateViewChange_def Let_def split: option.splits\<close>)

interpretation byz_decision: guarded_system "\<lambda>a _. not_propose a" "byz_step dig" "\<lambda>b. st \<noteq> PPending \<and> decided pid st v b"
  for dig st pid v
  by unfold_locales (simp add: decided_step)

lemma run_ok_all: "(\<forall>a \<in> set acts. P a) \<Longrightarrow> run_ok (\<lambda>a _. P a) step acts s"
  by (induction acts arbitrary: s) auto

text \<open>
  C26. Byzantine acceptance. At a node with a fixed set of peers, whatever messages arrive and however the
  continuations of its handlers interleave: an accepted proposal has commit messages of a quorum of
  different senders or approving votes of a quorum of different voters, weights of any size included; a
  rejected one has votes of as many voters as the cluster has nodes; and a decision stays, with its value,
  under every operation but a new \<open>propose\<close>.
\<close>

theorem bft_acceptance:
  fixes b0 b :: "'v byz"
  assumes "byz_cluster i maxFaulty peers = Some b0" and "b = run (byz_step dig) ops b0"
    and "jget (bz_proposals b) pid = Some p"
  shows "(cp_status p = PAccepted \<longrightarrow>
      (\<exists>v s. pid = bft_id v s \<and> quorumSize b0 \<le> int (card (bm_senderId ` set (committers b v s)))) \<or>
      quorumSize b0 \<le> int (card (cv_voterId ` set (ballots True p)))) \<and>
    (cp_status p = PRejected \<longrightarrow> length (bz_nodes b0) + 1 \<le> card (set (jkeys (cp_votes p)))) \<and>
    (cp_status p \<noteq> PPending \<longrightarrow> (\<forall>ops'. (\<forall>a \<in> set ops'. not_propose a) \<longrightarrow>
       decided pid (cp_status p) (cp_value p) (run (byz_step dig) ops' b)))"
proof -
  have inv: "byz_inv (length (bz_nodes b0)) (quorumSize b0) b"
    unfolding assms(2) by (rule byzantine.run_inv [OF byz_cluster_inv [OF assms(1)]])
  then have ok: "proposal_ok (quorumSize b0) b pid p" and n: "length (bz_nodes b) = length (bz_nodes b0)"
    using assms(3) by (auto simp: byz_inv_def)
  have "log_ok (nullish (jget (bz_messageLog b) (log_key v s)) [])" for v s
    using inv by (cases "jget (bz_messageLog b) (log_key v s)") (auto simp: byz_inv_def log_ok_def)
  then have senders: "card (bm_senderId ` set (committers b v s)) = length (committers b v s)" for v s
    using distinct_card [of "map bm_senderId (committers b v s)"] by (simp add: log_ok_def committers_def)
  have voters: "card (cv_voterId ` set (ballots True p)) = length (ballots True p)"
    using ok distinct_card [OF ballots_distinct [of p True]] by (simp add: proposal_ok_def)
  have "card (set (jkeys (cp_votes p))) = length (cp_votes p)"
    using ok distinct_card [of "jkeys (cp_votes p)"] by (simp add: proposal_ok_def ballots_wf_def jwf_def jkeys_def)
  moreover have "decided pid (cp_status p) (cp_value p) (run (byz_step dig) ops' b)"
    if "cp_status p \<noteq> PPending" "\<forall>a \<in> set ops'. not_propose a" for ops'
    using byz_decision.guarded_run [OF run_ok_all [OF that(2)], of "cp_status p" pid "cp_value p" b dig] that(1) assms(3) by (auto simp: decided_def)
  ultimately show ?thesis
    using ok senders voters n unfolding proposal_ok_def by simp
qed

text \<open>
  Quorums of the Byzantine protocol. For every cluster size and every declared bound on faulty nodes,
  two quorums share more than \<open>f\<close> nodes, so that they share a correct one, and the nodes that remain when \<open>f\<close>
  fail are still a quorum; \<open>f\<close> is at most the declared bound and less than a third of the nodes.
\<close>

theorem bft_quorums:
  assumes "byz_cluster i maxFaulty peers = Some b" "distinct peers" "i \<notin> set peers"
    and "A \<subseteq> insert i (set peers)" "B \<subseteq> insert i (set peers)" "quorumSize b \<le> int (card A)" "quorumSize b \<le> int (card B)"
  shows "byzantineF b < int (card (A \<inter> B)) \<and> quorumSize b \<le> int (card (insert i (set peers))) - byzantineF b \<and>
    3 * byzantineF b < int (card (insert i (set peers))) \<and> 0 \<le> byzantineF b \<and>
    (\<forall>c. maxFaulty = Some c \<longrightarrow> byzantineF b \<le> c)"
proof -
  have n: "length (bz_nodes b) = length peers" "bz_maxFaultyNodes b = maxFaulty"
    and cap: "\<forall>c. bz_maxFaultyNodes b = Some c \<longrightarrow> 0 \<le> c"
    using byz_cluster_length [OF assms(1,2)] byz_cluster_some [OF assms(1)] by auto
  have c: "card (insert i (set peers)) = length peers + 1"
    using assms(2,3) by (simp add: distinct_card)
  note f = byzantineF_bounds [OF cap]
  have fin: "finite A" "finite B"
    using assms(4,5) by (auto intro: finite_subset)
  have "card (A \<union> B) \<le> length peers + 1"
    using card_mono [of "insert i (set peers)" "A \<union> B"] assms(4,5) c by simp
  moreover have "card A + card B = card (A \<union> B) + card (A \<inter> B)"
    by (rule card_Un_Int [OF fin])
  moreover have "int (length peers) + 1 + byzantineF b < 2 * quorumSize b"
    by (simp add: quorumSize_def n(1))
  ultimately have "byzantineF b < int (card (A \<inter> B))"
    using assms(6,7) by linarith
  moreover have "quorumSize b \<le> int (length peers) + 1 - byzantineF b"
    using f(2) by (simp add: quorumSize_def n(1))
  ultimately show ?thesis
    using f n c by auto
qed

section \<open>Examples\<close>

text \<open>
  Four nodes, of which \<open>''a''\<close> is faulty: it sends the value 1 to \<open>''b''\<close> and \<open>''d''\<close> and the value 2 to \<open>''c''\<close>
  under the same view and sequence number.
\<close>

definition bft_dig :: "nat \<Rightarrow> string" where
  "bft_dig v = show_nat v"

definition wire :: "nat byz_message \<Rightarrow> nat inbound_message" where
  "wire m = \<lparr>im_type = Some (bm_type m), im_from = bm_senderId m, im_ptype = Some (bm_type m),
     im_viewNumber = Some (bm_viewNumber m), im_sequenceNumber = Some (bm_sequenceNumber m),
     im_digest = Some (bm_digest m), im_payload = bm_payload m\<rparr>"

definition bmsg :: "byz_phase \<Rightarrow> string \<Rightarrow> nat \<Rightarrow> nat option \<Rightarrow> nat byz_message" where
  "bmsg ty i v pl = \<lparr>bm_type = ty, bm_viewNumber = 0, bm_sequenceNumber = 1, bm_digest = bft_dig v, bm_senderId = i,
     bm_payload = pl\<rparr>"

text \<open>What a correct node does with the value it got and the messages of the two other correct nodes.\<close>

definition bft_ops :: "nat \<Rightarrow> nat byz_message list \<Rightarrow> nat byz_message list \<Rightarrow> nat byz_op list" where
  "bft_ops v prepares commits =
     [BReceive (wire (bmsg PrePrepare ''a'' v (Some v))), BResume 0] @ map (\<lambda>m. BReceive (wire m)) prepares @
     [BResume 0] @ map (\<lambda>m. BReceive (wire m)) commits"

definition bft_node :: "string \<Rightarrow> nat byz" where
  "bft_node i = the (byz_cluster i None (filter (\<lambda>j. j \<noteq> i) [''a'', ''b'', ''c'', ''d'']))"

definition bft_b :: "nat byz" where
  "bft_b = run (byz_step bft_dig) (bft_ops 1 [bmsg Prepare ''c'' 2 None, bmsg Prepare ''d'' 1 None]
     [bmsg Commit ''c'' 1 None, bmsg Commit ''d'' 1 None]) (bft_node ''b'')"

definition bft_c :: "nat byz" where
  "bft_c = run (byz_step bft_dig) (bft_ops 2 [bmsg Prepare ''b'' 1 None, bmsg Prepare ''d'' 1 None]
     [bmsg Commit ''b'' 1 None, bmsg Commit ''d'' 1 None]) (bft_node ''c'')"

definition bft_d :: "nat byz" where
  "bft_d = run (byz_step bft_dig) (bft_ops 1 [bmsg Prepare ''c'' 2 None, bmsg Prepare ''b'' 1 None]
     [bmsg Commit ''b'' 1 None, bmsg Commit ''c'' 1 None]) (bft_node ''d'')"

theorem bft_acceptance_witness:
  "decided (bft_id 0 1) PAccepted 1 (run (byz_step bft_dig) [BVote (bft_id 0 1) \<lparr>cv_voterId = ''c'', cv_approve = False\<rparr>] bft_b)"
proof -
  have c: "byz_cluster ''b'' None [''a'', ''c'', ''d''] = Some (bft_node ''b'')"
    by code_simp
  have "map_option cp_status (jget (bz_proposals bft_b) (bft_id 0 1)) = Some PAccepted"
    "map_option cp_value (jget (bz_proposals bft_b) (bft_id 0 1)) = Some 1"
    by code_simp+
  then obtain p where p: "jget (bz_proposals bft_b) (bft_id 0 1) = Some p" "cp_status p = PAccepted" "cp_value p = 1"
    by auto
  have "not_propose (BVote (bft_id 0 1) \<lparr>cv_voterId = ''c'', cv_approve = False\<rparr> :: nat byz_op)"
    by (simp add: not_propose_def)
  then show ?thesis
    using bft_acceptance [OF c bft_b_def p(1)] p(2,3)
    by (metis list.set(1,2) empty_iff insert_iff proposal_status.distinct(1))
qed

theorem bft_quorums_witness:
  "byzantineF (bft_node ''b'') = 1 \<and> quorumSize (bft_node ''b'') = 3 \<and>
    byzantineF (bft_node ''b'') < int (card ({''a'', ''b'', ''c''} \<inter> {''b'', ''c'', ''d''}))"
proof -
  have c: "byz_cluster ''b'' None [''a'', ''c'', ''d''] = Some (bft_node ''b'')" "byzantineF (bft_node ''b'') = 1"
    "quorumSize (bft_node ''b'') = 3"
    by code_simp+
  then show ?thesis
    using bft_quorums [OF c(1), of "{''a'', ''b'', ''c''}" "{''b'', ''c'', ''d''}"] by simp
qed

text \<open>
  Prepares and commits are counted without comparing digests. One faulty node out of four, which the
  protocol is meant to tolerate, thereby makes two correct nodes accept different values for the same
  proposal; every prepare and commit they have received was sent by the correct nodes.
\<close>

lemma equivocation_splits_decision:
  "decided (bft_id 0 1) PAccepted 1 bft_b" "decided (bft_id 0 1) PAccepted 2 bft_c" "decided (bft_id 0 1) PAccepted 1 bft_d"
  "bz_sent bft_b = [bmsg Prepare ''b'' 1 None, bmsg Commit ''b'' 1 None]"
  "bz_sent bft_c = [bmsg Prepare ''c'' 2 None, bmsg Commit ''c'' 1 None]"
  "bz_sent bft_d = [bmsg Prepare ''d'' 1 None, bmsg Commit ''d'' 1 None]"
proof -
  have "map (\<lambda>b. map_option (\<lambda>p. (cp_status p, cp_value p)) (jget (bz_proposals b) (bft_id 0 1))) [bft_b, bft_c, bft_d] =
      [Some (PAccepted, 1), Some (PAccepted, 2), Some (PAccepted, 1)]"
    by code_simp
  then show "decided (bft_id 0 1) PAccepted 1 bft_b" "decided (bft_id 0 1) PAccepted 2 bft_c" "decided (bft_id 0 1) PAccepted 1 bft_d"
    by (auto simp: decided_def)
qed code_simp+

text \<open>\<open>electPrimary\<close> lists the own node first, so that in view 0 every node elects itself.\<close>

lemma everyone_elects_itself: "bz_viewNumber b = 0 \<Longrightarrow> fst (electPrimary b) = bz_id b"
  by (simp add: electPrimary_def Let_def)

end
