(* ===== verification/Deque.thy ===== *)
theory Deque
  imports Prelude
begin

text \<open>
  Model of the class \<open>Deque\<close> of \<open>swarm/src/message-bus.ts\<close>: a queue in a circular buffer that doubles
  its capacity when it is full. The buffer is a list of slots, an empty slot is \<open>None\<close>. The locale
  \<open>fifo_queue\<close> is what the message queues rely on; the deque refines a list.
\<close>

section \<open>The circular buffer\<close>

record 'a deque =
  dq_buffer :: "'a option list"
  dq_head :: nat
  dq_tail :: nat
  dq_count :: nat
  dq_capacity :: nat

definition new_deque :: "nat \<Rightarrow> 'a deque" where
  "new_deque initialCapacity =
     \<lparr>dq_buffer = replicate initialCapacity None, dq_head = 0, dq_tail = 0, dq_count = 0,
      dq_capacity = initialCapacity\<rparr>"

text \<open>The index \<open>(this.head + i) % this.capacity\<close>.\<close>

definition slot :: "'a deque \<Rightarrow> nat \<Rightarrow> nat" where
  "slot d i = (dq_head d + i) mod dq_capacity d"

definition dq_grow :: "'a deque \<Rightarrow> 'a deque" where
  "dq_grow d =
     (let newCapacity = dq_capacity d * 2;
          newBuffer = fold (\<lambda>i buf. buf[i := dq_buffer d ! slot d i]) [0..<dq_count d] (replicate newCapacity None)
      in d\<lparr>dq_buffer := newBuffer, dq_head := 0, dq_tail := dq_count d, dq_capacity := newCapacity\<rparr>)"

definition pushBack :: "'a \<Rightarrow> 'a deque \<Rightarrow> 'a deque" where
  "pushBack item d =
     (let d1 = (if dq_count d = dq_capacity d then dq_grow d else d)
      in d1\<lparr>dq_buffer := (dq_buffer d1)[dq_tail d1 := Some item],
            dq_tail := (dq_tail d1 + 1) mod dq_capacity d1, dq_count := dq_count d1 + 1\<rparr>)"

definition popFront :: "'a deque \<Rightarrow> 'a option \<times> 'a deque" where
  "popFront d =
     (if dq_count d = 0 then (None, d)
      else (dq_buffer d ! dq_head d,
            d\<lparr>dq_buffer := (dq_buffer d)[dq_head d := None], dq_head := (dq_head d + 1) mod dq_capacity d,
              dq_count := dq_count d - 1\<rparr>))"

definition peekFront :: "'a deque \<Rightarrow> 'a option" where
  "peekFront d = (if dq_count d = 0 then None else dq_buffer d ! dq_head d)"

definition dq_clear :: "'a deque \<Rightarrow> 'a deque" where
  "dq_clear d =
     d\<lparr>dq_buffer := replicate (dq_capacity d) None, dq_head := 0, dq_tail := 0, dq_count := 0\<rparr>"

text \<open>The test of the loops of \<open>find\<close> and \<open>findAndRemove\<close>, and the first index that meets it.\<close>

definition dq_matches :: "('a \<Rightarrow> bool) \<Rightarrow> 'a deque \<Rightarrow> nat \<Rightarrow> bool" where
  "dq_matches p d i = (case dq_buffer d ! slot d i of None \<Rightarrow> False | Some item \<Rightarrow> p item)"

definition dq_find :: "('a \<Rightarrow> bool) \<Rightarrow> 'a deque \<Rightarrow> 'a option" where
  "dq_find p d =
     (case find (dq_matches p d) [0..<dq_count d] of None \<Rightarrow> None | Some i \<Rightarrow> dq_buffer d ! slot d i)"

definition shift_down :: "nat \<Rightarrow> nat \<Rightarrow> 'a deque \<Rightarrow> 'a option list" where
  "shift_down i k d = fold (\<lambda>j buf. buf[slot d j := buf ! slot d (j + 1)]) [i..<k] (dq_buffer d)"

definition findAndRemove :: "('a \<Rightarrow> bool) \<Rightarrow> 'a deque \<Rightarrow> 'a option \<times> 'a deque" where
  "findAndRemove p d =
     (case find (dq_matches p d) [0..<dq_count d] of
        None \<Rightarrow> (None, d)
      | Some i \<Rightarrow>
          let buf = shift_down i (dq_count d - 1) d;
              newTail = (dq_tail d + dq_capacity d - 1) mod dq_capacity d
          in (dq_buffer d ! slot d i,
              d\<lparr>dq_buffer := buf[newTail := None], dq_tail := newTail, dq_count := dq_count d - 1\<rparr>))"

text \<open>What the iterator yields.\<close>

definition dq_iter :: "'a deque \<Rightarrow> 'a list" where
  "dq_iter d = List.map_filter (\<lambda>i. dq_buffer d ! slot d i) [0..<dq_count d]"

section \<open>Slots\<close>

definition dq_inv :: "'a deque \<Rightarrow> bool" where
  "dq_inv d \<longleftrightarrow> 0 < dq_capacity d \<and> length (dq_buffer d) = dq_capacity d \<and> dq_head d < dq_capacity d \<and>
     dq_count d \<le> dq_capacity d \<and> dq_tail d = slot d (dq_count d) \<and>
     (\<forall>i < dq_capacity d. (dq_buffer d ! slot d i \<noteq> None) = (i < dq_count d))"

definition dq_list :: "'a deque \<Rightarrow> 'a list" where
  "dq_list d = map (\<lambda>i. the (dq_buffer d ! slot d i)) [0..<dq_count d]"

lemma mod_add_inj_le: "(h + i) mod c = (h + j) mod c \<Longrightarrow> i \<le> j \<Longrightarrow> j < c \<Longrightarrow> i = (j :: nat)"
  using mod_eq_dvd_iff_nat [of "h + i" "h + j" c] dvd_imp_le [of c "j - i"] by fastforce

lemma mod_add_inj: "(h + i) mod c = (h + j) mod c \<Longrightarrow> i < c \<Longrightarrow> j < c \<Longrightarrow> i = (j :: nat)"
  using mod_add_inj_le [of h i c j] mod_add_inj_le [of h j c i] by linarith

lemma slot_inj: "i < dq_capacity d \<Longrightarrow> j < dq_capacity d \<Longrightarrow> slot d i = slot d j \<longleftrightarrow> i = j"
  unfolding slot_def using mod_add_inj by blast

lemma slot_less: "0 < dq_capacity d \<Longrightarrow> slot d i < dq_capacity d"
  by (simp add: slot_def)

lemma length_dq_list [simp]: "length (dq_list d) = dq_count d"
  by (simp add: dq_list_def)

lemma dq_list_empty: "dq_list d = [] \<longleftrightarrow> dq_count d = 0"
  by (simp add: dq_list_def)

lemma nth_dq_list: "i < dq_count d \<Longrightarrow> dq_list d ! i = the (dq_buffer d ! slot d i)"
  by (simp add: dq_list_def)

lemma buffer_slot: "dq_inv d \<Longrightarrow> i < dq_count d \<Longrightarrow> dq_buffer d ! slot d i = Some (dq_list d ! i)"
  by (auto simp: dq_inv_def nth_dq_list)

text \<open>A list of slots that holds exactly the given items from the head on.\<close>

lemma dq_inv_iff:
  "dq_inv d \<longleftrightarrow> 0 < dq_capacity d \<and> length (dq_buffer d) = dq_capacity d \<and> dq_head d < dq_capacity d \<and>
     dq_count d \<le> dq_capacity d \<and> dq_tail d = slot d (dq_count d) \<and>
     (\<exists>xs. length xs = dq_count d \<and>
       (\<forall>i < dq_capacity d. dq_buffer d ! slot d i = (if i < dq_count d then Some (xs ! i) else None)))"
  (is "_ \<longleftrightarrow> ?r")
proof
  assume "dq_inv d"
  then show ?r
    by (auto simp: dq_inv_def intro!: exI [of _ "dq_list d"] buffer_slot)
qed (auto simp: dq_inv_def split: if_splits)

lemma dq_holds:
  assumes "0 < dq_capacity d" "length (dq_buffer d) = dq_capacity d" "dq_head d < dq_capacity d" "length xs \<le> dq_capacity d"
    "dq_count d = length xs" "dq_tail d = slot d (length xs)"
    "\<And>i. i < dq_capacity d \<Longrightarrow> dq_buffer d ! slot d i = (if i < length xs then Some (xs ! i) else None)"
  shows "dq_inv d" "dq_list d = xs"
proof -
  show "dq_inv d"
    using assms unfolding dq_inv_iff by auto
  show "dq_list d = xs"
    by (rule nth_equalityI) (use assms in \<open>auto simp: nth_dq_list\<close>)
qed

section \<open>The operations on the list\<close>

lemma new_deque_list: "0 < c \<Longrightarrow> dq_inv (new_deque c) \<and> dq_list (new_deque c) = []"
  by (simp add: dq_inv_def dq_list_def new_deque_def slot_def)

lemma dq_clear_list: "dq_inv d \<Longrightarrow> dq_inv (dq_clear d) \<and> dq_list (dq_clear d) = []"
  by (simp add: dq_inv_def dq_list_def dq_clear_def slot_def)

lemma fold_fill:
  "k \<le> length buf \<Longrightarrow> fold (\<lambda>i b. b[i := f i]) [0..<k] buf = map f [0..<k] @ drop k buf"
  by (induction k) (simp_all add: list_update_append Cons_nth_drop_Suc [symmetric])

lemma dq_grow_list:
  assumes "dq_inv d" "dq_count d = dq_capacity d"
  shows "dq_inv (dq_grow d)" "dq_list (dq_grow d) = dq_list d" "dq_count (dq_grow d) < dq_capacity (dq_grow d)"
proof -
  have c: "0 < dq_capacity d"
    using assms(1) by (simp add: dq_inv_def)
  have buf: "dq_buffer (dq_grow d) = map (\<lambda>i. dq_buffer d ! slot d i) [0..<dq_count d] @ replicate (dq_count d) None"
    using assms(2) by (simp add: dq_grow_def Let_def fold_fill)
  have g: "dq_head (dq_grow d) = 0" "dq_tail (dq_grow d) = dq_count d" "dq_count (dq_grow d) = dq_count d"
    "dq_capacity (dq_grow d) = dq_count d * 2"
    using assms(2) by (simp_all add: dq_grow_def Let_def)
  then have "slot (dq_grow d) i = i" if "i < dq_count d * 2" for i
    using that by (simp add: slot_def)
  then show "dq_inv (dq_grow d)" "dq_list (dq_grow d) = dq_list d"
    using dq_holds [of "dq_grow d" "dq_list d"] g c assms buffer_slot [OF assms(1)]
    by (auto simp: buf nth_append)
  show "dq_count (dq_grow d) < dq_capacity (dq_grow d)"
    using g c assms(2) by simp
qed

lemma pushBack_room:
  assumes d: "dq_inv d" "dq_count d < dq_capacity d"
    and e: "e = d\<lparr>dq_buffer := (dq_buffer d)[dq_tail d := Some x], dq_tail := (dq_tail d + 1) mod dq_capacity d,
      dq_count := dq_count d + 1\<rparr>"
  shows "dq_inv e" "dq_list e = dq_list d @ [x]"
proof -
  have t: "dq_tail d = slot d (dq_count d)" "length (dq_buffer d) = dq_capacity d" "dq_head d < dq_capacity d"
    using d(1) by (simp_all add: dq_inv_def)
  have slots: "slot e i = slot d i" for i
    by (simp add: e slot_def)
  have "dq_buffer e ! slot e i = (if i < length (dq_list d @ [x]) then Some ((dq_list d @ [x]) ! i) else None)"
    if i: "i < dq_capacity e" for i
  proof -
    have i': "i < dq_capacity d" using i by (simp add: e)
    have "dq_buffer e ! slot e i = (if i = dq_count d then Some x else dq_buffer d ! slot d i)"
      using slot_inj [OF i' d(2)] slot_less [of d i] i' t unfolding slots by (auto simp: e nth_list_update)
    then show ?thesis
      using d(1) i' buffer_slot [OF d(1), of i] by (auto simp: nth_append dq_inv_def)
  qed
  moreover have "dq_tail e = slot e (length (dq_list d @ [x]))"
    using t(1) by (simp add: slots) (simp add: e slot_def mod_simps)
  ultimately show "dq_inv e" "dq_list e = dq_list d @ [x]"
    using dq_holds [of e "dq_list d @ [x]"] d t by (auto simp: e)
qed

lemma pushBack_list:
  assumes "dq_inv d"
  shows "dq_inv (pushBack x d) \<and> dq_list (pushBack x d) = dq_list d @ [x]"
proof (cases "dq_count d = dq_capacity d")
  case True
  note g = dq_grow_list [OF assms True]
  show ?thesis
    using pushBack_room [OF g(1,3) refl, of x] g(2) True by (simp add: pushBack_def Let_def)
next
  case False
  then have "dq_count d < dq_capacity d"
    using assms by (simp add: dq_inv_def)
  then show ?thesis
    using pushBack_room [OF assms _ refl, of x] False by (simp add: pushBack_def Let_def)
qed

lemma popFront_list:
  assumes "dq_inv d" "popFront d = (r, e)"
  shows "dq_inv e \<and> r = (case dq_list d of [] \<Rightarrow> None | x # _ \<Rightarrow> Some x) \<and> dq_list e = tl (dq_list d)"
proof (cases "dq_count d = 0")
  case True
  then show ?thesis
    using assms by (simp add: popFront_def dq_list_def)
next
  case False
  have d: "length (dq_buffer d) = dq_capacity d" "dq_head d < dq_capacity d" "0 < dq_capacity d" "dq_count d \<le> dq_capacity d"
    "dq_tail d = slot d (dq_count d)" "slot d 0 = dq_head d"
    using assms(1) by (auto simp: dq_inv_def slot_def)
  obtain x xs where xs: "dq_list d = x # xs"
    using False length_dq_list [of d] by (cases "dq_list d") auto
  have e: "r = dq_buffer d ! dq_head d" "e = d\<lparr>dq_buffer := (dq_buffer d)[dq_head d := None],
      dq_head := (dq_head d + 1) mod dq_capacity d, dq_count := dq_count d - 1\<rparr>"
    using assms(2) False by (auto simp: popFront_def)
  have slots: "slot e i = slot d (Suc i)" for i
    by (simp add: e slot_def mod_simps)
  have r: "r = Some x"
    using buffer_slot [OF assms(1), of 0] False d(6) xs e(1) by simp
  have "dq_buffer e ! slot e i = (if i < length xs then Some (xs ! i) else None)" if i: "i < dq_capacity e" for i
  proof (cases "Suc i = dq_capacity d")
    case True
    then have "slot e i = dq_head d"
      unfolding slots using d(2) by (simp add: slot_def)
    then show ?thesis
      using True d xs length_dq_list [of d] by (simp add: e)
  next
    case False
    then have i': "Suc i < dq_capacity d"
      using i by (simp add: e)
    then have "slot d (Suc i) \<noteq> dq_head d"
      using slot_inj [of "Suc i" d 0] d by auto
    then have "dq_buffer e ! slot e i = dq_buffer d ! slot d (Suc i)"
      unfolding slots by (simp add: e)
    then show ?thesis
      using assms(1) i' buffer_slot [OF assms(1), of "Suc i"] xs length_dq_list [of d] by (auto simp: dq_inv_def)
  qed
  moreover have "dq_count d = Suc (length xs)"
    using xs length_dq_list [of d] by simp
  ultimately have "dq_inv e" "dq_list e = xs"
    using dq_holds [of e xs] d slots by (auto simp: e)
  then show ?thesis
    using r xs by simp
qed

lemma peekFront_list: "dq_inv d \<Longrightarrow> peekFront d = (case dq_list d of [] \<Rightarrow> None | x # _ \<Rightarrow> Some x)"
  using popFront_list [of d] by (auto simp: peekFront_def popFront_def dq_list_def split: if_splits)

lemma dq_iter_list: "dq_inv d \<Longrightarrow> dq_iter d = dq_list d"
proof -
  assume d: "dq_inv d"
  then have "List.map_filter (\<lambda>i. dq_buffer d ! slot d i) [0..<k] = map (\<lambda>i. the (dq_buffer d ! slot d i)) [0..<k]"
    if "k \<le> dq_count d" for k
    using that by (induction k) (auto simp: map_filter_def buffer_slot)
  then show ?thesis
    by (simp add: dq_iter_def dq_list_def)
qed

lemma takeWhile_less: "\<exists>x \<in> set xs. p x \<Longrightarrow> length (takeWhile (\<lambda>x. \<not> p x) xs) < length xs"
  by (induction xs) auto

lemma find_matches:
  assumes "dq_inv d"
  shows "find (dq_matches p d) [0..<dq_count d] = (if \<exists>x \<in> set (dq_list d). p x
     then Some (length (takeWhile (\<lambda>x. \<not> p x) (dq_list d))) else None)"
proof -
  have m: "dq_matches p d i = p (dq_list d ! i)" if "i < dq_count d" for i
    using buffer_slot [OF assms that] by (simp add: dq_matches_def)
  show ?thesis
  proof (cases "\<exists>x \<in> set (dq_list d). p x")
    case True
    let ?k = "length (takeWhile (\<lambda>x. \<not> p x) (dq_list d))"
    have k: "?k < dq_count d" "p (dq_list d ! ?k)"
      using takeWhile_less [OF True] nth_length_takeWhile [of "\<lambda>x. \<not> p x" "dq_list d"] by auto
    moreover have "\<not> p (dq_list d ! j)" if "j < ?k" for j
      using takeWhile_nth [OF that] nth_mem [OF that] set_takeWhileD by fastforce
    ultimately have "find (dq_matches p d) [0..<dq_count d] = Some ?k"
      unfolding find_Some_iff by (intro exI [of _ ?k]) (auto simp: m)
    then show ?thesis
      using True by simp
  next
    case False
    then show ?thesis
      by (auto simp: find_None_iff m dq_list_def in_set_conv_nth)
  qed
qed

lemma find_takeWhile:
  "find p xs = (if \<exists>x \<in> set xs. p x then Some (xs ! length (takeWhile (\<lambda>x. \<not> p x) xs)) else None)"
  by (induction xs) auto

lemma dq_find_list: "dq_inv d \<Longrightarrow> dq_find p d = find p (dq_list d)"
  using takeWhile_less [of "dq_list d" p]
  by (auto simp: dq_find_def find_matches find_takeWhile [of p "dq_list d"] buffer_slot)

lemma shift_down_nth:
  assumes "dq_inv d" "k < dq_count d"
  shows "length (shift_down i k d) = dq_capacity d \<and>
    (\<forall>j < dq_capacity d. shift_down i k d ! slot d j = (if i \<le> j \<and> j < k then dq_buffer d ! slot d (j + 1) else dq_buffer d ! slot d j))"
  using assms(2)
proof (induction k)
  case 0
  then show ?case
    using assms(1) by (simp add: shift_down_def dq_inv_def)
next
  case (Suc k)
  have c: "dq_count d \<le> dq_capacity d" "0 < dq_capacity d"
    using assms(1) by (simp_all add: dq_inv_def)
  show ?case
  proof (cases "i \<le> k")
    case True
    have step: "shift_down i (Suc k) d = (shift_down i k d)[slot d k := shift_down i k d ! slot d (k + 1)]"
      using True by (simp add: shift_down_def)
    have "shift_down i (Suc k) d ! slot d j =
        (if i \<le> j \<and> j < Suc k then dq_buffer d ! slot d (j + 1) else dq_buffer d ! slot d j)" if j: "j < dq_capacity d" for j
      using Suc c slot_inj [OF j, of k] slot_less [of d] True j by (auto simp: step nth_list_update)
    then show ?thesis
      using Suc step by simp
  next
    case False
    then have "shift_down i (Suc k) d = dq_buffer d"
      by (simp add: shift_down_def)
    then show ?thesis
      using False assms(1) by (auto simp: dq_inv_def)
  qed
qed

lemma remove_nth:
  assumes d: "dq_inv d" and i: "i < dq_count d"
    and t: "t = (dq_tail d + dq_capacity d - 1) mod dq_capacity d"
    and e: "e = d\<lparr>dq_buffer := (shift_down i (dq_count d - 1) d)[t := None], dq_tail := t, dq_count := dq_count d - 1\<rparr>"
  shows "dq_inv e" "dq_list e = take i (dq_list d) @ drop (Suc i) (dq_list d)"
proof -
  let ?xs = "take i (dq_list d) @ drop (Suc i) (dq_list d)"
  obtain n where n: "dq_count d = Suc n"
    using i by (cases "dq_count d") auto
  have c: "0 < dq_capacity d" "dq_count d \<le> dq_capacity d" "dq_head d < dq_capacity d" "dq_tail d = slot d (Suc n)"
    using d n by (simp_all add: dq_inv_def)
  have "t = (slot d (Suc n) + (dq_capacity d - 1)) mod dq_capacity d"
    using t c(1,4) by (metis Nat.add_diff_assoc One_nat_def Suc_leI)
  also have "\<dots> = (dq_head d + Suc n + (dq_capacity d - 1)) mod dq_capacity d"
    by (simp only: slot_def mod_add_left_eq)
  also have "dq_head d + Suc n + (dq_capacity d - 1) = (dq_head d + n) + dq_capacity d"
    using c(1) by simp
  finally have t': "t = slot d n"
    by (simp add: slot_def)
  note sh = shift_down_nth [OF d, of n i, unfolded n, simplified]
  have "dq_buffer e ! slot e j = (if j < length ?xs then Some (?xs ! j) else None)" if j: "j < dq_capacity e" for j
  proof -
    have j': "j < dq_capacity d" and se: "slot e j = slot d j"
      using j by (simp_all add: e slot_def)
    have "dq_buffer e ! slot d j = (if j = n then None else if i \<le> j \<and> j < n then dq_buffer d ! slot d (Suc j) else dq_buffer d ! slot d j)"
      using sh j' slot_inj [OF j', of n] slot_less [OF c(1), of j] c n by (auto simp: e t' nth_list_update)
    moreover have "dq_buffer d ! slot d j = None" if "n < j"
      using d j' that n by (auto simp: dq_inv_def)
    ultimately show ?thesis
      using i n c(2) buffer_slot [OF d, of j] buffer_slot [OF d, of "Suc j"] unfolding se by (auto simp: nth_append)
  qed
  moreover have "dq_tail e = slot e (length ?xs)"
    using i n t' by (simp add: e slot_def)
  ultimately show "dq_inv e" "dq_list e = ?xs"
    using dq_holds [of e ?xs] c i n sh by (auto simp: e)
qed

lemma findAndRemove_list:
  assumes "dq_inv d" "findAndRemove p d = (r, e)"
  shows "dq_inv e \<and> r = find p (dq_list d) \<and>
    dq_list e = takeWhile (\<lambda>x. \<not> p x) (dq_list d) @ tl (dropWhile (\<lambda>x. \<not> p x) (dq_list d))"
proof (cases "\<exists>x \<in> set (dq_list d). p x")
  case True
  let ?i = "length (takeWhile (\<lambda>x. \<not> p x) (dq_list d))"
  have i: "?i < dq_count d"
    using takeWhile_less [OF True] by simp
  have "r = find p (dq_list d)"
    using assms(2) True buffer_slot [OF assms(1) i] find_takeWhile [of p "dq_list d"]
    by (auto simp: findAndRemove_def find_matches [OF assms(1)] Let_def)
  moreover have "dq_inv e \<and> dq_list e = take ?i (dq_list d) @ drop (Suc ?i) (dq_list d)"
    using assms(2) True remove_nth [OF assms(1) i refl refl]
    by (auto simp: findAndRemove_def find_matches [OF assms(1)] Let_def)
  moreover have "take ?i (dq_list d) = takeWhile (\<lambda>x. \<not> p x) (dq_list d)"
    by (rule takeWhile_eq_take [symmetric])
  moreover have "drop (Suc ?i) (dq_list d) = tl (dropWhile (\<lambda>x. \<not> p x) (dq_list d))"
    by (simp add: dropWhile_eq_drop drop_Suc tl_drop)
  ultimately show ?thesis
    by simp
next
  case False
  then have kept: "takeWhile (\<lambda>x. \<not> p x) (dq_list d) = dq_list d" "dropWhile (\<lambda>x. \<not> p x) (dq_list d) = []" "find p (dq_list d) = None"
    by (auto simp: find_None_iff)
  have "r = None" "e = d"
    using assms(2) False by (auto simp: findAndRemove_def find_matches [OF assms(1)])
  then show ?thesis
    using assms(1) unfolding kept by simp
qed

section \<open>The interface\<close>

text \<open>What a client of a queue relies on.\<close>

locale fifo_queue =
  fixes fresh :: 'q
    and push :: "'a \<Rightarrow> 'q \<Rightarrow> 'q"
    and pop :: "'q \<Rightarrow> 'a option \<times> 'q"
    and elems :: "'q \<Rightarrow> 'a list"
    and len :: "'q \<Rightarrow> nat"
    and ok :: "'q \<Rightarrow> bool"
  assumes fresh: "ok fresh \<and> elems fresh = []"
    and push: "ok q \<Longrightarrow> ok (push x q) \<and> elems (push x q) = elems q @ [x]"
    and pop: "ok q \<Longrightarrow> pop q = (r, q') \<Longrightarrow> ok q' \<and> r = (case elems q of [] \<Rightarrow> None | x # _ \<Rightarrow> Some x) \<and> elems q' = tl (elems q)"
    and len: "ok q \<Longrightarrow> len q = length (elems q)"
begin

lemma pop_nonempty:
  assumes "ok q" "len q > 0"
  shows "\<exists>x q'. pop q = (Some x, q') \<and> ok q' \<and> elems q = x # elems q'"
  using assms pop [of q "fst (pop q)" "snd (pop q)"] len [of q] by (cases "pop q") (auto split: list.splits)

lemma push_all: "ok q \<Longrightarrow> ok (fold push xs q) \<and> elems (fold push xs q) = elems q @ xs"
  by (induction xs arbitrary: q) (simp_all add: push)

end

interpretation ring: fifo_queue "new_deque 16" pushBack popFront dq_list dq_count dq_inv
  by unfold_locales (auto simp: new_deque_list pushBack_list dest: popFront_list)

section \<open>Refinement\<close>

datatype 'a dq_op = DqPush 'a | DqPop | DqPeek | DqFind "'a \<Rightarrow> bool" | DqRemove "'a \<Rightarrow> bool" | DqClear

fun dq_step :: "'a dq_op \<Rightarrow> 'a deque \<Rightarrow> 'a option \<times> 'a deque" where
  "dq_step (DqPush x) d = (None, pushBack x d)"
| "dq_step DqPop d = popFront d"
| "dq_step DqPeek d = (peekFront d, d)"
| "dq_step (DqFind p) d = (dq_find p d, d)"
| "dq_step (DqRemove p) d = findAndRemove p d"
| "dq_step DqClear d = (None, dq_clear d)"

fun list_step :: "'a dq_op \<Rightarrow> 'a list \<Rightarrow> 'a option \<times> 'a list" where
  "list_step (DqPush x) xs = (None, xs @ [x])"
| "list_step DqPop xs = (case xs of [] \<Rightarrow> (None, []) | y # ys \<Rightarrow> (Some y, ys))"
| "list_step DqPeek xs = (case xs of [] \<Rightarrow> None | y # _ \<Rightarrow> Some y, xs)"
| "list_step (DqFind p) xs = (find p xs, xs)"
| "list_step (DqRemove p) xs = (find p xs, takeWhile (\<lambda>x. \<not> p x) xs @ tl (dropWhile (\<lambda>x. \<not> p x) xs))"
| "list_step DqClear xs = (None, [])"

text \<open>The results of a list of operations, and the state after them.\<close>

fun outputs :: "('op \<Rightarrow> 's \<Rightarrow> 'r \<times> 's) \<Rightarrow> 'op list \<Rightarrow> 's \<Rightarrow> 'r list \<times> 's" where
  "outputs step [] s = ([], s)"
| "outputs step (a # as) s = (let (r, s1) = step a s; (rs, s2) = outputs step as s1 in (r # rs, s2))"

lemma dq_step_refines:
  assumes "dq_inv d" "dq_step a d = (r, d')"
  shows "dq_inv d' \<and> list_step a (dq_list d) = (r, dq_list d')"
proof (cases a)
  case DqPop
  then show ?thesis
    using popFront_list [OF assms(1)] assms(2) by (auto split: list.splits)
qed (use assms pushBack_list [OF assms(1)] peekFront_list [OF assms(1)] dq_find_list [OF assms(1)]
      findAndRemove_list [OF assms(1)] dq_clear_list [OF assms(1)] in auto)

lemma outputs_refine:
  "dq_inv d \<Longrightarrow> outputs dq_step ops d = (rs, d') \<Longrightarrow> dq_inv d' \<and> outputs list_step ops (dq_list d) = (rs, dq_list d')"
proof (induction ops arbitrary: d rs d')
  case (Cons a ops)
  obtain r d1 where s: "dq_step a d = (r, d1)"
    by fastforce
  obtain rs' d2 where o: "outputs dq_step ops d1 = (rs', d2)"
    by fastforce
  show ?case
    using Cons.prems dq_step_refines [OF Cons.prems(1) s] Cons.IH [OF _ o] s o by simp
qed simp

text \<open>
  C22. The circular buffer is a queue. From any positive initial capacity and for every sequence of operations, the
  deque returns what a plain list returns, holds the items of that list in order, and its count and
  the items its iterator yields agree with it.
\<close>

theorem deque_refines:
  assumes "0 < c" and "outputs dq_step ops (new_deque c) = (rs, d)"
  shows "outputs list_step ops [] = (rs, dq_iter d) \<and> dq_count d = length (dq_iter d)"
  using outputs_refine [OF _ assms(2)] dq_iter_list [of d] by (simp add: new_deque_list [OF assms(1)])

theorem deque_refines_witness:
  "let (rs, d) = outputs dq_step [DqPush 1, DqPush 2, DqPop, DqPush 3, DqPush 4, DqRemove (\<lambda>x. x = 3), DqPeek, DqPush 5]
      (new_deque 2 :: nat deque)
   in rs = [None, None, Some 1, None, None, Some 3, Some 2, None] \<and> dq_iter d = [2, 4, 5] \<and> dq_count d = length (dq_iter d)"
proof -
  let ?ops = "[DqPush 1, DqPush 2, DqPop, DqPush 3, DqPush 4, DqRemove (\<lambda>x. x = 3), DqPeek, DqPush (5 :: nat)]"
  obtain rs d where o: "outputs dq_step ?ops (new_deque 2) = (rs, d)"
    by fastforce
  have "outputs list_step ?ops [] = ([None, None, Some 1, None, None, Some 3, Some 2, None], [2, 4, 5])"
    by simp
  then show ?thesis
    using deque_refines [OF _ o] o by simp
qed

end
