(* ===== verification/MessageQueue.thy ===== *)
theory MessageQueue
  imports Deque
begin

text \<open>
  Model of \<open>PriorityMessageQueue\<close> of \<open>swarm/src/message-bus.ts\<close> and of the messages of \<open>swarm/src/types.ts\<close>:
  one deque per priority. The queue refines a list that is ordered by priority and, within a priority, by
  arrival. The fields \<open>enqueuedAt\<close> and \<open>lastAttemptAt\<close> of an entry are never read and left out.
\<close>

section \<open>The priority queue\<close>

datatype priority = PUrgent | PHigh | PNormal | PLow

definition PRIORITY_ORDER :: "priority list" where
  "PRIORITY_ORDER = [PUrgent, PHigh, PNormal, PLow]"

datatype message_type =
    TaskAssign | TaskComplete | TaskFail | Heartbeat | StatusUpdate | ConsensusPropose | ConsensusVote
  | ConsensusCommit | TopologyUpdate | AgentJoin | AgentLeave | BroadcastMsg | DirectMsg

record 'p message =
  mg_id :: string
  mg_type :: message_type
  mg_from :: string
  mg_to :: string
  mg_payload :: 'p
  mg_timestamp :: time
  mg_priority :: priority
  mg_requiresAck :: bool
  mg_ttlMs :: time

record 'p queue_entry =
  qe_message :: "'p message"
  qe_attempts :: nat

text \<open>The map \<open>queues\<close> has an entry for every priority, made by the constructor.\<close>

record 'p pqueue =
  pq_queues :: "priority \<Rightarrow> 'p queue_entry deque"
  pq_totalCount :: nat

definition new_pqueue :: "'p pqueue" where
  "new_pqueue = \<lparr>pq_queues = (\<lambda>_. new_deque 16), pq_totalCount = 0\<rparr>"

definition pq_enqueue :: "'p queue_entry \<Rightarrow> 'p pqueue \<Rightarrow> 'p pqueue" where
  "pq_enqueue entry q =
     (let priority = mg_priority (qe_message entry)
      in q\<lparr>pq_queues := (pq_queues q)(priority := pushBack entry (pq_queues q priority)),
           pq_totalCount := pq_totalCount q + 1\<rparr>)"

text \<open>The loops that take from the first queue in a list of priorities that is not empty.\<close>

definition take_first :: "priority list \<Rightarrow> 'p pqueue \<Rightarrow> ('p queue_entry option \<times> 'p pqueue) option" where
  "take_first ps q =
     (case find (\<lambda>p. dq_count (pq_queues q p) > 0) ps of
        None \<Rightarrow> None
      | Some p \<Rightarrow>
          let (entry, d) = popFront (pq_queues q p)
          in Some (entry, q\<lparr>pq_queues := (pq_queues q)(p := d), pq_totalCount := pq_totalCount q - 1\<rparr>))"

definition pq_dequeue :: "'p pqueue \<Rightarrow> 'p queue_entry option \<times> 'p pqueue" where
  "pq_dequeue q = (case take_first PRIORITY_ORDER q of None \<Rightarrow> (None, q) | Some r \<Rightarrow> r)"

definition removeLowestPriority :: "'p pqueue \<Rightarrow> 'p queue_entry option \<times> 'p pqueue" where
  "removeLowestPriority q =
     (case take_first [PLow, PNormal] q of
        Some r \<Rightarrow> r
      | None \<Rightarrow> (case take_first PRIORITY_ORDER q of None \<Rightarrow> (None, q) | Some r \<Rightarrow> r))"

definition pq_clear :: "'p pqueue \<Rightarrow> 'p pqueue" where
  "pq_clear q = q\<lparr>pq_queues := (\<lambda>p. dq_clear (pq_queues q p)), pq_totalCount := 0\<rparr>"

definition pq_find :: "('p queue_entry \<Rightarrow> bool) \<Rightarrow> 'p pqueue \<Rightarrow> 'p queue_entry option" where
  "pq_find pred q =
     (case filter (\<lambda>r. r \<noteq> None) (map (\<lambda>p. dq_find pred (pq_queues q p)) PRIORITY_ORDER) of [] \<Rightarrow> None | r # _ \<Rightarrow> r)"

subsection \<open>The queue as a list ordered by priority\<close>

definition prio :: "'p queue_entry \<Rightarrow> priority" where
  "prio e = mg_priority (qe_message e)"

fun rank :: "priority \<Rightarrow> nat" where
  "rank PUrgent = 0" | "rank PHigh = 1" | "rank PNormal = 2" | "rank PLow = 3"

definition pq_list :: "'p pqueue \<Rightarrow> 'p queue_entry list" where
  "pq_list q = concat (map (\<lambda>p. dq_list (pq_queues q p)) PRIORITY_ORDER)"

definition pq_inv :: "'p pqueue \<Rightarrow> bool" where
  "pq_inv q \<longleftrightarrow> (\<forall>p. dq_inv (pq_queues q p) \<and> (\<forall>e \<in> set (dq_list (pq_queues q p)). prio e = p)) \<and>
     pq_totalCount q = length (pq_list q)"

text \<open>The abstract queue: an entry goes behind those of its own and of higher priority.\<close>

definition pl_insert :: "'p queue_entry \<Rightarrow> 'p queue_entry list \<Rightarrow> 'p queue_entry list" where
  "pl_insert e xs = filter (\<lambda>x. rank (prio x) \<le> rank (prio e)) xs @ [e] @ filter (\<lambda>x. rank (prio x) > rank (prio e)) xs"

text \<open>The entry given up on overflow: the oldest of low priority, else of normal priority, else the next one.\<close>

definition pl_victim :: "'p queue_entry list \<Rightarrow> 'p queue_entry option" where
  "pl_victim xs =
     (case filter (\<lambda>x. prio x = PLow) xs of
        e # _ \<Rightarrow> Some e
      | [] \<Rightarrow> (case filter (\<lambda>x. prio x = PNormal) xs of e # _ \<Rightarrow> Some e | [] \<Rightarrow> (case xs of [] \<Rightarrow> None | e # _ \<Rightarrow> Some e)))"

lemma pq_list_expand:
  "pq_list q = dq_list (pq_queues q PUrgent) @ dq_list (pq_queues q PHigh) @ dq_list (pq_queues q PNormal) @ dq_list (pq_queues q PLow)"
  by (simp add: pq_list_def PRIORITY_ORDER_def)

lemma rank_inj: "rank p = rank p' \<longleftrightarrow> p = p'"
  by (cases p; cases p') simp_all

lemma filter_prio: "pq_inv q \<Longrightarrow> filter (\<lambda>x. prio x = p) (pq_list q) = dq_list (pq_queues q p)"
  by (cases p) (auto simp: pq_list_expand pq_inv_def filter_id_conv filter_empty_conv)

lemma new_pqueue_list: "pq_inv new_pqueue \<and> pq_list new_pqueue = []"
  by (simp add: pq_inv_def new_pqueue_def pq_list_expand ring.fresh)

lemma pq_enqueue_list:
  assumes "pq_inv q"
  shows "pq_inv (pq_enqueue e q) \<and> pq_list (pq_enqueue e q) = pl_insert e (pq_list q)"
proof -
  have d: "dq_inv (pq_queues q p)" "\<And>x. x \<in> set (dq_list (pq_queues q p)) \<Longrightarrow> prio x = p" for p
    using assms by (auto simp: pq_inv_def)
  have f: "filter (\<lambda>x. rank (prio x) \<le> r) (dq_list (pq_queues q p)) = (if rank p \<le> r then dq_list (pq_queues q p) else [])"
    "filter (\<lambda>x. rank (prio x) > r) (dq_list (pq_queues q p)) = (if rank p > r then dq_list (pq_queues q p) else [])" for p r
    using d(2) by (auto simp: filter_id_conv filter_empty_conv)
  have qs: "dq_list (pq_queues (pq_enqueue e q) p) = (if p = prio e then dq_list (pq_queues q p) @ [e] else dq_list (pq_queues q p))"
    "dq_inv (pq_queues (pq_enqueue e q) p)" for p
    using d(1) ring.push [of "pq_queues q (prio e)" e] by (simp_all add: pq_enqueue_def prio_def Let_def)
  have l: "pq_list (pq_enqueue e q) = pl_insert e (pq_list q)"
    by (simp only: pq_list_expand qs pl_insert_def filter_append f) (cases "prio e"; simp)
  then have "length (pq_list (pq_enqueue e q)) = length (pq_list q) + 1"
    by (simp add: pl_insert_def sum_length_filter_compl [of "\<lambda>x. rank (prio x) \<le> rank (prio e)", simplified not_le])
  then show ?thesis
    using l qs d(2) assms by (auto simp: pq_inv_def pq_enqueue_def Let_def split: if_splits)
qed

lemma pop_class:
  assumes "pq_inv q" "dq_count (pq_queues q p) > 0"
  shows "\<exists>x d. popFront (pq_queues q p) = (Some x, d) \<and> dq_list (pq_queues q p) = x # dq_list d \<and>
    pq_inv (q\<lparr>pq_queues := (pq_queues q)(p := d), pq_totalCount := pq_totalCount q - 1\<rparr>) \<and>
    pq_list (q\<lparr>pq_queues := (pq_queues q)(p := d), pq_totalCount := pq_totalCount q - 1\<rparr>) = remove1 x (pq_list q) \<and>
    x \<in> set (pq_list q)"
proof -
  have d: "dq_inv (pq_queues q p)" "\<And>p' y. y \<in> set (dq_list (pq_queues q p')) \<Longrightarrow> prio y = p'" for p
    using assms by (auto simp: pq_inv_def)
  obtain x d' where x: "popFront (pq_queues q p) = (Some x, d')" "dq_inv d'" "dq_list (pq_queues q p) = x # dq_list d'"
    using ring.pop_nonempty [OF d(1) assms(2)] by blast
  let ?q = "q\<lparr>pq_queues := (pq_queues q)(p := d'), pq_totalCount := pq_totalCount q - 1\<rparr>"
  have px: "prio x = p"
    using d(2) [of x p] x(3) by simp
  then have other: "p' \<noteq> p \<Longrightarrow> x \<notin> set (dq_list (pq_queues q p'))" for p'
    using d(2) [of x p'] by blast
  have mem: "x \<in> set (pq_list q)"
    using x(3) by (cases p) (simp_all add: pq_list_expand)
  have l: "pq_list ?q = remove1 x (pq_list q)"
    using other [of PUrgent] other [of PHigh] other [of PNormal] other [of PLow] x(3)
    by (cases p) (simp_all add: pq_list_expand remove1_append)
  have "pq_inv ?q"
    using assms(1) x d(2) l mem by (auto simp: pq_inv_def length_remove1)
  then show ?thesis
    using x l mem by blast
qed

lemma find_nonempty:
  "pq_inv q \<Longrightarrow> find (\<lambda>p. dq_count (pq_queues q p) > 0) PRIORITY_ORDER = None \<Longrightarrow> pq_list q = []"
  by (auto simp: PRIORITY_ORDER_def pq_list_expand dq_list_empty split: if_splits)

lemma pq_dequeue_list:
  assumes "pq_inv q" "pq_dequeue q = (r, q')"
  shows "pq_inv q' \<and> r = (case pq_list q of [] \<Rightarrow> None | x # _ \<Rightarrow> Some x) \<and> pq_list q' = tl (pq_list q)"
proof (cases "find (\<lambda>p. dq_count (pq_queues q p) > 0) PRIORITY_ORDER")
  case None
  then have "pq_list q = []" "r = None" "q' = q"
    using find_nonempty [OF assms(1)] assms(2) by (simp_all add: pq_dequeue_def take_first_def)
  then show ?thesis
    using assms(1) by simp
next
  case (Some p)
  then have "dq_count (pq_queues q p) > 0"
    using find_mem [OF Some] by simp
  from pop_class [OF assms(1) this] obtain x d where
    x: "popFront (pq_queues q p) = (Some x, d)" "dq_list (pq_queues q p) = x # dq_list d"
      "pq_inv (q\<lparr>pq_queues := (pq_queues q)(p := d), pq_totalCount := pq_totalCount q - 1\<rparr>)"
      "pq_list (q\<lparr>pq_queues := (pq_queues q)(p := d), pq_totalCount := pq_totalCount q - 1\<rparr>) = remove1 x (pq_list q)"
    by blast
  have "\<exists>xs. pq_list q = x # xs"
    using Some x(2) by (auto simp: PRIORITY_ORDER_def pq_list_expand dq_list_empty [THEN iffD2] split: if_splits)
  then show ?thesis
    using assms(2) Some x by (auto simp: pq_dequeue_def take_first_def)
qed

lemma removeLowestPriority_list:
  assumes "pq_inv q" "removeLowestPriority q = (r, q')"
  shows "pq_inv q' \<and> r = pl_victim (pq_list q) \<and> pq_list q' = (case r of None \<Rightarrow> [] | Some x \<Rightarrow> remove1 x (pq_list q))"
proof (cases "find (\<lambda>p. dq_count (pq_queues q p) > 0) [PLow, PNormal]")
  case None
  then have "dq_list (pq_queues q PLow) = []" "dq_list (pq_queues q PNormal) = []"
    by (auto simp: dq_list_empty split: if_splits)
  then have "pl_victim (pq_list q) = (case pq_list q of [] \<Rightarrow> None | x # _ \<Rightarrow> Some x)"
    by (simp add: pl_victim_def filter_prio [OF assms(1)])
  moreover have "pq_dequeue q = (r, q')"
    using assms(2) None by (simp add: removeLowestPriority_def pq_dequeue_def take_first_def)
  ultimately show ?thesis
    using pq_dequeue_list [OF assms(1), of r q'] by (cases "pq_list q") simp_all
next
  case (Some p)
  then have "dq_count (pq_queues q p) > 0"
    using find_mem [OF Some] by simp
  from pop_class [OF assms(1) this] obtain x d where
    x: "popFront (pq_queues q p) = (Some x, d)" "dq_list (pq_queues q p) = x # dq_list d"
      "pq_inv (q\<lparr>pq_queues := (pq_queues q)(p := d), pq_totalCount := pq_totalCount q - 1\<rparr>)"
      "pq_list (q\<lparr>pq_queues := (pq_queues q)(p := d), pq_totalCount := pq_totalCount q - 1\<rparr>) = remove1 x (pq_list q)"
    by blast
  have "p = PLow \<or> p = PNormal \<and> dq_count (pq_queues q PLow) = 0"
    using Some by (auto split: if_splits)
  then have "pl_victim (pq_list q) = Some x"
    using x(2) by (auto simp: pl_victim_def filter_prio [OF assms(1)] dq_list_empty [THEN iffD2] split: list.splits)
  moreover have "r = Some x" "q' = q\<lparr>pq_queues := (pq_queues q)(p := d), pq_totalCount := pq_totalCount q - 1\<rparr>"
    using assms(2) Some x(1) by (auto simp: removeLowestPriority_def take_first_def)
  ultimately show ?thesis
    using x by simp
qed

text \<open>Runs of a priority queue and of the abstract list.\<close>

datatype 'p pq_op = PqEnqueue "'p queue_entry" | PqDequeue | PqDropLowest | PqClear | PqFind "'p queue_entry \<Rightarrow> bool"

fun pq_step :: "'p pq_op \<Rightarrow> 'p pqueue \<Rightarrow> 'p queue_entry option \<times> 'p pqueue" where
  "pq_step (PqEnqueue e) q = (None, pq_enqueue e q)"
| "pq_step PqDequeue q = pq_dequeue q"
| "pq_step PqDropLowest q = removeLowestPriority q"
| "pq_step PqClear q = (None, pq_clear q)"
| "pq_step (PqFind pred) q = (pq_find pred q, q)"

fun pl_step :: "'p pq_op \<Rightarrow> 'p queue_entry list \<Rightarrow> 'p queue_entry option \<times> 'p queue_entry list" where
  "pl_step (PqEnqueue e) xs = (None, pl_insert e xs)"
| "pl_step PqDequeue xs = (case xs of [] \<Rightarrow> None | x # _ \<Rightarrow> Some x, tl xs)"
| "pl_step PqDropLowest xs = (pl_victim xs, case pl_victim xs of None \<Rightarrow> [] | Some x \<Rightarrow> remove1 x xs)"
| "pl_step PqClear xs = (None, [])"
| "pl_step (PqFind pred) xs = (find pred xs, xs)"

lemma pq_clear_list: "pq_inv q \<Longrightarrow> pq_inv (pq_clear q) \<and> pq_list (pq_clear q) = []"
  by (simp add: pq_inv_def pq_clear_def pq_list_expand dq_clear_list)

lemma find_append: "find p (xs @ ys) = (case find p xs of None \<Rightarrow> find p ys | Some x \<Rightarrow> Some x)"
  by (induction xs) simp_all

lemma pq_find_list: "pq_inv q \<Longrightarrow> pq_find pred q = find pred (pq_list q)"
  by (simp add: pq_inv_def pq_find_def pq_list_expand PRIORITY_ORDER_def dq_find_list find_append split: option.splits)

lemma pq_step_refines:
  assumes "pq_inv q" "pq_step a q = (r, q')"
  shows "pq_inv q' \<and> pl_step a (pq_list q) = (r, pq_list q')"
  using assms pq_enqueue_list [OF assms(1)] pq_dequeue_list [OF assms(1)] removeLowestPriority_list [OF assms(1)]
    pq_clear_list [OF assms(1)] pq_find_list [OF assms(1)] by (cases a) auto

lemma pq_outputs_refine:
  "pq_inv q \<Longrightarrow> outputs pq_step ops q = (rs, q') \<Longrightarrow> pq_inv q' \<and> outputs pl_step ops (pq_list q) = (rs, pq_list q')"
proof (induction ops arbitrary: q rs q')
  case (Cons a ops)
  obtain r q1 where s: "pq_step a q = (r, q1)"
    by fastforce
  obtain rs' q2 where o: "outputs pq_step ops q1 = (rs', q2)"
    by fastforce
  show ?case
    using Cons.prems pq_step_refines [OF Cons.prems(1) s] Cons.IH [OF _ o] s o by simp
qed simp

lemma pq_list_sorted: "pq_inv q \<Longrightarrow> sorted (map (rank \<circ> prio) (pq_list q))"
proof -
  assume "pq_inv q"
  then have "map (rank \<circ> prio) (dq_list (pq_queues q p)) = map (\<lambda>_. rank p) (dq_list (pq_queues q p))" for p
    by (auto simp: pq_inv_def)
  then show ?thesis
    by (auto simp: pq_list_expand sorted_append map_replicate_const simp del: map_eq_conv)
qed

text \<open>
  C36. The priority queue serves by priority and first come first served within a priority. Every sequence of
  operations returns what the abstract list returns, into which an entry is inserted behind all entries
  of its own and of higher priority; an overflow gives up the oldest entry of the lowest priority below
  high, and the next entry when there is none; a search gives the first match in the order of service; the list stays sorted and the count is its length.
\<close>

theorem priority_queue_refines:
  assumes "outputs pq_step ops new_pqueue = (rs, q)"
  shows "outputs pl_step ops [] = (rs, pq_list q) \<and> sorted (map (rank \<circ> prio) (pq_list q)) \<and>
    pq_totalCount q = length (pq_list q)"
proof -
  have "pq_inv q \<and> outputs pl_step ops [] = (rs, pq_list q)"
    using pq_outputs_refine [OF _ assms] by (simp add: new_pqueue_list)
  then show ?thesis
    using pq_list_sorted [of q] by (simp add: pq_inv_def)
qed

definition demo_entry :: "string \<Rightarrow> priority \<Rightarrow> nat queue_entry" where
  "demo_entry i p = \<lparr>qe_message = \<lparr>mg_id = i, mg_type = DirectMsg, mg_from = ''a'', mg_to = ''b'', mg_payload = 0,
     mg_timestamp = 0, mg_priority = p, mg_requiresAck = False, mg_ttlMs = 100\<rparr>, qe_attempts = 0\<rparr>"

theorem priority_queue_refines_witness:
  "let (rs, q) = outputs pq_step [PqEnqueue (demo_entry ''1'' PLow), PqEnqueue (demo_entry ''2'' PHigh),
         PqEnqueue (demo_entry ''3'' PLow), PqEnqueue (demo_entry ''4'' PHigh), PqDropLowest, PqDequeue, PqDequeue] new_pqueue
   in map (map_option (\<lambda>e. mg_id (qe_message e))) rs = [None, None, None, None, Some ''1'', Some ''2'', Some ''4''] \<and>
      map (\<lambda>e. mg_id (qe_message e)) (pq_list q) = [''3''] \<and> pq_totalCount q = 1"
proof -
  let ?ops = "[PqEnqueue (demo_entry ''1'' PLow), PqEnqueue (demo_entry ''2'' PHigh),
    PqEnqueue (demo_entry ''3'' PLow), PqEnqueue (demo_entry ''4'' PHigh), PqDropLowest, PqDequeue, PqDequeue]"
  obtain rs q where o: "outputs pq_step ?ops new_pqueue = (rs, q)"
    by fastforce
  have "outputs pl_step ?ops [] = ([None, None, None, None, Some (demo_entry ''1'' PLow), Some (demo_entry ''2'' PHigh),
      Some (demo_entry ''4'' PHigh)], [demo_entry ''3'' PLow])"
    by (simp add: pl_insert_def pl_victim_def prio_def demo_entry_def)
  then show ?thesis
    using priority_queue_refines [OF o] o by (auto simp: demo_entry_def)
qed

end
