(* ===== verification/MessageBus.thy ===== *)
theory MessageBus
  imports MessageQueue
begin

text \<open>
  Model of \<open>MessageBus\<close> of \<open>swarm/src/message-bus.ts\<close>. The callbacks of \<open>setImmediate\<close> and \<open>setTimeout\<close> are
  pending work in the state: the flag \<open>mb_processScheduled\<close> is the scheduled pass over the queues,
  \<open>mb_deliveries\<close> are the deliveries of a pass, \<open>mb_retries\<close> and \<open>mb_ackTimers\<close> the armed timers. They run in
  any order. Subscribers are client code, named by a number; whether a callback throws is an argument.
  The interval that runs a pass as a backstop is an operation of its own. Rates and latencies are not modelled.
  The configuration is an argument that stays the same in a run: \<open>initialize\<close> is modelled as called without
  a new configuration, and the merge it does with one (\<open>message-bus.ts:271-275\<close>) is left out.
\<close>

section \<open>State\<close>

record bus_config =
  mc_maxQueueSize :: nat
  mc_retryAttempts :: nat

record bus_subscription =
  sb_agentId :: string
  sb_callback :: nat
  sb_filter :: "message_type list option"

datatype 'p bus_event =
    MExpired string
  | MDelivered bus_subscription "'p message"
  | MRetry string nat
  | MFailed string
  | MAckTimeout string
  | MAckFailed string
  | MAcknowledged string bool

record 'p bus =
  mb_queues :: "(string, 'p pqueue) jsmap"
  mb_subscriptions :: "(string, bus_subscription) jsmap"
  mb_pendingAcks :: "(string, 'p message \<times> nat) jsmap"
  mb_ackTimers :: "(nat, 'p message) jsmap"
  mb_nextTimer :: nat
  mb_processScheduled :: bool
  mb_isShutdown :: bool
  mb_messageCounter :: nat
  mb_totalMessages :: nat
  mb_deliveries :: "(bus_subscription \<times> 'p queue_entry) list"
  mb_retries :: "(string \<times> 'p queue_entry) list"
  mb_events :: "'p bus_event list"

definition new_bus :: "'p bus" where
  "new_bus = \<lparr>mb_queues = [], mb_subscriptions = [], mb_pendingAcks = [], mb_ackTimers = [], mb_nextTimer = 0,
     mb_processScheduled = False, mb_isShutdown = False, mb_messageCounter = 0, mb_totalMessages = 0,
     mb_deliveries = [], mb_retries = [], mb_events = []\<rparr>"

definition mb_emit :: "'p bus_event \<Rightarrow> 'p bus \<Rightarrow> 'p bus" where
  "mb_emit e b = b\<lparr>mb_events := mb_events b @ [e]\<rparr>"

section \<open>Sending\<close>

definition generateMessageId :: "time \<Rightarrow> 'p bus \<Rightarrow> string \<times> 'p bus" where
  "generateMessageId now b =
     (let counter = mb_messageCounter b + 1
      in (''msg_'' @ show_radix 10 (nat now) @ ''_'' @ show_radix 36 counter, b\<lparr>mb_messageCounter := counter\<rparr>))"

definition scheduleProcessing :: "'p bus \<Rightarrow> 'p bus" where
  "scheduleProcessing b =
     (if mb_processScheduled b \<or> mb_isShutdown b then b else b\<lparr>mb_processScheduled := True\<rparr>)"

definition mb_addToQueue :: "bus_config \<Rightarrow> string \<Rightarrow> 'p message \<Rightarrow> nat \<Rightarrow> 'p bus \<Rightarrow> 'p bus" where
  "mb_addToQueue cfg agentId message existingAttempts b =
     (let q = nullish (jget (mb_queues b) agentId) new_pqueue;
          q1 = (if pq_totalCount q \<ge> mc_maxQueueSize cfg then snd (removeLowestPriority q) else q);
          entry = \<lparr>qe_message = message, qe_attempts = existingAttempts\<rparr>
      in b\<lparr>mb_queues := jset agentId (pq_enqueue entry q1) (mb_queues b)\<rparr>)"

definition mb_enqueue :: "bus_config \<Rightarrow> 'p message \<Rightarrow> 'p bus \<Rightarrow> 'p bus" where
  "mb_enqueue cfg message b =
     (let b1 = (if mg_to message = ''broadcast''
                then fold (\<lambda>agentId b. if agentId \<noteq> mg_from message then mb_addToQueue cfg agentId message 0 b else b)
                       (jkeys (mb_subscriptions b)) b
                else mb_addToQueue cfg (mg_to message) message 0 b)
      in scheduleProcessing (b1\<lparr>mb_totalMessages := mb_totalMessages b1 + 1\<rparr>))"

text \<open>The argument of \<open>send\<close> and \<open>broadcast\<close> is a message whose id, timestamp and, for \<open>broadcast\<close>, receiver are replaced.\<close>

definition mb_send :: "bus_config \<Rightarrow> clock \<Rightarrow> 'p message \<Rightarrow> 'p bus \<Rightarrow> string \<times> 'p bus" where
  "mb_send cfg clk message b =
     (let (i, b1) = generateMessageId (clk 0) b
      in (i, mb_enqueue cfg (message\<lparr>mg_id := i, mg_timestamp := clk 1\<rparr>) b1))"

definition mb_broadcast :: "bus_config \<Rightarrow> clock \<Rightarrow> 'p message \<Rightarrow> 'p bus \<Rightarrow> string \<times> 'p bus" where
  "mb_broadcast cfg clk message b =
     (let (i, b1) = generateMessageId (clk 0) b
      in (i, mb_enqueue cfg (message\<lparr>mg_id := i, mg_timestamp := clk 1, mg_to := ''broadcast''\<rparr>) b1))"

section \<open>Subscriptions and acknowledgements\<close>

definition mb_subscribe :: "string \<Rightarrow> nat \<Rightarrow> message_type list option \<Rightarrow> 'p bus \<Rightarrow> 'p bus" where
  "mb_subscribe agentId callback filt b =
     (let b1 = b\<lparr>mb_subscriptions := jset agentId \<lparr>sb_agentId = agentId, sb_callback = callback, sb_filter = filt\<rparr>
                  (mb_subscriptions b)\<rparr>
      in case jget (mb_queues b1) agentId of
           None \<Rightarrow> b1\<lparr>mb_queues := jset agentId new_pqueue (mb_queues b1)\<rparr>
         | Some q \<Rightarrow> if pq_totalCount q > 0 then scheduleProcessing b1 else b1)"

definition mb_unsubscribe :: "string \<Rightarrow> 'p bus \<Rightarrow> 'p bus" where
  "mb_unsubscribe agentId b =
     b\<lparr>mb_subscriptions := jdel agentId (mb_subscriptions b), mb_queues := jdel agentId (mb_queues b)\<rparr>"

definition acknowledge :: "string \<Rightarrow> bool \<Rightarrow> string option \<Rightarrow> 'p bus \<Rightarrow> 'p bus" where
  "acknowledge messageId received err b =
     (case jget (mb_pendingAcks b) messageId of
        None \<Rightarrow> b
      | Some (m, timer) \<Rightarrow>
          let b1 = b\<lparr>mb_ackTimers := jdel timer (mb_ackTimers b), mb_pendingAcks := jdel messageId (mb_pendingAcks b)\<rparr>;
              b2 = (if \<not> received \<and> nullish err [] \<noteq> [] then mb_emit (MAckFailed (mg_id m)) b1 else b1)
          in mb_emit (MAcknowledged messageId received) b2)"

definition handleAckTimeout :: "nat \<Rightarrow> 'p bus \<Rightarrow> 'p bus" where
  "handleAckTimeout timer b =
     (case jget (mb_ackTimers b) timer of
        None \<Rightarrow> b
      | Some m \<Rightarrow>
          mb_emit (MAckTimeout (mg_id m))
            (b\<lparr>mb_ackTimers := jdel timer (mb_ackTimers b), mb_pendingAcks := jdel (mg_id m) (mb_pendingAcks b)\<rparr>))"

section \<open>Processing\<close>

definition passes_filter :: "bus_subscription \<Rightarrow> 'p message \<Rightarrow> bool" where
  "passes_filter sub m = (case sb_filter sub of None \<Rightarrow> True | Some ts \<Rightarrow> mg_type m \<in> set ts)"

text \<open>The loop that takes a batch; it gives the batch, the ids of expired messages and the queue.\<close>

fun take_batch :: "nat \<Rightarrow> time \<Rightarrow> bus_subscription \<Rightarrow> 'p pqueue \<Rightarrow> 'p queue_entry list \<times> string list \<times> 'p pqueue" where
  "take_batch 0 now sub q = ([], [], q)"
| "take_batch (Suc k) now sub q =
     (if pq_totalCount q = 0 then ([], [], q)
      else case pq_dequeue q of
             (None, q1) \<Rightarrow> ([], [], q1)
           | (Some e, q1) \<Rightarrow>
               let (batch, expired, q2) = take_batch k now sub q1
               in if now - mg_timestamp (qe_message e) > mg_ttlMs (qe_message e)
                  then (batch, mg_id (qe_message e) # expired, q2)
                  else if \<not> passes_filter sub (qe_message e) then (batch, expired, q2)
                  else (e # batch, expired, q2))"

definition deliverMessage :: "bus_subscription \<Rightarrow> 'p queue_entry \<Rightarrow> 'p bus \<Rightarrow> 'p bus" where
  "deliverMessage sub e b =
     (let m = qe_message e;
          b1 = (if mg_requiresAck m
                then b\<lparr>mb_ackTimers := jset (mb_nextTimer b) m (mb_ackTimers b),
                       mb_pendingAcks := jset (mg_id m) (m, mb_nextTimer b) (mb_pendingAcks b),
                       mb_nextTimer := mb_nextTimer b + 1\<rparr>
                else b)
      in b1\<lparr>mb_deliveries := mb_deliveries b1 @ [(sub, e)]\<rparr>)"

definition process_agent :: "time \<Rightarrow> string \<Rightarrow> bool \<times> 'p bus \<Rightarrow> bool \<times> 'p bus" where
  "process_agent now agentId st =
     (case st of (remaining, b) \<Rightarrow>
        (case (jget (mb_queues b) agentId, jget (mb_subscriptions b) agentId) of
           (Some q, Some sub) \<Rightarrow>
             let batchSize = min 10 (pq_totalCount q);
                 (batch, expired, q1) = take_batch batchSize now sub q;
                 b1 = b\<lparr>mb_queues := jset agentId q1 (mb_queues b),
                        mb_events := mb_events b @ map MExpired expired\<rparr>;
                 b2 = fold (deliverMessage sub) batch b1
             in (remaining \<or> pq_totalCount q1 > 0, b2)
         | _ \<Rightarrow> (remaining, b)))"

definition processQueues :: "time \<Rightarrow> 'p bus \<Rightarrow> 'p bus" where
  "processQueues now b =
     (let (remaining, b1) = fold (process_agent now) (jkeys (mb_queues b)) (False, b)
      in if remaining then scheduleProcessing b1 else b1)"

definition immediate_fires :: "time \<Rightarrow> 'p bus \<Rightarrow> 'p bus" where
  "immediate_fires now b =
     (if \<not> mb_processScheduled b then b
      else
        let b1 = b\<lparr>mb_processScheduled := False\<rparr>
        in if mb_isShutdown b1 then b1 else processQueues now b1)"

definition handleDeliveryError :: "bus_config \<Rightarrow> string \<Rightarrow> 'p queue_entry \<Rightarrow> 'p bus \<Rightarrow> 'p bus" where
  "handleDeliveryError cfg agentId e b =
     (let e1 = e\<lparr>qe_attempts := qe_attempts e + 1\<rparr>
      in if qe_attempts e1 < mc_retryAttempts cfg
         then mb_emit (MRetry (mg_id (qe_message e)) (qe_attempts e1)) (b\<lparr>mb_retries := mb_retries b @ [(agentId, e1)]\<rparr>)
         else mb_emit (MFailed (mg_id (qe_message e))) b)"

definition delivery_runs :: "bus_config \<Rightarrow> nat \<Rightarrow> bool \<Rightarrow> 'p bus \<Rightarrow> 'p bus" where
  "delivery_runs cfg k throws b =
     (if k < length (mb_deliveries b)
      then
        let (sub, e) = mb_deliveries b ! k;
            b1 = b\<lparr>mb_deliveries := take k (mb_deliveries b) @ drop (Suc k) (mb_deliveries b)\<rparr>
        in if throws then handleDeliveryError cfg (sb_agentId sub) e b1
           else mb_emit (MDelivered sub (qe_message e)) b1
      else b)"

definition retry_fires :: "bus_config \<Rightarrow> nat \<Rightarrow> 'p bus \<Rightarrow> 'p bus" where
  "retry_fires cfg k b =
     (if k < length (mb_retries b)
      then
        let (agentId, e) = mb_retries b ! k;
            b1 = b\<lparr>mb_retries := take k (mb_retries b) @ drop (Suc k) (mb_retries b)\<rparr>
        in if mb_isShutdown b1 \<or> jget (mb_subscriptions b1) agentId = None then b1
           else scheduleProcessing (mb_addToQueue cfg agentId (qe_message e) (qe_attempts e) b1)
      else b)"

definition mb_shutdown :: "'p bus \<Rightarrow> 'p bus" where
  "mb_shutdown b =
     b\<lparr>mb_isShutdown := True, mb_retries := [], mb_ackTimers := fold (\<lambda>(_, _, t). jdel t) (mb_pendingAcks b) (mb_ackTimers b),
       mb_pendingAcks := [], mb_queues := [], mb_subscriptions := []\<rparr>"

text \<open>\<open>initialize()\<close> without a configuration; the interval it starts is the backstop step of a run.\<close>

definition mb_initialize :: "'p bus \<Rightarrow> 'p bus" where
  "mb_initialize b = b\<lparr>mb_isShutdown := False\<rparr>"

section \<open>Queries\<close>

function drain :: "time \<Rightarrow> 'p pqueue \<Rightarrow> 'p message list \<times> 'p pqueue" where
  "drain now q =
     (if pq_totalCount q = 0 then ([], q)
      else case pq_dequeue q of
             (None, q1) \<Rightarrow> ([], q1)
           | (Some e, q1) \<Rightarrow>
               let (ms, q2) = drain now q1
               in (if now - mg_timestamp (qe_message e) \<le> mg_ttlMs (qe_message e) then qe_message e # ms else ms, q2))"
  by pat_completeness auto

termination drain
proof (relation "measure (\<lambda>(_, q). pq_totalCount q)")
  fix now :: time and q q1 :: "'p pqueue" and r e
  assume a: "pq_totalCount q \<noteq> 0" "(r, q1) = pq_dequeue q" "r = Some e"
  then have "take_first PRIORITY_ORDER q = Some (r, q1)"
    by (auto simp: pq_dequeue_def split: option.splits)
  then have "pq_totalCount q1 = pq_totalCount q - 1"
    by (auto simp: take_first_def split: option.splits prod.splits)
  then show "((now, q1), now, q) \<in> measure (\<lambda>(_, q). pq_totalCount q)"
    using a(1) by simp
qed simp

declare drain.simps [simp del]

definition getMessages :: "time \<Rightarrow> string \<Rightarrow> 'p bus \<Rightarrow> 'p message list \<times> 'p bus" where
  "getMessages now agentId b =
     (case jget (mb_queues b) agentId of
        None \<Rightarrow> ([], b)
      | Some q \<Rightarrow> let (ms, q1) = drain now q in (ms, b\<lparr>mb_queues := jset agentId q1 (mb_queues b)\<rparr>))"

definition hasPendingMessages :: "string \<Rightarrow> 'p bus \<Rightarrow> bool" where
  "hasPendingMessages agentId b = (case jget (mb_queues b) agentId of None \<Rightarrow> False | Some q \<Rightarrow> pq_totalCount q > 0)"

definition getQueueDepth :: "'p bus \<Rightarrow> nat" where
  "getQueueDepth b = sum_list (map pq_totalCount (jvalues (mb_queues b)))"

definition getMessage :: "string \<Rightarrow> 'p bus \<Rightarrow> 'p message option" where
  "getMessage messageId b =
     (case filter (\<lambda>r. r \<noteq> None) (map (pq_find (\<lambda>e. mg_id (qe_message e) = messageId)) (jvalues (mb_queues b))) of
        r # _ \<Rightarrow> map_option qe_message r
      | [] \<Rightarrow> None)"

section \<open>Runs\<close>

datatype 'p bus_op =
    MSend clock "'p message"
  | MBroadcast clock "'p message"
  | MSubscribe string nat "message_type list option"
  | MUnsubscribe string
  | MAck string bool "string option"
  | MAckTimer nat
  | MImmediate time
  | MBackstop time
  | MDeliver nat bool
  | MRetryTimer nat
  | MPull time string
  | MShutdown
  | MInitialize

fun bus_step :: "bus_config \<Rightarrow> 'p bus_op \<Rightarrow> 'p bus \<Rightarrow> 'p bus" where
  "bus_step cfg (MSend clk m) b = snd (mb_send cfg clk m b)"
| "bus_step cfg (MBroadcast clk m) b = snd (mb_broadcast cfg clk m b)"
| "bus_step cfg (MSubscribe i cb f) b = mb_subscribe i cb f b"
| "bus_step cfg (MUnsubscribe i) b = mb_unsubscribe i b"
| "bus_step cfg (MAck i ok err) b = acknowledge i ok err b"
| "bus_step cfg (MAckTimer t) b = handleAckTimeout t b"
| "bus_step cfg (MImmediate now) b = immediate_fires now b"
| "bus_step cfg (MBackstop now) b = processQueues now b"
| "bus_step cfg (MDeliver k throws) b = delivery_runs cfg k throws b"
| "bus_step cfg (MRetryTimer k) b = retry_fires cfg k b"
| "bus_step cfg (MPull now i) b = snd (getMessages now i b)"
| "bus_step cfg MShutdown b = mb_shutdown b"
| "bus_step cfg MInitialize b = mb_initialize b"

section \<open>What is delivered, and bounds\<close>

definition addressed :: "string \<Rightarrow> 'p message \<Rightarrow> bool" where
  "addressed i m \<longleftrightarrow> mg_to m = i \<or> (mg_to m = ''broadcast'' \<and> mg_from m \<noteq> i)"

definition entry_ok :: "bus_config \<Rightarrow> string \<Rightarrow> 'p queue_entry \<Rightarrow> bool" where
  "entry_ok cfg i e \<longleftrightarrow> qe_attempts e < max 1 (mc_retryAttempts cfg) \<and> addressed i (qe_message e)"

definition queue_ok :: "bus_config \<Rightarrow> string \<Rightarrow> 'p pqueue \<Rightarrow> bool" where
  "queue_ok cfg i q \<longleftrightarrow> pq_inv q \<and> length (pq_list q) \<le> max 1 (mc_maxQueueSize cfg) \<and> (\<forall>e \<in> set (pq_list q). entry_ok cfg i e)"

definition mbus_inv :: "bus_config \<Rightarrow> 'p bus \<Rightarrow> bool" where
  "mbus_inv cfg b \<longleftrightarrow> (\<forall>i q. jget (mb_queues b) i = Some q \<longrightarrow> queue_ok cfg i q) \<and>
     (\<forall>i sub. jget (mb_subscriptions b) i = Some sub \<longrightarrow> sb_agentId sub = i) \<and>
     (\<forall>(sub, e) \<in> set (mb_deliveries b). entry_ok cfg (sb_agentId sub) e \<and> passes_filter sub (qe_message e)) \<and>
     (\<forall>(i, e) \<in> set (mb_retries b). entry_ok cfg i e) \<and>
     (\<forall>sub m. MDelivered sub m \<in> set (mb_events b) \<longrightarrow> addressed (sb_agentId sub) m \<and> passes_filter sub m)"

lemma set_pl_insert: "set (pl_insert e xs) = insert e (set xs)"
  by (auto simp: pl_insert_def)

lemma length_pl_insert: "length (pl_insert e xs) = Suc (length xs)"
  by (simp add: pl_insert_def sum_length_filter_compl [of "\<lambda>x. rank (prio x) \<le> rank (prio e)", simplified not_le])

lemma filter_hd_mem: "filter P xs = e # es \<Longrightarrow> e \<in> set xs"
  by (metis filter_is_subset list.set_intros(1) subsetD)

lemma pl_victim_mem: "pl_victim xs = Some x \<Longrightarrow> x \<in> set xs"
  by (auto simp: pl_victim_def split: list.splits dest: filter_hd_mem)

lemma pl_victim_None: "pl_victim xs = None \<Longrightarrow> xs = []"
  by (auto simp: pl_victim_def split: list.splits)

lemma queue_ok_new: "queue_ok cfg i new_pqueue"
  by (simp add: queue_ok_def new_pqueue_list)

text \<open>Adding to a queue: the overflow check keeps the bound.\<close>

lemma mb_addToQueue_queue_ok:
  assumes "queue_ok cfg i q" "entry_ok cfg i e"
  shows "queue_ok cfg i (pq_enqueue e (if pq_totalCount q \<ge> mc_maxQueueSize cfg then snd (removeLowestPriority q) else q))"
proof -
  obtain r q' where rl: "removeLowestPriority q = (r, q')"
    by fastforce
  have q: "pq_inv q" "pq_totalCount q = length (pq_list q)"
    using assms(1) by (auto simp: queue_ok_def pq_inv_def)
  define q1 where "q1 = (if pq_totalCount q \<ge> mc_maxQueueSize cfg then q' else q)"
  have v: "pq_inv q'" "r = pl_victim (pq_list q)" "pq_list q' = (case r of None \<Rightarrow> [] | Some x \<Rightarrow> remove1 x (pq_list q))"
    using removeLowestPriority_list [OF q(1) rl] by auto
  have "pq_inv q1 \<and> set (pq_list q1) \<subseteq> set (pq_list q) \<and> Suc (length (pq_list q1)) \<le> max 1 (mc_maxQueueSize cfg)"
  proof (cases "pq_totalCount q \<ge> mc_maxQueueSize cfg")
    case True
    then show ?thesis
      using v q assms(1) pl_victim_mem [of "pq_list q"] set_remove1_subset [of _ "pq_list q"]
      by (auto simp: q1_def queue_ok_def length_remove1 split: option.splits)
  next
    case False
    then show ?thesis
      using q by (simp add: q1_def)
  qed
  then have "queue_ok cfg i (pq_enqueue e q1)"
    using pq_enqueue_list [of q1 e] assms by (auto simp: queue_ok_def set_pl_insert length_pl_insert)
  then show ?thesis
    by (simp add: q1_def rl split: if_splits)
qed

lemma mb_addToQueue_inv:
  assumes "mbus_inv cfg b" "entry_ok cfg i \<lparr>qe_message = m, qe_attempts = k\<rparr>"
  shows "mbus_inv cfg (mb_addToQueue cfg i m k b)"
proof -
  have "queue_ok cfg i (nullish (jget (mb_queues b) i) new_pqueue)"
    using assms(1) by (cases "jget (mb_queues b) i") (auto simp: mbus_inv_def queue_ok_new)
  from mb_addToQueue_queue_ok [OF this assms(2)] show ?thesis
    using assms(1) by (simp add: mbus_inv_def mb_addToQueue_def Let_def split: if_splits)
qed

lemma schedule_inv: "mbus_inv cfg (scheduleProcessing b) = mbus_inv cfg b"
  by (simp add: scheduleProcessing_def mbus_inv_def)

lemma mb_enqueue_inv:
  assumes "mbus_inv cfg b"
  shows "mbus_inv cfg (mb_enqueue cfg m b)"
proof -
  have "entry_ok cfg i \<lparr>qe_message = m, qe_attempts = 0\<rparr>" if "mg_to m = i \<or> mg_to m = ''broadcast'' \<and> i \<noteq> mg_from m" for i
    using that by (auto simp: entry_ok_def addressed_def)
  moreover have "mbus_inv cfg (fold (\<lambda>i b. if i \<noteq> mg_from m then mb_addToQueue cfg i m 0 b else b) is b)"
    if "mg_to m = ''broadcast''" for "is"
    using assms
  proof (induction "is" arbitrary: b)
    case (Cons i "is")
    have "mbus_inv cfg (mb_addToQueue cfg i m 0 b)" if "i \<noteq> mg_from m"
      using Cons.prems that \<open>mg_to m = _\<close> by (intro mb_addToQueue_inv) (auto simp: entry_ok_def addressed_def)
    then show ?case
      using Cons by auto
  qed simp
  ultimately have "mbus_inv cfg (if mg_to m = ''broadcast''
      then fold (\<lambda>i b. if i \<noteq> mg_from m then mb_addToQueue cfg i m 0 b else b) (jkeys (mb_subscriptions b)) b
      else mb_addToQueue cfg (mg_to m) m 0 b)"
    using assms by (simp add: mb_addToQueue_inv)
  then show ?thesis
    unfolding mb_enqueue_def Let_def schedule_inv by (simp add: mbus_inv_def)
qed

lemma take_batch_props:
  "pq_inv q \<Longrightarrow> take_batch k now sub q = (batch, expired, q') \<Longrightarrow>
     pq_inv q' \<and> pq_list q' = drop k (pq_list q) \<and>
     (\<forall>e \<in> set batch. e \<in> set (pq_list q) \<and> passes_filter sub (qe_message e) \<and>
        now - mg_timestamp (qe_message e) \<le> mg_ttlMs (qe_message e))"
proof (induction k arbitrary: q batch expired q')
  case (Suc k)
  show ?case
  proof (cases "pq_list q")
    case Nil
    then show ?thesis
      using Suc.prems by (simp add: pq_inv_def)
  next
    case (Cons x xs)
    obtain r q1 where d: "pq_dequeue q = (r, q1)"
      by fastforce
    have q1: "pq_inv q1" "r = Some x" "pq_list q1 = xs"
      using pq_dequeue_list [OF Suc.prems(1) d] Cons by auto
    obtain bt ex q2 where t: "take_batch k now sub q1 = (bt, ex, q2)"
      by (metis prod_cases3)
    note ih = Suc.IH [OF q1(1) t]
    have "q' = q2" "batch = bt \<or> batch = x # bt \<and> passes_filter sub (qe_message x) \<and>
        now - mg_timestamp (qe_message x) \<le> mg_ttlMs (qe_message x)"
      using Suc.prems Cons q1 d t by (auto simp: pq_inv_def split: if_splits)
    then show ?thesis
      using ih q1(3) Cons by auto
  qed
qed simp

lemma deliverMessage_fields:
  "mb_queues (deliverMessage sub e b) = mb_queues b" "mb_subscriptions (deliverMessage sub e b) = mb_subscriptions b"
  "mb_retries (deliverMessage sub e b) = mb_retries b" "mb_events (deliverMessage sub e b) = mb_events b"
  "mb_deliveries (deliverMessage sub e b) = mb_deliveries b @ [(sub, e)]"
  "mb_processScheduled (deliverMessage sub e b) = mb_processScheduled b" "mb_isShutdown (deliverMessage sub e b) = mb_isShutdown b"
  by (simp_all add: deliverMessage_def Let_def)

lemma deliver_all_fields:
  "mb_queues (fold (deliverMessage sub) es b) = mb_queues b" "mb_subscriptions (fold (deliverMessage sub) es b) = mb_subscriptions b"
  "mb_retries (fold (deliverMessage sub) es b) = mb_retries b" "mb_events (fold (deliverMessage sub) es b) = mb_events b"
  "mb_deliveries (fold (deliverMessage sub) es b) = mb_deliveries b @ map (Pair sub) es"
  "mb_processScheduled (fold (deliverMessage sub) es b) = mb_processScheduled b"
  "mb_isShutdown (fold (deliverMessage sub) es b) = mb_isShutdown b"
  by (induction es arbitrary: b) (simp_all add: deliverMessage_fields)

text \<open>One agent's share of a pass.\<close>

lemma process_agent_step:
  assumes "mbus_inv cfg b" "process_agent now i (rem, b) = (rem', b')"
  shows "mbus_inv cfg b' \<and> mb_subscriptions b' = mb_subscriptions b \<and> mb_processScheduled b' = mb_processScheduled b \<and>
    mb_isShutdown b' = mb_isShutdown b \<and> set (jkeys (mb_queues b')) = set (jkeys (mb_queues b)) \<and> (rem \<longrightarrow> rem') \<and>
    (\<forall>j. j \<noteq> i \<longrightarrow> jget (mb_queues b') j = jget (mb_queues b) j) \<and>
    (\<forall>j q'. jget (mb_queues b') j = Some q' \<longrightarrow> (\<exists>q. jget (mb_queues b) j = Some q \<and> pq_totalCount q' \<le> pq_totalCount q)) \<and>
    (\<forall>q'. jget (mb_queues b') i = Some q' \<longrightarrow> jget (mb_subscriptions b) i \<noteq> None \<longrightarrow>
       (pq_totalCount q' > 0 \<longrightarrow> rem') \<and> (\<exists>q. jget (mb_queues b) i = Some q \<and> pq_totalCount q' = pq_totalCount q - 10))"
proof (cases "jget (mb_queues b) i = None \<or> jget (mb_subscriptions b) i = None")
  case True
  then show ?thesis
    using assms by (auto simp: process_agent_def split: option.splits)
next
  case False
  then obtain q sub where qs: "jget (mb_queues b) i = Some q" "jget (mb_subscriptions b) i = Some sub"
    by auto
  obtain batch expired q1 where t: "take_batch (min 10 (pq_totalCount q)) now sub q = (batch, expired, q1)"
    by (metis prod_cases3)
  have q: "queue_ok cfg i q" "sb_agentId sub = i"
    using assms(1) qs by (auto simp: mbus_inv_def)
  have tb: "pq_inv q1" "pq_list q1 = drop (min 10 (pq_totalCount q)) (pq_list q)"
    "\<forall>e \<in> set batch. e \<in> set (pq_list q) \<and> passes_filter sub (qe_message e)"
    using take_batch_props [OF _ t] q(1) by (auto simp: queue_ok_def)
  have b': "b' = fold (deliverMessage sub) batch (b\<lparr>mb_queues := jset i q1 (mb_queues b), mb_events := mb_events b @ map MExpired expired\<rparr>)"
    "rem' = (rem \<or> pq_totalCount q1 > 0)"
    using assms(2) qs t by (auto simp: process_agent_def)
  have "queue_ok cfg i q1"
    using q(1) tb by (auto simp: queue_ok_def dest: in_set_dropD)
  moreover have "\<forall>e \<in> set batch. entry_ok cfg i e"
    using tb(3) q(1) by (auto simp: queue_ok_def)
  ultimately have "mbus_inv cfg b'"
    using assms(1) tb(3) q(2) by (auto simp: mbus_inv_def b'(1) deliver_all_fields)
  moreover have "pq_totalCount q1 = pq_totalCount q - 10"
    using tb q(1) by (simp add: queue_ok_def pq_inv_def)
  moreover have "i \<in> set (jkeys (mb_queues b))"
    using qs(1) jget_jkeys [of "mb_queues b" i] by auto
  ultimately show ?thesis
    using qs by (auto simp: b' deliver_all_fields set_jkeys_jset)
qed

lemma process_agents:
  assumes "mbus_inv cfg b" "fold (process_agent now) ks (rem, b) = (rem', b')"
  shows "mbus_inv cfg b' \<and> mb_subscriptions b' = mb_subscriptions b \<and> mb_processScheduled b' = mb_processScheduled b \<and>
    mb_isShutdown b' = mb_isShutdown b \<and> set (jkeys (mb_queues b')) = set (jkeys (mb_queues b)) \<and> (rem \<longrightarrow> rem') \<and>
    (\<forall>i. i \<notin> set ks \<longrightarrow> jget (mb_queues b') i = jget (mb_queues b) i) \<and>
    (\<forall>j q'. jget (mb_queues b') j = Some q' \<longrightarrow> (\<exists>q. jget (mb_queues b) j = Some q \<and> pq_totalCount q' \<le> pq_totalCount q)) \<and>
    (\<forall>i \<in> set ks. \<forall>q'. jget (mb_queues b') i = Some q' \<longrightarrow> jget (mb_subscriptions b) i \<noteq> None \<longrightarrow>
       (pq_totalCount q' > 0 \<longrightarrow> rem') \<and> (\<exists>q. jget (mb_queues b) i = Some q \<and> pq_totalCount q' \<le> pq_totalCount q - 10))"
  using assms(2)
proof (induction ks arbitrary: rem' b' rule: rev_induct)
  case (snoc k ks)
  obtain rem1 b1 where f: "fold (process_agent now) ks (rem, b) = (rem1, b1)"
    by fastforce
  note ih = snoc.IH [OF f]
  have "process_agent now k (rem1, b1) = (rem', b')"
    using snoc.prems f by simp
  note st = process_agent_step [OF conjunct1 [OF ih] this]
  have "(pq_totalCount q' > 0 \<longrightarrow> rem') \<and> (\<exists>q. jget (mb_queues b) i = Some q \<and> pq_totalCount q' \<le> pq_totalCount q - 10)"
    if i: "i \<in> set (ks @ [k])" and q': "jget (mb_queues b') i = Some q'" and sub: "jget (mb_subscriptions b) i \<noteq> None" for i q'
  proof (cases "i = k")
    case True
    then obtain q where q: "jget (mb_queues b1) k = Some q" "pq_totalCount q' = pq_totalCount q - 10" "pq_totalCount q' > 0 \<longrightarrow> rem'"
      using st ih q' sub by auto
    have "\<exists>q0. jget (mb_queues b) k = Some q0 \<and> pq_totalCount q \<le> pq_totalCount q0"
      using ih q(1) sub True by (cases "k \<in> set ks") fastforce+
    then show ?thesis
      using q True by (auto intro: diff_le_mono)
  next
    case False
    then have "jget (mb_queues b1) i = Some q'" "i \<in> set ks" "rem1 \<longrightarrow> rem'"
      using st q' i by auto
    then show ?thesis
      using ih sub by blast
  qed
  moreover have "\<exists>q. jget (mb_queues b) j = Some q \<and> pq_totalCount q' \<le> pq_totalCount q" if "jget (mb_queues b') j = Some q'" for j q'
    using ih st that by (meson order_trans)
  ultimately show ?case
    using ih st by auto
qed (use assms(1) in simp)

lemma processQueues_props:
  fixes now :: time and b :: "'p bus"
  defines "b' \<equiv> processQueues now b"
  assumes "mbus_inv cfg b"
  shows "mbus_inv cfg b'" "mb_subscriptions b' = mb_subscriptions b" "mb_isShutdown b' = mb_isShutdown b"
    "mb_isShutdown b \<Longrightarrow> mb_processScheduled b' = mb_processScheduled b"
    "jget (mb_queues b') i = Some q' \<Longrightarrow> \<exists>q. jget (mb_queues b) i = Some q \<and> pq_totalCount q' \<le> pq_totalCount q"
    "jget (mb_queues b') i = Some q' \<Longrightarrow> jget (mb_subscriptions b) i \<noteq> None \<Longrightarrow>
       (pq_totalCount q' > 0 \<longrightarrow> mb_isShutdown b \<or> mb_processScheduled b') \<and>
       (\<exists>q. jget (mb_queues b) i = Some q \<and> pq_totalCount q' \<le> pq_totalCount q - 10)"
    "jget (mb_queues b) i \<noteq> None \<Longrightarrow> jget (mb_queues b') i \<noteq> None"
proof -
  obtain rem b1 where f: "fold (process_agent now) (jkeys (mb_queues b)) (False, b) = (rem, b1)"
    by fastforce
  note p = process_agents [OF assms(2) f]
  have b': "b' = (if rem then scheduleProcessing b1 else b1)"
    by (simp add: b'_def processQueues_def f)
  then have same: "mb_queues b' = mb_queues b1" "mb_subscriptions b' = mb_subscriptions b1" "mb_isShutdown b' = mb_isShutdown b1"
    "mbus_inv cfg b' = mbus_inv cfg b1" "rem \<Longrightarrow> mb_isShutdown b1 \<or> mb_processScheduled b'"
    "mb_isShutdown b1 \<Longrightarrow> mb_processScheduled b' = mb_processScheduled b1"
    by (simp_all add: schedule_inv) (auto simp: scheduleProcessing_def)
  show "mbus_inv cfg b'" "mb_subscriptions b' = mb_subscriptions b" "mb_isShutdown b' = mb_isShutdown b"
    "mb_isShutdown b \<Longrightarrow> mb_processScheduled b' = mb_processScheduled b"
    using p same by simp_all
  show "\<exists>q. jget (mb_queues b) i = Some q \<and> pq_totalCount q' \<le> pq_totalCount q" if "jget (mb_queues b') i = Some q'"
    using p that unfolding same by blast
  show "(pq_totalCount q' > 0 \<longrightarrow> mb_isShutdown b \<or> mb_processScheduled b') \<and>
      (\<exists>q. jget (mb_queues b) i = Some q \<and> pq_totalCount q' \<le> pq_totalCount q - 10)"
    if i: "jget (mb_queues b') i = Some q'" "jget (mb_subscriptions b) i \<noteq> None"
  proof -
    have "i \<in> set (jkeys (mb_queues b))"
      using i(1) p jget_jkeys [of "mb_queues b1" i] unfolding same by auto
    then show ?thesis
      using p i same(5) unfolding same by metis
  qed
  show "jget (mb_queues b') i \<noteq> None" if "jget (mb_queues b) i \<noteq> None"
    using p that jget_jkeys [of "mb_queues b1" i] jget_jkeys [of "mb_queues b" i] unfolding same by auto
qed

lemma drain_list:
  "pq_inv q \<Longrightarrow> drain now q = (ms, q') \<Longrightarrow> pq_inv q' \<and> pq_list q' = [] \<and>
     ms = map qe_message (filter (\<lambda>e. now - mg_timestamp (qe_message e) \<le> mg_ttlMs (qe_message e)) (pq_list q))"
proof (induction "pq_list q" arbitrary: q ms q')
  case Nil
  then show ?case
    by (simp add: drain.simps [of now q] pq_inv_def)
next
  case (Cons x xs)
  obtain r q1 where d: "pq_dequeue q = (r, q1)"
    by fastforce
  have q1: "pq_inv q1" "r = Some x" "xs = pq_list q1"
    using pq_dequeue_list [OF Cons.prems(1) d] Cons.hyps(2) [symmetric] by auto
  obtain ms1 q2 where t: "drain now q1 = (ms1, q2)"
    by fastforce
  have "pq_totalCount q \<noteq> 0"
    using Cons.prems(1) Cons.hyps(2) [symmetric] by (simp add: pq_inv_def)
  then have "q' = q2 \<and> ms = (if now - mg_timestamp (qe_message x) \<le> mg_ttlMs (qe_message x) then qe_message x # ms1 else ms1)"
    using Cons.prems(2) d q1(2) t by (simp add: drain.simps [of now q])
  then show ?case
    using Cons.hyps(1) [OF q1(3) q1(1) t] q1(3) Cons.hyps(2) [symmetric] by simp
qed

lemma getMessages_inv:
  assumes "mbus_inv cfg b"
  shows "mbus_inv cfg (snd (getMessages now i b))"
proof (cases "jget (mb_queues b) i")
  case (Some q)
  obtain ms q1 where d: "drain now q = (ms, q1)"
    by fastforce
  have "pq_inv q"
    using assms Some by (auto simp: mbus_inv_def queue_ok_def)
  then have "queue_ok cfg i q1"
    using drain_list [OF _ d] by (simp add: queue_ok_def)
  then show ?thesis
    using assms Some d by (simp add: getMessages_def mbus_inv_def)
qed (simp add: getMessages_def assms)

lemma delivery_runs_inv:
  assumes "mbus_inv cfg b"
  shows "mbus_inv cfg (delivery_runs cfg k throws b)"
proof (cases "k < length (mb_deliveries b)")
  case True
  obtain sub e where se: "mb_deliveries b ! k = (sub, e)"
    by fastforce
  have "(sub, e) \<in> set (mb_deliveries b)"
    using True se nth_mem by metis
  then have e: "entry_ok cfg (sb_agentId sub) e" "passes_filter sub (qe_message e)"
    using assms by (auto simp: mbus_inv_def)
  define b1 where "b1 = b\<lparr>mb_deliveries := take k (mb_deliveries b) @ drop (Suc k) (mb_deliveries b)\<rparr>"
  have "set (mb_deliveries b1) \<subseteq> set (mb_deliveries b)"
    using set_take_subset set_drop_subset by (fastforce simp: b1_def)
  then have b1: "mbus_inv cfg b1"
    using assms unfolding mbus_inv_def b1_def by auto
  have "mbus_inv cfg (handleDeliveryError cfg (sb_agentId sub) e b1)"
    using b1 e(1) by (auto simp: handleDeliveryError_def mb_emit_def mbus_inv_def entry_ok_def Let_def)
  moreover have "mbus_inv cfg (mb_emit (MDelivered sub (qe_message e)) b1)"
    using b1 e by (auto simp: mb_emit_def mbus_inv_def entry_ok_def)
  ultimately show ?thesis
    using True by (simp add: delivery_runs_def se b1_def [symmetric])
qed (simp add: delivery_runs_def assms)

lemma retry_fires_inv:
  assumes "mbus_inv cfg b"
  shows "mbus_inv cfg (retry_fires cfg k b)"
proof (cases "k < length (mb_retries b)")
  case True
  obtain i e where ie: "mb_retries b ! k = (i, e)"
    by fastforce
  have "(i, e) \<in> set (mb_retries b)"
    using True ie nth_mem by metis
  then have e: "entry_ok cfg i \<lparr>qe_message = qe_message e, qe_attempts = qe_attempts e\<rparr>"
    using assms by (auto simp: mbus_inv_def entry_ok_def)
  define b1 where "b1 = b\<lparr>mb_retries := take k (mb_retries b) @ drop (Suc k) (mb_retries b)\<rparr>"
  have "set (mb_retries b1) \<subseteq> set (mb_retries b)"
    using set_take_subset set_drop_subset by (fastforce simp: b1_def)
  then have b1: "mbus_inv cfg b1"
    using assms unfolding mbus_inv_def b1_def by auto
  then show ?thesis
    using True mb_addToQueue_inv [OF b1 e] by (simp add: retry_fires_def ie b1_def [symmetric] schedule_inv Let_def)
qed (simp add: retry_fires_def assms)

lemma bus_step_inv:
  assumes "mbus_inv cfg b"
  shows "mbus_inv cfg (bus_step cfg a b)"
proof (cases a)
  case (MSend clk m)
  have "mbus_inv cfg (snd (generateMessageId now b))" for now
    using assms by (simp add: generateMessageId_def mbus_inv_def Let_def)
  then show ?thesis
    using MSend by (simp add: mb_send_def case_prod_beta mb_enqueue_inv)
next
  case (MBroadcast clk m)
  have "mbus_inv cfg (snd (generateMessageId now b))" for now
    using assms by (simp add: generateMessageId_def mbus_inv_def Let_def)
  then show ?thesis
    using MBroadcast by (simp add: mb_broadcast_def case_prod_beta mb_enqueue_inv)
next
  case (MSubscribe i cb f)
  then show ?thesis
    using assms by (auto simp: mb_subscribe_def scheduleProcessing_def Let_def mbus_inv_def queue_ok_new split: option.splits if_splits)
next
  case (MImmediate now)
  have "mbus_inv cfg (b\<lparr>mb_processScheduled := False\<rparr>)"
    using assms by (simp add: mbus_inv_def)
  then show ?thesis
    using MImmediate assms by (simp add: immediate_fires_def processQueues_props Let_def)
next
  case (MBackstop now)
  then show ?thesis
    using assms by (simp add: processQueues_props)
qed (use assms in \<open>simp_all add: delivery_runs_inv retry_fires_inv getMessages_inv\<close>,
     auto simp: mb_unsubscribe_def acknowledge_def handleAckTimeout_def mb_shutdown_def mb_initialize_def mb_emit_def Let_def mbus_inv_def
      split: option.splits if_splits)

interpretation message_bus: invariant_system "bus_step cfg" "mbus_inv cfg" for cfg
  by unfold_locales (rule bus_step_inv)

lemma new_bus_inv: "mbus_inv cfg new_bus"
  by (simp add: mbus_inv_def new_bus_def)

text \<open>
  C9. What the bus delivers, and its bounds. In every run: a callback only gets messages addressed to its
  agent, by name or by broadcast from another agent, and of a type its filter admits; no queue holds
  more messages than the maximum (one when the maximum is zero); and no entry that waits or is being delivered
  has used up its attempts.
\<close>

theorem bus_delivery:
  assumes "b = run (bus_step cfg) ops new_bus"
  shows "(\<forall>sub m. MDelivered sub m \<in> set (mb_events b) \<longrightarrow> addressed (sb_agentId sub) m \<and> passes_filter sub m) \<and>
    (\<forall>i q. jget (mb_queues b) i = Some q \<longrightarrow> pq_totalCount q \<le> max 1 (mc_maxQueueSize cfg) \<and>
       (\<forall>e \<in> set (pq_list q). qe_attempts e < max 1 (mc_retryAttempts cfg))) \<and>
    (\<forall>(sub, e) \<in> set (mb_deliveries b). qe_attempts e < max 1 (mc_retryAttempts cfg))"
proof -
  have "mbus_inv cfg b"
    unfolding assms by (rule message_bus.run_inv [OF new_bus_inv])
  then show ?thesis
    by (auto simp: mbus_inv_def queue_ok_def pq_inv_def entry_ok_def)
qed

section \<open>No message is stranded\<close>

definition no_send_when_down :: "'p bus_op \<Rightarrow> 'p bus \<Rightarrow> bool" where
  "no_send_when_down a b \<longleftrightarrow> (mb_isShutdown b \<longrightarrow> (\<forall>clk m. a \<noteq> MSend clk m \<and> a \<noteq> MBroadcast clk m))"

definition live_inv :: "'p bus \<Rightarrow> bool" where
  "live_inv b \<longleftrightarrow> (\<forall>i q. jget (mb_queues b) i = Some q \<longrightarrow> pq_totalCount q > 0 \<longrightarrow>
     \<not> mb_isShutdown b \<and> (jget (mb_subscriptions b) i \<noteq> None \<longrightarrow> mb_processScheduled b))"

lemma live_scheduled: "mb_processScheduled b \<Longrightarrow> \<not> mb_isShutdown b \<Longrightarrow> live_inv b"
  by (simp add: live_inv_def)

lemma live_schedule: "\<not> mb_isShutdown b \<Longrightarrow> live_inv (scheduleProcessing b)"
  by (rule live_scheduled) (simp_all add: scheduleProcessing_def)

lemma mb_addToQueue_flags: "mb_isShutdown (mb_addToQueue cfg i m k b) = mb_isShutdown b"
  by (simp add: mb_addToQueue_def Let_def)

lemma live_enqueue: "\<not> mb_isShutdown b \<Longrightarrow> live_inv (mb_enqueue cfg m b)"
proof -
  assume "\<not> mb_isShutdown b"
  moreover have "mb_isShutdown (fold (\<lambda>i b. if i \<noteq> mg_from m then mb_addToQueue cfg i m 0 b else b) is b) = mb_isShutdown b" for "is"
    by (induction "is" arbitrary: b) (simp_all add: mb_addToQueue_flags)
  ultimately show ?thesis
    unfolding mb_enqueue_def Let_def by (intro live_schedule) (simp add: mb_addToQueue_flags)
qed

lemma generateMessageId_flags: "mb_isShutdown (snd (generateMessageId now b)) = mb_isShutdown b"
  by (simp add: generateMessageId_def Let_def)

lemma live_unchanged:
  "live_inv b \<Longrightarrow> mb_queues b' = mb_queues b \<Longrightarrow> mb_subscriptions b' = mb_subscriptions b \<Longrightarrow>
    mb_isShutdown b' = mb_isShutdown b \<Longrightarrow> mb_processScheduled b' = mb_processScheduled b \<Longrightarrow> live_inv b'"
  by (simp add: live_inv_def)

lemma live_delivery: "live_inv b \<Longrightarrow> live_inv (delivery_runs cfg k throws b)"
  by (simp add: delivery_runs_def handleDeliveryError_def mb_emit_def live_inv_def Let_def split: prod.splits)

lemma live_retry: "live_inv b \<Longrightarrow> live_inv (retry_fires cfg k b)"
proof -
  assume live: "live_inv b"
  show ?thesis
  proof (cases "k < length (mb_retries b)")
    case True
    define b1 where "b1 = b\<lparr>mb_retries := take k (mb_retries b) @ drop (Suc k) (mb_retries b)\<rparr>"
    have "live_inv b1"
      using live by (rule live_unchanged) (simp_all add: b1_def)
    then show ?thesis
      using True by (auto simp: retry_fires_def b1_def [symmetric] mb_addToQueue_flags Let_def intro!: live_schedule split: prod.splits)
  qed (simp add: retry_fires_def live)
qed

lemma live_process:
  assumes "mbus_inv cfg b" "\<not> mb_isShutdown b \<or> live_inv b"
  shows "live_inv (processQueues now b)"
  unfolding live_inv_def
proof (intro allI impI)
  fix i q' assume q': "jget (mb_queues (processQueues now b)) i = Some q'" "pq_totalCount q' > 0"
  note p = processQueues_props [where now = now, OF assms(1)]
  obtain q where q: "jget (mb_queues b) i = Some q" "pq_totalCount q' \<le> pq_totalCount q"
    using p(5) [OF q'(1)] by blast
  have "\<not> mb_isShutdown b"
    using assms(2) q q'(2) by (auto simp: live_inv_def)
  then show "\<not> mb_isShutdown (processQueues now b) \<and>
      (jget (mb_subscriptions (processQueues now b)) i \<noteq> None \<longrightarrow> mb_processScheduled (processQueues now b))"
    using p(2,3) p(6) [OF q'(1)] q'(2) by auto
qed

lemma live_immediate:
  assumes "mbus_inv cfg b" "live_inv b"
  shows "live_inv (immediate_fires now b)"
proof (cases "mb_processScheduled b \<and> \<not> mb_isShutdown b")
  case True
  have "mbus_inv cfg (b\<lparr>mb_processScheduled := False\<rparr>)"
    using assms(1) by (simp add: mbus_inv_def)
  then show ?thesis
    using True by (auto simp: immediate_fires_def intro: live_process)
next
  case False
  then show ?thesis
    using assms(2) by (auto simp: immediate_fires_def live_inv_def)
qed

lemma live_pull:
  assumes "mbus_inv cfg b" "live_inv b"
  shows "live_inv (snd (getMessages now i b))"
proof (cases "jget (mb_queues b) i")
  case (Some q)
  obtain ms q1 where d: "drain now q = (ms, q1)"
    by fastforce
  have "pq_inv q"
    using assms(1) Some by (auto simp: mbus_inv_def queue_ok_def)
  then have "pq_totalCount q1 = 0"
    using drain_list [OF _ d] by (simp add: pq_inv_def)
  then show ?thesis
    using assms(2) Some d by (auto simp: getMessages_def live_inv_def)
qed (simp add: getMessages_def assms)

lemma live_step:
  assumes "no_send_when_down a b" "mbus_inv cfg b" "live_inv b"
  shows "live_inv (bus_step cfg a b)"
proof (cases a)
  case (MSubscribe i cb f)
  then show ?thesis
    using assms(3) by (auto simp: mb_subscribe_def scheduleProcessing_def Let_def live_inv_def new_pqueue_def split: option.splits if_splits)
qed (use assms in \<open>auto simp: no_send_when_down_def mb_send_def mb_broadcast_def case_prod_beta generateMessageId_flags
      live_enqueue live_delivery live_retry live_process live_immediate live_pull\<close>,
     auto simp: mb_unsubscribe_def acknowledge_def handleAckTimeout_def mb_shutdown_def mb_initialize_def mb_emit_def Let_def live_inv_def
      split: option.splits if_splits)

interpretation live_bus: guarded_system no_send_when_down "bus_step cfg" "\<lambda>b. mbus_inv cfg b \<and> live_inv b" for cfg
  by unfold_locales (simp add: bus_step_inv live_step)

text \<open>A scheduled pass takes ten messages, or all, from the queue of a subscribed agent.\<close>

lemma immediate_progress:
  assumes "mbus_inv cfg b" "live_inv b" "\<not> mb_isShutdown b" "jget (mb_subscriptions b) i \<noteq> None" "jget (mb_queues b) i = Some q"
  shows "\<exists>q'. jget (mb_queues (immediate_fires now b)) i = Some q' \<and> pq_totalCount q' \<le> pq_totalCount q - 10 \<and>
    mb_subscriptions (immediate_fires now b) = mb_subscriptions b \<and> \<not> mb_isShutdown (immediate_fires now b)"
proof (cases "mb_processScheduled b")
  case True
  have "mbus_inv cfg (b\<lparr>mb_processScheduled := False\<rparr>)"
    using assms(1) by (simp add: mbus_inv_def)
  note p = processQueues_props [where now = now, OF this]
  obtain q' where "jget (mb_queues (processQueues now (b\<lparr>mb_processScheduled := False\<rparr>))) i = Some q'"
    using p(7) [of i] assms(5) by auto
  then show ?thesis
    using p(2,3) p(6) [of i q'] True assms(3-5) by (simp add: immediate_fires_def Let_def)
next
  case False
  then have "pq_totalCount q = 0"
    using assms(2,4,5) unfolding live_inv_def by (metis gr0I)
  then show ?thesis
    using False assms by (simp add: immediate_fires_def)
qed

lemma immediates_drain:
  assumes "mbus_inv cfg b" "live_inv b" "\<not> mb_isShutdown b" "jget (mb_subscriptions b) i \<noteq> None" "jget (mb_queues b) i = Some q"
    "pq_totalCount q \<le> 10 * length ts"
  shows "\<not> hasPendingMessages i (run (bus_step cfg) (map MImmediate ts) b)"
  using assms
proof (induction ts arbitrary: b q)
  case Nil
  then show ?case
    by (simp add: hasPendingMessages_def)
next
  case (Cons t ts)
  obtain q' where q': "jget (mb_queues (immediate_fires t b)) i = Some q'" "pq_totalCount q' \<le> pq_totalCount q - 10"
      "mb_subscriptions (immediate_fires t b) = mb_subscriptions b" "\<not> mb_isShutdown (immediate_fires t b)"
    using immediate_progress [OF Cons.prems(1-5), of t] by blast
  have "mbus_inv cfg (immediate_fires t b)"
    using bus_step_inv [OF Cons.prems(1), of "MImmediate t"] by simp
  then have "\<not> hasPendingMessages i (run (bus_step cfg) (map MImmediate ts) (immediate_fires t b))"
    using Cons.IH [OF _ live_immediate [OF Cons.prems(1,2)] q'(4) _ q'(1)] q'(2,3) Cons.prems(4,6) by simp
  then show ?case
    by simp
qed

text \<open>
  C35. No message is stranded. In every run in which nothing is sent while the bus is shut down: a pass over the
  queues is scheduled whenever a subscribed agent has waiting messages, and a queue of \<open>n\<close> messages is
  empty after \<open>n / 10\<close> scheduled passes, rounded up.
\<close>

theorem bus_no_message_stranded:
  assumes "run_ok no_send_when_down (bus_step cfg) ops new_bus" and "b = run (bus_step cfg) ops new_bus"
    and "\<not> mb_isShutdown b" and "jget (mb_subscriptions b) i \<noteq> None" and "jget (mb_queues b) i = Some q"
  shows "(pq_totalCount q > 0 \<longrightarrow> mb_processScheduled b) \<and>
    (pq_totalCount q \<le> 10 * length ts \<longrightarrow> \<not> hasPendingMessages i (run (bus_step cfg) (map MImmediate ts) b))"
proof -
  have "live_inv new_bus"
    by (simp add: live_inv_def new_bus_def)
  then have "mbus_inv cfg b \<and> live_inv b"
    unfolding assms(2) using live_bus.guarded_run [OF assms(1)] new_bus_inv by blast
  then show ?thesis
    using immediates_drain [of cfg b i q ts] assms(3-5) by (auto simp: live_inv_def)
qed

subsection \<open>An example\<close>

definition demo_message :: "string \<Rightarrow> string \<Rightarrow> nat message" where
  "demo_message f t = \<lparr>mg_id = [], mg_type = Heartbeat, mg_from = f, mg_to = t, mg_payload = 0, mg_timestamp = 0,
     mg_priority = PNormal, mg_requiresAck = True, mg_ttlMs = 1000\<rparr>"

definition demo_cfg :: bus_config where
  "demo_cfg = \<lparr>mc_maxQueueSize = 100, mc_retryAttempts = 3\<rparr>"

definition demo_bus_ops :: "nat bus_op list" where
  "demo_bus_ops = [MSubscribe ''b'' 2 None, MSubscribe ''c'' 3 (Some [Heartbeat]),
     MBroadcast (\<lambda>_. 5) (demo_message ''a'' ''x'')]"

lemma show_demo: "show_radix 10 5 = ''5''" "show_radix 36 (Suc 0) = ''1''"
  by code_simp+

lemmas bus_eval = demo_bus_ops_def demo_cfg_def demo_message_def new_bus_def mb_subscribe_def mb_broadcast_def mb_enqueue_def
  generateMessageId_def show_demo mb_addToQueue_def scheduleProcessing_def new_pqueue_def pq_enqueue_def pushBack_def new_deque_def
  slot_def nullish_def Let_def jkeys_def

lemmas pass_eval = immediate_fires_def processQueues_def process_agent_def take_first_def popFront_def pq_dequeue_def
  PRIORITY_ORDER_def passes_filter_def deliverMessage_def

lemmas event_eval = delivery_runs_def handleDeliveryError_def mb_emit_def acknowledge_def handleAckTimeout_def

theorem bus_delivery_witness:
  "let b = run (bus_step demo_cfg) (demo_bus_ops @ [MImmediate 6, MDeliver 0 True, MDeliver 0 False]) new_bus
   in MDelivered \<lparr>sb_agentId = ''c'', sb_callback = 3, sb_filter = Some [Heartbeat]\<rparr>
        ((demo_message ''a'' ''broadcast'')\<lparr>mg_id := ''msg_5_1'', mg_timestamp := 5\<rparr>) \<in> set (mb_events b) \<and>
      addressed ''c'' ((demo_message ''a'' ''broadcast'')\<lparr>mg_id := ''msg_5_1'', mg_timestamp := 5\<rparr>)"
proof -
  define b where "b = run (bus_step demo_cfg) (demo_bus_ops @ [MImmediate 6, MDeliver 0 True, MDeliver 0 False]) new_bus"
  have "mb_events b = [MRetry ''msg_5_1'' 1, MDelivered \<lparr>sb_agentId = ''c'', sb_callback = 3, sb_filter = Some [Heartbeat]\<rparr>
        ((demo_message ''a'' ''broadcast'')\<lparr>mg_id := ''msg_5_1'', mg_timestamp := 5\<rparr>)]"
    unfolding b_def by (simp add: bus_eval pass_eval event_eval)
  then show ?thesis
    using bus_delivery [OF b_def] unfolding Let_def b_def [symmetric] by fastforce
qed

theorem bus_no_message_stranded_witness:
  "\<not> hasPendingMessages ''b'' (run (bus_step demo_cfg) [MImmediate 6] (run (bus_step demo_cfg) demo_bus_ops new_bus))"
proof -
  define b where "b = run (bus_step demo_cfg) demo_bus_ops new_bus"
  have "run_ok no_send_when_down (bus_step demo_cfg) demo_bus_ops new_bus"
    by (simp add: demo_bus_ops_def no_send_when_down_def new_bus_def mb_subscribe_def Let_def)
  moreover have st: "map_option pq_totalCount (jget (mb_queues b) ''b'') = Some 1"
    unfolding b_def by (simp add: bus_eval)
  moreover have "mb_isShutdown b = False"
    unfolding b_def by (simp add: bus_eval)
  moreover have sub: "map_option sb_callback (jget (mb_subscriptions b) ''b'') = Some 2"
    unfolding b_def by (simp add: bus_eval)
  moreover obtain q where "jget (mb_queues b) ''b'' = Some q" "pq_totalCount q = 1"
    using st by blast
  moreover have "jget (mb_subscriptions b) ''b'' \<noteq> None"
    using sub by (simp only: map_option_eq_Some) blast
  ultimately have "\<not> hasPendingMessages ''b'' (run (bus_step demo_cfg) (map MImmediate [6]) b)"
    using bus_no_message_stranded [OF _ b_def, of "''b''" q "[6]"] by simp
  then show ?thesis
    unfolding b_def list.map .
qed

text \<open>
  One pending acknowledgement per message id: a broadcast that two agents get is pending once, and when both have
  acknowledged it the timer of the first delivery still runs out and reports a timeout.
\<close>

lemma acknowledged_broadcast_times_out:
  "let b = run (bus_step demo_cfg) (demo_bus_ops @ [MImmediate 6, MAck ''msg_5_1'' True None, MAck ''msg_5_1'' True None,
      MAckTimer 0]) new_bus
   in mb_events b = [MAcknowledged ''msg_5_1'' True, MAckTimeout ''msg_5_1'']"
  by (simp add: bus_eval pass_eval event_eval jdel_def)

end
