(* ===== verification/BusAttempts.thy ===== *)
theory BusAttempts
  imports MessageBus
begin

text \<open>
  How often the bus tries a message. The calls of subscribers for a message, together with the attempts its queued copies have left,
  never grow after the message was sent; identifiers of messages are never reused.
\<close>

section \<open>Identifiers\<close>

text \<open>The number at the end of an identifier, in base 36.\<close>

definition id_number :: "string \<Rightarrow> nat" where
  "id_number s = last_number CHR ''_'' 36 s"

lemma id_number_generated: "id_number (fst (generateMessageId now b)) = Suc (mb_messageCounter b)"
  using last_number_shown [of 36 "CHR ''_''" "''msg_'' @ show_radix 10 (nat now)" "Suc (mb_messageCounter b)"]
  by (simp add: id_number_def generateMessageId_def Let_def)

section \<open>Attempts made and attempts left\<close>

abbreviation max_attempts :: "bus_config \<Rightarrow> nat" where
  "max_attempts cfg \<equiv> max 1 (mc_retryAttempts cfg)"

text \<open>The attempts an entry has left, when it holds the message.\<close>

definition attempts_left :: "bus_config \<Rightarrow> string \<Rightarrow> 'p queue_entry \<Rightarrow> nat" where
  "attempts_left cfg i e = (if mg_id (qe_message e) = i then max_attempts cfg - qe_attempts e else 0)"

abbreviation left_of :: "bus_config \<Rightarrow> string \<Rightarrow> 'p queue_entry list \<Rightarrow> nat" where
  "left_of cfg i es \<equiv> sum_list (map (attempts_left cfg i) es)"

definition left_queued :: "bus_config \<Rightarrow> string \<Rightarrow> (string, 'p pqueue) jsmap \<Rightarrow> nat" where
  "left_queued cfg i Q = sum_list (map (\<lambda>q. left_of cfg i (pq_list q)) (jvalues Q))"

text \<open>The calls of a subscriber's callback for a message: successful, failed with a retry, failed for good.\<close>

fun is_call :: "string \<Rightarrow> 'p bus_event \<Rightarrow> bool" where
  "is_call i (MDelivered sub m) = (mg_id m = i)"
| "is_call i (MRetry j k) = (j = i)"
| "is_call i (MFailed j) = (j = i)"
| "is_call i _ = False"

definition calls :: "string \<Rightarrow> 'p bus \<Rightarrow> nat" where
  "calls i b = length (filter (is_call i) (mb_events b))"

definition potential :: "bus_config \<Rightarrow> string \<Rightarrow> 'p bus \<Rightarrow> nat" where
  "potential cfg i b = calls i b + left_queued cfg i (mb_queues b) + left_of cfg i (map snd (mb_deliveries b)) +
     left_of cfg i (map snd (mb_retries b))"

lemma sum_jset:
  "sum_list (map f (jvalues (jset k v m))) + (case jget m k of None \<Rightarrow> 0 | Some w \<Rightarrow> f w) = sum_list (map f (jvalues m)) + (f v :: nat)"
  by (induction k v m rule: jset.induct) (auto simp: jvalues_def)

lemma sum_jdel: "sum_list (map f (jvalues (jdel k m))) \<le> (sum_list (map f (jvalues m)) :: nat)"
  by (induction m) (auto simp: jvalues_def jdel_def)

lemma left_insert: "left_of cfg i (pl_insert e xs) = attempts_left cfg i e + left_of cfg i xs"
proof -
  have "left_of cfg i (filter P xs) + left_of cfg i (filter (\<lambda>x. \<not> P x) xs) = left_of cfg i xs" for P
    by (induction xs) auto
  from this [of "\<lambda>x. rank (prio x) \<le> rank (prio e)"] show ?thesis
    by (simp add: pl_insert_def not_le)
qed

lemma left_remove1: "left_of cfg i (remove1 x xs) \<le> left_of cfg i xs"
  by (induction xs) auto

lemma queue_inv: "mbus_inv cfg b \<Longrightarrow> pq_inv (nullish (jget (mb_queues b) a) new_pqueue)"
  by (cases "jget (mb_queues b) a") (auto simp: mbus_inv_def queue_ok_def new_pqueue_list)

lemma left_jset:
  assumes "left_of cfg i (pq_list q') \<le> left_of cfg i (pq_list (nullish (jget Q a) new_pqueue)) + k"
  shows "left_queued cfg i (jset a q' Q) \<le> left_queued cfg i Q + k"
  using assms sum_jset [of "\<lambda>q. left_of cfg i (pq_list q)" a q' Q]
  unfolding left_queued_def by (cases "jget Q a") (auto simp: new_pqueue_list)

lemma potential_add:
  assumes "mbus_inv cfg b"
  shows "potential cfg i (mb_addToQueue cfg a m k b) \<le> potential cfg i b + attempts_left cfg i \<lparr>qe_message = m, qe_attempts = k\<rparr>"
proof -
  let ?q = "nullish (jget (mb_queues b) a) new_pqueue"
  let ?e = "\<lparr>qe_message = m, qe_attempts = k\<rparr>"
  define q1 where "q1 = (if pq_totalCount ?q \<ge> mc_maxQueueSize cfg then snd (removeLowestPriority ?q) else ?q)"
  obtain r q' where rl: "removeLowestPriority ?q = (r, q')"
    by fastforce
  note v = removeLowestPriority_list [OF queue_inv [OF assms] rl]
  have "pq_inv q1" "left_of cfg i (pq_list q1) \<le> left_of cfg i (pq_list ?q)"
    using v queue_inv [OF assms] left_remove1 by (auto simp: q1_def rl split: option.splits)
  then have "left_of cfg i (pq_list (pq_enqueue ?e q1)) \<le> left_of cfg i (pq_list ?q) + attempts_left cfg i ?e"
    using pq_enqueue_list [of q1 ?e] by (simp add: left_insert)
  from left_jset [OF this] show ?thesis
    by (simp add: potential_def calls_def mb_addToQueue_def q1_def Let_def)
qed

lemma potential_cong:
  "mb_queues b' = mb_queues b \<Longrightarrow> mb_deliveries b' = mb_deliveries b \<Longrightarrow> mb_retries b' = mb_retries b \<Longrightarrow>
    filter (is_call i) (mb_events b') = filter (is_call i) (mb_events b) \<Longrightarrow> potential cfg i b' = potential cfg i b"
  by (simp add: potential_def calls_def)

lemma potential_schedule [simp]: "potential cfg i (scheduleProcessing b) = potential cfg i b"
  by (rule potential_cong) (simp_all add: scheduleProcessing_def)

text \<open>The agents a message goes to.\<close>

definition recipients :: "'p message \<Rightarrow> 'p bus \<Rightarrow> string list" where
  "recipients m b = (if mg_to m = ''broadcast'' then filter (\<lambda>a. a \<noteq> mg_from m) (jkeys (mb_subscriptions b)) else [mg_to m])"

lemma potential_enqueue:
  assumes "mbus_inv cfg b"
  shows "potential cfg i (mb_enqueue cfg m b) \<le> potential cfg i b + (if mg_id m = i then max_attempts cfg * length (recipients m b) else 0)"
proof -
  let ?w = "if mg_id m = i then max_attempts cfg else 0"
  have add: "mbus_inv cfg (mb_addToQueue cfg a m 0 b) \<and> potential cfg i (mb_addToQueue cfg a m 0 b) \<le> potential cfg i b + ?w"
    if "mbus_inv cfg b" "addressed a m" for a b
    using potential_add [OF that(1), of i a m 0] that by (auto simp: attempts_left_def entry_ok_def intro!: mb_addToQueue_inv)
  have "potential cfg i (fold (\<lambda>a b. if a \<noteq> mg_from m then mb_addToQueue cfg a m 0 b else b) as b)
      \<le> potential cfg i b + ?w * length (filter (\<lambda>a. a \<noteq> mg_from m) as)" if "mg_to m = ''broadcast''" for as
    using assms
  proof (induction as arbitrary: b)
    case (Cons a as)
    show ?case
    proof (cases "a = mg_from m")
      case False
      then have "mbus_inv cfg (mb_addToQueue cfg a m 0 b)" "potential cfg i (mb_addToQueue cfg a m 0 b) \<le> potential cfg i b + ?w"
        using add [OF Cons.prems, of a] that by (auto simp: addressed_def)
      then show ?thesis
        using Cons.IH [of "mb_addToQueue cfg a m 0 b"] False by (simp split: if_splits)
    qed (use Cons in simp)
  qed simp
  moreover have "potential cfg i (mb_addToQueue cfg (mg_to m) m 0 b) \<le> potential cfg i b + ?w"
    using add [OF assms, of "mg_to m"] by (simp add: addressed_def)
  moreover have "potential cfg i (mb_enqueue cfg m b) = potential cfg i (if mg_to m = ''broadcast''
      then fold (\<lambda>a b. if a \<noteq> mg_from m then mb_addToQueue cfg a m 0 b else b) (jkeys (mb_subscriptions b)) b
      else mb_addToQueue cfg (mg_to m) m 0 b)"
    unfolding mb_enqueue_def Let_def potential_schedule by (rule potential_cong) simp_all
  ultimately show ?thesis
    by (cases "mg_to m = ''broadcast''") (simp_all add: recipients_def split: if_splits)
qed

lemma take_batch_left:
  "pq_inv q \<Longrightarrow> take_batch k now sub q = (batch, expired, q') \<Longrightarrow>
     left_of cfg i batch + left_of cfg i (pq_list q') \<le> left_of cfg i (pq_list q)"
proof (induction k arbitrary: q batch expired q')
  case (Suc k)
  show ?case
  proof (cases "pq_list q")
    case Nil
    then show ?thesis
      using Suc.prems by (simp add: pq_inv_def)
  next
    case (Cons x xs)
    obtain r q1 where d: "pq_dequeue q = (r, q1)"
      by fastforce
    have q1: "pq_inv q1" "r = Some x" "pq_list q1 = xs"
      using pq_dequeue_list [OF Suc.prems(1) d] Cons by auto
    obtain bt ex q2 where t: "take_batch k now sub q1 = (bt, ex, q2)"
      by (metis prod_cases3)
    have "q' = q2" "batch = bt \<or> batch = x # bt"
      using Suc.prems Cons q1 d t by (auto simp: pq_inv_def split: if_splits)
    then show ?thesis
      using Suc.IH [OF q1(1) t] q1(3) Cons by auto
  qed
qed simp

lemma no_calls_expired [simp]: "filter (is_call i) (map MExpired xs) = []"
  by (induction xs) auto

lemma potential_process_agent:
  assumes "mbus_inv cfg b"
  shows "potential cfg i (snd (process_agent now a (rem, b))) \<le> potential cfg i b"
proof (cases "jget (mb_queues b) a = None \<or> jget (mb_subscriptions b) a = None")
  case True
  then show ?thesis
    by (auto simp: process_agent_def split: option.splits)
next
  case False
  then obtain q sub where qs: "jget (mb_queues b) a = Some q" "jget (mb_subscriptions b) a = Some sub"
    by auto
  obtain batch expired q1 where t: "take_batch (min 10 (pq_totalCount q)) now sub q = (batch, expired, q1)"
    by (metis prod_cases3)
  have "left_of cfg i batch + left_of cfg i (pq_list q1) \<le> left_of cfg i (pq_list q)"
    using take_batch_left [OF _ t] queue_inv [OF assms, of a] qs(1) by simp
  moreover have "left_queued cfg i (jset a q1 (mb_queues b)) + left_of cfg i (pq_list q) =
      left_queued cfg i (mb_queues b) + left_of cfg i (pq_list q1)"
    using sum_jset [of "\<lambda>q. left_of cfg i (pq_list q)" a q1 "mb_queues b"] qs(1) by (simp add: left_queued_def)
  moreover have "snd (process_agent now a (rem, b)) =
      fold (deliverMessage sub) batch (b\<lparr>mb_queues := jset a q1 (mb_queues b), mb_events := mb_events b @ map MExpired expired\<rparr>)"
    using qs t by (simp add: process_agent_def)
  ultimately show ?thesis
    by (simp add: potential_def calls_def deliver_all_fields comp_def)
qed

lemma potential_process:
  assumes "mbus_inv cfg b"
  shows "potential cfg i (processQueues now b) \<le> potential cfg i b"
proof -
  have "mbus_inv cfg (snd (fold (process_agent now) ks (rem, b))) \<and> potential cfg i (snd (fold (process_agent now) ks (rem, b))) \<le> potential cfg i b" for ks rem
    using assms
  proof (induction ks arbitrary: rem b)
    case (Cons a ks)
    obtain rem' b' where p: "process_agent now a (rem, b) = (rem', b')"
      by fastforce
    have "mbus_inv cfg b'" "potential cfg i b' \<le> potential cfg i b"
      using process_agent_step [OF Cons.prems p] potential_process_agent [OF Cons.prems, of i now a rem] p by simp_all
    then show ?case
      using Cons.IH [of b' rem'] p by simp
  qed simp
  from this [of "jkeys (mb_queues b)" False] show ?thesis
    by (simp add: processQueues_def case_prod_beta)
qed

lemma left_split:
  "k < length xs \<Longrightarrow> left_of cfg i (map snd xs) = attempts_left cfg i (snd (xs ! k)) + left_of cfg i (map snd (take k xs @ drop (Suc k) xs))"
proof (induction xs arbitrary: k)
  case (Cons x xs)
  then show ?case
    by (cases k) simp_all
qed simp

lemma potential_delivery:
  assumes "mbus_inv cfg b"
  shows "potential cfg i (delivery_runs cfg k throws b) \<le> potential cfg i b"
proof (cases "k < length (mb_deliveries b)")
  case True
  obtain sub e where se: "mb_deliveries b ! k = (sub, e)"
    by fastforce
  have "(sub, e) \<in> set (mb_deliveries b)"
    using True se nth_mem by metis
  then have "qe_attempts e < max_attempts cfg"
    using assms by (auto simp: mbus_inv_def entry_ok_def)
  then show ?thesis
    using True left_split [OF True, of cfg i] se
    by (auto simp: delivery_runs_def handleDeliveryError_def mb_emit_def potential_def calls_def attempts_left_def Let_def)
qed (simp add: delivery_runs_def)

lemma potential_retry:
  assumes "mbus_inv cfg b"
  shows "potential cfg i (retry_fires cfg k b) \<le> potential cfg i b"
proof (cases "k < length (mb_retries b)")
  case True
  obtain a e where ae: "mb_retries b ! k = (a, e)"
    by fastforce
  define b1 where "b1 = b\<lparr>mb_retries := take k (mb_retries b) @ drop (Suc k) (mb_retries b)\<rparr>"
  have "set (mb_retries b1) \<subseteq> set (mb_retries b)"
    using set_take_subset set_drop_subset by (fastforce simp: b1_def)
  then have b1: "mbus_inv cfg b1"
    using assms unfolding mbus_inv_def b1_def by auto
  have "potential cfg i b = potential cfg i b1 + attempts_left cfg i e"
    using left_split [OF True, of cfg i] ae by (simp add: b1_def potential_def calls_def)
  moreover have "attempts_left cfg i \<lparr>qe_message = qe_message e, qe_attempts = qe_attempts e\<rparr> = attempts_left cfg i e"
    by (simp add: attempts_left_def)
  ultimately show ?thesis
    using True ae potential_add [OF b1, of i a "qe_message e" "qe_attempts e"]
    by (auto simp: retry_fires_def b1_def [symmetric] Let_def)
qed (simp add: retry_fires_def)

lemma potential_pull:
  assumes "mbus_inv cfg b"
  shows "potential cfg i (snd (getMessages now a b)) \<le> potential cfg i b"
proof (cases "jget (mb_queues b) a")
  case (Some q)
  obtain ms q1 where d: "drain now q = (ms, q1)"
    by fastforce
  have "pq_list q1 = []"
    using drain_list [OF _ d] queue_inv [OF assms, of a] Some by simp
  then have "left_queued cfg i (jset a q1 (mb_queues b)) \<le> left_queued cfg i (mb_queues b) + 0"
    by (intro left_jset) simp
  then show ?thesis
    using Some d by (simp add: getMessages_def potential_def calls_def)
qed (simp add: getMessages_def)

text \<open>A step that does not create the identifier.\<close>

definition creates_id :: "string \<Rightarrow> 'p bus \<Rightarrow> 'p bus \<Rightarrow> bool" where
  "creates_id i b b' \<longleftrightarrow> mb_messageCounter b < id_number i \<and> id_number i \<le> mb_messageCounter b'"

lemma counter_add: "mb_messageCounter (mb_addToQueue cfg a m k b) = mb_messageCounter b"
  by (simp add: mb_addToQueue_def Let_def)

lemma counter_schedule [simp]: "mb_messageCounter (scheduleProcessing b) = mb_messageCounter b"
  by (simp add: scheduleProcessing_def)

lemma counter_enqueue: "mb_messageCounter (mb_enqueue cfg m b) = mb_messageCounter b"
proof -
  have "mb_messageCounter (fold (\<lambda>a b. if a \<noteq> mg_from m then mb_addToQueue cfg a m 0 b else b) as b) = mb_messageCounter b" for as
    by (induction as arbitrary: b) (simp_all add: counter_add)
  then show ?thesis
    by (simp add: mb_enqueue_def Let_def counter_add)
qed

lemma generate_fields:
  "mb_messageCounter (snd (generateMessageId now b)) = Suc (mb_messageCounter b)"
  "potential cfg i (snd (generateMessageId now b)) = potential cfg i b" "recipients m (snd (generateMessageId now b)) = recipients m b"
  "mbus_inv cfg b \<Longrightarrow> mbus_inv cfg (snd (generateMessageId now b))"
  by (simp_all add: generateMessageId_def potential_def calls_def recipients_def mbus_inv_def Let_def)

lemma potential_send:
  assumes "mbus_inv cfg b" "mg_id m = fst (generateMessageId now b)" "b' = mb_enqueue cfg m (snd (generateMessageId now b))"
  shows "potential cfg i b' \<le> potential cfg i b + (if mg_id m = i then max_attempts cfg * length (recipients m b) else 0)"
    "mb_messageCounter b' = Suc (mb_messageCounter b)" "id_number (mg_id m) = Suc (mb_messageCounter b)"
  using potential_enqueue [OF generate_fields(4) [OF assms(1)], of i m now] id_number_generated [of now b]
  by (simp_all add: assms(2,3) counter_enqueue generate_fields split: if_splits)

lemma counter_deliver: "mb_messageCounter (fold (deliverMessage sub) es b) = mb_messageCounter b"
  by (induction es arbitrary: b) (simp_all add: deliverMessage_def Let_def)

lemma counter_process: "mb_messageCounter (processQueues now b) = mb_messageCounter b"
proof -
  have p: "mb_messageCounter (snd (process_agent now a st)) = mb_messageCounter (snd st)" for a st
    by (auto simp: process_agent_def counter_deliver split: option.splits prod.splits)
  have "mb_messageCounter (snd (fold (process_agent now) ks st)) = mb_messageCounter (snd st)" for ks st
    by (induction ks arbitrary: st) (simp_all add: p)
  from this [of "jkeys (mb_queues b)" "(False, b)"] show ?thesis
    by (simp add: processQueues_def case_prod_beta)
qed

lemma potential_step:
  assumes inv: "mbus_inv cfg b"
  shows "\<not> creates_id i b (bus_step cfg x b) \<Longrightarrow> potential cfg i (bus_step cfg x b) \<le> potential cfg i b"
    "mb_messageCounter b \<le> mb_messageCounter (bus_step cfg x b)"
proof -
  have "(\<not> creates_id i b (bus_step cfg x b) \<longrightarrow> potential cfg i (bus_step cfg x b) \<le> potential cfg i b) \<and> mb_messageCounter b \<le> mb_messageCounter (bus_step cfg x b)"
  proof (cases x)
    case (MSend clk m)
    then have "bus_step cfg x b = mb_enqueue cfg (m\<lparr>mg_id := fst (generateMessageId (clk 0) b), mg_timestamp := clk 1\<rparr>)
        (snd (generateMessageId (clk 0) b))"
      by (simp add: mb_send_def case_prod_beta)
    from potential_send(1) [OF inv _ this, of i] potential_send(2,3) [OF inv _ this] show ?thesis
      by (auto simp: creates_id_def split: if_splits)
  next
    case (MBroadcast clk m)
    then have "bus_step cfg x b = mb_enqueue cfg (m\<lparr>mg_id := fst (generateMessageId (clk 0) b), mg_timestamp := clk 1, mg_to := ''broadcast''\<rparr>)
        (snd (generateMessageId (clk 0) b))"
      by (simp add: mb_broadcast_def case_prod_beta)
    from potential_send(1) [OF inv _ this, of i] potential_send(2,3) [OF inv _ this] show ?thesis
      by (auto simp: creates_id_def split: if_splits)
  next
    case (MSubscribe a cb f)
    have "left_queued cfg i (jset a new_pqueue (mb_queues b)) \<le> left_queued cfg i (mb_queues b) + 0"
      by (rule left_jset) (simp add: new_pqueue_list)
    moreover define b1 where "b1 = b\<lparr>mb_subscriptions := jset a \<lparr>sb_agentId = a, sb_callback = cb, sb_filter = f\<rparr> (mb_subscriptions b)\<rparr>"
    moreover have "potential cfg i b1 = potential cfg i b" "mb_messageCounter b1 = mb_messageCounter b" "mb_queues b1 = mb_queues b"
      by (simp_all add: b1_def potential_def calls_def)
    moreover have "potential cfg i (b1\<lparr>mb_queues := jset a new_pqueue (mb_queues b)\<rparr>) + left_queued cfg i (mb_queues b) =
        potential cfg i b1 + left_queued cfg i (jset a new_pqueue (mb_queues b))"
      by (simp add: potential_def calls_def b1_def)
    ultimately show ?thesis
      using MSubscribe by (cases "jget (mb_queues b) a") (auto simp: mb_subscribe_def b1_def [symmetric] Let_def)
  next
    case (MUnsubscribe a)
    then show ?thesis
      using sum_jdel [of "\<lambda>q. left_of cfg i (pq_list q)" a "mb_queues b"]
      by (simp add: mb_unsubscribe_def potential_def calls_def left_queued_def)
  next
    case (MAck j ok err)
    then show ?thesis
      by (auto simp: acknowledge_def mb_emit_def potential_def calls_def Let_def split: option.splits)
  next
    case (MAckTimer t)
    then show ?thesis
      by (auto simp: handleAckTimeout_def mb_emit_def potential_def calls_def split: option.splits)
  next
    case (MImmediate now)
    have "mbus_inv cfg (b\<lparr>mb_processScheduled := False\<rparr>)" "potential cfg i (b\<lparr>mb_processScheduled := False\<rparr>) = potential cfg i b"
      using inv by (simp_all add: mbus_inv_def potential_def calls_def)
    then show ?thesis
      using MImmediate potential_process [of cfg "b\<lparr>mb_processScheduled := False\<rparr>" i now] by (simp add: immediate_fires_def counter_process Let_def)
  next
    case (MBackstop now)
    then show ?thesis
      using potential_process [OF inv] by (simp add: counter_process)
  next
    case (MDeliver k throws)
    then show ?thesis
      using potential_delivery [OF inv, of i k throws]
      by (auto simp: delivery_runs_def handleDeliveryError_def mb_emit_def Let_def split: prod.splits)
  next
    case (MRetryTimer k)
    then show ?thesis
      using potential_retry [OF inv, of i k] by (auto simp: retry_fires_def counter_add Let_def split: prod.splits)
  next
    case (MPull now a)
    then show ?thesis
      using potential_pull [OF inv, of i now a] by (auto simp: getMessages_def split: option.splits prod.splits)
  qed (simp_all add: mb_shutdown_def mb_initialize_def potential_def calls_def left_queued_def jvalues_def)
  then show "\<not> creates_id i b (bus_step cfg x b) \<Longrightarrow> potential cfg i (bus_step cfg x b) \<le> potential cfg i b"
    "mb_messageCounter b \<le> mb_messageCounter (bus_step cfg x b)"
    by simp_all
qed

lemma potential_run:
  assumes "mbus_inv cfg b"
  shows "(\<not> creates_id i b (run (bus_step cfg) ops b) \<longrightarrow> potential cfg i (run (bus_step cfg) ops b) \<le> potential cfg i b) \<and>
    mb_messageCounter b \<le> mb_messageCounter (run (bus_step cfg) ops b)"
  using assms
proof (induction ops arbitrary: b)
  case (Cons x ops)
  note st = potential_step(1) [OF Cons.prems, of i x] potential_step(2) [OF Cons.prems, of x]
  note ih = Cons.IH [OF bus_step_inv [OF Cons.prems, of x]]
  show ?case
    using ih st by (fastforce simp: creates_id_def)
qed simp

text \<open>
  C10. A message is tried at most \<open>retryAttempts\<close> times per recipient (once when that is zero). Whatever happens before and after
  a message is sent, by whatever interleaving of passes, deliveries, failures, retries, subscriptions and shutdowns, the callbacks called
  with it, successfully or not, number at most the recipients it had times \<open>retryAttempts\<close>. In particular its identifier is new.
\<close>

theorem attempts_bounded:
  assumes "b1 = run (bus_step cfg) before new_bus" and "mb_send cfg clk m b1 = (i, b2)" and "b = run (bus_step cfg) after b2"
  shows "calls i b1 = 0 \<and> calls i b \<le> max 1 (mc_retryAttempts cfg) * length (recipients m b1)"
proof -
  define m' where "m' = m\<lparr>mg_id := i, mg_timestamp := clk 1\<rparr>"
  have inv: "mbus_inv cfg b1"
    unfolding assms(1) by (rule message_bus.run_inv [OF new_bus_inv])
  have g: "mg_id m' = fst (generateMessageId (clk 0) b1)" "b2 = mb_enqueue cfg m' (snd (generateMessageId (clk 0) b1))"
    "recipients m' b1 = recipients m b1" "mg_id m' = i"
    using assms(2) by (auto simp: mb_send_def m'_def recipients_def case_prod_beta)
  note s = potential_send(1) [OF inv g(1,2), of i] potential_send(2,3) [OF inv g(1,2)]
  have "potential cfg i (new_bus :: 'a bus) = 0" "mbus_inv cfg (new_bus :: 'a bus)"
    using new_bus_inv by (simp_all add: potential_def calls_def left_queued_def new_bus_def jvalues_def)
  moreover have "\<not> creates_id i new_bus b1"
    using s(3) g(4) by (simp add: creates_id_def)
  ultimately have "potential cfg i b1 = 0"
    using potential_run [of cfg new_bus i before] unfolding assms(1) by simp
  moreover have "potential cfg i b \<le> potential cfg i b2"
  proof -
    have "mbus_inv cfg b2"
      using bus_step_inv [OF inv, of "MSend clk m"] assms(2) by simp
    moreover have "\<not> creates_id i b2 b"
      using s(2,3) g(4) by (simp add: creates_id_def)
    ultimately show ?thesis
      using potential_run [of cfg b2 i after] assms(3) by simp
  qed
  ultimately have "potential cfg i b1 = 0" "potential cfg i b \<le> max_attempts cfg * length (recipients m b1)"
    using s(1) g by simp_all
  then show ?thesis
    by (simp add: potential_def)
qed

text \<open>Three failing attempts, the last of which is final: the bound is reached.\<close>

theorem attempts_bounded_witness:
  "calls ''msg_5_1'' (run (bus_step demo_cfg) [MImmediate 6, MDeliver 0 True, MRetryTimer 0, MImmediate 7, MDeliver 0 True]
     (snd (mb_send demo_cfg (\<lambda>_. 5) (demo_message ''a'' ''b'') (run (bus_step demo_cfg) [MSubscribe ''b'' 2 None] new_bus)))) \<le> 3"
proof -
  let ?b1 = "run (bus_step demo_cfg) [MSubscribe ''b'' 2 None] new_bus :: nat bus"
  have i: "fst (mb_send demo_cfg (\<lambda>_. 5) (demo_message ''a'' ''b'') ?b1) = ''msg_5_1''"
    by (simp add: mb_send_def bus_eval)
  have "mb_send demo_cfg (\<lambda>_. 5) (demo_message ''a'' ''b'') ?b1 =
      (''msg_5_1'', snd (mb_send demo_cfg (\<lambda>_. 5) (demo_message ''a'' ''b'') ?b1))"
    using i by (simp add: prod_eq_iff)
  from attempts_bounded [OF refl this refl, of "[MImmediate 6, MDeliver 0 True, MRetryTimer 0, MImmediate 7, MDeliver 0 True]"]
  show ?thesis
    by (simp add: recipients_def demo_message_def demo_cfg_def)
qed

end
