(* ===== verification/RvfFormat.thy ===== *)
theory RvfFormat
  imports Prelude "HOL-Library.Word"
begin

text \<open>
  The file format of \<open>shared/src/events/rvf-event-log.ts\<close>: the magic bytes, then records of a
  big-endian 32-bit length and a payload. JSON texts are represented by their UTF-8 bytes.
\<close>

type_synonym byte = "8 word"

definition MAGIC :: "byte list" where
  "MAGIC = [82, 86, 70, 76]"

definition LENGTH_PREFIX_BYTES :: nat where
  "LENGTH_PREFIX_BYTES = 4"

definition MAX_PAYLOAD_SIZE :: nat where
  "MAX_PAYLOAD_SIZE = 100 * 1024 * 1024"

text \<open>\<open>Buffer.writeUInt32BE\<close> and \<open>Buffer.readUInt32BE\<close>.\<close>

definition writeUInt32BE :: "nat \<Rightarrow> byte list" where
  "writeUInt32BE n = [of_nat (n div 2 ^ 24), of_nat (n div 2 ^ 16), of_nat (n div 2 ^ 8), of_nat n]"

definition readUInt32BE :: "byte list \<Rightarrow> nat \<Rightarrow> nat" where
  "readUInt32BE buf off =
     unat (buf ! off) * 2 ^ 24 + unat (buf ! (off + 1)) * 2 ^ 16 + unat (buf ! (off + 2)) * 2 ^ 8 + unat (buf ! (off + 3))"

text \<open>What \<open>appendRecord\<close> writes for a payload.\<close>

definition frame :: "byte list \<Rightarrow> byte list" where
  "frame payload = writeUInt32BE (length payload) @ payload"

text \<open>
  The loop of \<open>replayFile\<close>: \<open>handler\<close> runs on every record that parses. It gives the state, the offset where the loop
  stopped and the offset of an oversized length prefix.
\<close>

function replay_loop :: "(byte list \<Rightarrow> 'r option) \<Rightarrow> ('r \<Rightarrow> 's \<Rightarrow> 's) \<Rightarrow> byte list \<Rightarrow> nat \<Rightarrow> 's \<Rightarrow> 's \<times> nat \<times> nat option" where
  "replay_loop parse handler buf off s =
     (if off + LENGTH_PREFIX_BYTES \<le> length buf
      then
        let payloadLength = readUInt32BE buf off;
            off1 = off + LENGTH_PREFIX_BYTES
        in if payloadLength > MAX_PAYLOAD_SIZE then (s, off1, Some (off1 - LENGTH_PREFIX_BYTES))
           else if off1 + payloadLength > length buf then (s, off1 - LENGTH_PREFIX_BYTES, None)
           else
             let json = take payloadLength (drop off1 buf);
                 s1 = (case parse json of Some r \<Rightarrow> handler r s | None \<Rightarrow> s)
             in replay_loop parse handler buf (off1 + payloadLength) s1
      else (s, off, None))"
  by pat_completeness auto

termination replay_loop
  by (relation "measure (\<lambda>(_, _, buf, off, _). length buf - off)") (auto simp: LENGTH_PREFIX_BYTES_def)

declare replay_loop.simps [simp del]

subsection \<open>The length prefix\<close>

lemma unat_byte: "unat (of_nat n :: byte) = n mod 256"
  by (simp add: unat_of_nat)

lemma base256: "(n::nat) < 2 ^ 32 \<Longrightarrow>
    (n div 2 ^ 24) mod 256 * 2 ^ 24 + (n div 2 ^ 16) mod 256 * 2 ^ 16 + (n div 2 ^ 8) mod 256 * 2 ^ 8 + n mod 256 = n"
proof -
  assume n: "n < 2 ^ 32"
  have d: "n div 2 ^ 16 = n div 256 div 256" "n div 2 ^ 24 = n div 256 div 256 div 256"
    by (simp_all add: div_mult2_eq [symmetric])
  have "n div 2 ^ 24 < 256"
    using n by (simp add: less_mult_imp_div_less)
  then have top: "(n div 2 ^ 24) mod 256 = n div 2 ^ 24"
    by simp
  have e: "n div 256 * 256 + n mod 256 = n" "n div 256 div 256 * 256 + n div 256 mod 256 = n div 256"
    "n div 256 div 256 div 256 * 256 + n div 256 div 256 mod 256 = n div 256 div 256"
    by (rule div_mult_mod_eq)+
  have p: "2 ^ 24 = (16777216 :: nat)" "2 ^ 16 = (65536 :: nat)" "2 ^ 8 = (256 :: nat)"
    by simp_all
  show ?thesis
    using e unfolding top unfolding d unfolding p by linarith
qed

lemma length_writeUInt32BE [simp]: "length (writeUInt32BE n) = 4"
  by (simp add: writeUInt32BE_def)

lemma read_write:
  assumes "n < 2 ^ 32"
  shows "readUInt32BE (pre @ writeUInt32BE n @ rest) (length pre) = n"
proof -
  have "(pre @ writeUInt32BE n @ rest) ! (length pre + k) = (writeUInt32BE n @ rest) ! k" for k
    by (simp add: nth_append)
  from this [of 0] this [of 1] this [of 2] this [of 3] show ?thesis
    unfolding readUInt32BE_def using base256 [OF assms]
    by (simp only: add_0_right) (simp add: writeUInt32BE_def unat_byte numeral_eq_Suc [of "num.Bit0 num.One"] nth_Cons')
qed

section \<open>Replaying what was written\<close>

text \<open>A torn write: a proper prefix of a record that may be appended.\<close>

definition torn :: "byte list \<Rightarrow> bool" where
  "torn t \<longleftrightarrow> (\<exists>p k. length p \<le> MAX_PAYLOAD_SIZE \<and> k < length (frame p) \<and> t = take k (frame p))"

definition log_bytes :: "byte list list \<Rightarrow> byte list" where
  "log_bytes ps = MAGIC @ concat (map frame ps)"

lemma length_frame [simp]: "length (frame p) = 4 + length p"
  by (simp add: frame_def)

lemma max_payload_fits: "n \<le> MAX_PAYLOAD_SIZE \<Longrightarrow> n < 2 ^ 32"
  by (simp add: MAX_PAYLOAD_SIZE_def)

lemma torn_Nil [simp]: "torn []"
  by (auto simp: torn_def intro!: exI [of _ "[]"] exI [of _ 0])

lemma replay_frame:
  assumes "length p \<le> MAX_PAYLOAD_SIZE"
  shows "replay_loop parse handler (pre @ frame p @ rest) (length pre) s =
    replay_loop parse handler (pre @ frame p @ rest) (length pre + length (frame p))
      (case parse p of Some r \<Rightarrow> handler r s | None \<Rightarrow> s)"
proof -
  have "readUInt32BE (pre @ frame p @ rest) (length pre) = length p"
    using read_write [OF max_payload_fits [OF assms], of pre "p @ rest"] by (simp add: frame_def)
  moreover have "take (length p) (drop (length pre + 4) (pre @ frame p @ rest)) = p"
    by (simp add: frame_def)
  ultimately show ?thesis
    using assms by (subst replay_loop.simps) (simp add: LENGTH_PREFIX_BYTES_def Let_def ac_simps)
qed

lemma replay_torn:
  assumes "torn t"
  shows "replay_loop parse handler (pre @ t) (length pre) s = (s, length pre, None)"
proof -
  obtain p k where t: "length p \<le> MAX_PAYLOAD_SIZE" "k < 4 + length p" "t = take k (frame p)"
    using assms by (auto simp: torn_def)
  show ?thesis
  proof (cases "k < 4")
    case True
    then show ?thesis
      using t by (subst replay_loop.simps) (simp add: LENGTH_PREFIX_BYTES_def)
  next
    case False
    then have "t = writeUInt32BE (length p) @ take (k - 4) p"
      using t(3) by (simp add: frame_def)
    then have "readUInt32BE (pre @ t) (length pre) = length p" "length t = k"
      using read_write [OF max_payload_fits [OF t(1)], of pre "take (k - 4) p"] t(2) False by simp_all
    then show ?thesis
      using t(1,2) False by (subst replay_loop.simps) (simp add: LENGTH_PREFIX_BYTES_def Let_def)
  qed
qed

lemma replay_records:
  assumes "\<forall>p \<in> set ps. length p \<le> MAX_PAYLOAD_SIZE" "torn t"
  shows "replay_loop parse handler (pre @ concat (map frame ps) @ t) (length pre) s =
    (fold handler (List.map_filter parse ps) s, length (pre @ concat (map frame ps)), None)"
  using assms(1)
proof (induction ps arbitrary: pre s)
  case Nil
  then show ?case
    using replay_torn [OF assms(2)] by simp
next
  case (Cons p ps)
  have "replay_loop parse handler (pre @ concat (map frame (p # ps)) @ t) (length pre) s =
      replay_loop parse handler ((pre @ frame p) @ concat (map frame ps) @ t) (length (pre @ frame p))
        (case parse p of Some r \<Rightarrow> handler r s | None \<Rightarrow> s)"
    using replay_frame [of p parse handler pre "concat (map frame ps) @ t" s] Cons.prems by simp
  also have "\<dots> = (fold handler (List.map_filter parse (p # ps)) s, length (pre @ concat (map frame (p # ps))), None)"
    using Cons.IH [of "pre @ frame p"] Cons.prems by (simp add: map_filter_simps split: option.split)
  finally show ?case .
qed

text \<open>What the loop does on any bytes: it stops behind the last complete record, and cutting the file there changes nothing.\<close>

lemma replay_result:
  assumes "replay_loop parse handler buf off s = (s', off', ov)" "off \<le> length buf"
  shows "off \<le> off' \<and> off' \<le> length buf \<and> (\<forall>o1. ov = Some o1 \<longrightarrow> off \<le> o1 \<and> off' = o1 + 4) \<and>
    (\<forall>keep. keep = nullish ov off' \<longrightarrow> replay_loop parse handler (take keep buf) off s = (s', keep, None))"
  using assms
proof (induction parse handler buf off s arbitrary: s' off' ov rule: replay_loop.induct)
  case (1 parse handler buf off s)
  show ?case
  proof (cases "off + 4 \<le> length buf")
    case False
    then have r: "s' = s" "off' = off" "ov = None"
      using "1.prems" by (simp_all add: replay_loop.simps [of parse handler buf] LENGTH_PREFIX_BYTES_def)
    then show ?thesis
      using "1.prems"(2) by (simp add: replay_loop.simps [of parse handler "take off buf"] LENGTH_PREFIX_BYTES_def)
  next
    case True
    let ?n = "readUInt32BE buf off"
    have short: "replay_loop parse handler (take off buf) off s = (s, off, None)"
      using True by (subst replay_loop.simps) (simp add: LENGTH_PREFIX_BYTES_def)
    consider "?n > MAX_PAYLOAD_SIZE" | "?n \<le> MAX_PAYLOAD_SIZE" "off + 4 + ?n > length buf"
      | "?n \<le> MAX_PAYLOAD_SIZE" "off + 4 + ?n \<le> length buf"
      by linarith
    then show ?thesis
    proof cases
      case 3
      define s1 where "s1 = (case parse (take ?n (drop (off + 4) buf)) of Some r \<Rightarrow> handler r s | None \<Rightarrow> s)"
      have r: "replay_loop parse handler buf (off + 4 + ?n) s1 = (s', off', ov)"
        using "1.prems"(1) 3 True by (simp add: replay_loop.simps [of parse handler buf off] LENGTH_PREFIX_BYTES_def s1_def Let_def)
      note ih = "1.IH" [unfolded LENGTH_PREFIX_BYTES_def, OF True refl refl _ _ refl s1_def, simplified, OF _ r]
      have ih: "off + 4 + ?n \<le> off'" "off' \<le> length buf" "\<forall>o1. ov = Some o1 \<longrightarrow> off + 4 + ?n \<le> o1 \<and> off' = o1 + 4"
        "replay_loop parse handler (take (nullish ov off') buf) (off + 4 + ?n) s1 = (s', nullish ov off', None)"
        using ih 3 by auto
      have k: "off + 4 + ?n \<le> nullish ov off'"
        using ih(1,3) by (cases ov) auto
      have "readUInt32BE (take (nullish ov off') buf) off = ?n"
        using k by (simp add: readUInt32BE_def)
      moreover have "take ?n (drop (off + 4) (take (nullish ov off') buf)) = take ?n (drop (off + 4) buf)"
        using k by (simp add: drop_take min_def)
      moreover have "off + 4 + ?n \<le> length (take (nullish ov off') buf)"
        using k ih(2,3) 3 by (cases ov) auto
      ultimately have "replay_loop parse handler (take (nullish ov off') buf) off s = (s', nullish ov off', None)"
        using ih(4) 3 by (subst replay_loop.simps) (simp add: LENGTH_PREFIX_BYTES_def Let_def s1_def)
      then show ?thesis
        using ih by auto
    qed (use "1.prems" True short in \<open>auto simp: replay_loop.simps [of parse handler buf] LENGTH_PREFIX_BYTES_def Let_def\<close>)
  qed
qed

end
