(* ===== verification/RvfLog.thy ===== *)
theory RvfLog
  imports RvfFormat
begin

text \<open>
  Model of \<open>RvfEventLog\<close> of \<open>shared/src/events/rvf-event-log.ts\<close>. The state holds the two files with the memory of
  the process. JSON is a parameter, \<open>json_codec\<close>: a record's JSON text as UTF-8 bytes, and the parser. What the file
  system does is an argument of the operation: a write may fail after some bytes, a truncation may be denied.
\<close>

section \<open>Data\<close>

datatype aggregate_type = AgentAgg | TaskAgg | MemoryAgg | SwarmAgg

text \<open>The fields the log does not read (source, payload, metadata, causation and correlation) are one value.\<close>

record 'p domain_event =
  de_id :: string
  de_type :: string
  de_aggregateId :: string
  de_aggregateType :: aggregate_type
  de_version :: int
  de_timestamp :: time
  de_body :: 'p

record 'p event_snapshot =
  sn_aggregateId :: string
  sn_aggregateType :: aggregate_type
  sn_version :: int
  sn_state :: 'p
  sn_timestamp :: time

record 'r json_codec =
  jc_stringify :: "'r \<Rightarrow> byte list"
  jc_parse :: "byte list \<Rightarrow> 'r option"

record rvf_config =
  rc_logPath :: string
  rc_snapshotThreshold :: nat
  rc_repairOversizedTail :: bool

datatype rvf_error =
    NullByteInPath | NotInitialized | InvalidAggregateId | InvalidEventType | InvalidFileHeader string
  | ReadOnlyUntilRepaired string string | RecordTooLarge nat | NotJson | IoError

datatype 'p rvf_notice =
    Initialized | Shutdown | EventAppended "'p domain_event" | SnapshotRecommended string int | SnapshotSaved "'p event_snapshot"

record 'p rvf_log =
  rl_files :: "(string, byte list) jsmap"
  rl_initialized :: bool
  rl_readOnlyFiles :: "(string, string) jsmap"
  rl_events :: "'p domain_event list"
  rl_aggregateIndex :: "(string, nat list) jsmap"
  rl_aggregateVersions :: "(string, int) jsmap"
  rl_snapshots :: "(string, 'p event_snapshot) jsmap"
  rl_notices :: "'p rvf_notice list"

type_synonym 'p codecs = "'p domain_event json_codec \<times> 'p event_snapshot json_codec"

datatype truncate_outcome = TDone | TDenied | TFailed

datatype write_outcome = Written | WFailed nat

section \<open>Construction\<close>

definition validatePath :: "string \<Rightarrow> bool" where
  "validatePath p \<longleftrightarrow> CHR 0x00 \<notin> set p"

definition ends_with :: "string \<Rightarrow> string \<Rightarrow> bool" where
  "ends_with suf s \<longleftrightarrow> length suf \<le> length s \<and> drop (length s - length suf) s = suf"

definition snapshotPath :: "rvf_config \<Rightarrow> string" where
  "snapshotPath cfg =
     (let p = rc_logPath cfg;
          replaced = (if ends_with ''.rvf'' p then take (length p - 4) p @ ''.snap.rvf'' else p)
      in if replaced = p then p @ ''.snap.rvf'' else replaced)"

definition new_log :: "(string, byte list) jsmap \<Rightarrow> 'p rvf_log" where
  "new_log files = \<lparr>rl_files = files, rl_initialized = False, rl_readOnlyFiles = [], rl_events = [], rl_aggregateIndex = [],
     rl_aggregateVersions = [], rl_snapshots = [], rl_notices = []\<rparr>"

definition rvf_constructor :: "rvf_config \<Rightarrow> (string, byte list) jsmap \<Rightarrow> rvf_error + 'p rvf_log" where
  "rvf_constructor cfg files = (if validatePath (rc_logPath cfg) then Inr (new_log files) else Inl NullByteInPath)"

section \<open>Private helpers\<close>

definition rl_emit :: "'p rvf_notice \<Rightarrow> 'p rvf_log \<Rightarrow> 'p rvf_log" where
  "rl_emit n s = s\<lparr>rl_notices := rl_notices s @ [n]\<rparr>"

definition indexEvent :: "'p domain_event \<Rightarrow> 'p rvf_log \<Rightarrow> 'p rvf_log" where
  "indexEvent e s =
     (let idx = length (rl_events s);
          indices = nullish (jget (rl_aggregateIndex s) (de_aggregateId e)) [];
          current = nullish (jget (rl_aggregateVersions s) (de_aggregateId e)) 0
      in s\<lparr>rl_events := rl_events s @ [e],
           rl_aggregateIndex := jset (de_aggregateId e) (indices @ [idx]) (rl_aggregateIndex s),
           rl_aggregateVersions := (if de_version e > current then jset (de_aggregateId e) (de_version e) (rl_aggregateVersions s)
                                    else rl_aggregateVersions s)\<rparr>)"

definition loadSnapshot :: "'p event_snapshot \<Rightarrow> 'p rvf_log \<Rightarrow> 'p rvf_log" where
  "loadSnapshot sn s = s\<lparr>rl_snapshots := jset (sn_aggregateId sn) sn (rl_snapshots s)\<rparr>"

definition replayFile ::
  "rvf_config \<Rightarrow> (byte list \<Rightarrow> 'r option) \<Rightarrow> truncate_outcome \<Rightarrow> string \<Rightarrow> ('r \<Rightarrow> 'p rvf_log \<Rightarrow> 'p rvf_log) \<Rightarrow> 'p rvf_log \<Rightarrow>
   (rvf_error + unit) \<times> 'p rvf_log" where
  "replayFile cfg parse tr path handler s =
     (let buf = nullish (jget (rl_files s) path) []
      in if length buf < length MAGIC \<or> take (length MAGIC) buf \<noteq> MAGIC then (Inl (InvalidFileHeader path), s)
         else case replay_loop parse handler buf (length MAGIC) s of (s1, off, oversizedAt) \<Rightarrow>
           if oversizedAt \<noteq> None \<and> \<not> rc_repairOversizedTail cfg
           then (Inr (), s1\<lparr>rl_readOnlyFiles := jset path ''a record length prefix exceeds the safety limit'' (rl_readOnlyFiles s1)\<rparr>)
           else
             let keepUntil = nullish oversizedAt off
             in if keepUntil < length buf
                then case tr of
                       TDone \<Rightarrow> (Inr (), s1\<lparr>rl_files := jset path (take keepUntil buf) (rl_files s1)\<rparr>)
                     | TDenied \<Rightarrow> (Inr (), s1\<lparr>rl_readOnlyFiles :=
                         jset path ''the file is not writable, so its damaged tail could not be repaired'' (rl_readOnlyFiles s1)\<rparr>)
                     | TFailed \<Rightarrow> (Inl IoError, s1)
                else (Inr (), s1))"

definition appendRecord ::
  "'r json_codec \<Rightarrow> write_outcome \<Rightarrow> string \<Rightarrow> 'r \<Rightarrow> 'p rvf_log \<Rightarrow> (rvf_error + 'r) \<times> 'p rvf_log" where
  "appendRecord cd w path record s =
     (case jget (rl_readOnlyFiles s) path of
        Some refused \<Rightarrow> (Inl (ReadOnlyUntilRepaired refused path), s)
      | None \<Rightarrow>
          let json = jc_stringify cd record
          in case jc_parse cd json of
               None \<Rightarrow> (Inl NotJson, s)
             | Some persisted \<Rightarrow>
                 if length json > MAX_PAYLOAD_SIZE then (Inl (RecordTooLarge (length json)), s)
                 else
                   let old = nullish (jget (rl_files s) path) []
                   in case w of
                        Written \<Rightarrow> (Inr persisted, s\<lparr>rl_files := jset path (old @ frame json) (rl_files s)\<rparr>)
                      | WFailed k \<Rightarrow> (Inl IoError, s\<lparr>rl_files := jset path (old @ take k (frame json)) (rl_files s)\<rparr>))"

section \<open>Lifecycle\<close>

text \<open>One of the two files: replayed when it exists, else created with the magic bytes.\<close>

definition open_file ::
  "rvf_config \<Rightarrow> (byte list \<Rightarrow> 'r option) \<Rightarrow> truncate_outcome \<Rightarrow> string \<Rightarrow> ('r \<Rightarrow> 'p rvf_log \<Rightarrow> 'p rvf_log) \<Rightarrow> 'p rvf_log \<Rightarrow>
   (rvf_error + unit) \<times> 'p rvf_log" where
  "open_file cfg parse tr path handler s =
     (if jget (rl_files s) path \<noteq> None then replayFile cfg parse tr path handler s
      else (Inr (), s\<lparr>rl_files := jset path MAGIC (rl_files s)\<rparr>))"

definition rl_initialize ::
  "rvf_config \<Rightarrow> 'p codecs \<Rightarrow> truncate_outcome \<times> truncate_outcome \<Rightarrow> 'p rvf_log \<Rightarrow> (rvf_error + unit) \<times> 'p rvf_log" where
  "rl_initialize cfg cd tr s =
     (if rl_initialized s then (Inr (), s)
      else
        let s0 = s\<lparr>rl_events := [], rl_aggregateIndex := [], rl_aggregateVersions := [], rl_snapshots := []\<rparr>
        in case open_file cfg (jc_parse (fst cd)) (fst tr) (rc_logPath cfg) indexEvent s0 of
             (Inl err, s1) \<Rightarrow> (Inl err, s1)
           | (Inr _, s1) \<Rightarrow>
               (case open_file cfg (jc_parse (snd cd)) (snd tr) (snapshotPath cfg) loadSnapshot s1 of
                  (Inl err, s2) \<Rightarrow> (Inl err, s2)
                | (Inr _, s2) \<Rightarrow> (Inr (), rl_emit Initialized (s2\<lparr>rl_initialized := True\<rparr>))))"

definition rl_close :: "'p rvf_log \<Rightarrow> 'p rvf_log" where
  "rl_close s =
     (if \<not> rl_initialized s then s
      else rl_emit Shutdown
        (s\<lparr>rl_events := [], rl_aggregateIndex := [], rl_aggregateVersions := [], rl_snapshots := [], rl_readOnlyFiles := [],
           rl_initialized := False\<rparr>))"

section \<open>Writing\<close>

definition rl_append ::
  "rvf_config \<Rightarrow> 'p codecs \<Rightarrow> write_outcome \<Rightarrow> 'p domain_event \<Rightarrow> 'p rvf_log \<Rightarrow> (rvf_error + unit) \<times> 'p rvf_log" where
  "rl_append cfg cd w e s =
     (if \<not> rl_initialized s then (Inl NotInitialized, s)
      else if de_aggregateId e = [] then (Inl InvalidAggregateId, s)
      else if de_type e = [] then (Inl InvalidEventType, s)
      else
        let nextVersion = nullish (jget (rl_aggregateVersions s) (de_aggregateId e)) 0 + 1;
            e1 = e\<lparr>de_version := nextVersion\<rparr>
        in case appendRecord (fst cd) w (rc_logPath cfg) e1 s of
             (Inl err, s1) \<Rightarrow> (Inl err, s1)
           | (Inr persisted, s1) \<Rightarrow>
               let s2 = rl_emit (EventAppended persisted) (indexEvent persisted s1)
               in (Inr (), if rc_snapshotThreshold cfg \<noteq> 0 \<and> nextVersion mod int (rc_snapshotThreshold cfg) = 0
                           then rl_emit (SnapshotRecommended (de_aggregateId e) nextVersion) s2 else s2))"

definition saveSnapshot ::
  "rvf_config \<Rightarrow> 'p codecs \<Rightarrow> write_outcome \<Rightarrow> 'p event_snapshot \<Rightarrow> 'p rvf_log \<Rightarrow> (rvf_error + unit) \<times> 'p rvf_log" where
  "saveSnapshot cfg cd w sn s =
     (if \<not> rl_initialized s then (Inl NotInitialized, s)
      else case appendRecord (snd cd) w (snapshotPath cfg) sn s of
             (Inl err, s1) \<Rightarrow> (Inl err, s1)
           | (Inr persisted, s1) \<Rightarrow> (Inr (), rl_emit (SnapshotSaved persisted) (loadSnapshot persisted s1)))"

section \<open>Reading\<close>

definition getEvents :: "string \<Rightarrow> int option \<Rightarrow> 'p rvf_log \<Rightarrow> rvf_error + 'p domain_event list" where
  "getEvents aggregateId fromVersion s =
     (if \<not> rl_initialized s then Inl NotInitialized
      else case jget (rl_aggregateIndex s) aggregateId of
             None \<Rightarrow> Inr []
           | Some indices \<Rightarrow>
               if indices = [] then Inr []
               else Inr (sort_key de_version (opt_filter fromVersion (\<lambda>v e. de_version e \<ge> v) (map (\<lambda>i. rl_events s ! i) indices))))"

record log_filter =
  lf_aggregateIds :: "string list option"
  lf_aggregateTypes :: "aggregate_type list option"
  lf_eventTypes :: "string list option"
  lf_afterTimestamp :: "time option"
  lf_beforeTimestamp :: "time option"
  lf_fromVersion :: "int option"
  lf_limit :: "int option"
  lf_offset :: "int option"

text \<open>A list filter that is absent or empty does not restrict.\<close>

definition some_of :: "'a list option \<Rightarrow> 'a list option" where
  "some_of xs = (if nullish xs [] = [] then None else xs)"

definition getAllEvents :: "log_filter option \<Rightarrow> 'p rvf_log \<Rightarrow> rvf_error + 'p domain_event list" where
  "getAllEvents filt s =
     (if \<not> rl_initialized s then Inl NotInitialized
      else case filt of
             None \<Rightarrow> Inr (sort_key de_timestamp (rl_events s))
           | Some f \<Rightarrow>
               let r1 = opt_filter (some_of (lf_aggregateIds f)) (\<lambda>xs e. de_aggregateId e \<in> set xs) (rl_events s);
                   r2 = opt_filter (some_of (lf_aggregateTypes f)) (\<lambda>xs e. de_aggregateType e \<in> set xs) r1;
                   r3 = opt_filter (some_of (lf_eventTypes f)) (\<lambda>xs e. de_type e \<in> set xs) r2;
                   r4 = opt_filter (lf_afterTimestamp f) (\<lambda>t e. de_timestamp e > t) r3;
                   r5 = opt_filter (lf_beforeTimestamp f) (\<lambda>t e. de_timestamp e < t) r4;
                   r6 = opt_filter (lf_fromVersion f) (\<lambda>v e. de_version e \<ge> v) r5;
                   r7 = sort_key de_timestamp r6;
                   r8 = (if nullish (lf_offset f) 0 \<noteq> 0 then slice_from (nullish (lf_offset f) 0) r7 else r7)
               in Inr (case lf_limit f of None \<Rightarrow> r8 | Some n \<Rightarrow> slice_to n r8))"

definition getSnapshot :: "string \<Rightarrow> 'p rvf_log \<Rightarrow> rvf_error + 'p event_snapshot option" where
  "getSnapshot aggregateId s = (if \<not> rl_initialized s then Inl NotInitialized else Inr (jget (rl_snapshots s) aggregateId))"

record event_store_stats =
  es_totalEvents :: nat
  es_eventsByType :: "(string, nat) jsmap"
  es_eventsByAggregate :: "(string, nat) jsmap"
  es_oldestEvent :: "time option"
  es_newestEvent :: "time option"
  es_snapshotCount :: nat

definition earlier :: "'p domain_event \<Rightarrow> time option \<Rightarrow> time option" where
  "earlier e old = (case old of None \<Rightarrow> Some (de_timestamp e) | Some t \<Rightarrow> if de_timestamp e < t then Some (de_timestamp e) else Some t)"

definition later :: "'p domain_event \<Rightarrow> time option \<Rightarrow> time option" where
  "later e new = (case new of None \<Rightarrow> Some (de_timestamp e) | Some t \<Rightarrow> if de_timestamp e > t then Some (de_timestamp e) else Some t)"

definition rl_getStats :: "'p rvf_log \<Rightarrow> rvf_error + event_store_stats" where
  "rl_getStats s =
     (if \<not> rl_initialized s then Inl NotInitialized
      else Inr \<lparr>es_totalEvents = length (rl_events s),
        es_eventsByType = fold (\<lambda>e. tally (de_type e)) (rl_events s) [],
        es_eventsByAggregate = fold (\<lambda>e. tally (de_aggregateId e)) (rl_events s) [],
        es_oldestEvent = fold earlier (rl_events s) None, es_newestEvent = fold later (rl_events s) None,
        es_snapshotCount = length (rl_snapshots s)\<rparr>)"

section \<open>The indexes\<close>

definition of_aggregate :: "string \<Rightarrow> 'p domain_event list \<Rightarrow> 'p domain_event list" where
  "of_aggregate i es = filter (\<lambda>e. de_aggregateId e = i) es"

text \<open>The indexes describe the events.\<close>

definition index_inv :: "'p rvf_log \<Rightarrow> bool" where
  "index_inv s \<longleftrightarrow>
     (\<forall>i. nullish (jget (rl_aggregateIndex s) i) [] = filter (\<lambda>k. de_aggregateId (rl_events s ! k) = i) [0..<length (rl_events s)]) \<and>
     (\<forall>i. nullish (jget (rl_aggregateVersions s) i) 0 = fold max (map de_version (of_aggregate i (rl_events s))) 0)"

text \<open>The versions of an aggregate count its events.\<close>

definition versions_ok :: "'p domain_event list \<Rightarrow> bool" where
  "versions_ok es \<longleftrightarrow> (\<forall>i. map de_version (of_aggregate i es) = map int [1..<Suc (length (of_aggregate i es))])"

lemma indexEvent_fields [simp]:
  "rl_files (indexEvent e s) = rl_files s" "rl_readOnlyFiles (indexEvent e s) = rl_readOnlyFiles s"
  "rl_events (indexEvent e s) = rl_events s @ [e]" "rl_snapshots (indexEvent e s) = rl_snapshots s"
  "rl_initialized (indexEvent e s) = rl_initialized s"
  by (simp_all add: indexEvent_def Let_def)

lemma loadSnapshot_fields [simp]:
  "rl_files (loadSnapshot sn s) = rl_files s" "rl_readOnlyFiles (loadSnapshot sn s) = rl_readOnlyFiles s"
  "rl_events (loadSnapshot sn s) = rl_events s" "rl_initialized (loadSnapshot sn s) = rl_initialized s"
  "rl_snapshots (loadSnapshot sn s) = jset (sn_aggregateId sn) sn (rl_snapshots s)"
  "index_inv (loadSnapshot sn s) = index_inv s"
  by (simp_all add: loadSnapshot_def index_inv_def)

lemma of_aggregate_simps [simp]:
  "of_aggregate i [] = []" "of_aggregate i (es @ es') = of_aggregate i es @ of_aggregate i es'"
  "of_aggregate i [e] = (if de_aggregateId e = i then [e] else [])"
  by (simp_all add: of_aggregate_def)

lemma indexEvent_inv:
  assumes "index_inv s"
  shows "index_inv (indexEvent e s)"
proof -
  have "filter (\<lambda>k. de_aggregateId ((rl_events s @ [e]) ! k) = i) [0..<length (rl_events s)] =
      filter (\<lambda>k. de_aggregateId (rl_events s ! k) = i) [0..<length (rl_events s)]" for i
    by (rule filter_cong) (auto simp: nth_append)
  then show ?thesis
    using assms by (auto simp: index_inv_def indexEvent_def Let_def max_def)
qed

lemma fold_indexEvent:
  "rl_files (fold indexEvent es s) = rl_files s" "rl_readOnlyFiles (fold indexEvent es s) = rl_readOnlyFiles s"
  "rl_events (fold indexEvent es s) = rl_events s @ es" "rl_snapshots (fold indexEvent es s) = rl_snapshots s"
  "rl_initialized (fold indexEvent es s) = rl_initialized s" "index_inv s \<Longrightarrow> index_inv (fold indexEvent es s)"
  by (induction es arbitrary: s) (simp_all add: indexEvent_inv)

lemma fold_loadSnapshot:
  "rl_files (fold loadSnapshot es s) = rl_files s" "rl_readOnlyFiles (fold loadSnapshot es s) = rl_readOnlyFiles s"
  "rl_events (fold loadSnapshot es s) = rl_events s" "rl_initialized (fold loadSnapshot es s) = rl_initialized s"
  "rl_snapshots (fold loadSnapshot es s) = fold (\<lambda>sn. jset (sn_aggregateId sn) sn) es (rl_snapshots s)"
  "index_inv (fold loadSnapshot es s) = index_inv s"
  by (induction es arbitrary: s) simp_all

lemma fold_max_upt: "fold max (map int [1..<Suc n]) 0 = int n"
  by (induction n) simp_all

lemma index_version:
  assumes "index_inv s" "versions_ok (rl_events s)"
  shows "nullish (jget (rl_aggregateVersions s) i) 0 = int (length (of_aggregate i (rl_events s)))"
  using assms unfolding index_inv_def versions_ok_def by (simp only: fold_max_upt)

lemma versions_ok_snoc:
  assumes "versions_ok es" "de_version e = int (length (of_aggregate (de_aggregateId e) es)) + 1"
  shows "versions_ok (es @ [e])"
  using assms by (auto simp: versions_ok_def)

lemma nth_filter_upt: "map (\<lambda>k. xs ! k) (filter (\<lambda>k. P (xs ! k)) [0..<length xs]) = filter P xs"
proof (induction xs rule: rev_induct)
  case (snoc x xs)
  have "filter (\<lambda>k. P ((xs @ [x]) ! k)) [0..<length xs] = filter (\<lambda>k. P (xs ! k)) [0..<length xs]"
    by (rule filter_cong) (auto simp: nth_append)
  moreover have "map (\<lambda>k. (xs @ [x]) ! k) (filter (\<lambda>k. P (xs ! k)) [0..<length xs]) =
      map (\<lambda>k. xs ! k) (filter (\<lambda>k. P (xs ! k)) [0..<length xs])"
    by (rule map_cong) (auto simp: nth_append)
  ultimately show ?case
    using snoc by simp
qed simp

text \<open>\<open>getEvents\<close> gives the events of the aggregate in their order.\<close>

lemma getEvents_spec:
  assumes "rl_initialized s" "index_inv s" "versions_ok (rl_events s)"
  shows "getEvents i None s = Inr (of_aggregate i (rl_events s))"
proof -
  have idx: "map ((!) (rl_events s)) (nullish (jget (rl_aggregateIndex s) i) []) = of_aggregate i (rl_events s)"
    using assms(2) nth_filter_upt [of "rl_events s" "\<lambda>e. de_aggregateId e = i"] by (simp add: index_inv_def of_aggregate_def)
  have "sorted (map de_version (of_aggregate i (rl_events s)))"
    using assms(3) by (simp add: versions_ok_def sorted_map sorted_wrt_upt del: upt_Suc)
  then have "sort_key de_version (of_aggregate i (rl_events s)) = of_aggregate i (rl_events s)"
    by (rule sort_key_id_if_sorted)
  then show ?thesis
    using assms(1) idx by (cases "jget (rl_aggregateIndex s) i") (auto simp: getEvents_def opt_filter_def)
qed

section \<open>The files\<close>

text \<open>
  A file holds records: it is what appending them wrote, with at most a torn write behind them. A missing file
  holds none. An intact file exists and has no torn write.
\<close>

definition holds :: "(byte list \<Rightarrow> 'r option) \<Rightarrow> bool \<Rightarrow> byte list option \<Rightarrow> 'r list \<Rightarrow> bool" where
  "holds parse intact fo rs \<longleftrightarrow>
     (case fo of
        None \<Rightarrow> rs = [] \<and> \<not> intact
      | Some b \<Rightarrow> \<exists>ps t. b = log_bytes ps @ t \<and> (\<forall>p \<in> set ps. length p \<le> MAX_PAYLOAD_SIZE) \<and> torn t \<and>
          (intact \<longrightarrow> t = []) \<and> map parse ps = map Some rs)"

lemma map_filter_Some: "map parse ps = map Some rs \<Longrightarrow> List.map_filter parse ps = rs"
  by (induction ps arbitrary: rs) (auto simp: map_filter_simps Cons_eq_map_conv)

lemma holds_weaken: "holds parse True fo rs \<Longrightarrow> holds parse False fo rs"
  unfolding holds_def by (cases fo) (simp, simp only: option.case, blast)

lemma holds_MAGIC: "holds parse intact (Some MAGIC) []"
  by (auto simp: holds_def log_bytes_def intro!: exI [of _ "[]"])

lemma jset_same: "jget m k = Some v \<Longrightarrow> jset k v m = m"
  by (induction k v m rule: jset.induct) (auto split: if_splits)

text \<open>A whole write adds the record, a partial one leaves a torn tail.\<close>

lemma holds_append:
  assumes "holds parse True (Some b) rs" "length json \<le> MAX_PAYLOAD_SIZE" "parse json = Some r"
  shows "holds parse True (Some (b @ frame json)) (rs @ [r])"
proof -
  obtain ps where ps: "b = log_bytes ps" "\<forall>p \<in> set ps. length p \<le> MAX_PAYLOAD_SIZE" "map parse ps = map Some rs"
    using assms(1) by (auto simp: holds_def)
  have "b @ frame json = log_bytes (ps @ [json])" "map parse (ps @ [json]) = map Some (rs @ [r])"
    "\<forall>p \<in> set (ps @ [json]). length p \<le> MAX_PAYLOAD_SIZE"
    using ps assms by (simp_all add: log_bytes_def)
  then show ?thesis
    unfolding holds_def option.case by (intro exI [of _ "ps @ [json]"] exI [of _ "[]"]) auto
qed

lemma holds_partial:
  assumes "holds parse True (Some b) rs" "length json \<le> MAX_PAYLOAD_SIZE" "parse json = Some r"
  shows "holds parse False (Some (b @ take k (frame json))) (if k \<ge> length (frame json) then rs @ [r] else rs)"
proof (cases "k \<ge> length (frame json)")
  case True
  then show ?thesis
    using holds_weaken [OF holds_append [where r = r, OF assms]] by simp
next
  case False
  then have "torn (take k (frame json))"
    using assms(2) unfolding torn_def by (intro exI [of _ json] exI [of _ k]) auto
  then show ?thesis
    using assms(1) False by (auto simp: holds_def)
qed

text \<open>Opening a file that holds records replays exactly these and leaves the file intact.\<close>

lemma open_file_holds:
  assumes "holds parse False (jget (rl_files s) path) rs" "\<And>r s. rl_files (handler r s) = rl_files s"
  shows "\<exists>b. open_file cfg parse TDone path handler s = (Inr (), (fold handler rs s)\<lparr>rl_files := jset path b (rl_files s)\<rparr>) \<and>
    holds parse True (Some b) rs"
proof (cases "jget (rl_files s) path")
  case None
  then show ?thesis
    using assms(1) holds_MAGIC [of parse True] by (auto simp: open_file_def holds_def)
next
  case (Some b)
  obtain ps t where b: "b = log_bytes ps @ t" "\<forall>p \<in> set ps. length p \<le> MAX_PAYLOAD_SIZE" "torn t" "map parse ps = map Some rs"
    using assms(1) Some by (auto simp: holds_def)
  have files: "rl_files (fold handler rs' s) = rl_files s" for rs'
    using assms(2) by (induction rs' arbitrary: s) simp_all
  have loop: "replay_loop parse handler b (length MAGIC) s = (fold handler rs s, length (log_bytes ps), None)"
    using replay_records [OF b(2,3), of parse handler MAGIC s] map_filter_Some [OF b(4)] b(1) by (simp add: log_bytes_def)
  have magic: "\<not> length b < length MAGIC" "take (length MAGIC) b = MAGIC"
    using b(1) by (simp_all add: log_bytes_def)
  have "holds parse True (Some (log_bytes ps)) rs"
    using b(2,4) by (auto simp: holds_def)
  moreover have "open_file cfg parse TDone path handler s =
      (Inr (), (fold handler rs s)\<lparr>rl_files := jset path (log_bytes ps) (rl_files s)\<rparr>)"
  proof (cases "t = []")
    case True
    then have "jset path (log_bytes ps) (rl_files s) = rl_files s"
      using Some b(1) by (simp add: jset_same)
    then show ?thesis
      using True Some magic loop b(1) files [of rs] by (simp add: open_file_def replayFile_def Let_def)
  next
    case False
    then show ?thesis
      using Some magic loop b(1) files by (simp add: open_file_def replayFile_def Let_def)
  qed
  ultimately show ?thesis
    by blast
qed

lemma snapshotPath_other: "snapshotPath cfg \<noteq> rc_logPath cfg"
  by (simp add: snapshotPath_def Let_def)

section \<open>The abstract log\<close>

text \<open>
  The abstract log: a durable list of events whose versions count per aggregate, a durable list of snapshots, and
  whether the log is open.
\<close>

record 'p log_spec =
  ls_events :: "'p domain_event list"
  ls_snapshots :: "'p event_snapshot list"
  ls_up :: bool

definition spec_new :: "'p log_spec" where
  "spec_new = \<lparr>ls_events = [], ls_snapshots = [], ls_up = False\<rparr>"

text \<open>The record that is stored, when the write is accepted.\<close>

definition accepted :: "'r json_codec \<Rightarrow> 'r \<Rightarrow> 'r option" where
  "accepted cd r = (if length (jc_stringify cd r) \<le> MAX_PAYLOAD_SIZE then jc_parse cd (jc_stringify cd r) else None)"

definition next_event :: "'p domain_event \<Rightarrow> 'p domain_event list \<Rightarrow> 'p domain_event" where
  "next_event e es = e\<lparr>de_version := int (length (of_aggregate (de_aggregateId e) es)) + 1\<rparr>"

definition spec_append :: "'p codecs \<Rightarrow> 'p domain_event \<Rightarrow> 'p log_spec \<Rightarrow> 'p log_spec" where
  "spec_append cd e a =
     (if ls_up a \<and> de_aggregateId e \<noteq> [] \<and> de_type e \<noteq> []
      then case accepted (fst cd) (next_event e (ls_events a)) of
             Some p \<Rightarrow> a\<lparr>ls_events := ls_events a @ [p]\<rparr>
           | None \<Rightarrow> a
      else a)"

definition spec_save :: "'p codecs \<Rightarrow> 'p event_snapshot \<Rightarrow> 'p log_spec \<Rightarrow> 'p log_spec" where
  "spec_save cd sn a =
     (case accepted (snd cd) sn of
        Some p \<Rightarrow> if ls_up a then a\<lparr>ls_snapshots := ls_snapshots a @ [p]\<rparr> else a
      | None \<Rightarrow> a)"

text \<open>
  Operations, with a crash of the process: idle, or inside a write of which the first \<open>k\<close> bytes reached the file. A new
  process starts from the files.
\<close>

datatype 'p log_op =
    LOpen | LClose | LAppend "'p domain_event" | LSave "'p event_snapshot"
  | LCrash | LCrashAppend "'p domain_event" nat | LCrashSave "'p event_snapshot" nat

definition restart :: "'p rvf_log \<Rightarrow> 'p rvf_log" where
  "restart s = new_log (rl_files s)"

fun log_step :: "rvf_config \<Rightarrow> 'p codecs \<Rightarrow> 'p log_op \<Rightarrow> 'p rvf_log \<Rightarrow> 'p rvf_log" where
  "log_step cfg cd LOpen s = snd (rl_initialize cfg cd (TDone, TDone) s)"
| "log_step cfg cd LClose s = rl_close s"
| "log_step cfg cd (LAppend e) s = snd (rl_append cfg cd Written e s)"
| "log_step cfg cd (LSave sn) s = snd (saveSnapshot cfg cd Written sn s)"
| "log_step cfg cd LCrash s = restart s"
| "log_step cfg cd (LCrashAppend e k) s = restart (snd (rl_append cfg cd (WFailed k) e s))"
| "log_step cfg cd (LCrashSave sn k) s = restart (snd (saveSnapshot cfg cd (WFailed k) sn s))"

text \<open>A crash loses nothing that was acknowledged; the record being written is stored when all its bytes were written.\<close>

fun spec_step :: "'p codecs \<Rightarrow> 'p log_op \<Rightarrow> 'p log_spec \<Rightarrow> 'p log_spec" where
  "spec_step cd LOpen a = a\<lparr>ls_up := True\<rparr>"
| "spec_step cd LClose a = a\<lparr>ls_up := False\<rparr>"
| "spec_step cd (LAppend e) a = spec_append cd e a"
| "spec_step cd (LSave sn) a = spec_save cd sn a"
| "spec_step cd LCrash a = a\<lparr>ls_up := False\<rparr>"
| "spec_step cd (LCrashAppend e k) a =
     (if k \<ge> 4 + length (jc_stringify (fst cd) (next_event e (ls_events a))) then spec_append cd e a else a)\<lparr>ls_up := False\<rparr>"
| "spec_step cd (LCrashSave sn k) a =
     (if k \<ge> 4 + length (jc_stringify (snd cd) sn) then spec_save cd sn a else a)\<lparr>ls_up := False\<rparr>"

definition latest :: "'p event_snapshot list \<Rightarrow> (string, 'p event_snapshot) jsmap" where
  "latest sns = fold (\<lambda>sn. jset (sn_aggregateId sn) sn) sns []"

text \<open>JSON keeps strings and integers, here the aggregate and the version of an event.\<close>

definition json_keeps :: "'p domain_event json_codec \<Rightarrow> bool" where
  "json_keeps cd \<longleftrightarrow> (\<forall>e p. jc_parse cd (jc_stringify cd e) = Some p \<longrightarrow>
     de_aggregateId p = de_aggregateId e \<and> de_version p = de_version e)"

definition log_sim :: "rvf_config \<Rightarrow> 'p codecs \<Rightarrow> 'p rvf_log \<Rightarrow> 'p log_spec \<Rightarrow> bool" where
  "log_sim cfg cd s a \<longleftrightarrow> rl_readOnlyFiles s = [] \<and> rl_initialized s = ls_up a \<and> versions_ok (ls_events a) \<and>
     holds (jc_parse (fst cd)) (ls_up a) (jget (rl_files s) (rc_logPath cfg)) (ls_events a) \<and>
     holds (jc_parse (snd cd)) (ls_up a) (jget (rl_files s) (snapshotPath cfg)) (ls_snapshots a) \<and>
     (ls_up a \<longrightarrow> rl_events s = ls_events a \<and> index_inv s \<and> rl_snapshots s = latest (ls_snapshots a))"

lemma sim_restart:
  assumes "rl_readOnlyFiles s = []" "versions_ok (ls_events a)"
    "holds (jc_parse (fst cd)) False (jget (rl_files s) (rc_logPath cfg)) (ls_events a)"
    "holds (jc_parse (snd cd)) False (jget (rl_files s) (snapshotPath cfg)) (ls_snapshots a)"
  shows "log_sim cfg cd (restart s) (a\<lparr>ls_up := False\<rparr>)"
  using assms by (simp add: log_sim_def restart_def new_log_def)

lemma sim_holds:
  assumes "log_sim cfg cd s a"
  shows "holds (jc_parse (fst cd)) False (jget (rl_files s) (rc_logPath cfg)) (ls_events a)"
    "holds (jc_parse (snd cd)) False (jget (rl_files s) (snapshotPath cfg)) (ls_snapshots a)"
  using assms holds_weaken [of "jc_parse (fst cd)" "jget (rl_files s) (rc_logPath cfg)"]
    holds_weaken [of "jc_parse (snd cd)" "jget (rl_files s) (snapshotPath cfg)"]
  by (cases "ls_up a"; simp add: log_sim_def)+

text \<open>Opening rebuilds the memory from the files.\<close>

lemma initialize_holds:
  fixes s :: "'p rvf_log"
  assumes "\<not> rl_initialized s" "rl_readOnlyFiles s = []"
    "holds (jc_parse (fst cd)) False (jget (rl_files s) (rc_logPath cfg)) es"
    "holds (jc_parse (snd cd)) False (jget (rl_files s) (snapshotPath cfg)) sns"
  shows "\<exists>s'. rl_initialize cfg cd (TDone, TDone) s = (Inr (), s') \<and> rl_readOnlyFiles s' = [] \<and> rl_initialized s' \<and>
    holds (jc_parse (fst cd)) True (jget (rl_files s') (rc_logPath cfg)) es \<and>
    holds (jc_parse (snd cd)) True (jget (rl_files s') (snapshotPath cfg)) sns \<and>
    rl_events s' = es \<and> index_inv s' \<and> rl_snapshots s' = latest sns"
proof -
  define s0 where "s0 = s\<lparr>rl_events := [], rl_aggregateIndex := [], rl_aggregateVersions := [], rl_snapshots := []\<rparr>"
  have "holds (jc_parse (fst cd)) False (jget (rl_files s0) (rc_logPath cfg)) es"
    using assms(3) by (simp add: s0_def)
  from open_file_holds [OF this, where handler = indexEvent and cfg = cfg] obtain b1 where
    1: "open_file cfg (jc_parse (fst cd)) TDone (rc_logPath cfg) indexEvent s0 =
          (Inr (), (fold indexEvent es s0)\<lparr>rl_files := jset (rc_logPath cfg) b1 (rl_files s0)\<rparr>)"
      "holds (jc_parse (fst cd)) True (Some b1) es"
    by auto
  define s1 where "s1 = (fold indexEvent es s0)\<lparr>rl_files := jset (rc_logPath cfg) b1 (rl_files s0)\<rparr>"
  have "holds (jc_parse (snd cd)) False (jget (rl_files s1) (snapshotPath cfg)) sns"
    using assms(4) snapshotPath_other [of cfg] by (simp add: s1_def s0_def)
  from open_file_holds [OF this, where handler = loadSnapshot and cfg = cfg] obtain b2 where
    2: "open_file cfg (jc_parse (snd cd)) TDone (snapshotPath cfg) loadSnapshot s1 =
          (Inr (), (fold loadSnapshot sns s1)\<lparr>rl_files := jset (snapshotPath cfg) b2 (rl_files s1)\<rparr>)"
      "holds (jc_parse (snd cd)) True (Some b2) sns"
    by auto
  define s2 where "s2 = (fold loadSnapshot sns s1)\<lparr>rl_files := jset (snapshotPath cfg) b2 (rl_files s1)\<rparr>"
  have "index_inv s0"
    by (simp add: s0_def index_inv_def)
  then have "index_inv (fold indexEvent es s0)"
    by (rule fold_indexEvent)
  then have "index_inv s1"
    by (simp add: s1_def index_inv_def)
  then have "index_inv (fold loadSnapshot sns s1)"
    by (simp add: fold_loadSnapshot)
  then have "index_inv (rl_emit Initialized (s2\<lparr>rl_initialized := True\<rparr>))"
    by (simp add: s2_def rl_emit_def index_inv_def)
  moreover have "rl_initialize cfg cd (TDone, TDone) s = (Inr (), rl_emit Initialized (s2\<lparr>rl_initialized := True\<rparr>))"
    using assms(1) 1(1) 2(1) by (simp add: rl_initialize_def s0_def [symmetric] s1_def [symmetric] s2_def [symmetric])
  ultimately show ?thesis
    using 1(2) 2(2) assms(2) snapshotPath_other [of cfg]
    by (simp add: s2_def s1_def s0_def rl_emit_def fold_indexEvent fold_loadSnapshot latest_def)
qed

text \<open>A record write against an open log.\<close>

lemma appendRecord_accepted:
  assumes "rl_readOnlyFiles s = []"
  shows "appendRecord cd w path r s =
    (case accepted cd r of
       None \<Rightarrow> (Inl (if jc_parse cd (jc_stringify cd r) = None then NotJson else RecordTooLarge (length (jc_stringify cd r))), s)
     | Some p \<Rightarrow> (case w of
         Written \<Rightarrow> (Inr p, s\<lparr>rl_files := jset path (nullish (jget (rl_files s) path) [] @ frame (jc_stringify cd r)) (rl_files s)\<rparr>)
       | WFailed k \<Rightarrow> (Inl IoError, s\<lparr>rl_files := jset path (nullish (jget (rl_files s) path) [] @ take k (frame (jc_stringify cd r))) (rl_files s)\<rparr>)))"
  using assms by (auto simp: appendRecord_def accepted_def Let_def split: option.splits write_outcome.splits)

lemma rl_emit_fields [simp]:
  "rl_files (rl_emit n s) = rl_files s" "rl_readOnlyFiles (rl_emit n s) = rl_readOnlyFiles s" "rl_events (rl_emit n s) = rl_events s"
  "rl_snapshots (rl_emit n s) = rl_snapshots s" "rl_initialized (rl_emit n s) = rl_initialized s"
  "index_inv (rl_emit n s) = index_inv s"
  by (simp_all add: rl_emit_def index_inv_def)

lemma accepted_Some: "accepted cd r = Some p \<longleftrightarrow> length (jc_stringify cd r) \<le> MAX_PAYLOAD_SIZE \<and> jc_parse cd (jc_stringify cd r) = Some p"
  by (simp add: accepted_def)

lemma next_event_versions:
  assumes "json_keeps cd" "versions_ok es" "accepted cd (next_event e es) = Some p"
  shows "versions_ok (es @ [p])"
proof (rule versions_ok_snoc [OF assms(2)])
  have "de_aggregateId p = de_aggregateId (next_event e es) \<and> de_version p = de_version (next_event e es)"
    using assms(1,3) by (simp add: json_keeps_def accepted_Some)
  then show "de_version p = int (length (of_aggregate (de_aggregateId p) es)) + 1"
    by (simp add: next_event_def)
qed

lemma holds_exists: "holds parse True fo rs \<Longrightarrow> \<exists>b. fo = Some b"
  by (cases fo) (auto simp: holds_def)

lemma sim_append:
  assumes "log_sim cfg cd s a" "json_keeps (fst cd)" "ls_up a" "de_aggregateId e \<noteq> []" "de_type e \<noteq> []"
    "accepted (fst cd) (next_event e (ls_events a)) = Some p"
  shows "log_sim cfg cd (snd (rl_append cfg cd Written e s)) (a\<lparr>ls_events := ls_events a @ [p]\<rparr>)"
    "log_sim cfg cd (restart (snd (rl_append cfg cd (WFailed k) e s)))
      ((if k \<ge> 4 + length (jc_stringify (fst cd) (next_event e (ls_events a))) then a\<lparr>ls_events := ls_events a @ [p]\<rparr> else a)\<lparr>ls_up := False\<rparr>)"
proof -
  let ?json = "jc_stringify (fst cd) (next_event e (ls_events a))"
  have s: "rl_readOnlyFiles s = []" "rl_initialized s" "versions_ok (ls_events a)" "rl_events s = ls_events a" "index_inv s"
      "rl_snapshots s = latest (ls_snapshots a)" "holds (jc_parse (snd cd)) True (jget (rl_files s) (snapshotPath cfg)) (ls_snapshots a)"
    using assms(1,3) by (auto simp: log_sim_def)
  obtain b where b: "jget (rl_files s) (rc_logPath cfg) = Some b" "holds (jc_parse (fst cd)) True (Some b) (ls_events a)"
    using assms(1,3) holds_exists unfolding log_sim_def by metis
  have p: "length ?json \<le> MAX_PAYLOAD_SIZE" "jc_parse (fst cd) ?json = Some p"
    using assms(6) by (simp_all add: accepted_Some)
  have e1: "e\<lparr>de_version := nullish (jget (rl_aggregateVersions s) (de_aggregateId e)) 0 + 1\<rparr> = next_event e (ls_events a)"
    using index_version [OF s(5)] s(3,4) by (simp add: next_event_def)
  note v = next_event_versions [OF assms(2) s(3) assms(6)]
  have r: "rl_append cfg cd w e s = (case appendRecord (fst cd) w (rc_logPath cfg) (next_event e (ls_events a)) s of
      (Inl err, s1) \<Rightarrow> (Inl err, s1)
    | (Inr persisted, s1) \<Rightarrow>
        let s2 = rl_emit (EventAppended persisted) (indexEvent persisted s1)
        in (Inr (), if rc_snapshotThreshold cfg \<noteq> 0 \<and> de_version (next_event e (ls_events a)) mod int (rc_snapshotThreshold cfg) = 0
                    then rl_emit (SnapshotRecommended (de_aggregateId e) (de_version (next_event e (ls_events a)))) s2 else s2))" for w
    unfolding e1 [symmetric] using s(2) assms(4,5) by (auto simp: rl_append_def Let_def split: prod.splits sum.splits)
  have "index_inv (s\<lparr>rl_files := f\<rparr>)" for f
    using s(5) by (simp add: index_inv_def)
  then show "log_sim cfg cd (snd (rl_append cfg cd Written e s)) (a\<lparr>ls_events := ls_events a @ [p]\<rparr>)"
    unfolding r appendRecord_accepted [OF s(1)] assms(6)
    using s b holds_append [OF b(2) p] assms(3) v snapshotPath_other [of cfg]
    by (simp add: log_sim_def indexEvent_inv Let_def)
  have "holds (jc_parse (fst cd)) False (Some (b @ take k (frame ?json)))
      (ls_events (if k \<ge> 4 + length ?json then a\<lparr>ls_events := ls_events a @ [p]\<rparr> else a))"
    using holds_partial [OF b(2) p, of k] by (simp split: if_splits)
  then show "log_sim cfg cd (restart (snd (rl_append cfg cd (WFailed k) e s)))
      ((if k \<ge> 4 + length ?json then a\<lparr>ls_events := ls_events a @ [p]\<rparr> else a)\<lparr>ls_up := False\<rparr>)"
    unfolding r appendRecord_accepted [OF s(1)] assms(6)
    using s b v snapshotPath_other [of cfg] holds_weaken [OF s(7)] by (intro sim_restart) simp_all
qed

text \<open>A write that is refused changes nothing.\<close>

lemma append_refused:
  assumes "log_sim cfg cd s a" "\<not> (ls_up a \<and> de_aggregateId e \<noteq> [] \<and> de_type e \<noteq> [] \<and> accepted (fst cd) (next_event e (ls_events a)) \<noteq> None)"
  shows "snd (rl_append cfg cd w e s) = s"
proof (cases "ls_up a")
  case True
  then have s: "rl_readOnlyFiles s = []" "versions_ok (rl_events s)" "rl_events s = ls_events a" "index_inv s"
    using assms(1) by (auto simp: log_sim_def)
  have e1: "e\<lparr>de_version := nullish (jget (rl_aggregateVersions s) (de_aggregateId e)) 0 + 1\<rparr> = next_event e (ls_events a)"
    using index_version [OF s(4,2)] s(3) by (simp add: next_event_def)
  show ?thesis
    using assms(2) True by (auto simp: rl_append_def Let_def e1 appendRecord_accepted [OF s(1)])
next
  case False
  then show ?thesis
    using assms(1) by (simp add: rl_append_def log_sim_def)
qed

lemma save_cases:
  assumes "log_sim cfg cd s a"
  shows "log_sim cfg cd (snd (saveSnapshot cfg cd Written sn s)) (spec_save cd sn a)"
    "log_sim cfg cd (restart (snd (saveSnapshot cfg cd (WFailed k) sn s)))
      ((if k \<ge> 4 + length (jc_stringify (snd cd) sn) then spec_save cd sn a else a)\<lparr>ls_up := False\<rparr>)"
proof -
  have ro: "rl_readOnlyFiles s = []" "versions_ok (ls_events a)"
    using assms by (simp_all add: log_sim_def)
  have "log_sim cfg cd (snd (saveSnapshot cfg cd Written sn s)) (spec_save cd sn a) \<and>
    log_sim cfg cd (restart (snd (saveSnapshot cfg cd (WFailed k) sn s)))
      ((if k \<ge> 4 + length (jc_stringify (snd cd) sn) then spec_save cd sn a else a)\<lparr>ls_up := False\<rparr>)"
  proof (cases "ls_up a \<and> accepted (snd cd) sn \<noteq> None")
    case False
    then have "snd (saveSnapshot cfg cd w sn s) = s" "spec_save cd sn a = a" for w
      using assms by (auto simp: log_sim_def saveSnapshot_def spec_save_def appendRecord_accepted split: option.splits)
    then show ?thesis
      using assms sim_restart [OF ro sim_holds [OF assms]] by simp
  next
    case True
    then obtain p where p: "accepted (snd cd) sn = Some p" "length (jc_stringify (snd cd) sn) \<le> MAX_PAYLOAD_SIZE"
        "jc_parse (snd cd) (jc_stringify (snd cd) sn) = Some p"
      by (auto simp: accepted_Some)
    obtain b where b: "jget (rl_files s) (snapshotPath cfg) = Some b" "holds (jc_parse (snd cd)) True (Some b) (ls_snapshots a)"
      using assms True holds_exists unfolding log_sim_def by metis
    have s: "rl_initialized s" "index_inv (s\<lparr>rl_files := f\<rparr>)" "spec_save cd sn a = a\<lparr>ls_snapshots := ls_snapshots a @ [p]\<rparr>" for f
      using assms True p(1) by (auto simp: log_sim_def index_inv_def spec_save_def)
    have "holds (jc_parse (snd cd)) False (Some (b @ take k (frame (jc_stringify (snd cd) sn))))
        (ls_snapshots (if k \<ge> 4 + length (jc_stringify (snd cd) sn) then spec_save cd sn a else a))"
      using holds_partial [OF b(2) p(2,3), of k] s(3) by (simp split: if_splits)
    then have "log_sim cfg cd (restart (snd (saveSnapshot cfg cd (WFailed k) sn s)))
      ((if k \<ge> 4 + length (jc_stringify (snd cd) sn) then spec_save cd sn a else a)\<lparr>ls_up := False\<rparr>)"
      using s b p(1) ro snapshotPath_other [of cfg, symmetric] sim_holds(1) [OF assms]
      by (intro sim_restart) (simp_all add: saveSnapshot_def appendRecord_accepted)
    moreover have "log_sim cfg cd (snd (saveSnapshot cfg cd Written sn s)) (spec_save cd sn a)"
      using assms True s b p(1) ro snapshotPath_other [of cfg, symmetric] holds_append [OF b(2) p(2,3)]
      by (simp add: saveSnapshot_def appendRecord_accepted log_sim_def latest_def)
    ultimately show ?thesis
      by simp
  qed
  then show "log_sim cfg cd (snd (saveSnapshot cfg cd Written sn s)) (spec_save cd sn a)"
    "log_sim cfg cd (restart (snd (saveSnapshot cfg cd (WFailed k) sn s)))
      ((if k \<ge> 4 + length (jc_stringify (snd cd) sn) then spec_save cd sn a else a)\<lparr>ls_up := False\<rparr>)"
    by simp_all
qed

lemma append_cases:
  assumes "log_sim cfg cd s a" "json_keeps (fst cd)"
  shows "log_sim cfg cd (snd (rl_append cfg cd Written e s)) (spec_append cd e a)"
    "log_sim cfg cd (restart (snd (rl_append cfg cd (WFailed k) e s)))
      ((if k \<ge> 4 + length (jc_stringify (fst cd) (next_event e (ls_events a))) then spec_append cd e a else a)\<lparr>ls_up := False\<rparr>)"
proof -
  let ?ok = "ls_up a \<and> de_aggregateId e \<noteq> [] \<and> de_type e \<noteq> [] \<and> accepted (fst cd) (next_event e (ls_events a)) \<noteq> None"
  have ro: "rl_readOnlyFiles s = []" "versions_ok (ls_events a)"
    using assms(1) by (simp_all add: log_sim_def)
  have no: "snd (rl_append cfg cd w e s) = s \<and> spec_append cd e a = a" if "\<not> ?ok" for w
    using append_refused [OF assms(1) that] that by (auto simp: spec_append_def split: option.splits)
  have yes: "\<exists>p. accepted (fst cd) (next_event e (ls_events a)) = Some p \<and> spec_append cd e a = a\<lparr>ls_events := ls_events a @ [p]\<rparr>" if "?ok"
    using that by (auto simp: spec_append_def)
  show "log_sim cfg cd (snd (rl_append cfg cd Written e s)) (spec_append cd e a)"
    using no yes sim_append(1) [OF assms] assms(1) by (cases ?ok) fastforce+
  show "log_sim cfg cd (restart (snd (rl_append cfg cd (WFailed k) e s)))
      ((if k \<ge> 4 + length (jc_stringify (fst cd) (next_event e (ls_events a))) then spec_append cd e a else a)\<lparr>ls_up := False\<rparr>)"
  proof (cases ?ok)
    case True
    then obtain p where "accepted (fst cd) (next_event e (ls_events a)) = Some p" "spec_append cd e a = a\<lparr>ls_events := ls_events a @ [p]\<rparr>"
      using yes by blast
    then show ?thesis
      using sim_append(2) [OF assms, of e p k] True by (simp split: if_splits)
  next
    case False
    then show ?thesis
      using no [OF False] sim_restart [OF ro sim_holds [OF assms(1)]] by simp
  qed
qed

lemma sim_step:
  assumes "log_sim cfg cd s a" "json_keeps (fst cd)"
  shows "log_sim cfg cd (log_step cfg cd op s) (spec_step cd op a)"
proof -
  have ro: "rl_readOnlyFiles s = []" "versions_ok (ls_events a)" "rl_initialized s = ls_up a"
    using assms(1) by (simp_all add: log_sim_def)
  note h = sim_holds [OF assms(1)]
  show ?thesis
  proof (cases op)
    case LOpen
    show ?thesis
    proof (cases "ls_up a")
      case True
      then have "log_sim cfg cd s (a\<lparr>ls_up := True\<rparr>)"
        using assms(1) by (simp add: log_sim_def)
      then show ?thesis
        using LOpen True ro(3) by (simp add: rl_initialize_def)
    next
      case False
      then show ?thesis
        using LOpen initialize_holds [OF _ ro(1) h] ro by (auto simp: log_sim_def)
    qed
  next
    case LClose
    then show ?thesis
      using h ro assms(1) by (auto simp: rl_close_def log_sim_def rl_emit_def)
  qed (use append_cases [OF assms] save_cases [OF assms(1)] sim_restart [OF ro(1,2) h] in simp_all)
qed

text \<open>
  C6. The log implements the abstract log, crashes included. In every run of open, close, append, snapshot and crashes at
  any point, also inside a write with any number of its bytes on disk: an open log has exactly the acknowledged events, in order
  (and a record whose bytes were all written when the process died); \<open>getEvents\<close> gives an aggregate's events with
  versions 1, 2, 3 and so on; and \<open>getSnapshot\<close> gives the latest snapshot.
\<close>

theorem rvf_log_refines:
  assumes "json_keeps (fst cd)"
    and "s = run (log_step cfg cd) ops (new_log [])" and "a = run (spec_step cd) ops spec_new"
  shows "rl_initialized s = ls_up a \<and>
    (ls_up a \<longrightarrow> rl_events s = ls_events a \<and> (\<forall>i. getEvents i None s = Inr (of_aggregate i (ls_events a)) \<and>
       map de_version (of_aggregate i (ls_events a)) = map int [1..<Suc (length (of_aggregate i (ls_events a)))] \<and>
       getSnapshot i s = Inr (jget (latest (ls_snapshots a)) i)))"
proof -
  have sim0: "log_sim cfg cd (new_log []) spec_new"
    by (simp add: log_sim_def new_log_def spec_new_def versions_ok_def holds_def)
  have "log_sim cfg cd (run (log_step cfg cd) ops s0) (run (spec_step cd) ops a0)" if "log_sim cfg cd s0 a0" for s0 a0
    using that by (induction ops arbitrary: s0 a0) (simp_all add: sim_step [OF _ assms(1)])
  from this [OF sim0] have sim: "log_sim cfg cd s a"
    unfolding assms(2,3) .
  then show ?thesis
    using getEvents_spec [of s] by (auto simp: log_sim_def getSnapshot_def versions_ok_def)
qed

section \<open>Files of any content\<close>

lemma replay_extend:
  assumes "replay_loop parse handler buf off s = (s', length buf, None)" "off \<le> length buf"
  shows "replay_loop parse handler (buf @ rest) off s = replay_loop parse handler (buf @ rest) (length buf) s'"
  using assms
proof (induction parse handler buf off s rule: replay_loop.induct)
  case (1 parse handler buf off s)
  show ?case
  proof (cases "off + 4 \<le> length buf")
    case False
    then show ?thesis
      using "1.prems" by (simp add: replay_loop.simps [of parse handler buf] LENGTH_PREFIX_BYTES_def)
  next
    case True
    let ?n = "readUInt32BE buf off"
    have n: "\<not> ?n > MAX_PAYLOAD_SIZE" "\<not> off + 4 + ?n > length buf"
      using "1.prems" True by (auto simp: replay_loop.simps [of parse handler buf] LENGTH_PREFIX_BYTES_def Let_def split: if_splits)
    define s1 where "s1 = (case parse (take ?n (drop (off + 4) buf)) of Some r \<Rightarrow> handler r s | None \<Rightarrow> s)"
    have r: "replay_loop parse handler buf (off + 4 + ?n) s1 = (s', length buf, None)"
      using "1.prems"(1) n True by (simp add: replay_loop.simps [of parse handler buf off] LENGTH_PREFIX_BYTES_def s1_def Let_def)
    have ih: "replay_loop parse handler (buf @ rest) (off + 4 + ?n) s1 = replay_loop parse handler (buf @ rest) (length buf) s'"
      using "1.IH" [unfolded LENGTH_PREFIX_BYTES_def, OF True refl refl n refl s1_def r] n by simp
    have "readUInt32BE (buf @ rest) off = ?n" "take ?n (drop (off + 4) (buf @ rest)) = take ?n (drop (off + 4) buf)"
      using True n by (simp_all add: readUInt32BE_def nth_append)
    then show ?thesis
      using ih n True by (subst replay_loop.simps) (simp add: LENGTH_PREFIX_BYTES_def s1_def Let_def)
  qed
qed

text \<open>The records of a file, whatever it holds, and where the loop stops.\<close>

definition decode :: "(byte list \<Rightarrow> 'r option) \<Rightarrow> byte list \<Rightarrow> 'r list \<times> nat \<times> nat option" where
  "decode parse buf = replay_loop parse (\<lambda>r rs. rs @ [r]) buf (length MAGIC) []"

definition readable :: "(byte list \<Rightarrow> 'r option) \<Rightarrow> byte list \<Rightarrow> 'r list \<Rightarrow> bool" where
  "readable parse b rs \<longleftrightarrow> length MAGIC \<le> length b \<and> take (length MAGIC) b = MAGIC \<and> fst (decode parse b) = rs"

abbreviation whole_record :: "byte list \<Rightarrow> nat \<Rightarrow> bool" where
  "whole_record buf off \<equiv> off + 4 \<le> length buf \<and> readUInt32BE buf off \<le> MAX_PAYLOAD_SIZE \<and> off + 4 + readUInt32BE buf off \<le> length buf"

lemma replay_next:
  assumes "whole_record buf off"
  shows "replay_loop parse handler buf off s = replay_loop parse handler buf (off + 4 + readUInt32BE buf off)
    (case parse (take (readUInt32BE buf off) (drop (off + 4) buf)) of Some r \<Rightarrow> handler r s | None \<Rightarrow> s)"
  using assms by (subst replay_loop.simps) (simp add: LENGTH_PREFIX_BYTES_def Let_def)

lemma replay_stop:
  assumes "\<not> whole_record buf off"
  shows "replay_loop parse handler buf off s =
      (s, if off + 4 \<le> length buf \<and> MAX_PAYLOAD_SIZE < readUInt32BE buf off then off + 4 else off,
       if off + 4 \<le> length buf \<and> MAX_PAYLOAD_SIZE < readUInt32BE buf off then Some off else None)"
  using assms by (subst replay_loop.simps) (auto simp: LENGTH_PREFIX_BYTES_def Let_def)

lemma replay_collect:
  fixes handler :: "'r \<Rightarrow> 's \<Rightarrow> 's" and handler' :: "'r \<Rightarrow> 't \<Rightarrow> 't"
  shows "\<exists>rs o1 ov. (\<forall>s. replay_loop parse handler buf off s = (fold handler rs s, o1, ov)) \<and>
    (\<forall>s. replay_loop parse handler' buf off s = (fold handler' rs s, o1, ov))"
proof (induction "length buf - off" arbitrary: off rule: less_induct)
  case less
  show ?case
  proof (cases "whole_record buf off")
    case False
    show ?thesis
      by (intro exI [of _ "[]"] exI) (simp add: replay_stop [OF False])
  next
    case True
    let ?r = "parse (take (readUInt32BE buf off) (drop (off + 4) buf))"
    have "length buf - (off + 4 + readUInt32BE buf off) < length buf - off"
      using True by auto
    from less [OF this] obtain rs o1 ov where
      "(\<forall>s. replay_loop parse handler buf (off + 4 + readUInt32BE buf off) s = (fold handler rs s, o1, ov)) \<and>
       (\<forall>s. replay_loop parse handler' buf (off + 4 + readUInt32BE buf off) s = (fold handler' rs s, o1, ov))"
      by blast
    then show ?thesis
      unfolding replay_next [OF True]
      by (intro exI [of _ "case ?r of Some r \<Rightarrow> r # rs | None \<Rightarrow> rs"] exI [of _ o1] exI [of _ ov]) (simp split: option.split)
  qed
qed

lemma fold_snoc: "fold (\<lambda>r rs. rs @ [r]) xs ys = ys @ xs"
  by (induction xs arbitrary: ys) simp_all

lemma replay_decode:
  assumes "decode parse buf = (rs, o1, ov)"
  shows "replay_loop parse handler buf (length MAGIC) s = (fold handler rs s, o1, ov)"
proof -
  obtain rs' o' ov' where "\<forall>s. replay_loop parse (\<lambda>r rs. rs @ [r]) buf (length MAGIC) s = (fold (\<lambda>r rs. rs @ [r]) rs' s, o', ov')"
    "\<forall>s. replay_loop parse handler buf (length MAGIC) s = (fold handler rs' s, o', ov')"
    using replay_collect [of parse "\<lambda>r rs. rs @ [r]" buf "length MAGIC" handler] by blast
  then show ?thesis
    using assms by (simp add: decode_def fold_snoc)
qed

lemma decode_cut:
  assumes "decode parse buf = (rs, o1, ov)" "length MAGIC \<le> length buf"
  shows "decode parse (take (nullish ov o1) buf) = (rs, nullish ov o1, None)" "length MAGIC \<le> nullish ov o1" "nullish ov o1 \<le> length buf"
  using replay_result [OF assms(1) [unfolded decode_def] assms(2)] by (cases ov; auto simp: decode_def)+

lemma decode_append:
  assumes "decode parse b = (rs, length b, None)" "length MAGIC \<le> length b" "length json \<le> MAX_PAYLOAD_SIZE" "parse json = Some p"
  shows "decode parse (b @ frame json) = (rs @ [p], length (b @ frame json), None)"
proof -
  have "replay_loop parse (\<lambda>r rs. rs @ [r]) (b @ frame json) (length b) rs = (rs @ [p], length (b @ frame json), None)"
    using replay_records [of "[json]" "[]" parse "\<lambda>r rs. rs @ [r]" b rs] assms(3,4) by (simp add: map_filter_simps)
  then show ?thesis
    using replay_extend [OF assms(1) [unfolded decode_def] assms(2)] by (simp add: decode_def)
qed

definition memory_only :: "('r \<Rightarrow> 'p rvf_log \<Rightarrow> 'p rvf_log) \<Rightarrow> bool" where
  "memory_only handler \<longleftrightarrow> (\<forall>r s. rl_files (handler r s) = rl_files s \<and> rl_readOnlyFiles (handler r s) = rl_readOnlyFiles s)"

lemma memory_only_fold:
  "memory_only handler \<Longrightarrow> rl_files (fold handler rs s) = rl_files s \<and> rl_readOnlyFiles (fold handler rs s) = rl_readOnlyFiles s"
  by (induction rs arbitrary: s) (simp_all add: memory_only_def)

text \<open>What opening does to a file of any content.\<close>

lemma open_file_result:
  assumes "open_file cfg parse tr path handler s = (Inr (), s1)" "memory_only handler"
  shows "\<exists>rs b ro. s1 = (fold handler rs s)\<lparr>rl_files := jset path b (rl_files s), rl_readOnlyFiles := ro\<rparr> \<and> readable parse b rs \<and>
    (\<forall>p. p \<noteq> path \<longrightarrow> jget ro p = jget (rl_readOnlyFiles s) p) \<and> (jget ro path = None \<longrightarrow> decode parse b = (rs, length b, None))"
proof (cases "jget (rl_files s) path")
  case None
  have "decode parse MAGIC = ([], length MAGIC, None)"
    by (simp add: decode_def replay_loop.simps LENGTH_PREFIX_BYTES_def)
  then show ?thesis
    using assms(1) None
    by (intro exI [of _ "[]"] exI [of _ MAGIC] exI [of _ "rl_readOnlyFiles s"]) (auto simp: open_file_def readable_def)
next
  case (Some buf)
  obtain rs o1 ov where d: "decode parse buf = (rs, o1, ov)"
    by (metis prod_cases3)
  have magic: "length MAGIC \<le> length buf" "take (length MAGIC) buf = MAGIC"
    using assms(1) Some by (auto simp: open_file_def replayFile_def Let_def split: if_splits)
  have r: "readable parse buf rs"
    using magic d by (simp add: readable_def)
  note c = decode_cut [OF d magic(1)]
  have cut: "readable parse (take (nullish ov o1) buf) rs"
    using magic(2) c by (simp add: readable_def min_def)
  have full: "decode parse buf = (rs, length buf, None)" if "\<not> nullish ov o1 < length buf"
    using c(1,3) that by simp
  note m = memory_only_fold [OF assms(2), of rs s]
  have loop: "replay_loop parse handler buf (length MAGIC) s = (fold handler rs s, o1, ov)"
    by (rule replay_decode [OF d])
  have "rl_files s = jset path buf (rl_files s)"
    using Some by (simp add: jset_same)
  then have "s1 = (fold handler rs s)\<lparr>rl_files := jset path (if ov \<noteq> None \<and> \<not> rc_repairOversizedTail cfg \<or> tr = TDenied \<or> \<not> nullish ov o1 < length buf
        then buf else take (nullish ov o1) buf) (rl_files s), rl_readOnlyFiles := rl_readOnlyFiles s1\<rparr> \<and>
     (\<forall>p. p \<noteq> path \<longrightarrow> jget (rl_readOnlyFiles s1) p = jget (rl_readOnlyFiles s) p) \<and>
     (jget (rl_readOnlyFiles s1) path = None \<longrightarrow>
        (tr = TDenied \<longrightarrow> \<not> nullish ov o1 < length buf) \<and> \<not> (ov \<noteq> None \<and> \<not> rc_repairOversizedTail cfg))"
    using assms(1) Some loop m by (auto simp: open_file_def replayFile_def Let_def split: if_splits truncate_outcome.splits)
  then show ?thesis
    using r cut full c(1,3)
    by (intro exI [of _ rs] exI [of _ "if ov \<noteq> None \<and> \<not> rc_repairOversizedTail cfg \<or> tr = TDenied \<or> \<not> nullish ov o1 < length buf
        then buf else take (nullish ov o1) buf"] exI [of _ "rl_readOnlyFiles s1"]) auto
qed

lemma open_file_reads:
  assumes "jget (rl_files s) path = Some b" "readable parse b rs" "memory_only handler"
  shows "\<exists>b' ro. open_file cfg parse TDone path handler s =
    (Inr (), (fold handler rs s)\<lparr>rl_files := jset path b' (rl_files s), rl_readOnlyFiles := ro\<rparr>)"
proof -
  obtain rs' o1 ov where d: "decode parse b = (rs', o1, ov)"
    by (metis prod_cases3)
  have "rs' = rs"
    using assms(2) d by (simp add: readable_def)
  then have loop: "replay_loop parse handler b (length MAGIC) s = (fold handler rs s, o1, ov)"
    using replay_decode [OF d] by simp
  have files: "jset path b (rl_files s) = rl_files s"
    using assms(1) by (simp add: jset_same)
  define ro where "ro = (if ov \<noteq> None \<and> \<not> rc_repairOversizedTail cfg
    then jset path ''a record length prefix exceeds the safety limit'' (rl_readOnlyFiles s) else rl_readOnlyFiles s)"
  define b' where "b' = (if ov \<noteq> None \<and> \<not> rc_repairOversizedTail cfg \<or> \<not> nullish ov o1 < length b then b else take (nullish ov o1) b)"
  have "open_file cfg parse TDone path handler s =
      (Inr (), (fold handler rs s)\<lparr>rl_files := jset path b' (rl_files s), rl_readOnlyFiles := ro\<rparr>)"
    using assms(1,2) loop files memory_only_fold [OF assms(3), of rs s]
    by (simp add: open_file_def replayFile_def readable_def Let_def ro_def b'_def)
  then show ?thesis
    by blast
qed

lemma memory_only_handlers: "memory_only indexEvent" "memory_only loadSnapshot"
  by (simp_all add: memory_only_def)

lemma initialize_result:
  fixes s :: "'p rvf_log"
  assumes "rl_initialize cfg cd tr (new_log files) = (Inr (), s)"
  shows "\<exists>es sns b bs. rl_events s = es \<and> rl_snapshots s = latest sns \<and> rl_initialized s \<and>
    jget (rl_files s) (rc_logPath cfg) = Some b \<and> readable (jc_parse (fst cd)) b es \<and>
    jget (rl_files s) (snapshotPath cfg) = Some bs \<and> readable (jc_parse (snd cd)) bs sns \<and>
    (jget (rl_readOnlyFiles s) (rc_logPath cfg) = None \<longrightarrow> decode (jc_parse (fst cd)) b = (es, length b, None))"
proof -
  define s0 :: "'p rvf_log" where "s0 = new_log files"
  have s0: "s0\<lparr>rl_events := [], rl_aggregateIndex := [], rl_aggregateVersions := [], rl_snapshots := []\<rparr> = s0" "\<not> rl_initialized s0"
    by (simp_all add: s0_def new_log_def)
  obtain r1 s1 where o1: "open_file cfg (jc_parse (fst cd)) (fst tr) (rc_logPath cfg) indexEvent s0 = (r1, s1)"
    by fastforce
  obtain r2 s2 where o2: "open_file cfg (jc_parse (snd cd)) (snd tr) (snapshotPath cfg) loadSnapshot s1 = (r2, s2)"
    by fastforce
  have "r1 = Inr () \<and> r2 = Inr () \<and> s = rl_emit Initialized (s2\<lparr>rl_initialized := True\<rparr>)"
    using assms s0 unfolding rl_initialize_def s0_def [symmetric] Let_def s0(1) o1
    by (cases r1; cases r2) (simp_all add: o2)
  then have o: "open_file cfg (jc_parse (fst cd)) (fst tr) (rc_logPath cfg) indexEvent s0 = (Inr (), s1)"
    "open_file cfg (jc_parse (snd cd)) (snd tr) (snapshotPath cfg) loadSnapshot s1 = (Inr (), s2)"
    "s = rl_emit Initialized (s2\<lparr>rl_initialized := True\<rparr>)"
    using o1 o2 by simp_all
  obtain es b ro where 1: "s1 = (fold indexEvent es s0)\<lparr>rl_files := jset (rc_logPath cfg) b (rl_files s0), rl_readOnlyFiles := ro\<rparr>"
    "readable (jc_parse (fst cd)) b es" "jget ro (rc_logPath cfg) = None \<longrightarrow> decode (jc_parse (fst cd)) b = (es, length b, None)"
    using open_file_result [OF o(1) memory_only_handlers(1)] by (elim exE conjE) (rule that; assumption)
  obtain sns bs ro' where 2: "s2 = (fold loadSnapshot sns s1)\<lparr>rl_files := jset (snapshotPath cfg) bs (rl_files s1), rl_readOnlyFiles := ro'\<rparr>"
    "readable (jc_parse (snd cd)) bs sns" "\<forall>p. p \<noteq> snapshotPath cfg \<longrightarrow> jget ro' p = jget (rl_readOnlyFiles s1) p"
    using open_file_result [OF o(2) memory_only_handlers(2)] by (elim exE conjE) (rule that; assumption)
  have "rl_events s = es \<and> rl_snapshots s = latest sns \<and> rl_initialized s \<and> jget (rl_files s) (rc_logPath cfg) = Some b \<and>
    jget (rl_files s) (snapshotPath cfg) = Some bs \<and> jget (rl_readOnlyFiles s) (rc_logPath cfg) = jget ro (rc_logPath cfg)"
    using 1(1) 2(1,3) snapshotPath_other [of cfg]
    by (simp add: o(3) fold_indexEvent fold_loadSnapshot latest_def s0_def new_log_def)
  then show ?thesis
    using 1(2,3) 2(2) by auto
qed

lemma initialize_reads:
  fixes files :: "(string, byte list) jsmap"
  assumes "jget files (rc_logPath cfg) = Some b" "readable (jc_parse (fst cd)) b es"
    "jget files (snapshotPath cfg) = Some bs" "readable (jc_parse (snd cd)) bs sns"
  shows "\<exists>s. rl_initialize cfg cd (TDone, TDone) (new_log files) = (Inr (), s) \<and> rl_events s = es \<and> rl_snapshots s = latest sns"
proof -
  define s0 :: "'a rvf_log" where "s0 = new_log files"
  have s0: "s0\<lparr>rl_events := [], rl_aggregateIndex := [], rl_aggregateVersions := [], rl_snapshots := []\<rparr> = s0" "\<not> rl_initialized s0"
      "rl_files s0 = files"
    by (simp_all add: s0_def new_log_def)
  obtain b1 ro1 where 1: "open_file cfg (jc_parse (fst cd)) TDone (rc_logPath cfg) indexEvent s0 =
      (Inr (), (fold indexEvent es s0)\<lparr>rl_files := jset (rc_logPath cfg) b1 (rl_files s0), rl_readOnlyFiles := ro1\<rparr>)"
    using open_file_reads [OF _ assms(2) memory_only_handlers(1)] assms(1) s0(3) by blast
  define s1 where "s1 = (fold indexEvent es s0)\<lparr>rl_files := jset (rc_logPath cfg) b1 (rl_files s0), rl_readOnlyFiles := ro1\<rparr>"
  have "jget (rl_files s1) (snapshotPath cfg) = Some bs"
    using assms(3) s0(3) snapshotPath_other [of cfg] by (simp add: s1_def)
  then obtain b2 ro2 where 2: "open_file cfg (jc_parse (snd cd)) TDone (snapshotPath cfg) loadSnapshot s1 =
      (Inr (), (fold loadSnapshot sns s1)\<lparr>rl_files := jset (snapshotPath cfg) b2 (rl_files s1), rl_readOnlyFiles := ro2\<rparr>)"
    using open_file_reads [OF _ assms(4) memory_only_handlers(2)] by blast
  show ?thesis
    using s0 1 2 unfolding rl_initialize_def s0_def [symmetric] Let_def s1_def [symmetric]
    by (simp add: fold_loadSnapshot) (simp add: s1_def fold_indexEvent s0_def new_log_def latest_def)
qed

text \<open>A log that was opened and has not seen a failed write: its events and snapshots are those its files would be read as.\<close>

definition log_opened :: "rvf_config \<Rightarrow> 'p codecs \<Rightarrow> 'p rvf_log \<Rightarrow> bool" where
  "log_opened cfg cd s \<longleftrightarrow> (\<exists>es sns b bs. rl_events s = es \<and> rl_snapshots s = latest sns \<and> rl_initialized s \<and>
    jget (rl_files s) (rc_logPath cfg) = Some b \<and> readable (jc_parse (fst cd)) b es \<and>
    jget (rl_files s) (snapshotPath cfg) = Some bs \<and> readable (jc_parse (snd cd)) bs sns \<and>
    (jget (rl_readOnlyFiles s) (rc_logPath cfg) = None \<longrightarrow> decode (jc_parse (fst cd)) b = (es, length b, None)))"

definition kept_as :: "'p codecs \<Rightarrow> 'p domain_event \<Rightarrow> 'p domain_event \<Rightarrow> bool" where
  "kept_as cd e p \<longleftrightarrow> (\<exists>v. jc_parse (fst cd) (jc_stringify (fst cd) (e\<lparr>de_version := v\<rparr>)) = Some p)"

lemma append_no_write: "rl_append cfg cd Written e s = (Inl err, s1) \<Longrightarrow> s1 = s"
  by (auto simp: rl_append_def appendRecord_def Let_def split: if_splits option.splits prod.splits sum.splits)

lemma append_opened:
  assumes "log_opened cfg cd s" "rl_append cfg cd Written e s = (Inr (), s1)"
  shows "log_opened cfg cd s1 \<and> (\<exists>p. rl_events s1 = rl_events s @ [p] \<and> kept_as cd e p)"
proof -
  obtain es sns b bs where i: "rl_events s = es" "rl_snapshots s = latest sns" "rl_initialized s"
    "jget (rl_files s) (rc_logPath cfg) = Some b" "readable (jc_parse (fst cd)) b es"
    "jget (rl_files s) (snapshotPath cfg) = Some bs" "readable (jc_parse (snd cd)) bs sns"
    "jget (rl_readOnlyFiles s) (rc_logPath cfg) = None \<longrightarrow> decode (jc_parse (fst cd)) b = (es, length b, None)"
    using assms(1) unfolding log_opened_def by (elim exE conjE) (rule that; assumption)
  define e1 where "e1 = e\<lparr>de_version := nullish (jget (rl_aggregateVersions s) (de_aggregateId e)) 0 + 1\<rparr>"
  obtain r sa where ar: "appendRecord (fst cd) Written (rc_logPath cfg) e1 s = (r, sa)"
    by fastforce
  obtain p where p: "r = Inr p" "rl_files s1 = rl_files sa" "rl_events s1 = rl_events sa @ [p]" "rl_snapshots s1 = rl_snapshots sa"
      "rl_initialized s1 = rl_initialized sa" "rl_readOnlyFiles s1 = rl_readOnlyFiles sa"
    using assms(2) ar by (cases r) (auto simp: rl_append_def e1_def indexEvent_def rl_emit_def Let_def split: if_splits)
  define json where "json = jc_stringify (fst cd) e1"
  have a: "jget (rl_readOnlyFiles s) (rc_logPath cfg) = None" "jc_parse (fst cd) json = Some p" "length json \<le> MAX_PAYLOAD_SIZE"
    "rl_files s1 = jset (rc_logPath cfg) (b @ frame json) (rl_files s)" "rl_events s1 = es @ [p]" "rl_snapshots s1 = latest sns"
    "rl_initialized s1" "rl_readOnlyFiles s1 = rl_readOnlyFiles s"
    using ar p i(1-4) by (auto simp: appendRecord_def json_def Let_def split: if_splits option.splits)
  have d: "decode (jc_parse (fst cd)) (b @ frame json) = (es @ [p], length (b @ frame json), None)"
    using decode_append [of "jc_parse (fst cd)" b es json p] a(1-3) i(5,8) by (simp add: readable_def)
  then have "readable (jc_parse (fst cd)) (b @ frame json) (es @ [p])"
    using i(5) by (simp add: readable_def)
  then have "log_opened cfg cd s1"
    unfolding log_opened_def
    by (intro exI [of _ "es @ [p]"] exI [of _ sns] exI [of _ "b @ frame json"] exI [of _ bs])
      (use a i(6,7) d snapshotPath_other [of cfg] in simp)
  then show ?thesis
    using a(2,5) i(1) by (auto simp: kept_as_def json_def e1_def)
qed

text \<open>Any number of appends with their answers.\<close>

fun append_all ::
  "rvf_config \<Rightarrow> 'p codecs \<Rightarrow> 'p domain_event list \<Rightarrow> 'p rvf_log \<Rightarrow> (rvf_error + unit) list \<times> 'p rvf_log" where
  "append_all cfg cd [] s = ([], s)"
| "append_all cfg cd (e # es) s =
     (let (r, s1) = rl_append cfg cd Written e s; (rs, s2) = append_all cfg cd es s1 in (r # rs, s2))"

definition acknowledged :: "'p domain_event list \<Rightarrow> (rvf_error + unit) list \<Rightarrow> 'p domain_event list" where
  "acknowledged es rs = map fst (filter (\<lambda>x. snd x = Inr ()) (zip es rs))"

lemma append_all_opened:
  "log_opened cfg cd s \<Longrightarrow> append_all cfg cd es s = (rs, s1) \<Longrightarrow>
    log_opened cfg cd s1 \<and> (\<exists>ps. rl_events s1 = rl_events s @ ps \<and> list_all2 (kept_as cd) (acknowledged es rs) ps)"
proof (induction es arbitrary: s rs)
  case (Cons e es)
  obtain r s' where h: "rl_append cfg cd Written e s = (r, s')"
    by fastforce
  obtain rs' where t: "append_all cfg cd es s' = (rs', s1)" "rs = r # rs'"
    using Cons.prems(2) h by (auto split: prod.splits)
  show ?case
  proof (cases r)
    case (Inl err)
    then have "s' = s"
      using append_no_write h by blast
    then show ?thesis
      using Cons.IH [OF _ t(1)] Cons.prems(1) t(2) Inl by (simp add: acknowledged_def)
  next
    case (Inr u)
    then obtain p where p: "log_opened cfg cd s'" "rl_events s' = rl_events s @ [p]" "kept_as cd e p"
      using append_opened [OF Cons.prems(1)] h by auto
    then obtain ps where "log_opened cfg cd s1" "rl_events s1 = rl_events s' @ ps" "list_all2 (kept_as cd) (acknowledged es rs') ps"
      using Cons.IH [OF _ t(1)] by blast
    then show ?thesis
      using p t(2) Inr by (intro conjI exI [of _ "p # ps"]) (simp_all add: acknowledged_def)
  qed
qed (simp add: acknowledged_def)

text \<open>
  C37. Acknowledged appends can be read back, whatever the files held. Files of any bytes are opened, whatever the truncation
  of a damaged tail does; then any number of events are appended, some acknowledged and some refused, and no write fails halfway.
  Then the next process that opens the files gets the events that were read before, followed by exactly the acknowledged ones in order,
  and the same snapshots.
\<close>

theorem acknowledged_append_readable:
  assumes "rl_initialize cfg cd tr (new_log files) = (Inr (), s)" and "append_all cfg cd es s = (rs, s1)"
  shows "\<exists>ps s2. rl_initialize cfg cd (TDone, TDone) (new_log (rl_files s1)) = (Inr (), s2) \<and> rl_events s2 = rl_events s @ ps \<and>
    list_all2 (kept_as cd) (acknowledged es rs) ps \<and> rl_events s2 = rl_events s1 \<and> rl_snapshots s2 = rl_snapshots s1"
proof -
  have "log_opened cfg cd s"
    using initialize_result [OF assms(1)] unfolding log_opened_def .
  then have o: "log_opened cfg cd s1" and "\<exists>ps. rl_events s1 = rl_events s @ ps \<and> list_all2 (kept_as cd) (acknowledged es rs) ps"
    using append_all_opened [OF _ assms(2)] by blast+
  moreover obtain s2 where "rl_initialize cfg cd (TDone, TDone) (new_log (rl_files s1)) = (Inr (), s2)" "rl_events s2 = rl_events s1"
      "rl_snapshots s2 = rl_snapshots s1"
    using o initialize_reads [of "rl_files s1" cfg _ cd] unfolding log_opened_def by metis
  ultimately show ?thesis
    by metis
qed

subsection \<open>An example\<close>

text \<open>A codec for small events: the version and the aggregate.\<close>

definition demo_log_event :: "string \<Rightarrow> int \<Rightarrow> unit domain_event" where
  "demo_log_event i v = \<lparr>de_id = ''e'', de_type = ''t'', de_aggregateId = i, de_aggregateType = TaskAgg, de_version = v,
     de_timestamp = 0, de_body = ()\<rparr>"

definition demo_event_codec :: "unit domain_event json_codec" where
  "demo_event_codec = \<lparr>
     jc_stringify = (\<lambda>e. if 0 \<le> de_version e \<and> de_version e < 256
       then of_int (de_version e) # map (\<lambda>c. of_nat (of_char c)) (de_aggregateId e) else []),
     jc_parse = (\<lambda>bs. case bs of [] \<Rightarrow> None | v # cs \<Rightarrow> Some (demo_log_event (map (\<lambda>w. char_of (unat w)) cs) (uint v)))\<rparr>"

definition demo_codecs :: "unit codecs" where
  "demo_codecs = (demo_event_codec, \<lparr>jc_stringify = (\<lambda>_. []), jc_parse = (\<lambda>_. None)\<rparr>)"

definition demo_rvf :: rvf_config where
  "demo_rvf = \<lparr>rc_logPath = ''l.rvf'', rc_snapshotThreshold = 100, rc_repairOversizedTail = False\<rparr>"

lemma demo_char: "char_of (unat (of_nat (of_char c) :: byte)) = c"
  by (simp add: unat_of_nat)

lemma demo_chars: "char_of (97 :: nat) = CHR ''a''" "char_of (0 :: nat) = CHR 0x00"
  by code_simp+

lemma demo_json_keeps: "json_keeps (fst demo_codecs)"
  by (auto simp: json_keeps_def demo_codecs_def demo_event_codec_def demo_log_event_def demo_char comp_def uint_word_of_int
      split: if_splits)

text \<open>The third write is torn by the crash; the next process finds the first two events.\<close>

definition demo_log_ops :: "unit log_op list" where
  "demo_log_ops = [LOpen, LAppend (demo_log_event ''a'' 0), LAppend (demo_log_event ''a'' 0), LCrashAppend (demo_log_event ''a'' 0) 5, LOpen]"

theorem rvf_log_refines_witness:
  "rl_events (run (log_step demo_rvf demo_codecs) demo_log_ops (new_log [])) = [demo_log_event ''a'' 1, demo_log_event ''a'' 2]"
proof -
  have "ls_events (run (spec_step demo_codecs) demo_log_ops spec_new) = [demo_log_event ''a'' 1, demo_log_event ''a'' 2]"
    "ls_up (run (spec_step demo_codecs) demo_log_ops spec_new)"
    by (simp_all add: demo_log_ops_def spec_new_def spec_append_def accepted_def next_event_def demo_codecs_def demo_event_codec_def
        MAX_PAYLOAD_SIZE_def of_aggregate_def demo_log_event_def demo_chars)
  then show ?thesis
    using rvf_log_refines [OF demo_json_keeps refl refl, of demo_rvf demo_log_ops] by simp
qed

lemmas log_eval = rl_initialize_def open_file_def replayFile_def new_log_def demo_rvf_def snapshotPath_def ends_with_def rl_append_def
  appendRecord_def indexEvent_def rl_emit_def Let_def demo_codecs_def demo_event_codec_def demo_log_event_def MAGIC_def frame_def
  writeUInt32BE_def replay_loop.simps LENGTH_PREFIX_BYTES_def readUInt32BE_def MAX_PAYLOAD_SIZE_def

theorem acknowledged_append_readable_witness:
  "\<exists>s s1 s2. rl_initialize demo_rvf demo_codecs (TDone, TDone) (new_log [(''l.rvf'', MAGIC @ [0, 0, 0, 9, 7])]) = (Inr (), s) \<and>
     append_all demo_rvf demo_codecs [demo_log_event ''a'' 0, demo_log_event [] 0, demo_log_event ''a'' 0] s =
       ([Inr (), Inl InvalidAggregateId, Inr ()], s1) \<and>
     rl_initialize demo_rvf demo_codecs (TDone, TDone) (new_log (rl_files s1)) = (Inr (), s2) \<and> rl_events s2 = rl_events s1"
proof -
  define r where "r = rl_initialize demo_rvf demo_codecs (TDone, TDone) (new_log [(''l.rvf'', MAGIC @ [0, 0, 0, 9, 7])])"
  define r1 where "r1 = append_all demo_rvf demo_codecs [demo_log_event ''a'' 0, demo_log_event [] 0, demo_log_event ''a'' 0] (snd r)"
  have "fst r = Inr ()" "fst r1 = [Inr (), Inl InvalidAggregateId, Inr ()]"
    unfolding r1_def r_def by (simp_all add: log_eval)
  then have r: "rl_initialize demo_rvf demo_codecs (TDone, TDone) (new_log [(''l.rvf'', MAGIC @ [0, 0, 0, 9, 7])]) = (Inr (), snd r)"
    "append_all demo_rvf demo_codecs [demo_log_event ''a'' 0, demo_log_event [] 0, demo_log_event ''a'' 0] (snd r) =
       ([Inr (), Inl InvalidAggregateId, Inr ()], snd r1)"
    unfolding r_def r1_def by (simp_all add: prod_eq_iff)
  show ?thesis
    using acknowledged_append_readable [OF r] r by blast
qed

text \<open>
  A write that fails after some bytes while the process lives on: the next event is appended behind the torn bytes and
  acknowledged, and it is lost when the file is read again.
\<close>

lemma failed_write_loses_next_append:
  "let s = snd (rl_initialize demo_rvf demo_codecs (TDone, TDone) (new_log []));
       (r1, s1) = rl_append demo_rvf demo_codecs (WFailed 5) (demo_log_event ''a'' 0) s;
       (r2, s2) = rl_append demo_rvf demo_codecs Written (demo_log_event ''a'' 0) s1;
       (r3, s3) = rl_initialize demo_rvf demo_codecs (TDone, TDone) (restart s2)
   in r1 = Inl IoError \<and> r2 = Inr () \<and> rl_events s2 = [demo_log_event ''a'' 1] \<and> r3 = Inr () \<and> rl_events s3 = [demo_log_event [CHR 0x00] 1]"
  by (simp add: log_eval restart_def demo_chars)

end
