(* ===== verification/Capabilities.thy ===== *)
theory Capabilities
  imports Prelude
begin

text \<open>
  Model of \<open>CapabilityAlgebra\<close> of \<open>guidance/src/capabilities.ts\<close>. The class hands out the objects it stores, so an
  operation on a capability acts on the stored one. Identifiers from \<open>randomUUID\<close> are arguments. Parameters of
  constraints have the types the code casts them to; values of a context are of any type. All clock reads of one \<open>check\<close> give one
  time. \<open>delegations\<close> and \<open>revocations\<close> are the history of a run, from which the theorems speak.
\<close>

section \<open>Data\<close>

datatype capability_scope = ToolScope | MemoryScope | NetworkScope | FileScope | ModelScope | SystemScope

text \<open>Values of a context; an object is known by its identity.\<close>

datatype ctx_value = VNum int | VStr string | VBool bool | VNull | VObj nat

type_synonym context_map = "(string, ctx_value) jsmap"

datatype capability_constraint =
    RateLimit "int option"
  | Budget "int option"
  | TimeWindow "time option" "time option"
  | Condition "string option" "ctx_value option"
  | ScopeRestriction "string option"

record attestation =
  at_attesterId :: string
  at_attestedAt :: time
  at_claim :: string
  at_evidence :: "string option"
  at_signature :: string

record capability =
  cp_id :: string
  cp_scope :: capability_scope
  cp_resource :: string
  cp_actions :: "string list"
  cp_constraints :: "capability_constraint list"
  cp_grantedBy :: string
  cp_grantedTo :: string
  cp_grantedAt :: time
  cp_expiresAt :: "time option"
  cp_delegatable :: bool
  cp_revoked :: bool
  cp_revokedAt :: "time option"
  cp_attestations :: "attestation list"
  cp_parentCapabilityId :: "string option"

record algebra =
  ca_capabilities :: "(string, capability) jsmap"
  ca_agentIndex :: "(string, string jsset) jsmap"
  ca_delegationIndex :: "(string, string jsset) jsmap"

definition createCapabilityAlgebra :: algebra where
  "createCapabilityAlgebra = \<lparr>ca_capabilities = [], ca_agentIndex = [], ca_delegationIndex = []\<rparr>"

text \<open>The fields of \<open>Partial<Capability>\<close> that restrictions use; an expiry may be absent or null.\<close>

record restrictions =
  rs_actions :: "string list option"
  rs_constraints :: "capability_constraint list option"
  rs_expiresAt :: "time option option"
  rs_delegatable :: "bool option"

record grant_params =
  gp_scope :: capability_scope
  gp_resource :: string
  gp_actions :: "string list"
  gp_grantedBy :: string
  gp_grantedTo :: string
  gp_constraints :: "capability_constraint list option"
  gp_expiresAt :: "time option option"
  gp_delegatable :: "bool option"

datatype capability_error = NotDelegatable string | DelegateRevoked string | DelegateExpired string | DifferentScopes | DifferentResources

section \<open>Granting, restricting and delegating\<close>

definition ca_store :: "capability \<Rightarrow> algebra \<Rightarrow> algebra" where
  "ca_store c s =
     s\<lparr>ca_capabilities := jset (cp_id c) c (ca_capabilities s),
       ca_agentIndex := jset (cp_grantedTo c) (sadd (cp_id c) (nullish (jget (ca_agentIndex s) (cp_grantedTo c)) [])) (ca_agentIndex s)\<rparr>"

definition ca_grant :: "string \<Rightarrow> time \<Rightarrow> grant_params \<Rightarrow> algebra \<Rightarrow> capability \<times> algebra" where
  "ca_grant uuid now p s =
     (let c = \<lparr>cp_id = uuid, cp_scope = gp_scope p, cp_resource = gp_resource p, cp_actions = gp_actions p,
               cp_constraints = nullish (gp_constraints p) [], cp_grantedBy = gp_grantedBy p, cp_grantedTo = gp_grantedTo p,
               cp_grantedAt = now, cp_expiresAt = nullish (gp_expiresAt p) None, cp_delegatable = nullish (gp_delegatable p) False,
               cp_revoked = False, cp_revokedAt = None, cp_attestations = [], cp_parentCapabilityId = None\<rparr>
      in (c, ca_store c s))"

text \<open>The narrowing \<open>restrict\<close> and \<open>delegate\<close> apply to the copy \<open>c\<close> of a capability.\<close>

definition narrow_actions :: "restrictions \<Rightarrow> capability \<Rightarrow> string list" where
  "narrow_actions r c = (case rs_actions r of None \<Rightarrow> cp_actions c | Some as \<Rightarrow> filter (\<lambda>a. a \<in> set (cp_actions c)) as)"

definition widen_constraints :: "restrictions \<Rightarrow> capability \<Rightarrow> capability_constraint list" where
  "widen_constraints r c = (case rs_constraints r of None \<Rightarrow> cp_constraints c | Some cs \<Rightarrow> cp_constraints c @ cs)"

definition shorten_expiry :: "restrictions \<Rightarrow> capability \<Rightarrow> time option" where
  "shorten_expiry r c =
     (case rs_expiresAt r of
        Some (Some t) \<Rightarrow> (case cp_expiresAt c of None \<Rightarrow> Some t | Some u \<Rightarrow> Some (min u t))
      | _ \<Rightarrow> cp_expiresAt c)"

definition ca_restrict :: "string \<Rightarrow> time \<Rightarrow> capability \<Rightarrow> restrictions \<Rightarrow> algebra \<Rightarrow> capability \<times> algebra" where
  "ca_restrict uuid now c r s =
     (let c1 = c\<lparr>cp_id := uuid, cp_grantedAt := now, cp_attestations := [], cp_parentCapabilityId := Some (cp_id c),
                 cp_actions := narrow_actions r c, cp_constraints := widen_constraints r c, cp_expiresAt := shorten_expiry r c,
                 cp_delegatable := (if rs_delegatable r = Some False then False else cp_delegatable c)\<rparr>
      in (c1, ca_store c1 s))"

definition ca_delegate ::
  "string \<Rightarrow> clock \<Rightarrow> capability \<Rightarrow> string \<Rightarrow> restrictions option \<Rightarrow> algebra \<Rightarrow> (capability_error + capability) \<times> algebra" where
  "ca_delegate uuid clk c toAgentId ro s =
     (let r = nullish ro \<lparr>rs_actions = None, rs_constraints = None, rs_expiresAt = None, rs_delegatable = None\<rparr>
      in if \<not> cp_delegatable c then (Inl (NotDelegatable (cp_id c)), s)
         else if cp_revoked c then (Inl (DelegateRevoked (cp_id c)), s)
         else if cp_expiresAt c \<noteq> None \<and> the (cp_expiresAt c) \<le> clk 0 then (Inl (DelegateExpired (cp_id c)), s)
         else
           let c1 = c\<lparr>cp_id := uuid, cp_grantedBy := cp_grantedTo c, cp_grantedTo := toAgentId,
                      cp_grantedAt := clk (if cp_expiresAt c \<noteq> None then 1 else 0),
                      cp_attestations := [], cp_parentCapabilityId := Some (cp_id c),
                      cp_actions := narrow_actions r c, cp_constraints := widen_constraints r c, cp_expiresAt := shorten_expiry r c,
                      cp_delegatable := (if rs_delegatable r = Some False then False else cp_delegatable c)\<rparr>;
               s1 = ca_store c1 s;
               children = nullish (jget (ca_delegationIndex s1) (cp_id c)) []
           in (Inr c1, s1\<lparr>ca_delegationIndex := jset (cp_id c) (sadd uuid children) (ca_delegationIndex s1)\<rparr>))"

definition ca_compose :: "string \<Rightarrow> time \<Rightarrow> capability \<Rightarrow> capability \<Rightarrow> algebra \<Rightarrow> (capability_error + capability) \<times> algebra" where
  "ca_compose uuid now c1 c2 s =
     (if cp_scope c1 \<noteq> cp_scope c2 then (Inl DifferentScopes, s)
      else if cp_resource c1 \<noteq> cp_resource c2 then (Inl DifferentResources, s)
      else
        let expiresAt = (case (cp_expiresAt c1, cp_expiresAt c2) of
               (Some t, Some u) \<Rightarrow> Some (min t u) | (Some t, None) \<Rightarrow> Some t | (None, Some u) \<Rightarrow> Some u | (None, None) \<Rightarrow> None);
            c = \<lparr>cp_id = uuid, cp_scope = cp_scope c1, cp_resource = cp_resource c1,
                 cp_actions = filter (\<lambda>a. a \<in> set (cp_actions c1)) (cp_actions c2),
                 cp_constraints = cp_constraints c1 @ cp_constraints c2, cp_grantedBy = cp_grantedBy c1,
                 cp_grantedTo = cp_grantedTo c1, cp_grantedAt = now, cp_expiresAt = expiresAt,
                 cp_delegatable = (cp_delegatable c1 \<and> cp_delegatable c2), cp_revoked = False, cp_revokedAt = None,
                 cp_attestations = [], cp_parentCapabilityId = None\<rparr>
        in (Inr c, ca_store c s))"

section \<open>Expiry, revocation and attestation\<close>

definition upd_capability :: "string \<Rightarrow> (capability \<Rightarrow> capability) \<Rightarrow> algebra \<Rightarrow> algebra" where
  "upd_capability i f s =
     (case jget (ca_capabilities s) i of
        None \<Rightarrow> s
      | Some c \<Rightarrow> s\<lparr>ca_capabilities := jset i (f c) (ca_capabilities s)\<rparr>)"

definition ca_expire :: "time \<Rightarrow> string \<Rightarrow> algebra \<Rightarrow> algebra" where
  "ca_expire now i = upd_capability i (\<lambda>c. c\<lparr>cp_expiresAt := Some now\<rparr>)"

definition ca_attest :: "time \<Rightarrow> string \<Rightarrow> attestation \<Rightarrow> algebra \<Rightarrow> algebra" where
  "ca_attest now i a = upd_capability i (\<lambda>c. c\<lparr>cp_attestations := cp_attestations c @ [a\<lparr>at_attestedAt := now\<rparr>]\<rparr>)"

definition mark_revoked :: "time \<Rightarrow> string \<Rightarrow> algebra \<Rightarrow> algebra" where
  "mark_revoked now i = upd_capability i (\<lambda>c. c\<lparr>cp_revoked := True, cp_revokedAt := Some now\<rparr>)"

definition live_count :: "algebra \<Rightarrow> nat" where
  "live_count s = length (filter (\<lambda>p. \<not> cp_revoked (snd p)) (ca_capabilities s))"

text \<open>
  \<open>cascadeRevoke\<close> with its call stack as an argument: the children still to visit, in the order of the recursion, each
  with the time its loop has read. \<open>k\<close> counts the clock reads.
\<close>

function cascadeRevoke :: "clock \<Rightarrow> nat \<Rightarrow> (string \<times> time) list \<Rightarrow> algebra \<Rightarrow> algebra" where
  "cascadeRevoke clk k [] s = s"
| "cascadeRevoke clk k ((childId, now) # todo) s =
     (case jget (ca_capabilities s) childId of
        Some child \<Rightarrow>
          if \<not> cp_revoked child
          then
            let s1 = mark_revoked now childId s
            in case jget (ca_delegationIndex s1) childId of
                 None \<Rightarrow> cascadeRevoke clk k todo s1
               | Some children \<Rightarrow> cascadeRevoke clk (k + 1) (map (\<lambda>c. (c, clk k)) children @ todo) s1
          else cascadeRevoke clk k todo s
      | None \<Rightarrow> cascadeRevoke clk k todo s)"
  by pat_completeness auto

lemma live_count_jset:
  "jget m i = Some c \<Longrightarrow> \<not> cp_revoked c \<Longrightarrow> cp_revoked c' \<Longrightarrow>
    length (filter (\<lambda>p. \<not> cp_revoked (snd p)) (jset i c' m)) < length (filter (\<lambda>p. \<not> cp_revoked (snd p)) m)"
  by (induction i c' m rule: jset.induct) (auto split: if_splits)

lemma live_count_mark: "jget (ca_capabilities s) i = Some c \<Longrightarrow> \<not> cp_revoked c \<Longrightarrow> live_count (mark_revoked now i s) < live_count s"
  by (simp add: mark_revoked_def upd_capability_def live_count_def live_count_jset)

termination cascadeRevoke
  by (relation "measures [\<lambda>(_, _, _, s). live_count s, \<lambda>(_, _, todo, _). length todo]") (auto simp: live_count_mark)

definition ca_revoke :: "clock \<Rightarrow> string \<Rightarrow> algebra \<Rightarrow> algebra" where
  "ca_revoke clk i s =
     (case jget (ca_capabilities s) i of
        None \<Rightarrow> s
      | Some _ \<Rightarrow>
          let s1 = mark_revoked (clk 0) i s
          in case jget (ca_delegationIndex s1) i of
               None \<Rightarrow> s1
             | Some children \<Rightarrow> cascadeRevoke clk 2 (map (\<lambda>c. (c, clk 1)) children) s1)"

section \<open>Checking\<close>

text \<open>
  \<open>>=\<close> turns its operands into numbers. \<open>prim\<close> gives the number a string or an object turns into, \<open>None\<close> when that is not a
  number (a string is parsed, an object runs its own conversion).
\<close>

fun to_number :: "(ctx_value \<Rightarrow> int option) \<Rightarrow> ctx_value \<Rightarrow> int option" where
  "to_number prim (VNum n) = Some n"
| "to_number prim (VBool b) = Some (if b then 1 else 0)"
| "to_number prim VNull = Some 0"
| "to_number prim (VStr x) = prim (VStr x)"
| "to_number prim (VObj x) = prim (VObj x)"

fun ctx_truthy :: "ctx_value option \<Rightarrow> bool" where
  "ctx_truthy None = False"
| "ctx_truthy (Some (VNum n)) = (n \<noteq> 0)"
| "ctx_truthy (Some (VStr x)) = (x \<noteq> [])"
| "ctx_truthy (Some (VBool b)) = b"
| "ctx_truthy (Some VNull) = False"
| "ctx_truthy (Some (VObj _)) = True"

definition starts_with :: "string \<Rightarrow> string \<Rightarrow> bool" where
  "starts_with p x \<longleftrightarrow> take (length p) x = p"

definition reached :: "(ctx_value \<Rightarrow> int option) \<Rightarrow> ctx_value option \<Rightarrow> int option \<Rightarrow> bool" where
  "reached prim used limit =
     (case (used, limit) of
        (Some u, Some l) \<Rightarrow> (case to_number prim u of Some n \<Rightarrow> n \<ge> l | None \<Rightarrow> False)
      | _ \<Rightarrow> False)"

text \<open>One case of the loop over the constraints; \<open>None\<close> is the \<open>TypeError\<close> of \<open>startsWith\<close> on something that is not a string.\<close>

fun constraint_holds :: "(ctx_value \<Rightarrow> int option) \<Rightarrow> time \<Rightarrow> context_map option \<Rightarrow> capability_constraint \<Rightarrow> bool option" where
  "constraint_holds prim now ctx (TimeWindow from_t to_t) =
     Some (\<not> (case from_t of Some t \<Rightarrow> now < t | None \<Rightarrow> False) \<and> \<not> (case to_t of Some t \<Rightarrow> now > t | None \<Rightarrow> False))"
| "constraint_holds prim now ctx (RateLimit limit) =
     Some (case ctx of None \<Rightarrow> True | Some m \<Rightarrow> \<not> reached prim (jget m ''currentUsage'') limit)"
| "constraint_holds prim now ctx (Budget limit) =
     Some (case ctx of None \<Rightarrow> True | Some m \<Rightarrow> \<not> reached prim (jget m ''budgetUsed'') limit)"
| "constraint_holds prim now ctx (Condition key expected) =
     Some (case (key, ctx) of
        (Some k, Some m) \<Rightarrow> k = [] \<or> (if expected \<noteq> None then jget m k = expected else ctx_truthy (jget m k))
      | _ \<Rightarrow> True)"
| "constraint_holds prim now ctx (ScopeRestriction pat) =
     (case (pat, ctx) of
        (Some p, Some m) \<Rightarrow>
          if p = [] \<or> \<not> ctx_truthy (jget m ''targetResource'') then Some True
          else (case jget m ''targetResource'' of Some (VStr t) \<Rightarrow> Some (starts_with p t) | _ \<Rightarrow> None)
      | _ \<Rightarrow> Some True)"

fun all_hold :: "(ctx_value \<Rightarrow> int option) \<Rightarrow> time \<Rightarrow> context_map option \<Rightarrow> capability_constraint list \<Rightarrow> bool option" where
  "all_hold prim now ctx [] = Some True"
| "all_hold prim now ctx (k # ks) =
     (case constraint_holds prim now ctx k of
        None \<Rightarrow> None
      | Some b \<Rightarrow> if b then all_hold prim now ctx ks else Some False)"

definition satisfiesConstraints :: "(ctx_value \<Rightarrow> int option) \<Rightarrow> time \<Rightarrow> context_map option \<Rightarrow> capability \<Rightarrow> bool option" where
  "satisfiesConstraints prim now ctx c = all_hold prim now ctx (cp_constraints c)"

datatype check_reason = NoCapabilitiesFor string | NoMatching string string capability_scope string | AllowedBy nat

record check_result =
  cr_allowed :: bool
  cr_capabilities :: "capability list"
  cr_reason :: check_reason
  cr_constraints :: "capability_constraint list"

definition cap_matches ::
  "(ctx_value \<Rightarrow> int option) \<Rightarrow> time \<Rightarrow> capability_scope \<Rightarrow> string \<Rightarrow> string \<Rightarrow> context_map option \<Rightarrow> capability \<Rightarrow> bool option" where
  "cap_matches prim now scope resource action ctx c =
     (if cp_revoked c then Some False
      else if cp_expiresAt c \<noteq> None \<and> the (cp_expiresAt c) \<le> now then Some False
      else if cp_scope c \<noteq> scope then Some False
      else if cp_resource c \<noteq> resource \<and> cp_resource c \<noteq> ''*'' then Some False
      else if action \<notin> set (cp_actions c) \<and> ''*'' \<notin> set (cp_actions c) then Some False
      else satisfiesConstraints prim now ctx c)"

text \<open>The loop over the capabilities of the agent; a thrown error ends it.\<close>

fun matching_caps :: "(capability \<Rightarrow> bool option) \<Rightarrow> capability list \<Rightarrow> capability list option" where
  "matching_caps f [] = Some []"
| "matching_caps f (c # cs) =
     (case f c of
        None \<Rightarrow> None
      | Some b \<Rightarrow> map_option (\<lambda>ms. if b then c # ms else ms) (matching_caps f cs))"

definition ca_check ::
  "(ctx_value \<Rightarrow> int option) \<Rightarrow> time \<Rightarrow> string \<Rightarrow> capability_scope \<Rightarrow> string \<Rightarrow> string \<Rightarrow> context_map option \<Rightarrow> algebra \<Rightarrow> check_result option" where
  "ca_check prim now agentId scope resource action ctx s =
     (case jget (ca_agentIndex s) agentId of
        None \<Rightarrow> Some \<lparr>cr_allowed = False, cr_capabilities = [], cr_reason = NoCapabilitiesFor agentId, cr_constraints = []\<rparr>
      | Some ids \<Rightarrow>
          if ids = [] then Some \<lparr>cr_allowed = False, cr_capabilities = [], cr_reason = NoCapabilitiesFor agentId, cr_constraints = []\<rparr>
          else
            (case matching_caps (cap_matches prim now scope resource action ctx) (List.map_filter (jget (ca_capabilities s)) ids) of
               None \<Rightarrow> None
             | Some matching \<Rightarrow>
                 if matching = []
                 then Some \<lparr>cr_allowed = False, cr_capabilities = [], cr_reason = NoMatching agentId action scope resource, cr_constraints = []\<rparr>
                 else Some \<lparr>cr_allowed = True, cr_capabilities = matching, cr_reason = AllowedBy (length matching),
                        cr_constraints = concat (map cp_constraints matching)\<rparr>))"


definition getCapability :: "string \<Rightarrow> algebra \<Rightarrow> capability option" where
  "getCapability i s = jget (ca_capabilities s) i"

text \<open>The loop of \<open>getDelegationChain\<close> puts each capability in front of the chain; it would not end on a cycle.\<close>

partial_function (option) chain_from :: "algebra \<Rightarrow> string \<Rightarrow> capability list \<Rightarrow> capability list option" where
  "chain_from s i chain =
     (case jget (ca_capabilities s) i of
        None \<Rightarrow> Some chain
      | Some c \<Rightarrow>
          (case cp_parentCapabilityId c of
             None \<Rightarrow> Some (c # chain)
           | Some p \<Rightarrow> chain_from s p (c # chain)))"

definition getDelegationChain :: "string \<Rightarrow> algebra \<Rightarrow> capability list option" where
  "getDelegationChain i s = chain_from s i []"

definition isSubset :: "capability \<Rightarrow> capability \<Rightarrow> bool" where
  "isSubset inner outer \<longleftrightarrow>
     cp_scope inner = cp_scope outer \<and> cp_resource inner = cp_resource outer \<and>
     list_all (\<lambda>a. a \<in> set (cp_actions outer)) (cp_actions inner) \<and>
     (case cp_expiresAt outer of
        None \<Rightarrow> True
      | Some t \<Rightarrow> (case cp_expiresAt inner of None \<Rightarrow> False | Some u \<Rightarrow> u \<le> t))"

section \<open>Runs\<close>

datatype cap_op =
    CGrant string time grant_params
  | CRestrict string time string restrictions
  | CDelegate string clock string string "restrictions option"
  | CCompose string time string string
  | CExpire time string
  | CRevoke clock string
  | CAttest time string attestation

fun cap_step :: "cap_op \<Rightarrow> algebra \<Rightarrow> algebra" where
  "cap_step (CGrant uuid now p) s = snd (ca_grant uuid now p s)"
| "cap_step (CRestrict uuid now i r) s =
     (case getCapability i s of None \<Rightarrow> s | Some c \<Rightarrow> snd (ca_restrict uuid now c r s))"
| "cap_step (CDelegate uuid clk i a r) s =
     (case getCapability i s of None \<Rightarrow> s | Some c \<Rightarrow> snd (ca_delegate uuid clk c a r s))"
| "cap_step (CCompose uuid now i j) s =
     (case (getCapability i s, getCapability j s) of (Some c, Some d) \<Rightarrow> snd (ca_compose uuid now c d s) | _ \<Rightarrow> s)"
| "cap_step (CExpire now i) s = ca_expire now i s"
| "cap_step (CRevoke clk i) s = ca_revoke clk i s"
| "cap_step (CAttest now i a) s = ca_attest now i a s"

text \<open>A generated identifier is new.\<close>

fun fresh_uuid :: "cap_op \<Rightarrow> algebra \<Rightarrow> bool" where
  "fresh_uuid (CGrant uuid now p) s = (getCapability uuid s = None)"
| "fresh_uuid (CRestrict uuid now i r) s = (getCapability uuid s = None)"
| "fresh_uuid (CDelegate uuid clk i a r) s = (getCapability uuid s = None)"
| "fresh_uuid (CCompose uuid now i j) s = (getCapability uuid s = None)"
| "fresh_uuid _ s = True"

text \<open>
  What a run did, read from its calls and not from the store: the pairs of a capability and one that \<open>delegate\<close> returned for it, and the
  capabilities that \<open>revoke\<close> was called for while they were stored.
\<close>

fun delegation_of :: "cap_op \<Rightarrow> algebra \<Rightarrow> (string \<times> string) set" where
  "delegation_of (CDelegate uuid clk i a r) s =
     (case getCapability i s of
        None \<Rightarrow> {}
      | Some c \<Rightarrow> (case fst (ca_delegate uuid clk c a r s) of Inl e \<Rightarrow> {} | Inr d \<Rightarrow> {(i, cp_id d)}))"
| "delegation_of _ s = {}"

fun delegations :: "cap_op list \<Rightarrow> algebra \<Rightarrow> (string \<times> string) set" where
  "delegations [] s = {}"
| "delegations (a # ops) s = delegation_of a s \<union> delegations ops (cap_step a s)"



section \<open>The structure of the store\<close>

definition children :: "algebra \<Rightarrow> string \<Rightarrow> string set" where
  "children s i = set (nullish (jget (ca_delegationIndex s) i) [])"

definition delegated :: "algebra \<Rightarrow> (string \<times> string) set" where
  "delegated s = {(p, c). c \<in> children s p}"

definition is_revoked :: "string \<Rightarrow> algebra \<Rightarrow> bool" where
  "is_revoked i s \<longleftrightarrow> (case jget (ca_capabilities s) i of None \<Rightarrow> False | Some c \<Rightarrow> cp_revoked c)"

text \<open>What later operations do not change of a capability.\<close>

definition fixed_part :: "capability \<Rightarrow> capability" where
  "fixed_part c = c\<lparr>cp_expiresAt := None, cp_revoked := False, cp_revokedAt := None, cp_attestations := []\<rparr>"

definition fixed :: "algebra \<Rightarrow> string \<Rightarrow> capability option" where
  "fixed s i = map_option fixed_part (jget (ca_capabilities s) i)"

definition attenuates :: "capability \<Rightarrow> capability \<Rightarrow> bool" where
  "attenuates c p \<longleftrightarrow> cp_scope c = cp_scope p \<and> cp_resource c = cp_resource p \<and> set (cp_actions c) \<subseteq> set (cp_actions p) \<and>
     set (cp_constraints p) \<subseteq> set (cp_constraints c) \<and> (cp_delegatable c \<longrightarrow> cp_delegatable p)"

definition no_later :: "time option \<Rightarrow> time option \<Rightarrow> bool" where
  "no_later u v \<longleftrightarrow> (case v of None \<Rightarrow> True | Some t \<Rightarrow> (case u of None \<Rightarrow> False | Some t' \<Rightarrow> t' \<le> t))"

definition before :: "'a list \<Rightarrow> 'a \<Rightarrow> 'a \<Rightarrow> bool" where
  "before xs a b \<longleftrightarrow> a \<in> set (takeWhile (\<lambda>x. x \<noteq> b) xs)"

definition store_inv :: "algebra \<Rightarrow> bool" where
  "store_inv s \<longleftrightarrow>
     (\<forall>i c. fixed s i = Some c \<longrightarrow> cp_id c = i) \<and>
     (\<forall>a. set (nullish (jget (ca_agentIndex s) a) []) = {i. \<exists>c. fixed s i = Some c \<and> cp_grantedTo c = a}) \<and>
     (\<forall>p x. x \<in> children s p \<longrightarrow> fixed s p \<noteq> None \<and> (\<exists>c. fixed s x = Some c \<and> cp_parentCapabilityId c = Some p)) \<and>
     (\<forall>i c p. fixed s i = Some c \<longrightarrow> cp_parentCapabilityId c = Some p \<longrightarrow>
        before (jkeys (ca_capabilities s)) p i \<and> (\<exists>d. fixed s p = Some d \<and> attenuates c d))"

text \<open>Revocation has reached every delegation of a revoked capability, but for those still to visit.\<close>

definition closed_but :: "string set \<Rightarrow> algebra \<Rightarrow> bool" where
  "closed_but W s \<longleftrightarrow> (\<forall>p x. x \<in> children s p \<longrightarrow> is_revoked p s \<longrightarrow> is_revoked x s \<or> x \<in> W)"

definition expiry_inv :: "algebra \<Rightarrow> bool" where
  "expiry_inv s \<longleftrightarrow> (\<forall>i c p d. jget (ca_capabilities s) i = Some c \<longrightarrow> cp_parentCapabilityId c = Some p \<longrightarrow>
     jget (ca_capabilities s) p = Some d \<longrightarrow> no_later (cp_expiresAt c) (cp_expiresAt d))"

lemma fixed_part_sel [simp]:
  "cp_id (fixed_part c) = cp_id c" "cp_scope (fixed_part c) = cp_scope c" "cp_resource (fixed_part c) = cp_resource c"
  "cp_actions (fixed_part c) = cp_actions c" "cp_constraints (fixed_part c) = cp_constraints c"
  "cp_grantedTo (fixed_part c) = cp_grantedTo c" "cp_delegatable (fixed_part c) = cp_delegatable c"
  "cp_parentCapabilityId (fixed_part c) = cp_parentCapabilityId c"
  by (simp_all add: fixed_part_def)

lemma attenuates_fixed [simp]: "attenuates (fixed_part c) d = attenuates c d" "attenuates c (fixed_part d) = attenuates c d"
  by (simp_all add: attenuates_def)

lemma jkeys_jset: "jkeys (jset k v m) = (if jget m k = None then jkeys m @ [k] else jkeys m)"
  by (induction k v m rule: jset.induct) (auto simp: jkeys_def)

lemma before_append: "before xs a b \<Longrightarrow> before (xs @ ys) a b"
  by (auto simp: before_def takeWhile_append dest: set_takeWhileD)

lemma before_new: "a \<in> set xs \<Longrightarrow> b \<notin> set xs \<Longrightarrow> before (xs @ [b]) a b"
  by (auto simp: before_def takeWhile_append)

text \<open>An update of the changing part keeps the structure.\<close>

lemma store_inv_cong:
  assumes "store_inv s" "\<And>i. fixed s' i = fixed s i" "ca_agentIndex s' = ca_agentIndex s" "ca_delegationIndex s' = ca_delegationIndex s"
    "jkeys (ca_capabilities s') = jkeys (ca_capabilities s)"
  shows "store_inv s'"
  using assms by (simp add: store_inv_def children_def)

lemma upd_capability_frame:
  assumes "\<And>c. fixed_part (f c) = fixed_part c"
  shows "fixed (upd_capability i f s) j = fixed s j" "ca_agentIndex (upd_capability i f s) = ca_agentIndex s"
    "ca_delegationIndex (upd_capability i f s) = ca_delegationIndex s"
    "jkeys (ca_capabilities (upd_capability i f s)) = jkeys (ca_capabilities s)"
  using assms by (auto simp: upd_capability_def fixed_def jkeys_jset split: option.split)

lemma upd_capability_inv:
  assumes "store_inv s" "\<And>c. fixed_part (f c) = fixed_part c"
  shows "store_inv (upd_capability i f s)"
  using upd_capability_frame [OF assms(2)] by (intro store_inv_cong [OF assms(1)]) auto

lemma fixed_store: "fixed (ca_store c s) j = (if j = cp_id c then Some (fixed_part c) else fixed s j)"
  by (simp add: fixed_def ca_store_def)

text \<open>Storing a new capability, a root or below a stored parent.\<close>

lemma store_new_inv:
  assumes "store_inv s" "jget (ca_capabilities s) (cp_id c) = None"
    "\<And>p. cp_parentCapabilityId c = Some p \<Longrightarrow> \<exists>d. jget (ca_capabilities s) p = Some d \<and> attenuates c d"
  shows "store_inv (ca_store c s)"
proof -
  let ?s = "ca_store c s"
  have new: "fixed s (cp_id c) = None" "cp_id c \<notin> set (jkeys (ca_capabilities s))"
    using assms(2) jget_jkeys [of "ca_capabilities s" "cp_id c"] by (simp_all add: fixed_def)
  have keys: "jkeys (ca_capabilities ?s) = jkeys (ca_capabilities s) @ [cp_id c]"
    using assms(2) by (simp add: ca_store_def jkeys_jset)
  have ch: "children ?s p = children s p" for p
    by (simp add: children_def ca_store_def)
  have "set (nullish (jget (ca_agentIndex ?s) a) []) = {i. \<exists>d. fixed ?s i = Some d \<and> cp_grantedTo d = a}" for a
  proof -
    have "set (nullish (jget (ca_agentIndex ?s) a) []) =
        set (nullish (jget (ca_agentIndex s) a) []) \<union> (if a = cp_grantedTo c then {cp_id c} else {})"
      by (simp add: ca_store_def)
    also have "set (nullish (jget (ca_agentIndex s) a) []) = {i. \<exists>d. fixed s i = Some d \<and> cp_grantedTo d = a}"
      using assms(1) by (simp add: store_inv_def)
    finally show ?thesis
      using new(1) by (auto simp: fixed_store)
  qed
  moreover have "before (jkeys (ca_capabilities ?s)) p i \<and> (\<exists>d. fixed ?s p = Some d \<and> attenuates x d)"
    if x: "fixed ?s i = Some x" "cp_parentCapabilityId x = Some p" for i x p
  proof (cases "i = cp_id c")
    case True
    then obtain d where d: "jget (ca_capabilities s) p = Some d" "attenuates c d"
      using x assms(3) [of p] by (auto simp: fixed_store)
    have "p \<in> set (jkeys (ca_capabilities s))"
      using d(1) jget_jkeys [of "ca_capabilities s" p] by auto
    then have "before (jkeys (ca_capabilities ?s)) p i"
      unfolding keys True using new(2) by (rule before_new)
    then show ?thesis
      using d x True assms(2) by (auto simp: fixed_store) (auto simp: fixed_def)
  next
    case False
    then have "before (jkeys (ca_capabilities s)) p i" "\<exists>d. fixed s p = Some d \<and> attenuates x d"
      using x assms(1) by (auto simp: store_inv_def fixed_store)
    then show ?thesis
      using new(1) unfolding keys by (auto simp: fixed_store before_append)
  qed
  moreover have "fixed ?s p \<noteq> None \<and> (\<exists>d. fixed ?s x = Some d \<and> cp_parentCapabilityId d = Some p)" if "x \<in> children ?s p" for p x
  proof -
    have "fixed s p \<noteq> None \<and> (\<exists>d. fixed s x = Some d \<and> cp_parentCapabilityId d = Some p)"
      using that assms(1) by (simp add: store_inv_def ch)
    then show ?thesis
      using new(1) by (auto simp: fixed_store)
  qed
  moreover have "cp_id d = i" if "fixed ?s i = Some d" for i d
    using that assms(1) by (auto simp: fixed_store store_inv_def split: if_splits)
  ultimately show ?thesis
    unfolding store_inv_def by blast
qed

section \<open>Revocation\<close>

lemma mark_revoked_frame:
  "fixed (mark_revoked now i s) j = fixed s j" "ca_agentIndex (mark_revoked now i s) = ca_agentIndex s"
  "ca_delegationIndex (mark_revoked now i s) = ca_delegationIndex s"
  "jkeys (ca_capabilities (mark_revoked now i s)) = jkeys (ca_capabilities s)"
  unfolding mark_revoked_def by (rule upd_capability_frame; simp add: fixed_part_def)+

lemma mark_revoked_is: "is_revoked j (mark_revoked now i s) \<longleftrightarrow> is_revoked j s \<or> j = i \<and> fixed s i \<noteq> None"
  by (auto simp: is_revoked_def mark_revoked_def upd_capability_def fixed_def split: option.splits)

lemma mark_revoked_expiry: "map_option cp_expiresAt (jget (ca_capabilities (mark_revoked now i s)) j) = map_option cp_expiresAt (jget (ca_capabilities s) j)"
  by (auto simp: mark_revoked_def upd_capability_def split: option.splits)

lemma cascade_frame:
  "(\<forall>j. fixed (cascadeRevoke clk k todo s) j = fixed s j) \<and> ca_agentIndex (cascadeRevoke clk k todo s) = ca_agentIndex s \<and>
   ca_delegationIndex (cascadeRevoke clk k todo s) = ca_delegationIndex s \<and>
   jkeys (ca_capabilities (cascadeRevoke clk k todo s)) = jkeys (ca_capabilities s) \<and>
   (\<forall>j. map_option cp_expiresAt (jget (ca_capabilities (cascadeRevoke clk k todo s)) j) = map_option cp_expiresAt (jget (ca_capabilities s) j))"
  by (induction clk k todo s rule: cascadeRevoke.induct)
    (simp_all add: Let_def mark_revoked_frame mark_revoked_expiry split: option.split)

lemma cascade_visit:
  assumes "jget (ca_capabilities s) i = Some c" "\<not> cp_revoked c"
  shows "jget (ca_delegationIndex s) i = None \<Longrightarrow> cascadeRevoke clk k ((i, now) # todo) s = cascadeRevoke clk k todo (mark_revoked now i s)"
    "jget (ca_delegationIndex s) i = Some cs \<Longrightarrow> cascadeRevoke clk k ((i, now) # todo) s =
      cascadeRevoke clk (k + 1) (map (\<lambda>c. (c, clk k)) cs @ todo) (mark_revoked now i s)"
  using assms by (simp_all add: Let_def mark_revoked_frame(3))

lemma fst_stack: "fst ` set (map (\<lambda>c. (c, t)) cs @ todo) = set cs \<union> fst ` set todo"
  by force

lemma closed_but_mono: "closed_but W s \<Longrightarrow> W \<subseteq> W' \<union> {x. is_revoked x s} \<union> {x. fixed s x = None} \<Longrightarrow> store_inv s \<Longrightarrow> closed_but W' s"
  by (fastforce simp: closed_but_def store_inv_def)

lemma closed_mark:
  "closed_but W s \<Longrightarrow> closed_but (W \<union> children s i) (mark_revoked now i s)"
  by (auto simp: closed_but_def mark_revoked_is children_def mark_revoked_frame)

lemma cascade_closed:
  assumes "store_inv s" "closed_but (fst ` set todo) s"
  shows "closed_but {} (cascadeRevoke clk k todo s)"
  using assms
proof (induction clk k todo s rule: cascadeRevoke.induct)
  case (2 clk k childId now todo s)
  show ?case
  proof (cases "jget (ca_capabilities s) childId")
    case None
    then have "closed_but (fst ` set todo) s"
      using "2.prems" by (intro closed_but_mono [OF "2.prems"(2)]) (auto simp: fixed_def)
    then show ?thesis
      using None "2.IH" "2.prems"(1) by simp
  next
    case (Some child)
    show ?thesis
    proof (cases "cp_revoked child")
      case True
      then have "closed_but (fst ` set todo) s"
        using Some "2.prems" by (intro closed_but_mono [OF "2.prems"(2)]) (auto simp: is_revoked_def)
      then show ?thesis
        using Some True "2.IH"(4) "2.prems"(1) by simp
    next
      case False
      let ?s = "mark_revoked now childId s"
      have inv: "store_inv ?s"
        using "2.prems"(1) by (rule store_inv_cong) (simp_all add: mark_revoked_frame)
      have "closed_but (fst ` set todo \<union> children s childId) ?s"
        using Some by (intro closed_but_mono [OF closed_mark [OF "2.prems"(2), of childId now] _ inv]) (auto simp: mark_revoked_is fixed_def)
      then have closed: "closed_but (children s childId \<union> fst ` set todo) ?s"
        by (simp add: Un_commute)
      show ?thesis
      proof (cases "jget (ca_delegationIndex s) childId")
        case None
        then have "closed_but (fst ` set todo) ?s"
          using closed by (simp add: children_def)
        then show ?thesis
          unfolding cascade_visit(1) [OF Some False None]
          by (intro "2.IH"(2) [OF Some False refl _ inv]) (simp add: None mark_revoked_frame)
      next
        case children: (Some cs)
        then have "closed_but (fst ` set (map (\<lambda>c. (c, clk k)) cs @ todo)) ?s"
          using closed unfolding fst_stack by (simp add: children_def)
        then show ?thesis
          unfolding cascade_visit(2) [OF Some False children]
          by (intro "2.IH"(3) [OF Some False refl _ inv]) (simp_all add: children mark_revoked_frame)
      qed
    qed
  qed
qed simp

lemma cascade_only:
  assumes "is_revoked x (cascadeRevoke clk k todo s)"
  shows "is_revoked x s \<or> (\<exists>y \<in> fst ` set todo. (y, x) \<in> (delegated s)\<^sup>*)"
  using assms
proof (induction clk k todo s rule: cascadeRevoke.induct)
  case (2 clk k childId now todo s)
  have del: "delegated (mark_revoked now childId s) = delegated s"
    by (simp add: delegated_def children_def mark_revoked_frame)
  show ?case
  proof (cases "is_revoked childId s \<or> jget (ca_capabilities s) childId = None")
    case True
    then have "is_revoked x (cascadeRevoke clk k todo s)"
      using "2.prems" by (auto simp: is_revoked_def split: option.splits)
    then show ?thesis
      using True "2.IH" by (cases "jget (ca_capabilities s) childId") (auto simp: is_revoked_def)
  next
    case False
    then obtain c where c: "jget (ca_capabilities s) childId = Some c" "\<not> cp_revoked c"
      by (auto simp: is_revoked_def)
    have m: "is_revoked y (mark_revoked now childId s) \<Longrightarrow> is_revoked y s \<or> y = childId" for y
      by (auto simp: mark_revoked_is)
    have step: "(childId, y) \<in> (delegated s)\<^sup>*" if "jget (ca_delegationIndex s) childId = Some cs" "z \<in> set cs" "(z, y) \<in> (delegated s)\<^sup>*" for cs z y
      using that by (intro converse_rtrancl_into_rtrancl [of childId z]) (auto simp: delegated_def children_def)
    show ?thesis
    proof (cases "jget (ca_delegationIndex s) childId")
      case None
      then have "is_revoked x (mark_revoked now childId s) \<or> (\<exists>y \<in> fst ` set todo. (y, x) \<in> (delegated s)\<^sup>*)"
        using "2.IH"(2) [OF c refl] "2.prems" unfolding del cascade_visit(1) [OF c None] mark_revoked_frame(3) by blast
      then show ?thesis
        using m by auto
    next
      case (Some cs)
      then have "is_revoked x (mark_revoked now childId s) \<or> (\<exists>y \<in> fst ` set (map (\<lambda>c. (c, clk k)) cs @ todo). (y, x) \<in> (delegated s)\<^sup>*)"
        using "2.IH"(3) [OF c refl, of cs] "2.prems" unfolding del cascade_visit(2) [OF c Some] mark_revoked_frame(3) by blast
      then show ?thesis
        using m step [OF Some] unfolding fst_stack by auto
    qed
  qed
qed simp

lemma closed_reach: "(p, x) \<in> (delegated s)\<^sup>* \<Longrightarrow> closed_but {} s \<Longrightarrow> is_revoked p s \<Longrightarrow> is_revoked x s"
  by (induction rule: rtrancl_induct) (auto simp: closed_but_def delegated_def)

lemma revoke_frame:
  "fixed (ca_revoke clk i s) j = fixed s j" "ca_agentIndex (ca_revoke clk i s) = ca_agentIndex s"
  "ca_delegationIndex (ca_revoke clk i s) = ca_delegationIndex s" "jkeys (ca_capabilities (ca_revoke clk i s)) = jkeys (ca_capabilities s)"
  "map_option cp_expiresAt (jget (ca_capabilities (ca_revoke clk i s)) j) = map_option cp_expiresAt (jget (ca_capabilities s) j)"
  by (simp_all add: ca_revoke_def Let_def cascade_frame mark_revoked_frame mark_revoked_expiry split: option.split)

lemma revoke_closed:
  assumes "store_inv s" "closed_but {} s"
  shows "closed_but {} (ca_revoke clk i s)"
proof (cases "jget (ca_capabilities s) i")
  case (Some c)
  have inv: "store_inv (mark_revoked (clk 0) i s)"
    using assms(1) by (rule store_inv_cong) (simp_all add: mark_revoked_frame)
  have closed: "closed_but (children s i) (mark_revoked (clk 0) i s)"
    using closed_mark [OF assms(2), of i] by simp
  show ?thesis
  proof (cases "jget (ca_delegationIndex s) i")
    case None
    then show ?thesis
      using Some closed by (simp add: ca_revoke_def children_def mark_revoked_frame Let_def)
  next
    case children: (Some cs)
    have "fst ` set (map (\<lambda>c. (c, clk 1)) cs) = set cs"
      by force
    then show ?thesis
      using Some children closed cascade_closed [OF inv, of "map (\<lambda>c. (c, clk 1)) cs"]
      by (simp add: ca_revoke_def children_def mark_revoked_frame Let_def)
  qed
qed (simp add: ca_revoke_def assms)

lemma revoke_exact:
  assumes "store_inv s" "closed_but {} s" "fixed s i \<noteq> None"
  shows "is_revoked x (ca_revoke clk i s) \<longleftrightarrow> is_revoked x s \<or> (i, x) \<in> (delegated s)\<^sup>*"
proof -
  obtain c where c: "jget (ca_capabilities s) i = Some c"
    using assms(3) by (auto simp: fixed_def)
  let ?m = "mark_revoked (clk 0) i s"
  have del: "delegated ?m = delegated s" "delegated (ca_revoke clk i s) = delegated s"
    by (simp_all add: delegated_def children_def mark_revoked_frame revoke_frame)
  have "is_revoked x s \<or> (i, x) \<in> (delegated s)\<^sup>*" if r: "is_revoked x (ca_revoke clk i s)"
  proof (cases "jget (ca_delegationIndex s) i")
    case None
    then show ?thesis
      using r c by (auto simp: ca_revoke_def mark_revoked_frame mark_revoked_is Let_def)
  next
    case (Some cs)
    then have "is_revoked x (cascadeRevoke clk 2 (map (\<lambda>c. (c, clk 1)) cs) ?m)"
      using r c by (simp add: ca_revoke_def mark_revoked_frame Let_def)
    from cascade_only [OF this] have "is_revoked x ?m \<or> (\<exists>y \<in> set cs. (y, x) \<in> (delegated s)\<^sup>*)"
      unfolding del by force
    moreover have "(i, y) \<in> delegated s" if "y \<in> set cs" for y
      using that Some by (simp add: delegated_def children_def)
    ultimately show ?thesis
      by (auto simp: mark_revoked_is intro: converse_rtrancl_into_rtrancl)
  qed
  moreover have keep: "is_revoked y t \<Longrightarrow> is_revoked y (cascadeRevoke clk k todo t)" for y k todo t
    by (induction clk k todo t rule: cascadeRevoke.induct) (auto simp: Let_def mark_revoked_is split: option.split)
  have "is_revoked y ?m \<Longrightarrow> is_revoked y (ca_revoke clk i s)" for y
    using c keep by (auto simp: ca_revoke_def mark_revoked_frame Let_def split: option.split)
  then have "is_revoked x s \<Longrightarrow> is_revoked x (ca_revoke clk i s)" "is_revoked i (ca_revoke clk i s)"
    using assms(3) by (auto simp: mark_revoked_is)
  ultimately show ?thesis
    using closed_reach [OF _ revoke_closed [OF assms(1,2)], of i x clk i] unfolding del by blast
qed

section \<open>Every operation keeps the invariants\<close>

definition cap_inv :: "algebra \<Rightarrow> bool" where
  "cap_inv s \<longleftrightarrow> store_inv s \<and> closed_but {} s"

lemma fixed_Some: "fixed s i = Some c \<longleftrightarrow> (\<exists>d. jget (ca_capabilities s) i = Some d \<and> c = fixed_part d)"
  by (auto simp: fixed_def)

lemma store_invD:
  assumes "store_inv s"
  shows "fixed s i = Some c \<Longrightarrow> cp_id c = i"
    "set (nullish (jget (ca_agentIndex s) a) []) = {i. \<exists>c. fixed s i = Some c \<and> cp_grantedTo c = a}"
    "x \<in> children s p \<Longrightarrow> fixed s p \<noteq> None" "x \<in> children s p \<Longrightarrow> \<exists>c. fixed s x = Some c \<and> cp_parentCapabilityId c = Some p"
    "fixed s i = Some c \<Longrightarrow> cp_parentCapabilityId c = Some p \<Longrightarrow> before (jkeys (ca_capabilities s)) p i"
    "fixed s i = Some c \<Longrightarrow> cp_parentCapabilityId c = Some p \<Longrightarrow> \<exists>d. fixed s p = Some d \<and> attenuates c d"
  using assms unfolding store_inv_def by blast+

lemma child_stored: "store_inv s \<Longrightarrow> x \<in> children s p \<Longrightarrow> fixed s p \<noteq> None \<and> fixed s x \<noteq> None"
  using store_invD(3,4) by fastforce

lemma stored_id: "store_inv s \<Longrightarrow> jget (ca_capabilities s) i = Some c \<Longrightarrow> cp_id c = i"
  using store_invD(1) [of s i "fixed_part c"] by (simp add: fixed_def)

lemma closed_store:
  assumes "cap_inv s" "jget (ca_capabilities s) (cp_id c) = None"
  shows "closed_but {} (ca_store c s)"
proof -
  have "is_revoked x (ca_store c s) = is_revoked x s" if "fixed s x \<noteq> None" for x
    using that assms(2) by (auto simp: is_revoked_def ca_store_def fixed_def)
  moreover have "children (ca_store c s) p = children s p" for p
    by (simp add: children_def ca_store_def)
  ultimately show ?thesis
    using assms(1) child_stored [of s] by (simp add: cap_inv_def closed_but_def)
qed

lemma store_new_cap_inv:
  assumes "cap_inv s" "jget (ca_capabilities s) (cp_id c) = None"
    "\<And>p. cp_parentCapabilityId c = Some p \<Longrightarrow> \<exists>d. jget (ca_capabilities s) p = Some d \<and> attenuates c d"
  shows "cap_inv (ca_store c s)"
  using store_new_inv [OF _ assms(2,3)] closed_store [OF assms(1,2)] assms(1) by (simp add: cap_inv_def)

text \<open>Recording a delegation whose parent is live.\<close>

lemma delegation_link_inv:
  assumes "cap_inv s" "jget (ca_capabilities s) x = Some c" "cp_parentCapabilityId c = Some p"
    "jget (ca_capabilities s) p = Some d" "\<not> cp_revoked d"
  shows "cap_inv (s\<lparr>ca_delegationIndex := jset p (sadd x (nullish (jget (ca_delegationIndex s) p) [])) (ca_delegationIndex s)\<rparr>)"
proof -
  let ?s = "s\<lparr>ca_delegationIndex := jset p (sadd x (nullish (jget (ca_delegationIndex s) p) [])) (ca_delegationIndex s)\<rparr>"
  have ch: "children ?s q = children s q \<union> (if q = p then {x} else {})" for q
    by (auto simp: children_def)
  have same: "fixed ?s = fixed s" "is_revoked i ?s = is_revoked i s" for i
    by (auto simp: fun_eq_iff fixed_def is_revoked_def)
  have "store_inv ?s"
  proof -
    have "y \<in> children ?s q \<Longrightarrow> fixed s q \<noteq> None \<and> (\<exists>c. fixed s y = Some c \<and> cp_parentCapabilityId c = Some q)" for y q
      using assms store_invD(3,4) [of s y q] by (auto simp: ch cap_inv_def fixed_def split: if_splits)
    moreover have "store_inv s"
      using assms(1) by (simp add: cap_inv_def)
    ultimately show ?thesis
      unfolding store_inv_def same by simp
  qed
  moreover have "closed_but {} ?s"
    using assms unfolding cap_inv_def closed_but_def same ch by (auto simp: is_revoked_def)
  ultimately show ?thesis
    by (simp add: cap_inv_def)
qed

lemma narrowed_attenuates:
  "set (narrow_actions r c) \<subseteq> set (cp_actions c)" "set (cp_constraints c) \<subseteq> set (widen_constraints r c)"
  "no_later (shorten_expiry r c) (cp_expiresAt c)"
  by (auto simp: narrow_actions_def widen_constraints_def shorten_expiry_def no_later_def split: option.splits)

lemma upd_cap_inv:
  assumes "cap_inv s" "\<And>c. fixed_part (f c) = fixed_part c" "\<And>c. cp_revoked (f c) = cp_revoked c"
  shows "cap_inv (upd_capability i f s)"
proof -
  have "is_revoked j (upd_capability i f s) = is_revoked j s" for j
    using assms(3) by (auto simp: is_revoked_def upd_capability_def split: option.split)
  moreover have "children (upd_capability i f s) p = children s p" for p
    by (simp add: children_def upd_capability_frame(3) [OF assms(2)])
  ultimately have "closed_but {} (upd_capability i f s)"
    using assms(1) by (simp add: cap_inv_def closed_but_def)
  then show ?thesis
    using upd_capability_inv [OF _ assms(2)] assms(1) by (simp add: cap_inv_def)
qed

lemma delegate_ok:
  assumes "fst (ca_delegate uuid clk c a ro s) = Inr c1"
  shows "snd (ca_delegate uuid clk c a ro s) = (ca_store c1 s)\<lparr>ca_delegationIndex :=
      jset (cp_id c) (sadd uuid (nullish (jget (ca_delegationIndex (ca_store c1 s)) (cp_id c)) [])) (ca_delegationIndex (ca_store c1 s))\<rparr> \<and>
    cp_id c1 = uuid \<and> cp_parentCapabilityId c1 = Some (cp_id c) \<and> attenuates c1 c \<and> \<not> cp_revoked c \<and>
    no_later (cp_expiresAt c1) (cp_expiresAt c)"
  using assms narrowed_attenuates [where c = c and r = "nullish ro \<lparr>rs_actions = None, rs_constraints = None, rs_expiresAt = None, rs_delegatable = None\<rparr>"]
  by (auto simp: ca_delegate_def Let_def attenuates_def split: if_splits)

lemma delegate_fails: "fst (ca_delegate uuid clk c a ro s) = Inl e \<Longrightarrow> snd (ca_delegate uuid clk c a ro s) = s"
  by (auto simp: ca_delegate_def Let_def split: if_splits)

lemma restrict_ok:
  "\<exists>c1. ca_restrict uuid now c r s = (c1, ca_store c1 s) \<and> cp_id c1 = uuid \<and> cp_parentCapabilityId c1 = Some (cp_id c) \<and> attenuates c1 c \<and>
     no_later (cp_expiresAt c1) (cp_expiresAt c)"
  using narrowed_attenuates [where c = c and r = r] by (auto simp: ca_restrict_def Let_def attenuates_def)

lemma cap_step_inv:
  assumes "fresh_uuid a s" "cap_inv s"
  shows "cap_inv (cap_step a s)"
proof (cases a)
  case (CGrant uuid now p)
  then show ?thesis
    using assms by (auto simp: ca_grant_def getCapability_def Let_def intro!: store_new_cap_inv)
next
  case (CRestrict uuid now i r)
  show ?thesis
  proof (cases "jget (ca_capabilities s) i")
    case (Some c)
    then have "cp_id c = i"
      using assms(2) stored_id by (auto simp: cap_inv_def)
    moreover obtain c1 where "ca_restrict uuid now c r s = (c1, ca_store c1 s)" "cp_id c1 = uuid" "cp_parentCapabilityId c1 = Some (cp_id c)"
        "attenuates c1 c"
      using restrict_ok by blast
    ultimately show ?thesis
      using CRestrict Some assms by (auto simp: getCapability_def intro!: store_new_cap_inv)
  qed (use CRestrict assms in \<open>simp add: getCapability_def\<close>)
next
  case (CDelegate uuid clk i ag r)
  show ?thesis
  proof (cases "jget (ca_capabilities s) i")
    case (Some c)
    have i: "cp_id c = i"
      using assms(2) Some stored_id by (auto simp: cap_inv_def)
    show ?thesis
    proof (cases "fst (ca_delegate uuid clk c ag r s)")
      case (Inl e)
      then show ?thesis
        using CDelegate Some assms(2) by (simp add: getCapability_def delegate_fails)
    next
      case (Inr c1)
      note d = delegate_ok [OF Inr]
      have fresh: "jget (ca_capabilities s) (cp_id c1) = None"
        using assms(1) CDelegate d by (simp add: getCapability_def)
      have inv: "cap_inv (ca_store c1 s)"
        using d i Some by (intro store_new_cap_inv [OF assms(2) fresh]) auto
      have "jget (ca_capabilities (ca_store c1 s)) uuid = Some c1" "jget (ca_capabilities (ca_store c1 s)) i = Some c"
        using d Some fresh by (auto simp: ca_store_def)
      from delegation_link_inv [OF inv this(1) _ this(2)] show ?thesis
        using CDelegate Some d i by (simp add: getCapability_def)
    qed
  qed (use CDelegate assms in \<open>simp add: getCapability_def\<close>)
next
  case (CCompose uuid now i j)
  then show ?thesis
    using assms by (auto simp: ca_compose_def getCapability_def Let_def intro!: store_new_cap_inv split: option.split)
next
  case (CRevoke clk i)
  have "store_inv s"
    using assms(2) by (simp add: cap_inv_def)
  then have "store_inv (ca_revoke clk i s)"
    by (rule store_inv_cong) (rule revoke_frame)+
  then show ?thesis
    using CRevoke assms(2) revoke_closed [of s clk i] by (simp add: cap_inv_def)
qed (use assms in \<open>auto simp: ca_expire_def ca_attest_def fixed_part_def intro!: upd_cap_inv\<close>)

interpretation capability_store: guarded_system fresh_uuid cap_step cap_inv
  by unfold_locales (rule cap_step_inv)

lemma create_inv: "cap_inv createCapabilityAlgebra"
  by (simp add: cap_inv_def store_inv_def closed_but_def createCapabilityAlgebra_def fixed_def children_def)

text \<open>The delegation index holds exactly the delegations of the run.\<close>

lemma delegated_simps:
  "delegated (ca_store c s) = delegated s" "delegated (upd_capability i f s) = delegated s"
  "delegated (ca_revoke clk i s) = delegated s"
  "delegated (s\<lparr>ca_delegationIndex := jset p (sadd x (nullish (jget (ca_delegationIndex s) p) [])) (ca_delegationIndex s)\<rparr>) = insert (p, x) (delegated s)"
  by (auto simp: delegated_def children_def ca_store_def upd_capability_def revoke_frame split: option.splits if_splits)

lemma step_delegated:
  assumes "cap_inv s"
  shows "delegated (cap_step a s) = delegated s \<union> delegation_of a s"
proof (cases a)
  case (CDelegate uuid clk i ag r)
  show ?thesis
  proof (cases "jget (ca_capabilities s) i")
    case (Some c)
    have "cp_id c = i"
      using assms Some stored_id by (auto simp: cap_inv_def)
    then show ?thesis
      using CDelegate Some delegate_ok [of uuid clk c ag r s] delegate_fails [of uuid clk c ag r s]
      by (cases "fst (ca_delegate uuid clk c ag r s)") (simp_all add: getCapability_def delegated_simps)
  qed (use CDelegate in \<open>simp add: getCapability_def\<close>)
qed (auto simp: ca_grant_def ca_restrict_def ca_compose_def ca_expire_def ca_attest_def Let_def delegated_simps split: option.split)

lemma run_delegated:
  "run_ok fresh_uuid cap_step ops s \<Longrightarrow> cap_inv s \<Longrightarrow> delegated (run cap_step ops s) = delegated s \<union> delegations ops s"
  by (induction ops arbitrary: s) (auto simp: step_delegated cap_step_inv)

lemma create_delegated: "delegated createCapabilityAlgebra = {}"
  by (simp add: delegated_def children_def createCapabilityAlgebra_def)

text \<open>
  C5. Revocation is exact. In every state the class can reach, revoking a capability revokes it and everything that some call of
  \<open>delegate\<close> made from it, directly or through further delegations, and nothing else. The delegations are those of the history of calls.
\<close>

theorem revocation_exact:
  assumes "run_ok fresh_uuid cap_step ops createCapabilityAlgebra" and "s = run cap_step ops createCapabilityAlgebra"
    and "getCapability i s \<noteq> None"
  shows "is_revoked x (ca_revoke clk i s) \<longleftrightarrow> is_revoked x s \<or> (i, x) \<in> (delegations ops createCapabilityAlgebra)\<^sup>*"
proof -
  have "cap_inv s" "delegated s = delegations ops createCapabilityAlgebra"
    unfolding assms(2) using capability_store.guarded_run [OF assms(1) create_inv] run_delegated [OF assms(1) create_inv]
    by (simp_all add: create_delegated)
  then show ?thesis
    using revoke_exact [of s i x clk] assms(3) by (simp add: cap_inv_def fixed_def getCapability_def)
qed







section \<open>What a check allows\<close>










section \<open>Delegation chains\<close>

lemma no_later_refl: "no_later t t"
  by (simp add: no_later_def split: option.split)

lemma no_later_trans: "no_later t u \<Longrightarrow> no_later u v \<Longrightarrow> no_later t v"
  by (auto simp: no_later_def split: option.splits)

lemma attenuates_trans: "attenuates c d \<Longrightarrow> attenuates d e \<Longrightarrow> attenuates c e"
  by (auto simp: attenuates_def)

lemma isSubset_iff:
  "attenuates c d \<Longrightarrow> isSubset c d \<longleftrightarrow> no_later (cp_expiresAt c) (cp_expiresAt d)"
  by (auto simp: isSubset_def attenuates_def no_later_def list_all_iff)

lemma before_irrefl: "\<not> before xs a a"
  by (auto simp: before_def dest: set_takeWhileD)

text \<open>Parents come earlier in the map, so the number of keys before a capability decreases along the chain.\<close>

definition chain_place :: "algebra \<Rightarrow> string \<Rightarrow> nat" where
  "chain_place s i = length (takeWhile (\<lambda>x. x \<noteq> i) (jkeys (ca_capabilities s)))"

lemma before_chain_place: "before (jkeys (ca_capabilities s)) p i \<Longrightarrow> chain_place s p < chain_place s i"
proof -
  have "a \<in> set (takeWhile (\<lambda>x. x \<noteq> b) xs) \<Longrightarrow> length (takeWhile (\<lambda>x. x \<noteq> a) xs) < length (takeWhile (\<lambda>x. x \<noteq> b) xs)" for a b :: string and xs
    by (induction xs) (auto split: if_splits)
  then show "before (jkeys (ca_capabilities s)) p i \<Longrightarrow> chain_place s p < chain_place s i"
    by (simp add: before_def chain_place_def)
qed

lemma chain_from_ends:
  assumes "store_inv s" "jget (ca_capabilities s) i = Some c"
    and le: "\<And>j c p d. jget (ca_capabilities s) j = Some c \<Longrightarrow> cp_parentCapabilityId c = Some p \<Longrightarrow>
      jget (ca_capabilities s) p = Some d \<Longrightarrow> attenuates c d \<Longrightarrow> le c d"
    and trans: "\<And>c d e. le c d \<Longrightarrow> le d e \<Longrightarrow> le c e"
    and "sorted_wrt (\<lambda>p c. le c p) (c # rest)"
  shows "\<exists>chain. chain_from s i rest = Some (chain @ rest) \<and> chain \<noteq> [] \<and> last chain = c \<and> cp_parentCapabilityId (hd chain) = None \<and>
    set chain \<subseteq> set (jvalues (ca_capabilities s)) \<and> sorted_wrt (\<lambda>p c. le c p) (chain @ rest)"
  using assms(2,5)
proof (induction "chain_place s i" arbitrary: i c rest rule: less_induct)
  case less
  have mem: "c \<in> set (jvalues (ca_capabilities s))"
    using jget_mem [OF less.prems(1)] by (force simp: jvalues_def)
  show ?case
  proof (cases "cp_parentCapabilityId c")
    case None
    then show ?thesis
      using less.prems mem by (intro exI [of _ "[c]"]) (simp add: chain_from.simps [of s i])
  next
    case (Some p)
    have f: "fixed s i = Some (fixed_part c)"
      using less.prems(1) by (simp add: fixed_def)
    obtain d where d: "jget (ca_capabilities s) p = Some d" "attenuates c d"
      using store_invD(6) [OF assms(1) f] Some by (auto simp: fixed_Some)
    have "chain_place s p < chain_place s i"
      using store_invD(5) [OF assms(1) f] Some by (simp add: before_chain_place)
    moreover have "sorted_wrt (\<lambda>p c. le c p) (d # c # rest)"
      using less.prems(2) le [OF less.prems(1) Some d] by (auto intro: trans)
    ultimately obtain chain where "chain_from s p (c # rest) = Some (chain @ c # rest)" "chain \<noteq> []" "cp_parentCapabilityId (hd chain) = None"
        "set chain \<subseteq> set (jvalues (ca_capabilities s))" "sorted_wrt (\<lambda>p c. le c p) (chain @ c # rest)"
      using less.hyps [OF _ d(1)] by blast
    then show ?thesis
      using less.prems(1) Some mem by (intro exI [of _ "chain @ [c]"]) (simp add: chain_from.simps [of s i])
  qed
qed

definition no_expire :: "cap_op \<Rightarrow> algebra \<Rightarrow> bool" where
  "no_expire a s \<longleftrightarrow> fresh_uuid a s \<and> (\<forall>now i. a \<noteq> CExpire now i)"

lemma store_expiry:
  assumes "store_inv s" "expiry_inv s" "jget (ca_capabilities s) (cp_id c) = None"
    "\<And>p d. cp_parentCapabilityId c = Some p \<Longrightarrow> jget (ca_capabilities s) p = Some d \<Longrightarrow> no_later (cp_expiresAt c) (cp_expiresAt d)"
  shows "expiry_inv (ca_store c s)"
  unfolding expiry_inv_def
proof (intro allI impI)
  fix i x p d
  assume a: "jget (ca_capabilities (ca_store c s)) i = Some x" "cp_parentCapabilityId x = Some p" "jget (ca_capabilities (ca_store c s)) p = Some d"
  show "no_later (cp_expiresAt x) (cp_expiresAt d)"
  proof (cases "i = cp_id c")
    case True
    then show ?thesis
      using a assms(4) by (auto simp: ca_store_def no_later_refl split: if_splits)
  next
    case False
    then have x: "jget (ca_capabilities s) i = Some x"
      using a(1) by (simp add: ca_store_def)
    then have "p \<noteq> cp_id c"
      using store_invD(6) [OF assms(1), of i "fixed_part x" p] a(2) assms(3) by (auto simp: fixed_def)
    then show ?thesis
      using x a assms(2) unfolding expiry_inv_def by (simp add: ca_store_def)
  qed
qed

lemma expiry_cong:
  assumes "expiry_inv s" "\<And>i. fixed s' i = fixed s i"
    "\<And>i. map_option cp_expiresAt (jget (ca_capabilities s') i) = map_option cp_expiresAt (jget (ca_capabilities s) i)"
  shows "expiry_inv s'"
  unfolding expiry_inv_def
proof (intro allI impI)
  fix i c p d
  assume a: "jget (ca_capabilities s') i = Some c" "cp_parentCapabilityId c = Some p" "jget (ca_capabilities s') p = Some d"
  obtain c0 where c0: "jget (ca_capabilities s) i = Some c0" "fixed_part c0 = fixed_part c" "cp_expiresAt c0 = cp_expiresAt c"
    using assms(2,3) [of i] a(1) by (cases "jget (ca_capabilities s) i") (auto simp: fixed_def)
  obtain d0 where d0: "jget (ca_capabilities s) p = Some d0" "cp_expiresAt d0 = cp_expiresAt d"
    using assms(3) [of p] a(3) by (cases "jget (ca_capabilities s) p") auto
  have "cp_parentCapabilityId c0 = Some p"
    using c0(2) a(2) by (metis fixed_part_sel(8))
  then show "no_later (cp_expiresAt c) (cp_expiresAt d)"
    using assms(1) c0(1,3) d0 unfolding expiry_inv_def by metis
qed

lemma expiry_step:
  assumes "no_expire a s" "cap_inv s" "expiry_inv s"
  shows "expiry_inv (cap_step a s)"
proof -
  have inv: "store_inv s" and fresh: "fresh_uuid a s"
    using assms(1,2) by (auto simp: cap_inv_def no_expire_def)
  show ?thesis
  proof (cases a)
    case (CGrant uuid now p)
    then show ?thesis
      using inv assms(3) fresh by (auto simp: ca_grant_def getCapability_def Let_def intro!: store_expiry)
  next
    case (CRestrict uuid now i r)
    show ?thesis
    proof (cases "jget (ca_capabilities s) i")
      case (Some c)
      obtain c1 where "ca_restrict uuid now c r s = (c1, ca_store c1 s)" "cp_id c1 = uuid" "cp_parentCapabilityId c1 = Some (cp_id c)"
          "no_later (cp_expiresAt c1) (cp_expiresAt c)"
        using restrict_ok by blast
      then show ?thesis
        using CRestrict Some inv assms(3) fresh stored_id [OF inv Some] by (auto simp: getCapability_def intro!: store_expiry)
    qed (use CRestrict assms in \<open>simp add: getCapability_def\<close>)
  next
    case (CDelegate uuid clk i ag r)
    show ?thesis
    proof (cases "jget (ca_capabilities s) i")
      case (Some c)
      show ?thesis
      proof (cases "fst (ca_delegate uuid clk c ag r s)")
        case (Inl e)
        then show ?thesis
          using CDelegate Some assms(3) by (simp add: getCapability_def delegate_fails)
      next
        case (Inr c1)
        note d = delegate_ok [OF Inr]
        have "expiry_inv (ca_store c1 s)"
          using d fresh CDelegate Some stored_id [OF inv Some] by (intro store_expiry [OF inv assms(3)]) (auto simp: getCapability_def)
        then show ?thesis
          using CDelegate Some d by (simp add: getCapability_def expiry_inv_def)
      qed
    qed (use CDelegate assms in \<open>simp add: getCapability_def\<close>)
  next
    case (CCompose uuid now i j)
    then show ?thesis
      using inv assms(3) fresh by (auto simp: ca_compose_def getCapability_def Let_def intro!: store_expiry split: option.split)
  next
    case (CRevoke clk i)
    then show ?thesis
      using expiry_cong [OF assms(3), of "ca_revoke clk i s"] by (simp add: revoke_frame)
  next
    case (CAttest now i at)
    then show ?thesis
      using assms(3) by (auto simp: ca_attest_def upd_capability_def expiry_inv_def split: option.split)
  qed (use assms(1) in \<open>auto simp: no_expire_def\<close>)
qed

interpretation unexpired_store: guarded_system no_expire cap_step "\<lambda>s. cap_inv s \<and> expiry_inv s"
  by unfold_locales (auto simp: expiry_step cap_step_inv no_expire_def)

lemma run_no_expire:
  "run_ok fresh_uuid cap_step ops s \<Longrightarrow> \<forall>now j. CExpire now j \<notin> set ops \<Longrightarrow> run_ok no_expire cap_step ops s"
  by (induction ops arbitrary: s) (auto simp: no_expire_def)

text \<open>
  C39. Delegation only narrows. In every state the class can reach, \<open>getDelegationChain\<close> ends for every stored capability with a chain
  from a root grant to it, along which scope and resource stay, actions are only taken away, constraints only added, and a capability
  is delegatable only if all before it are. If \<open>expire\<close> was never called, each is also a subset in the sense of \<open>isSubset\<close>, which
  compares the expiry times, of all those before it; \<open>expire\<close> on a parent leaves the child with the later time.
\<close>

theorem delegation_chain_narrows:
  assumes "run_ok fresh_uuid cap_step ops createCapabilityAlgebra" and "s = run cap_step ops createCapabilityAlgebra"
    and "getCapability i s = Some c"
  shows "\<exists>chain. getDelegationChain i s = Some chain \<and> chain \<noteq> [] \<and> last chain = c \<and> cp_parentCapabilityId (hd chain) = None \<and>
    set chain \<subseteq> set (jvalues (ca_capabilities s)) \<and> sorted_wrt (\<lambda>p c. attenuates c p) chain \<and>
    ((\<forall>now j. CExpire now j \<notin> set ops) \<longrightarrow> sorted_wrt (\<lambda>p c. isSubset c p) chain)"
proof -
  have inv: "store_inv s"
    unfolding assms(2) using capability_store.guarded_run [OF assms(1) create_inv] by (simp add: cap_inv_def)
  obtain chain where chain: "chain_from s i [] = Some chain" "chain \<noteq> []" "last chain = c" "cp_parentCapabilityId (hd chain) = None"
      "set chain \<subseteq> set (jvalues (ca_capabilities s))" "sorted_wrt (\<lambda>p c. attenuates c p) chain"
    using chain_from_ends [OF inv, of i c attenuates "[]"] assms(3) by (auto simp: getCapability_def intro: attenuates_trans)
  have "sorted_wrt (\<lambda>p c. isSubset c p) chain" if "\<forall>now j. CExpire now j \<notin> set ops"
  proof -
    have "expiry_inv createCapabilityAlgebra"
      by (simp add: expiry_inv_def createCapabilityAlgebra_def)
    then have e: "expiry_inv s"
      unfolding assms(2) using unexpired_store.guarded_run [OF run_no_expire [OF assms(1) that]] create_inv by blast
    let ?le = "\<lambda>c p. attenuates c p \<and> no_later (cp_expiresAt c) (cp_expiresAt p)"
    have step: "?le c d" if "jget (ca_capabilities s) j = Some c" "cp_parentCapabilityId c = Some p" "jget (ca_capabilities s) p = Some d"
        "attenuates c d" for j c p d
      using e that unfolding expiry_inv_def by blast
    have trans: "?le c d \<Longrightarrow> ?le d e \<Longrightarrow> ?le c e" for c d e
      using attenuates_trans no_later_trans by blast
    have "jget (ca_capabilities s) i = Some c"
      using assms(3) by (simp add: getCapability_def)
    then have "\<exists>chain. chain_from s i [] = Some (chain @ []) \<and> chain \<noteq> [] \<and> last chain = c \<and> cp_parentCapabilityId (hd chain) = None \<and>
        set chain \<subseteq> set (jvalues (ca_capabilities s)) \<and> sorted_wrt (\<lambda>p c. ?le c p) (chain @ [])"
      by (rule chain_from_ends [OF inv, where le = ?le]) (erule step trans; assumption | simp)+
    then obtain chain' where "chain_from s i [] = Some chain'" "sorted_wrt (\<lambda>p c. ?le c p) chain'"
      unfolding append_Nil2 by blast
    then have "sorted_wrt (\<lambda>p c. ?le c p) chain"
      using chain(1) by simp
    then show ?thesis
      by (rule sorted_wrt_mono_rel [rotated]) (simp add: isSubset_iff)
  qed
  then show ?thesis
    using chain by (auto simp: getDelegationChain_def)
qed

subsection \<open>Examples\<close>

definition demo_grant :: grant_params where
  "demo_grant = \<lparr>gp_scope = ToolScope, gp_resource = ''t'', gp_actions = [''read'', ''write''], gp_grantedBy = ''o'', gp_grantedTo = ''a'',
     gp_constraints = None, gp_expiresAt = Some (Some 100), gp_delegatable = Some True\<rparr>"

definition demo_narrow :: restrictions where
  "demo_narrow = \<lparr>rs_actions = Some [''read'', ''delete''], rs_constraints = None, rs_expiresAt = Some (Some 50), rs_delegatable = None\<rparr>"

definition demo_cap_ops :: "cap_op list" where
  "demo_cap_ops = [CGrant ''g'' 1 demo_grant, CDelegate ''d'' (\<lambda>_. 2) ''g'' ''b'' (Some demo_narrow), CDelegate ''e'' (\<lambda>_. 3) ''d'' ''c'' None]"

definition demo_algebra :: algebra where
  "demo_algebra = run cap_step demo_cap_ops createCapabilityAlgebra"

lemma demo_run_ok: "run_ok fresh_uuid cap_step demo_cap_ops createCapabilityAlgebra"
  by code_simp

lemma demo_delegations: "delegations demo_cap_ops createCapabilityAlgebra = {(''g'', ''d''), (''d'', ''e'')}"
  by code_simp

theorem revocation_exact_witness: "is_revoked ''e'' (ca_revoke (\<lambda>_. 5) ''g'' demo_algebra) \<and> \<not> is_revoked ''g'' (ca_revoke (\<lambda>_. 5) ''d'' demo_algebra)"
proof -
  have s: "getCapability ''g'' demo_algebra \<noteq> None"
    by code_simp
  have "(''g'', ''e'') \<in> (delegations demo_cap_ops createCapabilityAlgebra)\<^sup>*"
    unfolding demo_delegations by (rule converse_rtrancl_into_rtrancl [of _ "''d''"]) auto
  then have "is_revoked ''e'' (ca_revoke (\<lambda>_. 5) ''g'' demo_algebra)"
    using revocation_exact [OF demo_run_ok demo_algebra_def s] by blast
  moreover have "\<not> is_revoked ''g'' (ca_revoke (\<lambda>_. 5) ''d'' demo_algebra)"
    by code_simp
  ultimately show ?thesis
    by blast
qed



theorem delegation_chain_narrows_witness:
  "\<exists>chain. getDelegationChain ''e'' demo_algebra = Some chain \<and> chain \<noteq> [] \<and> cp_id (last chain) = ''e'' \<and>
    cp_parentCapabilityId (hd chain) = None \<and> sorted_wrt (\<lambda>p c. isSubset c p) chain"
proof -
  have "map_option cp_id (getCapability ''e'' demo_algebra) = Some ''e''"
    by code_simp
  then obtain c where c: "getCapability ''e'' demo_algebra = Some c" "cp_id c = ''e''"
    by blast
  have "\<forall>now j. CExpire now j \<notin> set demo_cap_ops"
    by (simp add: demo_cap_ops_def)
  then show ?thesis
    using delegation_chain_narrows [OF demo_run_ok demo_algebra_def c(1)] c(2) by blast
qed

text \<open>
  \<open>expire\<close> on a parent: the delegation goes on, past the expiry of the capability it came from, and is no subset of it any more.
\<close>

lemma expired_parent_outlived:
  "let s = run cap_step [CGrant ''g'' 1 demo_grant, CDelegate ''d'' (\<lambda>_. 2) ''g'' ''b'' None, CExpire 3 ''g''] createCapabilityAlgebra
   in (case (getCapability ''g'' s, getCapability ''d'' s) of (Some g, Some d) \<Rightarrow> \<not> isSubset d g | _ \<Rightarrow> False) \<and>
      map_option cr_allowed (ca_check (\<lambda>_. None) 4 ''b'' ToolScope ''t'' ''read'' None s) = Some True"
  by code_simp

text \<open>A usage given as \<open>true\<close> reaches a limit of 1, and a target resource that is not a string makes \<open>check\<close> throw.\<close>

lemma check_coerces_and_throws:
  "let s = run cap_step [CGrant ''g'' 1 (demo_grant\<lparr>gp_constraints := Some [RateLimit (Some 1), ScopeRestriction (Some ''t/'')]\<rparr>)] createCapabilityAlgebra
   in map_option cr_allowed (ca_check (\<lambda>_. None) 4 ''a'' ToolScope ''t'' ''read'' (Some [(''currentUsage'', VBool True)]) s) = Some False \<and>
      ca_check (\<lambda>_. None) 4 ''a'' ToolScope ''t'' ''read'' (Some [(''targetResource'', VNum 7)]) s = None"
  by code_simp

text \<open>
  A restricted capability is not recorded as a delegation: it stays usable when the capability it was made from is revoked. And
  composing revoked capabilities gives a live one.
\<close>

lemma restricted_survives_revocation:
  "let s = run cap_step [CGrant ''g'' 1 demo_grant, CRestrict ''r'' 2 ''g'' demo_narrow, CRevoke (\<lambda>_. 3) ''g''] createCapabilityAlgebra
   in map_option cp_parentCapabilityId (getCapability ''r'' s) = Some (Some ''g'') \<and> is_revoked ''g'' s \<and>
      map_option cr_allowed (ca_check (\<lambda>_. None) 4 ''a'' ToolScope ''t'' ''read'' None s) = Some True"
  by code_simp

lemma compose_revives_revoked:
  "let s = run cap_step [CGrant ''g'' 1 demo_grant, CRevoke (\<lambda>_. 2) ''g'', CCompose ''m'' 3 ''g'' ''g''] createCapabilityAlgebra
   in is_revoked ''g'' s \<and> map_option cr_allowed (ca_check (\<lambda>_. None) 4 ''a'' ToolScope ''t'' ''write'' None s) = Some True"
  by code_simp

end
