(* ===== verification/Topology.thy ===== *)
theory Topology
  imports Prelude
begin

text \<open>
  Model of \<open>TopologyManager\<close> of \<open>swarm/src/topology-manager.ts\<close>. The map \<open>nodeIndex\<close> and the array \<open>state.nodes\<close> hold the same
  objects in the same order; they are one map. The cached queen and coordinator are references to node objects, known by the agent and a
  serial number, because a cached object may have been removed. Random draws are arguments. Operations run without interleaving.
\<close>

section \<open>Data\<close>

datatype topology_type = Mesh | Hierarchical | Centralized | Hybrid

datatype topology_role = Queen | Worker | Coordinator | Peer

datatype node_status = NActive | NInactive | NSyncing | NFailed

record topology_config =
  tc_type :: topology_type
  tc_maxAgents :: nat
  tc_replicationFactor :: nat
  tc_autoRebalance :: bool

record topology_node =
  tn_agentId :: string
  tn_ref :: nat
  tn_role :: topology_role
  tn_status :: node_status
  tn_connections :: "string list"

record topology_edge =
  te_from :: string
  te_to :: string
  te_bidirectional :: bool

record topology_partition =
  tp_number :: nat
  tp_nodes :: "string list"
  tp_leader :: string
  tp_replicaCount :: nat

type_synonym node_ref = "string \<times> nat"

record topology =
  tm_nodes :: "(string, topology_node) jsmap"
  tm_edges :: "topology_edge list"
  tm_leader :: "string option"
  tm_partitions :: "topology_partition list"
  tm_adjacency :: "(string, string jsset) jsmap"
  tm_lastRebalance :: time
  tm_roleIndex :: "(topology_role, string jsset) jsmap"
  tm_queen :: "node_ref option"
  tm_coordinator :: "node_ref option"
  tm_nextRef :: nat

datatype topology_error = NodeExists string | MaximumAgents nat | NodeNotFound string | NoNodes | NoActiveNodes

definition new_topology :: "time \<Rightarrow> topology" where
  "new_topology now = \<lparr>tm_nodes = [], tm_edges = [], tm_leader = None, tm_partitions = [], tm_adjacency = [], tm_lastRebalance = now,
     tm_roleIndex = [], tm_queen = None, tm_coordinator = None, tm_nextRef = 0\<rparr>"

section \<open>Node objects\<close>

definition upd_node :: "string \<Rightarrow> (topology_node \<Rightarrow> topology_node) \<Rightarrow> topology \<Rightarrow> topology" where
  "upd_node a f s = (case jget (tm_nodes s) a of None \<Rightarrow> s | Some n \<Rightarrow> s\<lparr>tm_nodes := jset a (f n) (tm_nodes s)\<rparr>)"

text \<open>An update through a reference; a removed object is no longer part of the state.\<close>

definition upd_ref :: "node_ref \<Rightarrow> (topology_node \<Rightarrow> topology_node) \<Rightarrow> topology \<Rightarrow> topology" where
  "upd_ref r f s = upd_node (fst r) (\<lambda>n. if tn_ref n = snd r then f n else n) s"

definition push_connection :: "string \<Rightarrow> topology_node \<Rightarrow> topology_node" where
  "push_connection c n = n\<lparr>tn_connections := tn_connections n @ [c]\<rparr>"

text \<open>\<open>this.adjacencyList.get(a)?.add(c)\<close>\<close>

definition adj_add :: "string \<Rightarrow> string \<Rightarrow> topology \<Rightarrow> topology" where
  "adj_add a c s =
     (case jget (tm_adjacency s) a of None \<Rightarrow> s | Some ns \<Rightarrow> s\<lparr>tm_adjacency := jset a (sadd c ns) (tm_adjacency s)\<rparr>)"

section \<open>Roles\<close>

definition addToRoleIndex :: "topology_node \<Rightarrow> topology \<Rightarrow> topology" where
  "addToRoleIndex n s =
     (let s1 = s\<lparr>tm_roleIndex := jset (tn_role n) (sadd (tn_agentId n) (nullish (jget (tm_roleIndex s) (tn_role n)) [])) (tm_roleIndex s)\<rparr>
      in if tn_role n = Queen then s1\<lparr>tm_queen := Some (tn_agentId n, tn_ref n)\<rparr>
         else if tn_role n = Coordinator then s1\<lparr>tm_coordinator := Some (tn_agentId n, tn_ref n)\<rparr>
         else s1)"

definition removeFromRoleIndex :: "topology_node \<Rightarrow> topology \<Rightarrow> topology" where
  "removeFromRoleIndex n s =
     (let s1 = (case jget (tm_roleIndex s) (tn_role n) of
                  None \<Rightarrow> s
                | Some ids \<Rightarrow> s\<lparr>tm_roleIndex := jset (tn_role n) (sdel (tn_agentId n) ids) (tm_roleIndex s)\<rparr>)
      in if tn_role n = Queen \<and> map_option fst (tm_queen s1) = Some (tn_agentId n) then s1\<lparr>tm_queen := None\<rparr>
         else if tn_role n = Coordinator \<and> map_option fst (tm_coordinator s1) = Some (tn_agentId n) then s1\<lparr>tm_coordinator := None\<rparr>
         else s1)"

definition determineRole :: "topology_config \<Rightarrow> topology_role \<Rightarrow> topology \<Rightarrow> topology_role" where
  "determineRole cfg requestedRole s =
     (case tc_type cfg of
        Mesh \<Rightarrow> Peer
      | Hierarchical \<Rightarrow> if tm_nodes s = [] then Queen else if requestedRole = Queen \<and> tm_queen s = None then Queen else Worker
      | Centralized \<Rightarrow> if tm_nodes s = [] then Coordinator else Worker
      | Hybrid \<Rightarrow> requestedRole)"

definition calculateInitialConnections :: "topology_config \<Rightarrow> topology_role \<Rightarrow> topology \<Rightarrow> string list" where
  "calculateInitialConnections cfg role s =
     (let existingNodes = jkeys (tm_nodes s)
      in case tc_type cfg of
           Mesh \<Rightarrow> take (min 10 (length existingNodes)) existingNodes
         | Hierarchical \<Rightarrow>
             if role = Queen \<or> existingNodes = [] then existingNodes
             else (case tm_queen s of Some q \<Rightarrow> [fst q] | None \<Rightarrow> [])
         | Centralized \<Rightarrow>
             if role = Coordinator \<or> existingNodes = [] then existingNodes
             else (case tm_coordinator s of Some c \<Rightarrow> [fst c] | None \<Rightarrow> [])
         | Hybrid \<Rightarrow>
             let leaders = map tn_agentId (filter (\<lambda>n. tn_role n = Queen \<or> tn_role n = Coordinator) (jvalues (tm_nodes s)));
                 peers = take 3 existingNodes
             in fold sadd (leaders @ peers) [])"

section \<open>Adding a node\<close>

definition create_edge :: "topology_config \<Rightarrow> string \<Rightarrow> string \<Rightarrow> topology \<Rightarrow> topology" where
  "create_edge cfg a connectionId s =
     (let bidirectional = (tc_type cfg = Mesh \<or> jget (tm_nodes s) connectionId \<noteq> None);
          s1 = s\<lparr>tm_edges := tm_edges s @ [\<lparr>te_from = a, te_to = connectionId, te_bidirectional = bidirectional\<rparr>]\<rparr>
      in if bidirectional
         then case jget (tm_nodes s1) connectionId of
                None \<Rightarrow> s1
              | Some existing \<Rightarrow>
                  if a \<in> set (tn_connections existing) then s1
                  else adj_add connectionId a (upd_node connectionId (push_connection a) s1)
         else s1)"

definition createEdgesForNode :: "topology_config \<Rightarrow> topology_node \<Rightarrow> topology \<Rightarrow> topology" where
  "createEdgesForNode cfg n s = fold (create_edge cfg (tn_agentId n)) (tn_connections n) s"

text \<open>Identifiers of partitions are \<open>partition_\<close> with the number.\<close>

definition updatePartitions :: "topology_config \<Rightarrow> string \<Rightarrow> topology \<Rightarrow> topology" where
  "updatePartitions cfg a s =
     (if tc_type cfg \<noteq> Mesh \<and> tc_type cfg \<noteq> Hybrid then s
      else
        let nodesPerPartition = (tc_maxAgents cfg + 9) div 10;
            k = length (tm_nodes s) div nodesPerPartition
        in if length (tm_partitions s) \<le> k
           then s\<lparr>tm_partitions := tm_partitions s @ [\<lparr>tp_number = k, tp_nodes = [a], tp_leader = a, tp_replicaCount = 1\<rparr>]\<rparr>
           else
             let p = tm_partitions s ! k;
                 ns = tp_nodes p @ [a]
             in s\<lparr>tm_partitions := (tm_partitions s)[k := p\<lparr>tp_nodes := ns, tp_replicaCount := min (length ns) (tc_replicationFactor cfg)\<rparr>]\<rparr>)"

text \<open>Whether a node's connections are more than half the average away from the average, in exact arithmetic.\<close>

definition shouldRebalance :: "topology_config \<Rightarrow> topology \<Rightarrow> bool" where
  "shouldRebalance cfg s \<longleftrightarrow> tc_type cfg = Mesh \<and>
     (let counts = map (\<lambda>n. int (length (tn_connections n))) (jvalues (tm_nodes s))
      in list_ex (\<lambda>c. 2 * \<bar>c * int (length counts) - sum_list counts\<bar> > sum_list counts) counts)"

section \<open>Rebalancing\<close>

text \<open>
  Random numbers: \<open>fst rnd a k\<close> is drawn for agent \<open>a\<close> when it has \<open>k\<close> connections that count, \<open>snd rnd a\<close> for its coordinator.
\<close>

type_synonym draws = "(string \<Rightarrow> nat \<Rightarrow> nat) \<times> (string \<Rightarrow> nat)"

definition draw :: "nat \<Rightarrow> string list \<Rightarrow> string" where
  "draw r xs = xs ! (r mod length xs)"

definition connections_of :: "topology \<Rightarrow> string \<Rightarrow> string list" where
  "connections_of s a = (case jget (tm_nodes s) a of None \<Rightarrow> [] | Some n \<Rightarrow> tn_connections n)"

text \<open>Both directions of a connection, pushed without a test.\<close>

definition connect :: "string \<Rightarrow> string \<Rightarrow> topology \<Rightarrow> topology" where
  "connect a b s = adj_add b a (upd_node b (push_connection a) (adj_add a b (upd_node a (push_connection b) s)))"

lemma jget_upd_node: "jget (tm_nodes (upd_node a f s)) b = (if b = a then map_option f (jget (tm_nodes s) a) else jget (tm_nodes s) b)"
  by (auto simp: upd_node_def split: option.split)

lemma tm_nodes_adj_add [simp]: "tm_nodes (adj_add a c s) = tm_nodes s"
  by (simp add: adj_add_def split: option.split)

lemma connections_connect:
  "a \<noteq> b \<Longrightarrow> jget (tm_nodes s) a \<noteq> None \<Longrightarrow> length (connections_of (connect a b s) a) = Suc (length (connections_of s a))"
  by (auto simp: connections_of_def connect_def jget_upd_node push_connection_def)

function mesh_node :: "draws \<Rightarrow> nat \<Rightarrow> string \<Rightarrow> topology \<Rightarrow> topology" where
  "mesh_node rnd target a s =
     (if length (connections_of s a) < target
      then
        let candidates = filter (\<lambda>b. b \<noteq> a \<and> b \<notin> set (connections_of s a)) (jkeys (tm_nodes s))
        in if candidates \<noteq> [] \<and> jget (tm_nodes s) a \<noteq> None
           then mesh_node rnd target a (connect a (draw (fst rnd a (length (connections_of s a))) candidates) s)
           else s
      else s)"
  by pat_completeness auto

lemma draw_mem: "xs \<noteq> [] \<Longrightarrow> draw r xs \<in> set xs"
  by (simp add: draw_def)

termination mesh_node
proof (relation "measure (\<lambda>(_, target, a, s). target - length (connections_of s a))")
  fix rnd :: draws and target :: nat and a :: string and s :: topology and cs
  assume s: "length (connections_of s a) < target" "cs = filter (\<lambda>b. b \<noteq> a \<and> b \<notin> set (connections_of s a)) (jkeys (tm_nodes s))"
    "cs \<noteq> [] \<and> jget (tm_nodes s) a \<noteq> None"
  then have "draw (fst rnd a (length (connections_of s a))) cs \<noteq> a"
    using draw_mem [of cs "fst rnd a (length (connections_of s a))"] by auto
  then show "((rnd, target, a, connect a (draw (fst rnd a (length (connections_of s a))) cs) s), rnd, target, a, s)
      \<in> measure (\<lambda>(_, target, a, s). target - length (connections_of s a))"
    using s connections_connect [of a "draw (fst rnd a (length (connections_of s a))) cs" s] by auto
qed simp

declare mesh_node.simps [simp del]

definition rebalanceMesh :: "draws \<Rightarrow> topology \<Rightarrow> topology" where
  "rebalanceMesh rnd s = fold (mesh_node rnd (min 5 (length (tm_nodes s) - 1))) (jkeys (tm_nodes s)) s"

text \<open>The first node of the array becomes the leader of a kind that is missing.\<close>

definition promote :: "topology_role \<Rightarrow> topology \<Rightarrow> (node_ref \<times> topology) option" where
  "promote role s =
     (case tm_nodes s of
        [] \<Rightarrow> None
      | (a, n) # _ \<Rightarrow>
          let n1 = n\<lparr>tn_role := role\<rparr>
          in Some ((a, tn_ref n), addToRoleIndex n1 (upd_node a (\<lambda>_. n1) s)))"

definition role_of :: "topology \<Rightarrow> string \<Rightarrow> topology_role option" where
  "role_of s a = map_option tn_role (jget (tm_nodes s) a)"

definition attach_worker :: "node_ref \<Rightarrow> string \<Rightarrow> topology \<Rightarrow> topology" where
  "attach_worker q a s =
     (if role_of s a = Some Worker \<and> fst q \<notin> set (connections_of s a)
      then adj_add (fst q) a (upd_ref q (push_connection a) (adj_add a (fst q) (upd_node a (push_connection (fst q)) s)))
      else s)"

definition rebalanceHierarchical :: "topology \<Rightarrow> topology" where
  "rebalanceHierarchical s =
     (case (case tm_queen s of Some q \<Rightarrow> Some (q, s) | None \<Rightarrow> promote Queen s) of
        None \<Rightarrow> s
      | Some (q, s1) \<Rightarrow> fold (attach_worker q) (jkeys (tm_nodes s1)) s1)"

definition attach_only :: "node_ref \<Rightarrow> string \<Rightarrow> topology \<Rightarrow> topology" where
  "attach_only c a s =
     (if role_of s a \<noteq> Some Coordinator \<and> fst c \<notin> set (connections_of s a)
      then
        let s1 = upd_node a (\<lambda>n. n\<lparr>tn_connections := [fst c]\<rparr>) s;
            s2 = s1\<lparr>tm_adjacency := jset a [fst c] (tm_adjacency s1)\<rparr>
        in adj_add (fst c) a (upd_ref c (push_connection a) s2)
      else s)"

definition rebalanceCentralized :: "topology \<Rightarrow> topology" where
  "rebalanceCentralized s =
     (case (case tm_coordinator s of Some c \<Rightarrow> Some (c, s) | None \<Rightarrow> promote Coordinator s) of
        None \<Rightarrow> s
      | Some (c, s1) \<Rightarrow> fold (attach_only c) (jkeys (tm_nodes s1)) s1)"

text \<open>The loop that gives a worker of the hybrid topology its connections to other workers; \<open>current\<close> are the ones it has.\<close>

definition link_worker :: "string \<Rightarrow> string \<Rightarrow> topology \<Rightarrow> topology" where
  "link_worker a b s =
     (let s1 = adj_add a b (upd_node a (push_connection b) s);
          s2 = (if a \<in> set (connections_of s1 b) then s1 else upd_node b (push_connection a) s1)
      in adj_add b a s2)"

function hybrid_worker :: "draws \<Rightarrow> nat \<Rightarrow> string list \<Rightarrow> string \<Rightarrow> string list \<Rightarrow> topology \<Rightarrow> topology" where
  "hybrid_worker rnd target workers a current s =
     (if length current < target
      then
        let candidates = filter (\<lambda>b. b \<noteq> a \<and> b \<notin> set current) workers
        in if candidates = [] then s
           else
             let b = draw (fst rnd a (length current)) candidates
             in hybrid_worker rnd target workers a (current @ [b]) (link_worker a b s)
      else s)"
  by pat_completeness auto

termination hybrid_worker
  by (relation "measure (\<lambda>(_, target, _, _, current, _). target - length current)") auto

declare hybrid_worker.simps [simp del]

definition hybrid_coordinator :: "draws \<Rightarrow> string list \<Rightarrow> string \<Rightarrow> topology \<Rightarrow> topology" where
  "hybrid_coordinator rnd coordinators a s =
     (if list_ex (\<lambda>c. c \<in> set coordinators) (connections_of s a) then s
      else connect a (draw (snd rnd a) coordinators) s)"

definition rebalanceHybrid :: "draws \<Rightarrow> topology \<Rightarrow> topology" where
  "rebalanceHybrid rnd s =
     (let coordinators = filter (\<lambda>a. role_of s a = Some Queen \<or> role_of s a = Some Coordinator) (jkeys (tm_nodes s));
          workers = filter (\<lambda>a. role_of s a = Some Worker \<or> role_of s a = Some Peer) (jkeys (tm_nodes s));
          s1 = fold (\<lambda>a s. hybrid_worker rnd (min 3 (length workers - 1)) workers a
                       (filter (\<lambda>c. c \<in> set workers) (connections_of s a)) s) workers s
      in if coordinators \<noteq> [] then fold (hybrid_coordinator rnd coordinators) workers s1 else s1)"

definition rebalance :: "topology_config \<Rightarrow> draws \<Rightarrow> time \<Rightarrow> topology \<Rightarrow> topology" where
  "rebalance cfg rnd now s =
     (if now - tm_lastRebalance s < 5000 then s
      else
        let s1 = s\<lparr>tm_lastRebalance := now\<rparr>
        in case tc_type cfg of
             Mesh \<Rightarrow> rebalanceMesh rnd s1
           | Hierarchical \<Rightarrow> rebalanceHierarchical s1
           | Centralized \<Rightarrow> rebalanceCentralized s1
           | Hybrid \<Rightarrow> rebalanceHybrid rnd s1)"

section \<open>Operations\<close>

definition tm_addNode ::
  "topology_config \<Rightarrow> draws \<Rightarrow> time \<Rightarrow> string \<Rightarrow> topology_role \<Rightarrow> topology \<Rightarrow> (topology_error + unit) \<times> topology" where
  "tm_addNode cfg rnd now a role s =
     (if jget (tm_nodes s) a \<noteq> None then (Inl (NodeExists a), s)
      else if length (tm_nodes s) \<ge> tc_maxAgents cfg then (Inl (MaximumAgents (tc_maxAgents cfg)), s)
      else
        let connections = calculateInitialConnections cfg role s;
            node = \<lparr>tn_agentId = a, tn_ref = tm_nextRef s, tn_role = determineRole cfg role s, tn_status = NSyncing,
                    tn_connections = connections\<rparr>;
            s1 = s\<lparr>tm_nodes := jset a node (tm_nodes s), tm_nextRef := tm_nextRef s + 1\<rparr>;
            s2 = addToRoleIndex node s1;
            s3 = s2\<lparr>tm_adjacency := jset a (fold sadd connections []) (tm_adjacency s2)\<rparr>;
            s4 = createEdgesForNode cfg node s3;
            s5 = updatePartitions cfg a s4;
            s6 = upd_node a (\<lambda>n. n\<lparr>tn_status := NActive\<rparr>) s5
        in (Inr (), if tc_autoRebalance cfg \<and> shouldRebalance cfg s6 then rebalance cfg rnd now s6 else s6))"

fun role_order :: "topology_role \<Rightarrow> nat" where
  "role_order Queen = 0" | "role_order Coordinator = 1" | "role_order Worker = 2" | "role_order Peer = 2"

definition electLeader :: "topology_config \<Rightarrow> topology \<Rightarrow> (topology_error + string) \<times> topology" where
  "electLeader cfg s =
     (if tm_nodes s = [] then (Inl NoNodes, s)
      else
        case (if tc_type cfg = Hierarchical then tm_queen s else if tc_type cfg = Centralized then tm_coordinator s else None) of
          Some q \<Rightarrow> (Inr (fst q), s\<lparr>tm_leader := Some (fst q)\<rparr>)
        | None \<Rightarrow>
            (case sort_key (\<lambda>n. role_order (tn_role n)) (filter (\<lambda>n. tn_status n = NActive) (jvalues (tm_nodes s))) of
               [] \<Rightarrow> (Inl NoActiveNodes, s)
             | n # _ \<Rightarrow> (Inr (tn_agentId n), s\<lparr>tm_leader := Some (tn_agentId n)\<rparr>)))"

definition partition_without :: "string \<Rightarrow> topology_partition \<Rightarrow> topology_partition" where
  "partition_without a p =
     (let ns = filter (\<lambda>n. n \<noteq> a) (tp_nodes p)
      in p\<lparr>tp_nodes := ns, tp_leader := (if tp_leader p = a then (case ns of [] \<Rightarrow> [] | n # _ \<Rightarrow> n) else tp_leader p)\<rparr>)"

definition tm_removeNode ::
  "topology_config \<Rightarrow> draws \<Rightarrow> time \<Rightarrow> string \<Rightarrow> topology \<Rightarrow> (topology_error + unit) \<times> topology" where
  "tm_removeNode cfg rnd now a s =
     (case jget (tm_nodes s) a of
        None \<Rightarrow> (Inr (), s)
      | Some node \<Rightarrow>
          let s1 = removeFromRoleIndex node (s\<lparr>tm_nodes := jdel a (tm_nodes s)\<rparr>);
              s2 = s1\<lparr>tm_edges := filter (\<lambda>e. te_from e \<noteq> a \<and> te_to e \<noteq> a) (tm_edges s1),
                      tm_adjacency := map (\<lambda>(k, ns). (k, sdel a ns)) (jdel a (tm_adjacency s1)),
                      tm_nodes := map (\<lambda>(k, n). (k, n\<lparr>tn_connections := filter (\<lambda>c. c \<noteq> a) (tn_connections n)\<rparr>)) (tm_nodes s1)\<rparr>
          in case (if tm_leader s2 = Some a then electLeader cfg s2 else (Inr [], s2)) of
               (Inl err, s3) \<Rightarrow> (Inl err, s3)
             | (Inr _, s3) \<Rightarrow>
                 let s4 = s3\<lparr>tm_partitions := map (partition_without a) (tm_partitions s3)\<rparr>
                 in (Inr (), if tc_autoRebalance cfg then rebalance cfg rnd now s4 else s4))"

record node_updates =
  nu_role :: "topology_role option"
  nu_status :: "node_status option"
  nu_connections :: "string list option"

definition tm_updateNode :: "string \<Rightarrow> node_updates \<Rightarrow> topology \<Rightarrow> (topology_error + unit) \<times> topology" where
  "tm_updateNode a u s =
     (case jget (tm_nodes s) a of
        None \<Rightarrow> (Inl (NodeNotFound a), s)
      | Some _ \<Rightarrow>
          let s1 = upd_node a (\<lambda>n. n\<lparr>tn_role := nullish (nu_role u) (tn_role n), tn_status := nullish (nu_status u) (tn_status n),
                     tn_connections := nullish (nu_connections u) (tn_connections n)\<rparr>) s
          in (Inr (), case nu_connections u of
                        None \<Rightarrow> s1
                      | Some cs \<Rightarrow> s1\<lparr>tm_adjacency := jset a (fold sadd cs []) (tm_adjacency s1)\<rparr>))"

section \<open>Queries\<close>

definition getNeighbors :: "string \<Rightarrow> topology \<Rightarrow> string list" where
  "getNeighbors a s = nullish (jget (tm_adjacency s) a) []"

definition isConnected :: "string \<Rightarrow> string \<Rightarrow> topology \<Rightarrow> bool" where
  "isConnected a b s = (b \<in> set (nullish (jget (tm_adjacency s) a) []))"

definition getNodesByRole :: "topology_role \<Rightarrow> topology \<Rightarrow> topology_node list" where
  "getNodesByRole role s = List.map_filter (jget (tm_nodes s)) (nullish (jget (tm_roleIndex s) role) [])"

definition getActiveNodes :: "topology \<Rightarrow> topology_node list" where
  "getActiveNodes s = filter (\<lambda>n. tn_status n = NActive) (jvalues (tm_nodes s))"

definition getPartition :: "nat \<Rightarrow> topology \<Rightarrow> topology_partition option" where
  "getPartition k s = find (\<lambda>p. tp_number p = k) (tm_partitions s)"

definition getConnectionCount :: "topology \<Rightarrow> nat" where
  "getConnectionCount s = length (tm_edges s)"

subsection \<open>Shortest paths\<close>

text \<open>The search of \<open>findOptimalPath\<close>: the visited nodes and the queue of nodes with the path to them.\<close>

function bfs :: "(string, string jsset) jsmap \<Rightarrow> string \<Rightarrow> string list \<Rightarrow> (string \<times> string list) list \<Rightarrow> string list" where
  "bfs adj target visited [] = []"
| "bfs adj target visited ((node, path) # queue) =
     (if node = target then path
      else if node \<in> set visited then bfs adj target visited queue
      else
        let visited1 = visited @ [node];
            neighbors = nullish (jget adj node) []
        in bfs adj target visited1 (queue @ map (\<lambda>m. (m, path @ [m])) (filter (\<lambda>m. m \<notin> set visited1) neighbors)))"
  by pat_completeness auto

termination bfs
proof (relation "measures [\<lambda>(adj, _, visited, _). card (set (jkeys adj) - set visited), \<lambda>(_, _, _, queue). length queue]")
  fix adj :: "(string, string jsset) jsmap" and target node path visited queue visited1 neighbors
  assume new: "node \<notin> set visited" and v: "visited1 = visited @ [node]" "neighbors = nullish (jget adj node) []"
  show "((adj, target, visited1, queue @ map (\<lambda>m. (m, path @ [m])) (filter (\<lambda>m. m \<notin> set visited1) neighbors)), adj, target, visited, (node, path) # queue)
      \<in> measures [\<lambda>(adj, _, visited, _). card (set (jkeys adj) - set visited), \<lambda>(_, _, _, queue). length queue]"
  proof (cases "node \<in> set (jkeys adj)")
    case True
    then have "set (jkeys adj) - set visited1 \<subset> set (jkeys adj) - set visited"
      using new v(1) by auto
    then show ?thesis
      by (simp add: psubset_card_mono)
  next
    case False
    then have "set (jkeys adj) - set visited1 = set (jkeys adj) - set visited" "jget adj node = None"
      using v(1) jget_jkeys [of adj node] by auto
    then show ?thesis
      using v(2) by simp
  qed
qed auto

definition findOptimalPath :: "string \<Rightarrow> string \<Rightarrow> topology \<Rightarrow> string list" where
  "findOptimalPath a b s = (if a = b then [a] else bfs (tm_adjacency s) b [] [(a, [a])])"

section \<open>The search finds shortest paths\<close>

definition adj_linked :: "(string, string jsset) jsmap \<Rightarrow> string \<Rightarrow> string \<Rightarrow> bool" where
  "adj_linked adj a b \<longleftrightarrow> b \<in> set (nullish (jget adj a) [])"

text \<open>A path from a node to a node along the adjacency list.\<close>

definition path_between :: "(string, string jsset) jsmap \<Rightarrow> string \<Rightarrow> string \<Rightarrow> string list \<Rightarrow> bool" where
  "path_between adj a b p \<longleftrightarrow> p \<noteq> [] \<and> hd p = a \<and> last p = b \<and> successively (adj_linked adj) p"

lemma path_extend: "path_between adj a b p \<Longrightarrow> adj_linked adj b m \<Longrightarrow> path_between adj a m (p @ [m])"
  by (auto simp: path_between_def successively_append_iff)

lemma path_suffix:
  "path_between adj a b (r1 @ n # r2) \<Longrightarrow> r2 \<noteq> [] \<Longrightarrow> adj_linked adj n (hd r2) \<and> path_between adj (hd r2) b r2"
  by (auto simp: path_between_def successively_append_iff successively_Cons)

text \<open>
  The queue of the search: paths to its nodes, ordered by length and at most one longer than the first; and every path to the target
  has a detour, no longer, through a queued node and then only unvisited nodes.
\<close>

definition search_ok :: "(string, string jsset) jsmap \<Rightarrow> string \<Rightarrow> (string \<times> string list) list \<Rightarrow> bool" where
  "search_ok adj a Q \<longleftrightarrow> (\<forall>(n, p) \<in> set Q. path_between adj a n p) \<and> sorted (map (length \<circ> snd) Q) \<and>
     (\<forall>e \<in> set Q. length (snd e) \<le> Suc (length (snd (hd Q))))"

definition covers :: "(string, string jsset) jsmap \<Rightarrow> string \<Rightarrow> string \<Rightarrow> string list \<Rightarrow> (string \<times> string list) list \<Rightarrow> bool" where
  "covers adj a b V Q \<longleftrightarrow> (\<forall>w. path_between adj a b w \<longrightarrow>
     (\<exists>e \<in> set Q. \<exists>r. path_between adj (fst e) b r \<and> set r \<inter> set V = {} \<and> length (snd e) + length r \<le> Suc (length w)))"

lemma queue_head_least: "search_ok adj a ((n, p) # Q) \<Longrightarrow> e \<in> set ((n, p) # Q) \<Longrightarrow> length p \<le> length (snd e)"
  by (auto simp: search_ok_def)

lemma search_ok_tl: "search_ok adj a ((n, p) # Q) \<Longrightarrow> search_ok adj a Q"
  unfolding search_ok_def by (cases Q) fastforce+

lemma search_ok_push:
  assumes "search_ok adj a ((n, p) # Q)" "\<forall>m \<in> set ms. adj_linked adj n m"
  shows "search_ok adj a (Q @ map (\<lambda>m. (m, p @ [m])) ms)"
proof -
  have q: "path_between adj a n p" "\<forall>(n, p) \<in> set Q. path_between adj a n p" "sorted (map (length \<circ> snd) Q)"
    "\<And>e. e \<in> set Q \<Longrightarrow> length p \<le> length (snd e) \<and> length (snd e) \<le> Suc (length p)"
    using assms(1) by (auto simp: search_ok_def)
  have "sorted (map (length \<circ> snd) (map (\<lambda>m. (m, p @ [m])) ms))"
    by (simp add: comp_def sorted_map)
  then have "sorted (map (length \<circ> snd) (Q @ map (\<lambda>m. (m, p @ [m])) ms))"
    using q(3,4) by (auto simp: sorted_append)
  moreover have "length (snd e) \<le> Suc (length (snd (hd (Q @ map (\<lambda>m. (m, p @ [m])) ms))))"
    if "e \<in> set (Q @ map (\<lambda>m. (m, p @ [m])) ms)" for e
  proof -
    have "Q @ map (\<lambda>m. (m, p @ [m])) ms \<noteq> []"
      using that by auto
    then have "length p \<le> length (snd (hd (Q @ map (\<lambda>m. (m, p @ [m])) ms)))"
      using q(4) [of "hd Q"] by (cases Q; cases ms) auto
    moreover have "length (snd e) \<le> Suc (length p)"
      using that q(4) [of e] by auto
    ultimately show ?thesis
      by simp
  qed
  ultimately show ?thesis
    using q(1,2) assms(2) path_extend by (fastforce simp: search_ok_def)
qed

lemma covers_skip:
  assumes "covers adj a b V ((n, p) # Q)" "n \<in> set V"
  shows "covers adj a b V Q"
proof -
  have "n \<in> set r" if "path_between adj n b r" for r
    using that by (auto simp: path_between_def intro: hd_in_set)
  then show ?thesis
    using assms unfolding covers_def by fastforce
qed

lemma covers_visit:
  assumes "covers adj a b V ((n, p) # Q)" "search_ok adj a ((n, p) # Q)" "n \<noteq> b"
  shows "covers adj a b (V @ [n]) (Q @ map (\<lambda>m. (m, p @ [m])) (filter (\<lambda>m. m \<notin> set (V @ [n])) (nullish (jget adj n) [])))"
  unfolding covers_def
proof (intro allI impI)
  fix w assume "path_between adj a b w"
  then obtain e r where r: "e \<in> set ((n, p) # Q)" "path_between adj (fst e) b r" "set r \<inter> set V = {}"
      "length (snd e) + length r \<le> Suc (length w)"
    using assms(1) unfolding covers_def by fast
  let ?new = "map (\<lambda>m. (m, p @ [m])) (filter (\<lambda>m. m \<notin> set (V @ [n])) (nullish (jget adj n) []))"
  show "\<exists>e \<in> set (Q @ ?new). \<exists>r. path_between adj (fst e) b r \<and> set r \<inter> set (V @ [n]) = {} \<and> length (snd e) + length r \<le> Suc (length w)"
  proof (cases "n \<in> set r")
    case False
    then have "fst e \<noteq> n"
      using r(2) hd_in_set [of r] by (auto simp: path_between_def)
    then show ?thesis
      using r False by (intro bexI [of _ e]) auto
  next
    case True
    then obtain r1 r2 where s: "r = r1 @ n # r2" "n \<notin> set r2"
      using split_list_last by fast
    have "r2 \<noteq> []"
      using r(2) s(1) assms(3) by (auto simp: path_between_def)
    note x = path_suffix [OF r(2) [unfolded s(1)] this]
    have m: "hd r2 \<in> set r2"
      using \<open>r2 \<noteq> []\<close> by simp
    then have "(hd r2, p @ [hd r2]) \<in> set ?new"
      using x s r(3) by (auto simp: adj_linked_def)
    moreover have "length (p @ [hd r2]) + length r2 \<le> Suc (length w)"
      using queue_head_least [OF assms(2) r(1)] r(4) s(1) by simp
    ultimately show ?thesis
      using x s r(3) by (intro bexI [of _ "(hd r2, p @ [hd r2])"]) auto
  qed
qed

lemma bfs_shortest:
  assumes "search_ok adj a Q" "covers adj a b V Q"
  shows "(bfs adj b V Q = [] \<and> (\<forall>w. \<not> path_between adj a b w)) \<or>
    (path_between adj a b (bfs adj b V Q) \<and> (\<forall>w. path_between adj a b w \<longrightarrow> length (bfs adj b V Q) \<le> length w))"
  using assms
proof (induction adj b V Q rule: bfs.induct)
  case (1 adj b V)
  then show ?case
    by (auto simp: covers_def)
next
  case (2 adj b V n p Q)
  consider "n = b" | "n \<noteq> b" "n \<in> set V" | "n \<noteq> b" "n \<notin> set V"
    by blast
  then show ?case
  proof cases
    case 1
    have "length p \<le> length w" if w: "path_between adj a b w" for w
    proof -
      obtain e r where r: "e \<in> set ((n, p) # Q)" "path_between adj (fst e) b r" "length (snd e) + length r \<le> Suc (length w)"
        using "2.prems"(2) w unfolding covers_def by fast
      have "r \<noteq> []"
        using r(2) by (simp add: path_between_def)
      then show ?thesis
        using queue_head_least [OF "2.prems"(1) r(1)] r(3) by (cases r) auto
    qed
    then show ?thesis
      using 1 "2.prems"(1) by (auto simp: search_ok_def)
  next
    case 2
    then show ?thesis
      using "2.IH"(1) [OF 2 search_ok_tl [OF "2.prems"(1)] covers_skip [OF "2.prems"(2)]] by simp
  next
    case 3
    have "search_ok adj a (Q @ map (\<lambda>m. (m, p @ [m])) (filter (\<lambda>m. m \<notin> set (V @ [n])) (nullish (jget adj n) [])))"
      by (rule search_ok_push [OF "2.prems"(1)]) (simp add: adj_linked_def)
    then show ?thesis
      using "2.IH"(2) [OF 3 refl refl _ covers_visit [OF "2.prems"(2,1) 3(1)]] 3 by simp
  qed
qed

lemma findOptimalPath_exact:
  "(findOptimalPath a b s = [] \<and> (\<forall>w. \<not> path_between (tm_adjacency s) a b w)) \<or>
   (path_between (tm_adjacency s) a b (findOptimalPath a b s) \<and>
    (\<forall>w. path_between (tm_adjacency s) a b w \<longrightarrow> length (findOptimalPath a b s) \<le> length w))"
proof (cases "a = b")
  case True
  then show ?thesis
    by (auto simp: findOptimalPath_def path_between_def Suc_le_eq)
next
  case False
  have "search_ok (tm_adjacency s) a [(a, [a])]"
    by (simp add: search_ok_def path_between_def)
  moreover have "covers (tm_adjacency s) a b [] [(a, [a])]"
    by (auto simp: covers_def)
  ultimately show ?thesis
    using bfs_shortest [of "tm_adjacency s" a "[(a, [a])]" b "[]"] False by (simp add: findOptimalPath_def)
qed

text \<open>
  C14. \<open>findOptimalPath\<close> is exact. It always ends; its result is empty when the adjacency list has no path between the two agents, and
  otherwise a shortest path.
\<close>

theorem findOptimalPath_shortest:
  "(findOptimalPath a b s = [] \<and> (\<forall>w. \<not> path_between (tm_adjacency s) a b w)) \<or>
   (path_between (tm_adjacency s) a b (findOptimalPath a b s) \<and>
    (\<forall>w. path_between (tm_adjacency s) a b w \<longrightarrow> length (findOptimalPath a b s) \<le> length w))"
  by (rule findOptimalPath_exact)

theorem findOptimalPath_shortest_witness:
  "\<exists>s. tm_adjacency s = [(''a'', [''b'', ''c'']), (''b'', [''c'']), (''c'', [''d'']), (''d'', [])] \<and>
     path_between (tm_adjacency s) ''a'' ''d'' (findOptimalPath ''a'' ''d'' s) \<and> length (findOptimalPath ''a'' ''d'' s) \<le> 3"
proof -
  define s where "s = (new_topology 0)\<lparr>tm_adjacency := [(''a'', [''b'', ''c'']), (''b'', [''c'']), (''c'', [''d'']), (''d'', [])]\<rparr>"
  have "path_between (tm_adjacency s) ''a'' ''d'' [''a'', ''c'', ''d'']"
    by (simp add: s_def path_between_def adj_linked_def)
  then have "path_between (tm_adjacency s) ''a'' ''d'' (findOptimalPath ''a'' ''d'' s) \<and> length (findOptimalPath ''a'' ''d'' s) \<le> 3"
    using findOptimalPath_shortest [of "''a''" "''d''" s] by fastforce
  moreover have "tm_adjacency s = [(''a'', [''b'', ''c'']), (''b'', [''c'']), (''c'', [''d'']), (''d'', [])]"
    by (simp add: s_def)
  ultimately show ?thesis
    by blast
qed

end
