(* ===== verification/TopologyInv.thy ===== *)
theory TopologyInv
  imports Topology
begin

text \<open>
  The invariant of the topology manager: the adjacency list and the connections of the nodes agree, links are symmetric and lead to
  registered agents (outside the centralized topology), roles fit the topology, and in a hierarchy the queen is linked with everyone.
  Every operation keeps it.
\<close>

section \<open>Connections and adjacency\<close>

abbreviation present :: "topology \<Rightarrow> string \<Rightarrow> bool" where
  "present s a \<equiv> jget (tm_nodes s) a \<noteq> None"

definition conn :: "topology \<Rightarrow> string \<Rightarrow> string set" where
  "conn s a = set (connections_of s a)"

definition adjs :: "topology \<Rightarrow> string \<Rightarrow> string set" where
  "adjs s a = set (nullish (jget (tm_adjacency s) a) [])"

text \<open>What rebalancing does not change: agents, objects, roles, cached leaders.\<close>

definition skeleton :: "topology \<Rightarrow> (string \<times> string \<times> nat \<times> topology_role) list \<times> node_ref option \<times> node_ref option" where
  "skeleton s = (map (\<lambda>(a, n). (a, tn_agentId n, tn_ref n, tn_role n)) (tm_nodes s), tm_queen s, tm_coordinator s)"

definition leader_ok :: "topology_role \<Rightarrow> node_ref option \<Rightarrow> topology \<Rightarrow> bool" where
  "leader_ok r q s \<longleftrightarrow> (\<forall>a k. q = Some (a, k) \<longrightarrow> (\<exists>n. jget (tm_nodes s) a = Some n \<and> tn_ref n = k \<and> tn_role n = r))"

definition wf_topology :: "topology \<Rightarrow> bool" where
  "wf_topology s \<longleftrightarrow> jwf (tm_nodes s) \<and> (\<forall>a n. jget (tm_nodes s) a = Some n \<longrightarrow> tn_agentId n = a) \<and>
     leader_ok Queen (tm_queen s) s \<and> leader_ok Coordinator (tm_coordinator s) s"

definition mirror_inv :: "topology \<Rightarrow> bool" where
  "mirror_inv s \<longleftrightarrow> wf_topology s \<and> (\<forall>a. (jget (tm_adjacency s) a = None) = (jget (tm_nodes s) a = None)) \<and> (\<forall>a. adjs s a = conn s a)"

definition sym_inv :: "topology \<Rightarrow> bool" where
  "sym_inv s \<longleftrightarrow> (\<forall>a b. b \<in> conn s a \<longrightarrow> present s b \<and> b \<noteq> a \<and> a \<in> conn s b)"

lemma jget_map: "jget (map (\<lambda>(k, v). (k, f v)) m) k = map_option f (jget m k)"
  by (induction m) auto

lemma skeleton_get: "map_option (\<lambda>n. (tn_agentId n, tn_ref n, tn_role n)) (jget (tm_nodes s) a) = jget (fst (skeleton s)) a"
  by (simp add: skeleton_def jget_map [symmetric])

lemma skeleton_keys: "jkeys (tm_nodes s) = jkeys (fst (skeleton s))"
  by (simp add: skeleton_def jkeys_def comp_def case_prod_beta)

lemma skeleton_eq:
  "skeleton s' = skeleton s \<Longrightarrow> map_option (\<lambda>n. (tn_agentId n, tn_ref n, tn_role n)) (jget (tm_nodes s') a) =
     map_option (\<lambda>n. (tn_agentId n, tn_ref n, tn_role n)) (jget (tm_nodes s) a)"
  by (simp add: skeleton_get)

lemma skeleton_present: "skeleton s' = skeleton s \<Longrightarrow> (jget (tm_nodes s') a = None) = (jget (tm_nodes s) a = None)"
  using skeleton_eq [of s' s a] by (cases "jget (tm_nodes s) a"; cases "jget (tm_nodes s') a") auto

lemma skeleton_stays: "skeleton s' = skeleton s \<Longrightarrow> (\<exists>n. jget (tm_nodes s') a = Some n) = (\<exists>n. jget (tm_nodes s) a = Some n)"
  using skeleton_present [of s' s a] by (simp only: not_None_eq [symmetric] simp_thms)

lemma keys_present: "a \<in> set (jkeys (tm_nodes s)) \<longleftrightarrow> (\<exists>n. jget (tm_nodes s) a = Some n)"
  using jget_jkeys [of "tm_nodes s" a] by (simp only: not_None_eq [symmetric] simp_thms)

lemma skeleton_role: "skeleton s' = skeleton s \<Longrightarrow> role_of s' a = role_of s a"
  using skeleton_eq [of s' s a] by (cases "jget (tm_nodes s) a"; cases "jget (tm_nodes s') a") (auto simp: role_of_def)

lemma skeleton_node:
  assumes "skeleton s' = skeleton s" "jget (tm_nodes s') a = Some n'"
  shows "\<exists>n. jget (tm_nodes s) a = Some n \<and> tn_agentId n = tn_agentId n' \<and> tn_ref n = tn_ref n' \<and> tn_role n = tn_role n'"
  using skeleton_eq [OF assms(1), of a] assms(2) by (cases "jget (tm_nodes s) a") auto

lemma skeleton_wf:
  assumes "skeleton s' = skeleton s" "wf_topology s"
  shows "wf_topology s'"
proof -
  have "jwf (tm_nodes s')"
    using assms skeleton_keys [of s] skeleton_keys [of s'] by (simp add: wf_topology_def jwf_def)
  moreover have "tn_agentId n' = a" if "jget (tm_nodes s') a = Some n'" for a n'
    using skeleton_node [OF assms(1) that] assms(2) by (auto simp: wf_topology_def)
  moreover have "leader_ok r q s \<Longrightarrow> leader_ok r q s'" for r q
    using skeleton_node [OF assms(1) [symmetric]] unfolding leader_ok_def by metis
  moreover have "tm_queen s' = tm_queen s" "tm_coordinator s' = tm_coordinator s"
    using assms(1) by (simp_all add: skeleton_def)
  ultimately show ?thesis
    using assms(2) by (simp add: wf_topology_def)
qed

lemma map_jset_same:
  "jget m a = Some n \<Longrightarrow> g n' = g n \<Longrightarrow> map (\<lambda>(k, v). (k, g v)) (jset a n' m) = map (\<lambda>(k, v). (k, g v)) m"
  by (induction a n' m rule: jset.induct) (auto split: if_splits)

lemma skeleton_upd:
  assumes "\<And>n. (tn_agentId (f n), tn_ref (f n), tn_role (f n)) = (tn_agentId n, tn_ref n, tn_role n)"
  shows "skeleton (upd_node a f s) = skeleton s"
  using assms map_jset_same [of "tm_nodes s" a _ "\<lambda>n. (tn_agentId n, tn_ref n, tn_role n)" "f _"]
  by (auto simp: skeleton_def upd_node_def split: option.split)

lemma skeleton_push [simp]: "skeleton (upd_node a (push_connection b) s) = skeleton s"
  by (rule skeleton_upd) (simp add: push_connection_def)

lemma skeleton_push_ref [simp]: "skeleton (upd_ref q (push_connection b) s) = skeleton s"
  unfolding upd_ref_def by (rule skeleton_upd) (simp add: push_connection_def)

lemma skeleton_adj [simp]: "skeleton (adj_add a b s) = skeleton s" "skeleton (s\<lparr>tm_adjacency := x\<rparr>) = skeleton s"
  by (simp_all add: skeleton_def adj_add_def split: option.split)

lemma connections_upd_other: "x \<noteq> a \<Longrightarrow> connections_of (upd_node a f s) x = connections_of s x"
  unfolding connections_of_def jget_upd_node by simp

lemma connections_upd: "connections_of (upd_node a f s) a = (case jget (tm_nodes s) a of None \<Rightarrow> [] | Some n \<Rightarrow> tn_connections (f n))"
  unfolding connections_of_def jget_upd_node by (cases "jget (tm_nodes s) a") simp_all

lemma conn_push: "conn (upd_node a (push_connection b) s) x = (if x = a \<and> present s a then insert b (conn s x) else conn s x)"
proof (cases "x = a")
  case True
  then show ?thesis
    unfolding conn_def True connections_upd
    by (cases "jget (tm_nodes s) a") (simp_all add: push_connection_def connections_of_def)
next
  case False
  then show ?thesis
    unfolding conn_def connections_upd_other [OF False] by simp
qed

lemma conn_adj [simp]: "conn (adj_add a b s) = conn s" "conn (s\<lparr>tm_adjacency := x\<rparr>) = conn s"
  by (simp_all add: conn_def connections_of_def fun_eq_iff)

lemma adjs_upd [simp]: "adjs (upd_node a f s) = adjs s" "adjs (upd_ref q f s) = adjs s"
  by (simp_all add: adjs_def upd_ref_def upd_node_def fun_eq_iff split: option.split)

lemma adjs_add: "adjs (adj_add a b s) x = (if x = a \<and> jget (tm_adjacency s) a \<noteq> None then insert b (adjs s x) else adjs s x)"
  by (auto simp: adjs_def adj_add_def split: option.splits)

lemma adj_dom [simp]: "(jget (tm_adjacency (adj_add a b s)) x = None) = (jget (tm_adjacency s) x = None)"
  "jget (tm_adjacency (upd_node a f s)) x = jget (tm_adjacency s) x" "jget (tm_adjacency (upd_ref q f s)) x = jget (tm_adjacency s) x"
  by (auto simp: adj_add_def upd_ref_def upd_node_def split: option.splits)

text \<open>A connection between two agents, in both directions, in the nodes and in the adjacency list.\<close>

definition both :: "string \<Rightarrow> string \<Rightarrow> (string \<Rightarrow> string set) \<Rightarrow> string \<Rightarrow> string set" where
  "both a b f = f(a := insert b (f a), b := insert a (f b))"

definition links_pair :: "string \<Rightarrow> string \<Rightarrow> topology \<Rightarrow> topology \<Rightarrow> bool" where
  "links_pair a b s s' \<longleftrightarrow> skeleton s' = skeleton s \<and> conn s' = both a b (conn s) \<and> adjs s' = both a b (adjs s) \<and>
     (\<forall>x. (jget (tm_adjacency s') x = None) = (jget (tm_adjacency s) x = None))"

lemma connect_links:
  assumes "mirror_inv s" "present s a" "present s b" "a \<noteq> b"
  shows "links_pair a b s (connect a b s)"
  using assms skeleton_present [of "adj_add a b (upd_node a (push_connection b) s)" s b]
  by (auto simp: links_pair_def connect_def conn_push adjs_add both_def fun_eq_iff mirror_inv_def)

lemma pair_mirror:
  assumes "mirror_inv s" "links_pair a b s s'"
  shows "mirror_inv s'"
  using assms skeleton_wf [of s' s] skeleton_present [of s' s] by (simp add: mirror_inv_def links_pair_def both_def)

lemma pair_sym:
  assumes "sym_inv s" "links_pair a b s s'" "present s a" "present s b" "a \<noteq> b"
  shows "sym_inv s'"
  using assms skeleton_present [of s' s] unfolding sym_inv_def links_pair_def both_def
  by (auto split: if_splits)

text \<open>Sequences of new connections.\<close>

inductive links :: "topology \<Rightarrow> topology \<Rightarrow> bool" where
  links_refl: "links s s"
| links_step: "links s s1 \<Longrightarrow> a \<noteq> b \<Longrightarrow> present s1 a \<Longrightarrow> present s1 b \<Longrightarrow> links_pair a b s1 s2 \<Longrightarrow> links s s2"

lemma links_one: "links_pair a b s s' \<Longrightarrow> a \<noteq> b \<Longrightarrow> present s a \<Longrightarrow> present s b \<Longrightarrow> links s s'"
  by (rule links_step [OF links_refl])

lemma links_trans: "links s1 s2 \<Longrightarrow> links s s1 \<Longrightarrow> links s s2"
  by (induction rule: links.induct) (auto intro: links.intros)

lemma links_keep:
  assumes "links s s'"
  shows "skeleton s' = skeleton s" "conn s x \<subseteq> conn s' x" "mirror_inv s \<Longrightarrow> mirror_inv s'" "sym_inv s \<Longrightarrow> sym_inv s'"
proof -
  have "skeleton s' = skeleton s \<and> conn s x \<subseteq> conn s' x \<and> (mirror_inv s \<longrightarrow> mirror_inv s') \<and> (sym_inv s \<longrightarrow> sym_inv s')"
    using assms
  proof (induction rule: links.induct)
    case (links_step s s1 a b s2)
    then have "conn s1 x \<subseteq> conn s2 x" "skeleton s2 = skeleton s1"
      by (auto simp: links_pair_def both_def)
    then show ?case
      using links_step pair_mirror pair_sym by (metis order_trans)
  qed simp
  then show "skeleton s' = skeleton s" "conn s x \<subseteq> conn s' x" "mirror_inv s \<Longrightarrow> mirror_inv s'" "sym_inv s \<Longrightarrow> sym_inv s'"
    by auto
qed

lemma links_fold:
  assumes "\<And>a s. a \<in> set xs \<Longrightarrow> mirror_inv s \<Longrightarrow> skeleton s = skeleton s0 \<Longrightarrow> links s (f a s)" "mirror_inv s0"
  shows "links s0 (fold f xs s0)"
proof -
  have "links s (fold f xs s)" if "mirror_inv s" "skeleton s = skeleton s0" for s
    using that assms(1)
  proof (induction xs arbitrary: s)
    case (Cons a xs)
    then have l: "links s (f a s)"
      by simp
    have "links (f a s) (fold f xs (f a s))"
      using Cons.IH [of "f a s"] Cons.prems links_keep(1,3) [OF l] by simp
    then show ?case
      using links_trans [OF _ l] by simp
  qed (simp add: links_refl)
  then show ?thesis
    using assms(2) by simp
qed

section \<open>Rebalancing adds connections\<close>

lemma mesh_node_links: "mirror_inv s \<Longrightarrow> links s (mesh_node rnd target a s)"
proof (induction rnd target a s rule: mesh_node.induct)
  case (1 rnd target a s)
  let ?cs = "filter (\<lambda>b. b \<noteq> a \<and> b \<notin> set (connections_of s a)) (jkeys (tm_nodes s))"
  let ?b = "draw (fst rnd a (length (connections_of s a))) ?cs"
  show ?case
  proof (cases "length (connections_of s a) < target \<and> ?cs \<noteq> [] \<and> present s a")
    case True
    have b: "?b \<in> set ?cs"
      using True draw_mem by blast
    then have "?b \<noteq> a" "present s ?b"
      using jget_jkeys [of "tm_nodes s" ?b] by auto
    then have pair: "links_pair a ?b s (connect a ?b s)" "links s (connect a ?b s)"
      using connect_links [of s a ?b] 1(2) True links_step [OF links_refl, of a ?b s] by auto
    have "links (connect a ?b s) (mesh_node rnd target a (connect a ?b s))"
      using "1.IH" [OF _ refl _ pair_mirror [OF 1(2) pair(1)]] True by simp
    then show ?thesis
      using True links_trans pair(2) by (subst mesh_node.simps) (simp add: Let_def)
  next
    case False
    then have "mesh_node rnd target a s = s"
      by (subst mesh_node.simps) (auto simp: Let_def)
    then show ?thesis
      by (simp add: links_refl)
  qed
qed

lemma rebalanceMesh_links: "mirror_inv s \<Longrightarrow> links s (rebalanceMesh rnd s)"
  unfolding rebalanceMesh_def by (rule links_fold) (simp_all add: mesh_node_links)

lemma insert_absorb_fun: "a \<in> f b \<Longrightarrow> f(b := insert a (f b)) = f"
  by (simp add: insert_absorb)

lemma link_worker_links:
  assumes "mirror_inv s" "present s a" "present s b" "a \<noteq> b"
  shows "links_pair a b s (link_worker a b s)"
proof -
  let ?s1 = "adj_add a b (upd_node a (push_connection b) s)"
  let ?s2 = "if a \<in> set (connections_of ?s1 b) then ?s1 else upd_node b (push_connection a) ?s1"
  have dom: "jget (tm_adjacency s) a \<noteq> None" "jget (tm_adjacency s) b \<noteq> None"
    using assms by (auto simp: mirror_inv_def)
  have p1: "present ?s1 b"
    using assms(3) skeleton_present [of ?s1 s b] by simp
  have c1: "conn ?s1 = (conn s)(a := insert b (conn s a))"
    using assms(2) by (auto simp: fun_eq_iff conn_push)
  have "conn ?s2 x = both a b (conn s) x" for x
  proof (cases "a \<in> set (connections_of ?s1 b)")
    case True
    then have "a \<in> conn s b"
      using c1 assms(4) by (simp add: conn_def [symmetric])
    then show ?thesis
      unfolding if_P [OF True] c1 using assms(4) by (auto simp: both_def)
  next
    case False
    then show ?thesis
      unfolding if_not_P [OF False] conn_push c1 using p1 assms(4) by (simp add: both_def)
  qed
  moreover have "adjs (adj_add b a ?s2) x = both a b (adjs s) x" for x
    using dom assms(4) by (auto simp: adjs_add both_def)
  ultimately show ?thesis
    by (auto simp: links_pair_def link_worker_def Let_def fun_eq_iff)
qed

lemma hybrid_worker_links:
  assumes "mirror_inv s" "present s a" "\<forall>b \<in> set workers. present s b"
  shows "links s (hybrid_worker rnd target workers a current s)"
  using assms
proof (induction rnd target workers a current s rule: hybrid_worker.induct)
  case (1 rnd target workers a current s)
  let ?cs = "filter (\<lambda>b. b \<noteq> a \<and> b \<notin> set current) workers"
  let ?b = "draw (fst rnd a (length current)) ?cs"
  show ?case
  proof (cases "length current < target \<and> ?cs \<noteq> []")
    case True
    then have "?b \<in> set ?cs"
      using draw_mem by blast
    then have b: "?b \<noteq> a" "present s ?b"
      using 1(4) by auto
    then have pair: "links_pair a ?b s (link_worker a ?b s)" "links s (link_worker a ?b s)"
      using link_worker_links [of s a ?b] 1(2,3) links_step [OF links_refl, of a ?b s] by auto
    have keep: "skeleton (link_worker a ?b s) = skeleton s"
      using pair(1) by (simp add: links_pair_def)
    have "links (link_worker a ?b s) (hybrid_worker rnd target workers a (current @ [?b]) (link_worker a ?b s))"
      using "1.IH" [OF _ refl _ refl pair_mirror [OF 1(2) pair(1)]] True 1(3,4) skeleton_present [OF keep] by simp
    then show ?thesis
      using True links_trans pair(2) by (subst hybrid_worker.simps) (simp add: Let_def)
  next
    case False
    then have "hybrid_worker rnd target workers a current s = s"
      by (subst hybrid_worker.simps) (auto simp: Let_def)
    then show ?thesis
      by (simp add: links_refl)
  qed
qed

lemma rebalanceHybrid_links:
  assumes "mirror_inv s"
  shows "links s (rebalanceHybrid rnd s)"
proof -
  define cs where "cs = filter (\<lambda>a. role_of s a = Some Queen \<or> role_of s a = Some Coordinator) (jkeys (tm_nodes s))"
  define ws where "ws = filter (\<lambda>a. role_of s a = Some Worker \<or> role_of s a = Some Peer) (jkeys (tm_nodes s))"
  define s1 where "s1 = fold (\<lambda>a s. hybrid_worker rnd (min 3 (length ws - 1)) ws a (filter (\<lambda>c. c \<in> set ws) (connections_of s a)) s) ws s"
  have p: "present s a" if "a \<in> set ws \<union> set cs" for a
    using that by (auto simp: ws_def cs_def role_of_def)
  have l1: "links s s1"
    unfolding s1_def
  proof (rule links_fold [OF _ assms])
    fix a t
    assume "a \<in> set ws" "mirror_inv t" "skeleton t = skeleton s"
    then show "links t (hybrid_worker rnd (min 3 (length ws - 1)) ws a (filter (\<lambda>c. c \<in> set ws) (connections_of t a)) t)"
      using p skeleton_present [of t s] by (intro hybrid_worker_links) auto
  qed
  have "links s1 (fold (hybrid_coordinator rnd cs) ws s1)" if "cs \<noteq> []"
  proof (rule links_fold)
    fix a t
    assume a: "a \<in> set ws" "mirror_inv t" "skeleton t = skeleton s1"
    have c: "draw (snd rnd a) cs \<in> set cs"
      using draw_mem [OF that] .
    then have "draw (snd rnd a) cs \<noteq> a"
      using a(1) by (auto simp: ws_def cs_def)
    moreover have "present t a" "present t (draw (snd rnd a) cs)"
      using p c a(1,3) links_keep(1) [OF l1] skeleton_present [of t s] by auto
    ultimately have "links t (connect a (draw (snd rnd a) cs) t)"
      by (intro links_one [OF connect_links [OF a(2)]]) simp_all
    then show "links t (hybrid_coordinator rnd cs a t)"
      by (simp add: hybrid_coordinator_def links_refl)
  qed (rule links_keep(3) [OF l1 assms])
  moreover have "rebalanceHybrid rnd s = (if cs \<noteq> [] then fold (hybrid_coordinator rnd cs) ws s1 else s1)"
    unfolding rebalanceHybrid_def Let_def cs_def ws_def s1_def ..
  ultimately show ?thesis
    using l1 links_trans [OF _ l1] by simp
qed

text \<open>A reference to a stored node reaches it.\<close>

lemma upd_ref_stored: "jget (tm_nodes s) (fst q) = Some n \<Longrightarrow> tn_ref n = snd q \<Longrightarrow> upd_ref q f s = upd_node (fst q) f s"
  by (simp add: upd_ref_def upd_node_def)

lemma leader_ref: "leader_ok r (Some q) s \<Longrightarrow> \<exists>n. jget (tm_nodes s) (fst q) = Some n \<and> tn_ref n = snd q \<and> tn_role n = r"
  by (cases q) (auto simp: leader_ok_def)

lemma leader_skeleton: "skeleton s' = skeleton s \<Longrightarrow> leader_ok r q s \<Longrightarrow> leader_ok r q s'"
  using skeleton_node [of s s'] unfolding leader_ok_def by metis

lemma attach_worker_links:
  assumes "mirror_inv s" "leader_ok Queen (Some q) s"
  shows "links s (attach_worker q a s)" "role_of s a = Some Worker \<Longrightarrow> fst q \<in> conn (attach_worker q a s) a"
proof -
  let ?s1 = "adj_add a (fst q) (upd_node a (push_connection (fst q)) s)"
  obtain n where n: "jget (tm_nodes s) (fst q) = Some n" "tn_ref n = snd q" "tn_role n = Queen"
    using leader_ref [OF assms(2)] by blast
  have "leader_ok Queen (Some q) ?s1"
    by (rule leader_skeleton [OF _ assms(2)]) simp
  then have u: "upd_ref q (push_connection a) ?s1 = upd_node (fst q) (push_connection a) ?s1"
    using leader_ref upd_ref_stored by metis
  have pair: "links_pair a (fst q) s (connect a (fst q) s)" and fires: "a \<noteq> fst q" "present s a" if "role_of s a = Some Worker"
  proof -
    have "a \<noteq> fst q" "present s a"
      using that n by (auto simp: role_of_def)
    then show "links_pair a (fst q) s (connect a (fst q) s)" "a \<noteq> fst q" "present s a"
      using connect_links [OF assms(1), of a "fst q"] n(1) by simp_all
  qed
  have eq: "attach_worker q a s = (if role_of s a = Some Worker \<and> fst q \<notin> set (connections_of s a) then connect a (fst q) s else s)"
    unfolding attach_worker_def u connect_def ..
  show "links s (attach_worker q a s)"
    unfolding eq using pair fires n(1) by (auto intro: links_refl links_step [OF links_refl])
  show "fst q \<in> conn (attach_worker q a s) a" if "role_of s a = Some Worker"
    unfolding eq using pair [OF that] fires [OF that] that by (auto simp: links_pair_def both_def conn_def [symmetric])
qed

lemma attach_all:
  assumes "mirror_inv s" "leader_ok Queen (Some q) s"
  shows "links s (fold (attach_worker q) xs s)" "a \<in> set xs \<Longrightarrow> role_of s a = Some Worker \<Longrightarrow> fst q \<in> conn (fold (attach_worker q) xs s) a"
proof -
  show l: "links s (fold (attach_worker q) xs s)" for xs
    by (rule links_fold [OF _ assms(1)]) (use attach_worker_links(1) leader_skeleton [OF _ assms(2)] in blast)
  show "fst q \<in> conn (fold (attach_worker q) xs s) a" if "a \<in> set xs" "role_of s a = Some Worker"
    using that(1)
  proof (induction xs rule: rev_induct)
    case (snoc x xs)
    let ?t = "fold (attach_worker q) xs s"
    have t: "mirror_inv ?t" "leader_ok Queen (Some q) ?t" "role_of ?t a = Some Worker"
      using links_keep(3) [OF l assms(1)] leader_skeleton [OF links_keep(1) [OF l] assms(2)] skeleton_role [OF links_keep(1) [OF l]] that(2) by simp_all
    have "conn ?t a \<subseteq> conn (attach_worker q x ?t) a"
      by (rule links_keep(2) [OF attach_worker_links(1) [OF t(1,2)]])
    then show ?case
      using snoc attach_worker_links(2) [OF t(1,2), of a] t(3) by (cases "x = a") auto
  qed simp
qed

text \<open>The first node becomes a leader: only its role changes.\<close>

lemma promote_effect:
  assumes "mirror_inv s" "promote r s = Some (q, s')" "r = Queen \<and> tm_queen s = None \<or> r = Coordinator \<and> tm_coordinator s = None"
    "r = Queen \<longrightarrow> tm_coordinator s = None" "r = Coordinator \<longrightarrow> tm_queen s = None"
  shows "mirror_inv s' \<and> conn s' = conn s \<and> jkeys (tm_nodes s') = jkeys (tm_nodes s) \<and> leader_ok r (Some q) s' \<and>
    tm_queen s' = (if r = Queen then Some q else None) \<and> tm_coordinator s' = (if r = Coordinator then Some q else None) \<and>
    (\<forall>a. role_of s' a = (if a = fst q then Some r else role_of s a)) \<and> present s (fst q)"
proof -
  obtain a n rest where n: "tm_nodes s = (a, n) # rest"
    using assms(2) by (cases "tm_nodes s") (auto simp: promote_def)
  define n1 where "n1 = n\<lparr>tn_role := r\<rparr>"
  have get: "jget (tm_nodes s) a = Some n" "tn_agentId n = a"
    using n assms(1) by (auto simp: mirror_inv_def wf_topology_def)
  have s': "q = (a, tn_ref n)" "s' = addToRoleIndex n1 (upd_node a (\<lambda>_. n1) s)"
    using assms(2) n by (simp_all add: promote_def n1_def Let_def)
  have nodes: "tm_nodes s' = jset a n1 (tm_nodes s)" "tm_adjacency s' = tm_adjacency s"
      "tm_queen s' = (if r = Queen then Some q else None)" "tm_coordinator s' = (if r = Coordinator then Some q else None)"
    using get assms(3-5) by (auto simp: s' addToRoleIndex_def upd_node_def n1_def Let_def)
  have c: "conn s' x = conn s x" for x
    using get nodes(1) by (cases "x = a") (simp_all add: conn_def connections_of_def n1_def)
  have lead: "leader_ok r (Some q) s'"
    by (simp add: leader_ok_def nodes(1) s'(1) n1_def)
  have "wf_topology s'"
    using assms(1) lead get nodes by (auto simp: wf_topology_def mirror_inv_def n1_def leader_ok_def)
  then have "mirror_inv s'"
    using assms(1) c get nodes(1,2) by (simp add: mirror_inv_def adjs_def)
  then show ?thesis
    using c lead nodes get s'(1) by (auto simp: fun_eq_iff jkeys_def role_of_def n1_def n)
qed

section \<open>The invariant\<close>

definition role_inv :: "topology_config \<Rightarrow> topology \<Rightarrow> bool" where
  "role_inv cfg s \<longleftrightarrow>
     (tc_type cfg = Hierarchical \<longrightarrow> tm_coordinator s = None \<and>
        (\<forall>a. role_of s a \<in> {None, Some Queen, Some Worker} \<and> (role_of s a = Some Queen \<longrightarrow> map_option fst (tm_queen s) = Some a))) \<and>
     (tc_type cfg = Centralized \<longrightarrow> tm_queen s = None \<and>
        (\<forall>a. role_of s a \<in> {None, Some Coordinator, Some Worker} \<and> (role_of s a = Some Coordinator \<longrightarrow> map_option fst (tm_coordinator s) = Some a)))"

text \<open>The queen is connected with every other agent.\<close>

definition star_inv :: "topology \<Rightarrow> bool" where
  "star_inv s \<longleftrightarrow> (\<forall>q a. tm_queen s = Some q \<longrightarrow> present s a \<longrightarrow> a \<noteq> fst q \<longrightarrow> fst q \<in> conn s a)"

definition topo_inv :: "topology_config \<Rightarrow> topology \<Rightarrow> bool" where
  "topo_inv cfg s \<longleftrightarrow> mirror_inv s \<and> length (tm_nodes s) \<le> tc_maxAgents cfg \<and> role_inv cfg s \<and>
     (tc_type cfg \<noteq> Centralized \<longrightarrow> sym_inv s) \<and> (tc_type cfg = Hierarchical \<longrightarrow> star_inv s)"

lemma length_keys: "length (tm_nodes s) = length (jkeys (tm_nodes s))"
  by (simp add: jkeys_def)

lemma skeleton_role_inv: "skeleton s' = skeleton s \<Longrightarrow> role_inv cfg s \<Longrightarrow> role_inv cfg s'"
  using skeleton_role [of s' s] by (simp add: role_inv_def skeleton_def)

lemma links_inv:
  assumes "links s s'" "topo_inv cfg s"
  shows "topo_inv cfg s'"
proof -
  note k = links_keep [OF assms(1)]
  have "star_inv s \<Longrightarrow> star_inv s'"
    using k(1,2) skeleton_present [OF k(1)] unfolding star_inv_def by (auto simp: skeleton_def subset_iff)
  moreover have "length (tm_nodes s') = length (tm_nodes s)"
    using k(1) skeleton_keys [of s] skeleton_keys [of s'] by (simp add: length_keys)
  ultimately show ?thesis
    using assms(2) k skeleton_role_inv [OF k(1)] by (simp add: topo_inv_def)
qed

lemma hierarchical_inv:
  assumes "mirror_inv s" "length (tm_nodes s) \<le> tc_maxAgents cfg" "role_inv cfg s" "sym_inv s" "tc_type cfg = Hierarchical"
  shows "topo_inv cfg (rebalanceHierarchical s)"
proof -
  define rs where "rs = (case tm_queen s of Some q \<Rightarrow> Some (q, s) | None \<Rightarrow> promote Queen s)"
  show ?thesis
  proof (cases rs)
    case None
    then have "tm_queen s = None" "rebalanceHierarchical s = s"
      by (auto simp: rebalanceHierarchical_def rs_def split: option.splits)
    then show ?thesis
      using assms by (simp add: topo_inv_def star_inv_def)
  next
    case (Some x)
    obtain q s1 where x: "x = (q, s1)"
      by (cases x)
    have s1: "mirror_inv s1 \<and> conn s1 = conn s \<and> jkeys (tm_nodes s1) = jkeys (tm_nodes s) \<and> leader_ok Queen (Some q) s1 \<and>
        tm_queen s1 = Some q \<and> tm_coordinator s1 = None \<and>
        (\<forall>a. role_of s1 a \<in> {None, Some Queen, Some Worker} \<and> (role_of s1 a = Some Queen \<longrightarrow> a = fst q))"
    proof (cases "tm_queen s")
      case None
      then have "promote Queen s = Some (q, s1)"
        using Some x by (simp add: rs_def)
      moreover have "tm_coordinator s = None"
        using assms(3,5) by (simp add: role_inv_def)
      ultimately show ?thesis
        using promote_effect [OF assms(1), of Queen q s1] None assms(3,5) by (auto simp: role_inv_def)
    next
      case q: (Some q')
      then show ?thesis
        using Some x assms(1,3,5) by (auto simp: rs_def role_inv_def mirror_inv_def wf_topology_def)
    qed
    have "rebalanceHierarchical s = fold (attach_worker q) (jkeys (tm_nodes s1)) s1" (is "_ = ?t")
      using Some x by (simp add: rebalanceHierarchical_def rs_def)
    note att = attach_all [where s = s1 and q = q and xs = "jkeys (tm_nodes s1)"]
    have l: "links s1 ?t"
      using att(1) s1 by simp
    note k = links_keep [OF l]
    have "sym_inv s1"
      using assms(4) s1 jget_jkeys [of "tm_nodes s1"] jget_jkeys [of "tm_nodes s"] unfolding sym_inv_def by simp
    have "star_inv ?t"
      unfolding star_inv_def
    proof (intro allI impI)
      fix q' a
      assume a: "tm_queen ?t = Some q'" "present ?t a" "a \<noteq> fst q'"
      have "q' = q"
        using a(1) s1 k(1) by (simp add: skeleton_def)
      have "present s1 a"
        using a(2) unfolding skeleton_present [OF k(1)] .
      have "role_of s1 a = Some Worker"
      proof -
        have "role_of s1 a \<noteq> None"
          using \<open>present s1 a\<close> by (simp add: role_of_def)
        moreover have "role_of s1 a \<noteq> Some Queen"
          using s1 a(3) \<open>q' = q\<close> by blast
        moreover have "role_of s1 a \<in> {None, Some Queen, Some Worker}"
          using s1 by blast
        ultimately show ?thesis
          by (simp only: insert_iff empty_iff simp_thms)
      qed
      moreover have "a \<in> set (jkeys (tm_nodes s1))"
        using jget_jkeys [of "tm_nodes s1" a] \<open>present s1 a\<close> by simp
      ultimately show "fst q' \<in> conn ?t a"
        using att(2) [of a] s1 \<open>q' = q\<close> by simp
    qed
    moreover have "role_inv cfg ?t"
      using s1 assms(5) by (intro skeleton_role_inv [OF k(1)]) (auto simp: role_inv_def)
    moreover have "length (tm_nodes ?t) \<le> tc_maxAgents cfg"
      using s1 assms(2) skeleton_keys [of ?t] skeleton_keys [of s1] k(1) by (simp add: length_keys)
    moreover have "mirror_inv ?t" "sym_inv ?t"
      using k(3,4) s1 \<open>sym_inv s1\<close> by simp_all
    ultimately show ?thesis
      using \<open>rebalanceHierarchical s = ?t\<close> assms(5) by (simp add: topo_inv_def)
  qed
qed

lemma inv_cong:
  assumes "topo_inv cfg s" "skeleton s' = skeleton s" "conn s' = conn s" "adjs s' = adjs s"
    "\<And>x. (jget (tm_adjacency s') x = None) = (jget (tm_adjacency s) x = None)"
  shows "topo_inv cfg s'"
proof -
  have "length (tm_nodes s') = length (tm_nodes s)" "tm_queen s' = tm_queen s"
    using assms(2) skeleton_keys [of s] skeleton_keys [of s'] by (simp_all add: length_keys) (simp add: skeleton_def)
  moreover have "mirror_inv s'"
    using assms(1) skeleton_wf [OF assms(2)] unfolding topo_inv_def mirror_inv_def skeleton_present [OF assms(2)] assms(3-5) by blast
  moreover have "sym_inv s' = sym_inv s" "star_inv s' = star_inv s"
    unfolding sym_inv_def star_inv_def skeleton_present [OF assms(2)] assms(3) \<open>tm_queen s' = tm_queen s\<close> by (rule refl)+
  ultimately show ?thesis
    using assms(1) skeleton_role_inv [OF assms(2)] by (simp add: topo_inv_def)
qed

lemma attach_only_effect:
  assumes "mirror_inv s" "leader_ok Coordinator (Some c) s" "present s a"
  shows "mirror_inv (attach_only c a s) \<and> skeleton (attach_only c a s) = skeleton s"
proof (cases "role_of s a \<noteq> Some Coordinator \<and> fst c \<notin> set (connections_of s a)")
  case True
  define s1 where "s1 = upd_node a (\<lambda>n. n\<lparr>tn_connections := [fst c]\<rparr>) s"
  define s2 where "s2 = s1\<lparr>tm_adjacency := jset a [fst c] (tm_adjacency s1)\<rparr>"
  obtain n where n: "jget (tm_nodes s) (fst c) = Some n" "tn_role n = Coordinator"
    using leader_ref [OF assms(2)] by blast
  then have ne: "a \<noteq> fst c"
    using True by (auto simp: role_of_def)
  have sk: "skeleton s1 = skeleton s"
    unfolding s1_def by (rule skeleton_upd) simp
  then have sk2: "skeleton s2 = skeleton s"
    by (simp add: s2_def)
  have "leader_ok Coordinator (Some c) s2"
    by (rule leader_skeleton [OF sk2 assms(2)])
  then have u: "upd_ref c (push_connection a) s2 = upd_node (fst c) (push_connection a) s2"
    using leader_ref upd_ref_stored by metis
  have dom: "jget (tm_adjacency s2) x = None \<longleftrightarrow> jget (tm_nodes s) x = None" for x
    using assms(1,3) by (auto simp: mirror_inv_def s2_def s1_def)
  have c2: "conn s2 = (conn s)(a := {fst c})"
  proof
    fix x show "conn s2 x = ((conn s)(a := {fst c})) x"
    proof (cases "x = a")
      case True
      then show ?thesis
        using assms(3) by (auto simp: s2_def) (auto simp: conn_def s1_def connections_upd split: option.splits)
    next
      case False
      then show ?thesis
        by (simp add: s2_def) (simp add: conn_def s1_def connections_upd_other)
    qed
  qed
  have a2: "adjs s2 = (adjs s)(a := {fst c})"
    by (auto simp: fun_eq_iff adjs_def s2_def s1_def)
  have eq: "attach_only c a s = adj_add (fst c) a (upd_node (fst c) (push_connection a) s2)"
    unfolding u [symmetric] using True by (simp add: attach_only_def s1_def s2_def Let_def)
  have "adjs (attach_only c a s) x = conn (attach_only c a s) x" for x
    unfolding eq using assms(1) n(1) dom [of "fst c"] skeleton_present [OF sk2]
    by (simp add: adjs_add conn_push a2 c2 mirror_inv_def)
  moreover have sk3: "skeleton (attach_only c a s) = skeleton s"
    by (simp add: eq sk2)
  moreover have "(jget (tm_adjacency (attach_only c a s)) x = None) = (jget (tm_nodes (attach_only c a s)) x = None)" for x
    unfolding skeleton_present [OF sk3] by (simp add: eq dom)
  ultimately show ?thesis
    using skeleton_wf [OF sk3] assms(1) by (simp add: mirror_inv_def)
qed (use assms(1) in \<open>auto simp: attach_only_def\<close>)

lemma centralized_inv:
  assumes "topo_inv cfg s" "tc_type cfg = Centralized"
  shows "topo_inv cfg (rebalanceCentralized s)"
proof -
  have s: "mirror_inv s" "length (tm_nodes s) \<le> tc_maxAgents cfg" "role_inv cfg s"
    using assms(1) by (simp_all add: topo_inv_def)
  define rs where "rs = (case tm_coordinator s of Some c \<Rightarrow> Some (c, s) | None \<Rightarrow> promote Coordinator s)"
  show ?thesis
  proof (cases rs)
    case None
    then have "rebalanceCentralized s = s"
      by (simp add: rebalanceCentralized_def rs_def)
    then show ?thesis
      using assms(1) by simp
  next
    case (Some x)
    obtain c s1 where x: "x = (c, s1)"
      by (cases x)
    have s1: "mirror_inv s1 \<and> jkeys (tm_nodes s1) = jkeys (tm_nodes s) \<and> leader_ok Coordinator (Some c) s1 \<and> role_inv cfg s1"
    proof (cases "tm_coordinator s")
      case None
      then have "promote Coordinator s = Some (c, s1)"
        using Some x by (simp add: rs_def)
      moreover have "tm_queen s = None"
        using s(3) assms(2) by (simp add: role_inv_def)
      ultimately show ?thesis
        using promote_effect [OF s(1), of Coordinator c s1] None s(3) assms(2) by (auto simp: role_inv_def)
    next
      case (Some c')
      then show ?thesis
        using \<open>rs = Some x\<close> x s by (auto simp: rs_def mirror_inv_def wf_topology_def)
    qed
    have "mirror_inv (fold (attach_only c) xs t) \<and> skeleton (fold (attach_only c) xs t) = skeleton t"
      if "mirror_inv t" "leader_ok Coordinator (Some c) t" "\<forall>a \<in> set xs. present t a" for xs t
      using that
    proof (induction xs arbitrary: t)
      case (Cons a xs)
      then have e: "mirror_inv (attach_only c a t)" "skeleton (attach_only c a t) = skeleton t"
        using attach_only_effect [of t c a] by simp_all
      then show ?case
        using Cons.IH [OF e(1) leader_skeleton [OF e(2)]] Cons.prems skeleton_stays [OF e(2)] by simp
    qed simp
    from this [of s1 "jkeys (tm_nodes s1)"] have t: "mirror_inv (rebalanceCentralized s)" "skeleton (rebalanceCentralized s) = skeleton s1"
      using Some x s1 keys_present [of _ s1] by (simp_all add: rebalanceCentralized_def rs_def)
    then show ?thesis
      using s1 s(2) assms(2) skeleton_role_inv [OF t(2)] skeleton_keys [of "rebalanceCentralized s"] skeleton_keys [of s1]
      by (simp add: topo_inv_def length_keys)
  qed
qed

lemma rebalance_inv:
  assumes "topo_inv cfg s"
  shows "topo_inv cfg (rebalance cfg rnd now s)"
proof -
  have s1: "topo_inv cfg (s\<lparr>tm_lastRebalance := now\<rparr>)"
    by (rule inv_cong [OF assms]) (simp_all add: skeleton_def conn_def connections_of_def adjs_def fun_eq_iff)
  then have m: "mirror_inv (s\<lparr>tm_lastRebalance := now\<rparr>)"
    by (simp add: topo_inv_def)
  show ?thesis
  proof (cases "now - tm_lastRebalance s < 5000")
    case False
    then show ?thesis
      using links_inv [OF rebalanceMesh_links [OF m] s1] links_inv [OF rebalanceHybrid_links [OF m] s1] centralized_inv [OF s1]
        hierarchical_inv [OF m, of cfg] s1
      by (cases "tc_type cfg") (simp_all add: rebalance_def Let_def topo_inv_def [of cfg "s\<lparr>tm_lastRebalance := now\<rparr>"])
  qed (simp add: rebalance_def assms)
qed

section \<open>Adding and removing agents\<close>

lemma create_edge_effect:
  assumes "present t c" "adjs t = conn t" "jget (tm_adjacency t) c \<noteq> None"
  shows "skeleton (create_edge cfg a c t) = skeleton t \<and> conn (create_edge cfg a c t) = (conn t)(c := insert a (conn t c)) \<and>
    adjs (create_edge cfg a c t) = conn (create_edge cfg a c t) \<and>
    (\<forall>x. (jget (tm_adjacency (create_edge cfg a c t)) x = None) = (jget (tm_adjacency t) x = None))"
proof -
  define t1 where "t1 = t\<lparr>tm_edges := tm_edges t @ [\<lparr>te_from = a, te_to = c, te_bidirectional = True\<rparr>]\<rparr>"
  have t1: "skeleton t1 = skeleton t" "conn t1 = conn t" "adjs t1 = adjs t" "tm_adjacency t1 = tm_adjacency t" "tm_nodes t1 = tm_nodes t"
    by (simp_all add: t1_def skeleton_def conn_def connections_of_def adjs_def fun_eq_iff)
  obtain n where n: "jget (tm_nodes t) c = Some n"
    using assms(1) by blast
  have cn: "conn t c = set (tn_connections n)"
    using n by (simp add: conn_def connections_of_def)
  have eq: "create_edge cfg a c t = (if a \<in> conn t c then t1 else adj_add c a (upd_node c (push_connection a) t1))"
    using n unfolding cn by (simp add: create_edge_def t1_def Let_def)
  have "conn (create_edge cfg a c t) = (conn t)(c := insert a (conn t c))"
    unfolding eq using n t1 by (auto simp: fun_eq_iff conn_push)
  moreover have "adjs (create_edge cfg a c t) = (conn t)(c := insert a (conn t c))"
    unfolding eq using t1 assms(2,3) by (auto simp: fun_eq_iff adjs_add)
  ultimately show ?thesis
    unfolding eq using t1 by auto
qed

lemma create_edges_effect:
  assumes "\<forall>c \<in> set cs. present t c" "adjs t = conn t" "\<forall>c \<in> set cs. jget (tm_adjacency t) c \<noteq> None"
  shows "skeleton (fold (create_edge cfg a) cs t) = skeleton t \<and>
    conn (fold (create_edge cfg a) cs t) = (\<lambda>x. if x \<in> set cs then insert a (conn t x) else conn t x) \<and>
    adjs (fold (create_edge cfg a) cs t) = conn (fold (create_edge cfg a) cs t) \<and>
    (\<forall>x. (jget (tm_adjacency (fold (create_edge cfg a) cs t)) x = None) = (jget (tm_adjacency t) x = None))"
  using assms
proof (induction cs arbitrary: t)
  case (Cons c cs)
  let ?t = "create_edge cfg a c t"
  have e: "skeleton ?t = skeleton t" "conn ?t = (conn t)(c := insert a (conn t c))" "adjs ?t = conn ?t"
    "\<And>x. (jget (tm_adjacency ?t) x = None) = (jget (tm_adjacency t) x = None)"
    using create_edge_effect [of t c cfg a] Cons.prems by auto
  have "\<forall>c \<in> set cs. present ?t c"
    using Cons.prems(1) unfolding skeleton_present [OF e(1)] by simp
  moreover have "\<forall>c \<in> set cs. jget (tm_adjacency ?t) c \<noteq> None"
    using Cons.prems(3) unfolding e(4) by simp
  ultimately show ?case
    using Cons.IH [OF _ e(3)] e by (auto simp: fun_eq_iff)
qed simp

lemma leader_present:
  assumes "mirror_inv s"
  shows "tm_queen s = Some q \<Longrightarrow> \<exists>n. jget (tm_nodes s) (fst q) = Some n \<and> tn_ref n = snd q \<and> tn_role n = Queen"
    "tm_coordinator s = Some q \<Longrightarrow> \<exists>n. jget (tm_nodes s) (fst q) = Some n \<and> tn_ref n = snd q \<and> tn_role n = Coordinator"
  using assms leader_ref [of Queen q s] leader_ref [of Coordinator q s] by (auto simp: mirror_inv_def wf_topology_def)

lemma initial_connections_present:
  assumes "mirror_inv s" "c \<in> set (calculateInitialConnections cfg role s)"
  shows "present s c"
proof -
  have keys: "c \<in> set (jkeys (tm_nodes s)) \<Longrightarrow> present s c"
    by (simp add: keys_present)
  have lead: "tm_queen s = Some q \<Longrightarrow> c = fst q \<Longrightarrow> present s c" "tm_coordinator s = Some q \<Longrightarrow> c = fst q \<Longrightarrow> present s c" for q
    using leader_present [OF assms(1)] by fastforce+
  have nodes: "c \<in> tn_agentId ` set (jvalues (tm_nodes s)) \<Longrightarrow> present s c"
    using assms(1) jvalues_jget [of "tm_nodes s"] by (auto simp: mirror_inv_def wf_topology_def)
  show ?thesis
  proof (cases "tc_type cfg")
    case Mesh
    then show ?thesis
      using assms(2) keys by (auto simp: calculateInitialConnections_def Let_def dest: in_set_takeD)
  next
    case Hierarchical
    then show ?thesis
      using assms(2) keys lead(1) by (cases "tm_queen s") (auto simp: calculateInitialConnections_def Let_def split: if_splits)
  next
    case Centralized
    then show ?thesis
      using assms(2) keys lead(2) by (cases "tm_coordinator s") (auto simp: calculateInitialConnections_def Let_def split: if_splits)
  next
    case Hybrid
    then have "c \<in> set (jkeys (tm_nodes s)) \<or> c \<in> tn_agentId ` set (jvalues (tm_nodes s))"
      using assms(2) by (auto simp: calculateInitialConnections_def Let_def dest: in_set_takeD)
    then show ?thesis
      using keys nodes by blast
  qed
qed

text \<open>The state after a new node is stored and before its edges are made.\<close>

definition inserted :: "topology_node \<Rightarrow> topology \<Rightarrow> topology" where
  "inserted n s =
     (let s2 = addToRoleIndex n (s\<lparr>tm_nodes := jset (tn_agentId n) n (tm_nodes s), tm_nextRef := tm_nextRef s + 1\<rparr>)
      in s2\<lparr>tm_adjacency := jset (tn_agentId n) (fold sadd (tn_connections n) []) (tm_adjacency s2)\<rparr>)"

lemma inserted_fields:
  "tm_nodes (inserted n s) = jset (tn_agentId n) n (tm_nodes s)"
  "tm_adjacency (inserted n s) = jset (tn_agentId n) (fold sadd (tn_connections n) []) (tm_adjacency s)"
  "tm_queen (inserted n s) = (if tn_role n = Queen then Some (tn_agentId n, tn_ref n) else tm_queen s)"
  "tm_coordinator (inserted n s) = (if tn_role n = Coordinator then Some (tn_agentId n, tn_ref n) else tm_coordinator s)"
  by (simp_all add: inserted_def addToRoleIndex_def Let_def)

lemma inserted_effect:
  assumes "mirror_inv s" "\<not> present s (tn_agentId n)"
  shows "wf_topology (inserted n s)" "conn (inserted n s) = (conn s)(tn_agentId n := set (tn_connections n))"
    "adjs (inserted n s) = conn (inserted n s)" "(jget (tm_adjacency (inserted n s)) x = None) = (jget (tm_nodes (inserted n s)) x = None)"
    "role_of (inserted n s) x = (if x = tn_agentId n then Some (tn_role n) else role_of s x)"
proof -
  show c: "conn (inserted n s) = (conn s)(tn_agentId n := set (tn_connections n))"
    by (simp add: fun_eq_iff conn_def connections_of_def inserted_fields)
  show "adjs (inserted n s) = conn (inserted n s)"
    unfolding c using assms(1) by (simp add: fun_eq_iff adjs_def inserted_fields mirror_inv_def)
  show "(jget (tm_adjacency (inserted n s)) x = None) = (jget (tm_nodes (inserted n s)) x = None)"
    using assms(1) by (simp add: inserted_fields mirror_inv_def)
  show "role_of (inserted n s) x = (if x = tn_agentId n then Some (tn_role n) else role_of s x)"
    by (simp add: role_of_def inserted_fields)
  have old: "leader_ok r q s \<Longrightarrow> leader_ok r q (inserted n s)" for r q
    using assms(2) by (auto simp: leader_ok_def inserted_fields)
  have new: "leader_ok (tn_role n) (Some (tn_agentId n, tn_ref n)) (inserted n s)"
    by (simp add: leader_ok_def inserted_fields)
  have w: "leader_ok Queen (tm_queen s) s" "leader_ok Coordinator (tm_coordinator s) s" "jwf (tm_nodes s)"
    "\<And>a m. jget (tm_nodes s) a = Some m \<Longrightarrow> tn_agentId m = a"
    using assms(1) by (auto simp: mirror_inv_def wf_topology_def)
  have "leader_ok Queen (tm_queen (inserted n s)) (inserted n s)"
    unfolding inserted_fields using old [OF w(1)] new by (cases "tn_role n = Queen") simp_all
  moreover have "leader_ok Coordinator (tm_coordinator (inserted n s)) (inserted n s)"
    unfolding inserted_fields using old [OF w(2)] new by (cases "tn_role n = Coordinator") simp_all
  moreover have "jwf (tm_nodes (inserted n s))"
    using w(3) by (simp add: inserted_fields)
  moreover have "\<forall>a m. jget (tm_nodes (inserted n s)) a = Some m \<longrightarrow> tn_agentId m = a"
    using w(4) by (simp add: inserted_fields)
  ultimately show "wf_topology (inserted n s)"
    by (simp add: wf_topology_def)
qed

lemma determined_roles:
  "tc_type cfg = Hierarchical \<Longrightarrow> determineRole cfg role s = Worker \<or> determineRole cfg role s = Queen \<and> (tm_nodes s = [] \<or> role = Queen \<and> tm_queen s = None)"
  "tc_type cfg = Centralized \<Longrightarrow> determineRole cfg role s = Worker \<or> determineRole cfg role s = Coordinator \<and> tm_nodes s = []"
  by (auto simp: determineRole_def)

lemma no_nodes_no_leader: "mirror_inv s \<Longrightarrow> tm_nodes s = [] \<Longrightarrow> tm_queen s = None \<and> tm_coordinator s = None"
  by (cases "tm_queen s"; cases "tm_coordinator s") (auto simp: mirror_inv_def wf_topology_def leader_ok_def)

lemma connected_inserted_inv:
  assumes inv: "topo_inv cfg s" and new: "\<not> present s a" and room: "length (tm_nodes s) < tc_maxAgents cfg"
    and n: "n = \<lparr>tn_agentId = a, tn_ref = k, tn_role = determineRole cfg role s, tn_status = st,
                 tn_connections = calculateInitialConnections cfg role s\<rparr>"
  shows "topo_inv cfg (createEdgesForNode cfg n (inserted n s))"
proof -
  let ?cs = "calculateInitialConnections cfg role s"
  let ?s3 = "inserted n s"
  let ?t = "createEdgesForNode cfg n ?s3"
  have m: "mirror_inv s" and ri: "role_inv cfg s"
    using inv by (simp_all add: topo_inv_def)
  have id: "tn_agentId n = a" "tn_connections n = ?cs" "tn_role n = determineRole cfg role s"
    using n by simp_all
  note i = inserted_effect [of s n, unfolded id, OF m new]
  have cs: "\<forall>c \<in> set ?cs. present s c" "a \<notin> set ?cs"
    using initial_connections_present [OF m] new by blast+
  have pres: "present ?s3 x \<longleftrightarrow> x = a \<or> present s x" for x
    by (simp add: inserted_fields id)
  have e: "skeleton ?t = skeleton ?s3" "conn ?t = (\<lambda>x. if x = a then set ?cs else if x \<in> set ?cs then insert a (conn s x) else conn s x)"
    "adjs ?t = conn ?t" "\<And>x. (jget (tm_adjacency ?t) x = None) = (jget (tm_nodes ?s3) x = None)"
    using create_edges_effect [of ?cs ?s3 cfg a] i cs pres
    by (auto simp: createEdgesForNode_def id fun_eq_iff)
  have pt: "present ?t x \<longleftrightarrow> x = a \<or> present s x" for x
    unfolding skeleton_present [OF e(1)] by (rule pres)
  have mirror: "mirror_inv ?t"
    using skeleton_wf [OF e(1) i(1)] e(3,4) skeleton_present [OF e(1)] by (simp add: mirror_inv_def)
  have len: "length (tm_nodes ?t) \<le> tc_maxAgents cfg"
  proof -
    have "jkeys (tm_nodes ?t) = jkeys (tm_nodes ?s3)"
      using e(1) skeleton_keys by metis
    then have "length (tm_nodes ?t) = Suc (length (tm_nodes s))"
      using new length_jset [of a n "tm_nodes s"] by (simp add: length_keys [of ?t] inserted_fields id jkeys_def)
    then show ?thesis
      using room by simp
  qed
  have roles: "role_of ?t x = (if x = a then Some (determineRole cfg role s) else role_of s x)" for x
    unfolding skeleton_role [OF e(1)] by (rule i(5))
  have heads: "tm_queen ?t = (if determineRole cfg role s = Queen then Some (a, k) else tm_queen s)"
    "tm_coordinator ?t = (if determineRole cfg role s = Coordinator then Some (a, k) else tm_coordinator s)"
    using e(1) inserted_fields(3,4) [of n s] n by (simp_all add: skeleton_def)
  have sym: "sym_inv ?t" if "sym_inv s"
    unfolding sym_inv_def
  proof (intro allI impI)
    fix x b assume b: "b \<in> conn ?t x"
    have "b \<in> conn s x \<Longrightarrow> present s b \<and> b \<noteq> x \<and> x \<in> conn s b"
      using that unfolding sym_inv_def by blast
    then show "present ?t b \<and> b \<noteq> x \<and> x \<in> conn ?t b"
      using b cs new unfolding pt e(2) by (auto split: if_splits)
  qed
  have role: "role_inv cfg ?t"
    using ri no_nodes_no_leader [OF m] determined_roles [of cfg role s] new
    unfolding role_inv_def roles heads by (auto simp: role_of_def)
  have star: "star_inv ?t" if h: "tc_type cfg = Hierarchical" "star_inv s"
    unfolding star_inv_def
  proof (intro allI impI)
    fix q x
    assume q: "tm_queen ?t = Some q" "present ?t x" "x \<noteq> fst q"
    show "fst q \<in> conn ?t x"
    proof (cases "determineRole cfg role s = Queen")
      case True
      then have "tm_nodes s = [] \<or> role = Queen"
        using determined_roles(1) [OF h(1), of role s] by auto
      then have "set ?cs = set (jkeys (tm_nodes s))"
        using h(1) by (auto simp: calculateInitialConnections_def jkeys_def Let_def)
      moreover have "fst q = a" "present s x"
        using q pt heads True by auto
      ultimately show ?thesis
        using q(3) unfolding e(2) by (simp add: keys_present)
    next
      case False
      then have qs: "tm_queen s = Some q"
        using q(1) heads by simp
      then have qp: "fst q \<in> set (jkeys (tm_nodes s))"
        using leader_present(1) [OF m] by (auto simp: keys_present)
      then have "fst q \<in> set ?cs"
        using h(1) qs by (auto simp: calculateInitialConnections_def Let_def)
      moreover have "fst q \<in> conn s x" if "x \<noteq> a"
        using h(2) qs q(2,3) that pt unfolding star_inv_def by blast
      ultimately show ?thesis
        unfolding e(2) by auto
    qed
  qed
  show ?thesis
    using mirror len role sym star inv unfolding topo_inv_def by blast
qed

lemma addNode_inv:
  assumes "topo_inv cfg s"
  shows "topo_inv cfg (snd (tm_addNode cfg rnd now a role s))"
proof (cases "present s a \<or> length (tm_nodes s) \<ge> tc_maxAgents cfg")
  case True
  then show ?thesis
    using assms by (auto simp: tm_addNode_def)
next
  case False
  define n where "n = \<lparr>tn_agentId = a, tn_ref = tm_nextRef s, tn_role = determineRole cfg role s, tn_status = NSyncing,
    tn_connections = calculateInitialConnections cfg role s\<rparr>"
  define s4 where "s4 = createEdgesForNode cfg n (inserted n s)"
  define s6 where "s6 = upd_node a (\<lambda>n. n\<lparr>tn_status := NActive\<rparr>) (updatePartitions cfg a s4)"
  have s4: "topo_inv cfg s4"
    unfolding s4_def using False by (intro connected_inserted_inv [OF assms _ _ n_def]) auto
  have s5: "topo_inv cfg (updatePartitions cfg a s4)"
    by (rule inv_cong [OF s4]) (simp_all add: updatePartitions_def skeleton_def conn_def connections_of_def adjs_def fun_eq_iff Let_def)
  have s6: "topo_inv cfg s6"
  proof (rule inv_cong [OF s5])
    show "skeleton s6 = skeleton (updatePartitions cfg a s4)"
      unfolding s6_def by (rule skeleton_upd) simp
    have "connections_of s6 x = connections_of (updatePartitions cfg a s4) x" for x
    proof (cases "x = a")
      case True
      then show ?thesis
        unfolding s6_def by (simp only: connections_upd) (simp add: connections_of_def split: option.split)
    qed (simp add: s6_def connections_upd_other)
    then show "conn s6 = conn (updatePartitions cfg a s4)"
      by (simp add: fun_eq_iff conn_def)
  qed (simp_all add: s6_def)
  have "snd (tm_addNode cfg rnd now a role s) = (if tc_autoRebalance cfg \<and> shouldRebalance cfg s6 then rebalance cfg rnd now s6 else s6)"
    using False by (simp add: tm_addNode_def s6_def s4_def inserted_def n_def Let_def)
  then show ?thesis
    using s6 rebalance_inv [OF s6] by simp
qed

text \<open>The state after an agent and every mention of it are dropped and before a leader is elected.\<close>

definition forgotten :: "string \<Rightarrow> topology_node \<Rightarrow> topology \<Rightarrow> topology" where
  "forgotten a n s =
     (let s1 = removeFromRoleIndex n (s\<lparr>tm_nodes := jdel a (tm_nodes s)\<rparr>)
      in s1\<lparr>tm_edges := filter (\<lambda>e. te_from e \<noteq> a \<and> te_to e \<noteq> a) (tm_edges s1),
            tm_adjacency := map (\<lambda>(k, ns). (k, sdel a ns)) (jdel a (tm_adjacency s1)),
            tm_nodes := map (\<lambda>(k, n). (k, n\<lparr>tn_connections := filter (\<lambda>c. c \<noteq> a) (tn_connections n)\<rparr>)) (tm_nodes s1)\<rparr>)"

lemma role_index_keeps:
  "tm_nodes (removeFromRoleIndex n s) = tm_nodes s" "tm_adjacency (removeFromRoleIndex n s) = tm_adjacency s"
  "tm_queen (removeFromRoleIndex n s) = (if tn_role n = Queen \<and> map_option fst (tm_queen s) = Some (tn_agentId n) then None else tm_queen s)"
  "tm_coordinator (removeFromRoleIndex n s) =
     (if tn_role n = Coordinator \<and> map_option fst (tm_coordinator s) = Some (tn_agentId n) then None else tm_coordinator s)"
  by (auto simp: removeFromRoleIndex_def Let_def split: option.split)

lemma forgotten_get:
  "jget (tm_nodes (forgotten a n s)) x = (if x = a then None
     else map_option (\<lambda>n. n\<lparr>tn_connections := filter (\<lambda>c. c \<noteq> a) (tn_connections n)\<rparr>) (jget (tm_nodes s) x))"
  "jget (tm_adjacency (forgotten a n s)) x = (if x = a then None else map_option (sdel a) (jget (tm_adjacency s) x))"
  by (simp_all add: forgotten_def Let_def jget_map role_index_keeps)

lemma forgotten_leaders:
  "tm_queen (forgotten a n s) = (if tn_role n = Queen \<and> map_option fst (tm_queen s) = Some (tn_agentId n) then None else tm_queen s)"
  "tm_coordinator (forgotten a n s) =
     (if tn_role n = Coordinator \<and> map_option fst (tm_coordinator s) = Some (tn_agentId n) then None else tm_coordinator s)"
  by (auto simp: forgotten_def Let_def role_index_keeps)

lemma forgotten_length: "length (tm_nodes (forgotten a n s)) \<le> length (tm_nodes s)"
  by (simp add: forgotten_def Let_def role_index_keeps jdel_def)

lemma forgotten_sets:
  assumes "adjs s = conn s"
  shows "conn (forgotten a n s) x = (if x = a then {} else conn s x - {a})" "adjs (forgotten a n s) = conn (forgotten a n s)"
proof -
  show c: "conn (forgotten a n s) x = (if x = a then {} else conn s x - {a})" for x
    by (cases "jget (tm_nodes s) x") (auto simp: conn_def connections_of_def forgotten_get)
  have "adjs (forgotten a n s) x = (if x = a then {} else adjs s x - {a})" for x
    by (cases "jget (tm_adjacency s) x") (auto simp: adjs_def forgotten_get)
  then show "adjs (forgotten a n s) = conn (forgotten a n s)"
    using assms by (simp add: fun_eq_iff c)
qed

lemma forgotten_leader_ok:
  assumes "leader_ok r q s" "jget (tm_nodes s) a = Some n" "tn_agentId n = a"
  shows "leader_ok r (if tn_role n = r \<and> map_option fst q = Some (tn_agentId n) then None else q) (forgotten a n s)"
proof (cases q)
  case (Some p)
  obtain m where m: "jget (tm_nodes s) (fst p) = Some m" "tn_ref m = snd p" "tn_role m = r"
    using leader_ref assms(1) Some by blast
  show ?thesis
  proof (cases "fst p = a")
    case True
    then show ?thesis
      using m assms(2,3) Some by (simp add: leader_ok_def)
  next
    case False
    then show ?thesis
      using m Some assms(3) by (auto simp: leader_ok_def forgotten_get)
  qed
qed (simp add: leader_ok_def)

lemma forgotten_inv:
  assumes inv: "topo_inv cfg s" and n: "jget (tm_nodes s) a = Some n"
  shows "topo_inv cfg (forgotten a n s)"
proof -
  let ?t = "forgotten a n s"
  have m: "mirror_inv s" and ri: "role_inv cfg s" and ac: "adjs s = conn s" and len: "length (tm_nodes s) \<le> tc_maxAgents cfg"
    using inv by (auto simp: topo_inv_def mirror_inv_def)
  have w: "leader_ok Queen (tm_queen s) s" "leader_ok Coordinator (tm_coordinator s) s" "jwf (tm_nodes s)"
    "\<And>a m. jget (tm_nodes s) a = Some m \<Longrightarrow> tn_agentId m = a"
    using m by (auto simp: mirror_inv_def wf_topology_def)
  note f = forgotten_sets [OF ac, of a n]
  have id: "tn_agentId n = a"
    using w(4) n .
  have pres: "present ?t x \<longleftrightarrow> x \<noteq> a \<and> present s x" for x
    by (simp add: forgotten_get)
  have "jwf (tm_nodes ?t)"
    using jwf_jdel [OF w(3), of a]
    by (simp add: forgotten_def Let_def role_index_keeps jwf_def jkeys_def comp_def case_prod_unfold)
  moreover have "\<forall>x m. jget (tm_nodes ?t) x = Some m \<longrightarrow> tn_agentId m = x"
    using w(4) by (auto simp: forgotten_get split: if_splits)
  ultimately have "wf_topology ?t"
    using forgotten_leader_ok [OF w(1) n id] forgotten_leader_ok [OF w(2) n id] by (simp add: wf_topology_def forgotten_leaders)
  then have "mirror_inv ?t"
    using f(2) m by (simp add: mirror_inv_def forgotten_get)
  moreover have "role_inv cfg ?t"
  proof -
    have rl: "role_of ?t x = (if x = a then None else role_of s x)" for x
      by (cases "jget (tm_nodes s) x") (simp_all add: role_of_def forgotten_get)
    have hd: "x \<noteq> a \<Longrightarrow> map_option fst (tm_queen s) = Some x \<Longrightarrow> map_option fst (tm_queen ?t) = Some x"
        "x \<noteq> a \<Longrightarrow> map_option fst (tm_coordinator s) = Some x \<Longrightarrow> map_option fst (tm_coordinator ?t) = Some x"
        "tm_queen s = None \<Longrightarrow> tm_queen ?t = None" "tm_coordinator s = None \<Longrightarrow> tm_coordinator ?t = None" for x
      using id by (auto simp: forgotten_leaders)
    show ?thesis
      using ri hd unfolding role_inv_def rl by simp
  qed
  moreover have "sym_inv ?t" if "sym_inv s"
    using that unfolding sym_inv_def pres f(1) by auto
  moreover have "star_inv ?t" if "star_inv s"
  proof -
    have "fst q \<in> conn ?t x" if "tm_queen ?t = Some q" "x \<noteq> a" "present s x" "x \<noteq> fst q" for q x
    proof -
      have q: "tm_queen s = Some q" "fst q \<noteq> a"
        using that(1) leader_present(1) [OF m] n id by (cases q; auto simp: forgotten_leaders split: if_splits)+
      then show ?thesis
        using \<open>star_inv s\<close> that(2-4) unfolding star_inv_def f(1) by auto
    qed
    then show ?thesis
      unfolding star_inv_def pres by blast
  qed
  moreover have "length (tm_nodes ?t) \<le> tc_maxAgents cfg"
    using forgotten_length [of a n s] len by simp
  ultimately show ?thesis
    using inv by (auto simp: topo_inv_def)
qed

text \<open>The leader and the partitions play no part in the invariant.\<close>

lemma inv_fields [simp]:
  "topo_inv cfg (s\<lparr>tm_leader := l\<rparr>) = topo_inv cfg s" "topo_inv cfg (s\<lparr>tm_partitions := p\<rparr>) = topo_inv cfg s"
proof -
  have eq: "skeleton (s\<lparr>tm_leader := l\<rparr>) = skeleton s" "conn (s\<lparr>tm_leader := l\<rparr>) = conn s" "adjs (s\<lparr>tm_leader := l\<rparr>) = adjs s"
    "skeleton (s\<lparr>tm_partitions := p\<rparr>) = skeleton s" "conn (s\<lparr>tm_partitions := p\<rparr>) = conn s" "adjs (s\<lparr>tm_partitions := p\<rparr>) = adjs s"
    by (simp_all add: skeleton_def conn_def connections_of_def adjs_def fun_eq_iff)
  show "topo_inv cfg (s\<lparr>tm_leader := l\<rparr>) = topo_inv cfg s"
    by (rule iffI; erule inv_cong) (simp_all add: eq)
  show "topo_inv cfg (s\<lparr>tm_partitions := p\<rparr>) = topo_inv cfg s"
    by (rule iffI; erule inv_cong) (simp_all add: eq)
qed

lemma elect_inv: "topo_inv cfg s \<Longrightarrow> topo_inv cfg (snd (electLeader cfg s))"
  by (auto simp: electLeader_def split: option.split list.split)

lemma removeNode_inv:
  assumes "topo_inv cfg s"
  shows "topo_inv cfg (snd (tm_removeNode cfg rnd now a s))"
proof (cases "jget (tm_nodes s) a")
  case (Some n)
  define el where "el = (if tm_leader (forgotten a n s) = Some a then electLeader cfg (forgotten a n s) else (Inr [], forgotten a n s))"
  have el: "topo_inv cfg (snd el)"
    using forgotten_inv [OF assms Some] elect_inv by (auto simp: el_def)
  have "tm_removeNode cfg rnd now a s = (case el of (Inl err, s3) \<Rightarrow> (Inl err, s3)
      | (Inr _, s3) \<Rightarrow> let s4 = s3\<lparr>tm_partitions := map (partition_without a) (tm_partitions s3)\<rparr>
          in (Inr (), if tc_autoRebalance cfg then rebalance cfg rnd now s4 else s4))"
    using Some unfolding tm_removeNode_def el_def forgotten_def by (simp only: option.case Let_def)
  then show ?thesis
    using el rebalance_inv [of cfg _ rnd now] by (auto simp: Let_def split: prod.split sum.split)
qed (simp add: tm_removeNode_def assms)

lemma updateNode_inv:
  assumes "topo_inv cfg s" "nu_role u = None" "nu_connections u = None"
  shows "topo_inv cfg (snd (tm_updateNode a u s))"
proof (cases "jget (tm_nodes s) a")
  case (Some n)
  define f :: "topology_node \<Rightarrow> topology_node" where "f = (\<lambda>n. n\<lparr>tn_status := nullish (nu_status u) (tn_status n)\<rparr>)"
  have "snd (tm_updateNode a u s) = upd_node a f s"
    using Some assms(2,3) by (simp add: tm_updateNode_def f_def)
  moreover have "topo_inv cfg (upd_node a f s)"
  proof (rule inv_cong [OF assms(1)])
    show "skeleton (upd_node a f s) = skeleton s"
      by (rule skeleton_upd) (simp add: f_def)
    show "conn (upd_node a f s) = conn s"
    proof
      fix x show "conn (upd_node a f s) x = conn s x"
        by (cases "x = a") (simp_all add: conn_def connections_upd_other connections_upd Some f_def, simp add: connections_of_def Some)
    qed
  qed simp_all
  ultimately show ?thesis
    by simp
qed (simp add: tm_updateNode_def assms)

section \<open>Runs\<close>

datatype topo_op = TAdd draws time string topology_role | TRemove draws time string | TUpdate string node_updates | TRebalance draws time | TElect

fun topo_step :: "topology_config \<Rightarrow> topo_op \<Rightarrow> topology \<Rightarrow> topology" where
  "topo_step cfg (TAdd rnd now a role) s = snd (tm_addNode cfg rnd now a role s)"
| "topo_step cfg (TRemove rnd now a) s = snd (tm_removeNode cfg rnd now a s)"
| "topo_step cfg (TUpdate a u) s = snd (tm_updateNode a u s)"
| "topo_step cfg (TRebalance rnd now) s = rebalance cfg rnd now s"
| "topo_step cfg TElect s = snd (electLeader cfg s)"

text \<open>Updates that leave the role and the connections of an agent alone; the other operations are free.\<close>

fun no_rewire :: "topo_op \<Rightarrow> topology \<Rightarrow> bool" where
  "no_rewire (TUpdate a u) s = (nu_role u = None \<and> nu_connections u = None)"
| "no_rewire _ s = True"

lemma topo_step_inv: "no_rewire x s \<Longrightarrow> topo_inv cfg s \<Longrightarrow> topo_inv cfg (topo_step cfg x s)"
  by (cases x) (simp_all add: addNode_inv removeNode_inv updateNode_inv rebalance_inv elect_inv)

interpretation topology_runs: guarded_system no_rewire "topo_step cfg" "topo_inv cfg" for cfg
  by unfold_locales (rule topo_step_inv)

lemma new_topology_inv: "topo_inv cfg (new_topology now)"
  by (simp add: topo_inv_def mirror_inv_def wf_topology_def leader_ok_def role_inv_def sym_inv_def star_inv_def new_topology_def
      conn_def connections_of_def adjs_def role_of_def jwf_def jkeys_def)

lemma neighbors_adjs: "set (getNeighbors a s) = adjs s a" "isConnected a b s \<longleftrightarrow> b \<in> adjs s a"
  by (simp_all add: getNeighbors_def isConnected_def adjs_def)

text \<open>
  C13. Whatever agents join, leave, change status and are rebalanced in whatever order, as long as \<open>updateNode\<close> is not used to overwrite
  the role or the connections of an agent, there are at most \<open>maxAgents\<close> of them, the neighbours of an agent are its connections, and,
  except in the centralized topology, links are symmetric, have two different ends and lead to registered agents only. Removal leaves
  no dangling link behind. \<open>overwritten_links_dangle\<close> shows what \<open>updateNode\<close> with connections does.
\<close>

theorem topology_consistent:
  assumes "run_ok no_rewire (topo_step cfg) ops (new_topology t0)" and "s = run (topo_step cfg) ops (new_topology t0)"
  shows "length (tm_nodes s) \<le> tc_maxAgents cfg \<and> (\<forall>a. set (getNeighbors a s) = set (connections_of s a)) \<and>
    (tc_type cfg \<noteq> Centralized \<longrightarrow>
      (\<forall>a b. isConnected a b s \<longrightarrow> isConnected b a s \<and> a \<noteq> b \<and> jget (tm_nodes s) a \<noteq> None \<and> jget (tm_nodes s) b \<noteq> None))"
proof -
  have inv: "topo_inv cfg s"
    unfolding assms(2) by (rule topology_runs.guarded_run [OF assms(1) new_topology_inv])
  then have m: "adjs s a = conn s a" for a
    by (simp add: topo_inv_def mirror_inv_def)
  have "isConnected b a s \<and> a \<noteq> b \<and> present s a \<and> present s b" if "tc_type cfg \<noteq> Centralized" "isConnected a b s" for a b
  proof -
    have "sym_inv s" "b \<in> conn s a"
      using inv that m by (auto simp: topo_inv_def neighbors_adjs)
    then have "a \<in> conn s b" "present s b" "b \<noteq> a" "present s a"
      unfolding sym_inv_def by blast+
    then show ?thesis
      by (simp add: neighbors_adjs m)
  qed
  moreover have "length (tm_nodes s) \<le> tc_maxAgents cfg"
    using inv by (simp add: topo_inv_def)
  ultimately show ?thesis
    using m by (auto simp: neighbors_adjs conn_def)
qed

lemma shortest_bound:
  assumes "path_between (tm_adjacency s) a b w"
  shows "path_between (tm_adjacency s) a b (findOptimalPath a b s)" "length (findOptimalPath a b s) \<le> length w"
  using findOptimalPath_exact [of a b s] assms by blast+

lemma short_path: "path_between adj a b p \<Longrightarrow> length p \<le> 2 \<Longrightarrow> a \<noteq> b \<Longrightarrow> p = [a, b]"
  by (cases p rule: remdups_adj.cases) (auto simp: path_between_def)

text \<open>
  C40. In the hierarchical topology, whenever there is a queen, she commands everyone: the path found from the queen to any other agent is
  the direct link, and the same link leads back, so that any two agents find a path of at most two hops. It holds after every run in
  which \<open>updateNode\<close> is not used to overwrite roles or connections, also when the queen was removed and rebalancing promoted another
  agent; between such a removal and the next rebalancing, which is skipped for five seconds after the last one, there is no queen.
\<close>

theorem queen_reaches_everyone:
  assumes "run_ok no_rewire (topo_step cfg) ops (new_topology t0)" and "s = run (topo_step cfg) ops (new_topology t0)"
    and "tc_type cfg = Hierarchical" "tm_queen s = Some q" "jget (tm_nodes s) a \<noteq> None" "jget (tm_nodes s) b \<noteq> None"
  shows "(a \<noteq> fst q \<longrightarrow> findOptimalPath (fst q) a s = [fst q, a] \<and> findOptimalPath a (fst q) s = [a, fst q]) \<and>
    path_between (tm_adjacency s) a b (findOptimalPath a b s) \<and> length (findOptimalPath a b s) \<le> 3"
proof -
  have inv: "topo_inv cfg s"
    unfolding assms(2) by (rule topology_runs.guarded_run [OF assms(1) new_topology_inv])
  have l: "adj_linked (tm_adjacency s) x y \<longleftrightarrow> y \<in> conn s x" for x y
    using inv by (auto simp: adj_linked_def topo_inv_def mirror_inv_def adjs_def)
  have star: "fst q \<in> conn s x \<and> x \<in> conn s (fst q)" if "present s x" "x \<noteq> fst q" for x
  proof -
    have "star_inv s" "sym_inv s"
      using inv assms(3) by (simp_all add: topo_inv_def)
    then show ?thesis
      using assms(4) that unfolding star_inv_def sym_inv_def by blast
  qed
  have p: "path_between (tm_adjacency s) (fst q) x [fst q, x]" "path_between (tm_adjacency s) x (fst q) [x, fst q]"
    if "present s x" "x \<noteq> fst q" for x
    using star [OF that] by (simp_all add: path_between_def l)
  have "findOptimalPath (fst q) a s = [fst q, a] \<and> findOptimalPath a (fst q) s = [a, fst q]" if "a \<noteq> fst q"
  proof
    show "findOptimalPath (fst q) a s = [fst q, a]"
      using shortest_bound [OF p(1) [OF assms(5) that]] that by (intro short_path [of "tm_adjacency s"]) simp_all
    show "findOptimalPath a (fst q) s = [a, fst q]"
      using shortest_bound [OF p(2) [OF assms(5) that]] that by (intro short_path [of "tm_adjacency s"]) simp_all
  qed
  moreover have "\<exists>w. path_between (tm_adjacency s) a b w \<and> length w \<le> 3"
  proof -
    consider "a = b" | "a \<noteq> b" "a = fst q" | "a \<noteq> b" "b = fst q" | "a \<noteq> fst q" "b \<noteq> fst q"
      by blast
    then show ?thesis
    proof cases
      case 1
      then show ?thesis
        by (intro exI [of _ "[a]"]) (simp add: path_between_def)
    next
      case 2
      then show ?thesis
        using p(1) [OF assms(6)] by (intro exI [of _ "[a, b]"]) simp
    next
      case 3
      then show ?thesis
        using p(2) [OF assms(5)] by (intro exI [of _ "[a, b]"]) simp
    next
      case 4
      then show ?thesis
        using star [OF assms(5)] star [OF assms(6)] by (intro exI [of _ "[a, fst q, b]"]) (simp add: path_between_def l)
    qed
  qed
  then obtain w where "path_between (tm_adjacency s) a b w" "length w \<le> 3"
    by blast
  then have "path_between (tm_adjacency s) a b (findOptimalPath a b s) \<and> length (findOptimalPath a b s) \<le> 3"
    using shortest_bound [of s a b w] by simp
  ultimately show ?thesis
    by simp
qed

section \<open>Examples\<close>

definition no_draws :: draws where
  "no_draws = (\<lambda>_ _. 0, \<lambda>_. 0)"

definition example_config :: "topology_type \<Rightarrow> topology_config" where
  "example_config ty = \<lparr>tc_type = ty, tc_maxAgents = 10, tc_replicationFactor = 2, tc_autoRebalance = True\<rparr>"

definition succession :: "topo_op list" where
  "succession = [TAdd no_draws 0 ''q'' Queen, TAdd no_draws 1 ''a'' Worker, TAdd no_draws 2 ''b'' Worker, TRemove no_draws 6000 ''q'']"

theorem topology_consistent_witness:
  "\<exists>s. s = run (topo_step (example_config Hierarchical)) succession (new_topology 0) \<and> length (tm_nodes s) \<le> 10 \<and>
     isConnected ''b'' ''a'' s \<and> isConnected ''a'' ''b'' s \<and> \<not> isConnected ''a'' ''q'' s"
proof -
  define s where "s = run (topo_step (example_config Hierarchical)) succession (new_topology 0)"
  have ok: "run_ok no_rewire (topo_step (example_config Hierarchical)) succession (new_topology 0)"
    by code_simp
  have e: "isConnected ''a'' ''b'' s" "\<not> isConnected ''a'' ''q'' s"
    unfolding s_def by code_simp+
  have "isConnected ''b'' ''a'' s" "length (tm_nodes s) \<le> 10"
    using topology_consistent [OF ok s_def] e(1) by (simp_all add: example_config_def)
  then show ?thesis
    using e s_def by blast
qed

theorem queen_reaches_everyone_witness:
  "\<exists>s. s = run (topo_step (example_config Hierarchical)) succession (new_topology 0) \<and> findOptimalPath ''a'' ''b'' s = [''a'', ''b'']"
proof -
  define s where "s = run (topo_step (example_config Hierarchical)) succession (new_topology 0)"
  have ok: "run_ok no_rewire (topo_step (example_config Hierarchical)) succession (new_topology 0)"
    by code_simp
  have q: "tm_queen s = Some (''a'', 1)"
    unfolding s_def by code_simp
  have ab: "jget (tm_nodes s) ''a'' \<noteq> None" "jget (tm_nodes s) ''b'' \<noteq> None"
    unfolding s_def by code_simp+
  have "findOptimalPath ''a'' ''b'' s = [''a'', ''b'']"
    using queen_reaches_everyone [OF ok s_def _ q ab(2,1)] by (simp add: example_config_def)
  then show ?thesis
    using s_def by blast
qed

subsection \<open>Flaws\<close>

text \<open>
  \<open>updateNode\<close> takes connections as they are given: a link may lead to an agent that is not registered, and the other ends of
  the old and new links are not told. And a queen removed within five seconds of the last rebalancing has no successor yet.
\<close>

lemma overwritten_links_dangle:
  "(let s = run (topo_step (example_config Mesh))
       [TAdd no_draws 0 ''a'' Peer, TAdd no_draws 1 ''b'' Peer, TUpdate ''a'' \<lparr>nu_role = None, nu_status = None, nu_connections = Some [''ghost'']\<rparr>]
       (new_topology 0)
    in isConnected ''a'' ''ghost'' s \<and> jget (tm_nodes s) ''ghost'' = None \<and> isConnected ''b'' ''a'' s \<and> \<not> isConnected ''a'' ''b'' s)"
  by code_simp

lemma no_queen_before_rebalance:
  "(let s = run (topo_step (example_config Hierarchical))
       [TAdd no_draws 0 ''q'' Queen, TAdd no_draws 1 ''a'' Worker, TAdd no_draws 2 ''b'' Worker, TRemove no_draws 3 ''q''] (new_topology 0)
    in tm_queen s = None \<and> findOptimalPath ''a'' ''b'' s = [])"
  by code_simp

text \<open>
  Rebalancing the centralized topology replaces the connections of an agent without telling the agents at the other end: afterwards one
  of them still counts a link that the other does not have.
\<close>

lemma rebalanced_link_one_way:
  "(let s = run (topo_step (example_config Centralized))
       [TAdd no_draws 0 ''c'' Coordinator, TAdd no_draws 1 ''w'' Worker, TAdd no_draws 2 ''v'' Worker, TAdd no_draws 3 ''u'' Coordinator,
        TRemove no_draws 6000 ''c''] (new_topology 0)
    in isConnected ''u'' ''v'' s \<and> \<not> isConnected ''v'' ''u'' s)"
  by code_simp

text \<open>Removing the last agent while it is the leader fails in the middle: the agent is gone and still the leader.\<close>

lemma removed_leader_stays:
  "(let s = run (topo_step (example_config Mesh)) [TAdd no_draws 0 ''a'' Peer, TElect] (new_topology 0);
        r = tm_removeNode (example_config Mesh) no_draws 1 ''a'' s
    in fst r = Inl NoNodes \<and> tm_nodes (snd r) = [] \<and> tm_leader (snd r) = Some ''a'')"
  by code_simp

text \<open>The identifier of a partition is derived from the number of agents and may be in use after a removal; the lookup finds the emptied one.\<close>

lemma partition_number_repeats:
  "(let s = run (topo_step (example_config Mesh))
       [TAdd no_draws 0 ''a'' Peer, TAdd no_draws 1 ''b'' Peer, TRemove no_draws 2 ''b'', TAdd no_draws 3 ''d'' Peer] (new_topology 0)
    in map tp_number (tm_partitions s) = [1, 2, 2] \<and> map_option tp_nodes (getPartition 2 s) = Some [])"
  by code_simp

text \<open>A new role given by \<open>updateNode\<close> reaches neither the role index nor the cached queen.\<close>

lemma updated_role_not_indexed:
  "(let s = run (topo_step (example_config Hierarchical))
       [TAdd no_draws 0 ''q'' Queen, TAdd no_draws 1 ''a'' Worker,
        TUpdate ''q'' \<lparr>nu_role = Some Worker, nu_status = None, nu_connections = None\<rparr>,
        TUpdate ''a'' \<lparr>nu_role = Some Queen, nu_status = None, nu_connections = None\<rparr>] (new_topology 0)
    in map tn_agentId (getNodesByRole Queen s) = [''q''] \<and> role_of s ''q'' = Some Worker \<and> role_of s ''a'' = Some Queen \<and>
       fst (electLeader (example_config Hierarchical) s) = Inr ''q'')"
  by code_simp

end
