(* ===== verification/AgentRegistry.thy ===== *)
theory AgentRegistry
  imports Prelude
begin

text \<open>
  Model of \<open>AgentRegistry\<close> of \<open>swarm/src/coordination/agent-registry.ts\<close>: definitions of agents, the states of the spawned ones and
  their health. The handlers of the event bus are client code; the events sent to it are not part of the state. The interval timer of
  the health checks is the operation \<open>performHealthCheck\<close>.
\<close>

section \<open>Data\<close>

datatype agent_role = QueenCoordinator | SecurityArchitect | SecurityImplementer | SecurityTester | CoreArchitect | CoreImplementer
  | MemorySpecialist | SwarmSpecialist | McpSpecialist | IntegrationArchitect | CliHooksDeveloper | NeuralLearningDev
  | TddTestEngineer | PerformanceEngineer | ReleaseEngineer

datatype agent_status = AIdle | AActive | ABlocked | ACompleted | AError

datatype agent_domain = DSecurity | DCore | DIntegration | DQuality | DPerformance | DDeployment

datatype task_type = SecurityAudit | SecurityFix | SecurityTest | ArchitectureDesign | Implementation | MemoryOptimization
  | SwarmCoordination | McpEnhancement | Integration | CliDevelopment | NeuralTraining | TestWriting | Benchmark | Deployment | Documentation

record agent_definition =
  ad_id :: string
  ad_role :: agent_role
  ad_domain :: agent_domain
  ad_capabilities :: "task_type list list"
  ad_dependencies :: "string list"
  ad_priority :: nat

record agent_state =
  as_role :: agent_role
  as_status :: agent_status
  as_currentTask :: "string option"
  as_completedTasks :: "string list"
  as_tasksCompleted :: nat
  as_tasksFailed :: nat
  as_lastHeartbeat :: time

record health_status =
  hs_healthy :: bool
  hs_lastHeartbeat :: time
  hs_consecutiveMisses :: nat
  hs_status :: agent_status

record agent_registry =
  ar_definitions :: "(string, agent_definition) jsmap"
  ar_states :: "(string, agent_state) jsmap"
  ar_healthChecks :: "(string, health_status) jsmap"

datatype registry_error = AlreadyRegistered string | UnregisterActive string | NotRegistered string | AlreadySpawned string
  | TerminateBusy string string | NotSpawned string | HasTask string string | OtherTask string

section \<open>Registration and lifecycle\<close>

definition ar_register :: "agent_definition \<Rightarrow> agent_registry \<Rightarrow> (registry_error + unit) \<times> agent_registry" where
  "ar_register d r =
     (if jget (ar_definitions r) (ad_id d) \<noteq> None then (Inl (AlreadyRegistered (ad_id d)), r)
      else (Inr (), r\<lparr>ar_definitions := jset (ad_id d) d (ar_definitions r),
                      ar_healthChecks := jset (ad_id d) \<lparr>hs_healthy = False, hs_lastHeartbeat = 0, hs_consecutiveMisses = 0, hs_status = AIdle\<rparr>
                        (ar_healthChecks r)\<rparr>))"

definition ar_unregister :: "string \<Rightarrow> agent_registry \<Rightarrow> (registry_error + bool) \<times> agent_registry" where
  "ar_unregister a r =
     (if jget (ar_states r) a \<noteq> None then (Inl (UnregisterActive a), r)
      else (Inr (jget (ar_definitions r) a \<noteq> None),
            r\<lparr>ar_healthChecks := jdel a (ar_healthChecks r), ar_definitions := jdel a (ar_definitions r)\<rparr>))"

definition isRegistered :: "string \<Rightarrow> agent_registry \<Rightarrow> bool" where
  "isRegistered a r = (jget (ar_definitions r) a \<noteq> None)"

text \<open>An update of the health record of an agent, when it has one.\<close>

definition upd_health :: "string \<Rightarrow> (health_status \<Rightarrow> health_status) \<Rightarrow> agent_registry \<Rightarrow> agent_registry" where
  "upd_health a f r = (case jget (ar_healthChecks r) a of None \<Rightarrow> r | Some h \<Rightarrow> r\<lparr>ar_healthChecks := jset a (f h) (ar_healthChecks r)\<rparr>)"

definition upd_state :: "string \<Rightarrow> (agent_state \<Rightarrow> agent_state) \<Rightarrow> agent_registry \<Rightarrow> agent_registry" where
  "upd_state a f r = (case jget (ar_states r) a of None \<Rightarrow> r | Some s \<Rightarrow> r\<lparr>ar_states := jset a (f s) (ar_states r)\<rparr>)"

definition spawn :: "clock \<Rightarrow> string \<Rightarrow> agent_registry \<Rightarrow> (registry_error + unit) \<times> agent_registry" where
  "spawn clk a r =
     (case jget (ar_definitions r) a of
        None \<Rightarrow> (Inl (NotRegistered a), r)
      | Some d \<Rightarrow>
          if jget (ar_states r) a \<noteq> None then (Inl (AlreadySpawned a), r)
          else
            let s = \<lparr>as_role = ad_role d, as_status = AIdle, as_currentTask = None, as_completedTasks = [], as_tasksCompleted = 0,
                     as_tasksFailed = 0, as_lastHeartbeat = clk 1\<rparr>
            in (Inr (), upd_health a (\<lambda>h. h\<lparr>hs_healthy := True, hs_lastHeartbeat := clk 2, hs_status := AIdle\<rparr>)
                          (r\<lparr>ar_states := jset a s (ar_states r)\<rparr>)))"

definition ar_terminate :: "string \<Rightarrow> agent_registry \<Rightarrow> (registry_error + bool) \<times> agent_registry" where
  "ar_terminate a r =
     (case jget (ar_states r) a of
        None \<Rightarrow> (Inr False, r)
      | Some s \<Rightarrow>
          (case as_currentTask s of
             Some t \<Rightarrow> (Inl (TerminateBusy a t), r)
           | None \<Rightarrow> (Inr True, upd_health a (\<lambda>h. h\<lparr>hs_healthy := False, hs_status := AIdle\<rparr>)
                                  (r\<lparr>ar_states := jdel a (ar_states r)\<rparr>))))"

section \<open>Tasks of agents\<close>

definition updateStatus_agent :: "string \<Rightarrow> agent_status \<Rightarrow> agent_registry \<Rightarrow> (registry_error + unit) \<times> agent_registry" where
  "updateStatus_agent a st r =
     (if jget (ar_states r) a = None then (Inl (NotSpawned a), r)
      else (Inr (), upd_health a (\<lambda>h. h\<lparr>hs_status := st\<rparr>) (upd_state a (\<lambda>s. s\<lparr>as_status := st\<rparr>) r)))"

definition ar_assignTask :: "string \<Rightarrow> string \<Rightarrow> agent_registry \<Rightarrow> (registry_error + unit) \<times> agent_registry" where
  "ar_assignTask a t r =
     (case jget (ar_states r) a of
        None \<Rightarrow> (Inl (NotSpawned a), r)
      | Some s \<Rightarrow>
          (case as_currentTask s of
             Some t' \<Rightarrow> (Inl (HasTask a t'), r)
           | None \<Rightarrow> updateStatus_agent a AActive (upd_state a (\<lambda>s. s\<lparr>as_currentTask := Some t\<rparr>) r)))"

definition ar_completeTask :: "string \<Rightarrow> string \<Rightarrow> agent_registry \<Rightarrow> (registry_error + unit) \<times> agent_registry" where
  "ar_completeTask a t r =
     (case jget (ar_states r) a of
        None \<Rightarrow> (Inl (NotSpawned a), r)
      | Some s \<Rightarrow>
          if as_currentTask s \<noteq> Some t then (Inl (OtherTask a), r)
          else updateStatus_agent a AIdle
                 (upd_state a (\<lambda>s. s\<lparr>as_completedTasks := as_completedTasks s @ [t], as_currentTask := None,
                    as_tasksCompleted := as_tasksCompleted s + 1\<rparr>) r))"

section \<open>Queries and health\<close>

definition getActiveAgents :: "agent_registry \<Rightarrow> agent_state list" where
  "getActiveAgents r = filter (\<lambda>s. as_status s = AActive) (jvalues (ar_states r))"

definition getAgentsByDomain :: "agent_domain \<Rightarrow> agent_registry \<Rightarrow> agent_definition list" where
  "getAgentsByDomain d r = filter (\<lambda>x. ad_domain x = d) (jvalues (ar_definitions r))"

definition getAgentsByCapability :: "task_type \<Rightarrow> agent_registry \<Rightarrow> agent_definition list" where
  "getAgentsByCapability ty r = filter (\<lambda>x. list_ex (\<lambda>c. ty \<in> set c) (ad_capabilities x)) (jvalues (ar_definitions r))"

definition heartbeat :: "clock \<Rightarrow> string \<Rightarrow> agent_registry \<Rightarrow> agent_registry" where
  "heartbeat clk a r =
     upd_health a (\<lambda>h. h\<lparr>hs_lastHeartbeat := clk 1, hs_consecutiveMisses := 0, hs_healthy := True\<rparr>)
       (upd_state a (\<lambda>s. s\<lparr>as_lastHeartbeat := clk 0\<rparr>) r)"

definition check_agent :: "time \<Rightarrow> string \<Rightarrow> agent_registry \<Rightarrow> agent_registry" where
  "check_agent now a r =
     (case (jget (ar_states r) a, jget (ar_healthChecks r) a) of
        (Some s, Some h) \<Rightarrow>
          if now - hs_lastHeartbeat h > 5000
          then
            let r1 = upd_health a (\<lambda>h. h\<lparr>hs_consecutiveMisses := hs_consecutiveMisses h + 1\<rparr>) r
            in if hs_consecutiveMisses h + 1 \<ge> 3
               then snd (updateStatus_agent a AError (upd_health a (\<lambda>h. h\<lparr>hs_healthy := False\<rparr>) r1))
               else r1
          else r
      | _ \<Rightarrow> r)"

definition performHealthCheck :: "time \<Rightarrow> agent_registry \<Rightarrow> agent_registry" where
  "performHealthCheck now r = fold (check_agent now) (jkeys (ar_healthChecks r)) r"

section \<open>The default agents\<close>

definition agent_def :: "string \<Rightarrow> agent_role \<Rightarrow> agent_domain \<Rightarrow> task_type list list \<Rightarrow> string list \<Rightarrow> nat \<Rightarrow> agent_definition" where
  "agent_def i r d c ds p = \<lparr>ad_id = i, ad_role = r, ad_domain = d, ad_capabilities = c, ad_dependencies = ds, ad_priority = p\<rparr>"

definition agentDefinitions :: "agent_definition list" where
  "agentDefinitions =
     [agent_def ''agent-1'' QueenCoordinator DCore [[ArchitectureDesign], [Documentation]] [] 1,
      agent_def ''agent-2'' SecurityArchitect DSecurity [[SecurityAudit, ArchitectureDesign]] [] 2,
      agent_def ''agent-3'' SecurityImplementer DSecurity [[SecurityFix, Implementation]] [''agent-2''] 2,
      agent_def ''agent-4'' SecurityTester DSecurity [[SecurityTest, TestWriting]] [''agent-2''] 2,
      agent_def ''agent-5'' CoreArchitect DCore [[ArchitectureDesign]] [''agent-2''] 3,
      agent_def ''agent-6'' CoreImplementer DCore [[Implementation]] [''agent-5''] 3,
      agent_def ''agent-7'' MemorySpecialist DCore [[MemoryOptimization, Implementation]] [''agent-5''] 4,
      agent_def ''agent-8'' SwarmSpecialist DCore [[SwarmCoordination, Implementation]] [''agent-5''] 4,
      agent_def ''agent-9'' McpSpecialist DCore [[McpEnhancement, Implementation]] [''agent-5''] 4,
      agent_def ''agent-10'' IntegrationArchitect DIntegration [[Integration, ArchitectureDesign]]
        [''agent-5'', ''agent-7'', ''agent-8'', ''agent-9''] 5,
      agent_def ''agent-11'' CliHooksDeveloper DIntegration [[CliDevelopment, Implementation]] [''agent-9'', ''agent-10''] 5,
      agent_def ''agent-12'' NeuralLearningDev DIntegration [[NeuralTraining, Implementation]] [''agent-7'', ''agent-10''] 5,
      agent_def ''agent-13'' TddTestEngineer DQuality [[TestWriting]] [] 3,
      agent_def ''agent-14'' PerformanceEngineer DPerformance [[Benchmark]] [''agent-7'', ''agent-8''] 6,
      agent_def ''agent-15'' ReleaseEngineer DDeployment [[Deployment, Documentation]] [''agent-10'', ''agent-13'', ''agent-14''] 7]"

definition new_registry :: agent_registry where
  "new_registry = fold (\<lambda>d r. snd (ar_register d r)) agentDefinitions \<lparr>ar_definitions = [], ar_states = [], ar_healthChecks = []\<rparr>"

section \<open>Laws\<close>

lemma jget_upd_state: "jget (ar_states (upd_state a f r)) b = (if b = a then map_option f (jget (ar_states r) a) else jget (ar_states r) b)"
  by (auto simp: upd_state_def split: option.split)

lemma upd_health_states [simp]: "ar_states (upd_health a f r) = ar_states r"
  by (simp add: upd_health_def split: option.split)

text \<open>The task an agent works on.\<close>

definition task_of :: "agent_registry \<Rightarrow> string \<Rightarrow> string option" where
  "task_of r a = (case jget (ar_states r) a of None \<Rightarrow> None | Some s \<Rightarrow> as_currentTask s)"

lemma task_of_updateStatus: "task_of (snd (updateStatus_agent a st r)) b = task_of r b"
  by (auto simp: updateStatus_agent_def task_of_def jget_upd_state split: option.split)

lemma assign_Inr:
  assumes "ar_assignTask a t r = (Inr u, r')"
  shows "task_of r a = None" "task_of r' b = (if b = a then Some t else task_of r b)"
  using assms task_of_updateStatus [of a AActive "upd_state a (\<lambda>s. s\<lparr>as_currentTask := Some t\<rparr>) r" b]
  by (auto simp: ar_assignTask_def updateStatus_agent_def jget_upd_state task_of_def split: option.splits if_splits)

lemma complete_Inr:
  assumes "ar_completeTask a t r = (Inr u, r')"
  shows "task_of r a = Some t" "task_of r' b = (if b = a then None else task_of r b)"
  using assms task_of_updateStatus [of a AIdle
      "upd_state a (\<lambda>s. s\<lparr>as_completedTasks := as_completedTasks s @ [t], as_currentTask := None, as_tasksCompleted := as_tasksCompleted s + 1\<rparr>) r" b]
  by (auto simp: ar_completeTask_def updateStatus_agent_def jget_upd_state task_of_def split: option.splits if_splits)

text \<open>The default agents have different names, and their dependencies are default agents listed before them.\<close>

lemma default_agents_layered:
  "jkeys (ar_definitions new_registry) = map ad_id agentDefinitions \<and>
   (\<forall>k < length agentDefinitions. set (ad_dependencies (agentDefinitions ! k)) \<subseteq> ad_id ` set (take k agentDefinitions))"
proof -
  have "list_all (\<lambda>k. set (ad_dependencies (agentDefinitions ! k)) \<subseteq> ad_id ` set (take k agentDefinitions)) [0..<length agentDefinitions]"
    by code_simp
  then show ?thesis
    unfolding list_all_iff by (simp only: set_upt atLeastLessThan_iff) code_simp
qed

end
