(* ===== verification/TaskOrchestrator.thy ===== *)
theory TaskOrchestrator
  imports AgentRegistry
begin

text \<open>
  Model of \<open>TaskOrchestrator\<close> of \<open>swarm/src/coordination/task-orchestrator.ts\<close> over the agent registry: tasks with dependencies, their
  life cycle and the choice of the next task. Calls run without interleaving. A call that throws gives the error and the state with
  everything done before. The handlers of the event bus are client code. Titles, descriptions, phases, tags and artifacts are left out.
\<close>

section \<open>Data\<close>

datatype task_status = TPending | TQueued | TAssigned | TInProgress | TBlocked | TCompleted | TFailed | TCancelled

datatype task_priority = TCritical | THigh | TMedium | TLow

record task_spec =
  ts_type :: task_type
  ts_priority :: "task_priority option"
  ts_dependencies :: "string list option"
  ts_domain :: agent_domain

record task_definition =
  td_id :: string
  td_type :: task_type
  td_assignedAgent :: "string option"
  td_status :: task_status
  td_priority :: task_priority
  td_dependencies :: "string list"
  td_blockedBy :: "string list"
  td_domain :: agent_domain
  td_actualDuration :: "time option"
  td_retryCount :: nat
  td_maxRetries :: nat
  td_createdAt :: time
  td_updatedAt :: time
  td_completedAt :: "time option"

record orchestrator =
  to_tasks :: "(string, task_definition) jsmap"
  to_dependencyGraph :: "(string, string jsset) jsmap"
  to_dependentGraph :: "(string, string jsset) jsmap"
  to_taskCounter :: nat
  to_agentRegistry :: agent_registry

datatype task_error = TaskNotFound string | NotQueued string | BlockedByDependencies string | NotAssigned string | NotInProgress string
  | CannotCancel string | CreatesCycle string string | FromRegistry registry_error

type_synonym 'a task_result = "(task_error + 'a) \<times> orchestrator"

definition new_orchestrator :: "agent_registry \<Rightarrow> orchestrator" where
  "new_orchestrator r = \<lparr>to_tasks = [], to_dependencyGraph = [], to_dependentGraph = [], to_taskCounter = 0, to_agentRegistry = r\<rparr>"

section \<open>Dependencies\<close>

definition deps_of :: "orchestrator \<Rightarrow> string \<Rightarrow> string list" where
  "deps_of s t = nullish (jget (to_dependencyGraph s) t) []"

definition dependents_of :: "orchestrator \<Rightarrow> string \<Rightarrow> string list" where
  "dependents_of s t = nullish (jget (to_dependentGraph s) t) []"

definition getBlockingTasks :: "string \<Rightarrow> orchestrator \<Rightarrow> string list" where
  "getBlockingTasks t s =
     filter (\<lambda>d. case jget (to_tasks s) d of None \<Rightarrow> False | Some x \<Rightarrow> td_status x \<noteq> TCompleted) (deps_of s t)"

definition isBlocked :: "string \<Rightarrow> orchestrator \<Rightarrow> bool" where
  "isBlocked t s = (getBlockingTasks t s \<noteq> [])"

definition upd_task :: "string \<Rightarrow> (task_definition \<Rightarrow> task_definition) \<Rightarrow> orchestrator \<Rightarrow> orchestrator" where
  "upd_task t f s = (case jget (to_tasks s) t of None \<Rightarrow> s | Some x \<Rightarrow> s\<lparr>to_tasks := jset t (f x) (to_tasks s)\<rparr>)"

definition updateTaskStatus :: "time \<Rightarrow> string \<Rightarrow> task_status \<Rightarrow> orchestrator \<Rightarrow> orchestrator" where
  "updateTaskStatus now t st s =
     (let s1 = upd_task t (\<lambda>x. x\<lparr>td_status := st, td_updatedAt := now\<rparr>) s
      in upd_task t (\<lambda>x. x\<lparr>td_blockedBy := (if st = TBlocked then getBlockingTasks t s1 else [])\<rparr>) s1)"

definition updateBlockedStatus :: "time \<Rightarrow> string \<Rightarrow> orchestrator \<Rightarrow> orchestrator" where
  "updateBlockedStatus now t s =
     (case jget (to_tasks s) t of
        None \<Rightarrow> s
      | Some x \<Rightarrow>
          if td_status x = TCompleted \<or> td_status x = TFailed then s
          else if isBlocked t s \<and> td_status x \<noteq> TBlocked then updateTaskStatus now t TBlocked s
          else if \<not> isBlocked t s \<and> td_status x = TBlocked then updateTaskStatus now t TQueued s
          else s)"

definition unblockDependentTasks :: "time \<Rightarrow> string \<Rightarrow> orchestrator \<Rightarrow> orchestrator" where
  "unblockDependentTasks now t s = fold (updateBlockedStatus now) (dependents_of s t) s"

text \<open>The search of \<open>wouldCreateCycle\<close>; the first element of the list is the top of the stack.\<close>

function cycle_search :: "(string, string jsset) jsmap \<Rightarrow> string \<Rightarrow> string list \<Rightarrow> string list \<Rightarrow> bool" where
  "cycle_search G t visited [] = False"
| "cycle_search G t visited (current # stack) =
     (if current = t then True
      else if current \<in> set visited then cycle_search G t visited stack
      else cycle_search G t (visited @ [current]) (rev (nullish (jget G current) []) @ stack))"
  by pat_completeness auto

termination cycle_search
proof (relation "measures [\<lambda>(G, _, visited, _). card (set (jkeys G) - set visited), \<lambda>(_, _, _, stack). length stack]")
  fix G :: "(string, string jsset) jsmap" and t current :: string and visited stack :: "string list"
  assume new: "current \<notin> set visited"
  show "((G, t, visited @ [current], rev (nullish (jget G current) []) @ stack), G, t, visited, current # stack)
      \<in> measures [\<lambda>(G, _, visited, _). card (set (jkeys G) - set visited), \<lambda>(_, _, _, stack). length stack]"
  proof (cases "current \<in> set (jkeys G)")
    case True
    then have "set (jkeys G) - set (visited @ [current]) \<subset> set (jkeys G) - set visited"
      using new by auto
    then show ?thesis
      by (simp add: psubset_card_mono)
  next
    case False
    then have "set (jkeys G) - set (visited @ [current]) = set (jkeys G) - set visited" "jget G current = None"
      using jget_jkeys [of G current] by auto
    then show ?thesis
      by simp
  qed
qed auto

definition wouldCreateCycle :: "string \<Rightarrow> string \<Rightarrow> orchestrator \<Rightarrow> bool" where
  "wouldCreateCycle t newDependency s = cycle_search (to_dependencyGraph s) t [] [newDependency]"

definition to_addDependency :: "time \<Rightarrow> string \<Rightarrow> string \<Rightarrow> orchestrator \<Rightarrow> unit task_result" where
  "to_addDependency now t dependsOn s =
     (if jget (to_tasks s) t = None then (Inl (TaskNotFound t), s)
      else if jget (to_tasks s) dependsOn = None then (Inl (TaskNotFound dependsOn), s)
      else if wouldCreateCycle t dependsOn s then (Inl (CreatesCycle t dependsOn), s)
      else
        let s1 = upd_task t (\<lambda>x. x\<lparr>td_dependencies := td_dependencies x @ [dependsOn]\<rparr>) s;
            s2 = s1\<lparr>to_dependencyGraph := jset t (sadd dependsOn (deps_of s1 t)) (to_dependencyGraph s1)\<rparr>;
            s3 = s2\<lparr>to_dependentGraph := jset dependsOn (sadd t (dependents_of s2 dependsOn)) (to_dependentGraph s2)\<rparr>
        in (Inr (), updateBlockedStatus now t s3))"

text \<open>\<open>graph.get(k)?.delete(x)\<close>\<close>

definition graph_delete :: "string \<Rightarrow> string \<Rightarrow> (string, string jsset) jsmap \<Rightarrow> (string, string jsset) jsmap" where
  "graph_delete k x G = (case jget G k of None \<Rightarrow> G | Some xs \<Rightarrow> jset k (sdel x xs) G)"

definition to_removeDependency :: "time \<Rightarrow> string \<Rightarrow> string \<Rightarrow> orchestrator \<Rightarrow> unit task_result" where
  "to_removeDependency now t dependsOn s =
     (if jget (to_tasks s) t = None then (Inl (TaskNotFound t), s)
      else
        let s1 = upd_task t (\<lambda>x. x\<lparr>td_dependencies := remove1 dependsOn (td_dependencies x)\<rparr>) s;
            s2 = s1\<lparr>to_dependencyGraph := graph_delete t dependsOn (to_dependencyGraph s1),
                    to_dependentGraph := graph_delete dependsOn t (to_dependentGraph s1)\<rparr>
        in (Inr (), updateBlockedStatus now t s2))"

section \<open>Life cycle\<close>

definition task_id :: "time \<Rightarrow> nat \<Rightarrow> string" where
  "task_id now k = ''task-'' @ show_radix 10 (nat now) @ ''-'' @ show_radix 10 k"

definition createTask :: "clock \<Rightarrow> task_spec \<Rightarrow> orchestrator \<Rightarrow> string \<times> orchestrator" where
  "createTask clk spec s =
     (let k = to_taskCounter s + 1;
          t = task_id (clk 0) k;
          deps = nullish (ts_dependencies spec) [];
          task = \<lparr>td_id = t, td_type = ts_type spec, td_assignedAgent = None, td_status = TPending, td_priority = nullish (ts_priority spec) TMedium,
                  td_dependencies = deps, td_blockedBy = [], td_domain = ts_domain spec, td_actualDuration = None, td_retryCount = 0,
                  td_maxRetries = 3, td_createdAt = clk 1, td_updatedAt = clk 2, td_completedAt = None\<rparr>;
          s1 = s\<lparr>to_tasks := jset t task (to_tasks s), to_dependencyGraph := jset t (fold sadd deps []) (to_dependencyGraph s),
                 to_dependentGraph := jset t [] (to_dependentGraph s), to_taskCounter := k\<rparr>;
          s2 = s1\<lparr>to_dependentGraph := fold (\<lambda>d G. case jget G d of None \<Rightarrow> G | Some xs \<Rightarrow> jset d (sadd t xs) G) deps (to_dependentGraph s1)\<rparr>
      in (t, updateBlockedStatus (clk 3) t s2))"

definition queueTask :: "time \<Rightarrow> string \<Rightarrow> orchestrator \<Rightarrow> unit task_result" where
  "queueTask now t s =
     (if jget (to_tasks s) t = None then (Inl (TaskNotFound t), s)
      else (Inr (), updateTaskStatus now t (if isBlocked t s then TBlocked else TQueued) s))"

definition assignTask :: "time \<Rightarrow> string \<Rightarrow> string \<Rightarrow> orchestrator \<Rightarrow> unit task_result" where
  "assignTask now t a s =
     (case jget (to_tasks s) t of
        None \<Rightarrow> (Inl (TaskNotFound t), s)
      | Some x \<Rightarrow>
          if td_status x \<noteq> TQueued then (Inl (NotQueued t), s)
          else if isBlocked t s then (Inl (BlockedByDependencies t), s)
          else
            let s1 = updateTaskStatus now t TAssigned (upd_task t (\<lambda>x. x\<lparr>td_assignedAgent := Some a\<rparr>) s)
            in case ar_assignTask a t (to_agentRegistry s1) of
                 (Inl err, _) \<Rightarrow> (Inl (FromRegistry err), s1)
               | (Inr _, r) \<Rightarrow> (Inr (), s1\<lparr>to_agentRegistry := r\<rparr>))"

definition startTask :: "time \<Rightarrow> string \<Rightarrow> orchestrator \<Rightarrow> unit task_result" where
  "startTask now t s =
     (case jget (to_tasks s) t of
        None \<Rightarrow> (Inl (TaskNotFound t), s)
      | Some x \<Rightarrow> if td_status x \<noteq> TAssigned then (Inl (NotAssigned t), s) else (Inr (), updateTaskStatus now t TInProgress s))"

definition completeTask :: "clock \<Rightarrow> string \<Rightarrow> time \<Rightarrow> orchestrator \<Rightarrow> unit task_result" where
  "completeTask clk t duration s =
     (case jget (to_tasks s) t of
        None \<Rightarrow> (Inl (TaskNotFound t), s)
      | Some x \<Rightarrow>
          if td_status x \<noteq> TInProgress then (Inl (NotInProgress t), s)
          else
            let s1 = updateTaskStatus (clk 1) t TCompleted
                       (upd_task t (\<lambda>x. x\<lparr>td_actualDuration := Some duration, td_completedAt := Some (clk 0)\<rparr>) s)
            in case td_assignedAgent x of
                 None \<Rightarrow> (Inr (), unblockDependentTasks (clk 2) t s1)
               | Some a \<Rightarrow>
                   (case ar_completeTask a t (to_agentRegistry s1) of
                      (Inl err, _) \<Rightarrow> (Inl (FromRegistry err), s1)
                    | (Inr _, r) \<Rightarrow> (Inr (), unblockDependentTasks (clk 2) t (s1\<lparr>to_agentRegistry := r\<rparr>))))"

definition failTask :: "time \<Rightarrow> string \<Rightarrow> orchestrator \<Rightarrow> unit task_result" where
  "failTask now t s =
     (case jget (to_tasks s) t of
        None \<Rightarrow> (Inl (TaskNotFound t), s)
      | Some x \<Rightarrow>
          let s1 = upd_task t (\<lambda>x. x\<lparr>td_retryCount := td_retryCount x + 1\<rparr>) s
          in (Inr (),
              if td_retryCount x + 1 < td_maxRetries x
              then upd_task t (\<lambda>x. x\<lparr>td_assignedAgent := None\<rparr>) (updateTaskStatus now t TQueued s1)
              else
                let s2 = updateTaskStatus now t TFailed s1
                in case td_assignedAgent x of
                     None \<Rightarrow> s2
                   | Some a \<Rightarrow> s2\<lparr>to_agentRegistry := upd_state a (\<lambda>st. st\<lparr>as_tasksFailed := as_tasksFailed st + 1\<rparr>) (to_agentRegistry s2)\<rparr>))"

definition cancelTask :: "time \<Rightarrow> string \<Rightarrow> orchestrator \<Rightarrow> unit task_result" where
  "cancelTask now t s =
     (case jget (to_tasks s) t of
        None \<Rightarrow> (Inl (TaskNotFound t), s)
      | Some x \<Rightarrow>
          if td_status x = TCompleted \<or> td_status x = TFailed then (Inl (CannotCancel t), s)
          else case td_assignedAgent x of
                 None \<Rightarrow> (Inr (), updateTaskStatus now t TCancelled s)
               | Some a \<Rightarrow>
                   (case updateStatus_agent a AIdle (to_agentRegistry s) of
                      (Inl err, _) \<Rightarrow> (Inl (FromRegistry err), s)
                    | (Inr _, r) \<Rightarrow> (Inr (), updateTaskStatus now t TCancelled (s\<lparr>to_agentRegistry := r\<rparr>))))"

definition handleAgentTaskCompleted :: "time \<Rightarrow> clock \<Rightarrow> string \<Rightarrow> orchestrator \<Rightarrow> unit task_result" where
  "handleAgentTaskCompleted now clk t s =
     (case jget (to_tasks s) t of
        None \<Rightarrow> (Inr (), s)
      | Some x \<Rightarrow> if td_status x = TInProgress then completeTask clk t (now - td_updatedAt x) s else (Inr (), s))"

section \<open>Queries\<close>

definition getTasksByStatus :: "task_status \<Rightarrow> orchestrator \<Rightarrow> task_definition list" where
  "getTasksByStatus st s = filter (\<lambda>x. td_status x = st) (jvalues (to_tasks s))"

definition getTasksByAgent :: "string \<Rightarrow> orchestrator \<Rightarrow> task_definition list" where
  "getTasksByAgent a s = filter (\<lambda>x. td_assignedAgent x = Some a) (jvalues (to_tasks s))"

definition getTasksByDomain :: "agent_domain \<Rightarrow> orchestrator \<Rightarrow> task_definition list" where
  "getTasksByDomain d s = filter (\<lambda>x. td_domain x = d) (jvalues (to_tasks s))"

fun priority_order :: "task_priority \<Rightarrow> nat" where
  "priority_order TCritical = 0" | "priority_order THigh = 1" | "priority_order TMedium = 2" | "priority_order TLow = 3"

text \<open>The sort of arrays is stable, so that ordering by priority and then by time is two sorts.\<close>

definition getNextTask :: "string option \<Rightarrow> orchestrator \<Rightarrow> task_definition option" where
  "getNextTask agentId s =
     (let queuedTasks = sort_key (\<lambda>x. priority_order (td_priority x))
            (sort_key td_createdAt (filter (\<lambda>x. \<not> isBlocked (td_id x) s) (getTasksByStatus TQueued s)));
          first = (case queuedTasks of [] \<Rightarrow> None | x # _ \<Rightarrow> Some x)
      in case agentId of
           None \<Rightarrow> first
         | Some a \<Rightarrow>
             (case jget (ar_definitions (to_agentRegistry s)) a of
                None \<Rightarrow> first
              | Some d \<Rightarrow> find (\<lambda>x. td_type x \<in> set (concat (ad_capabilities d))) queuedTasks))"

definition getPriorityQueue :: "orchestrator \<Rightarrow> task_definition list" where
  "getPriorityQueue s =
     sort_key (\<lambda>x. priority_order (td_priority x)) (filter (\<lambda>x. \<not> isBlocked (td_id x) s) (getTasksByStatus TQueued s))"

text \<open>The table of \<open>getQueuePosition\<close> has no entry for the priority medium, which counts as zero.\<close>

fun position_order :: "task_priority \<Rightarrow> int" where
  "position_order TCritical = 5" | "position_order THigh = 4" | "position_order TMedium = 0" | "position_order TLow = 2"

definition getQueuePosition :: "string \<Rightarrow> orchestrator \<Rightarrow> nat" where
  "getQueuePosition t s =
     (let queuedTasks = sort_key (\<lambda>x. - position_order (td_priority x)) (getTasksByStatus TQueued s)
      in length (takeWhile (\<lambda>x. td_id x \<noteq> t) queuedTasks) + 1)"

end
