(* ===== verification/TaskFlow.thy ===== *)
theory TaskFlow
  imports TaskOrchestrator
begin

text \<open>
  Correctness of the task orchestrator: the cycle check decides reachability, the dependency graph stays acyclic and consistent, tasks run
  only after their dependencies, and as long as a task is not completed some task can go on.
\<close>

section \<open>The cycle check\<close>

definition depends :: "(string, string jsset) jsmap \<Rightarrow> (string \<times> string) set" where
  "depends G = {(t, d). d \<in> set (nullish (jget G t) [])}"

text \<open>Visited tasks lead only to visited or stacked ones.\<close>

definition explored :: "(string, string jsset) jsmap \<Rightarrow> string list \<Rightarrow> string list \<Rightarrow> bool" where
  "explored G V S \<longleftrightarrow> (\<forall>v \<in> set V. \<forall>d. (v, d) \<in> depends G \<longrightarrow> d \<in> set V \<union> set S)"

lemma explored_leads:
  assumes "(v, t) \<in> (depends G)\<^sup>*" "v \<in> set V" "explored G V S" "t \<notin> set V"
  shows "\<exists>x \<in> set S. (x, t) \<in> (depends G)\<^sup>*"
  using assms(1,2)
proof (induction rule: converse_rtrancl_induct)
  case base
  then show ?case
    using assms(4) by simp
next
  case (step v w)
  then show ?case
    using assms(3) unfolding explored_def by blast
qed

lemma cycle_search_exact:
  assumes "explored G V S" "t \<notin> set V"
  shows "cycle_search G t V S \<longleftrightarrow> (\<exists>x \<in> set S. (x, t) \<in> (depends G)\<^sup>*)"
  using assms
proof (induction G t V S rule: cycle_search.induct)
  case (2 G t V c S)
  consider "c = t" | "c \<noteq> t" "c \<in> set V" | "c \<noteq> t" "c \<notin> set V"
    by blast
  then show ?case
  proof cases
    case 2
    then have "explored G V S"
      using "2.prems"(1) by (auto simp: explored_def)
    moreover have "(c, t) \<in> (depends G)\<^sup>* \<Longrightarrow> \<exists>x \<in> set S. (x, t) \<in> (depends G)\<^sup>*"
      using explored_leads [OF _ 2(2) \<open>explored G V S\<close> "2.prems"(2)] .
    ultimately show ?thesis
      using "2.IH"(1) [OF 2] "2.prems"(2) 2 by auto
  next
    case 3
    let ?S = "rev (nullish (jget G c) []) @ S"
    have "explored G (V @ [c]) ?S"
      using "2.prems"(1) by (auto simp: explored_def depends_def)
    moreover have "(\<exists>x \<in> set ?S. (x, t) \<in> (depends G)\<^sup>*) \<longleftrightarrow> (\<exists>x \<in> set (c # S). (x, t) \<in> (depends G)\<^sup>*)"
      using 3(1) by (auto simp: depends_def elim: converse_rtranclE intro: converse_rtrancl_into_rtrancl)
    ultimately show ?thesis
      using "2.IH"(2) [OF 3] "2.prems"(2) 3 by simp
  qed auto
qed simp

lemma wouldCreateCycle_reaches: "wouldCreateCycle t d s \<longleftrightarrow> (d, t) \<in> (depends (to_dependencyGraph s))\<^sup>*"
  using cycle_search_exact [of "to_dependencyGraph s" "[]" "[d]" t] by (simp add: wouldCreateCycle_def explored_def)

text \<open>
  C16. The cycle check of \<open>addDependency\<close> always ends and is exact: it refuses a dependency exactly when adding it would close a cycle of
  dependencies, provided that there is none yet.
\<close>

theorem cycle_check_exact:
  assumes "acyclic (depends (to_dependencyGraph s))"
  shows "wouldCreateCycle t d s \<longleftrightarrow> \<not> acyclic (insert (t, d) (depends (to_dependencyGraph s)))"
  using assms by (simp add: wouldCreateCycle_reaches acyclic_insert)

section \<open>Status and blocking\<close>

definition status_of :: "orchestrator \<Rightarrow> string \<Rightarrow> task_status option" where
  "status_of s t = map_option td_status (jget (to_tasks s) t)"

definition waits :: "orchestrator \<Rightarrow> string \<Rightarrow> bool" where
  "waits s t \<longleftrightarrow> (\<exists>d \<in> set (deps_of s t). status_of s d \<noteq> None \<and> status_of s d \<noteq> Some TCompleted)"

lemma isBlocked_waits: "isBlocked t s = waits s t"
  by (auto simp: isBlocked_def getBlockingTasks_def waits_def status_of_def filter_empty_conv split: option.splits)

lemma status_None: "status_of s t = None \<longleftrightarrow> jget (to_tasks s) t = None"
  by (simp add: status_of_def)

text \<open>What the operations on single tasks leave alone.\<close>

definition task_frame :: "orchestrator \<Rightarrow> (string, string jsset) jsmap \<times> (string, string jsset) jsmap \<times> nat \<times> string list" where
  "task_frame s = (to_dependencyGraph s, to_dependentGraph s, to_taskCounter s, jkeys (to_tasks s))"

lemma jkeys_jset_present: "jget m k \<noteq> None \<Longrightarrow> jkeys (jset k v m) = jkeys m"
  by (induction k v m rule: jset.induct) (auto simp: jkeys_def split: if_splits)

lemma frame_upd [simp]: "task_frame (upd_task t f s) = task_frame s"
  by (cases "jget (to_tasks s) t") (simp_all add: task_frame_def upd_task_def jkeys_jset_present)

lemma frame_status [simp]: "task_frame (updateTaskStatus now t st s) = task_frame s"
  by (simp add: updateTaskStatus_def Let_def)

lemma frame_registry [simp]: "task_frame (s\<lparr>to_agentRegistry := r\<rparr>) = task_frame s"
  by (simp add: task_frame_def)

lemma frame_blocked [simp]: "task_frame (updateBlockedStatus now t s) = task_frame s"
  by (simp add: updateBlockedStatus_def split: option.split)

lemma frame_unblock [simp]: "task_frame (unblockDependentTasks now t s) = task_frame s"
proof -
  have "task_frame (fold (updateBlockedStatus now) ts s) = task_frame s" for ts
    by (induction ts arbitrary: s) simp_all
  then show ?thesis
    by (simp add: unblockDependentTasks_def)
qed

lemma frame_eq:
  assumes "task_frame s' = task_frame s"
  shows "deps_of s' = deps_of s" "dependents_of s' = dependents_of s" "to_dependencyGraph s' = to_dependencyGraph s"
    "to_dependentGraph s' = to_dependentGraph s" "to_taskCounter s' = to_taskCounter s" "status_of s' t = None \<longleftrightarrow> status_of s t = None"
  using assms jget_jkeys [of "to_tasks s'" t] jget_jkeys [of "to_tasks s" t]
  by (auto simp: task_frame_def deps_of_def dependents_of_def status_None fun_eq_iff)

lemma status_upd: "(\<And>x. td_status (f x) = td_status x) \<Longrightarrow> status_of (upd_task t f s) u = status_of s u"
  by (auto simp: status_of_def upd_task_def split: option.split)

lemma status_update: "status_of (updateTaskStatus now t st s) u = (if u = t \<and> status_of s t \<noteq> None then Some st else status_of s u)"
  unfolding updateTaskStatus_def Let_def by (subst status_upd) (auto simp: status_of_def upd_task_def split: option.split)

lemma status_registry [simp]: "status_of (s\<lparr>to_agentRegistry := r\<rparr>) = status_of s"
  by (simp add: fun_eq_iff status_of_def)

definition reconsidered :: "bool \<Rightarrow> task_status \<Rightarrow> task_status" where
  "reconsidered w st = (if st = TCompleted \<or> st = TFailed then st else if w then TBlocked else if st = TBlocked then TQueued else st)"

lemma status_updateBlocked:
  "status_of (updateBlockedStatus now t s) u = (if u = t then map_option (reconsidered (waits s t)) (status_of s t) else status_of s u)"
proof (cases "jget (to_tasks s) t")
  case None
  then show ?thesis
    by (simp add: updateBlockedStatus_def status_of_def)
next
  case (Some x)
  then have "status_of s t = Some (td_status x)"
    by (simp add: status_of_def)
  then show ?thesis
    using Some by (auto simp: updateBlockedStatus_def isBlocked_waits status_update reconsidered_def)
qed

lemma waits_change:
  assumes "set (deps_of s' v) = set (deps_of s v)" "\<And>d. (status_of s' d = None) = (status_of s d = None)"
    "\<And>d. (status_of s' d = Some TCompleted) = (status_of s d = Some TCompleted)"
  shows "waits s' v = waits s v"
  unfolding waits_def assms ..

lemma reconsidered_completed [simp]: "reconsidered w st = TCompleted \<longleftrightarrow> st = TCompleted"
  by (auto simp: reconsidered_def)

lemma waits_updateBlocked [simp]: "waits (updateBlockedStatus now t s) u = waits s u"
proof (rule waits_change)
  show "set (deps_of (updateBlockedStatus now t s) u) = set (deps_of s u)"
    by (simp add: frame_eq(1) [OF frame_blocked])
qed (auto simp: status_updateBlocked)

lemma reconsidered_twice [simp]: "reconsidered w (reconsidered w st) = reconsidered w st"
  by (auto simp: reconsidered_def)

lemma status_unblock:
  "status_of (unblockDependentTasks now t s) u =
     (if u \<in> set (dependents_of s t) then map_option (reconsidered (waits s u)) (status_of s u) else status_of s u)"
  "waits (unblockDependentTasks now t s) u = waits s u"
proof -
  have "status_of (fold (updateBlockedStatus now) ts s) u =
      (if u \<in> set ts then map_option (reconsidered (waits s u)) (status_of s u) else status_of s u) \<and>
    waits (fold (updateBlockedStatus now) ts s) u = waits s u" for ts
    by (induction ts arbitrary: s) (auto simp: status_updateBlocked option.map_comp comp_def)
  then show "status_of (unblockDependentTasks now t s) u =
     (if u \<in> set (dependents_of s t) then map_option (reconsidered (waits s u)) (status_of s u) else status_of s u)"
    "waits (unblockDependentTasks now t s) u = waits s u"
    by (simp_all add: unblockDependentTasks_def)
qed

section \<open>Calls\<close>

datatype task_op = OCreate clock task_spec | OQueue time string | OAssign time string string | OStart time string
  | OComplete clock string time | OFail time string | OCancel time string | OAddDep time string string | ORemoveDep time string string
  | OAgentDone time clock string | OEnv "agent_registry \<Rightarrow> agent_registry"

text \<open>A call; \<open>OEnv\<close> is any change of the registry by others.\<close>

fun task_call :: "task_op \<Rightarrow> orchestrator \<Rightarrow> unit task_result" where
  "task_call (OCreate clk spec) s = (Inr (), snd (createTask clk spec s))"
| "task_call (OQueue now t) s = queueTask now t s"
| "task_call (OAssign now t a) s = assignTask now t a s"
| "task_call (OStart now t) s = startTask now t s"
| "task_call (OComplete clk t d) s = completeTask clk t d s"
| "task_call (OFail now t) s = failTask now t s"
| "task_call (OCancel now t) s = cancelTask now t s"
| "task_call (OAddDep now t d) s = to_addDependency now t d s"
| "task_call (ORemoveDep now t d) s = to_removeDependency now t d s"
| "task_call (OAgentDone now clk t) s = handleAgentTaskCompleted now clk t s"
| "task_call (OEnv f) s = (Inr (), s\<lparr>to_agentRegistry := f (to_agentRegistry s)\<rparr>)"

definition task_do :: "task_op \<Rightarrow> orchestrator \<Rightarrow> orchestrator" where
  "task_do x s = snd (task_call x s)"

text \<open>One task changes its status and nothing else changes.\<close>

definition moves :: "string \<Rightarrow> task_status \<Rightarrow> orchestrator \<Rightarrow> orchestrator \<Rightarrow> bool" where
  "moves t st s s' \<longleftrightarrow> task_frame s' = task_frame s \<and> status_of s t \<noteq> None \<and> status_of s' = (status_of s)(t := Some st)"

definition stays :: "orchestrator \<Rightarrow> orchestrator \<Rightarrow> bool" where
  "stays s s' \<longleftrightarrow> task_frame s' = task_frame s \<and> status_of s' = status_of s"

lemma stays_refl [simp]: "stays s s"
  by (simp add: stays_def)

lemma moves_update:
  assumes "stays s s1" "status_of s t \<noteq> None"
  shows "moves t st s (updateTaskStatus now t st s1)"
  using assms by (simp add: moves_def stays_def fun_eq_iff status_update)

lemma stays_upd: "(\<And>x. td_status (f x) = td_status x) \<Longrightarrow> stays s (upd_task t f s)"
  by (simp add: stays_def fun_eq_iff status_upd)

lemma stays_trans: "stays s s1 \<Longrightarrow> stays s1 s2 \<Longrightarrow> stays s s2"
  by (simp add: stays_def)

lemma moves_stays: "moves t st s s1 \<Longrightarrow> stays s1 s2 \<Longrightarrow> moves t st s s2"
  by (simp add: moves_def stays_def)

lemma stays_registry: "stays s (s\<lparr>to_agentRegistry := r\<rparr>)"
  by (simp add: stays_def)

lemma queue_moves:
  "stays s (task_do (OQueue now t) s) \<or> moves t (if waits s t then TBlocked else TQueued) s (task_do (OQueue now t) s)"
  using moves_update [of s s t] by (auto simp: task_do_def queueTask_def isBlocked_waits status_None)

lemma assign_moves:
  "stays s (task_do (OAssign now t a) s) \<or>
   status_of s t = Some TQueued \<and> \<not> waits s t \<and> moves t TAssigned s (task_do (OAssign now t a) s)"
proof (cases "status_of s t = Some TQueued \<and> \<not> waits s t")
  case True
  let ?s1 = "updateTaskStatus now t TAssigned (upd_task t (\<lambda>x. x\<lparr>td_assignedAgent := Some a\<rparr>) s)"
  have "moves t TAssigned s ?s1"
    using True by (intro moves_update stays_upd) simp_all
  moreover have "stays ?s1 (task_do (OAssign now t a) s)"
    using True by (auto simp: task_do_def assignTask_def isBlocked_waits status_of_def stays_registry Let_def split: option.splits sum.split prod.split)
  ultimately show ?thesis
    using True moves_stays by blast
next
  case False
  then show ?thesis
    by (auto simp: task_do_def assignTask_def isBlocked_waits status_of_def split: option.split)
qed

lemma start_moves:
  "stays s (task_do (OStart now t) s) \<or> status_of s t = Some TAssigned \<and> moves t TInProgress s (task_do (OStart now t) s)"
  using moves_update [of s s t TInProgress now] by (auto simp: task_do_def startTask_def status_of_def split: option.split)

lemma fail_moves:
  "stays s (task_do (OFail now t) s) \<or> moves t TQueued s (task_do (OFail now t) s) \<or> moves t TFailed s (task_do (OFail now t) s)"
proof (cases "jget (to_tasks s) t")
  case (Some x)
  define s1 where "s1 = upd_task t (\<lambda>x. x\<lparr>td_retryCount := Suc (td_retryCount x)\<rparr>) s"
  have m: "moves t st s (updateTaskStatus now t st s1)" for st
    using Some unfolding s1_def by (intro moves_update stays_upd) (simp_all add: status_of_def)
  have "stays (updateTaskStatus now t TQueued s1) (upd_task t (\<lambda>x. x\<lparr>td_assignedAgent := None\<rparr>) (updateTaskStatus now t TQueued s1))"
    by (rule stays_upd) simp
  then have "moves t TQueued s (upd_task t (\<lambda>x. x\<lparr>td_assignedAgent := None\<rparr>) (updateTaskStatus now t TQueued s1))"
    by (rule moves_stays [OF m])
  moreover have "moves t TFailed s (updateTaskStatus now t TFailed s1\<lparr>to_agentRegistry := r\<rparr>)" for r
    by (rule moves_stays [OF m stays_registry])
  ultimately show ?thesis
    using m [of TFailed] Some by (auto simp: task_do_def failTask_def s1_def [symmetric] Let_def split: option.split)
qed (simp add: task_do_def failTask_def)

lemma cancel_moves:
  "stays s (task_do (OCancel now t) s) \<or> status_of s t \<noteq> Some TCompleted \<and> moves t TCancelled s (task_do (OCancel now t) s)"
proof (cases "jget (to_tasks s) t")
  case (Some x)
  then have "moves t TCancelled s (updateTaskStatus now t TCancelled s)" "moves t TCancelled s (updateTaskStatus now t TCancelled (s\<lparr>to_agentRegistry := r\<rparr>))" for r
    by (auto intro!: moves_update stays_registry simp: status_of_def)
  then show ?thesis
    using Some by (auto simp: task_do_def cancelTask_def status_of_def split: option.split sum.split prod.split)
qed (simp add: task_do_def cancelTask_def)

text \<open>A completion: refused, or carried out, or broken off by the registry before the dependents are told.\<close>

lemma complete_moves:
  "stays s (snd (completeTask clk t d s)) \<and> fst (completeTask clk t d s) \<noteq> Inr () \<or>
   status_of s t = Some TInProgress \<and> (\<exists>s1. moves t TCompleted s s1 \<and>
     (snd (completeTask clk t d s) = s1 \<and> fst (completeTask clk t d s) \<noteq> Inr () \<or> snd (completeTask clk t d s) = unblockDependentTasks (clk 2) t s1))"
proof (cases "status_of s t = Some TInProgress")
  case True
  then obtain x where x: "jget (to_tasks s) t = Some x" "td_status x = TInProgress"
    by (auto simp: status_of_def)
  let ?s1 = "updateTaskStatus (clk 1) t TCompleted (upd_task t (\<lambda>x. x\<lparr>td_actualDuration := Some d, td_completedAt := Some (clk 0)\<rparr>) s)"
  have m: "moves t TCompleted s ?s1"
    using True by (intro moves_update stays_upd) simp_all
  have mr: "moves t TCompleted s (?s1\<lparr>to_agentRegistry := r\<rparr>)" for r
    by (rule moves_stays [OF m stays_registry])
  show ?thesis
    using x True m mr by (auto simp: completeTask_def Let_def split: option.split sum.split prod.split)
next
  case False
  then show ?thesis
    by (auto simp: completeTask_def status_of_def split: option.split)
qed

lemma done_moves:
  "task_call (OAgentDone now clk t) s = (Inr (), s) \<or> (\<exists>d. task_call (OAgentDone now clk t) s = task_call (OComplete clk t d) s)"
  by (auto simp: handleAgentTaskCompleted_def split: option.split)

section \<open>The dependency graph\<close>

definition graph_inv :: "orchestrator \<Rightarrow> bool" where
  "graph_inv s \<longleftrightarrow> (\<forall>t. (jget (to_dependencyGraph s) t = None) = (status_of s t = None)) \<and>
     (\<forall>t. (jget (to_dependentGraph s) t = None) = (status_of s t = None)) \<and>
     (\<forall>t d. d \<in> set (deps_of s t) \<longrightarrow> status_of s d \<noteq> None) \<and>
     (\<forall>t d. d \<in> set (deps_of s t) \<longleftrightarrow> t \<in> set (dependents_of s d)) \<and>
     acyclic (depends (to_dependencyGraph s)) \<and>
     (\<forall>t. status_of s t \<noteq> None \<longrightarrow> last_number CHR ''-'' 10 t \<le> to_taskCounter s)"

lemma graph_invI:
  assumes "\<And>t. (jget (to_dependencyGraph s) t = None) = (status_of s t = None)"
    "\<And>t. (jget (to_dependentGraph s) t = None) = (status_of s t = None)"
    "\<And>t d. d \<in> set (deps_of s t) \<Longrightarrow> status_of s d \<noteq> None" "\<And>t d. d \<in> set (deps_of s t) \<longleftrightarrow> t \<in> set (dependents_of s d)"
    "acyclic (depends (to_dependencyGraph s))" "\<And>t. status_of s t \<noteq> None \<Longrightarrow> last_number CHR ''-'' 10 t \<le> to_taskCounter s"
  shows "graph_inv s"
  unfolding graph_inv_def using assms by blast

lemma graph_invD:
  assumes "graph_inv s"
  shows "(jget (to_dependencyGraph s) t = None) = (status_of s t = None)" "(jget (to_dependentGraph s) t = None) = (status_of s t = None)"
    "d \<in> set (deps_of s t) \<Longrightarrow> status_of s d \<noteq> None" "d \<in> set (deps_of s t) \<longleftrightarrow> t \<in> set (dependents_of s d)"
    "acyclic (depends (to_dependencyGraph s))" "status_of s t \<noteq> None \<Longrightarrow> last_number CHR ''-'' 10 t \<le> to_taskCounter s"
  using assms unfolding graph_inv_def by blast+

lemma graph_frame:
  assumes "task_frame s' = task_frame s" "graph_inv s"
  shows "graph_inv s'"
  using assms(2) unfolding graph_inv_def frame_eq [OF assms(1)] .

lemma depends_deps: "depends (to_dependencyGraph s) = {(t, d). d \<in> set (deps_of s t)}"
  by (simp add: depends_def deps_of_def)

lemma task_id_number: "last_number CHR ''-'' 10 (task_id now k) = k"
  using last_number_shown [of 10 "CHR ''-''" "''task-'' @ show_radix 10 (nat now)" k] by (simp add: task_id_def)

lemma graph_set:
  "(case jget G d of None \<Rightarrow> G | Some xs \<Rightarrow> jset d (sadd t xs) G) = (if jget G d = None then G else jset d (sadd t (nullish (jget G d) [])) G)"
  by (auto split: option.split)

text \<open>The dependents of a new task's dependencies.\<close>

lemma fold_dependents:
  "jget (fold (\<lambda>d G. case jget G d of None \<Rightarrow> G | Some xs \<Rightarrow> jset d (sadd t xs) G) ds G) u =
     (if u \<in> set ds then map_option (sadd t) (jget G u) else jget G u)"
proof (induction ds arbitrary: G)
  case (Cons d ds)
  have "sadd t (sadd t xs) = sadd t xs" for xs
    by (simp add: sadd_def)
  then show ?case
    using Cons by (auto simp: option.map_comp comp_def split: option.split)
qed simp

lemma createTask_effect:
  assumes inv: "graph_inv s" and known: "\<forall>d \<in> set (nullish (ts_dependencies spec) []). status_of s d \<noteq> None"
    and r: "createTask clk spec s = (t, s')"
  shows "status_of s t = None" "to_taskCounter s' = Suc (to_taskCounter s)" "last_number CHR ''-'' 10 t = Suc (to_taskCounter s)"
    "set (deps_of s' u) = (if u = t then set (nullish (ts_dependencies spec) []) else set (deps_of s u))"
    "set (dependents_of s' u) = (if u \<in> set (nullish (ts_dependencies spec) []) then insert t (set (dependents_of s u)) else if u = t then {} else set (dependents_of s u))"
    "status_of s' u = (if u = t then Some (if waits s' t then TBlocked else TPending) else status_of s u)"
    "(jget (to_dependencyGraph s') u = None) = (u \<noteq> t \<and> jget (to_dependencyGraph s) u = None)"
    "(jget (to_dependentGraph s') u = None) = (u \<noteq> t \<and> jget (to_dependentGraph s) u = None)"
proof -
  let ?ds = "nullish (ts_dependencies spec) []"
  have t: "t = task_id (clk 0) (to_taskCounter s + 1)"
    using r by (simp add: createTask_def Let_def)
  show num: "last_number CHR ''-'' 10 t = Suc (to_taskCounter s)"
    by (simp add: t task_id_number)
  show new: "status_of s t = None"
  proof (rule ccontr)
    assume "status_of s t \<noteq> None"
    then have "last_number CHR ''-'' 10 t \<le> to_taskCounter s"
      using inv unfolding graph_inv_def by blast
    then show False
      by (simp add: num)
  qed
  define s2 where "s2 = s\<lparr>to_tasks := jset t \<lparr>td_id = t, td_type = ts_type spec, td_assignedAgent = None, td_status = TPending,
      td_priority = nullish (ts_priority spec) TMedium, td_dependencies = ?ds, td_blockedBy = [], td_domain = ts_domain spec,
      td_actualDuration = None, td_retryCount = 0, td_maxRetries = 3, td_createdAt = clk 1, td_updatedAt = clk 2, td_completedAt = None\<rparr> (to_tasks s),
    to_dependencyGraph := jset t (fold sadd ?ds []) (to_dependencyGraph s), to_taskCounter := Suc (to_taskCounter s),
    to_dependentGraph := fold (\<lambda>d G. case jget G d of None \<Rightarrow> G | Some xs \<Rightarrow> jset d (sadd t xs) G) ?ds (jset t [] (to_dependentGraph s))\<rparr>"
  have s': "s' = updateBlockedStatus (clk 3) t s2"
    using r unfolding s2_def by (auto simp: createTask_def Let_def)
  note f = frame_eq [OF frame_blocked [of "clk 3" t s2]]
  have td: "t \<notin> set ?ds"
    using known new by metis
  show "to_taskCounter s' = Suc (to_taskCounter s)"
    unfolding s' f by (simp add: s2_def)
  show "set (deps_of s' u) = (if u = t then set ?ds else set (deps_of s u))"
    unfolding s' f by (simp add: s2_def deps_of_def)
  show "set (dependents_of s' u) = (if u \<in> set ?ds then insert t (set (dependents_of s u)) else if u = t then {} else set (dependents_of s u))"
  proof -
    have "jget (to_dependentGraph s) u \<noteq> None" if "u \<in> set ?ds"
      using that known inv unfolding graph_inv_def by blast
    then show ?thesis
      using td unfolding s' f by (auto simp: s2_def dependents_of_def fold_dependents)
  qed
  have st2: "status_of s2 u = (if u = t then Some TPending else status_of s u)" for u
    by (simp add: s2_def status_of_def)
  then show "status_of s' u = (if u = t then Some (if waits s' t then TBlocked else TPending) else status_of s u)"
    by (simp add: s' status_updateBlocked reconsidered_def)
  show "(jget (to_dependencyGraph s') u = None) = (u \<noteq> t \<and> jget (to_dependencyGraph s) u = None)"
    unfolding s' f by (simp add: s2_def)
  show "(jget (to_dependentGraph s') u = None) = (u \<noteq> t \<and> jget (to_dependentGraph s) u = None)"
    unfolding s' f by (auto simp: s2_def fold_dependents)
qed

lemma acyclic_new_source:
  assumes "acyclic R" "finite D" "t \<notin> D" "t \<notin> Range R"
  shows "acyclic (R \<union> {t} \<times> D)"
  using assms(2,3)
proof (induction D)
  case (insert d D)
  have "(d, t) \<notin> (R \<union> {t} \<times> D)\<^sup>*"
  proof
    assume "(d, t) \<in> (R \<union> {t} \<times> D)\<^sup>*"
    then show False
      using insert.prems assms(4) by (auto elim: rtranclE)
  qed
  then have "acyclic (insert (t, d) (R \<union> {t} \<times> D))"
    using insert by (simp add: acyclic_insert)
  moreover have "R \<union> {t} \<times> insert d D = insert (t, d) (R \<union> {t} \<times> D)"
    by auto
  ultimately show ?case
    by simp
qed (simp add: assms(1))

lemma create_graph:
  assumes inv: "graph_inv s" and known: "\<forall>d \<in> set (nullish (ts_dependencies spec) []). status_of s d \<noteq> None"
  shows "graph_inv (task_do (OCreate clk spec) s)"
proof -
  obtain t s' where r: "createTask clk spec s = (t, s')"
    by fastforce
  let ?ds = "set (nullish (ts_dependencies spec) [])"
  note e = createTask_effect [OF inv known r]
  have st: "status_of s' u = None \<longleftrightarrow> u \<noteq> t \<and> status_of s u = None" for u
    by (simp add: e(6))
  have "jget (to_dependencyGraph s) t = None" "jget (to_dependentGraph s) t = None"
    using e(1) inv unfolding graph_inv_def by blast+
  moreover have "t \<notin> ?ds" "\<And>u. t \<notin> set (deps_of s u)"
    using known e(1) inv unfolding graph_inv_def by metis+
  ultimately have td: "t \<notin> ?ds" "\<And>u. t \<notin> set (deps_of s u)" "set (deps_of s t) = {}" "set (dependents_of s t) = {}"
    by (simp_all add: deps_of_def dependents_of_def)
  have "depends (to_dependencyGraph s') = depends (to_dependencyGraph s) \<union> {t} \<times> ?ds"
    using td(3) by (auto simp: depends_deps e(4) split: if_splits)
  moreover have "t \<notin> Range (depends (to_dependencyGraph s))"
    using td(2) by (auto simp: depends_deps)
  ultimately have ac: "acyclic (depends (to_dependencyGraph s'))"
    using inv td(1) by (simp add: acyclic_new_source graph_inv_def)
  have num: "last_number CHR ''-'' 10 u \<le> to_taskCounter s'" if "status_of s' u \<noteq> None" for u
    using that inv e(2,3) unfolding graph_inv_def st by (cases "u = t") (auto intro: le_SucI)
  have conv: "d \<in> set (deps_of s' u) \<longleftrightarrow> u \<in> set (dependents_of s' d)" for u d
  proof -
    have "d \<in> set (deps_of s u) \<longleftrightarrow> u \<in> set (dependents_of s d)"
      using inv unfolding graph_inv_def by blast
    then show ?thesis
      using td unfolding e(4,5) by auto
  qed
  have known': "status_of s' d \<noteq> None" if "d \<in> set (deps_of s' u)" for u d
    using that known inv unfolding st e(4) graph_inv_def by (auto split: if_splits)
  have "graph_inv s'"
  proof (rule graph_invI)
    show "(jget (to_dependencyGraph s') u = None) = (status_of s' u = None)" "(jget (to_dependentGraph s') u = None) = (status_of s' u = None)" for u
      unfolding e(7,8) st graph_invD(1,2) [OF inv] by simp_all
  qed (fact known' conv ac num)+
  then show ?thesis
    by (simp add: task_do_def r)
qed

text \<open>A new dependency.\<close>

lemma addDependency_effect:
  assumes inv: "graph_inv s" and "to_addDependency now t d s = (Inr u, s')"
  shows "status_of s t \<noteq> None" "status_of s d \<noteq> None" "\<not> wouldCreateCycle t d s" "to_taskCounter s' = to_taskCounter s"
    "set (deps_of s' v) = (if v = t then insert d (set (deps_of s v)) else set (deps_of s v))"
    "set (dependents_of s' v) = (if v = d then insert t (set (dependents_of s v)) else set (dependents_of s v))"
    "status_of s' v = (if v = t then map_option (reconsidered (waits s' t)) (status_of s t) else status_of s v)"
    "(jget (to_dependencyGraph s') v = None) = (jget (to_dependencyGraph s) v = None)"
    "(jget (to_dependentGraph s') v = None) = (jget (to_dependentGraph s) v = None)"
proof -
  have g: "jget (to_tasks s) t \<noteq> None" "jget (to_tasks s) d \<noteq> None" "\<not> wouldCreateCycle t d s"
    using assms(2) by (auto simp: to_addDependency_def split: if_splits)
  then show st: "status_of s t \<noteq> None" "status_of s d \<noteq> None" "\<not> wouldCreateCycle t d s"
    by (simp_all add: status_of_def)
  define s1 where "s1 = upd_task t (\<lambda>x. x\<lparr>td_dependencies := td_dependencies x @ [d]\<rparr>) s"
  have s1: "task_frame s1 = task_frame s" "status_of s1 = status_of s"
    using stays_upd [of "\<lambda>x. x\<lparr>td_dependencies := td_dependencies x @ [d]\<rparr>" s t] by (simp_all add: s1_def stays_def)
  note f1 = frame_eq [OF s1(1)]
  define s3 where "s3 = s1\<lparr>to_dependencyGraph := jset t (sadd d (deps_of s1 t)) (to_dependencyGraph s1),
    to_dependentGraph := jset d (sadd t (dependents_of s1 d)) (to_dependentGraph s1)\<rparr>"
  have s': "s' = updateBlockedStatus now t s3"
    using assms(2) g by (simp add: to_addDependency_def s3_def s1_def Let_def dependents_of_def)
  note f = frame_eq [OF frame_blocked [of now t s3]]
  show "to_taskCounter s' = to_taskCounter s"
    unfolding s' f by (simp add: s3_def f1)
  show "set (deps_of s' v) = (if v = t then insert d (set (deps_of s v)) else set (deps_of s v))"
    unfolding s' f by (simp add: s3_def f1 deps_of_def)
  show "set (dependents_of s' v) = (if v = d then insert t (set (dependents_of s v)) else set (dependents_of s v))"
    unfolding s' f by (simp add: s3_def f1 dependents_of_def)
  have "status_of s3 = status_of s"
    unfolding s1(2) [symmetric] by (simp add: s3_def status_of_def fun_eq_iff)
  then show "status_of s' v = (if v = t then map_option (reconsidered (waits s' t)) (status_of s t) else status_of s v)"
    by (simp add: s' status_updateBlocked)
  have "jget (to_dependencyGraph s) t \<noteq> None" "jget (to_dependentGraph s) d \<noteq> None"
    using graph_invD(1) [OF inv, of t] graph_invD(2) [OF inv, of d] st(1,2) by simp_all
  then show "(jget (to_dependencyGraph s') v = None) = (jget (to_dependencyGraph s) v = None)"
    "(jget (to_dependentGraph s') v = None) = (jget (to_dependentGraph s) v = None)"
    unfolding s' f by (auto simp: s3_def f1)
qed

lemma add_graph:
  assumes inv: "graph_inv s"
  shows "graph_inv (task_do (OAddDep now t d) s)"
proof (cases "to_addDependency now t d s")
  case (Pair res s')
  show ?thesis
  proof (cases res)
    case (Inl err)
    then have "s' = s"
      using Pair by (auto simp: to_addDependency_def Let_def split: if_splits)
    then show ?thesis
      using inv Pair by (simp add: task_do_def)
  next
    case (Inr u)
    note e = addDependency_effect [OF inv Pair [unfolded Inr]]
    have st: "status_of s' v = None \<longleftrightarrow> status_of s v = None" for v
      using e(1) by (simp add: e(7))
    have "depends (to_dependencyGraph s') = insert (t, d) (depends (to_dependencyGraph s))"
      by (auto simp: depends_deps e(5) split: if_splits)
    then have "acyclic (depends (to_dependencyGraph s'))"
      using e(3) inv by (simp add: wouldCreateCycle_reaches acyclic_insert graph_inv_def)
    moreover have "v \<in> set (deps_of s' w) \<longleftrightarrow> w \<in> set (dependents_of s' v)" "v \<in> set (deps_of s' w) \<Longrightarrow> status_of s' v \<noteq> None" for v w
      using graph_invD(3,4) [OF inv] e(2) unfolding e(5,6) st by (auto split: if_splits)
    ultimately have "graph_inv s'"
      using graph_invD(1,2,6) [OF inv] e(4,8,9) st by (intro graph_invI) (simp_all only: st e(4,8,9), blast+)
    then show ?thesis
      using Pair by (simp add: task_do_def)
  qed
qed

text \<open>A dependency less.\<close>

lemma graph_delete_get:
  "set (nullish (jget (graph_delete k x G) v) []) = (if v = k then set (nullish (jget G v) []) - {x} else set (nullish (jget G v) []))"
  "(jget (graph_delete k x G) v = None) = (jget G v = None)"
  by (auto simp: graph_delete_def split: option.split)

lemma removeDependency_effect:
  assumes "to_removeDependency now t d s = (Inr u, s')"
  shows "status_of s t \<noteq> None" "to_taskCounter s' = to_taskCounter s"
    "set (deps_of s' v) = (if v = t then set (deps_of s v) - {d} else set (deps_of s v))"
    "set (dependents_of s' v) = (if v = d then set (dependents_of s v) - {t} else set (dependents_of s v))"
    "status_of s' v = (if v = t then map_option (reconsidered (waits s' t)) (status_of s t) else status_of s v)"
    "(jget (to_dependencyGraph s') v = None) = (jget (to_dependencyGraph s) v = None)"
    "(jget (to_dependentGraph s') v = None) = (jget (to_dependentGraph s) v = None)"
proof -
  have g: "jget (to_tasks s) t \<noteq> None"
    using assms by (auto simp: to_removeDependency_def split: if_splits)
  then show st: "status_of s t \<noteq> None"
    by (simp add: status_of_def)
  define s1 where "s1 = upd_task t (\<lambda>x. x\<lparr>td_dependencies := remove1 d (td_dependencies x)\<rparr>) s"
  have s1: "task_frame s1 = task_frame s" "status_of s1 = status_of s"
    using stays_upd [of "\<lambda>x. x\<lparr>td_dependencies := remove1 d (td_dependencies x)\<rparr>" s t] by (simp_all add: s1_def stays_def)
  note f1 = frame_eq [OF s1(1)]
  define s2 where "s2 = s1\<lparr>to_dependencyGraph := graph_delete t d (to_dependencyGraph s1), to_dependentGraph := graph_delete d t (to_dependentGraph s1)\<rparr>"
  have s': "s' = updateBlockedStatus now t s2"
    using assms g by (simp add: to_removeDependency_def s2_def s1_def Let_def)
  note f = frame_eq [OF frame_blocked [of now t s2]]
  show "to_taskCounter s' = to_taskCounter s"
    unfolding s' f by (simp add: s2_def f1)
  show "set (deps_of s' v) = (if v = t then set (deps_of s v) - {d} else set (deps_of s v))"
    unfolding s' f by (simp add: s2_def f1 deps_of_def graph_delete_get)
  show "set (dependents_of s' v) = (if v = d then set (dependents_of s v) - {t} else set (dependents_of s v))"
    unfolding s' f by (simp add: s2_def f1 dependents_of_def graph_delete_get)
  have "status_of s2 = status_of s"
    unfolding s1(2) [symmetric] by (simp add: s2_def status_of_def fun_eq_iff)
  then show "status_of s' v = (if v = t then map_option (reconsidered (waits s' t)) (status_of s t) else status_of s v)"
    by (simp add: s' status_updateBlocked)
  show "(jget (to_dependencyGraph s') v = None) = (jget (to_dependencyGraph s) v = None)"
    "(jget (to_dependentGraph s') v = None) = (jget (to_dependentGraph s) v = None)"
    unfolding s' f by (simp_all add: s2_def f1 graph_delete_get)
qed

lemma remove_graph:
  assumes inv: "graph_inv s"
  shows "graph_inv (task_do (ORemoveDep now t d) s)"
proof (cases "to_removeDependency now t d s")
  case (Pair res s')
  show ?thesis
  proof (cases res)
    case (Inl err)
    then have "s' = s"
      using Pair by (auto simp: to_removeDependency_def Let_def split: if_splits)
    then show ?thesis
      using inv Pair by (simp add: task_do_def)
  next
    case (Inr u)
    note e = removeDependency_effect [OF Pair [unfolded Inr]]
    have st: "status_of s' v = None \<longleftrightarrow> status_of s v = None" for v
      using e(1) by (simp add: e(5))
    have "depends (to_dependencyGraph s') \<subseteq> depends (to_dependencyGraph s)"
      by (auto simp: depends_deps e(3) split: if_splits)
    then have "acyclic (depends (to_dependencyGraph s'))"
      using inv by (auto simp: graph_inv_def intro: acyclic_subset)
    moreover have "v \<in> set (deps_of s' w) \<longleftrightarrow> w \<in> set (dependents_of s' v)" "v \<in> set (deps_of s' w) \<Longrightarrow> status_of s' v \<noteq> None" for v w
      using graph_invD(3,4) [OF inv] unfolding e(3,4) st by (auto split: if_splits)
    ultimately have "graph_inv s'"
      using graph_invD(1,2,6) [OF inv] by (intro graph_invI) (simp_all only: st e(2,6,7), blast+)
    then show ?thesis
      using Pair by (simp add: task_do_def)
  qed
qed

text \<open>New tasks depend on tasks that exist.\<close>

fun known_deps :: "task_op \<Rightarrow> orchestrator \<Rightarrow> bool" where
  "known_deps (OCreate clk spec) s = (\<forall>d \<in> set (nullish (ts_dependencies spec) []). jget (to_tasks s) d \<noteq> None)"
| "known_deps _ s = True"

lemma frame_complete: "task_frame (snd (completeTask clk t d s)) = task_frame s"
  using complete_moves [of s clk t d] by (auto simp: stays_def moves_def)

lemma frame_calls:
  "task_frame (task_do (OQueue now t) s) = task_frame s" "task_frame (task_do (OAssign now t a) s) = task_frame s" "task_frame (task_do (OStart now t) s) = task_frame s"
  "task_frame (task_do (OFail now t) s) = task_frame s" "task_frame (task_do (OCancel now t) s) = task_frame s" "task_frame (task_do (OComplete clk t d) s) = task_frame s"
  "task_frame (task_do (OEnv g) s) = task_frame s"
  using queue_moves [of s now t] assign_moves [of s now t a] start_moves [of s now t] fail_moves [of s now t] cancel_moves [of s now t]
    frame_complete [of clk t d s]
  by (auto simp: stays_def moves_def task_do_def)

lemma task_graph_step: "known_deps x s \<Longrightarrow> graph_inv s \<Longrightarrow> graph_inv (task_do x s)"
proof (cases x)
  case (OCreate clk spec)
  assume "known_deps x s" "graph_inv s"
  then show ?thesis
    using OCreate create_graph [of s spec clk] by (simp only: known_deps.simps status_None)
next
  case (OAgentDone now clk t)
  assume "graph_inv s"
  then show ?thesis
    using OAgentDone done_moves [of now clk t s] frame_complete [of clk t] by (auto simp: task_do_def intro: graph_frame)
qed (auto simp: frame_calls intro: graph_frame add_graph remove_graph)

lemma new_graph: "graph_inv (new_orchestrator r)"
  by (simp add: graph_inv_def new_orchestrator_def status_of_def deps_of_def dependents_of_def depends_def acyclic_def)

interpretation task_graph: guarded_system known_deps task_do graph_inv
  by unfold_locales (rule task_graph_step)

text \<open>
  Dependencies stay consistent. In every run in which new tasks depend only on tasks that exist, whatever errors the calls report and
  whatever happens to the registry: the dependencies of tasks are tasks and have no cycle, and the dependents recorded for a task
  are exactly the tasks that depend on it.
\<close>

theorem task_graph_consistent:
  assumes "run_ok known_deps task_do ops (new_orchestrator r)" and "s = run task_do ops (new_orchestrator r)"
  shows "acyclic (depends (to_dependencyGraph s)) \<and> (\<forall>t d. d \<in> set (deps_of s t) \<longrightarrow> jget (to_tasks s) d \<noteq> None) \<and>
    (\<forall>t d. d \<in> set (deps_of s t) \<longleftrightarrow> t \<in> set (dependents_of s d))"
proof -
  have "graph_inv s"
    unfolding assms(2) by (rule task_graph.guarded_run [OF assms(1) new_graph])
  then show ?thesis
    unfolding graph_inv_def status_None by blast
qed

section \<open>Tasks run after their dependencies\<close>

definition running_inv :: "orchestrator \<Rightarrow> bool" where
  "running_inv s \<longleftrightarrow> (\<forall>t. status_of s t = Some TAssigned \<or> status_of s t = Some TInProgress \<longrightarrow> \<not> waits s t)"

lemma waits_moves:
  assumes "moves t st s s'"
  shows "status_of s t \<noteq> Some TCompleted \<Longrightarrow> waits s' u \<Longrightarrow> waits s u" "st \<noteq> TCompleted \<Longrightarrow> waits s u \<Longrightarrow> waits s' u"
proof -
  have "deps_of s' = deps_of s" "status_of s' = (status_of s)(t := Some st)"
    using assms frame_eq(1) [of s' s] by (simp_all add: moves_def)
  then show "status_of s t \<noteq> Some TCompleted \<Longrightarrow> waits s' u \<Longrightarrow> waits s u" "st \<noteq> TCompleted \<Longrightarrow> waits s u \<Longrightarrow> waits s' u"
    using assms unfolding waits_def moves_def by (auto split: if_splits)
qed

lemma running_moves:
  assumes "running_inv s" "moves t st s s'" "status_of s t \<noteq> Some TCompleted" "st = TAssigned \<or> st = TInProgress \<longrightarrow> \<not> waits s t"
  shows "running_inv s'"
  unfolding running_inv_def
proof (intro allI impI)
  fix u assume u: "status_of s' u = Some TAssigned \<or> status_of s' u = Some TInProgress"
  have "\<not> waits s u"
    using u assms(1,2,4) unfolding running_inv_def moves_def by (cases "u = t") auto
  then show "\<not> waits s' u"
    using waits_moves(1) [OF assms(2,3)] by blast
qed

lemma waits_stays: "stays s s' \<Longrightarrow> waits s' u = waits s u"
  using frame_eq(1) [of s' s] by (simp add: stays_def waits_def)

lemma running_stays: "running_inv s \<Longrightarrow> stays s s' \<Longrightarrow> running_inv s'"
  using waits_stays [of s s'] by (simp add: running_inv_def stays_def)

lemma running_unblock:
  assumes "running_inv s"
  shows "running_inv (unblockDependentTasks now t s)"
  using assms unfolding running_inv_def status_unblock by (auto simp: reconsidered_def split: if_splits)

lemma running_complete:
  assumes "running_inv s"
  shows "running_inv (snd (completeTask clk t d s))"
proof -
  have "running_inv s1" if "moves t TCompleted s s1" "status_of s t = Some TInProgress" for s1
    using running_moves [OF assms that(1)] that(2) by simp
  then show ?thesis
    using complete_moves [of s clk t d] running_stays [OF assms] running_unblock by metis
qed

text \<open>Completed tasks are neither queued again nor failed.\<close>

fun orderly :: "task_op \<Rightarrow> orchestrator \<Rightarrow> bool" where
  "orderly (OQueue now t) s = (map_option td_status (jget (to_tasks s) t) \<noteq> Some TCompleted)"
| "orderly (OFail now t) s = (map_option td_status (jget (to_tasks s) t) \<noteq> Some TCompleted)"
| "orderly x s = known_deps x s"

lemma orderly_known: "orderly x s \<Longrightarrow> known_deps x s"
  by (cases x) simp_all

lemma running_create:
  assumes "graph_inv s" "\<forall>d \<in> set (nullish (ts_dependencies spec) []). status_of s d \<noteq> None" "running_inv s"
  shows "running_inv (snd (createTask clk spec s))"
proof -
  obtain t s' where r: "createTask clk spec s = (t, s')"
    by fastforce
  note e = createTask_effect [OF assms(1,2) r]
  have "waits s' u = waits s u" if "u \<noteq> t" for u
  proof -
    have "t \<notin> set (deps_of s u)"
      using graph_invD(3) [OF assms(1)] e(1) by blast
    then have "status_of s' d = status_of s d" if "d \<in> set (deps_of s u)" for d
      using that by (auto simp: e(6))
    then show ?thesis
      using that unfolding waits_def e(4) by simp
  qed
  then show ?thesis
    using assms(3) unfolding running_inv_def r snd_conv e(6) by (auto split: if_splits)
qed

lemma running_add:
  assumes "graph_inv s" "running_inv s"
  shows "running_inv (task_do (OAddDep now t d) s)"
proof (cases "to_addDependency now t d s")
  case (Pair res s')
  show ?thesis
  proof (cases res)
    case (Inl err)
    then have "s' = s"
      using Pair by (auto simp: to_addDependency_def Let_def split: if_splits)
    then show ?thesis
      using assms(2) Pair by (simp add: task_do_def)
  next
    case (Inr u)
    note e = addDependency_effect [OF assms(1) Pair [unfolded Inr]]
    have "waits s' v = waits s v" if "v \<noteq> t" for v
      using that e(1) by (intro waits_change) (simp_all add: e(5,7))
    then show ?thesis
      using assms(2) Pair unfolding running_inv_def task_do_def task_call.simps Pair snd_conv e(7) by (auto simp: reconsidered_def split: if_splits)
  qed
qed

lemma running_remove:
  assumes "running_inv s"
  shows "running_inv (task_do (ORemoveDep now t d) s)"
proof (cases "to_removeDependency now t d s")
  case (Pair res s')
  show ?thesis
  proof (cases res)
    case (Inl err)
    then have "s' = s"
      using Pair by (auto simp: to_removeDependency_def Let_def split: if_splits)
    then show ?thesis
      using assms Pair by (simp add: task_do_def)
  next
    case (Inr u)
    note e = removeDependency_effect [OF Pair [unfolded Inr]]
    have "waits s' v = waits s v" if "v \<noteq> t" for v
      using that e(1) by (intro waits_change) (simp_all add: e(3,5))
    then show ?thesis
      using assms Pair unfolding running_inv_def task_do_def task_call.simps Pair snd_conv e(5) by (auto simp: reconsidered_def split: if_splits)
  qed
qed

lemma running_step:
  assumes "orderly x s" "graph_inv s" "running_inv s"
  shows "running_inv (task_do x s)"
proof (cases x)
  case (OCreate clk spec)
  then show ?thesis
    using assms running_create [of s spec clk] by (simp add: task_do_def status_of_def)
next
  case (OQueue now t)
  then show ?thesis
    using queue_moves [of s now t] assms running_stays [OF assms(3)] running_moves [OF assms(3)] by (auto simp: status_of_def split: if_splits)
next
  case (OAssign now t a)
  then show ?thesis
    using assign_moves [of s now t a] running_stays [OF assms(3)] running_moves [OF assms(3)] by auto
next
  case (OStart now t)
  then show ?thesis
    using start_moves [of s now t] running_stays [OF assms(3)] running_moves [OF assms(3)] assms(3) unfolding running_inv_def [of s] by auto
next
  case (OComplete clk t d)
  then show ?thesis
    using running_complete [OF assms(3)] by (simp add: task_do_def)
next
  case (OFail now t)
  then show ?thesis
    using fail_moves [of s now t] assms running_stays [OF assms(3)] running_moves [OF assms(3)] by (auto simp: status_of_def)
next
  case (OCancel now t)
  then show ?thesis
    using cancel_moves [of s now t] running_stays [OF assms(3)] running_moves [OF assms(3)] by auto
next
  case (OAgentDone now clk t)
  then show ?thesis
    using done_moves [of now clk t s] running_complete [OF assms(3)] assms(3) by (auto simp: task_do_def)
next
  case (OEnv g)
  then show ?thesis
    using running_stays [OF assms(3) stays_registry] by (simp add: task_do_def)
qed (use running_add running_remove assms in auto)

interpretation task_runs: guarded_system orderly task_do "\<lambda>s. graph_inv s \<and> running_inv s"
  by unfold_locales (simp add: running_step task_graph_step orderly_known)

text \<open>
  C15. Tasks run after their dependencies. In every run in which new tasks depend on existing ones and completed tasks are not
  queued again or failed: all dependencies of a task that is assigned or in progress are completed, also those added while it runs.
\<close>

theorem running_after_dependencies:
  assumes "run_ok orderly task_do ops (new_orchestrator r)" and "s = run task_do ops (new_orchestrator r)"
    and "jget (to_tasks s) t = Some x" and "td_status x = TAssigned \<or> td_status x = TInProgress" and "d \<in> set (deps_of s t)"
  shows "map_option td_status (jget (to_tasks s) d) = Some TCompleted"
proof -
  have "running_inv (new_orchestrator r)"
    by (simp add: running_inv_def new_orchestrator_def status_of_def)
  then have inv: "graph_inv s" "running_inv s"
    unfolding assms(2) using task_runs.guarded_run [OF assms(1)] new_graph by blast+
  have "\<not> waits s t"
    using inv(2) assms(3,4) by (auto simp: running_inv_def status_of_def)
  moreover have "status_of s d \<noteq> None"
    by (rule graph_invD(3) [OF inv(1) assms(5)])
  ultimately show ?thesis
    using assms(5) unfolding waits_def status_of_def by blast
qed

section \<open>Some task can go on\<close>

definition blocked_inv :: "orchestrator \<Rightarrow> bool" where
  "blocked_inv s \<longleftrightarrow> (\<forall>t. status_of s t = Some TBlocked \<longrightarrow> waits s t)"

lemma blocked_moves:
  assumes "blocked_inv s" "moves t st s s'" "st \<noteq> TCompleted" "st = TBlocked \<longrightarrow> waits s t"
  shows "blocked_inv s'"
  unfolding blocked_inv_def
proof (intro allI impI)
  fix u assume u: "status_of s' u = Some TBlocked"
  have "waits s u"
    using u assms(1,2,4) unfolding blocked_inv_def moves_def by (cases "u = t") auto
  then show "waits s' u"
    using waits_moves(2) [OF assms(2,3)] by blast
qed

lemma blocked_stays: "blocked_inv s \<Longrightarrow> stays s s' \<Longrightarrow> blocked_inv s'"
  using waits_stays [of s s'] by (simp add: blocked_inv_def stays_def)

text \<open>Completing a task tells every task that waited for it.\<close>

lemma blocked_complete:
  assumes "graph_inv s" "blocked_inv s" "fst (completeTask clk t d s) = Inr ()"
  shows "blocked_inv (snd (completeTask clk t d s))"
proof -
  obtain s1 where s1: "moves t TCompleted s s1" "snd (completeTask clk t d s) = unblockDependentTasks (clk 2) t s1"
    using complete_moves [of s clk t d] assms(3) by auto
  note f = frame_eq [of s1 s]
  have fr: "task_frame s1 = task_frame s" "status_of s1 = (status_of s)(t := Some TCompleted)"
    using s1(1) by (simp_all add: moves_def)
  have "waits s1 u" if u: "status_of s1 u = Some TBlocked" "u \<notin> set (dependents_of s1 t)" for u
  proof -
    have "status_of s u = Some TBlocked"
      using u(1) fr(2) by (auto split: if_splits)
    then obtain e where e: "e \<in> set (deps_of s u)" "status_of s e \<noteq> None" "status_of s e \<noteq> Some TCompleted"
      using assms(2) unfolding blocked_inv_def waits_def by blast
    have "t \<notin> set (deps_of s u)"
      using u(2) graph_invD(4) [OF assms(1), of t u] f(2) [OF fr(1)] by simp
    then have "e \<noteq> t"
      using e(1) by blast
    then show ?thesis
      using e f(1) [OF fr(1)] fr(2) unfolding waits_def by (intro bexI [of _ e]) auto
  qed
  then show ?thesis
    unfolding s1(2) blocked_inv_def status_unblock by (auto simp: reconsidered_def split: if_splits)
qed

lemma blocked_create:
  assumes "graph_inv s" "\<forall>d \<in> set (nullish (ts_dependencies spec) []). status_of s d \<noteq> None" "blocked_inv s"
  shows "blocked_inv (snd (createTask clk spec s))"
proof -
  obtain t s' where r: "createTask clk spec s = (t, s')"
    by fastforce
  note e = createTask_effect [OF assms(1,2) r]
  have "waits s' u" if u: "u \<noteq> t" "waits s u" for u
  proof -
    obtain d where "d \<in> set (deps_of s u)" "status_of s d \<noteq> None" "status_of s d \<noteq> Some TCompleted"
      using u(2) unfolding waits_def by blast
    moreover then have "d \<noteq> t"
      using e(1) by auto
    ultimately show ?thesis
      using u(1) unfolding waits_def e(4) by (intro bexI [of _ d]) (simp_all add: e(6))
  qed
  then show ?thesis
    using assms(3) unfolding blocked_inv_def r snd_conv e(6) by (auto split: if_splits)
qed

lemma blocked_add:
  assumes "graph_inv s" "blocked_inv s" "to_addDependency now t d s = (Inr u, s')"
  shows "blocked_inv s'"
proof -
  note e = addDependency_effect [OF assms(1,3)]
  have "waits s' v = waits s v" if "v \<noteq> t" for v
    using that e(1) by (intro waits_change) (simp_all add: e(5,7))
  then show ?thesis
    using assms(2) unfolding blocked_inv_def e(7) by (auto simp: reconsidered_def split: if_splits)
qed

lemma blocked_remove:
  assumes "blocked_inv s" "to_removeDependency now t d s = (Inr u, s')"
  shows "blocked_inv s'"
proof -
  note e = removeDependency_effect [OF assms(2)]
  have "waits s' v = waits s v" if "v \<noteq> t" for v
    using that e(1) by (intro waits_change) (simp_all add: e(3,5))
  then show ?thesis
    using assms(1) unfolding blocked_inv_def e(5) by (auto simp: reconsidered_def split: if_splits)
qed

text \<open>New tasks depend on tasks that exist, and the call does not throw.\<close>

definition succeeds :: "task_op \<Rightarrow> orchestrator \<Rightarrow> bool" where
  "succeeds x s \<longleftrightarrow> known_deps x s \<and> fst (task_call x s) = Inr ()"

lemma blocked_step:
  assumes "succeeds x s" "graph_inv s" "blocked_inv s"
  shows "blocked_inv (task_do x s)"
proof (cases x)
  case (OCreate clk spec)
  then show ?thesis
    using assms blocked_create [of s spec clk] by (simp add: task_do_def succeeds_def status_of_def)
next
  case (OQueue now t)
  then show ?thesis
    using queue_moves [of s now t] blocked_stays [OF assms(3)] blocked_moves [OF assms(3)] by (auto split: if_splits)
next
  case (OAssign now t a)
  then show ?thesis
    using assign_moves [of s now t a] blocked_stays [OF assms(3)] blocked_moves [OF assms(3)] by auto
next
  case (OStart now t)
  then show ?thesis
    using start_moves [of s now t] blocked_stays [OF assms(3)] blocked_moves [OF assms(3)] by auto
next
  case (OComplete clk t d)
  then show ?thesis
    using blocked_complete [OF assms(2,3)] assms(1) by (simp add: task_do_def succeeds_def)
next
  case (OFail now t)
  then show ?thesis
    using fail_moves [of s now t] blocked_stays [OF assms(3)] blocked_moves [OF assms(3)] by auto
next
  case (OCancel now t)
  then show ?thesis
    using cancel_moves [of s now t] blocked_stays [OF assms(3)] blocked_moves [OF assms(3)] by auto
next
  case (OAddDep now t d)
  then show ?thesis
    using assms(1) blocked_add [OF assms(2,3)] by (cases "to_addDependency now t d s") (simp add: succeeds_def task_do_def)
next
  case (ORemoveDep now t d)
  then show ?thesis
    using assms(1) blocked_remove [OF assms(3)] by (cases "to_removeDependency now t d s") (simp add: succeeds_def task_do_def)
next
  case (OAgentDone now clk t)
  then show ?thesis
    using done_moves [of now clk t s] blocked_complete [OF assms(2,3)] assms(1,3) by (auto simp: task_do_def succeeds_def)
next
  case (OEnv g)
  then show ?thesis
    using blocked_stays [OF assms(3) stays_registry] by (simp add: task_do_def)
qed

interpretation task_progress: guarded_system succeeds task_do "\<lambda>s. graph_inv s \<and> blocked_inv s"
  by unfold_locales (simp add: blocked_step task_graph_step succeeds_def)

text \<open>
  C11. The orchestrator does not get stuck. In every run in which no call throws and new tasks depend on existing ones: a task is marked
  as blocked only while a dependency is not completed, and as long as some task is not completed there is one that is neither completed
  nor marked as blocked and whose dependencies are all completed.
\<close>

theorem some_task_can_go_on:
  assumes "run_ok succeeds task_do ops (new_orchestrator r)" and "s = run task_do ops (new_orchestrator r)"
    and "jget (to_tasks s) t0 = Some x0" and "td_status x0 \<noteq> TCompleted"
  shows "(\<forall>t x. jget (to_tasks s) t = Some x \<and> td_status x = TBlocked \<longrightarrow> isBlocked t s) \<and>
    (\<exists>t x. jget (to_tasks s) t = Some x \<and> td_status x \<noteq> TCompleted \<and> td_status x \<noteq> TBlocked \<and> \<not> isBlocked t s)"
proof -
  have "blocked_inv (new_orchestrator r)"
    by (simp add: blocked_inv_def new_orchestrator_def status_of_def)
  then have inv: "graph_inv s" "blocked_inv s"
    unfolding assms(2) using task_progress.guarded_run [OF assms(1)] new_graph by blast+
  let ?R = "depends (to_dependencyGraph s)"
  let ?U = "{t. status_of s t \<noteq> None \<and> status_of s t \<noteq> Some TCompleted}"
  have dom: "status_of s t \<noteq> None \<longleftrightarrow> t \<in> set (jkeys (to_tasks s))" for t
    using jget_jkeys [of "to_tasks s" t] by (simp add: status_None)
  have "?R \<subseteq> set (jkeys (to_tasks s)) \<times> set (jkeys (to_tasks s))"
  proof (rule subrelI)
    fix t d assume td: "(t, d) \<in> ?R"
    then have "d \<in> set (deps_of s t)" "jget (to_dependencyGraph s) t \<noteq> None"
      by (cases "jget (to_dependencyGraph s) t"; simp add: depends_def deps_of_def)+
    then have "status_of s t \<noteq> None" "status_of s d \<noteq> None"
      using graph_invD(1) [OF inv(1), of t] graph_invD(3) [OF inv(1), of d t] by simp_all
    then show "(t, d) \<in> set (jkeys (to_tasks s)) \<times> set (jkeys (to_tasks s))"
      unfolding dom by blast
  qed
  then have "wf (?R\<inverse>)"
    using graph_invD(5) [OF inv(1)] by (intro finite_acyclic_wf_converse) (auto intro: finite_subset)
  moreover have "t0 \<in> ?U"
    using assms(3,4) by (simp add: status_of_def)
  ultimately obtain t where t: "t \<in> ?U" "\<And>d. (d, t) \<in> ?R\<inverse> \<Longrightarrow> d \<notin> ?U"
    using wfE_min [of "?R\<inverse>" t0 ?U] by blast
  have nw: "\<not> waits s t"
    using t(2) unfolding waits_def by (auto simp: depends_deps)
  then have "status_of s t \<noteq> Some TBlocked"
    using inv(2) unfolding blocked_inv_def by blast
  moreover obtain x where "jget (to_tasks s) t = Some x"
    using t(1) by (auto simp: status_of_def)
  ultimately have "\<exists>t x. jget (to_tasks s) t = Some x \<and> td_status x \<noteq> TCompleted \<and> td_status x \<noteq> TBlocked \<and> \<not> isBlocked t s"
    using t(1) nw by (intro exI [of _ t] exI [of _ x]) (simp add: status_of_def isBlocked_waits)
  then show ?thesis
    using inv(2) by (auto simp: blocked_inv_def status_of_def isBlocked_waits)
qed

section \<open>Examples\<close>

definition example_spec :: "string list \<Rightarrow> task_priority \<Rightarrow> task_spec" where
  "example_spec ds p = \<lparr>ts_type = Implementation, ts_priority = Some p, ts_dependencies = Some ds, ts_domain = DCore\<rparr>"

definition two_tasks :: "task_op list" where
  "two_tasks = [OCreate (\<lambda>_. 5) (example_spec [] THigh), OCreate (\<lambda>_. 5) (example_spec [''task-5-1''] THigh), OQueue 6 ''task-5-1'']"

definition first_done :: "task_op list" where
  "first_done = two_tasks @ [OEnv (\<lambda>r. snd (spawn (\<lambda>_. 6) ''agent-6'' r)), OAssign 7 ''task-5-1'' ''agent-6'', OStart 8 ''task-5-1'',
     OComplete (\<lambda>_. 9) ''task-5-1'' 1, OAssign 10 ''task-5-2'' ''agent-6'']"

theorem cycle_check_exact_witness:
  "acyclic (depends (to_dependencyGraph (run task_do two_tasks (new_orchestrator new_registry)))) \<and>
   \<not> acyclic (insert (''task-5-1'', ''task-5-2'') (depends (to_dependencyGraph (run task_do two_tasks (new_orchestrator new_registry)))))"
proof -
  have ok: "run_ok known_deps task_do two_tasks (new_orchestrator new_registry)"
    by code_simp
  have ac: "acyclic (depends (to_dependencyGraph (run task_do two_tasks (new_orchestrator new_registry))))"
    by (rule graph_invD(5) [OF task_graph.guarded_run [OF ok new_graph]])
  have "wouldCreateCycle ''task-5-1'' ''task-5-2'' (run task_do two_tasks (new_orchestrator new_registry))"
    by code_simp
  then show ?thesis
    using cycle_check_exact [OF ac] ac by blast
qed

theorem task_graph_consistent_witness:
  "\<exists>s. s = run task_do two_tasks (new_orchestrator new_registry) \<and> acyclic (depends (to_dependencyGraph s)) \<and>
     ''task-5-2'' \<in> set (dependents_of s ''task-5-1'')"
proof -
  define s where "s = run task_do two_tasks (new_orchestrator new_registry)"
  have ok: "run_ok known_deps task_do two_tasks (new_orchestrator new_registry)"
    by code_simp
  have "''task-5-1'' \<in> set (deps_of s ''task-5-2'')"
    unfolding s_def by code_simp
  then show ?thesis
    using task_graph_consistent [OF ok s_def] s_def by blast
qed

theorem running_after_dependencies_witness:
  "map_option td_status (jget (to_tasks (run task_do first_done (new_orchestrator new_registry))) ''task-5-2'') = Some TAssigned \<and>
   map_option td_status (jget (to_tasks (run task_do first_done (new_orchestrator new_registry))) ''task-5-1'') = Some TCompleted"
proof -
  define s where "s = run task_do first_done (new_orchestrator new_registry)"
  have ok: "run_ok orderly task_do first_done (new_orchestrator new_registry)"
    by code_simp
  have st: "map_option td_status (jget (to_tasks s) ''task-5-2'') = Some TAssigned"
    unfolding s_def by code_simp
  then obtain x where x: "jget (to_tasks s) ''task-5-2'' = Some x" "td_status x = TAssigned"
    by blast
  have d: "''task-5-1'' \<in> set (deps_of s ''task-5-2'')"
    unfolding s_def by code_simp
  show ?thesis
    using running_after_dependencies [OF ok s_def x(1) _ d] x(2) st unfolding s_def by simp
qed

theorem some_task_can_go_on_witness:
  "\<exists>s t x. s = run task_do two_tasks (new_orchestrator new_registry) \<and> jget (to_tasks s) t = Some x \<and> td_status x \<noteq> TBlocked \<and> \<not> isBlocked t s"
proof -
  define s where "s = run task_do two_tasks (new_orchestrator new_registry)"
  have ok: "run_ok succeeds task_do two_tasks (new_orchestrator new_registry)"
    by code_simp
  have "map_option td_status (jget (to_tasks s) ''task-5-2'') = Some TBlocked"
    unfolding s_def by code_simp
  then obtain x where "jget (to_tasks s) ''task-5-2'' = Some x" "td_status x \<noteq> TCompleted"
    by auto
  then show ?thesis
    using some_task_can_go_on [OF ok s_def] s_def by blast
qed

subsection \<open>Flaws\<close>

text \<open>
  An assignment that the registry refuses leaves the task assigned. When it is started and completed, the registry throws again, before the
  dependents are told: a task stays blocked although nothing blocks it.
\<close>

lemma refused_assignment_strands_dependent:
  "(let s = run task_do (two_tasks @ [OAssign 7 ''task-5-1'' ''agent-6'', OStart 8 ''task-5-1'', OComplete (\<lambda>_. 9) ''task-5-1'' 1])
       (new_orchestrator new_registry)
    in map_option td_status (jget (to_tasks s) ''task-5-1'') = Some TCompleted \<and>
       map_option td_status (jget (to_tasks s) ''task-5-2'') = Some TBlocked \<and> \<not> isBlocked ''task-5-2'' s)"
  by code_simp

text \<open>A task that fails is queued for a retry, but its agent keeps it as the current task and cannot get it, or any other task, again.\<close>

lemma retried_task_keeps_agent_busy:
  "(let s = run task_do (two_tasks @ [OEnv (\<lambda>r. snd (spawn (\<lambda>_. 6) ''agent-6'' r)), OAssign 7 ''task-5-1'' ''agent-6'', OStart 8 ''task-5-1'',
         OFail 9 ''task-5-1'']) (new_orchestrator new_registry)
    in map_option td_status (jget (to_tasks s) ''task-5-1'') = Some TQueued \<and>
       fst (assignTask 10 ''task-5-1'' ''agent-6'' s) = Inl (FromRegistry (HasTask ''agent-6'' ''task-5-1'')))"
  by code_simp

text \<open>A cancelled task comes back when a dependency is added or removed, and a completed one when it is queued or failed.\<close>

lemma cancelled_task_revived:
  "(let s = run task_do (two_tasks @ [OCancel 7 ''task-5-2'', ORemoveDep 8 ''task-5-2'' ''x'']) (new_orchestrator new_registry)
    in map_option td_status (jget (to_tasks s) ''task-5-2'') = Some TBlocked)"
  by code_simp

lemma completed_task_requeued:
  "(let s = run task_do (first_done @ [OFail 11 ''task-5-1'']) (new_orchestrator new_registry)
    in map_option td_status (jget (to_tasks s) ''task-5-1'') = Some TQueued \<and>
       map_option td_status (jget (to_tasks s) ''task-5-2'') = Some TAssigned)"
  by code_simp

text \<open>The announced position in the queue puts the priority medium behind low.\<close>

lemma medium_announced_last:
  "(let s = run task_do [OCreate (\<lambda>_. 5) (example_spec [] TMedium), OCreate (\<lambda>_. 5) (example_spec [] TLow), OQueue 6 ''task-5-1'', OQueue 6 ''task-5-2'']
       (new_orchestrator new_registry)
    in getQueuePosition ''task-5-1'' s = 2 \<and> map_option td_id (getNextTask None s) = Some ''task-5-1'')"
  by code_simp

end
