(* ===== verification/ConnectionPool.thy ===== *)
theory ConnectionPool
  imports Prelude "HOL-Library.Multiset"
begin

text \<open>
  Model of \<open>ConnectionPool\<close> of \<open>shared/src/mcp/connection-pool.ts\<close>. A call of \<open>acquire\<close> has a ticket; it is answered at once, or it waits
  for a released connection, or it is suspended after it created a connection (\<open>await this.createConnection(true)\<close>) and resumes later.
  Timers are operations. Acquire times, listeners and logging are left out.
\<close>

section \<open>State\<close>

datatype connection_state = CnIdle | CnBusy | CnClosing | CnClosed | CnError

record managed_connection =
  cn_id :: string
  cn_state :: connection_state
  cn_lastUsedAt :: time
  cn_useCount :: nat

record pool_config =
  po_maxConnections :: nat
  po_minConnections :: nat
  po_idleTimeout :: time
  po_maxWaitingClients :: nat

datatype pool_error = PoolShuttingDown | PoolExhausted | AcquireTimeout | PoolDraining

record conn_pool =
  cp_connections :: "(string, managed_connection) jsmap"
  cp_waitingClients :: "nat list"
  cp_resuming :: "(nat \<times> string) list"
  cp_nextTicket :: nat
  cp_connectionCounter :: nat
  cp_isShuttingDown :: bool
  cp_totalAcquired :: nat
  cp_totalReleased :: nat
  cp_totalCreated :: nat
  cp_totalDestroyed :: nat

section \<open>Connections\<close>

definition cn_acquire :: "time \<Rightarrow> managed_connection \<Rightarrow> managed_connection" where
  "cn_acquire now c = c\<lparr>cn_state := CnBusy, cn_lastUsedAt := now, cn_useCount := cn_useCount c + 1\<rparr>"

definition cn_release :: "time \<Rightarrow> managed_connection \<Rightarrow> managed_connection" where
  "cn_release now c = c\<lparr>cn_state := CnIdle, cn_lastUsedAt := now\<rparr>"

definition cn_isExpired :: "time \<Rightarrow> time \<Rightarrow> managed_connection \<Rightarrow> bool" where
  "cn_isExpired now idleTimeout c = (cn_state c = CnIdle \<and> now - cn_lastUsedAt c > idleTimeout)"

definition cn_isHealthy :: "managed_connection \<Rightarrow> bool" where
  "cn_isHealthy c = (cn_state c \<noteq> CnError \<and> cn_state c \<noteq> CnClosed)"

definition connection_id :: "nat \<Rightarrow> time \<Rightarrow> string" where
  "connection_id k now = ''conn-'' @ show_radix 10 k @ ''-'' @ show_radix 10 (nat now)"

definition createConnection :: "clock \<Rightarrow> bool \<Rightarrow> conn_pool \<Rightarrow> string \<times> conn_pool" where
  "createConnection clk reserved p =
     (let k = cp_connectionCounter p + 1;
          i = connection_id k (clk 0);
          c = \<lparr>cn_id = i, cn_state = (if reserved then CnBusy else CnIdle), cn_lastUsedAt = clk 1, cn_useCount = 0\<rparr>
      in (i, p\<lparr>cp_connections := jset i c (cp_connections p), cp_connectionCounter := k, cp_totalCreated := cp_totalCreated p + 1\<rparr>))"

text \<open>The constructor with \<open>initializeMinConnections\<close>.\<close>

definition new_pool :: "pool_config \<Rightarrow> clock \<Rightarrow> conn_pool" where
  "new_pool cfg clk = fold (\<lambda>k p. snd (createConnection (\<lambda>n. clk (2 * k + n)) False p)) [0..<po_minConnections cfg]
     \<lparr>cp_connections = [], cp_waitingClients = [], cp_resuming = [], cp_nextTicket = 0, cp_connectionCounter = 0, cp_isShuttingDown = False,
      cp_totalAcquired = 0, cp_totalReleased = 0, cp_totalCreated = 0, cp_totalDestroyed = 0\<rparr>"

definition upd_connection :: "string \<Rightarrow> (managed_connection \<Rightarrow> managed_connection) \<Rightarrow> conn_pool \<Rightarrow> conn_pool" where
  "upd_connection i f p =
     (case jget (cp_connections p) i of None \<Rightarrow> p | Some c \<Rightarrow> p\<lparr>cp_connections := jset i (f c) (cp_connections p)\<rparr>)"

section \<open>Acquiring and releasing\<close>

definition waitForConnection :: "pool_config \<Rightarrow> nat \<Rightarrow> conn_pool \<Rightarrow> (pool_error + string) option \<times> conn_pool" where
  "waitForConnection cfg ticket p =
     (if length (cp_waitingClients p) \<ge> po_maxWaitingClients cfg then (Some (Inl PoolExhausted), p)
      else (None, p\<lparr>cp_waitingClients := cp_waitingClients p @ [ticket]\<rparr>))"

text \<open>The answer to the call is \<open>None\<close> while its promise is open.\<close>

definition cp_acquire :: "pool_config \<Rightarrow> clock \<Rightarrow> conn_pool \<Rightarrow> (pool_error + string) option \<times> conn_pool" where
  "cp_acquire cfg clk p0 =
     (let ticket = cp_nextTicket p0; p = p0\<lparr>cp_nextTicket := ticket + 1\<rparr>
      in if cp_isShuttingDown p then (Some (Inl PoolShuttingDown), p)
         else case find (\<lambda>c. cn_state c = CnIdle \<and> cn_isHealthy c) (jvalues (cp_connections p)) of
                Some c \<Rightarrow> (Some (Inr (cn_id c)), (upd_connection (cn_id c) (cn_acquire (clk 0)) p)\<lparr>cp_totalAcquired := cp_totalAcquired p + 1\<rparr>)
              | None \<Rightarrow>
                  if length (cp_connections p) < po_maxConnections cfg
                  then let (i, p1) = createConnection clk True p in (None, p1\<lparr>cp_resuming := cp_resuming p1 @ [(ticket, i)]\<rparr>)
                  else waitForConnection cfg ticket p)"

text \<open>The rest of a suspended \<open>acquire\<close>.\<close>

definition acquire_resumes :: "time \<Rightarrow> nat \<Rightarrow> conn_pool \<Rightarrow> (nat \<times> string) option \<times> conn_pool" where
  "acquire_resumes now k p =
     (if k < length (cp_resuming p)
      then
        let (ticket, i) = cp_resuming p ! k;
            p1 = p\<lparr>cp_resuming := take k (cp_resuming p) @ drop (Suc k) (cp_resuming p)\<rparr>
        in (Some (ticket, i), (upd_connection i (cn_acquire now) p1)\<lparr>cp_totalAcquired := cp_totalAcquired p1 + 1\<rparr>)
      else (None, p))"

text \<open>The answer is the waiting client that gets the connection.\<close>

definition cp_release :: "time \<Rightarrow> string \<Rightarrow> conn_pool \<Rightarrow> nat option \<times> conn_pool" where
  "cp_release now i p =
     (if jget (cp_connections p) i = None then (None, p)
      else case cp_waitingClients p of
             w # ws \<Rightarrow> (Some w, (upd_connection i (cn_acquire now) p)\<lparr>cp_waitingClients := ws, cp_totalAcquired := cp_totalAcquired p + 1\<rparr>)
           | [] \<Rightarrow> (None, (upd_connection i (cn_release now) p)\<lparr>cp_totalReleased := cp_totalReleased p + 1\<rparr>))"

definition acquire_timeout :: "nat \<Rightarrow> conn_pool \<Rightarrow> pool_error option \<times> conn_pool" where
  "acquire_timeout ticket p =
     (if ticket \<in> set (cp_waitingClients p) then (Some AcquireTimeout, p\<lparr>cp_waitingClients := remove1 ticket (cp_waitingClients p)\<rparr>)
      else (None, p))"

section \<open>Removing connections\<close>

definition cp_destroy :: "pool_config \<Rightarrow> clock \<Rightarrow> string \<Rightarrow> conn_pool \<Rightarrow> conn_pool" where
  "cp_destroy cfg clk i p =
     (if jget (cp_connections p) i = None then p
      else
        let p1 = p\<lparr>cp_connections := jdel i (cp_connections p), cp_totalDestroyed := cp_totalDestroyed p + 1\<rparr>
        in if length (cp_connections p1) < po_minConnections cfg \<and> \<not> cp_isShuttingDown p1 then snd (createConnection clk False p1) else p1)"

definition evictIdleConnections :: "pool_config \<Rightarrow> clock \<Rightarrow> conn_pool \<Rightarrow> conn_pool" where
  "evictIdleConnections cfg clk p =
     (if cp_isShuttingDown p then p
      else
        let n = length (cp_connections p);
            toEvict = filter (\<lambda>(k, c). cn_isExpired (clk k) (po_idleTimeout cfg) c \<and> n > po_minConnections cfg)
                        (enumerate 0 (jvalues (cp_connections p)))
        in fold (\<lambda>(k, c). cp_destroy cfg (\<lambda>j. clk (n + 2 * k + j)) (cn_id c)) toEvict p)"

text \<open>\<open>drain\<close> up to its loop, with the rejected clients; and the rest of \<open>clear\<close> after a number of milliseconds in the loop.\<close>

definition drain_begins :: "conn_pool \<Rightarrow> nat list \<times> conn_pool" where
  "drain_begins p = (cp_waitingClients p, p\<lparr>cp_isShuttingDown := True, cp_waitingClients := []\<rparr>)"

definition busy_count :: "conn_pool \<Rightarrow> nat" where
  "busy_count p = length (filter (\<lambda>c. cn_state c = CnBusy) (jvalues (cp_connections p)))"

definition clear_ends :: "time \<Rightarrow> conn_pool \<Rightarrow> conn_pool" where
  "clear_ends elapsed p =
     (if cp_isShuttingDown p \<and> (busy_count p = 0 \<or> elapsed \<ge> 10000) then p\<lparr>cp_connections := []\<rparr> else p)"

definition idle_count :: "conn_pool \<Rightarrow> nat" where
  "idle_count p = length (filter (\<lambda>c. cn_state c = CnIdle) (jvalues (cp_connections p)))"

definition cp_isHealthy :: "pool_config \<Rightarrow> conn_pool \<Rightarrow> bool" where
  "cp_isHealthy cfg p = (\<not> cp_isShuttingDown p \<and> length (cp_connections p) \<ge> po_minConnections cfg)"

section \<open>Runs\<close>

text \<open>The pool with the tickets that hold a connection. Holders may release or destroy what they hold.\<close>

type_synonym pool_system = "conn_pool \<times> (nat \<times> string) list"

datatype pool_op = PAcquire clock | PResume time nat | PRelease time nat string | PTimeout nat | PDestroy clock nat string | PEvict clock
  | PDrain | PClear time

fun pool_do :: "pool_config \<Rightarrow> pool_op \<Rightarrow> pool_system \<Rightarrow> pool_system" where
  "pool_do cfg (PAcquire clk) (p, H) =
     (case cp_acquire cfg clk p of (Some (Inr i), p') \<Rightarrow> (p', H @ [(cp_nextTicket p, i)]) | (_, p') \<Rightarrow> (p', H))"
| "pool_do cfg (PResume now k) (p, H) =
     (case acquire_resumes now k p of (Some g, p') \<Rightarrow> (p', H @ [g]) | (None, p') \<Rightarrow> (p', H))"
| "pool_do cfg (PRelease now t i) (p, H) =
     (case cp_release now i p of (Some w, p') \<Rightarrow> (p', remove1 (t, i) H @ [(w, i)]) | (None, p') \<Rightarrow> (p', remove1 (t, i) H))"
| "pool_do cfg (PTimeout t) (p, H) = (snd (acquire_timeout t p), H)"
| "pool_do cfg (PDestroy clk t i) (p, H) = (cp_destroy cfg clk i p, remove1 (t, i) H)"
| "pool_do cfg (PEvict clk) (p, H) = (evictIdleConnections cfg clk p, H)"
| "pool_do cfg PDrain (p, H) = (snd (drain_begins p), H)"
| "pool_do cfg (PClear elapsed) (p, H) = (clear_ends elapsed p, H)"

fun holders_only :: "pool_op \<Rightarrow> pool_system \<Rightarrow> bool" where
  "holders_only (PRelease now t i) (p, H) = ((t, i) \<in> set H)"
| "holders_only (PDestroy clk t i) (p, H) = ((t, i) \<in> set H)"
| "holders_only _ s = True"

section \<open>The invariant\<close>

text \<open>The number in an identifier.\<close>

definition conn_number :: "string \<Rightarrow> nat" where
  "conn_number i = last_number CHR ''-'' 10 (CHR ''-'' # takeWhile (\<lambda>c. c \<noteq> CHR ''-'') (drop 5 i))"

lemma conn_number_id: "conn_number (connection_id k now) = k"
proof -
  have "CHR ''-'' \<notin> set (show_radix 10 k)"
    using show_radix_value [of 10 k] by simp
  then have "takeWhile (\<lambda>c. c \<noteq> CHR ''-'') (show_radix 10 k @ ''-'' @ show_radix 10 (nat now)) = show_radix 10 k"
    by (subst takeWhile_append2) auto
  then show ?thesis
    using last_number_shown [of 10 "CHR ''-''" "[]" k] by (simp add: conn_number_def connection_id_def)
qed

text \<open>Connections in use are those that are held or reserved, each once.\<close>

definition conns_ok :: "(string, managed_connection) jsmap \<Rightarrow> string list \<Rightarrow> nat \<Rightarrow> bool" where
  "conns_ok m used k \<longleftrightarrow> jwf m \<and> distinct used \<and>
     (\<forall>i c. jget m i = Some c \<longrightarrow> cn_id c = i \<and> cn_state c = (if i \<in> set used then CnBusy else CnIdle)) \<and>
     (\<forall>i. jget m i \<noteq> None \<or> i \<in> set used \<longrightarrow> conn_number i \<le> k)"

definition in_use :: "pool_system \<Rightarrow> string list" where
  "in_use s = map snd (snd s) @ map snd (cp_resuming (fst s))"

definition pool_inv :: "pool_config \<Rightarrow> pool_system \<Rightarrow> bool" where
  "pool_inv cfg s \<longleftrightarrow> conns_ok (cp_connections (fst s)) (in_use s) (cp_connectionCounter (fst s)) \<and>
     length (cp_connections (fst s)) \<le> max (po_maxConnections cfg) (po_minConnections cfg) \<and>
     length (cp_waitingClients (fst s)) \<le> po_maxWaitingClients cfg"

lemma conns_perm: "mset used' = mset used \<Longrightarrow> conns_ok m used' k = conns_ok m used k"
  using mset_eq_setD [of used' used] mset_eq_imp_distinct_iff [of used' used] by (simp add: conns_ok_def)

lemma conns_create:
  assumes "conns_ok m used k" "i = connection_id (Suc k) now" "cn_id c = i"
  shows "cn_state c = CnIdle \<Longrightarrow> conns_ok (jset i c m) used (Suc k)" "cn_state c = CnBusy \<Longrightarrow> conns_ok (jset i c m) (used @ [i]) (Suc k)"
    "jget m i = None" "i \<notin> set used"
proof -
  have n: "conn_number i = Suc k"
    by (simp add: assms(2) conn_number_id)
  have old: "jget m j \<noteq> None \<or> j \<in> set used \<Longrightarrow> conn_number j \<le> k" for j
    using assms(1) unfolding conns_ok_def by blast
  show new: "jget m i = None" "i \<notin> set used"
    using old [of i] n by (metis not_less_eq_eq order_refl)+
  show "conns_ok (jset i c m) used (Suc k)" if "cn_state c = CnIdle"
    using assms(1,3) that new n old unfolding conns_ok_def by (auto intro: le_SucI)
  show "conns_ok (jset i c m) (used @ [i]) (Suc k)" if "cn_state c = CnBusy"
    using assms(1,3) that new n old unfolding conns_ok_def by (auto intro: le_SucI)
qed

lemma conns_take:
  assumes "conns_ok m used k" "jget m i = Some c" "cn_state c = CnIdle"
  shows "conns_ok (jset i (cn_acquire now c) m) (used @ [i]) k"
proof -
  have "i \<notin> set used" "cn_id c = i" "conn_number i \<le> k"
    using assms unfolding conns_ok_def by (auto split: if_splits)
  then show ?thesis
    using assms(1) by (auto simp: conns_ok_def cn_acquire_def)
qed

lemma conns_retake:
  assumes "conns_ok m used k" "jget m i = Some c" "i \<in> set used"
  shows "conns_ok (jset i (cn_acquire now c) m) used k"
  using assms by (auto simp: conns_ok_def cn_acquire_def)

lemma conns_give:
  assumes "conns_ok m (i # used) k" "jget m i = Some c"
  shows "conns_ok (jset i (cn_release now c) m) used k"
  using assms by (auto simp: conns_ok_def cn_release_def)

lemma conns_drop: "conns_ok m (i # used) k \<Longrightarrow> jget m i = None \<Longrightarrow> conns_ok m used k"
  by (auto simp: conns_ok_def)

lemma conns_del: "conns_ok m used k \<Longrightarrow> conns_ok (jdel i m) used k"
  by (auto simp: conns_ok_def)

lemma remove1_in_use: "(t, i) \<in> set H \<Longrightarrow> add_mset i (image_mset snd (mset H - {#(t, i)#})) = image_mset snd (mset H)"
  by (metis image_mset_add_mset insert_DiffM set_mset_mset snd_conv)

lemma create_idle_inv:
  assumes "pool_inv cfg (p, H)" "length (cp_connections p) < max (po_maxConnections cfg) (po_minConnections cfg)"
  shows "pool_inv cfg (snd (createConnection clk False p), H)"
proof -
  define i where "i = connection_id (Suc (cp_connectionCounter p)) (clk 0)"
  note c = conns_create [OF _ i_def, of _ _ "\<lparr>cn_id = i, cn_state = CnIdle, cn_lastUsedAt = clk 1, cn_useCount = 0\<rparr>"]
  show ?thesis
    using assms c [of "cp_connections p" "in_use (p, H)"]
    by (simp add: pool_inv_def createConnection_def i_def [symmetric] in_use_def length_jset Let_def)
qed

lemma destroy_inv:
  assumes "pool_inv cfg (p, H)"
  shows "pool_inv cfg (cp_destroy cfg clk i p, H)"
proof (cases "jget (cp_connections p) i")
  case (Some c)
  define p1 where "p1 = p\<lparr>cp_connections := jdel i (cp_connections p), cp_totalDestroyed := cp_totalDestroyed p + 1\<rparr>"
  have p1: "pool_inv cfg (p1, H)"
    using assms conns_del [of "cp_connections p" _ _ i] length_jdel_le [of i "cp_connections p"] by (auto simp: pool_inv_def in_use_def p1_def)
  then show ?thesis
    using create_idle_inv [OF p1, of clk] Some by (auto simp: cp_destroy_def p1_def Let_def)
qed (simp add: cp_destroy_def assms)

lemma destroy_gone:
  assumes "pool_inv cfg (p, H)" "i \<in> set (in_use (p, H))"
  shows "jget (cp_connections (cp_destroy cfg clk i p)) i = None"
proof -
  have "conn_number i \<le> cp_connectionCounter p"
    using assms unfolding pool_inv_def conns_ok_def by (metis fst_conv)
  then have "connection_id (cp_connectionCounter p + 1) (clk 0) \<noteq> i"
    using conn_number_id [of "cp_connectionCounter p + 1" "clk 0"] by auto
  then show ?thesis
    by (auto simp: cp_destroy_def createConnection_def Let_def)
qed

lemma destroys_inv: "pool_inv cfg (p, H) \<Longrightarrow> pool_inv cfg (fold (\<lambda>(k, c). cp_destroy cfg (f k) (cn_id c)) cs p, H)"
  by (induction cs arbitrary: p) (auto simp: destroy_inv)

lemma evict_inv: "pool_inv cfg (p, H) \<Longrightarrow> pool_inv cfg (evictIdleConnections cfg clk p, H)"
  by (simp add: evictIdleConnections_def Let_def destroys_inv)

lemma find_idle:
  assumes "conns_ok m used k" "find (\<lambda>c. cn_state c = CnIdle \<and> cn_isHealthy c) (jvalues m) = Some c"
  shows "jget m (cn_id c) = Some c" "cn_state c = CnIdle"
proof -
  have c: "c \<in> set (jvalues m)" "cn_state c = CnIdle"
    using assms(2) by (auto simp: find_Some_iff)
  then obtain i where "jget m i = Some c"
    using assms(1) by (auto simp: conns_ok_def jvalues_jget)
  moreover from this have "cn_id c = i"
    using assms(1) by (simp add: conns_ok_def)
  ultimately show "jget m (cn_id c) = Some c" "cn_state c = CnIdle"
    using c by simp_all
qed

lemma acquire_inv:
  assumes "pool_inv cfg (p, H)"
  shows "pool_inv cfg (pool_do cfg (PAcquire clk) (p, H))"
proof -
  have ok: "conns_ok (cp_connections p) (in_use (p, H)) (cp_connectionCounter p)"
    using assms by (simp add: pool_inv_def)
  consider "cp_isShuttingDown p"
    | c where "\<not> cp_isShuttingDown p" "find (\<lambda>c. cn_state c = CnIdle \<and> cn_isHealthy c) (jvalues (cp_connections p)) = Some c"
    | "\<not> cp_isShuttingDown p" "find (\<lambda>c. cn_state c = CnIdle \<and> cn_isHealthy c) (jvalues (cp_connections p)) = None"
        "length (cp_connections p) < po_maxConnections cfg"
    | "\<not> cp_isShuttingDown p" "find (\<lambda>c. cn_state c = CnIdle \<and> cn_isHealthy c) (jvalues (cp_connections p)) = None"
        "\<not> length (cp_connections p) < po_maxConnections cfg"
    by fastforce
  then show ?thesis
  proof cases
    case 1
    then show ?thesis
      using assms by (simp add: cp_acquire_def pool_inv_def in_use_def)
  next
    case 2
    note c = find_idle [OF ok 2(2)]
    have "conns_ok (jset (cn_id c) (cn_acquire (clk 0) c) (cp_connections p)) (map snd (H @ [(cp_nextTicket p, cn_id c)]) @ map snd (cp_resuming p))
        (cp_connectionCounter p)"
      using conns_take [OF ok c, of "clk 0"] by (subst conns_perm [of _ "in_use (p, H) @ [cn_id c]"]) (auto simp: in_use_def)
    then show ?thesis
      using assms 2 c by (simp add: cp_acquire_def pool_inv_def in_use_def upd_connection_def length_jset Let_def)
  next
    case 3
    define i where "i = connection_id (Suc (cp_connectionCounter p)) (clk 0)"
    note n = conns_create [OF ok i_def, of "\<lparr>cn_id = i, cn_state = CnBusy, cn_lastUsedAt = clk 1, cn_useCount = 0\<rparr>"]
    show ?thesis
      using assms 3 n by (simp add: cp_acquire_def pool_inv_def createConnection_def i_def [symmetric] in_use_def length_jset Let_def)
  next
    case 4
    then show ?thesis
      using assms by (simp add: cp_acquire_def waitForConnection_def pool_inv_def in_use_def Let_def)
  qed
qed

lemma acquire_resumes_inv:
  assumes "pool_inv cfg (p, H)"
  shows "pool_inv cfg (pool_do cfg (PResume now k) (p, H))"
proof (cases "k < length (cp_resuming p)")
  case True
  obtain t i where r: "cp_resuming p ! k = (t, i)"
    by fastforce
  define R where "R = take k (cp_resuming p) @ drop (Suc k) (cp_resuming p)"
  have "mset (cp_resuming p) = add_mset (t, i) (mset R)"
    using arg_cong [OF id_take_nth_drop [OF True], of mset] r by (simp add: R_def)
  then have m: "mset (map snd (H @ [(t, i)]) @ map snd R) = mset (in_use (p, H))"
    by (simp add: in_use_def)
  have ok: "conns_ok (cp_connections p) (map snd (H @ [(t, i)]) @ map snd R) (cp_connectionCounter p)"
    using assms by (subst conns_perm [OF m]) (simp add: pool_inv_def)
  show ?thesis
    using assms ok conns_retake [OF ok, of i] r True
    by (auto simp: acquire_resumes_def R_def [symmetric] pool_inv_def in_use_def upd_connection_def length_jset Let_def split: option.split)
qed (simp add: acquire_resumes_def assms)

lemma release_inv:
  assumes "pool_inv cfg (p, H)" "(t, i) \<in> set H"
  shows "pool_inv cfg (pool_do cfg (PRelease now t i) (p, H))"
proof -
  let ?rest = "map snd (remove1 (t, i) H) @ map snd (cp_resuming p)"
  have ok: "conns_ok (cp_connections p) (i # ?rest) (cp_connectionCounter p)"
    using assms(1) by (subst conns_perm [of _ "in_use (p, H)"]) (auto simp: pool_inv_def in_use_def remove1_in_use [OF assms(2)])
  show ?thesis
  proof (cases "jget (cp_connections p) i")
    case None
    then show ?thesis
      using assms conns_drop [OF ok] by (simp add: cp_release_def pool_inv_def in_use_def)
  next
    case (Some c)
    have again: "conns_ok (jset i (cn_acquire now c) (cp_connections p)) (map snd (remove1 (t, i) H @ [(w, i)]) @ map snd (cp_resuming p))
        (cp_connectionCounter p)" for w :: nat
      using conns_retake [OF ok Some, of now] by (subst conns_perm [of _ "i # ?rest"]) auto
    show ?thesis
      using assms Some again conns_give [OF ok Some, of now]
      by (auto simp: cp_release_def pool_inv_def in_use_def upd_connection_def length_jset split: list.split)
  qed
qed

lemma destroy_held_inv:
  assumes "pool_inv cfg (p, H)" "(t, i) \<in> set H"
  shows "pool_inv cfg (pool_do cfg (PDestroy clk t i) (p, H))"
proof -
  let ?q = "cp_destroy cfg clk i p"
  have q: "pool_inv cfg (?q, H)" "cp_resuming ?q = cp_resuming p"
    using destroy_inv [OF assms(1)] by (auto simp: cp_destroy_def createConnection_def Let_def)
  have gone: "jget (cp_connections ?q) i = None"
    using destroy_gone [OF assms(1), of i] assms(2) by (force simp: in_use_def)
  have "conns_ok (cp_connections ?q) (i # map snd (remove1 (t, i) H) @ map snd (cp_resuming p)) (cp_connectionCounter ?q)"
    using q by (subst conns_perm [of _ "in_use (?q, H)"]) (auto simp: pool_inv_def in_use_def remove1_in_use [OF assms(2)])
  from conns_drop [OF this gone] show ?thesis
    using q by (simp add: pool_inv_def in_use_def)
qed

lemma new_pool_inv: "pool_inv cfg (new_pool cfg clk, [])"
proof -
  let ?e = "\<lparr>cp_connections = [], cp_waitingClients = [], cp_resuming = [], cp_nextTicket = 0, cp_connectionCounter = 0, cp_isShuttingDown = False,
      cp_totalAcquired = 0, cp_totalReleased = 0, cp_totalCreated = 0, cp_totalDestroyed = 0\<rparr>"
  let ?f = "\<lambda>n. fold (\<lambda>k p. snd (createConnection (\<lambda>n. clk (2 * k + n)) False p)) [0..<n] ?e"
  have "n \<le> po_minConnections cfg \<Longrightarrow> pool_inv cfg (?f n, []) \<and> length (cp_connections (?f n)) \<le> n" for n
  proof (induction n)
    case 0
    then show ?case
      by (simp add: pool_inv_def conns_ok_def in_use_def)
  next
    case (Suc n)
    define p where "p = ?f n"
    have p: "pool_inv cfg (p, [])" "length (cp_connections p) \<le> n"
      using Suc by (simp_all add: p_def)
    have "length (cp_connections p) < max (po_maxConnections cfg) (po_minConnections cfg)"
      using p(2) Suc.prems by (simp add: less_max_iff_disj)
    note c = create_idle_inv [OF p(1) this, of "\<lambda>k. clk (2 * n + k)"]
    have "?f (Suc n) = snd (createConnection (\<lambda>k. clk (2 * n + k)) False p)"
      by (simp add: p_def)
    moreover have "length (cp_connections (snd (createConnection (\<lambda>k. clk (2 * n + k)) False p))) \<le> Suc n"
      using p(2) by (simp add: createConnection_def length_jset Let_def)
    ultimately show ?case
      using c by (simp only:)
  qed
  then show ?thesis
    by (simp add: new_pool_def)
qed

lemma pool_step_inv:
  assumes "holders_only a s" "pool_inv cfg s"
  shows "pool_inv cfg (pool_do cfg a s)"
proof -
  obtain p H where s: "s = (p, H)"
    by fastforce
  show ?thesis
  proof (cases a)
    case (PTimeout t)
    then show ?thesis
      using assms(2) by (auto simp: s acquire_timeout_def pool_inv_def in_use_def length_remove1)
  next
    case (PClear elapsed)
    then show ?thesis
      using assms(2) by (auto simp: s clear_ends_def pool_inv_def in_use_def conns_ok_def)
  qed (use assms acquire_inv acquire_resumes_inv release_inv destroy_held_inv evict_inv in
    \<open>auto simp: s drain_begins_def pool_inv_def in_use_def simp del: pool_do.simps(1-3,5)\<close>)
qed

interpretation connection_pool: guarded_system holders_only "pool_do cfg" "pool_inv cfg"
  by unfold_locales (rule pool_step_inv)

section \<open>No client waits beside an idle connection\<close>

fun destroys_unawaited :: "pool_op \<Rightarrow> pool_system \<Rightarrow> bool" where
  "destroys_unawaited (PDestroy clk t i) (p, H) = ((t, i) \<in> set H \<and> cp_waitingClients p = [])"
| "destroys_unawaited a s = holders_only a s"

definition all_busy :: "conn_pool \<Rightarrow> bool" where
  "all_busy p = (\<forall>c \<in> set (jvalues (cp_connections p)). cn_state c = CnBusy)"

definition waiting_inv :: "pool_config \<Rightarrow> conn_pool \<Rightarrow> bool" where
  "waiting_inv cfg p \<longleftrightarrow> jwf (cp_connections p) \<and>
     (cp_waitingClients p \<noteq> [] \<longrightarrow> \<not> cp_isShuttingDown p \<and> po_maxConnections cfg \<le> length (cp_connections p) \<and> all_busy p)"

lemma all_busy_jget: "jwf (cp_connections p) \<Longrightarrow> all_busy p \<longleftrightarrow> (\<forall>i c. jget (cp_connections p) i = Some c \<longrightarrow> cn_state c = CnBusy)"
  by (auto simp: all_busy_def jvalues_jget)

lemma no_idle_found: "find (\<lambda>c. cn_state c = CnIdle \<and> cn_isHealthy c) (jvalues (cp_connections p)) = None \<longleftrightarrow>
    (\<forall>c \<in> set (jvalues (cp_connections p)). cn_state c \<noteq> CnIdle)"
  by (auto simp: find_None_iff cn_isHealthy_def)

lemma conns_states: "conns_ok m used k \<Longrightarrow> c \<in> set (jvalues m) \<Longrightarrow> cn_state c = CnBusy \<or> cn_state c = CnIdle"
  unfolding conns_ok_def by (metis jvalues_jget)

lemma acquire_waiting:
  assumes "pool_inv cfg (p, H)" "waiting_inv cfg p"
  shows "waiting_inv cfg (snd (cp_acquire cfg clk p))"
proof (cases "find (\<lambda>c. cn_state c = CnIdle \<and> cn_isHealthy c) (jvalues (cp_connections p))")
  case None
  have "all_busy p"
    using None assms(1) conns_states [of "cp_connections p"] unfolding no_idle_found by (auto simp: all_busy_def pool_inv_def)
  then show ?thesis
    using None assms(2) by (auto simp: cp_acquire_def waitForConnection_def createConnection_def waiting_inv_def all_busy_def Let_def)
next
  case (Some c)
  then have "cp_waitingClients p = []"
    using assms(2) by (auto simp: waiting_inv_def all_busy_def find_Some_iff dest!: bspec [OF _ nth_mem])
  then show ?thesis
    using Some assms(2) by (simp add: cp_acquire_def upd_connection_def waiting_inv_def Let_def split: option.split)
qed

lemma upd_connection_waiting:
  assumes "waiting_inv cfg p" "\<And>c. cn_state (f c) = CnBusy"
  shows "waiting_inv cfg (upd_connection i f p)"
  using assms by (auto simp: waiting_inv_def upd_connection_def all_busy_jget length_jset split: option.split)

lemma destroy_unawaited:
  "jwf (cp_connections p) \<Longrightarrow> cp_waitingClients p = [] \<Longrightarrow>
     jwf (cp_connections (cp_destroy cfg clk i p)) \<and> cp_waitingClients (cp_destroy cfg clk i p) = []"
  by (simp add: cp_destroy_def createConnection_def Let_def)

lemma destroys_unawaited_fold:
  "jwf (cp_connections p) \<Longrightarrow> cp_waitingClients p = [] \<Longrightarrow>
     jwf (cp_connections (fold (\<lambda>(k, c). cp_destroy cfg (f k) (cn_id c)) cs p)) \<and>
     cp_waitingClients (fold (\<lambda>(k, c). cp_destroy cfg (f k) (cn_id c)) cs p) = []"
  by (induction cs arbitrary: p) (auto simp: destroy_unawaited)

lemma evict_waiting:
  assumes "waiting_inv cfg p"
  shows "waiting_inv cfg (evictIdleConnections cfg clk p)"
proof (cases "cp_waitingClients p = []")
  case True
  then show ?thesis
    using assms by (simp add: waiting_inv_def evictIdleConnections_def destroys_unawaited_fold Let_def)
next
  case False
  then have "\<forall>c \<in> set (jvalues (cp_connections p)). cn_state c = CnBusy"
    using assms by (simp add: waiting_inv_def all_busy_def)
  then have "filter (\<lambda>(k, c). cn_isExpired (clk k) (po_idleTimeout cfg) c \<and> length (cp_connections p) > po_minConnections cfg)
      (enumerate 0 (jvalues (cp_connections p))) = []"
    by (auto simp: filter_empty_conv cn_isExpired_def in_set_enumerate_eq)
  then have "evictIdleConnections cfg clk p = p"
    by (simp add: evictIdleConnections_def Let_def)
  then show ?thesis
    using assms by simp
qed

lemma release_waiting:
  assumes "waiting_inv cfg p"
  shows "waiting_inv cfg (snd (cp_release now i p))"
proof (cases "cp_waitingClients p")
  case Nil
  then show ?thesis
    using assms by (auto simp: cp_release_def upd_connection_def waiting_inv_def split: option.split)
next
  case (Cons w ws)
  have "waiting_inv cfg (upd_connection i (cn_acquire now) p)"
    using assms by (rule upd_connection_waiting) (simp add: cn_acquire_def)
  then show ?thesis
    using assms Cons by (auto simp: cp_release_def waiting_inv_def all_busy_def upd_connection_def split: option.splits)
qed

lemma resume_waiting:
  assumes "waiting_inv cfg p"
  shows "waiting_inv cfg (snd (acquire_resumes now k p))"
proof -
  have "waiting_inv cfg (upd_connection i (cn_acquire now) (p\<lparr>cp_resuming := R\<rparr>))" for i R
    using assms by (intro upd_connection_waiting) (simp_all add: cn_acquire_def waiting_inv_def all_busy_def)
  then show ?thesis
    using assms by (auto simp: acquire_resumes_def waiting_inv_def all_busy_def split: prod.split)
qed

lemma pool_do_fst:
  "fst (pool_do cfg (PAcquire clk) (p, H)) = snd (cp_acquire cfg clk p)"
  "fst (pool_do cfg (PResume now k) (p, H)) = snd (acquire_resumes now k p)"
  "fst (pool_do cfg (PRelease now t i) (p, H)) = snd (cp_release now i p)"
  by (auto split: prod.split option.split sum.split)

lemma pool_step_waiting:
  assumes "destroys_unawaited a s" "pool_inv cfg s \<and> waiting_inv cfg (fst s)"
  shows "pool_inv cfg (pool_do cfg a s) \<and> waiting_inv cfg (fst (pool_do cfg a s))"
proof
  show "pool_inv cfg (pool_do cfg a s)"
    using assms by (intro pool_step_inv) (cases s; cases a; simp)+
  obtain p H where s: "s = (p, H)"
    by fastforce
  show "waiting_inv cfg (fst (pool_do cfg a s))"
    using assms acquire_waiting [of cfg p H] evict_waiting [of cfg p] release_waiting [of cfg p] resume_waiting [of cfg p]
    unfolding s by (cases a)
      (auto simp only: pool_do_fst fst_conv,
       auto simp: acquire_timeout_def drain_begins_def clear_ends_def destroy_unawaited waiting_inv_def all_busy_def)
qed

interpretation awaited_pool: guarded_system destroys_unawaited "pool_do cfg" "\<lambda>s. pool_inv cfg s \<and> waiting_inv cfg (fst s)"
  by unfold_locales (rule pool_step_waiting)

section \<open>The properties\<close>

text \<open>
  C12. After any run in which only holders release or destroy, no connection is held or reserved twice; a connection of the pool is busy when it
  is held or reserved and idle otherwise, under its own identifier; the pool has at most the larger of the two connection limits, and at most
  the allowed number of clients wait.
\<close>

theorem pool_exclusive:
  assumes "run_ok holders_only (pool_do cfg) acts (new_pool cfg clk, [])" "run (pool_do cfg) acts (new_pool cfg clk, []) = (p, H)"
  shows "distinct (map snd H @ map snd (cp_resuming p)) \<and>
    (\<forall>i c. jget (cp_connections p) i = Some c \<longrightarrow>
       cn_id c = i \<and> cn_state c = (if i \<in> snd ` set H \<union> snd ` set (cp_resuming p) then CnBusy else CnIdle)) \<and>
    length (cp_connections p) \<le> max (po_maxConnections cfg) (po_minConnections cfg) \<and>
    length (cp_waitingClients p) \<le> po_maxWaitingClients cfg"
proof -
  have "pool_inv cfg (p, H)"
    using connection_pool.guarded_run [OF assms(1) new_pool_inv] by (simp add: assms(2))
  then show ?thesis
    by (simp add: pool_inv_def conns_ok_def in_use_def)
qed

text \<open>
  C18. As long as nobody destroys a connection while clients wait, a client waits only when every connection is busy, the pool is as large as it
  may become and is not shutting down: no client waits beside an idle connection.
\<close>

theorem no_idle_wait:
  assumes "run_ok destroys_unawaited (pool_do cfg) acts (new_pool cfg clk, [])" "run (pool_do cfg) acts (new_pool cfg clk, []) = (p, H)"
    "cp_waitingClients p \<noteq> []"
  shows "idle_count p = 0 \<and> busy_count p = length (cp_connections p) \<and> po_maxConnections cfg \<le> length (cp_connections p) \<and>
    \<not> cp_isShuttingDown p"
proof -
  have "cp_waitingClients (fold (\<lambda>k p. snd (createConnection (c k) False p)) ks p) = cp_waitingClients p" for c and ks :: "nat list" and p
    by (induction ks arbitrary: p) (simp_all add: createConnection_def Let_def)
  then have "cp_waitingClients (new_pool cfg clk) = []"
    by (simp add: new_pool_def)
  then have "waiting_inv cfg (new_pool cfg clk)"
    using new_pool_inv [of cfg clk] by (simp add: waiting_inv_def pool_inv_def conns_ok_def)
  then have "waiting_inv cfg p"
    using awaited_pool.guarded_run [OF assms(1)] new_pool_inv [of cfg clk] by (simp add: assms(2))
  then show ?thesis
    using assms(3) by (auto simp: waiting_inv_def all_busy_def idle_count_def busy_count_def filter_empty_conv filter_id_conv jvalues_def)
qed

section \<open>Witnesses\<close>

definition w_pool_cfg :: pool_config where
  "w_pool_cfg = \<lparr>po_maxConnections = 1, po_minConnections = 1, po_idleTimeout = 100, po_maxWaitingClients = 5\<rparr>"

definition w_pool_run :: "pool_op list" where
  "w_pool_run = [PAcquire (\<lambda>_. 10), PAcquire (\<lambda>_. 11), PAcquire (\<lambda>_. 12), PRelease 13 0 ''conn-1-7'']"

lemma w_pool_result:
  "run_ok destroys_unawaited (pool_do w_pool_cfg) w_pool_run (new_pool w_pool_cfg (\<lambda>_. 7), [])"
  "run_ok holders_only (pool_do w_pool_cfg) w_pool_run (new_pool w_pool_cfg (\<lambda>_. 7), [])"
  "run (pool_do w_pool_cfg) w_pool_run (new_pool w_pool_cfg (\<lambda>_. 7), []) =
     (\<lparr>cp_connections = [(''conn-1-7'', \<lparr>cn_id = ''conn-1-7'', cn_state = CnBusy, cn_lastUsedAt = 13, cn_useCount = 2\<rparr>)],
       cp_waitingClients = [2], cp_resuming = [], cp_nextTicket = 3, cp_connectionCounter = 1, cp_isShuttingDown = False,
       cp_totalAcquired = 2, cp_totalReleased = 0, cp_totalCreated = 1, cp_totalDestroyed = 0\<rparr>, [(1, ''conn-1-7'')])"
  by code_simp+

theorem pool_exclusive_witness:
  "snd (run (pool_do w_pool_cfg) w_pool_run (new_pool w_pool_cfg (\<lambda>_. 7), [])) = [(1, ''conn-1-7'')] \<and>
   length (cp_connections (fst (run (pool_do w_pool_cfg) w_pool_run (new_pool w_pool_cfg (\<lambda>_. 7), [])))) \<le> 1"
  using pool_exclusive [OF w_pool_result(2,3)] unfolding w_pool_result(3) by (simp add: w_pool_cfg_def)

theorem no_idle_wait_witness:
  "cp_waitingClients (fst (run (pool_do w_pool_cfg) w_pool_run (new_pool w_pool_cfg (\<lambda>_. 7), []))) = [2] \<and>
   idle_count (fst (run (pool_do w_pool_cfg) w_pool_run (new_pool w_pool_cfg (\<lambda>_. 7), []))) = 0"
  using no_idle_wait [OF w_pool_result(1,3)] unfolding w_pool_result(3) by simp

section \<open>A destroyed connection under waiting clients\<close>

text \<open>
  \<open>destroy\<close> does not look at the waiting clients (connection-pool.ts:267): the client keeps waiting beside the idle replacement, and the next
  caller of \<open>acquire\<close> gets it first.
\<close>

lemma waits_beside_idle:
  "let (p, H) = run (pool_do w_pool_cfg) [PAcquire (\<lambda>_. 10), PAcquire (\<lambda>_. 11), PDestroy (\<lambda>_. 12) 0 ''conn-1-7''] (new_pool w_pool_cfg (\<lambda>_. 7), [])
   in cp_waitingClients p = [1] \<and> idle_count p = 1 \<and> fst (cp_acquire w_pool_cfg (\<lambda>_. 13) p) = Some (Inr ''conn-2-12'')"
  by code_simp

end
