(* ===== verification/Gossip.thy ===== *)
theory Gossip
  imports Raft "HOL-Library.Multiset"
begin

text \<open>
  Model of \<open>GossipConsensus\<close> of \<open>swarm/src/consensus/gossip.ts\<close>: one node with the peers it knows, its proposals, and the messages it
  queues and sends, over a transport or to the peer objects of the same process. Proposals, votes and their weights are those of \<open>Raft\<close>.
  A handler is split where it awaits: the sends of a round and the propagation of a received message are pending steps. Message types are the
  constructors of the payload; dates of messages are left out.
\<close>

section \<open>State\<close>

datatype 'v gossip_payload = ProposalPayload string 'v | VotePayload string consensus_vote | StatePayload "(string, 'v) jsmap" | AckPayload

record 'v gossip_message =
  gm_id :: string
  gm_senderId :: string
  gm_version :: int
  gm_payload :: "'v gossip_payload"
  gm_ttl :: int
  gm_hops :: int
  gm_path :: "string list"

text \<open>\<open>BoundedSet\<close>: the oldest value is evicted when the set is full.\<close>

definition bounded_add :: "nat \<Rightarrow> 'a \<Rightarrow> 'a list \<Rightarrow> 'a list" where
  "bounded_add maxSize x s = (if x \<in> set s then s else (if length s \<ge> maxSize then drop 1 s else s) @ [x])"

definition SEEN_LIMIT :: nat where
  "SEEN_LIMIT = 100000"

record 'v gossip_node =
  gn_id :: string
  gn_state :: "(string, 'v) jsmap"
  gn_version :: int
  gn_neighbors :: "string jsset"
  gn_seen :: "string list"

record gossip_config =
  gc_threshold :: rat
  gc_timeoutMs :: time
  gc_fanout :: nat
  gc_maxHops :: int
  gc_convergenceThreshold :: rat
  gc_transport :: bool

text \<open>Beside the fields of the class: the sends of rounds in progress, received messages to propagate, and what was sent.\<close>

record 'v gossip =
  go_node :: "'v gossip_node"
  go_nodes :: "(string, 'v gossip_node) jsmap"
  go_proposals :: "(string, 'v consensus_proposal) jsmap"
  go_messageQueue :: "'v gossip_message list"
  go_proposalCounter :: nat
  go_sending :: "(string \<times> 'v gossip_message) list"
  go_propagating :: "(string \<times> 'v gossip_message) list"
  go_sent :: "(string \<times> 'v gossip_message) list"

definition new_gossip_node :: "string \<Rightarrow> 'v gossip_node" where
  "new_gossip_node i = \<lparr>gn_id = i, gn_state = [], gn_version = 0, gn_neighbors = [], gn_seen = []\<rparr>"

definition new_gossip :: "string \<Rightarrow> 'v gossip" where
  "new_gossip i = \<lparr>go_node = new_gossip_node i, go_nodes = [], go_proposals = [], go_messageQueue = [], go_proposalCounter = 0, go_sending = [],
     go_propagating = [], go_sent = []\<rparr>"

definition upd_self :: "('v gossip_node \<Rightarrow> 'v gossip_node) \<Rightarrow> 'v gossip \<Rightarrow> 'v gossip" where
  "upd_self f s = s\<lparr>go_node := f (go_node s)\<rparr>"

definition upd_peer :: "string \<Rightarrow> ('v gossip_node \<Rightarrow> 'v gossip_node) \<Rightarrow> 'v gossip \<Rightarrow> 'v gossip" where
  "upd_peer n f s = (case jget (go_nodes s) n of None \<Rightarrow> s | Some x \<Rightarrow> s\<lparr>go_nodes := jset n (f x) (go_nodes s)\<rparr>)"

text \<open>A handler works on this node or on a peer object.\<close>

definition upd_target :: "string option \<Rightarrow> ('v gossip_node \<Rightarrow> 'v gossip_node) \<Rightarrow> 'v gossip \<Rightarrow> 'v gossip" where
  "upd_target w = (case w of None \<Rightarrow> upd_self | Some n \<Rightarrow> upd_peer n)"

definition target_id :: "string option \<Rightarrow> 'v gossip \<Rightarrow> string" where
  "target_id w s = (case w of None \<Rightarrow> gn_id (go_node s) | Some n \<Rightarrow> n)"

section \<open>Membership\<close>

definition go_addNode :: "string \<Rightarrow> bool \<Rightarrow> 'v gossip \<Rightarrow> 'v gossip" where
  "go_addNode n coin s =
     (let s1 = s\<lparr>go_nodes := jset n (new_gossip_node n) (go_nodes s)\<rparr>
      in if coin
         then upd_peer n (\<lambda>x. x\<lparr>gn_neighbors := sadd (gn_id (go_node s)) (gn_neighbors x)\<rparr>)
                (upd_self (\<lambda>x. x\<lparr>gn_neighbors := sadd n (gn_neighbors x)\<rparr>) s1)
         else s1)"

definition go_removeNode :: "string \<Rightarrow> 'v gossip \<Rightarrow> 'v gossip" where
  "go_removeNode n s =
     (let s1 = upd_self (\<lambda>x. x\<lparr>gn_neighbors := sdel n (gn_neighbors x)\<rparr>) (s\<lparr>go_nodes := jdel n (go_nodes s)\<rparr>)
      in s1\<lparr>go_nodes := map (\<lambda>(k, x). (k, x\<lparr>gn_neighbors := sdel n (gn_neighbors x)\<rparr>)) (go_nodes s1)\<rparr>)"

definition addNeighbor :: "string \<Rightarrow> 'v gossip \<Rightarrow> 'v gossip" where
  "addNeighbor n s = (if jget (go_nodes s) n \<noteq> None then upd_self (\<lambda>x. x\<lparr>gn_neighbors := sadd n (gn_neighbors x)\<rparr>) s else s)"

definition removeNeighbor :: "string \<Rightarrow> 'v gossip \<Rightarrow> 'v gossip" where
  "removeNeighbor n s = upd_self (\<lambda>x. x\<lparr>gn_neighbors := sdel n (gn_neighbors x)\<rparr>) s"

section \<open>Proposals and votes\<close>

definition queueMessage :: "'v gossip_message \<Rightarrow> 'v gossip \<Rightarrow> 'v gossip" where
  "queueMessage m s =
     (if gm_id m \<in> set (gn_seen (go_node s)) then s
      else (upd_self (\<lambda>x. x\<lparr>gn_seen := bounded_add SEEN_LIMIT (gm_id m) (gn_seen x)\<rparr>) s)\<lparr>go_messageQueue := go_messageQueue s @ [m]\<rparr>)"

definition own_gossip :: "gossip_config \<Rightarrow> string \<Rightarrow> 'v gossip_payload \<Rightarrow> 'v gossip \<Rightarrow> 'v gossip_message" where
  "own_gossip cfg i payload s =
     \<lparr>gm_id = i, gm_senderId = gn_id (go_node s), gm_version = gn_version (go_node s), gm_payload = payload, gm_ttl = gc_maxHops cfg, gm_hops = 0,
      gm_path = [gn_id (go_node s)]\<rparr>"

definition next_version :: "'v gossip \<Rightarrow> 'v gossip" where
  "next_version = upd_self (\<lambda>x. x\<lparr>gn_version := gn_version x + 1\<rparr>)"

definition go_total :: "'v gossip \<Rightarrow> nat" where
  "go_total s = length (go_nodes s) + 1"

definition converged :: "gossip_config \<Rightarrow> nat \<Rightarrow> 'v consensus_proposal \<Rightarrow> bool" where
  "converged cfg nodes p = (rat_of_nat (length (cp_votes p)) / rat_of_nat nodes \<ge> gc_convergenceThreshold cfg)"

definition approved :: "gossip_config \<Rightarrow> 'v consensus_proposal \<Rightarrow> bool" where
  "approved cfg p = (totalCastWeight p > 0 \<and> approvingWeight p / totalCastWeight p \<ge> gc_threshold cfg)"

definition checkConvergence :: "gossip_config \<Rightarrow> nat \<Rightarrow> 'v consensus_proposal \<Rightarrow> 'v consensus_proposal" where
  "checkConvergence cfg nodes p =
     (if cp_status p \<noteq> PPending then p
      else if converged cfg nodes p then p\<lparr>cp_status := (if approved cfg p then PAccepted else PRejected)\<rparr>
      else p)"

definition gossip_proposal_id :: "string \<Rightarrow> nat \<Rightarrow> string" where
  "gossip_proposal_id n k = ''gossip_'' @ n @ ''_'' @ show_radix 10 k"

definition go_propose :: "gossip_config \<Rightarrow> 'v \<Rightarrow> (string, rat) jsmap option \<Rightarrow> 'v gossip \<Rightarrow> 'v gossip" where
  "go_propose cfg value weights s =
     (let k = go_proposalCounter s + 1;
          self = gn_id (go_node s);
          i = gossip_proposal_id self k;
          p = \<lparr>cp_id = i, cp_value = value, cp_term = gn_version (go_node s), cp_votes = [(self, \<lparr>cv_voterId = self, cv_approve = True\<rparr>)],
               cp_status = PPending, cp_weights = weights\<rparr>;
          s1 = next_version (s\<lparr>go_proposalCounter := k, go_proposals := jset i p (go_proposals s)\<rparr>)
      in queueMessage (own_gossip cfg (''msg_'' @ i) (ProposalPayload i value) s1) s1)"

definition go_vote :: "gossip_config \<Rightarrow> string \<Rightarrow> consensus_vote \<Rightarrow> 'v gossip \<Rightarrow> 'v gossip" where
  "go_vote cfg i v s =
     (case jget (go_proposals s) i of
        None \<Rightarrow> s
      | Some p \<Rightarrow>
          let p1 = p\<lparr>cp_votes := jset (cv_voterId v) v (cp_votes p)\<rparr>;
              s1 = next_version s;
              s2 = queueMessage (own_gossip cfg (''vote_'' @ i @ ''_'' @ cv_voterId v) (VotePayload i v) s1) s1
          in s2\<lparr>go_proposals := jset i (checkConvergence cfg (go_total s) p1) (go_proposals s2)\<rparr>)"

text \<open>A tick of \<open>awaitConsensus\<close>; the answer is there when the promise is settled.\<close>

definition go_await_tick :: "gossip_config \<Rightarrow> time \<Rightarrow> time \<Rightarrow> string \<Rightarrow> 'v gossip \<Rightarrow> (string + proposal_status) option \<times> 'v gossip" where
  "go_await_tick cfg startTime now i s =
     (case jget (go_proposals s) i of
        None \<Rightarrow> (Some (Inl i), s)
      | Some p \<Rightarrow>
          if cp_status p \<noteq> PPending then (Some (Inr (cp_status p)), s)
          else
            let p1 = checkConvergence cfg (go_total s) p
            in if now - startTime > gc_timeoutMs cfg
               then let p2 = p1\<lparr>cp_status := (if converged cfg (go_total s) p1 then PAccepted else PExpired)\<rparr>
                    in (Some (Inr (cp_status p2)), s\<lparr>go_proposals := jset i p2 (go_proposals s)\<rparr>)
               else (None, s\<lparr>go_proposals := jset i p1 (go_proposals s)\<rparr>))"

section \<open>Receiving\<close>

definition handleProposalMessage :: "gossip_config \<Rightarrow> string option \<Rightarrow> 'v gossip_message \<Rightarrow> string \<Rightarrow> 'v \<Rightarrow> 'v gossip \<Rightarrow> 'v gossip" where
  "handleProposalMessage cfg w m i value s =
     (if jget (go_proposals s) i \<noteq> None then s
      else
        let p = \<lparr>cp_id = i, cp_value = value, cp_term = gm_version m, cp_votes = [], cp_status = PPending, cp_weights = None\<rparr>;
            s1 = s\<lparr>go_proposals := jset i p (go_proposals s)\<rparr>;
            self = gn_id (go_node s)
        in if target_id w s = self then go_vote cfg i \<lparr>cv_voterId = self, cv_approve = True\<rparr> s1 else s1)"

definition handleVoteMessage :: "gossip_config \<Rightarrow> string \<Rightarrow> consensus_vote \<Rightarrow> 'v gossip \<Rightarrow> 'v gossip" where
  "handleVoteMessage cfg i v s =
     (case jget (go_proposals s) i of
        None \<Rightarrow> s
      | Some p \<Rightarrow>
          if jget (cp_votes p) (cv_voterId v) \<noteq> None then s
          else s\<lparr>go_proposals :=
                   jset i (checkConvergence cfg (go_total s) (p\<lparr>cp_votes := jset (cv_voterId v) v (cp_votes p)\<rparr>)) (go_proposals s)\<rparr>)"

definition handleStateMessage :: "string option \<Rightarrow> 'v gossip_message \<Rightarrow> (string, 'v) jsmap \<Rightarrow> 'v gossip \<Rightarrow> 'v gossip" where
  "handleStateMessage w m entries =
     upd_target w (\<lambda>x. if gm_version m > gn_version x
                       then x\<lparr>gn_state := fold (\<lambda>(k, v). jset k v) entries (gn_state x), gn_version := gm_version m\<rparr> else x)"

definition processReceivedMessage :: "gossip_config \<Rightarrow> string option \<Rightarrow> 'v gossip_message \<Rightarrow> 'v gossip \<Rightarrow> 'v gossip" where
  "processReceivedMessage cfg w m s =
     (let s1 = upd_target w (\<lambda>x. x\<lparr>gn_seen := bounded_add SEEN_LIMIT (gm_id m) (gn_seen x)\<rparr>) s
      in if gm_ttl m \<le> 0 \<or> gm_hops m \<ge> gc_maxHops cfg then s1
         else
           let s2 = (case gm_payload m of
                       ProposalPayload i value \<Rightarrow> handleProposalMessage cfg w m i value s1
                     | VotePayload i v \<Rightarrow> handleVoteMessage cfg i v s1
                     | StatePayload entries \<Rightarrow> handleStateMessage w m entries s1
                     | AckPayload \<Rightarrow> s1)
           in s2\<lparr>go_propagating := go_propagating s2 @ [(target_id w s, m)]\<rparr>)"

text \<open>The rest of \<open>processReceivedMessage\<close> for the \<open>k\<close>-th message that waits for it.\<close>

definition propagate :: "gossip_config \<Rightarrow> nat \<Rightarrow> 'v gossip \<Rightarrow> 'v gossip" where
  "propagate cfg k s =
     (if k < length (go_propagating s)
      then
        let (n, m) = go_propagating s ! k;
            s1 = s\<lparr>go_propagating := take k (go_propagating s) @ drop (Suc k) (go_propagating s)\<rparr>
        in if gm_hops m < gc_maxHops cfg \<and> n = gn_id (go_node s) then queueMessage (m\<lparr>gm_ttl := gm_ttl m - 1\<rparr>) s1 else s1
      else s)"

definition handleInboundGossipMessage :: "gossip_config \<Rightarrow> string \<Rightarrow> string \<Rightarrow> 'v gossip_message option \<Rightarrow> 'v gossip \<Rightarrow> 'v gossip" where
  "handleInboundGossipMessage cfg ty sender payload s =
     (case payload of
        None \<Rightarrow> s
      | Some m \<Rightarrow>
          if \<not> gc_transport cfg \<or> ty \<noteq> ''gossip'' \<or> gm_id m \<in> set (gn_seen (go_node s)) then s
          else
            let s1 = (if jget (go_nodes s) sender = None then s\<lparr>go_nodes := jset sender (new_gossip_node sender) (go_nodes s)\<rparr> else s);
                s2 = upd_self (\<lambda>x. x\<lparr>gn_neighbors := sadd sender (gn_neighbors x)\<rparr>) s1
            in processReceivedMessage cfg None m s2)"

section \<open>Sending\<close>

definition sendToNeighbor :: "gossip_config \<Rightarrow> string \<Rightarrow> 'v gossip_message \<Rightarrow> 'v gossip \<Rightarrow> 'v gossip" where
  "sendToNeighbor cfg n m s =
     (let d = m\<lparr>gm_hops := gm_hops m + 1, gm_path := gm_path m @ [n]\<rparr>
      in if gc_transport cfg then s\<lparr>go_sent := go_sent s @ [(n, d)]\<rparr>
         else case jget (go_nodes s) n of
                None \<Rightarrow> s
              | Some x \<Rightarrow>
                  if gm_id m \<in> set (gn_seen x) then s
                  else (processReceivedMessage cfg (Some n) d s)\<lparr>go_sent := go_sent s @ [(n, d)]\<rparr>)"

text \<open>The random choices are given by \<open>draws\<close>.\<close>

fun selectRandomNeighbors :: "(nat \<Rightarrow> nat) \<Rightarrow> nat \<Rightarrow> string list \<Rightarrow> string list" where
  "selectRandomNeighbors draws 0 ns = []"
| "selectRandomNeighbors draws (Suc c) [] = []"
| "selectRandomNeighbors draws (Suc c) (x # xs) =
     (let ns = x # xs; idx = draws c mod length ns in ns ! idx # selectRandomNeighbors draws c (take idx ns @ drop (Suc idx) ns))"

definition gossipRound :: "gossip_config \<Rightarrow> (nat \<Rightarrow> nat) \<Rightarrow> 'v gossip \<Rightarrow> 'v gossip" where
  "gossipRound cfg draws s =
     (if go_messageQueue s = [] then s
      else
        let fanout = min (gc_fanout cfg) (length (gn_neighbors (go_node s)));
            neighbors = selectRandomNeighbors draws fanout (gn_neighbors (go_node s));
            messages = take 10 (go_messageQueue s)
        in s\<lparr>go_messageQueue := drop 10 (go_messageQueue s),
             go_sending := go_sending s @ concat (map (\<lambda>m. map (\<lambda>n. (n, m)) neighbors) messages)\<rparr>)"

text \<open>One of the pending sends of the rounds.\<close>

definition send_next :: "gossip_config \<Rightarrow> nat \<Rightarrow> 'v gossip \<Rightarrow> 'v gossip" where
  "send_next cfg k s =
     (if k < length (go_sending s)
      then
        let (n, m) = go_sending s ! k
        in sendToNeighbor cfg n m (s\<lparr>go_sending := take k (go_sending s) @ drop (Suc k) (go_sending s)\<rparr>)
      else s)"

definition antiEntropy :: "gossip_config \<Rightarrow> time \<Rightarrow> nat \<Rightarrow> 'v gossip \<Rightarrow> 'v gossip" where
  "antiEntropy cfg now draw s =
     (let ns = gn_neighbors (go_node s); self = gn_id (go_node s)
      in if ns = [] then s
         else sendToNeighbor cfg (ns ! (draw mod length ns))
                (own_gossip cfg (''state_'' @ self @ ''_'' @ show_radix 10 (nat now)) (StatePayload (gn_state (go_node s))) s\<lparr>gm_ttl := 1\<rparr>) s)"

definition getConvergence :: "string \<Rightarrow> 'v gossip \<Rightarrow> rat" where
  "getConvergence i s =
     (case jget (go_proposals s) i of None \<Rightarrow> 0 | Some p \<Rightarrow> rat_of_nat (length (cp_votes p)) / rat_of_nat (go_total s))"

section \<open>Runs\<close>

datatype 'v gossip_op = GAddNode string bool | GRemoveNode string | GAddNeighbor string | GRemoveNeighbor string
  | GPropose 'v "(string, rat) jsmap option" | GVote string consensus_vote | GAwait time time string
  | GInbound string string "'v gossip_message option" | GPropagate nat | GRound "nat \<Rightarrow> nat" | GSend nat | GAntiEntropy time nat

fun gossip_do :: "gossip_config \<Rightarrow> 'v gossip_op \<Rightarrow> 'v gossip \<Rightarrow> 'v gossip" where
  "gossip_do cfg (GAddNode n coin) s = go_addNode n coin s"
| "gossip_do cfg (GRemoveNode n) s = go_removeNode n s"
| "gossip_do cfg (GAddNeighbor n) s = addNeighbor n s"
| "gossip_do cfg (GRemoveNeighbor n) s = removeNeighbor n s"
| "gossip_do cfg (GPropose v ws) s = go_propose cfg v ws s"
| "gossip_do cfg (GVote i v) s = go_vote cfg i v s"
| "gossip_do cfg (GAwait t0 now i) s = snd (go_await_tick cfg t0 now i s)"
| "gossip_do cfg (GInbound ty sender m) s = handleInboundGossipMessage cfg ty sender m s"
| "gossip_do cfg (GPropagate k) s = propagate cfg k s"
| "gossip_do cfg (GRound draws) s = gossipRound cfg draws s"
| "gossip_do cfg (GSend k) s = send_next cfg k s"
| "gossip_do cfg (GAntiEntropy now draw) s = antiEntropy cfg now draw s"

section \<open>Decisions\<close>

text \<open>A node does not number a proposal like one that it has received, and the ticks after the timeout.\<close>

fun fresh_proposal :: "'v gossip_op \<Rightarrow> 'v gossip \<Rightarrow> bool" where
  "fresh_proposal (GPropose v ws) s = (jget (go_proposals s) (gossip_proposal_id (gn_id (go_node s)) (go_proposalCounter s + 1)) = None)"
| "fresh_proposal _ s = True"

fun late_tick :: "gossip_config \<Rightarrow> 'v gossip_op \<Rightarrow> bool" where
  "late_tick cfg (GAwait t0 now i) = (now - t0 > gc_timeoutMs cfg)"
| "late_tick cfg _ = False"

definition justified :: "gossip_config \<Rightarrow> bool \<Rightarrow> nat \<Rightarrow> 'v consensus_proposal \<Rightarrow> bool" where
  "justified cfg late nodes p =
     (case cp_status p of
        PPending \<Rightarrow> True
      | PAccepted \<Rightarrow> converged cfg nodes p \<and> (approved cfg p \<or> late)
      | PRejected \<Rightarrow> converged cfg nodes p \<and> \<not> approved cfg p
      | PExpired \<Rightarrow> late \<and> \<not> converged cfg nodes p)"

definition undecided :: "string \<Rightarrow> 'v gossip \<Rightarrow> bool" where
  "undecided i s = (case jget (go_proposals s) i of None \<Rightarrow> True | Some p \<Rightarrow> cp_status p = PPending)"

definition lawful :: "gossip_config \<Rightarrow> bool \<Rightarrow> 'v gossip \<Rightarrow> 'v gossip \<Rightarrow> bool" where
  "lawful cfg late s s' \<longleftrightarrow>
     (\<forall>i p. jget (go_proposals s) i = Some p \<longrightarrow>
        (\<exists>p'. jget (go_proposals s') i = Some p' \<and> (cp_status p \<noteq> PPending \<longrightarrow> cp_status p' = cp_status p))) \<and>
     (\<forall>i p'. jget (go_proposals s') i = Some p' \<longrightarrow> undecided i s \<longrightarrow> justified cfg late (go_total s') p')"

lemma lawful_same: "go_proposals s' = go_proposals s \<Longrightarrow> lawful cfg late s s'"
  by (auto simp: lawful_def undecided_def justified_def)

lemma lawful_upd:
  assumes "\<And>j. j \<noteq> i \<Longrightarrow> jget (go_proposals s') j = jget (go_proposals s) j" "jget (go_proposals s') i = Some p'"
    "\<And>p. jget (go_proposals s) i = Some p \<Longrightarrow> cp_status p \<noteq> PPending \<Longrightarrow> cp_status p' = cp_status p"
    "undecided i s \<Longrightarrow> justified cfg late (go_total s') p'"
  shows "lawful cfg late s s'"
proof -
  have "justified cfg late (go_total s') p" if "jget (go_proposals s') j = Some p" "undecided j s" for j p
    using that assms(1) [of j] assms(2,4) by (cases "j = i") (auto simp: undecided_def justified_def)
  moreover have "\<exists>p'. jget (go_proposals s') j = Some p' \<and> (cp_status p \<noteq> PPending \<longrightarrow> cp_status p' = cp_status p)"
    if "jget (go_proposals s) j = Some p" for j p
    using that assms(1) [of j] assms(2,3) by (cases "j = i") auto
  ultimately show ?thesis
    unfolding lawful_def by blast
qed

lemma status_irrelevant [simp]:
  "converged cfg n (p\<lparr>cp_status := x\<rparr>) = converged cfg n p" "approved cfg (p\<lparr>cp_status := x\<rparr>) = approved cfg p"
  by (simp_all add: converged_def approved_def approvingWeight_def totalCastWeight_def voteWeight_def)

lemma checkConvergence_justified: "cp_status p = PPending \<Longrightarrow> justified cfg late n (checkConvergence cfg n p)"
  by (simp add: checkConvergence_def justified_def)

lemma checkConvergence_decided: "cp_status p \<noteq> PPending \<Longrightarrow> checkConvergence cfg n p = p"
  by (simp add: checkConvergence_def)

lemma gossip_frame [simp]:
  "go_proposals (upd_self f s) = go_proposals s" "go_nodes (upd_self f s) = go_nodes s"
  "go_proposals (upd_peer n f s) = go_proposals s"
  "go_proposals (upd_target w f s) = go_proposals s"
  "go_proposals (next_version s) = go_proposals s" "go_nodes (next_version s) = go_nodes s"
  "go_proposals (queueMessage m s) = go_proposals s" "go_nodes (queueMessage m s) = go_nodes s"
  "go_proposals (handleStateMessage w m entries s) = go_proposals s"
  by (auto simp: upd_self_def upd_peer_def upd_target_def next_version_def queueMessage_def handleStateMessage_def split: option.split)

lemma vote_lawful:
  assumes "\<And>j. j \<noteq> i \<Longrightarrow> jget (go_proposals s) j = jget (go_proposals s0) j"
    "go_proposals s = go_proposals s0 \<or> undecided i s0 \<and> undecided i s \<and> jget (go_proposals s) i \<noteq> None"
  shows "lawful cfg late s0 (go_vote cfg i v s)"
proof (cases "jget (go_proposals s) i")
  case None
  then show ?thesis
    using assms(2) by (auto simp: go_vote_def intro: lawful_same)
next
  case (Some p)
  let ?p = "p\<lparr>cp_votes := jset (cv_voterId v) v (cp_votes p)\<rparr>"
  have after: "go_proposals (go_vote cfg i v s) = jset i (checkConvergence cfg (go_total s) ?p) (go_proposals s)"
    "go_total (go_vote cfg i v s) = go_total s"
    using Some by (simp_all add: go_vote_def go_total_def Let_def)
  show ?thesis
  proof (rule lawful_upd [of i])
    show "jget (go_proposals (go_vote cfg i v s)) j = jget (go_proposals s0) j" if "j \<noteq> i" for j
      using that assms(1) by (simp add: after)
    show "jget (go_proposals (go_vote cfg i v s)) i = Some (checkConvergence cfg (go_total s) ?p)"
      by (simp add: after)
    show "cp_status (checkConvergence cfg (go_total s) ?p) = cp_status q" if "jget (go_proposals s0) i = Some q" "cp_status q \<noteq> PPending" for q
      using that assms(2) Some by (auto simp: undecided_def checkConvergence_decided)
    show "justified cfg late (go_total (go_vote cfg i v s)) (checkConvergence cfg (go_total s) ?p)" if "undecided i s0"
      using that assms(2) Some by (auto simp: after undecided_def intro: checkConvergence_justified)
  qed
qed

lemma proposal_lawful: "lawful cfg late s (handleProposalMessage cfg w m i value s)"
proof (cases "jget (go_proposals s) i")
  case None
  have "lawful cfg late s (go_vote cfg i v (s\<lparr>go_proposals := jset i p (go_proposals s)\<rparr>))" if "cp_status p = PPending" for v p
    using that None by (intro vote_lawful) (auto simp: undecided_def)
  moreover have "lawful cfg late s (s\<lparr>go_proposals := jset i p (go_proposals s)\<rparr>)" if "cp_status p = PPending" for p
    using that None by (intro lawful_upd [of i]) (auto simp: justified_def)
  ultimately show ?thesis
    using None by (simp add: handleProposalMessage_def Let_def)
qed (simp add: handleProposalMessage_def lawful_same)

lemma vote_message_lawful: "lawful cfg late s (handleVoteMessage cfg i v s)"
proof (cases "\<exists>p. jget (go_proposals s) i = Some p \<and> jget (cp_votes p) (cv_voterId v) = None")
  case True
  then obtain p where p: "jget (go_proposals s) i = Some p" "jget (cp_votes p) (cv_voterId v) = None"
    by blast
  let ?p = "checkConvergence cfg (go_total s) (p\<lparr>cp_votes := jset (cv_voterId v) v (cp_votes p)\<rparr>)"
  have after: "handleVoteMessage cfg i v s = s\<lparr>go_proposals := jset i ?p (go_proposals s)\<rparr>"
    using p by (simp add: handleVoteMessage_def)
  show ?thesis
    unfolding after using p
    by (intro lawful_upd [of i _ _ ?p]) (auto simp: undecided_def checkConvergence_decided go_total_def intro!: checkConvergence_justified)
qed (auto simp: handleVoteMessage_def lawful_same split: option.split)

lemma lawful_cong: "go_proposals s1 = go_proposals s \<Longrightarrow> go_proposals s2' = go_proposals s2 \<Longrightarrow> go_nodes s2' = go_nodes s2 \<Longrightarrow> lawful cfg late s1 s2 \<Longrightarrow> lawful cfg late s s2'"
  by (simp add: lawful_def undecided_def go_total_def)

lemma receive_lawful: "lawful cfg late s (processReceivedMessage cfg w m s)"
proof -
  define s1 where "s1 = upd_target w (\<lambda>x. x\<lparr>gn_seen := bounded_add SEEN_LIMIT (gm_id m) (gn_seen x)\<rparr>) s"
  have "lawful cfg late s (s2\<lparr>go_propagating := R\<rparr>)" if "lawful cfg late s1 s2" for s2 R
    by (rule lawful_cong [OF _ _ _ that]) (simp_all add: s1_def)
  then show ?thesis
    by (auto simp: processReceivedMessage_def s1_def [symmetric] proposal_lawful vote_message_lawful Let_def split: gossip_payload.split)
       (auto simp: s1_def intro: lawful_same)
qed

lemma send_lawful: "lawful cfg late s (sendToNeighbor cfg n m s)"
proof -
  have "lawful cfg late s ((processReceivedMessage cfg (Some n) d s)\<lparr>go_sent := S\<rparr>)" for d S
    by (rule lawful_cong [OF _ _ _ receive_lawful [of _ _ s]]) simp_all
  then show ?thesis
    by (auto simp: sendToNeighbor_def Let_def intro: lawful_same split: option.split)
qed

lemma await_lawful: "lawful cfg (now - t0 > gc_timeoutMs cfg) s (snd (go_await_tick cfg t0 now i s))"
proof (cases "\<exists>p. jget (go_proposals s) i = Some p \<and> cp_status p = PPending")
  case True
  then obtain p where p: "jget (go_proposals s) i = Some p" "cp_status p = PPending"
    by blast
  have "converged cfg n (checkConvergence cfg n p) = converged cfg n p" for n
    by (simp add: checkConvergence_def)
  then show ?thesis
    using p checkConvergence_justified [OF p(2), of cfg _ "go_total s"]
    by (intro lawful_upd [of i "snd (go_await_tick cfg t0 now i s)" s
          "if now - t0 > gc_timeoutMs cfg then (checkConvergence cfg (go_total s) p)\<lparr>cp_status := (if converged cfg (go_total s) p then PAccepted else PExpired)\<rparr>
           else checkConvergence cfg (go_total s) p"])
      (auto simp: go_await_tick_def go_total_def undecided_def Let_def, auto simp: justified_def)
qed (auto simp: go_await_tick_def lawful_same split: option.split)

lemma propose_lawful:
  assumes "jget (go_proposals s) (gossip_proposal_id (gn_id (go_node s)) (go_proposalCounter s + 1)) = None"
  shows "lawful cfg late s (go_propose cfg v ws s)"
  using assms
  by (intro lawful_upd [of "gossip_proposal_id (gn_id (go_node s)) (Suc (go_proposalCounter s))"]) (auto simp: go_propose_def Let_def justified_def)

lemma inbound_lawful: "lawful cfg late s (handleInboundGossipMessage cfg ty sender payload s)"
proof -
  have "lawful cfg late s (processReceivedMessage cfg None m s2)" if "go_proposals s2 = go_proposals s" for m s2
    by (rule lawful_cong [OF that _ _ receive_lawful]) simp_all
  then show ?thesis
    by (auto simp: handleInboundGossipMessage_def Let_def intro: lawful_same split: option.split)
qed

lemma step_lawful:
  assumes "fresh_proposal a s"
  shows "lawful cfg (late_tick cfg a) s (gossip_do cfg a s)"
proof (cases a)
  case (GSend k)
  have "lawful cfg False s (sendToNeighbor cfg n m (s\<lparr>go_sending := R\<rparr>))" for n m R
    by (rule lawful_cong [OF _ _ _ send_lawful]) simp_all
  then show ?thesis
    by (auto simp: GSend send_next_def lawful_same split: prod.split)
next
  case (GAntiEntropy now draw)
  then show ?thesis
    by (simp add: antiEntropy_def send_lawful lawful_same Let_def)
qed (use assms vote_lawful [of _ s s] in
  \<open>auto simp: await_lawful propose_lawful inbound_lawful go_addNode_def go_removeNode_def addNeighbor_def removeNeighbor_def propagate_def
     gossipRound_def Let_def split: prod.split intro: lawful_same\<close>)

definition decided_as :: "string \<Rightarrow> proposal_status \<Rightarrow> 'v gossip \<Rightarrow> bool" where
  "decided_as i st s \<longleftrightarrow> st \<noteq> PPending \<and> (\<exists>p. jget (go_proposals s) i = Some p \<and> cp_status p = st)"

interpretation gossip_decided: guarded_system fresh_proposal "gossip_do cfg" "decided_as i st" for cfg i st
proof
  fix a and s :: "'v gossip"
  assume "fresh_proposal a s" "decided_as i st s"
  then show "decided_as i st (gossip_do cfg a s)"
    using step_lawful [of a s cfg] unfolding lawful_def decided_as_def by metis
qed

text \<open>
  C27. A node decides a proposal only as its votes say, and for good. When a step decides it, at least the required share of the nodes has voted,
  unless it expires at a tick after its timeout; it is rejected only when the approving share of the weight is too small, and accepted only when
  it is large enough or at a tick after the timeout. Afterwards the status never changes. Own proposals have new identifiers.
\<close>

theorem gossip_decisions:
  assumes "run_ok fresh_proposal (gossip_do cfg) (acts @ a # later) (new_gossip n)"
    "run (gossip_do cfg) acts (new_gossip n) = s" "undecided i s"
    "jget (go_proposals (gossip_do cfg a s)) i = Some p" "cp_status p \<noteq> PPending"
  shows "(case cp_status p of
            PAccepted \<Rightarrow> converged cfg (go_total (gossip_do cfg a s)) p \<and> (approved cfg p \<or> late_tick cfg a)
          | PRejected \<Rightarrow> converged cfg (go_total (gossip_do cfg a s)) p \<and> \<not> approved cfg p
          | _ \<Rightarrow> late_tick cfg a \<and> \<not> converged cfg (go_total (gossip_do cfg a s)) p) \<and>
    (\<exists>p'. jget (go_proposals (run (gossip_do cfg) later (gossip_do cfg a s))) i = Some p' \<and> cp_status p' = cp_status p)"
proof
  have ok: "fresh_proposal a s" "run_ok fresh_proposal (gossip_do cfg) later (gossip_do cfg a s)"
    using assms(1,2) by (auto simp: run_ok_append)
  have "justified cfg (late_tick cfg a) (go_total (gossip_do cfg a s)) p"
    using step_lawful [OF ok(1), of cfg] assms(3,4) unfolding lawful_def by blast
  then show "case cp_status p of
            PAccepted \<Rightarrow> converged cfg (go_total (gossip_do cfg a s)) p \<and> (approved cfg p \<or> late_tick cfg a)
          | PRejected \<Rightarrow> converged cfg (go_total (gossip_do cfg a s)) p \<and> \<not> approved cfg p
          | _ \<Rightarrow> late_tick cfg a \<and> \<not> converged cfg (go_total (gossip_do cfg a s)) p"
    using assms(5) by (simp add: justified_def split: proposal_status.splits)
  have "decided_as i (cp_status p) (gossip_do cfg a s)"
    using assms(4,5) by (simp add: decided_as_def)
  from gossip_decided.guarded_run [OF ok(2) this]
  show "\<exists>p'. jget (go_proposals (run (gossip_do cfg) later (gossip_do cfg a s))) i = Some p' \<and> cp_status p' = cp_status p"
    by (simp add: decided_as_def)
qed

section \<open>What is sent\<close>

definition is_state :: "'v gossip_message \<Rightarrow> bool" where
  "is_state m = (case gm_payload m of StatePayload _ \<Rightarrow> True | _ \<Rightarrow> False)"

definition fresh_message :: "string \<Rightarrow> 'v gossip_message \<Rightarrow> bool" where
  "fresh_message self m \<longleftrightarrow> gm_senderId m = self \<and> gm_hops m = 0 \<and> gm_path m = [self]"

definition first_hop :: "string \<Rightarrow> string \<Rightarrow> 'v gossip_message \<Rightarrow> bool" where
  "first_hop self n m \<longleftrightarrow> gm_senderId m = self \<and> gm_hops m = 1 \<and> gm_path m = [self, n]"

text \<open>The neighbours to which the message with an identifier goes; messages of \<open>antiEntropy\<close> do not count.\<close>

definition sent_to :: "string \<Rightarrow> (string \<times> 'v gossip_message) list \<Rightarrow> string list" where
  "sent_to i xs = map fst (filter (\<lambda>(n, m). gm_id m = i \<and> \<not> is_state m) xs)"

text \<open>Queued, pending and sent messages, given the identifiers that were seen.\<close>

definition net_ok :: "string \<Rightarrow> nat \<Rightarrow> string set \<Rightarrow> 'v gossip_message list \<Rightarrow> (string \<times> 'v gossip_message) list \<Rightarrow>
    (string \<times> 'v gossip_message) list \<Rightarrow> bool" where
  "net_ok self fanout seen queue sending sent \<longleftrightarrow>
     (\<forall>m \<in> set queue. fresh_message self m \<and> \<not> is_state m \<and> gm_id m \<in> seen \<and> sent_to (gm_id m) (sending @ sent) = []) \<and>
     distinct (map gm_id queue) \<and>
     (\<forall>(n, m) \<in> set sending. fresh_message self m \<and> (is_state m \<or> gm_id m \<in> seen)) \<and>
     (\<forall>(n, m) \<in> set sent. first_hop self n m \<and> (is_state m \<or> gm_id m \<in> seen)) \<and>
     (\<forall>i. distinct (sent_to i (sending @ sent)) \<and> length (sent_to i (sending @ sent)) \<le> fanout)"

lemma sent_to_append [simp]: "sent_to i (xs @ ys) = sent_to i xs @ sent_to i ys" "sent_to i [] = []"
  "sent_to i ((n, m) # xs) = (if gm_id m = i \<and> \<not> is_state m then [n] else []) @ sent_to i xs"
  by (simp_all add: sent_to_def)

lemma mset_eq_lists: "mset xs = mset ys \<Longrightarrow> length xs = length ys \<and> distinct xs = distinct ys \<and> (xs = [] \<longleftrightarrow> ys = [])"
  by (metis mset_eq_length mset_eq_imp_distinct_iff length_0_conv)

lemma sent_to_mset: "mset xs = mset ys \<Longrightarrow> mset (sent_to i xs) = mset (sent_to i ys)"
  by (simp add: sent_to_def)

lemma sent_to_empty: "(\<forall>(n, m) \<in> set xs. is_state m \<or> gm_id m \<in> seen) \<Longrightarrow> i \<notin> seen \<Longrightarrow> sent_to i xs = []"
  by (auto simp: sent_to_def filter_empty_conv)

lemma net_mono: "net_ok self f seen q xs ys \<Longrightarrow> seen \<subseteq> seen' \<Longrightarrow> net_ok self f seen' q xs ys"
  unfolding net_ok_def by fast

lemma net_queue:
  assumes "net_ok self f seen q xs ys" "fresh_message self m" "\<not> is_state m" "gm_id m \<notin> seen"
  shows "net_ok self f (insert (gm_id m) seen) (q @ [m]) xs ys"
proof -
  have "sent_to (gm_id m) (xs @ ys) = []"
    using assms(1,4) by (intro sent_to_empty [of _ seen]) (auto simp: net_ok_def)
  then show ?thesis
    using assms unfolding net_ok_def by auto
qed

lemma net_perm:
  assumes "net_ok self f seen q xs ys" "mset xs' = mset xs"
  shows "net_ok self f seen q xs' ys"
proof -
  have m: "mset (sent_to i (xs' @ ys)) = mset (sent_to i (xs @ ys))" for i
    using assms(2) by (intro sent_to_mset) simp
  have "set xs' = set xs" "length (sent_to i (xs' @ ys)) = length (sent_to i (xs @ ys))"
    "distinct (sent_to i (xs' @ ys)) = distinct (sent_to i (xs @ ys))"
    "sent_to i (xs' @ ys) = [] \<longleftrightarrow> sent_to i (xs @ ys) = []" for i
    using mset_eq_setD [OF assms(2)] mset_eq_lists [OF m [of i]] by simp_all
  then show ?thesis
    using assms(1) unfolding net_ok_def by (simp del: sent_to_append)
qed

lemma net_drop: "net_ok self f seen q ((n, m) # xs) ys \<Longrightarrow> net_ok self f seen q xs ys"
  unfolding net_ok_def by (auto split: if_splits) (metis Suc_leD)+

lemma net_send:
  assumes "net_ok self f seen q ((n, m) # xs) ys" "d = m\<lparr>gm_hops := gm_hops m + 1, gm_path := gm_path m @ [n]\<rparr>"
  shows "net_ok self f seen q xs (ys @ [(n, d)])"
proof -
  have m: "fresh_message self m" "is_state m \<or> gm_id m \<in> seen" "is_state d = is_state m" "gm_id d = gm_id m"
    using assms by (auto simp: net_ok_def is_state_def)
  have d: "first_hop self n d"
    using m(1) assms(2) by (simp add: fresh_message_def first_hop_def)
  have r: "mset (sent_to i (xs @ ys @ [(n, d)])) = mset (sent_to i (((n, m) # xs) @ ys))" for i
    using m(3,4) by simp
  have "length (sent_to i (xs @ ys @ [(n, d)])) = length (sent_to i (((n, m) # xs) @ ys))"
    "distinct (sent_to i (xs @ ys @ [(n, d)])) = distinct (sent_to i (((n, m) # xs) @ ys))"
    "sent_to i (xs @ ys @ [(n, d)]) = [] \<longleftrightarrow> sent_to i (((n, m) # xs) @ ys) = []" for i
    using mset_eq_lists [OF r [of i]] by simp_all
  then show ?thesis
    using assms(1) m d unfolding net_ok_def by (simp del: sent_to_append)
qed

lemma net_state: "net_ok self f seen q xs ys \<Longrightarrow> fresh_message self m \<Longrightarrow> is_state m \<Longrightarrow> net_ok self f seen q ((n, m) # xs) ys"
  by (simp add: net_ok_def)

lemma sent_to_round:
  assumes "distinct (map gm_id ms)" "\<forall>m \<in> set ms. \<not> is_state m"
  shows "sent_to i (concat (map (\<lambda>m. map (\<lambda>n. (n, m)) ns) ms)) = (if i \<in> gm_id ` set ms then ns else [])"
  using assms
proof (induction ms)
  case (Cons m ms)
  have "sent_to i (map (\<lambda>n. (n, m)) ns) = (if i = gm_id m then ns else [])"
    using Cons.prems(2) by (auto simp: sent_to_def filter_map comp_def)
  then show ?case
    using Cons by (auto)
qed simp

lemma net_round:
  assumes "net_ok self f seen (ms @ q) xs ys" "distinct ns" "length ns \<le> f"
  shows "net_ok self f seen q (xs @ concat (map (\<lambda>m. map (\<lambda>n. (n, m)) ns) ms)) ys"
proof -
  have d: "distinct (map gm_id ms)" "\<forall>m \<in> set ms. \<not> is_state m"
    "\<forall>m \<in> set ms \<union> set q. fresh_message self m \<and> gm_id m \<in> seen \<and> sent_to (gm_id m) (xs @ ys) = []"
    using assms(1) by (auto simp: net_ok_def)
  have new: "sent_to i (concat (map (\<lambda>m. map (\<lambda>n. (n, m)) ns) ms)) = (if i \<in> gm_id ` set ms then ns else [])" for i
    by (rule sent_to_round [OF d(1,2)])
  show ?thesis
    using assms d(3) unfolding net_ok_def by (auto simp: new)
qed

definition sends_inv :: "nat \<Rightarrow> string \<Rightarrow> 'v gossip \<Rightarrow> bool" where
  "sends_inv fanout self s \<longleftrightarrow> gn_id (go_node s) = self \<and> jget (go_nodes s) self = None \<and> distinct (gn_neighbors (go_node s)) \<and>
     net_ok self fanout (set (gn_seen (go_node s))) (go_messageQueue s) (go_sending s) (go_sent s) \<and>
     (\<forall>(n, m) \<in> set (go_propagating s). n = self \<longrightarrow> gm_id m \<in> set (gn_seen (go_node s)))"

text \<open>The set of seen messages has room, and the node is not its own peer.\<close>

definition room :: "nat \<Rightarrow> 'v gossip \<Rightarrow> bool" where
  "room k s \<longleftrightarrow> length (gn_seen (go_node s)) + k \<le> SEEN_LIMIT"

fun gossip_ok :: "'v gossip_op \<Rightarrow> 'v gossip \<Rightarrow> bool" where
  "gossip_ok (GAddNode n coin) s = (room 2 s \<and> n \<noteq> gn_id (go_node s))"
| "gossip_ok (GInbound ty sender m) s = (room 2 s \<and> sender \<noteq> gn_id (go_node s))"
| "gossip_ok _ s = room 2 s"

lemma bounded_add_room: "length xs + k \<le> n \<Longrightarrow> 0 < k \<Longrightarrow> set (bounded_add n x xs) = insert x (set xs) \<and> length (bounded_add n x xs) + (k - 1) \<le> n"
  by (auto simp: bounded_add_def)

lemma queueMessage_inv:
  assumes "sends_inv f self s" "room 1 s" "fresh_message self m \<and> \<not> is_state m \<or> gm_id m \<in> set (gn_seen (go_node s))"
  shows "sends_inv f self (queueMessage m s)"
proof (cases "gm_id m \<in> set (gn_seen (go_node s))")
  case False
  have seen: "set (bounded_add SEEN_LIMIT (gm_id m) (gn_seen (go_node s))) = insert (gm_id m) (set (gn_seen (go_node s)))"
    using assms(2) bounded_add_room [of "gn_seen (go_node s)" 1] by (simp add: room_def)
  show ?thesis
    using assms(1,3) False net_queue [of self f "set (gn_seen (go_node s))" "go_messageQueue s" "go_sending s" "go_sent s" m]
    by (auto simp: sends_inv_def queueMessage_def upd_self_def seen)
qed (simp add: queueMessage_def assms(1))

lemma vote_inv:
  assumes "sends_inv f self s" "room 1 s"
  shows "sends_inv f self (go_vote cfg i v s)"
proof (cases "jget (go_proposals s) i")
  case (Some p)
  let ?s = "next_version s"
  have s: "sends_inv f self ?s" "room 1 ?s"
    using assms by (simp_all add: sends_inv_def next_version_def upd_self_def room_def)
  have "sends_inv f self (queueMessage (own_gossip cfg j (VotePayload i v) ?s) ?s)" for j
    using s by (intro queueMessage_inv) (auto simp: own_gossip_def fresh_message_def is_state_def sends_inv_def)
  then show ?thesis
    using Some by (simp add: go_vote_def sends_inv_def Let_def)
qed (simp add: go_vote_def assms(1))

lemma propose_inv:
  assumes "sends_inv f self s" "room 1 s"
  shows "sends_inv f self (go_propose cfg v ws s)"
proof -
  have "sends_inv f self (queueMessage (own_gossip cfg j (ProposalPayload i v) s1) s1)"
    if "s1 = next_version (s\<lparr>go_proposalCounter := k, go_proposals := P\<rparr>)" for i j s1 k P
    unfolding that using assms
    by (intro queueMessage_inv) (auto simp: own_gossip_def fresh_message_def is_state_def sends_inv_def room_def next_version_def upd_self_def)
  then show ?thesis
    by (simp add: go_propose_def Let_def)
qed

lemma vote_seen:
  assumes "room 1 s"
  shows "set (gn_seen (go_node s)) \<subseteq> set (gn_seen (go_node (go_vote cfg i v s)))"
proof -
  have "set (gn_seen (go_node s)) \<subseteq> set (bounded_add SEEN_LIMIT x (gn_seen (go_node s)))" for x
    using assms bounded_add_room [of "gn_seen (go_node s)" 1] by (auto simp: room_def)
  then show ?thesis
    by (simp add: go_vote_def queueMessage_def next_version_def upd_self_def Let_def split: option.split)
qed

lemma receive_inv:
  assumes "sends_inv f self s" "room 2 s"
  shows "sends_inv f self (processReceivedMessage cfg None m s)"
proof -
  define s1 where "s1 = upd_target None (\<lambda>x. x\<lparr>gn_seen := bounded_add SEEN_LIMIT (gm_id m) (gn_seen x)\<rparr>) s"
  note add = bounded_add_room [of "gn_seen (go_node s)" 2 SEEN_LIMIT "gm_id m"]
  have s1: "sends_inv f self s1" "room 1 s1" "gm_id m \<in> set (gn_seen (go_node s1))"
    using assms add by (auto simp: s1_def upd_target_def upd_self_def sends_inv_def room_def intro: net_mono)
  have store: "sends_inv f self (s1\<lparr>go_proposals := P\<rparr>)" "room 1 (s1\<lparr>go_proposals := P\<rparr>)" for P
    using s1 by (simp_all add: sends_inv_def room_def)
  have self: "gn_id (go_node s) = self"
    using assms(1) by (simp add: sends_inv_def)
  have fin: "sends_inv f self (s2\<lparr>go_propagating := go_propagating s2 @ [(target_id None s, m)]\<rparr>)"
    if "sends_inv f self s2" "gm_id m \<in> set (gn_seen (go_node s2))" for s2
    using that by (auto simp: sends_inv_def)
  have voted: "sends_inv f self (go_vote cfg i v (s1\<lparr>go_proposals := P\<rparr>))" "gm_id m \<in> set (gn_seen (go_node (go_vote cfg i v (s1\<lparr>go_proposals := P\<rparr>))))"
    for i v P
    using vote_inv [OF store] vote_seen [OF store(2), of P cfg i v] s1(3) by auto
  have p: "sends_inv f self (handleProposalMessage cfg None m i v s1) \<and> gm_id m \<in> set (gn_seen (go_node (handleProposalMessage cfg None m i v s1)))" for i v
    using s1 voted by (simp add: handleProposalMessage_def target_id_def Let_def)
  have v: "sends_inv f self (handleVoteMessage cfg i v s1) \<and> gm_id m \<in> set (gn_seen (go_node (handleVoteMessage cfg i v s1)))" for i v
    using s1 store by (simp add: handleVoteMessage_def split: option.split)
  have t: "sends_inv f self (handleStateMessage None m es s1) \<and> gm_id m \<in> set (gn_seen (go_node (handleStateMessage None m es s1)))" for es
    using s1 by (simp add: handleStateMessage_def upd_target_def upd_self_def sends_inv_def)
  show ?thesis
    using s1 p v t by (auto simp: processReceivedMessage_def s1_def [symmetric] Let_def intro!: fin split: gossip_payload.split)
qed

text \<open>What a peer object receives does not touch this node.\<close>

definition peer_frame :: "string \<Rightarrow> 'v gossip \<Rightarrow> 'v gossip \<Rightarrow> bool" where
  "peer_frame n s s' \<longleftrightarrow> go_node s' = go_node s \<and> go_messageQueue s' = go_messageQueue s \<and> go_sending s' = go_sending s \<and>
     (\<forall>k. jget (go_nodes s') k = None \<longleftrightarrow> jget (go_nodes s) k = None) \<and>
     (\<forall>x \<in> set (go_propagating s'). x \<in> set (go_propagating s) \<or> fst x = n)"

lemma peer_frame_trans: "peer_frame n s t \<Longrightarrow> peer_frame n t u \<Longrightarrow> peer_frame n s u"
  unfolding peer_frame_def by (metis (no_types, lifting))

lemma receive_peer_frame:
  assumes "n \<noteq> gn_id (go_node s)"
  shows "peer_frame n s (processReceivedMessage cfg (Some n) m s)"
proof -
  define s1 where "s1 = upd_target (Some n) (\<lambda>x. x\<lparr>gn_seen := bounded_add SEEN_LIMIT (gm_id m) (gn_seen x)\<rparr>) s"
  have peer: "peer_frame n t (upd_peer n g t)" for t :: "'a gossip" and g
    by (auto simp: upd_peer_def peer_frame_def split: option.split)
  then have s1: "peer_frame n s s1"
    by (simp add: s1_def upd_target_def)
  have p: "peer_frame n s (handleProposalMessage cfg (Some n) m i v s1)" for i v
    using s1 assms by (simp add: handleProposalMessage_def target_id_def peer_frame_def Let_def)
  have v: "peer_frame n s (handleVoteMessage cfg i v s1)" for i v
    using s1 by (simp add: handleVoteMessage_def peer_frame_def split: option.split)
  have t: "peer_frame n s (handleStateMessage (Some n) m es s1)" for es
    using peer_frame_trans [OF s1 peer] by (simp add: handleStateMessage_def upd_target_def)
  have "peer_frame n s (s2\<lparr>go_propagating := go_propagating s2 @ [(target_id (Some n) s, m)]\<rparr>)" if "peer_frame n s s2" for s2
    using that by (auto simp: peer_frame_def target_id_def)
  then show ?thesis
    using s1 p v t by (auto simp: processReceivedMessage_def s1_def [symmetric] Let_def split: gossip_payload.split)
qed

lemma send_inv:
  assumes "sends_inv f self (s\<lparr>go_sending := (n, m) # xs\<rparr>)"
  shows "sends_inv f self (sendToNeighbor cfg n m (s\<lparr>go_sending := xs\<rparr>))"
proof -
  define d where "d = m\<lparr>gm_hops := gm_hops m + 1, gm_path := gm_path m @ [n]\<rparr>"
  have net: "net_ok self f (set (gn_seen (go_node s))) (go_messageQueue s) xs (go_sent s @ [(n, d)])"
      "net_ok self f (set (gn_seen (go_node s))) (go_messageQueue s) xs (go_sent s)"
    using assms net_send [OF _ d_def] net_drop by (auto simp: sends_inv_def)
  show ?thesis
  proof (cases "gc_transport cfg \<or> jget (go_nodes s) n = None")
    case True
    then show ?thesis
      using assms net by (auto simp: sends_inv_def sendToNeighbor_def d_def [symmetric] Let_def)
  next
    case False
    then have "n \<noteq> self" "gn_id (go_node s) = self"
      using assms by (auto simp: sends_inv_def)
    then have fr: "peer_frame n (s\<lparr>go_sending := xs\<rparr>) (processReceivedMessage cfg (Some n) d (s\<lparr>go_sending := xs\<rparr>))"
      by (intro receive_peer_frame) simp
    have "sends_inv f self (s'\<lparr>go_sent := go_sent s @ [(n, d)]\<rparr>)" if "peer_frame n (s\<lparr>go_sending := xs\<rparr>) s'" for s'
      using assms net that \<open>n \<noteq> self\<close> by (auto simp: sends_inv_def peer_frame_def)
    from this [OF fr] show ?thesis
      using False assms net by (auto simp: sendToNeighbor_def d_def [symmetric] sends_inv_def Let_def split: option.split)
  qed
qed

lemma selectRandomNeighbors_ok:
  "distinct ns \<Longrightarrow> distinct (selectRandomNeighbors draws c ns) \<and> set (selectRandomNeighbors draws c ns) \<subseteq> set ns \<and>
     length (selectRandomNeighbors draws c ns) \<le> c"
proof (induction draws c ns rule: selectRandomNeighbors.induct)
  case (3 draws c x xs)
  define ns where "ns = x # xs"
  define idx where "idx = draws c mod length ns"
  have idx: "idx < length ns"
    by (simp add: idx_def ns_def)
  have d: "distinct (take idx ns @ ns ! idx # drop (Suc idx) ns)" "ns = take idx ns @ ns ! idx # drop (Suc idx) ns"
    using 3(2) id_take_nth_drop [OF idx] by (simp_all add: ns_def)
  have "selectRandomNeighbors draws (Suc c) ns = ns ! idx # selectRandomNeighbors draws c (take idx ns @ drop (Suc idx) ns)"
    by (simp add: ns_def idx_def Let_def)
  moreover have "set ns = insert (ns ! idx) (set (take idx ns @ drop (Suc idx) ns))"
    using arg_cong [OF d(2), of set] by simp
  ultimately show ?case
    using 3(1) [OF ns_def idx_def] d(1) unfolding ns_def [symmetric] by auto
qed simp_all

lemma remove_nth_mset: "k < length xs \<Longrightarrow> mset (xs ! k # take k xs @ drop (Suc k) xs) = mset xs"
  using arg_cong [OF id_take_nth_drop [of k xs], of mset] by simp

lemma sends_perm: "sends_inv f self s \<Longrightarrow> mset xs = mset (go_sending s) \<Longrightarrow> sends_inv f self (s\<lparr>go_sending := xs\<rparr>)"
  by (auto simp: sends_inv_def intro: net_perm)

lemma send_next_inv:
  assumes "sends_inv f self s"
  shows "sends_inv f self (send_next cfg k s)"
proof (cases "k < length (go_sending s)")
  case True
  obtain n m where x: "go_sending s ! k = (n, m)"
    by fastforce
  have "sends_inv f self (s\<lparr>go_sending := (n, m) # take k (go_sending s) @ drop (Suc k) (go_sending s)\<rparr>)"
    using remove_nth_mset [OF True] by (intro sends_perm assms) (simp add: x)
  from send_inv [OF this] show ?thesis
    by (simp add: send_next_def True x)
qed (simp add: send_next_def assms)

lemma antiEntropy_inv:
  assumes "sends_inv f self s"
  shows "sends_inv f self (antiEntropy cfg now draw s)"
proof -
  have "sends_inv f self (sendToNeighbor cfg n (own_gossip cfg i (StatePayload es) s\<lparr>gm_ttl := 1\<rparr>) (s\<lparr>go_sending := go_sending s\<rparr>))" for n i es
    using assms by (intro send_inv) (auto simp: sends_inv_def own_gossip_def fresh_message_def is_state_def intro!: net_state)
  then show ?thesis
    using assms by (simp add: antiEntropy_def Let_def)
qed

lemma round_inv:
  assumes "sends_inv (gc_fanout cfg) self s"
  shows "sends_inv (gc_fanout cfg) self (gossipRound cfg draws s)"
proof -
  let ?ns = "selectRandomNeighbors draws (min (gc_fanout cfg) (length (gn_neighbors (go_node s)))) (gn_neighbors (go_node s))"
  have "distinct ?ns" "length ?ns \<le> gc_fanout cfg"
    using selectRandomNeighbors_ok [of "gn_neighbors (go_node s)" draws "min (gc_fanout cfg) (length (gn_neighbors (go_node s)))"] assms
    by (auto simp: sends_inv_def)
  then show ?thesis
    using assms by (auto simp: gossipRound_def sends_inv_def Let_def intro!: net_round)
qed

lemma propagate_inv:
  assumes "sends_inv f self s" "room 1 s"
  shows "sends_inv f self (propagate cfg k s)"
proof (cases "k < length (go_propagating s)")
  case True
  obtain n m where x: "go_propagating s ! k = (n, m)"
    by fastforce
  let ?s1 = "s\<lparr>go_propagating := take k (go_propagating s) @ drop (Suc k) (go_propagating s)\<rparr>"
  have s1: "sends_inv f self ?s1" "room 1 ?s1"
    using assms by (auto simp: sends_inv_def room_def dest: in_set_takeD in_set_dropD)
  have "n = self \<Longrightarrow> gm_id m \<in> set (gn_seen (go_node s))"
    using assms(1) nth_mem [OF True] x by (auto simp: sends_inv_def)
  then have "n = self \<Longrightarrow> sends_inv f self (queueMessage (m\<lparr>gm_ttl := gm_ttl m - 1\<rparr>) ?s1)"
    using s1 by (intro queueMessage_inv) auto
  then show ?thesis
    using True x s1 assms(1) by (auto simp: propagate_def sends_inv_def [of f self s] Let_def)
qed (simp add: propagate_def assms(1))

lemma inbound_inv:
  assumes "sends_inv f self s" "room 2 s" "sender \<noteq> self"
  shows "sends_inv f self (handleInboundGossipMessage cfg ty sender payload s)"
proof -
  have "sends_inv f self (processReceivedMessage cfg None m (upd_self (\<lambda>x. x\<lparr>gn_neighbors := sadd sender (gn_neighbors x)\<rparr>) (s\<lparr>go_nodes := N\<rparr>)))"
    if "jget N self = None" for m N
    using that assms by (intro receive_inv) (simp_all add: sends_inv_def room_def upd_self_def)
  from this [of "go_nodes s"] this [of "jset sender (new_gossip_node sender) (go_nodes s)"]
  show ?thesis
    using assms by (auto simp: handleInboundGossipMessage_def sends_inv_def [of f self s] Let_def split: option.split)
qed

lemma jget_map_values: "jget (map (\<lambda>(k, x). (k, g x)) m) k = map_option g (jget m k)"
  by (induction m) auto

lemma gossip_step_inv:
  assumes "gossip_ok a s" "sends_inv (gc_fanout cfg) self s"
  shows "sends_inv (gc_fanout cfg) self (gossip_do cfg a s)"
proof -
  have self: "gn_id (go_node s) = self"
    using assms(2) by (simp add: sends_inv_def)
  have r: "room 2 s" "room 1 s"
    using assms(1) by (cases a; auto simp: room_def)+
  show ?thesis
  proof (cases a)
    case (GAddNode n coin)
    then show ?thesis
      using assms self by (auto simp: go_addNode_def upd_self_def upd_peer_def sends_inv_def Let_def)
  next
    case (GRemoveNode n)
    then show ?thesis
      using assms self by (auto simp: go_removeNode_def upd_self_def sends_inv_def jget_map_values Let_def)
  next
    case (GAwait t0 now i)
    then show ?thesis
      using assms by (simp add: go_await_tick_def sends_inv_def Let_def split: option.split)
  next
    case (GInbound ty sender m)
    then show ?thesis
      using assms self r by (simp add: inbound_inv)
  qed (use assms r in \<open>simp_all add: propose_inv vote_inv propagate_inv round_inv send_next_inv antiEntropy_inv\<close>,
    auto simp: addNeighbor_def removeNeighbor_def upd_self_def sends_inv_def)
qed

interpretation gossip_sends: guarded_system gossip_ok "gossip_do cfg" "sends_inv (gc_fanout cfg) self" for cfg self
  by unfold_locales (rule gossip_step_inv)

text \<open>
  C28. A node sends only messages it created itself, each on its first hop and to at most \<open>fanout\<close> different neighbours (messages of
  \<open>antiEntropy\<close> apart, which go to one neighbour each): no received message is ever passed on. This holds as long as the set of seen
  messages is not full and the node is not registered as its own peer.
\<close>

theorem gossip_sends_own:
  assumes "run_ok gossip_ok (gossip_do cfg) acts (new_gossip self)" "run (gossip_do cfg) acts (new_gossip self) = s"
  shows "(\<forall>(n, m) \<in> set (go_sent s). gm_senderId m = self \<and> gm_hops m = 1 \<and> gm_path m = [self, n]) \<and>
    (\<forall>i. distinct (sent_to i (go_sent s)) \<and> length (sent_to i (go_sent s)) \<le> gc_fanout cfg)"
proof -
  have "sends_inv (gc_fanout cfg) self (new_gossip self)"
    by (simp add: sends_inv_def new_gossip_def new_gossip_node_def net_ok_def)
  then have "sends_inv (gc_fanout cfg) self s"
    using gossip_sends.guarded_run [OF assms(1)] by (simp only: assms(2))
  then have inv: "net_ok self (gc_fanout cfg) (set (gn_seen (go_node s))) (go_messageQueue s) (go_sending s) (go_sent s)"
    by (simp add: sends_inv_def)
  have "length (sent_to i (go_sent s)) \<le> gc_fanout cfg" for i
  proof -
    have "length (sent_to i (go_sending s @ go_sent s)) \<le> gc_fanout cfg"
      using inv unfolding net_ok_def by blast
    then show ?thesis
      by simp
  qed
  then show ?thesis
    using inv by (auto simp: net_ok_def first_hop_def)
qed

section \<open>Witnesses\<close>

definition w_gossip_cfg :: gossip_config where
  "w_gossip_cfg = \<lparr>gc_threshold = 66/100, gc_timeoutMs = 1000, gc_fanout = 3, gc_maxHops = 10, gc_convergenceThreshold = 9/10, gc_transport = True\<rparr>"

definition w_vote_msg :: "nat gossip_message" where
  "w_vote_msg = \<lparr>gm_id = ''v'', gm_senderId = ''b'', gm_version = 1, gm_payload = VotePayload ''gossip_a_1'' \<lparr>cv_voterId = ''b'', cv_approve = True\<rparr>,
     gm_ttl = 10, gm_hops = 1, gm_path = [''b'', ''a'']\<rparr>"

definition w_gossip_start :: "nat gossip_op list" where
  "w_gossip_start = [GAddNode ''b'' True, GPropose 5 None, GRound (\<lambda>_. 0), GSend 0]"

lemma w_digit: "show_radix 10 (Suc 0) = ''1''"
  by code_simp

lemma w_cfg: "gc_threshold w_gossip_cfg = 66/100" "gc_timeoutMs w_gossip_cfg = 1000" "gc_fanout w_gossip_cfg = 3" "gc_maxHops w_gossip_cfg = 10"
  "gc_convergenceThreshold w_gossip_cfg = 9/10" "gc_transport w_gossip_cfg"
  by (simp_all add: w_gossip_cfg_def)

lemmas gossip_eval = new_gossip_def new_gossip_node_def go_addNode_def go_removeNode_def upd_self_def upd_peer_def upd_target_def target_id_def sadd_def sdel_def
  go_propose_def queueMessage_def own_gossip_def next_version_def go_total_def converged_def approved_def checkConvergence_def
  gossip_proposal_id_def go_vote_def go_await_tick_def handleProposalMessage_def handleVoteMessage_def processReceivedMessage_def
  propagate_def handleInboundGossipMessage_def sendToNeighbor_def gossipRound_def send_next_def bounded_add_def SEEN_LIMIT_def
  room_def undecided_def approvingWeight_def totalCastWeight_def voteWeight_def jvalues_def jdel_def w_digit w_cfg Let_def

lemma w_gossip_result:
  "run (gossip_do w_gossip_cfg) w_gossip_start (new_gossip ''a'') =
     \<lparr>go_node = \<lparr>gn_id = ''a'', gn_state = [], gn_version = 1, gn_neighbors = [''b''], gn_seen = [''msg_gossip_a_1'']\<rparr>,
      go_nodes = [(''b'', \<lparr>gn_id = ''b'', gn_state = [], gn_version = 0, gn_neighbors = [''a''], gn_seen = []\<rparr>)],
      go_proposals = [(''gossip_a_1'', \<lparr>cp_id = ''gossip_a_1'', cp_value = 5, cp_term = 0,
        cp_votes = [(''a'', \<lparr>cv_voterId = ''a'', cv_approve = True\<rparr>)], cp_status = PPending, cp_weights = None\<rparr>)],
      go_messageQueue = [], go_proposalCounter = 1, go_sending = [], go_propagating = [],
      go_sent = [(''b'', \<lparr>gm_id = ''msg_gossip_a_1'', gm_senderId = ''a'', gm_version = 1, gm_payload = ProposalPayload ''gossip_a_1'' 5, gm_ttl = 10,
        gm_hops = 1, gm_path = [''a'', ''b'']\<rparr>)]\<rparr>"
  "run_ok gossip_ok (gossip_do w_gossip_cfg) w_gossip_start (new_gossip ''a'')"
  "run_ok fresh_proposal (gossip_do w_gossip_cfg) w_gossip_start (new_gossip ''a'')"
  by (simp_all add: w_gossip_start_def gossip_eval)

theorem gossip_sends_own_witness:
  "length (go_sent (run (gossip_do w_gossip_cfg) w_gossip_start (new_gossip ''a''))) = 1 \<and>
   length (sent_to ''msg_gossip_a_1'' (go_sent (run (gossip_do w_gossip_cfg) w_gossip_start (new_gossip ''a'')))) \<le> 3"
  using gossip_sends_own [OF w_gossip_result(2) w_gossip_result(1)] unfolding w_gossip_result(1) by (simp add: w_cfg)

theorem gossip_decisions_witness:
  "\<exists>p. jget (go_proposals (run (gossip_do w_gossip_cfg) [GAwait 0 9000 ''gossip_a_1'']
      (gossip_do w_gossip_cfg (GInbound ''gossip'' ''b'' (Some w_vote_msg)) (run (gossip_do w_gossip_cfg) w_gossip_start (new_gossip ''a''))))) ''gossip_a_1'' = Some p \<and>
     cp_status p = PAccepted"
proof -
  let ?a = "GInbound ''gossip'' ''b'' (Some w_vote_msg)" and ?s = "run (gossip_do w_gossip_cfg) w_gossip_start (new_gossip ''a'')"
  let ?p = "\<lparr>cp_id = ''gossip_a_1'', cp_value = 5, cp_term = 0, cp_votes = [(''a'', \<lparr>cv_voterId = ''a'', cv_approve = True\<rparr>),
      (''b'', \<lparr>cv_voterId = ''b'', cv_approve = True\<rparr>)], cp_status = PAccepted, cp_weights = None\<rparr>"
  have ok: "run_ok fresh_proposal (gossip_do w_gossip_cfg) (w_gossip_start @ ?a # [GAwait 0 9000 ''gossip_a_1'']) (new_gossip ''a'')"
    using w_gossip_result(3) by (simp add: run_ok_append)
  have p: "jget (go_proposals (gossip_do w_gossip_cfg ?a ?s)) ''gossip_a_1'' = Some ?p"
    unfolding w_gossip_result(1) by (simp add: w_vote_msg_def gossip_eval)
  have u: "undecided ''gossip_a_1'' ?s"
    by (simp add: w_gossip_result(1) undecided_def)
  show ?thesis
    using gossip_decisions [OF ok refl u p] by simp
qed

section \<open>Flaws\<close>

text \<open>A proposal is received and voted for, but only the own vote is queued: the proposal is marked as seen before it is to be passed on (gossip.ts:397).\<close>

lemma received_proposal_not_forwarded:
  "map gm_id (go_messageQueue (run (gossip_do w_gossip_cfg)
     [GInbound ''gossip'' ''b'' (Some \<lparr>gm_id = ''m'', gm_senderId = ''b'', gm_version = 1, gm_payload = ProposalPayload ''q'' (7 :: nat), gm_ttl = 10,
        gm_hops = 1, gm_path = [''b'', ''a'']\<rparr>), GPropagate 0] (new_gossip ''a''))) = [''vote_q_a'']"
  by (simp add: gossip_eval)

text \<open>A round without neighbours takes the queued messages and sends them to nobody; they are marked as seen and never come back (gossip.ts:337).\<close>

lemma lonely_round_drops_messages:
  "let s = run (gossip_do w_gossip_cfg) [GPropose (5 :: nat) None, GRound (\<lambda>_. 0), GAddNode ''b'' True] (new_gossip ''a'')
   in go_messageQueue s = [] \<and> go_sending s = [] \<and> go_sent s = []"
  by (simp add: gossip_eval)

text \<open>At a tick after the timeout the convergence check rejects a proposal and the tick then accepts it (gossip.ts:305).\<close>

lemma rejected_proposal_accepted:
  "let s = run (gossip_do w_gossip_cfg) [GAddNode ''b'' False, GAddNode ''c'' False, GPropose (5 :: nat) None,
             GVote ''gossip_a_1'' \<lparr>cv_voterId = ''b'', cv_approve = False\<rparr>, GRemoveNode ''c''] (new_gossip ''a'')
   in (case jget (go_proposals s) ''gossip_a_1'' of
         None \<Rightarrow> False
       | Some p \<Rightarrow> cp_status (checkConvergence w_gossip_cfg (go_total s) p) = PRejected \<and>
                   fst (go_await_tick w_gossip_cfg 0 2000 ''gossip_a_1'' s) = Some (Inr PAccepted))"
  by (simp add: gossip_eval)

end
