(* ===== verification/ProofChain.thy ===== *)
theory ProofChain
  imports Prelude "HOL-Library.List_Lexorder" "HOL-Library.Char_ord"
begin

text \<open>
  Model of \<open>ProofChain\<close> of \<open>guidance/src/proof.ts\<close>: signed envelopes that each name the content hash of the one before. The hash, the keyed hash
  and the text of a JSON value are the parameters \<open>crypto\<close>; what they are applied to is computed as in the source. \<open>timingSafeEqual\<close> of
  \<open>crypto-utils.ts\<close> is equality.
\<close>

section \<open>Data\<close>

datatype json = JNull | JBool bool | JNum int | JStr string | JArr "json list" | JObj "(string \<times> json) list"

record crypto =
  cr_text :: "json \<Rightarrow> string"
  cr_sha256 :: "string \<Rightarrow> string"
  cr_hmac :: "string \<Rightarrow> string \<Rightarrow> string"

text \<open>A run event: the fields the chain reads, and the others.\<close>

record run_event =
  re_eventId :: string
  re_guidanceHash :: string
  re_sessionId :: "string option"
  re_others :: "(string \<times> json) list"

record tool_call =
  tk_callId :: string
  tk_toolName :: string
  tk_params :: json
  tk_result :: "json option"

datatype memory_op_kind = MRead | MWrite | MDelete

record memory_operation =
  mo_key :: string
  mo_namespace :: string
  mo_operation :: memory_op_kind
  mo_valueHash :: string

record lineage_entry =
  le_key :: string
  le_namespace :: string
  le_operation :: memory_op_kind
  le_hash :: string

record envelope_metadata =
  me_agentId :: string
  me_sessionId :: string
  me_parentEnvelopeId :: "string option"

record partial_metadata =
  pm_agentId :: "string option"
  pm_sessionId :: "string option"
  pm_parentEnvelopeId :: "string option"

record proof_envelope =
  pe_envelopeId :: string
  pe_runEventId :: string
  pe_timestamp :: string
  pe_contentHash :: string
  pe_previousHash :: string
  pe_toolCallHashes :: "(string, string) jsmap"
  pe_guidanceHash :: string
  pe_memoryLineage :: "lineage_entry list"
  pe_signature :: string
  pe_metadata :: envelope_metadata

record serialized_chain =
  sc_envelopes :: "proof_envelope list"
  sc_createdAt :: string
  sc_version :: int

record proof_chain =
  pc_envelopes :: "proof_envelope list"
  pc_signingKey :: string

datatype proof_error = NoSigningKey | UnsupportedVersion int

definition GENESIS_HASH :: string where
  "GENESIS_HASH = replicate 64 CHR ''0''"

definition SERIALIZATION_VERSION :: int where
  "SERIALIZATION_VERSION = 1"

section \<open>Hashes and signatures\<close>

definition event_object :: "run_event \<Rightarrow> (string \<times> json) list" where
  "event_object e =
     [(''eventId'', JStr (re_eventId e)), (''guidanceHash'', JStr (re_guidanceHash e))] @
     (case re_sessionId e of None \<Rightarrow> [] | Some x \<Rightarrow> [(''sessionId'', JStr x)]) @ re_others e"

text \<open>The value that \<open>JSON.stringify\<close> writes when it is given an array of keys: only these keys, in their order, in objects at every depth.\<close>

fun only_keys :: "string list \<Rightarrow> json \<Rightarrow> json" where
  "only_keys ks (JArr vs) = JArr (map (only_keys ks) vs)"
| "only_keys ks (JObj fs) =
     (let fs1 = map (\<lambda>(k, v). (k, only_keys ks v)) fs
      in JObj (concat (map (\<lambda>k. case map_of fs1 k of None \<Rightarrow> [] | Some v \<Rightarrow> [(k, v)]) ks)))"
| "only_keys ks v = v"

definition hashed_event :: "run_event \<Rightarrow> json" where
  "hashed_event e = only_keys (sort (map fst (event_object e))) (JObj (event_object e))"

definition computeContentHash :: "crypto \<Rightarrow> run_event \<Rightarrow> string" where
  "computeContentHash c e = cr_sha256 c (cr_text c (hashed_event e))"

definition text_or_undefined :: "crypto \<Rightarrow> json option \<Rightarrow> string" where
  "text_or_undefined c v = (case v of None \<Rightarrow> ''undefined'' | Some x \<Rightarrow> cr_text c x)"

definition computeToolCallHash :: "crypto \<Rightarrow> tool_call \<Rightarrow> string" where
  "computeToolCallHash c t = cr_sha256 c (tk_toolName t @ cr_text c (tk_params t) @ text_or_undefined c (tk_result t))"

fun kind_text :: "memory_op_kind \<Rightarrow> string" where
  "kind_text MRead = ''read''"
| "kind_text MWrite = ''write''"
| "kind_text MDelete = ''delete''"

definition lineage_json :: "lineage_entry \<Rightarrow> json" where
  "lineage_json l = JObj [(''key'', JStr (le_key l)), (''namespace'', JStr (le_namespace l)), (''operation'', JStr (kind_text (le_operation l))),
     (''hash'', JStr (le_hash l))]"

definition metadata_json :: "envelope_metadata \<Rightarrow> json" where
  "metadata_json m = JObj ([(''agentId'', JStr (me_agentId m)), (''sessionId'', JStr (me_sessionId m))] @
     (case me_parentEnvelopeId m of None \<Rightarrow> [] | Some p \<Rightarrow> [(''parentEnvelopeId'', JStr p)]))"

definition envelope_body :: "proof_envelope \<Rightarrow> json" where
  "envelope_body e = JObj
     [(''envelopeId'', JStr (pe_envelopeId e)),
      (''runEventId'', JStr (pe_runEventId e)),
      (''timestamp'', JStr (pe_timestamp e)),
      (''contentHash'', JStr (pe_contentHash e)),
      (''previousHash'', JStr (pe_previousHash e)),
      (''toolCallHashes'', JObj (map (\<lambda>(k, h). (k, JStr h)) (pe_toolCallHashes e))),
      (''guidanceHash'', JStr (pe_guidanceHash e)),
      (''memoryLineage'', JArr (map lineage_json (pe_memoryLineage e))),
      (''metadata'', metadata_json (pe_metadata e))]"

definition signEnvelope :: "crypto \<Rightarrow> string \<Rightarrow> proof_envelope \<Rightarrow> string" where
  "signEnvelope c key e = cr_hmac c key (cr_text c (envelope_body e))"

section \<open>The chain\<close>

definition createProofChain :: "string \<Rightarrow> proof_error + proof_chain" where
  "createProofChain key = (if key = [] then Inl NoSigningKey else Inr \<lparr>pc_envelopes = [], pc_signingKey = key\<rparr>)"

definition pc_append :: "crypto \<Rightarrow> string \<Rightarrow> string \<Rightarrow> run_event \<Rightarrow> tool_call list \<Rightarrow> memory_operation list \<Rightarrow> partial_metadata option \<Rightarrow>
    proof_chain \<Rightarrow> proof_envelope \<times> proof_chain" where
  "pc_append c uuid now ev toolCalls memoryOps metadata p =
     (let previousHash = (if pc_envelopes p \<noteq> [] then pe_contentHash (last (pc_envelopes p)) else GENESIS_HASH);
          envelope = \<lparr>
            pe_envelopeId = uuid,
            pe_runEventId = re_eventId ev,
            pe_timestamp = now,
            pe_contentHash = computeContentHash c ev,
            pe_previousHash = previousHash,
            pe_toolCallHashes = fold (\<lambda>t. jset (tk_callId t) (computeToolCallHash c t)) toolCalls [],
            pe_guidanceHash = re_guidanceHash ev,
            pe_memoryLineage = map (\<lambda>m. \<lparr>le_key = mo_key m, le_namespace = mo_namespace m, le_operation = mo_operation m,
                                             le_hash = mo_valueHash m\<rparr>) memoryOps,
            pe_signature = [],
            pe_metadata = \<lparr>
              me_agentId = nullish (Option.bind metadata pm_agentId) ''unknown'',
              me_sessionId = nullish (Option.bind metadata pm_sessionId) (nullish (re_sessionId ev) ''unknown''),
              me_parentEnvelopeId = Option.bind metadata pm_parentEnvelopeId\<rparr>\<rparr>;
          signed = envelope\<lparr>pe_signature := signEnvelope c (pc_signingKey p) envelope\<rparr>
      in (signed, p\<lparr>pc_envelopes := pc_envelopes p @ [signed]\<rparr>))"

fun find_index :: "('a \<Rightarrow> bool) \<Rightarrow> 'a list \<Rightarrow> nat option" where
  "find_index f [] = None"
| "find_index f (x # xs) = (if f x then Some 0 else map_option Suc (find_index f xs))"

definition pc_verify :: "crypto \<Rightarrow> proof_envelope \<Rightarrow> proof_chain \<Rightarrow> bool" where
  "pc_verify c e p =
     (if pe_signature e \<noteq> signEnvelope c (pc_signingKey p) e then False
      else case find_index (\<lambda>x. pe_envelopeId x = pe_envelopeId e) (pc_envelopes p) of
             None \<Rightarrow> True
           | Some index \<Rightarrow>
               if index = 0 then pe_previousHash e = GENESIS_HASH
               else pe_previousHash e = pe_contentHash (pc_envelopes p ! (index - 1)))"

text \<open>The loop of \<open>verifyChain\<close> with the hash that the next envelope has to name.\<close>

fun verify_from :: "crypto \<Rightarrow> string \<Rightarrow> string \<Rightarrow> proof_envelope list \<Rightarrow> bool" where
  "verify_from c key expected [] = True"
| "verify_from c key expected (e # es) =
     (pe_signature e = signEnvelope c key e \<and> pe_previousHash e = expected \<and> verify_from c key (pe_contentHash e) es)"

definition verifyChain :: "crypto \<Rightarrow> proof_chain \<Rightarrow> bool" where
  "verifyChain c p = verify_from c (pc_signingKey p) GENESIS_HASH (pc_envelopes p)"

definition getEnvelope :: "string \<Rightarrow> proof_chain \<Rightarrow> proof_envelope option" where
  "getEnvelope i p = find (\<lambda>e. pe_envelopeId e = i) (pc_envelopes p)"

definition getChainTip :: "proof_chain \<Rightarrow> proof_envelope option" where
  "getChainTip p = (if pc_envelopes p \<noteq> [] then Some (last (pc_envelopes p)) else None)"

definition pc_export :: "string \<Rightarrow> proof_chain \<Rightarrow> serialized_chain" where
  "pc_export now p = \<lparr>sc_envelopes = pc_envelopes p, sc_createdAt = now, sc_version = SERIALIZATION_VERSION\<rparr>"

definition pc_import :: "serialized_chain \<Rightarrow> proof_chain \<Rightarrow> (proof_error + unit) \<times> proof_chain" where
  "pc_import d p =
     (if sc_version d \<noteq> SERIALIZATION_VERSION then (Inl (UnsupportedVersion (sc_version d)), p)
      else (Inr (), p\<lparr>pc_envelopes := sc_envelopes d\<rparr>))"

section \<open>Appending\<close>

definition signed_by :: "crypto \<Rightarrow> string \<Rightarrow> proof_envelope \<Rightarrow> bool" where
  "signed_by c key e \<longleftrightarrow> pe_signature e = signEnvelope c key e"

lemma envelope_body_signature [simp]: "envelope_body (e\<lparr>pe_signature := x\<rparr>) = envelope_body e"
  by (simp add: envelope_body_def)

lemma signEnvelope_signature [simp]: "signEnvelope c key (e\<lparr>pe_signature := x\<rparr>) = signEnvelope c key e"
  by (simp add: signEnvelope_def)

lemma verify_from_append:
  "verify_from c key h (xs @ ys) \<longleftrightarrow> verify_from c key h xs \<and> verify_from c key (if xs = [] then h else pe_contentHash (last xs)) ys"
  by (induction xs arbitrary: h) auto

lemma append_envelope:
  assumes "pc_append c u now ev ts ms md p = (e, p')"
  shows "p' = p\<lparr>pc_envelopes := pc_envelopes p @ [e]\<rparr>" "signed_by c (pc_signingKey p) e" "pe_envelopeId e = u"
    "pe_contentHash e = computeContentHash c ev"
    "pe_previousHash e = (if pc_envelopes p = [] then GENESIS_HASH else pe_contentHash (last (pc_envelopes p)))"
  using assms by (auto simp: pc_append_def signed_by_def signEnvelope_def envelope_body_def Let_def)

lemma verify_from_nth:
  "verify_from c key h es \<longleftrightarrow>
     (\<forall>i < length es. signed_by c key (es ! i) \<and> pe_previousHash (es ! i) = (if i = 0 then h else pe_contentHash (es ! (i - 1))))"
  by (induction es arbitrary: h) (auto simp: signed_by_def nth_Cons' All_less_Suc2)

lemma find_index_distinct: "distinct (map f xs) \<Longrightarrow> i < length xs \<Longrightarrow> find_index (\<lambda>x. f x = f (xs ! i)) xs = Some i"
proof (induction xs arbitrary: i)
  case (Cons x xs)
  then show ?case
    by (cases i) (auto dest: nth_mem)
qed simp

section \<open>Runs\<close>

datatype proof_op = PcAppend string string run_event "tool_call list" "memory_operation list" "partial_metadata option" | PcImport serialized_chain

fun proof_do :: "crypto \<Rightarrow> proof_op \<Rightarrow> proof_chain \<Rightarrow> proof_chain" where
  "proof_do c (PcAppend u now ev ts ms md) p = snd (pc_append c u now ev ts ms md p)"
| "proof_do c (PcImport d) p = snd (pc_import d p)"

text \<open>Identifiers are new, and imported chains are intact.\<close>

fun proof_ok :: "crypto \<Rightarrow> proof_op \<Rightarrow> proof_chain \<Rightarrow> bool" where
  "proof_ok c (PcAppend u now ev ts ms md) p = (u \<notin> pe_envelopeId ` set (pc_envelopes p))"
| "proof_ok c (PcImport d) p =
     (verify_from c (pc_signingKey p) GENESIS_HASH (sc_envelopes d) \<and> distinct (map pe_envelopeId (sc_envelopes d)))"

definition proof_inv :: "crypto \<Rightarrow> string \<Rightarrow> proof_chain \<Rightarrow> bool" where
  "proof_inv c key p \<longleftrightarrow> pc_signingKey p = key \<and> verifyChain c p \<and> distinct (map pe_envelopeId (pc_envelopes p))"

lemma append_inv:
  assumes "proof_inv c key p" "pc_append c u now ev ts ms md p = (e, p')" "u \<notin> pe_envelopeId ` set (pc_envelopes p)"
  shows "proof_inv c key p'"
  using assms append_envelope [OF assms(2)] by (auto simp: proof_inv_def verifyChain_def verify_from_append signed_by_def)

interpretation proof_runs: guarded_system "proof_ok c" "proof_do c" "proof_inv c key" for c key
proof
  fix a p
  assume ok: "proof_ok c a p" "proof_inv c key p"
  show "proof_inv c key (proof_do c a p)"
  proof (cases a)
    case (PcAppend u now ev ts ms md)
    then show ?thesis
      using ok append_inv [of c key p u now ev ts ms md] by (cases "pc_append c u now ev ts ms md p") auto
  next
    case (PcImport d)
    then show ?thesis
      using ok by (auto simp: pc_import_def proof_inv_def verifyChain_def)
  qed
qed

text \<open>
  A chain that was built by appending, and by importing intact chains of the same key, verifies as a whole and envelope by envelope, and so does
  every chain with this key that imports its export.
\<close>

theorem chain_stays_verified:
  assumes "createProofChain key = Inr p0" "run_ok (proof_ok c) (proof_do c) acts p0" "run (proof_do c) acts p0 = p"
  shows "verifyChain c p \<and> (\<forall>e \<in> set (pc_envelopes p). pc_verify c e p) \<and>
    (\<forall>q now. pc_signingKey q = key \<longrightarrow> pc_import (pc_export now p) q = (Inr (), p))"
proof -
  have "proof_inv c key p0"
    using assms(1) by (auto simp: createProofChain_def proof_inv_def verifyChain_def split: if_splits)
  then have p: "proof_inv c key p"
    using proof_runs.guarded_run [OF assms(2)] by (simp only: assms(3))
  have "pc_verify c (pc_envelopes p ! i) p" if "i < length (pc_envelopes p)" for i
    using p that find_index_distinct [of pe_envelopeId "pc_envelopes p" i]
    by (auto simp: proof_inv_def verifyChain_def verify_from_nth pc_verify_def signed_by_def)
  then show ?thesis
    using p by (auto simp: proof_inv_def in_set_conv_nth pc_import_def pc_export_def)
qed

section \<open>Tampering\<close>

lemma kind_text_inj: "kind_text a = kind_text b \<Longrightarrow> a = b"
  by (cases a; cases b) simp_all

lemma lineage_json_inj: "inj lineage_json"
  by (rule injI) (simp add: lineage_json_def kind_text_inj)

lemma metadata_json_inj: "metadata_json a = metadata_json b \<Longrightarrow> a = b"
  by (simp add: metadata_json_def split: option.splits)

lemma envelope_body_inj:
  assumes "envelope_body a = envelope_body b" "pe_signature a = pe_signature b"
  shows "a = b"
proof -
  have "pe_toolCallHashes a = pe_toolCallHashes b"
    using assms(1) by (auto simp: envelope_body_def inj_def intro: map_injective)
  moreover have "pe_memoryLineage a = pe_memoryLineage b"
    using assms(1) by (simp add: envelope_body_def inj_map_eq_map [OF lineage_json_inj])
  ultimately show ?thesis
    using assms by (simp add: envelope_body_def metadata_json_inj)
qed

lemma map_of_only:
  "map_of (concat (map (\<lambda>k. case m k of None \<Rightarrow> [] | Some v \<Rightarrow> [(k, v)]) ks)) k = (if k \<in> set ks then m k else None)"
  by (induction ks) (auto split: option.splits)

lemma hashed_event_id:
  assumes "hashed_event a = hashed_event b"
  shows "re_eventId a = re_eventId b"
proof -
  have get: "\<exists>fs. hashed_event e = JObj fs \<and> map_of fs ''eventId'' = Some (JStr (re_eventId e))" for e
    by (auto simp: hashed_event_def map_of_only Let_def) (auto simp: event_object_def)
  show ?thesis
    using get [of a] get [of b] assms by auto
qed

text \<open>A list of operations that appends the given events.\<close>

definition appends :: "proof_op list \<Rightarrow> run_event list \<Rightarrow> bool" where
  "appends = list_all2 (\<lambda>a ev. case a of PcAppend u now ev' ts ms md \<Rightarrow> ev' = ev | PcImport d \<Rightarrow> False)"

lemma appends_chain:
  assumes "appends acts evs" "verifyChain c p"
  shows "verifyChain c (run (proof_do c) acts p) \<and> pc_signingKey (run (proof_do c) acts p) = pc_signingKey p \<and>
    map pe_contentHash (pc_envelopes (run (proof_do c) acts p)) = map pe_contentHash (pc_envelopes p) @ map (computeContentHash c) evs"
  using assms unfolding appends_def
proof (induction acts evs arbitrary: p rule: list_all2_induct)
  case (Cons a acts ev evs)
  then obtain u now ts ms md where a: "a = PcAppend u now ev ts ms md"
    by (cases a) auto
  obtain e p' where e: "pc_append c u now ev ts ms md p = (e, p')"
    by fastforce
  have "verifyChain c p'"
    using append_envelope [OF e] Cons.prems by (auto simp: verifyChain_def verify_from_append signed_by_def)
  from Cons.IH [OF this] show ?case
    using append_envelope [OF e] by (simp add: a e)
qed simp

lemma linked_prefix:
  assumes chain: "verify_from c key h es" "distinct (map pe_contentHash es)" "h \<notin> pe_contentHash ` set es"
    and "verify_from c key h ds" "set ds \<subseteq> set es"
  shows "ds = take (length ds) es"
  using assms(4,5)
proof (induction ds rule: rev_induct)
  case (snoc x xs)
  define n where "n = length xs"
  have xs: "xs = take n es"
    using snoc by (simp add: verify_from_append n_def)
  from arg_cong [OF this, of length] have n: "n \<le> length es"
    by (simp add: n_def)
  obtain j where j: "j < length es" "x = es ! j"
    using snoc.prems(2) by (auto simp: in_set_conv_nth)
  have prev: "pe_previousHash x = (if j = 0 then h else pe_contentHash (es ! (j - 1)))"
    using chain(1) j by (simp add: verify_from_nth)
  have want: "pe_previousHash x = (if n = 0 then h else pe_contentHash (es ! (n - 1)))"
  proof (cases "n = 0")
    case False
    then have "take n es \<noteq> []"
      using n by auto
    then have "last xs = es ! (n - 1)"
      using n False by (subst xs) (simp add: last_conv_nth)
    then show ?thesis
      using snoc.prems(1) False by (auto simp: verify_from_append n_def)
  qed (use snoc.prems(1) in \<open>simp add: n_def\<close>)
  have new: "pe_contentHash (es ! i) \<noteq> h" if "i < length es" for i
    using chain(3) nth_mem [OF that] by force
  have "j = n"
  proof (cases "j = 0 \<or> n = 0")
    case True
    have "j \<noteq> 0 \<Longrightarrow> pe_contentHash (es ! (j - 1)) \<noteq> h" "n \<noteq> 0 \<Longrightarrow> pe_contentHash (es ! (n - 1)) \<noteq> h"
      using j(1) n by (auto intro!: new)
    then show ?thesis
      using True prev want by (auto split: if_splits)
  next
    case False
    then have "pe_contentHash (es ! (j - 1)) = pe_contentHash (es ! (n - 1))" "j - 1 < length es" "n - 1 < length es"
      using prev want j(1) n by auto
    then have "j - 1 = n - 1"
      using chain(2) by (simp add: distinct_conv_nth) blast
    then show ?thesis
      using False by linarith
  qed
  then show ?case
    using xs j by (simp add: n_def [symmetric] take_Suc_conv_app_nth)
qed simp

text \<open>
  C7. Someone who exports, edits and imports again cannot get past the verification with anything but an initial part of the chain. The chain was
  built by appending events with different identifiers whose hashes do not collide; valid signatures are only known for what the chain has signed.
\<close>

theorem tampering_detected:
  assumes "createProofChain key = Inr p0" "appends acts evs" "run (proof_do c) acts p0 = p" "distinct (map re_eventId evs)"
    and hashes: "inj_on (\<lambda>j. cr_sha256 c (cr_text c j)) (hashed_event ` set evs)" "GENESIS_HASH \<notin> computeContentHash c ` set evs"
    and writing: "inj_on (cr_text c) (envelope_body ` (set (pc_envelopes p) \<union> set (sc_envelopes d)))"
    and unforged: "\<forall>e \<in> set (sc_envelopes d). pe_signature e = cr_hmac c key (cr_text c (envelope_body e)) \<longrightarrow>
        (\<exists>e' \<in> set (pc_envelopes p). cr_text c (envelope_body e') = cr_text c (envelope_body e))"
    and "pc_signingKey q = key" "pc_import d q = (Inr (), q')" "verifyChain c q'"
  shows "sc_envelopes d = take (length (sc_envelopes d)) (pc_envelopes p)"
proof (rule linked_prefix)
  have "verifyChain c p0" "pc_signingKey p0 = key" "pc_envelopes p0 = []"
    using assms(1) by (auto simp: createProofChain_def verifyChain_def split: if_splits)
  then have p: "verifyChain c p" "pc_signingKey p = key" "map pe_contentHash (pc_envelopes p) = map (computeContentHash c) evs"
    using appends_chain [OF assms(2), of c p0] by (simp_all add: assms(3))
  show es: "verify_from c key GENESIS_HASH (pc_envelopes p)"
    using p by (simp add: verifyChain_def)
  have "inj_on (computeContentHash c) (set evs)"
  proof (rule inj_onI)
    fix a b
    assume ab: "a \<in> set evs" "b \<in> set evs" "computeContentHash c a = computeContentHash c b"
    then have "hashed_event a = hashed_event b"
      using inj_onD [OF hashes(1), of "hashed_event a" "hashed_event b"] by (simp add: computeContentHash_def)
    from hashed_event_id [OF this] show "a = b"
      using assms(4) ab(1,2) by (simp add: distinct_map inj_on_def)
  qed
  then show "distinct (map pe_contentHash (pc_envelopes p))"
    using assms(4) unfolding p(3) by (simp add: distinct_map)
  show "GENESIS_HASH \<notin> pe_contentHash ` set (pc_envelopes p)"
    using hashes(2) arg_cong [OF p(3), of set] by simp
  show ds: "verify_from c key GENESIS_HASH (sc_envelopes d)"
    using assms(9-11) by (auto simp: pc_import_def verifyChain_def split: if_splits)
  show "set (sc_envelopes d) \<subseteq> set (pc_envelopes p)"
  proof
    fix e
    assume e: "e \<in> set (sc_envelopes d)"
    then have sg: "signed_by c key e"
      using ds by (auto simp: verify_from_nth in_set_conv_nth)
    then obtain e' where e': "e' \<in> set (pc_envelopes p)" "cr_text c (envelope_body e') = cr_text c (envelope_body e)"
      using unforged e by (auto simp: signed_by_def signEnvelope_def)
    moreover have "signed_by c key e'"
      using es e'(1) by (auto simp: verify_from_nth in_set_conv_nth)
    moreover have "envelope_body e' = envelope_body e"
      using writing e e' by (auto dest!: inj_onD)
    ultimately show "e \<in> set (pc_envelopes p)"
      using sg envelope_body_inj [of e' e] by (auto simp: signed_by_def signEnvelope_def)
  qed
qed

section \<open>Witnesses\<close>

text \<open>A simple text of values, the identity as hash and the key before the text as keyed hash.\<close>

fun w_text :: "json \<Rightarrow> string" where
  "w_text JNull = ''n''"
| "w_text (JBool b) = (if b then ''t'' else ''f'')"
| "w_text (JNum i) = show_radix 10 (nat i)"
| "w_text (JStr x) = x"
| "w_text (JArr vs) = ''['' @ concat (map w_text vs) @ '']''"
| "w_text (JObj fs) = ''{'' @ concat (map (\<lambda>(k, v). k @ '':'' @ w_text v @ '','') fs) @ ''}''"

definition w_crypto :: crypto where
  "w_crypto = \<lparr>cr_text = w_text, cr_sha256 = (\<lambda>x. x), cr_hmac = (\<lambda>k x. k @ x)\<rparr>"

definition w_event :: "string \<Rightarrow> run_event" where
  "w_event i = \<lparr>re_eventId = i, re_guidanceHash = ''g'', re_sessionId = None, re_others = [(''taskId'', JStr ''t'')]\<rparr>"

definition w_chain_acts :: "proof_op list" where
  "w_chain_acts = [PcAppend ''u1'' ''now'' (w_event ''e1'') [] [] None, PcAppend ''u2'' ''now'' (w_event ''e2'') [] [] None]"

definition w_chain0 :: proof_chain where
  "w_chain0 = \<lparr>pc_envelopes = [], pc_signingKey = ''k''\<rparr>"

definition w_chain :: proof_chain where
  "w_chain = run (proof_do w_crypto) w_chain_acts w_chain0"

definition w_data :: serialized_chain where
  "w_data = \<lparr>sc_envelopes = take 1 (pc_envelopes w_chain), sc_createdAt = ''now'', sc_version = 1\<rparr>"

theorem chain_stays_verified_witness:
  "length (pc_envelopes w_chain) = 2 \<and> verifyChain w_crypto w_chain \<and> pc_import (pc_export ''now'' w_chain) w_chain0 = (Inr (), w_chain)"
proof -
  have "createProofChain ''k'' = Inr w_chain0"
    by code_simp
  moreover have "run_ok (proof_ok w_crypto) (proof_do w_crypto) w_chain_acts w_chain0" "length (pc_envelopes w_chain) = 2" "pc_signingKey w_chain0 = ''k''"
    by code_simp+
  ultimately show ?thesis
    using chain_stays_verified [of "''k''" w_chain0 w_crypto w_chain_acts w_chain] by (simp add: w_chain_def)
qed

theorem tampering_detected_witness:
  "length (sc_envelopes w_data) = 1 \<and> sc_envelopes w_data = take (length (sc_envelopes w_data)) (pc_envelopes w_chain)"
proof
  show "length (sc_envelopes w_data) = 1"
    by code_simp
  show "sc_envelopes w_data = take (length (sc_envelopes w_data)) (pc_envelopes w_chain)"
  proof (rule tampering_detected [where acts = w_chain_acts and evs = "[w_event ''e1'', w_event ''e2'']"])
    show "createProofChain ''k'' = Inr w_chain0" "run (proof_do w_crypto) w_chain_acts w_chain0 = w_chain"
      "appends w_chain_acts [w_event ''e1'', w_event ''e2'']" "distinct (map re_eventId [w_event ''e1'', w_event ''e2''])"
      "GENESIS_HASH \<notin> computeContentHash w_crypto ` set [w_event ''e1'', w_event ''e2'']"
      "pc_signingKey w_chain0 = ''k''" "pc_import w_data w_chain0 = (Inr (), w_chain0\<lparr>pc_envelopes := sc_envelopes w_data\<rparr>)"
      "verifyChain w_crypto (w_chain0\<lparr>pc_envelopes := sc_envelopes w_data\<rparr>)"
      by code_simp+
    have "\<forall>a \<in> set [w_event ''e1'', w_event ''e2'']. \<forall>b \<in> set [w_event ''e1'', w_event ''e2''].
        w_text (hashed_event a) = w_text (hashed_event b) \<longrightarrow> hashed_event a = hashed_event b"
      by code_simp
    then show "inj_on (\<lambda>j. cr_sha256 w_crypto (cr_text w_crypto j)) (hashed_event ` set [w_event ''e1'', w_event ''e2''])"
      by (simp add: inj_on_def w_crypto_def)
    have "\<forall>a \<in> set (pc_envelopes w_chain @ sc_envelopes w_data). \<forall>b \<in> set (pc_envelopes w_chain @ sc_envelopes w_data).
        cr_text w_crypto (envelope_body a) = cr_text w_crypto (envelope_body b) \<longrightarrow> envelope_body a = envelope_body b"
      by code_simp
    then show "inj_on (cr_text w_crypto) (envelope_body ` (set (pc_envelopes w_chain) \<union> set (sc_envelopes w_data)))"
      by (auto simp: inj_on_def)
    show "\<forall>e \<in> set (sc_envelopes w_data). pe_signature e = cr_hmac w_crypto ''k'' (cr_text w_crypto (envelope_body e)) \<longrightarrow>
        (\<exists>e' \<in> set (pc_envelopes w_chain). cr_text w_crypto (envelope_body e') = cr_text w_crypto (envelope_body e))"
      by code_simp
  qed
qed

section \<open>Contents that the hash does not cover\<close>

text \<open>
  The keys given to \<open>JSON.stringify\<close> are those of the event (proof.ts:317), and they also select inside its objects: the counts of tests and of
  changed lines have other keys and are not hashed.
\<close>

lemma test_results_not_hashed:
  "computeContentHash c \<lparr>re_eventId = ''e'', re_guidanceHash = ''g'', re_sessionId = None,
     re_others = [(''testResults'', JObj [(''ran'', JBool True), (''passed'', JNum 0), (''failed'', JNum 9)])]\<rparr> =
   computeContentHash c \<lparr>re_eventId = ''e'', re_guidanceHash = ''g'', re_sessionId = None,
     re_others = [(''testResults'', JObj [(''ran'', JBool True), (''passed'', JNum 9), (''failed'', JNum 0)])]\<rparr>"
proof -
  have "hashed_event \<lparr>re_eventId = ''e'', re_guidanceHash = ''g'', re_sessionId = None,
       re_others = [(''testResults'', JObj [(''ran'', JBool True), (''passed'', JNum 0), (''failed'', JNum 9)])]\<rparr> =
     hashed_event \<lparr>re_eventId = ''e'', re_guidanceHash = ''g'', re_sessionId = None,
       re_others = [(''testResults'', JObj [(''ran'', JBool True), (''passed'', JNum 9), (''failed'', JNum 0)])]\<rparr>"
    by code_simp
  then show ?thesis
    by (simp only: computeContentHash_def)
qed

end
