(* ===== verification/AgentPool.thy ===== *)
theory AgentPool
  imports Prelude Complex_Main
begin

text \<open>
  Model of \<open>AgentPool\<close> of \<open>swarm/src/agent-pool.ts\<close>: acquiring and releasing agents, growing and shrinking with the utilization, health checks.
  The rest of a method after an \<open>await\<close> is a step of its own: an \<open>acquire\<close> that has created an agent, the end of \<open>scale\<close>, and the
  replacement of a removed agent. Health is computed in doubles. Capabilities, metrics and \<open>pendingScale\<close>, which are only reported, are left out.
\<close>

section \<open>State\<close>

datatype pooled_status = StInitializing | StIdle | StBusy | StPaused | StError | StOffline | StTerminating | StTerminated

record pooled_agent =
  pa_status :: pooled_status
  pa_health :: rat
  pa_lastHeartbeat :: time
  pa_acquiredAt :: "time option"
  pa_lastUsed :: time
  pa_usageCount :: nat

record agent_pool_config =
  pl_name :: string
  pl_minSize :: nat
  pl_maxSize :: nat
  pl_scaleUpThreshold :: rat
  pl_scaleDownThreshold :: rat
  pl_cooldownMs :: time
  pl_healthCheckIntervalMs :: time

text \<open>The last three fields hold what waits to continue: acquisitions, scale operations with their time, replacements with \<open>wasBusy\<close>.\<close>

record agent_pool =
  pl_pooledAgents :: "(string, pooled_agent) jsmap"
  pl_available :: "string jsset"
  pl_busy :: "string jsset"
  pl_lastScaleOperation :: "time option"
  pl_agentCounter :: nat
  pl_acquiring :: "string list"
  pl_scaling :: "time list"
  pl_replacing :: "bool list"

datatype agent_pool_error = AtMaximumCapacity | AgentVanished

definition new_agent_pool :: agent_pool where
  "new_agent_pool = \<lparr>pl_pooledAgents = [], pl_available = [], pl_busy = [], pl_lastScaleOperation = None, pl_agentCounter = 0,
     pl_acquiring = [], pl_scaling = [], pl_replacing = []\<rparr>"

definition pooled_id :: "string \<Rightarrow> nat \<Rightarrow> string" where
  "pooled_id name k = name @ ''_agent_'' @ show_radix 10 k"

definition upd_pooled :: "string \<Rightarrow> (pooled_agent \<Rightarrow> pooled_agent) \<Rightarrow> agent_pool \<Rightarrow> agent_pool" where
  "upd_pooled i f s =
     (case jget (pl_pooledAgents s) i of None \<Rightarrow> s | Some x \<Rightarrow> s\<lparr>pl_pooledAgents := jset i (f x) (pl_pooledAgents s)\<rparr>)"

section \<open>Operations\<close>

definition createPooledAgent :: "agent_pool_config \<Rightarrow> time \<Rightarrow> agent_pool \<Rightarrow> string option \<times> agent_pool" where
  "createPooledAgent cfg now s =
     (if length (pl_pooledAgents s) \<ge> pl_maxSize cfg then (None, s)
      else
        let k = pl_agentCounter s + 1;
            i = pooled_id (pl_name cfg) k;
            x = \<lparr>pa_status = StIdle, pa_health = 1, pa_lastHeartbeat = now, pa_acquiredAt = None, pa_lastUsed = now, pa_usageCount = 0\<rparr>
        in (Some i, s\<lparr>pl_agentCounter := k, pl_pooledAgents := jset i x (pl_pooledAgents s), pl_available := sadd i (pl_available s)\<rparr>))"

definition create_agents :: "agent_pool_config \<Rightarrow> time \<Rightarrow> nat \<Rightarrow> agent_pool \<Rightarrow> agent_pool" where
  "create_agents cfg now n = (\<lambda>s. snd (createPooledAgent cfg now s)) ^^ n"

definition pl_initialize :: "agent_pool_config \<Rightarrow> time \<Rightarrow> agent_pool \<Rightarrow> agent_pool" where
  "pl_initialize cfg now s = create_agents cfg now (pl_minSize cfg) s"

definition pl_shutdown :: "agent_pool \<Rightarrow> agent_pool" where
  "pl_shutdown s = s\<lparr>pl_pooledAgents := [], pl_available := [], pl_busy := []\<rparr>"

definition pl_remove :: "string \<Rightarrow> agent_pool \<Rightarrow> agent_pool" where
  "pl_remove i s =
     (if jget (pl_pooledAgents s) i = None then s
      else s\<lparr>pl_pooledAgents := jdel i (pl_pooledAgents s), pl_available := sdel i (pl_available s), pl_busy := sdel i (pl_busy s)\<rparr>)"

definition pl_add :: "agent_pool_config \<Rightarrow> time \<Rightarrow> string \<Rightarrow> pooled_agent \<Rightarrow> agent_pool \<Rightarrow> (agent_pool_error + unit) \<times> agent_pool" where
  "pl_add cfg now i agent s =
     (if length (pl_pooledAgents s) \<ge> pl_maxSize cfg then (Inl AtMaximumCapacity, s)
      else (Inr (), s\<lparr>pl_pooledAgents := jset i (agent\<lparr>pa_acquiredAt := None, pa_lastUsed := now, pa_usageCount := 0\<rparr>) (pl_pooledAgents s),
                     pl_available := sadd i (pl_available s)\<rparr>))"

definition scale :: "agent_pool_config \<Rightarrow> time \<Rightarrow> int \<Rightarrow> agent_pool \<Rightarrow> agent_pool" where
  "scale cfg now delta s =
     (if (case pl_lastScaleOperation s of None \<Rightarrow> False | Some t \<Rightarrow> now - t < pl_cooldownMs cfg) then s
      else
        let size = int (length (pl_pooledAgents s))
        in if delta > 0
           then
             let targetSize = min (size + delta) (int (pl_maxSize cfg))
             in (create_agents cfg now (nat (targetSize - size)) s)\<lparr>pl_scaling := pl_scaling s @ [now]\<rparr>
           else if delta < 0
           then
             let targetSize = max (size + delta) (int (pl_minSize cfg));
                 toRemove = size - targetSize;
                 sortedAvailable = sort_key (\<lambda>i. case jget (pl_pooledAgents s) i of None \<Rightarrow> 0 | Some x \<Rightarrow> pa_lastUsed x)
                   (filter (\<lambda>i. jget (pl_pooledAgents s) i \<noteq> None) (pl_available s))
             in (fold pl_remove (slice_to toRemove sortedAvailable) s)\<lparr>pl_scaling := pl_scaling s @ [now]\<rparr>
           else s\<lparr>pl_lastScaleOperation := Some now\<rparr>)"

text \<open>The end of a scale operation.\<close>

definition scale_ends :: "nat \<Rightarrow> agent_pool \<Rightarrow> agent_pool" where
  "scale_ends k s =
     (if k < length (pl_scaling s)
      then s\<lparr>pl_lastScaleOperation := Some (pl_scaling s ! k), pl_scaling := take k (pl_scaling s) @ drop (Suc k) (pl_scaling s)\<rparr> else s)"

definition getUtilization :: "agent_pool \<Rightarrow> rat" where
  "getUtilization s = (if pl_pooledAgents s = [] then 0 else rat_of_nat (length (pl_busy s)) / rat_of_nat (length (pl_pooledAgents s)))"

definition checkScaling :: "agent_pool_config \<Rightarrow> time \<Rightarrow> agent_pool \<Rightarrow> agent_pool" where
  "checkScaling cfg now s =
     (let utilization = getUtilization s
      in if utilization \<ge> pl_scaleUpThreshold cfg \<and> length (pl_pooledAgents s) < pl_maxSize cfg then scale cfg now 1 s
         else if utilization \<le> pl_scaleDownThreshold cfg \<and> length (pl_pooledAgents s) > pl_minSize cfg then scale cfg now (- 1) s
         else s)"

definition take_agent :: "time \<Rightarrow> string \<Rightarrow> agent_pool \<Rightarrow> agent_pool" where
  "take_agent now i s =
     upd_pooled i (\<lambda>x. x\<lparr>pa_acquiredAt := Some now, pa_usageCount := pa_usageCount x + 1, pa_status := StBusy\<rparr>)
       (s\<lparr>pl_available := sdel i (pl_available s), pl_busy := sadd i (pl_busy s)\<rparr>)"

text \<open>The answer: the agent, no agent, or none yet because the call has created an agent and waits for it.\<close>

datatype pool_answer = GotAgent string | NoAgent | Creating

definition acquire_new :: "agent_pool_config \<Rightarrow> time \<Rightarrow> agent_pool \<Rightarrow> pool_answer \<times> agent_pool" where
  "acquire_new cfg now s =
     (if length (pl_pooledAgents s) < pl_maxSize cfg
      then case createPooledAgent cfg now s of
             (Some i, s1) \<Rightarrow> (Creating, s1\<lparr>pl_acquiring := pl_acquiring s1 @ [i]\<rparr>)
           | (None, s1) \<Rightarrow> (NoAgent, s1)
      else (NoAgent, s))"

definition pl_acquire :: "agent_pool_config \<Rightarrow> time \<Rightarrow> agent_pool \<Rightarrow> pool_answer \<times> agent_pool" where
  "pl_acquire cfg now s =
     (case pl_available s of
        i # _ \<Rightarrow>
          if i \<noteq> [] \<and> jget (pl_pooledAgents s) i \<noteq> None then (GotAgent i, checkScaling cfg now (take_agent now i s)) else acquire_new cfg now s
      | [] \<Rightarrow> acquire_new cfg now s)"

text \<open>The rest of an \<open>acquire\<close> that has created an agent. When the agent is gone, reading its entry throws after it was marked as busy.\<close>

definition acquire_ends :: "time \<Rightarrow> nat \<Rightarrow> agent_pool \<Rightarrow> (agent_pool_error + string) option \<times> agent_pool" where
  "acquire_ends now k s =
     (if k < length (pl_acquiring s)
      then
        let i = pl_acquiring s ! k;
            s1 = take_agent now i (s\<lparr>pl_acquiring := take k (pl_acquiring s) @ drop (Suc k) (pl_acquiring s)\<rparr>)
        in if jget (pl_pooledAgents s) i = None then (Some (Inl AgentVanished), s1) else (Some (Inr i), s1)
      else (None, s))"

definition pl_release :: "agent_pool_config \<Rightarrow> time \<Rightarrow> string \<Rightarrow> agent_pool \<Rightarrow> agent_pool" where
  "pl_release cfg now i s =
     (if jget (pl_pooledAgents s) i = None then s
      else checkScaling cfg now
             (upd_pooled i (\<lambda>x. x\<lparr>pa_acquiredAt := None, pa_lastUsed := now, pa_status := StIdle\<rparr>)
                (s\<lparr>pl_busy := sdel i (pl_busy s), pl_available := sadd i (pl_available s)\<rparr>)))"

definition replaceUnhealthyAgent :: "string \<Rightarrow> agent_pool \<Rightarrow> agent_pool" where
  "replaceUnhealthyAgent i s =
     (if jget (pl_pooledAgents s) i = None then s
      else (pl_remove i s)\<lparr>pl_replacing := pl_replacing s @ [i \<in> set (pl_busy s)]\<rparr>)"

definition replace_ends :: "agent_pool_config \<Rightarrow> time \<Rightarrow> nat \<Rightarrow> agent_pool \<Rightarrow> agent_pool" where
  "replace_ends cfg now k s =
     (if k < length (pl_replacing s)
      then
        let wasBusy = pl_replacing s ! k;
            s1 = s\<lparr>pl_replacing := take k (pl_replacing s) @ drop (Suc k) (pl_replacing s)\<rparr>
        in if length (pl_pooledAgents s1) < pl_minSize cfg \<or> wasBusy then snd (createPooledAgent cfg now s1) else s1
      else s)"

text \<open>
  Health is a double. \<open>to_double\<close> rounds to the nearest double, ties to even, for numbers below \<open>2^53\<close>: it scales by the least
  power of two that gives 53 bits.
\<close>

fun double_scale :: "nat \<Rightarrow> nat \<Rightarrow> rat \<Rightarrow> nat" where
  "double_scale 0 k x = k"
| "double_scale (Suc n) k x = (if \<bar>x\<bar> * 2 ^ k \<ge> 2 ^ 52 then k else double_scale n (Suc k) x)"

definition round_even :: "rat \<Rightarrow> int" where
  "round_even x =
     (let f = \<lfloor>x\<rfloor>; d = x - of_int f
      in if d < 1/2 then f else if d > 1/2 then f + 1 else if f mod 2 = 0 then f else f + 1)"

definition to_double :: "rat \<Rightarrow> rat" where
  "to_double x = (let k = double_scale 1074 0 x in of_int (round_even (x * 2 ^ k)) / 2 ^ k)"

definition check_health :: "agent_pool_config \<Rightarrow> time \<Rightarrow> string \<Rightarrow> agent_pool \<Rightarrow> agent_pool" where
  "check_health cfg now i s =
     (case jget (pl_pooledAgents s) i of
        None \<Rightarrow> s
      | Some x \<Rightarrow>
          if now - pa_lastHeartbeat x > pl_healthCheckIntervalMs cfg * 3
          then
            let h = max 0 (to_double (pa_health x - to_double (1/5)));
                s1 = upd_pooled i (\<lambda>x. x\<lparr>pa_health := h, pa_status := StError\<rparr>) s
            in if h \<le> 0 then replaceUnhealthyAgent i s1 else s1
          else upd_pooled i (\<lambda>x. x\<lparr>pa_health := min 1 (to_double (pa_health x + to_double (1/10)))\<rparr>) s)"

definition performHealthChecks :: "agent_pool_config \<Rightarrow> time \<Rightarrow> agent_pool \<Rightarrow> agent_pool" where
  "performHealthChecks cfg now s = fold (check_health cfg now) (jkeys (pl_pooledAgents s)) s"

definition updateAgentHeartbeat :: "time \<Rightarrow> string \<Rightarrow> agent_pool \<Rightarrow> agent_pool" where
  "updateAgentHeartbeat now i = upd_pooled i (\<lambda>x. x\<lparr>pa_lastHeartbeat := now, pa_health := min 1 (to_double (pa_health x + to_double (1/20)))\<rparr>)"

definition updateAgentMetrics :: "time \<Rightarrow> string \<Rightarrow> agent_pool \<Rightarrow> agent_pool" where
  "updateAgentMetrics now i = upd_pooled i (\<lambda>x. x\<lparr>pa_lastHeartbeat := now\<rparr>)"

section \<open>Runs\<close>

text \<open>The pool with the agents that callers hold.\<close>

datatype agent_pool_op = AAcquire time | AAcquireEnds time nat | ARelease time string | AAdd time string pooled_agent | ARemove string
  | AScale time int | AScaleEnds nat | AHealth time | AReplaceEnds time nat | AHeartbeat time string | AMetrics time string | AShutdown

fun agent_pool_do :: "agent_pool_config \<Rightarrow> agent_pool_op \<Rightarrow> agent_pool \<times> string list \<Rightarrow> agent_pool \<times> string list" where
  "agent_pool_do cfg (AAcquire now) (s, H) = (case pl_acquire cfg now s of (GotAgent i, s') \<Rightarrow> (s', H @ [i]) | (_, s') \<Rightarrow> (s', H))"
| "agent_pool_do cfg (AAcquireEnds now k) (s, H) = (case acquire_ends now k s of (Some (Inr i), s') \<Rightarrow> (s', H @ [i]) | (_, s') \<Rightarrow> (s', H))"
| "agent_pool_do cfg (ARelease now i) (s, H) = (pl_release cfg now i s, remove1 i H)"
| "agent_pool_do cfg (AAdd now i x) (s, H) = (snd (pl_add cfg now i x s), H)"
| "agent_pool_do cfg (ARemove i) (s, H) = (pl_remove i s, H)"
| "agent_pool_do cfg (AScale now d) (s, H) = (scale cfg now d s, H)"
| "agent_pool_do cfg (AScaleEnds k) (s, H) = (scale_ends k s, H)"
| "agent_pool_do cfg (AHealth now) (s, H) = (performHealthChecks cfg now s, H)"
| "agent_pool_do cfg (AReplaceEnds now k) (s, H) = (replace_ends cfg now k s, H)"
| "agent_pool_do cfg (AHeartbeat now i) (s, H) = (updateAgentHeartbeat now i s, H)"
| "agent_pool_do cfg (AMetrics now i) (s, H) = (updateAgentMetrics now i s, H)"
| "agent_pool_do cfg AShutdown (s, H) = (pl_shutdown s, H)"

text \<open>
  Only holders release; added agents are new and not named like those of the pool; and an acquisition that creates an agent is not interrupted.
\<close>

fun is_acquire_end :: "agent_pool_op \<Rightarrow> bool" where
  "is_acquire_end (AAcquireEnds now k) = True"
| "is_acquire_end _ = False"

fun pool_rules :: "agent_pool_config \<Rightarrow> agent_pool_op \<Rightarrow> agent_pool \<times> string list \<Rightarrow> bool" where
  "pool_rules cfg a (s, H) =
     ((pl_acquiring s = [] \<or> is_acquire_end a) \<and>
      (case a of
         ARelease now i \<Rightarrow> i \<in> set H
       | AAdd now i x \<Rightarrow> i \<notin> set H \<and> jget (pl_pooledAgents s) i = None \<and> take (length (pl_name cfg) + 7) i \<noteq> pl_name cfg @ ''_agent_''
       | _ \<Rightarrow> True))"

section \<open>The invariant\<close>

definition known :: "agent_pool \<Rightarrow> string set" where
  "known s = {i. jget (pl_pooledAgents s) i \<noteq> None}"

definition base_inv :: "agent_pool_config \<Rightarrow> agent_pool \<Rightarrow> string list \<Rightarrow> bool" where
  "base_inv cfg s H \<longleftrightarrow> length (pl_pooledAgents s) \<le> pl_maxSize cfg \<and> distinct H \<and>
     set (pl_available s) = known s - set H \<and> set (pl_busy s) = known s \<inter> set H \<and>
     (\<forall>k. pooled_id (pl_name cfg) k \<in> known s \<union> set H \<longrightarrow> k \<le> pl_agentCounter s)"

definition agent_pool_inv :: "agent_pool_config \<Rightarrow> agent_pool \<times> string list \<Rightarrow> bool" where
  "agent_pool_inv cfg = (\<lambda>(s, H). base_inv cfg s H \<and> (pl_acquiring s = [] \<or> (\<exists>i. pl_acquiring s = [i] \<and> i \<in> known s - set H)))"

lemma pooled_id_inj: "pooled_id n k = pooled_id n k' \<Longrightarrow> k = k'"
proof -
  have "last_number CHR ''_'' 10 (pooled_id n j) = j" for j
    using last_number_shown [of 10 "CHR ''_''" "n @ ''_agent''" j] by (simp add: pooled_id_def)
  then show "pooled_id n k = pooled_id n k' \<Longrightarrow> k = k'"
    by metis
qed

lemma known_upd [simp]: "known (upd_pooled i f s) = known s" "pl_acquiring (upd_pooled i f s) = pl_acquiring s"
  by (auto simp: known_def upd_pooled_def split: option.split)

lemma known_fields [simp]:
  "known (s\<lparr>pl_available := A\<rparr>) = known s" "known (s\<lparr>pl_busy := B\<rparr>) = known s" "known (s\<lparr>pl_acquiring := C\<rparr>) = known s"
  "known (s\<lparr>pl_scaling := D\<rparr>) = known s" "known (s\<lparr>pl_replacing := E\<rparr>) = known s" "known (s\<lparr>pl_lastScaleOperation := F\<rparr>) = known s"
  by (simp_all add: known_def)

lemma base_fields [simp]:
  "base_inv cfg (s\<lparr>pl_acquiring := C\<rparr>) H = base_inv cfg s H" "base_inv cfg (s\<lparr>pl_scaling := D\<rparr>) H = base_inv cfg s H"
  "base_inv cfg (s\<lparr>pl_replacing := E\<rparr>) H = base_inv cfg s H" "base_inv cfg (s\<lparr>pl_lastScaleOperation := F\<rparr>) H = base_inv cfg s H"
  by (simp_all add: base_inv_def)

lemma upd_base [simp]: "base_inv cfg (upd_pooled i f s) H = base_inv cfg s H"
proof -
  have "length (pl_pooledAgents (upd_pooled i f s)) = length (pl_pooledAgents s)" "pl_available (upd_pooled i f s) = pl_available s"
    "pl_busy (upd_pooled i f s) = pl_busy s" "pl_agentCounter (upd_pooled i f s) = pl_agentCounter s"
    by (auto simp: upd_pooled_def length_jset split: option.split)
  then show ?thesis
    by (simp add: base_inv_def)
qed

lemma create_base:
  assumes "base_inv cfg s H" "createPooledAgent cfg now s = (r, s')"
  shows "base_inv cfg s' H" "\<And>i. r = Some i \<Longrightarrow> i \<in> known s' - set H" "pl_acquiring s' = pl_acquiring s" "length (pl_pooledAgents s) < pl_maxSize cfg \<Longrightarrow> r \<noteq> None"
proof -
  define i where "i = pooled_id (pl_name cfg) (Suc (pl_agentCounter s))"
  have new: "i \<notin> known s \<union> set H"
    using assms(1) unfolding base_inv_def i_def by (metis Suc_n_not_le_n)
  have other: "k \<le> Suc (pl_agentCounter s)" if "pooled_id (pl_name cfg) k \<in> insert i (known s \<union> set H)" for k
    using that assms(1) pooled_id_inj [of "pl_name cfg" k "Suc (pl_agentCounter s)"] unfolding base_inv_def i_def by (auto intro: le_SucI)
  have "base_inv cfg s' H \<and> (\<forall>j. r = Some j \<longrightarrow> j \<in> known s' - set H) \<and> pl_acquiring s' = pl_acquiring s \<and> (length (pl_pooledAgents s) < pl_maxSize cfg \<longrightarrow> r \<noteq> None)"
  proof (cases "length (pl_pooledAgents s) \<ge> pl_maxSize cfg")
    case False
    then have s': "r = Some i" "known s' = insert i (known s)" "pl_acquiring s' = pl_acquiring s" "pl_available s' = sadd i (pl_available s)"
      "pl_busy s' = pl_busy s" "pl_agentCounter s' = Suc (pl_agentCounter s)" "length (pl_pooledAgents s') = Suc (length (pl_pooledAgents s))"
      using assms(2) new by (auto simp: createPooledAgent_def i_def [symmetric] known_def length_jset Let_def)
    then show ?thesis
      using assms(1) False new other by (auto simp: base_inv_def)
  qed (use assms in \<open>auto simp: createPooledAgent_def\<close>)
  then show "base_inv cfg s' H" "\<And>i. r = Some i \<Longrightarrow> i \<in> known s' - set H" "pl_acquiring s' = pl_acquiring s" "length (pl_pooledAgents s) < pl_maxSize cfg \<Longrightarrow> r \<noteq> None"
    by simp_all
qed

lemma remove_base:
  assumes "base_inv cfg s H"
  shows "base_inv cfg (pl_remove i s) H" "pl_acquiring (pl_remove i s) = pl_acquiring s"
proof -
  have "known (pl_remove i s) = known s - {i}" "length (pl_pooledAgents (pl_remove i s)) \<le> length (pl_pooledAgents s)"
    "set (pl_available (pl_remove i s)) = set (pl_available s) - {i} \<or> i \<notin> known s \<and> pl_available (pl_remove i s) = pl_available s"
    "set (pl_busy (pl_remove i s)) = set (pl_busy s) - {i} \<or> i \<notin> known s \<and> pl_busy (pl_remove i s) = pl_busy s"
    "pl_agentCounter (pl_remove i s) = pl_agentCounter s"
    by (auto simp: pl_remove_def known_def length_jdel_le)
  then show "base_inv cfg (pl_remove i s) H" "pl_acquiring (pl_remove i s) = pl_acquiring s"
    using assms by (auto simp: base_inv_def pl_remove_def)
qed

lemma creates_base: "base_inv cfg s H \<Longrightarrow> base_inv cfg (create_agents cfg now n s) H \<and> pl_acquiring (create_agents cfg now n s) = pl_acquiring s"
proof (induction n)
  case (Suc n)
  then show ?case
    using create_base [of cfg "create_agents cfg now n s" H now] by (cases "createPooledAgent cfg now (create_agents cfg now n s)") (auto simp: create_agents_def)
qed (simp add: create_agents_def)

lemma removes_base: "base_inv cfg s H \<Longrightarrow> base_inv cfg (fold pl_remove xs s) H \<and> pl_acquiring (fold pl_remove xs s) = pl_acquiring s"
  by (induction xs arbitrary: s) (simp_all add: remove_base)

lemma scale_base: "base_inv cfg s H \<Longrightarrow> base_inv cfg (scale cfg now d s) H \<and> pl_acquiring (scale cfg now d s) = pl_acquiring s"
  by (auto simp: scale_def creates_base removes_base Let_def)

lemma checkScaling_base: "base_inv cfg s H \<Longrightarrow> base_inv cfg (checkScaling cfg now s) H \<and> pl_acquiring (checkScaling cfg now s) = pl_acquiring s"
  by (simp add: checkScaling_def scale_base Let_def)

lemma take_base:
  assumes "base_inv cfg s H" "i \<in> known s - set H"
  shows "base_inv cfg (take_agent now i s) (H @ [i]) \<and> pl_acquiring (take_agent now i s) = pl_acquiring s"
proof -
  have "base_inv cfg (s\<lparr>pl_available := sdel i (pl_available s), pl_busy := sadd i (pl_busy s)\<rparr>) (H @ [i])"
    using assms by (auto simp: base_inv_def)
  then show ?thesis
    by (simp add: take_agent_def)
qed

lemma release_base:
  assumes "base_inv cfg s H" "i \<in> set H"
  shows "base_inv cfg (pl_release cfg now i s) (remove1 i H) \<and> pl_acquiring (pl_release cfg now i s) = pl_acquiring s"
proof (cases "i \<in> known s")
  case True
  let ?s = "s\<lparr>pl_busy := sdel i (pl_busy s), pl_available := sadd i (pl_available s)\<rparr>"
  have "base_inv cfg ?s (remove1 i H)"
    using assms True by (auto simp: base_inv_def)
  then show ?thesis
    using True checkScaling_base [of cfg "upd_pooled i _ ?s" "remove1 i H"] by (auto simp: pl_release_def known_def)
next
  case False
  then have "base_inv cfg s (remove1 i H)"
    using assms by (auto simp: base_inv_def)
  then show ?thesis
    using False by (simp add: pl_release_def known_def)
qed

lemma health_base:
  "base_inv cfg s H \<Longrightarrow> base_inv cfg (fold (check_health cfg now) is s) H \<and> pl_acquiring (fold (check_health cfg now) is s) = pl_acquiring s"
proof (induction "is" arbitrary: s)
  case (Cons i "is")
  have "base_inv cfg (check_health cfg now i s) H \<and> pl_acquiring (check_health cfg now i s) = pl_acquiring s"
    using Cons.prems remove_base [of cfg _ H i] by (auto simp: check_health_def replaceUnhealthyAgent_def Let_def split: option.split)
  then show ?case
    using Cons.IH [of "check_health cfg now i s"] by simp
qed simp

lemma acquire_new_inv:
  assumes "base_inv cfg s H" "pl_acquiring s = []" "acquire_new cfg now s = (r, s')"
  shows "agent_pool_inv cfg (s', H) \<and> (\<forall>i. r \<noteq> GotAgent i)"
  using assms create_base [of cfg s H now] by (cases "createPooledAgent cfg now s") (auto simp: acquire_new_def agent_pool_inv_def split: if_splits option.splits)

lemma agent_acquire_inv:
  assumes "base_inv cfg s H" "pl_acquiring s = []"
  shows "agent_pool_inv cfg (agent_pool_do cfg (AAcquire now) (s, H))"
proof -
  obtain r s1 where new: "acquire_new cfg now s = (r, s1)"
    by fastforce
  note n = acquire_new_inv [OF assms new]
  have "i \<in> known s - set H" if "pl_available s = i # xs" for i xs
    using assms(1) that unfolding base_inv_def by (metis list.set_intros(1))
  then have t: "base_inv cfg (checkScaling cfg now (take_agent now i s)) (H @ [i]) \<and> pl_acquiring (checkScaling cfg now (take_agent now i s)) = []"
    if "pl_available s = i # xs" for i xs
    using that take_base [OF assms(1), of i now] checkScaling_base [of cfg "take_agent now i s" "H @ [i]" now] assms(2) by auto
  show ?thesis
    using n t by (auto simp: pl_acquire_def new agent_pool_inv_def split: list.split pool_answer.split)
qed

lemma acquire_ends_inv:
  assumes "agent_pool_inv cfg (s, H)"
  shows "agent_pool_inv cfg (agent_pool_do cfg (AAcquireEnds now k) (s, H))"
proof (cases "k < length (pl_acquiring s)")
  case True
  then obtain i where i: "pl_acquiring s = [i]" "i \<in> known s - set H" "k = 0"
    using assms by (auto simp: agent_pool_inv_def)
  have "base_inv cfg (s\<lparr>pl_acquiring := []\<rparr>) H"
    using assms by (simp add: agent_pool_inv_def)
  from take_base [OF this, of i now] i show ?thesis
    by (auto simp: acquire_ends_def agent_pool_inv_def known_def Let_def)
qed (use assms in \<open>simp add: acquire_ends_def\<close>)

lemma add_base:
  assumes "base_inv cfg s H" "i \<notin> set H" "i \<notin> known s" "take (length (pl_name cfg) + 7) i \<noteq> pl_name cfg @ ''_agent_''"
  shows "base_inv cfg (snd (pl_add cfg now i x s)) H"
proof -
  have "pooled_id (pl_name cfg) k \<noteq> i" for k
    using assms(4) by (auto simp: pooled_id_def)
  then show ?thesis
    using assms(1-3) by (auto simp: pl_add_def base_inv_def known_def length_jset)
qed

lemma agent_pool_step:
  assumes "pool_rules cfg a t" "agent_pool_inv cfg t"
  shows "agent_pool_inv cfg (agent_pool_do cfg a t)"
proof -
  obtain s H where t: "t = (s, H)"
    by fastforce
  have b: "base_inv cfg s H"
    using assms(2) by (simp add: t agent_pool_inv_def)
  show ?thesis
  proof (cases "is_acquire_end a")
    case True
    then show ?thesis
      using assms(2) acquire_ends_inv by (cases a) (auto simp: t)
  next
    case False
    then have free: "pl_acquiring s = []"
      using assms(1) by (simp add: t)
    have fin: "agent_pool_inv cfg (s', H')" if "base_inv cfg s' H' \<and> pl_acquiring s' = pl_acquiring s" for s' H'
      using that free by (simp add: agent_pool_inv_def)
    show ?thesis
    proof (cases a)
      case (AAcquire now)
      then show ?thesis
        using agent_acquire_inv [OF b free] by (simp add: t)
    next
      case (ARelease now i)
      then show ?thesis
        using assms(1) release_base [OF b, of i now] by (auto simp: t intro: fin)
    next
      case (AAdd now i x)
      then have "base_inv cfg (snd (pl_add cfg now i x s)) H"
        using assms(1) by (intro add_base b) (auto simp: t known_def)
      then show ?thesis
        using AAdd by (auto simp: t pl_add_def intro!: fin)
    next
      case (AReplaceEnds now k)
      have "base_inv cfg (snd (createPooledAgent cfg now (s\<lparr>pl_replacing := R\<rparr>))) H \<and>
          pl_acquiring (snd (createPooledAgent cfg now (s\<lparr>pl_replacing := R\<rparr>))) = pl_acquiring s" for R
        using b create_base [of cfg "s\<lparr>pl_replacing := R\<rparr>" H now] by (cases "createPooledAgent cfg now (s\<lparr>pl_replacing := R\<rparr>)") auto
      then show ?thesis
        using AReplaceEnds b by (auto simp: t replace_ends_def Let_def intro!: fin)
    next
      case AShutdown
      then show ?thesis
        using b by (auto simp: t pl_shutdown_def base_inv_def known_def intro!: fin)
    qed (use False b remove_base [OF b] scale_base [OF b] health_base [OF b] in
      \<open>auto simp: t scale_ends_def performHealthChecks_def updateAgentHeartbeat_def updateAgentMetrics_def intro!: fin\<close>)
  qed
qed

interpretation agent_pool: guarded_system "pool_rules cfg" "agent_pool_do cfg" "agent_pool_inv cfg" for cfg
  by unfold_locales (rule agent_pool_step)

text \<open>
  C29. No agent is held twice. When an acquisition that creates an agent is not interrupted, only holders release, and added agents are new, the busy
  agents of the pool are exactly those that someone holds, the available ones are exactly the others, and the pool never exceeds its maximum size.
\<close>

theorem agent_pool_exclusive:
  assumes "run_ok (pool_rules cfg) (agent_pool_do cfg) acts (pl_initialize cfg now new_agent_pool, [])"
    "run (agent_pool_do cfg) acts (pl_initialize cfg now new_agent_pool, []) = (s, H)"
  shows "distinct H \<and> set (pl_busy s) = set (jkeys (pl_pooledAgents s)) \<inter> set H \<and> set (pl_available s) = set (jkeys (pl_pooledAgents s)) - set H \<and>
    length (pl_pooledAgents s) \<le> pl_maxSize cfg"
proof -
  have "base_inv cfg new_agent_pool []"
    by (simp add: base_inv_def new_agent_pool_def known_def)
  then have "agent_pool_inv cfg (pl_initialize cfg now new_agent_pool, [])"
    using creates_base [of cfg new_agent_pool "[]" now] by (simp add: agent_pool_inv_def pl_initialize_def new_agent_pool_def)
  then have "base_inv cfg s H"
    using agent_pool.guarded_run [OF assms(1)] by (simp add: assms(2) agent_pool_inv_def)
  moreover have "known s = set (jkeys (pl_pooledAgents s))"
    by (force simp: known_def jkeys_def jget_def map_of_eq_None_iff)
  ultimately show ?thesis
    by (simp add: base_inv_def)
qed

section \<open>Witness\<close>

definition w_apool_cfg :: agent_pool_config where
  "w_apool_cfg = \<lparr>pl_name = ''p'', pl_minSize = 1, pl_maxSize = 3, pl_scaleUpThreshold = 8/10, pl_scaleDownThreshold = 2/10, pl_cooldownMs = 1000,
     pl_healthCheckIntervalMs = 100\<rparr>"

definition w_apool :: "agent_pool \<times> string list" where
  "w_apool = (pl_initialize w_apool_cfg 0 new_agent_pool, [])"

definition w_apool_run :: "agent_pool_op list" where
  "w_apool_run = [AAcquire 5, AScaleEnds 0, AAcquire 6, AAcquire 7, AAcquireEnds 8 0, ARelease 9 ''p_agent_1'']"

lemma w_apool_result:
  "run_ok (pool_rules w_apool_cfg) (agent_pool_do w_apool_cfg) w_apool_run w_apool"
  "snd (run (agent_pool_do w_apool_cfg) w_apool_run w_apool) = [''p_agent_2'', ''p_agent_3'']"
  "pl_busy (fst (run (agent_pool_do w_apool_cfg) w_apool_run w_apool)) = [''p_agent_2'', ''p_agent_3'']"
  by code_simp+

theorem agent_pool_exclusive_witness:
  "snd (run (agent_pool_do w_apool_cfg) w_apool_run w_apool) = [''p_agent_2'', ''p_agent_3''] \<and>
   length (pl_pooledAgents (fst (run (agent_pool_do w_apool_cfg) w_apool_run w_apool))) \<le> 3"
  using agent_pool_exclusive [OF w_apool_result(1) [unfolded w_apool_def] prod.collapse [symmetric]] w_apool_result(2)
  by (simp add: w_apool_def w_apool_cfg_def)

section \<open>Flaws\<close>

text \<open>
  A new agent is available before the call that created it takes it (agent-pool.ts:113): a second call gets it, and then the first one too.
\<close>

lemma agent_handed_out_twice:
  "let c = w_apool_cfg\<lparr>pl_minSize := 0\<rparr>
   in snd (run (agent_pool_do c) [AAcquire 1, AAcquire 2, AAcquireEnds 3 0] (new_agent_pool, [])) = [''p_agent_1'', ''p_agent_1'']"
  by code_simp

text \<open>
  Scaling down a pool below its minimum gives \<open>slice\<close> a negative count (agent-pool.ts:223): it removes all available agents but some.
\<close>

lemma scale_down_below_minimum:
  "let c = w_apool_cfg\<lparr>pl_minSize := 5, pl_maxSize := 9\<rparr>; s = pl_remove ''p_agent_1'' (pl_initialize c 0 new_agent_pool)
   in length (pl_pooledAgents s) = 4 \<and> length (pl_pooledAgents (scale c 10 (- 1) s)) = 1"
  by code_simp

end
