(* ===== verification/Spec2Isabelle.thy ===== *)
theory Spec2Isabelle
  imports ClaimRules WorkStealing FederatedStore CircuitBreaker RateLimiter Bulkhead TieredCache DependencyGraph
    RaftElection Byzantine BusAttempts RvfLog Capabilities TopologyInv TaskFlow ConnectionPool Gossip ProofChain AgentPool
begin

text \<open>
  A verification of parts of the agent orchestration platform Ruflo (TypeScript), whose packages are under
  \<open>src/.agents/skills/ruflo/v3/@claude-flow\<close>; paths below are relative to that directory.

  \<^bold>\<open>The program's parts.\<close>
  The package \<open>claims\<close> coordinates who works on which issue: agents and humans claim issues, hand them over,
  ask for review and steal stale work. Its handlers (\<open>application\<close>) check business rules (\<open>domain/rules.ts\<close>),
  store claims in a repository and log domain events in an event store (\<open>infrastructure\<close>); a federated
  variant replicates the events between nodes with vector clocks and hybrid logical clocks. The package
  \<open>shared\<close> has the resilience primitives that protect calls to services: circuit breaker, rate limiters,
  bulkhead. The package \<open>memory\<close> caches entries in an LRU cache, alone or as the first tier over a store.
  The package \<open>plugins\<close> orders plugins by their dependencies and version ranges. The package \<open>swarm\<close> elects
  a leader and decides proposals with Raft, or decides them with a Byzantine protocol in the style of PBFT or by gossip;
  it connects agents in a topology, passes messages between them over a bus with priorities and retries,
  keeps a registry of agents and runs tasks with dependencies on them, and lends agents from a pool. The package \<open>guidance\<close> controls what
  agents may do by capabilities that can be restricted, delegated and revoked, and records what they did in a
  chain of signed envelopes. The package \<open>shared\<close> also has a
  binary event log that survives crashes, and the connection pool of the MCP server.

  \<^bold>\<open>Theories and sources.\<close>
  \<^item> \<open>Prelude\<close>: JavaScript's \<open>Map\<close>, \<open>Set\<close>, array slices and \<open>??\<close>, with the locales the components share:
    \<open>keyed_store\<close> (what a client may assume of a map), \<open>guarded_system\<close> and \<open>invariant_system\<close> (a step
    function with an invariant, and runs of it), \<open>status_table\<close> (walks through a table of status changes)
    and \<open>comparator\<close>.
  \<^item> \<open>ClaimTypes\<close>, \<open>ClaimEvents\<close>, \<open>ClaimRules\<close>: \<open>claims/src/domain/types.ts\<close>, \<open>events.ts\<close>, \<open>rules.ts\<close>.
  \<^item> \<open>VectorClock\<close>, \<open>Hlc\<close>: \<open>claims/src/infrastructure/vector-clock.ts\<close> and \<open>hlc.ts\<close>.
  \<^item> \<open>EventStore\<close>, \<open>ClaimRepository\<close>: \<open>event-store.ts\<close>, \<open>claim-repository.ts\<close> of the same directory.
  \<^item> \<open>ClaimService\<close>: \<open>claims/src/application/claim-service.ts\<close>, one definition per handler, on any repository
    and log that meet the locales it states; interpreted on the two in-memory stores. Handlers run one after the
    other, and the append of an event does not fail, as that of the in-memory store.
  \<^item> \<open>WorkStealing\<close>: \<open>claims/src/application/work-stealing-service.ts\<close> with its event bus; \<open>steal\<close> is split at its wait
    between checks and writes, and other calls may come between the two parts.
  \<^item> \<open>FederatedStore\<close>: \<open>claims/src/infrastructure/federated-event-store.ts\<close> and
    \<open>federated-claim-repository.ts\<close>; the service's locales are interpreted on them a second time.
  \<^item> \<open>CircuitBreaker\<close>, \<open>RateLimiter\<close>, \<open>Bulkhead\<close>: the files of these names in \<open>shared/src/resilience\<close>.
  \<^item> \<open>LruCache\<close>, \<open>TieredCache\<close>: \<open>memory/src/cache-manager.ts\<close>; the linked list of the cache is a heap of
    nodes with \<open>prev\<close> and \<open>next\<close> pointers, and every pointer assignment of the source is a heap update.
  \<^item> \<open>SemVer\<close>, \<open>DependencyGraph\<close>: \<open>plugins/src/registry/dependency-graph.ts\<close>.
  \<^item> \<open>Raft\<close>, \<open>RaftElection\<close>: \<open>swarm/src/consensus/raft.ts\<close>, a node with its messages and proposals, and a
    cluster of nodes that run elections, exchange messages and get direct calls of \<open>handleVoteRequest\<close> and
    \<open>handleAppendEntries\<close>.
  \<^item> \<open>Byzantine\<close>: \<open>swarm/src/consensus/byzantine.ts\<close>, one node with the continuations of its handlers.
  \<^item> \<open>Gossip\<close>: \<open>swarm/src/consensus/gossip.ts\<close>, one node with and without a transport.
  \<^item> \<open>Deque\<close>, \<open>MessageQueue\<close>, \<open>MessageBus\<close>, \<open>BusAttempts\<close>: \<open>swarm/src/message-bus.ts\<close>, from the circular
    buffer, whose pushing and popping are used through the locale \<open>fifo_queue\<close>, to the bus with its pending immediates, timers
    and deliveries, which are the steps of its event loop.
  \<^item> \<open>Topology\<close>, \<open>TopologyInv\<close>: \<open>swarm/src/topology-manager.ts\<close>, the operations and the invariant they keep.
  \<^item> \<open>AgentRegistry\<close>, \<open>TaskOrchestrator\<close>, \<open>TaskFlow\<close>: \<open>swarm/src/coordination/agent-registry.ts\<close> and
    \<open>task-orchestrator.ts\<close>; the orchestrator calls the registry, and the third theory proves what they do together.
  \<^item> \<open>AgentPool\<close>: \<open>swarm/src/agent-pool.ts\<close>.
  \<^item> \<open>RvfFormat\<close>, \<open>RvfLog\<close>: \<open>shared/src/events/rvf-event-log.ts\<close>, the bytes of the file at their width and
    the log over a map of files; JSON encoding is a parameter with its round trip as a hypothesis.
  \<^item> \<open>Capabilities\<close>, \<open>ProofChain\<close>: \<open>guidance/src/capabilities.ts\<close> and \<open>proof.ts\<close>; the hash functions and the
    text of JSON values are parameters of the latter, and the values they are applied to are computed.
  \<^item> \<open>ConnectionPool\<close>: \<open>shared/src/mcp/connection-pool.ts\<close>, with calls that wait or are suspended.

  \<^bold>\<open>How state and operations correspond.\<close>
  A class is a record of its fields; a method is a function from its arguments and the record to its
  result and the new record; a thrown error, a returned failure or a rejected promise is a value of a sum
  or option type. A \<open>Map\<close> or \<open>Set\<close> keeps its insertion order, because iteration order is observable.
  Clocks and random identifiers are arguments; where one handler reads the clock several times it is given
  the \<open>k\<close>-th reading for each of them. Code outside the packages (issue and claimant directories, the
  federation bridge, loaders and writers of the cache, protected functions, subscribers) is a parameter or
  an outcome passed to the definition that awaits it. JavaScript runs a handler until it awaits; a method
  that awaits is split there, and the theorems on concurrent behaviour quantify over every interleaving of
  the pieces (circuit breaker, bulkhead, steals, tiered cache, elections, Byzantine handlers, gossip, message bus,
  agent pool, connection pool). Numbers are integers or exact rationals: times, counters and sizes stay below the range
  in which the source's numbers are exact; the health of a pooled agent is rounded to doubles. How values of the
  context of a capability check turn into numbers is a parameter for strings and objects.

  \<^bold>\<open>What the lemmas show.\<close>
  \<^item> Claims: replaying the log gives the stored claims in every reachable state of the service; ownership
    only moves through an accepted handoff; terminal claims stay terminal; indexes and claims agree; stealing keeps
    its rules, and a stolen claim is locked until a contest is resolved, unless two steals of it overlap.
  \<^item> Replication: concurrent writes of two nodes are detected on both sides, replicas converge, clocks only
    move up, a failed publish is rolled back but for the version counter; in every run of the in-memory
    store snapshots and full replay agree.
  \<^item> Clocks: hybrid timestamps strictly increase, are causal and stay near the wall clock; the vector clock
    comparison decides the causal order.
  \<^item> Resilience: an open circuit rejects until its timeout or a reset by hand, and its changes of state follow the documented
    diagram; both limiters keep their rate in every window; running and waiting calls stay within the
    bulkhead's limits with no call lost; the semaphore excludes and is fair.
  \<^item> Cache: the pointer structure refines a list ordered by recency, keeps its bounds, returns what was
    stored, and every operation terminates for a positive size; the tiers are transparent over their store
    as long as a store of a key does not overlap another store or a lookup of the same key.
  \<^item> Plugins: version ranges denote intervals and lists of them intersections; cycle detection is exact; load order,
    removal order and depth levels respect the dependencies; after a removal the load order does so when no
    installed plugin declared a dependency on the removed one.
  \<^item> Raft: each leader has won an election in its term, and elections won in their own term have different terms,
    as long as a direct call of \<open>handleAppendEntries\<close> replaces a vote only in the name of a winner of the term; a decided proposal has its quorum and is final.
  \<^item> Byzantine consensus: a proposal is accepted only by a quorum of different nodes, and two quorums share
    a correct node whenever at most \<open>f\<close> are faulty.
  \<^item> Gossip: decisions have the votes they need and are final; a node sends every message at most once to at
    most \<open>fanout\<close> neighbours, and only messages of its own.
  \<^item> Message bus: the circular buffer and the four queues refine lists; messages are delivered only to
    subscribers they are for and that do not filter them out; no queued message is left without a pending
    step that will process it; a message is tried at most as often as configured for each recipient.
  \<^item> Topology: adjacency, connections and roles agree in every state reached without overwriting the role or
    the connections of a node by \<open>updateNode\<close>; the queen of a hierarchy, while there is one, is linked with every agent; the route search returns a shortest path whenever there is one.
  \<^item> Tasks: the cycle check is exact; dependencies and dependents mirror each other and are acyclic; a task
    runs only after its dependencies; as long as some task is not completed, one can go on.
  \<^item> Event log: what was acknowledged is read back after any crash, and a damaged tail is cut off; the log
    refines a list of events. A write that fails while the process goes on is excluded.
  \<^item> Capabilities: a revocation reaches exactly the capability and everything the history of calls delegated from it; the
    check allows exactly what a live capability covers, and nothing that comes from a capability the history revoked;
    delegation only narrows, expiry times included as long as \<open>expire\<close> is not called.
  \<^item> Proof chain: a chain built by the operations verifies, and someone who edits an export gets at most an
    initial part of the chain past the verification, given that signatures cannot be forged.
  \<^item> Agent pool: busy agents are exactly those that someone holds, unless an acquisition is interrupted.
  \<^item> Connection pool: no connection is handed out twice, the limits hold, and a client waits only while all
    connections are busy.

  Lemmas that show a flaw of the source are kept beside the theorems, among them
  \<open>ClaimService.live_claim_overwritten\<close>, \<open>WorkStealing.marked_claim_not_listed\<close>,
  \<open>WorkStealing.overlapping_steals_both_succeed\<close>, \<open>EventStore.snapshot_survives_shutdown\<close>,
  \<open>TieredCache.overlapped_lookup_serves_stale\<close>, \<open>LruCache.negative_size_hangs\<close>,
  \<open>DependencyGraph.readded_plugin_loads_late\<close>, \<open>RaftElection.stale_votes_elect_second_leader\<close>,
  \<open>RaftElection.append_call_elects_second_leader\<close>, \<open>Capabilities.expired_parent_outlived\<close>,
  \<open>Capabilities.check_coerces_and_throws\<close>, \<open>TopologyInv.overwritten_links_dangle\<close>, \<open>TopologyInv.no_queen_before_rebalance\<close>,
  \<open>Byzantine.equivocation_splits_decision\<close>, \<open>TopologyInv.rebalanced_link_one_way\<close>,
  \<open>TopologyInv.updated_role_not_indexed\<close>, \<open>TaskFlow.refused_assignment_strands_dependent\<close>,
  \<open>TaskFlow.retried_task_keeps_agent_busy\<close>, \<open>TaskFlow.cancelled_task_revived\<close>,
  \<open>ConnectionPool.waits_beside_idle\<close>, \<open>Gossip.received_proposal_not_forwarded\<close>,
  \<open>Gossip.rejected_proposal_accepted\<close>, \<open>ProofChain.test_results_not_hashed\<close> and \<open>AgentPool.agent_handed_out_twice\<close>.

  \<^bold>\<open>Termination.\<close>
  No definition uses fuel. The depth-first searches of the dependency graph, the cycle check of tasks, the
  breadth-first search of the topology and its random rewiring, the cascade of revocations, the draining of a
  mailbox and the splitting of version ranges are functions with a termination proof on what is left to
  visit, to draw or to read. The eviction loops of the cache and the walk up a delegation chain, which may run
  forever, are partial functions into an option type, and that they return is proved
  (\<open>LruCache.lru_cache_refines\<close>, for a positive size, and \<open>Capabilities.delegation_chain_narrows\<close>).

  \<^bold>\<open>Not modelled.\<close>
  Of the packages above: overlapping handlers of the claim service and appends that fail under it, a new configuration
  for a bus in use, automatic assignment and statistics of the claim service (floating-point scores),
  the federation bridge and load balancer, the claim commands and tools, retry with random jitter, timers
  and the request middleware of the limiters, the debugging export of the graph, Raft's in-process path
  without a transport, averages and histories of statistics (floating point), texts of tasks and error
  messages, and events that are only emitted. Of the rest: the coordinators of
  \<open>swarm\<close>, the gates and ledger of \<open>guidance\<close> (regular expressions and averages), the
  validators of \<open>security\<close> (schemas of a library), the command line, the vector index and database backends of
  the memory package, neural, embedding and benchmark code, servers and transports, and vendored or generated
  files, which are numeric code, input and output, or glue.
\<close>

end
